(* ===== verification/Prelude.thy ===== *)
theory Prelude
  imports Main "HOL-Library.Word" "HOL-Library.Multiset" "HOL-Library.Signed_Division"
begin

unbundle bit_operations_syntax

text \<open>
  The shared base of the development: the error-code convention of the C sources
  (\<open>UErrorCode\<close>, \<open>U_FAILURE\<close>), the fixed-width integer conventions, the collections that the
  component proofs feed to the simplifier, and the generic facts on lists, words and
  three-way comparators that more than one component uses.
\<close>

section \<open>Rule collections\<close>

named_theorems icu_consts \<open>constants of the sources, unfolded for evaluation\<close>
named_theorems icu_range \<open>bounds that keep a C expression inside its type\<close>

section \<open>Error codes\<close>

text \<open>
  \<open>UErrorCode\<close> is a C enum whose negative values are warnings and whose positive values are
  failures; every entry point tests it with \<open>U_FAILURE\<close> before it does anything.
\<close>

type_synonym UErrorCode = int

definition U_FAILURE :: "UErrorCode \<Rightarrow> bool" where
  "U_FAILURE x \<longleftrightarrow> x > 0"

abbreviation (input) U_ZERO_ERROR :: UErrorCode where "U_ZERO_ERROR \<equiv> 0"
abbreviation (input) U_ILLEGAL_ARGUMENT_ERROR :: UErrorCode where "U_ILLEGAL_ARGUMENT_ERROR \<equiv> 1"
abbreviation (input) U_INTERNAL_PROGRAM_ERROR :: UErrorCode where "U_INTERNAL_PROGRAM_ERROR \<equiv> 5"
abbreviation (input) U_MEMORY_ALLOCATION_ERROR :: UErrorCode where "U_MEMORY_ALLOCATION_ERROR \<equiv> 7"
abbreviation (input) U_INDEX_OUTOFBOUNDS_ERROR :: UErrorCode where "U_INDEX_OUTOFBOUNDS_ERROR \<equiv> 8"
abbreviation (input) U_BUFFER_OVERFLOW_ERROR :: UErrorCode where "U_BUFFER_OVERFLOW_ERROR \<equiv> 15"
abbreviation (input) U_NO_WRITE_PERMISSION :: UErrorCode where "U_NO_WRITE_PERMISSION \<equiv> 30"

lemma U_FAILURE_numeral [simp]:
  "\<not> U_FAILURE 0" "U_FAILURE 1" "U_FAILURE (numeral k)"
  by (simp_all add: U_FAILURE_def)

section \<open>Fixed-width signed integers\<close>

text \<open>
  Two's complement reduction of an exact integer to 32 and 64 bits. Signed overflow is
  undefined in C; the targets the sources are built for wrap, and the bounds lemmas of the
  components show where it cannot happen at all.
\<close>

definition wrap32 :: "int \<Rightarrow> int" where
  "wrap32 x = (x + 2 ^ 31) mod 2 ^ 32 - 2 ^ 31"

definition wrap64 :: "int \<Rightarrow> int" where
  "wrap64 x = (x + 2 ^ 63) mod 2 ^ 64 - 2 ^ 63"

lemma wrap32_id [icu_range]: "- (2 ^ 31) \<le> x \<Longrightarrow> x < 2 ^ 31 \<Longrightarrow> wrap32 x = x"
  by (simp add: wrap32_def)

lemma wrap64_id [icu_range]: "- (2 ^ 63) \<le> x \<Longrightarrow> x < 2 ^ 63 \<Longrightarrow> wrap64 x = x"
  by (simp add: wrap64_def)

lemma wrap32_bounds: "- (2 ^ 31) \<le> wrap32 x \<and> wrap32 x < 2 ^ 31"
  by (simp add: wrap32_def)

lemma wrap64_bounds: "- (2 ^ 63) \<le> wrap64 x \<and> wrap64 x < 2 ^ 63"
  by (simp add: wrap64_def)

text \<open>Number of binary digits.\<close>

fun bit_length :: "nat \<Rightarrow> nat" where
  "bit_length n = (if n = 0 then 0 else Suc (bit_length (n div 2)))"

declare bit_length.simps [simp del]

lemma bit_length_ge: "0 < n \<Longrightarrow> 2 ^ (bit_length n - 1) \<le> n"
proof (induction n rule: bit_length.induct)
  case (1 n)
  show ?case
  proof (cases "n div 2 = 0")
    case True
    with 1 show ?thesis by (simp add: bit_length.simps [of n] bit_length.simps [of 0])
  next
    case False
    with 1 have "2 ^ (bit_length (n div 2) - 1) \<le> n div 2" by simp
    moreover have "bit_length (n div 2) \<noteq> 0" using False by (simp add: bit_length.simps [of "n div 2"])
    ultimately show ?thesis using 1 False
      by (cases "bit_length (n div 2)") (auto simp: bit_length.simps [of n])
  qed
qed

lemma bit_length_less: "n < 2 ^ bit_length n"
proof (induction n rule: bit_length.induct)
  case (1 n)
  then show ?case by (cases "n = 0") (auto simp: bit_length.simps [of n])
qed

lemma bit_length_le: "n < 2 ^ k \<Longrightarrow> bit_length n \<le> k"
proof (induction n arbitrary: k rule: bit_length.induct)
  case (1 n)
  show ?case
  proof (cases "n = 0")
    case False
    with 1(2) obtain j where j: "k = Suc j" by (cases k) auto
    then have "n div 2 < 2 ^ j" using 1(2) by simp
    from "1.IH" [OF False this] False j show ?thesis by (simp add: bit_length.simps [of n])
  qed (simp add: bit_length.simps)
qed

section \<open>Arrays\<close>

text \<open>
  A C array is a list. \<open>memmove_items a d s n\<close> is \<open>memmove(a+d, a+s, n)\<close> counted in items,
  inside one array; the C library lets the two ranges overlap.
\<close>

definition memmove_items :: "'a list \<Rightarrow> nat \<Rightarrow> nat \<Rightarrow> nat \<Rightarrow> 'a list" where
  "memmove_items a d s n = take d a @ take n (drop s a) @ drop (d + n) a"

lemma length_memmove_items [simp]:
  "d + n \<le> length a \<Longrightarrow> s + n \<le> length a \<Longrightarrow> length (memmove_items a d s n) = length a"
  by (simp add: memmove_items_def)

lemma nth_memmove_items:
  assumes "d + n \<le> length a" "s + n \<le> length a" "i < length a"
  shows "memmove_items a d s n ! i = (if d \<le> i \<and> i < d + n then a ! (s + (i - d)) else a ! i)"
proof -
  have "length (take n (drop s a)) = n" using assms by simp
  with assms show ?thesis by (auto simp: memmove_items_def nth_append)
qed

text \<open>The items with index in \<open>[s, l)\<close>.\<close>

definition seg :: "'a list \<Rightarrow> nat \<Rightarrow> nat \<Rightarrow> 'a list" where
  "seg a s l = take (l - s) (drop s a)"

lemma length_seg [simp]: "l \<le> length a \<Longrightarrow> length (seg a s l) = l - s"
  by (simp add: seg_def)

lemma nth_seg [simp]: "l \<le> length a \<Longrightarrow> i < l - s \<Longrightarrow> seg a s l ! i = a ! (s + i)"
  by (simp add: seg_def)

lemma set_seg: "l \<le> length a \<Longrightarrow> set (seg a s l) = {a ! k |k. s \<le> k \<and> k < l}"
proof -
  assume l: "l \<le> length a"
  show ?thesis
  proof (intro set_eqI iffI)
    fix x assume "x \<in> set (seg a s l)"
    then obtain i where "i < l - s" "x = a ! (s + i)" using l by (auto simp: in_set_conv_nth)
    then show "x \<in> {a ! k |k. s \<le> k \<and> k < l}" by (auto intro!: exI [of _ "s + i"])
  next
    fix x assume "x \<in> {a ! k |k. s \<le> k \<and> k < l}"
    then obtain k where "s \<le> k" "k < l" "x = a ! k" by auto
    then show "x \<in> set (seg a s l)"
      using l by (auto simp: in_set_conv_nth intro!: exI [of _ "k - s"])
  qed
qed

lemma seg_append: "s \<le> m \<Longrightarrow> m \<le> l \<Longrightarrow> l \<le> length a \<Longrightarrow> seg a s l = seg a s m @ seg a m l"
  by (rule nth_equalityI) (auto simp: nth_append add.commute)

lemma seg_cong:
  "length a = length b \<Longrightarrow> l \<le> length a \<Longrightarrow> (\<And>k. s \<le> k \<Longrightarrow> k < l \<Longrightarrow> a ! k = b ! k)
     \<Longrightarrow> seg a s l = seg b s l"
  by (rule nth_equalityI) auto

lemma seg_full [simp]: "seg a 0 (length a) = a"
  by (simp add: seg_def)

text \<open>\<open>b\<close> is \<open>a\<close> with the items of \<open>[s, l)\<close> rearranged and nothing else changed.\<close>

definition perm_within :: "'a list \<Rightarrow> 'a list \<Rightarrow> nat \<Rightarrow> nat \<Rightarrow> bool" where
  "perm_within a b s l \<longleftrightarrow>
     length b = length a \<and> mset (seg b s l) = mset (seg a s l)
     \<and> (\<forall>k<length a. k < s \<or> l \<le> k \<longrightarrow> b ! k = a ! k)"

lemma perm_within_refl [simp]: "perm_within a a s l"
  by (simp add: perm_within_def)

lemma perm_within_trans: "perm_within a b s l \<Longrightarrow> perm_within b c s l \<Longrightarrow> perm_within a c s l"
  by (auto simp: perm_within_def)

lemma perm_within_mono:
  assumes "perm_within a b s l" "s' \<le> s" "s \<le> l" "l \<le> l'" "l' \<le> length a"
  shows "perm_within a b s' l'"
proof -
  have len: "length b = length a" and out: "\<And>k. k < length a \<Longrightarrow> k < s \<or> l \<le> k \<Longrightarrow> b ! k = a ! k"
    using assms(1) by (auto simp: perm_within_def)
  have split: "seg c s' l' = seg c s' s @ seg c s l @ seg c l l'" if "length c = length a" for c :: "'a list"
    using assms that seg_append [of s' s l' c] seg_append [of s l l' c] by simp
  have "seg b s' s = seg a s' s" "seg b l l' = seg a l l'"
    using assms len by (auto intro!: seg_cong out)
  then have "mset (seg b s' l') = mset (seg a s' l')"
    using assms(1) split [of a] split [of b] len by (simp add: perm_within_def)
  with len out assms show ?thesis by (auto simp: perm_within_def)
qed

lemma perm_within_set:
  "perm_within a b s l \<Longrightarrow> l \<le> length a \<Longrightarrow> set (seg b s l) = set (seg a s l)"
  by (metis perm_within_def set_mset_mset)

lemma perm_within_nth:
  assumes "perm_within a b s l" "l \<le> length a" "s \<le> k" "k < l"
  obtains k' where "s \<le> k'" "k' < l" "b ! k = a ! k'"
proof -
  have "b ! k \<in> set (seg b s l)"
    using assms by (auto simp: set_seg perm_within_def)
  then have "b ! k \<in> set (seg a s l)" using perm_within_set [OF assms(1,2)] by simp
  then show ?thesis using that assms by (auto simp: set_seg)
qed

section \<open>Three-way comparators\<close>

text \<open>
  The contract of a comparison callback (\<open>UComparator\<close>, \<open>uarrsort.h\<close>): a negative, zero or
  positive result for less, equal, greater, as a total preorder.
\<close>

locale comparator =
  fixes cmp :: "'a \<Rightarrow> 'a \<Rightarrow> int"
  assumes flip: "cmp x y < 0 \<longleftrightarrow> cmp y x > 0"
    and le_trans: "cmp x y \<le> 0 \<Longrightarrow> cmp y z \<le> 0 \<Longrightarrow> cmp x z \<le> 0"
begin

lemma cmp_refl [simp]: "cmp x x = 0"
  using flip [of x x] by linarith

lemma cmp_zero_sym: "cmp x y = 0 \<longleftrightarrow> cmp y x = 0"
  using flip [of x y] flip [of y x] by linarith

lemma cmp_le_flip: "cmp x y \<le> 0 \<longleftrightarrow> cmp y x \<ge> 0"
  using flip [of x y] flip [of y x] by linarith

lemma le_total: "cmp x y \<le> 0 \<or> cmp y x \<le> 0"
  using flip [of x y] by linarith

lemma less_le_trans: "cmp x y < 0 \<Longrightarrow> cmp y z \<le> 0 \<Longrightarrow> cmp x z < 0"
  using le_trans [of x y z] le_trans [of y z x] flip [of x y] flip [of z x] cmp_zero_sym [of x z]
  by fastforce

lemma le_less_trans: "cmp x y \<le> 0 \<Longrightarrow> cmp y z < 0 \<Longrightarrow> cmp x z < 0"
  using le_trans [of x y z] le_trans [of z x y] flip [of y z] cmp_zero_sym [of x z]
  by fastforce

lemma equiv_trans: "cmp x y = 0 \<Longrightarrow> cmp y z = 0 \<Longrightarrow> cmp x z = 0"
  using le_trans [of x y z] le_trans [of z y x] cmp_le_flip [of z x] cmp_zero_sym [of y z]
    cmp_zero_sym [of x y] by linarith

end

end
