(* ===== verification/ArraySort.thy ===== *)
theory ArraySort
  imports Prelude
begin

text \<open>
  \<open>Source/icu/uarrsort.c\<close>: the array sort used by the other components. An array of
  fixed-size items is a list of items, the address \<open>array+i*itemSize\<close> is the index \<open>i\<close>, and
  \<open>memcpy\<close>/\<open>memmove\<close> move whole items. The comparison callback and its context are
  parameters; \<open>malloc\<close> says whether an allocation of that many bytes succeeds. The quick sort
  scans have no bounds check in C: running off the array, and not terminating, is \<open>None\<close>
  here, and the theorems show that a comparator that is a total preorder excludes both. Indices are
  \<open>int32_t\<close> in C: the sum of two indices that leaves 32 bits is \<open>None\<close> too, since the index computed from
  it is negative. The offsets \<open>i*itemSize\<close> stay inside 32 bits for an array of less than \<open>2^31\<close> bytes, which
  the theorems assume.
\<close>

section \<open>Comparators\<close>

abbreviation (input) MIN_QSORT :: nat where "MIN_QSORT \<equiv> 9"
abbreviation (input) STACK_ITEM_SIZE :: nat where "STACK_ITEM_SIZE \<equiv> 200"

type_synonym ('c, 'a) UComparator = "'c \<Rightarrow> 'a \<Rightarrow> 'a \<Rightarrow> int"

definition uprv_uint16Comparator :: "('c, 16 word) UComparator" where
  "uprv_uint16Comparator context left right = uint left - uint right"

definition uprv_int32Comparator :: "('c, 32 word) UComparator" where
  "uprv_int32Comparator context left right = wrap32 (sint left - sint right)"

definition uprv_uint32Comparator :: "('c, 32 word) UComparator" where
  "uprv_uint32Comparator context l r = (if l < r then -1 else if l = r then 0 else 1)"

section \<open>Insertion sort with binary search\<close>

text \<open>\<open>(start+limit)/2\<close> in \<open>int32_t\<close>.\<close>

definition middle :: "nat \<Rightarrow> nat \<Rightarrow> nat option" where
  "middle start limit = (if start + limit < 2 ^ 31 then Some ((start + limit) div 2) else None)"

lemma middle_bounds: "middle start limit = Some i \<Longrightarrow> 9 \<le> limit - start \<Longrightarrow> start < i \<and> i < limit"
  by (auto simp: middle_def split: if_splits)

function binarySearchLoop ::
    "('c, 'a) UComparator \<Rightarrow> 'c \<Rightarrow> 'a list \<Rightarrow> 'a \<Rightarrow> nat \<Rightarrow> nat \<Rightarrow> bool \<Rightarrow> (nat \<times> nat \<times> bool) option" where
  "binarySearchLoop cmp context array item start limit found =
     (if limit - start \<ge> MIN_QSORT then
        case middle start limit of
          None \<Rightarrow> None
        | Some i \<Rightarrow>
            let diff = cmp context item (array ! i) in
            if diff = 0 then binarySearchLoop cmp context array item (i + 1) limit True
            else if diff < 0 then binarySearchLoop cmp context array item start i found
            else binarySearchLoop cmp context array item i limit found
      else Some (start, limit, found))"
  by pat_completeness auto
termination
  by (relation "measure (\<lambda>(cmp, context, array, item, start, limit, found). limit - start)") (auto dest: middle_bounds)

function linearSearchLoop ::
    "('c, 'a) UComparator \<Rightarrow> 'c \<Rightarrow> 'a list \<Rightarrow> 'a \<Rightarrow> nat \<Rightarrow> nat \<Rightarrow> bool \<Rightarrow> nat \<times> bool" where
  "linearSearchLoop cmp context array item start limit found =
     (if start < limit then
        let diff = cmp context item (array ! start) in
        if diff = 0 then linearSearchLoop cmp context array item (start + 1) limit True
        else if diff < 0 then (start, found)
        else linearSearchLoop cmp context array item (start + 1) limit found
      else (start, found))"
  by pat_completeness auto
termination
  by (relation "measure (\<lambda>(cmp, context, array, item, start, limit, found). limit - start)") auto

declare binarySearchLoop.simps [simp del] linearSearchLoop.simps [simp del]

definition uprv_stableBinarySearch ::
    "'a list \<Rightarrow> nat \<Rightarrow> 'a \<Rightarrow> ('c, 'a) UComparator \<Rightarrow> 'c \<Rightarrow> int option" where
  "uprv_stableBinarySearch array limit item cmp context =
     map_option (\<lambda>(start, limit', found).
         let (start', found') = linearSearchLoop cmp context array item start limit' found
         in if found' then int start' - 1 else NOT (int start'))
       (binarySearchLoop cmp context array item 0 limit False)"

function insertionSortLoop ::
    "('c, 'a) UComparator \<Rightarrow> 'c \<Rightarrow> nat \<Rightarrow> nat \<Rightarrow> 'a list \<Rightarrow> 'a list option" where
  "insertionSortLoop cmp context len j array =
     (if j < len then
        let item = array ! j in
        case uprv_stableBinarySearch array j item cmp context of
          None \<Rightarrow> None
        | Some r \<Rightarrow>
            let insertionPoint = nat (if r < 0 then NOT r else r + 1);
                array' = (if insertionPoint < j
                          then (memmove_items array (insertionPoint + 1) insertionPoint
                              (j - insertionPoint))[insertionPoint := item]
                          else array)
            in insertionSortLoop cmp context len (j + 1) array'
      else Some array)"
  by pat_completeness auto
termination
  by (relation "measure (\<lambda>(cmp, context, len, j, array). len - j)") auto

declare insertionSortLoop.simps [simp del]

definition doInsertionSort ::
    "'a list \<Rightarrow> nat \<Rightarrow> ('c, 'a) UComparator \<Rightarrow> 'c \<Rightarrow> 'a list option" where
  "doInsertionSort array len cmp context = insertionSortLoop cmp context len 1 array"

definition insertionSort ::
    "(nat \<Rightarrow> bool) \<Rightarrow> 'a list \<Rightarrow> nat \<Rightarrow> nat \<Rightarrow> ('c, 'a) UComparator \<Rightarrow> 'c \<Rightarrow> UErrorCode
       \<Rightarrow> ('a list \<times> UErrorCode) option" where
  "insertionSort malloc array len itemSize cmp context errorCode =
     (if itemSize \<le> STACK_ITEM_SIZE \<or> malloc itemSize
      then map_option (\<lambda>a. (a, errorCode)) (doInsertionSort array len cmp context)
      else Some (array, U_MEMORY_ALLOCATION_ERROR))"

section \<open>Quick sort\<close>

function scanLeft :: "('c, 'a) UComparator \<Rightarrow> 'c \<Rightarrow> 'a list \<Rightarrow> 'a \<Rightarrow> nat \<Rightarrow> nat option" where
  "scanLeft cmp context array x left =
     (if left < length array then
        if cmp context (array ! left) x < 0 then scanLeft cmp context array x (left + 1)
        else Some left
      else None)"
  by pat_completeness auto
termination
  by (relation "measure (\<lambda>(cmp, context, array, x, left). length array - left)") auto

fun scanRight :: "('c, 'a) UComparator \<Rightarrow> 'c \<Rightarrow> 'a list \<Rightarrow> 'a \<Rightarrow> nat \<Rightarrow> nat option" where
  "scanRight cmp context array x 0 = None"
| "scanRight cmp context array x (Suc r) =
     (if r < length array then
        if cmp context x (array ! r) < 0 then scanRight cmp context array x r else Some (Suc r)
      else None)"

declare scanLeft.simps [simp del]

lemma scanLeft_ge: "scanLeft cmp ctx array x left = Some l \<Longrightarrow> left \<le> l"
proof (induction "length array - left" arbitrary: left rule: less_induct)
  case less
  then have "left < length array" by (simp add: scanLeft.simps [of _ _ _ _ left] split: if_splits)
  then have "length array - Suc left < length array - left" by simp
  with less.prems less.hyps [of "Suc left"] show ?case
    by (simp add: scanLeft.simps [of _ _ _ _ left] split: if_splits)
qed

lemma scanRight_le: "scanRight cmp ctx array x right = Some r \<Longrightarrow> r \<le> right"
  by (induction right) (auto split: if_splits)

definition swap_items :: "'a list \<Rightarrow> nat \<Rightarrow> nat \<Rightarrow> 'a list" where
  "swap_items a i j = a[i := a ! j, j := a ! i]"

function partitionLoop ::
    "('c, 'a) UComparator \<Rightarrow> 'c \<Rightarrow> 'a list \<Rightarrow> 'a \<Rightarrow> nat \<Rightarrow> nat \<Rightarrow> ('a list \<times> nat \<times> nat) option" where
  "partitionLoop cmp context array x left right =
     (case scanLeft cmp context array x left of
        None \<Rightarrow> None
      | Some l \<Rightarrow>
          (case scanRight cmp context array x right of
             None \<Rightarrow> None
           | Some r \<Rightarrow>
               if l < r then
                 let r' = r - 1;
                     array' = (if l < r' then swap_items array l r' else array);
                     l' = l + 1
                 in if l' < r' then partitionLoop cmp context array' x l' r'
                    else Some (array', l', r')
               else Some (array, l, r)))"
  by pat_completeness auto
termination
  by (relation "measure (\<lambda>(cmp, context, array, x, left, right). right - left)")
    (auto dest!: scanLeft_ge scanRight_le)

declare partitionLoop.simps [simp del]

partial_function (option) subQuickSort ::
    "('c, 'a) UComparator \<Rightarrow> 'c \<Rightarrow> 'a list \<Rightarrow> nat \<Rightarrow> nat \<Rightarrow> 'a list option" where
  "subQuickSort cmp context array start limit =
     (if start + MIN_QSORT \<ge> limit
      then map_option (\<lambda>a. take start array @ a) (doInsertionSort (drop start array) (limit - start) cmp context)
      else
        Option.bind (middle start limit) (\<lambda>m. Option.bind (partitionLoop cmp context array (array ! m) start limit)
          (\<lambda>(array1, left, right).
             if int right - int start < int limit - int left then
               Option.bind
                 (if start < right - 1 then subQuickSort cmp context array1 start right
                  else Some array1)
                 (\<lambda>array2. if left < limit - 1 then subQuickSort cmp context array2 left limit
                           else Some array2)
             else
               Option.bind
                 (if left < limit - 1 then subQuickSort cmp context array1 left limit
                  else Some array1)
                 (\<lambda>array2. if start < right - 1 then subQuickSort cmp context array2 start right
                           else Some array2))))"

declare subQuickSort.simps [code]

definition quickSort ::
    "(nat \<Rightarrow> bool) \<Rightarrow> 'a list \<Rightarrow> nat \<Rightarrow> nat \<Rightarrow> ('c, 'a) UComparator \<Rightarrow> 'c \<Rightarrow> UErrorCode
       \<Rightarrow> ('a list \<times> UErrorCode) option" where
  "quickSort malloc array len itemSize cmp context errorCode =
     (if itemSize \<le> STACK_ITEM_SIZE \<or> malloc (2 * itemSize)
      then map_option (\<lambda>a. (a, errorCode)) (subQuickSort cmp context array 0 len)
      else Some (array, U_MEMORY_ALLOCATION_ERROR))"

section \<open>The API\<close>

text \<open>
  Null pointers are \<open>None\<close>: the array, the comparator and the error-code pointer. The outer
  option is \<open>None\<close> when the call does not return (or reads outside the array).
\<close>

definition uprv_sortArray ::
    "(nat \<Rightarrow> bool) \<Rightarrow> 'a list option \<Rightarrow> int \<Rightarrow> int \<Rightarrow> ('c, 'a) UComparator option \<Rightarrow> 'c \<Rightarrow> bool
       \<Rightarrow> UErrorCode option \<Rightarrow> ('a list option \<times> UErrorCode option) option" where
  "uprv_sortArray malloc array len itemSize cmp context sortStable pErrorCode =
     (case pErrorCode of
        None \<Rightarrow> Some (array, None)
      | Some ec \<Rightarrow>
          if U_FAILURE ec then Some (array, Some ec)
          else if (len > 0 \<and> array = None) \<or> len < 0 \<or> itemSize \<le> 0 \<or> cmp = None
          then Some (array, Some U_ILLEGAL_ARGUMENT_ERROR)
          else if len \<le> 1 then Some (array, Some ec)
          else if len < int MIN_QSORT \<or> sortStable then
            map_option (\<lambda>(a, e). (Some a, Some e))
              (insertionSort malloc (the array) (nat len) (nat itemSize) (the cmp) context ec)
          else
            map_option (\<lambda>(a, e). (Some a, Some e))
              (quickSort malloc (the array) (nat len) (nat itemSize) (the cmp) context ec))"


section \<open>The sort under the comparator contract\<close>

locale sort_client =
  fixes cmp :: "('c, 'a) UComparator" and ctx :: 'c
  assumes contract: "comparator (cmp ctx)"

sublocale sort_client \<subseteq> comparator "cmp ctx"
  by (rule contract)

context sort_client
begin

abbreviation le :: "'a \<Rightarrow> 'a \<Rightarrow> bool" where "le x y \<equiv> cmp ctx x y \<le> 0"

text \<open>The state of a search for \<open>item\<close> in the first \<open>n\<close> items: everything before \<open>start\<close> is
  not greater than the item, everything from \<open>limit\<close> on is greater, and \<open>found\<close> tells whether
  an equal item has been passed.\<close>

definition search_inv :: "'a list \<Rightarrow> nat \<Rightarrow> 'a \<Rightarrow> nat \<Rightarrow> nat \<Rightarrow> bool \<Rightarrow> bool" where
  "search_inv a n item start limit found \<longleftrightarrow>
     start \<le> limit \<and> limit \<le> n \<and> n \<le> length a
     \<and> (\<forall>k < start. le (a ! k) item) \<and> (\<forall>k. limit \<le> k \<and> k < n \<longrightarrow> cmp ctx item (a ! k) < 0)
     \<and> (found \<longleftrightarrow> (\<exists>k < start. cmp ctx item (a ! k) = 0))"

lemma sorted_nth:
  "sorted_wrt le (take n a) \<Longrightarrow> n \<le> length a \<Longrightarrow> i \<le> j \<Longrightarrow> j < n \<Longrightarrow> le (a ! i) (a ! j)"
  by (cases "i = j") (auto simp: sorted_wrt_iff_nth_less)

lemma search_inv_step:
  assumes srt: "sorted_wrt le (take n a)" and inv: "search_inv a n item start limit found"
    and i: "start \<le> i" "i < limit"
  shows "cmp ctx item (a ! i) = 0 \<Longrightarrow> search_inv a n item (i + 1) limit True"
    and "cmp ctx item (a ! i) < 0 \<Longrightarrow> search_inv a n item start i found"
    and "cmp ctx item (a ! i) > 0 \<Longrightarrow> search_inv a n item i limit found"
    and "cmp ctx item (a ! i) > 0 \<Longrightarrow> search_inv a n item (i + 1) limit found"
proof -
  have n: "n \<le> length a" "i < n" using inv i by (auto simp: search_inv_def)
  have low: "le (a ! k) (a ! i)" if "k \<le> i" for k using sorted_nth [OF srt] n that by blast
  have up: "le (a ! i) (a ! k)" if "i \<le> k" "k < n" for k using sorted_nth [OF srt] n that by blast
  show "search_inv a n item start i found" if "cmp ctx item (a ! i) < 0"
    using inv i less_le_trans [OF that up] by (auto simp: search_inv_def)
  show "search_inv a n item (i + 1) limit True" if "cmp ctx item (a ! i) = 0"
  proof -
    have "le (a ! k) item" if "k \<le> i" for k
      using low [OF that] \<open>cmp ctx item (a ! i) = 0\<close> le_trans [of "a ! k" "a ! i" item]
        cmp_zero_sym [of item "a ! i"] by simp
    with inv i that show ?thesis by (auto simp: search_inv_def less_Suc_eq_le)
  qed
  {
    assume gt: "cmp ctx item (a ! i) > 0"
    then have lt: "cmp ctx (a ! k) item < 0" if "k \<le> i" for k
      using le_less_trans [OF low [OF that]] flip [of "a ! i" item] by blast
    then have ne: "cmp ctx item (a ! k) \<noteq> 0" if "k \<le> i" for k
      using that flip [of "a ! k" item] by fastforce
    have "\<not> (\<exists>k<i. cmp ctx item (a ! k) = 0)" "\<not> (\<exists>k < start. cmp ctx item (a ! k) = 0)"
      using ne i by (meson less_imp_le order_trans)+
    with inv i lt ne show "search_inv a n item i limit found"
      and "search_inv a n item (i + 1) limit found"
      by (auto simp: search_inv_def less_Suc_eq_le less_imp_le)
  }
qed

lemma binarySearchLoop_inv:
  assumes "sorted_wrt le (take n a)" "search_inv a n item start limit found"
    "binarySearchLoop cmp ctx a item start limit found = Some (s, l, f)"
  shows "search_inv a n item s l f"
  using assms(2,3)
proof (induction "limit - start" arbitrary: start limit found rule: less_induct)
  case less
  show ?case
  proof (cases "limit - start \<ge> MIN_QSORT")
    case True
    from less.prems(2) True obtain i where mid: "middle start limit = Some i"
      by (auto simp: binarySearchLoop.simps [of _ _ _ _ start] split: option.splits)
    then have i: "start < i" "i < limit" using True middle_bounds by blast+
    note step = search_inv_step [OF assms(1) less.prems(1) less_imp_le [OF i(1)] i(2)]
    consider "cmp ctx item (a ! i) = 0" | "cmp ctx item (a ! i) < 0" | "cmp ctx item (a ! i) > 0"
      by linarith
    then show ?thesis
      using less.prems(2) True i
      by cases (auto simp: binarySearchLoop.simps [of _ _ _ _ start] Let_def mid
          intro: less.hyps [OF _ step(1)] less.hyps [OF _ step(2)] less.hyps [OF _ step(3)])
  next
    case False
    with less.prems show ?thesis by (simp add: binarySearchLoop.simps)
  qed
qed

lemma binarySearchLoop_total: "limit \<le> 2 ^ 30 \<Longrightarrow> \<exists>r. binarySearchLoop cmp ctx a item start limit found = Some r"
proof (induction "limit - start" arbitrary: start limit found rule: less_induct)
  case less
  show ?case
  proof (cases "limit - start \<ge> MIN_QSORT")
    case True
    then have "middle start limit = Some ((start + limit) div 2)" using less.prems by (simp add: middle_def)
    moreover have "start < (start + limit) div 2" "(start + limit) div 2 < limit" using True by auto
    ultimately show ?thesis using less.prems less.hyps [of limit "(start + limit) div 2 + 1" True]
        less.hyps [of "(start + limit) div 2" start found] less.hyps [of limit "(start + limit) div 2" found]
      by (auto simp: binarySearchLoop.simps [of _ _ _ _ start] Let_def)
  next
    case False
    then show ?thesis by (simp add: binarySearchLoop.simps [of _ _ _ _ start])
  qed
qed

lemma linearSearchLoop_inv:
  assumes "sorted_wrt le (take n a)" "search_inv a n item start limit found"
    "linearSearchLoop cmp ctx a item start limit found = (s, f)"
  shows "search_inv a n item s s f"
  using assms(2,3)
proof (induction "limit - start" arbitrary: start found rule: less_induct)
  case less
  show ?case
  proof (cases "start < limit")
    case True
    note step = search_inv_step [OF assms(1) less.prems(1) order_refl True]
    consider "cmp ctx item (a ! start) = 0" | "cmp ctx item (a ! start) < 0"
      | "cmp ctx item (a ! start) > 0"
      by linarith
    then show ?thesis
      using less.prems(2) True step(2)
      by cases (auto simp: linearSearchLoop.simps [of _ _ _ _ start] Let_def
          intro: less.hyps [OF _ step(1)] less.hyps [OF _ step(4)])
  next
    case False
    with less.prems show ?thesis by (auto simp: linearSearchLoop.simps search_inv_def)
  qed
qed

lemma stableBinarySearch_inv:
  assumes "sorted_wrt le (take n a)" "n \<le> length a" "n \<le> 2 ^ 30"
  obtains p r where "uprv_stableBinarySearch a n item cmp ctx = Some r" "search_inv a n item p p (r \<ge> 0)"
    "r = (if r \<ge> 0 then int p - 1 else NOT (int p))"
proof -
  obtain s l f where b: "binarySearchLoop cmp ctx a item 0 n False = Some (s, l, f)"
    using binarySearchLoop_total [OF assms(3), of a item 0 False] by (metis prod_cases3)
  obtain p g where lin: "linearSearchLoop cmp ctx a item s l f = (p, g)"
    by (cases "linearSearchLoop cmp ctx a item s l f") auto
  have "search_inv a n item 0 n False" using assms by (simp add: search_inv_def)
  from linearSearchLoop_inv [OF assms(1) binarySearchLoop_inv [OF assms(1) this b] lin]
  have inv: "search_inv a n item p p g" .
  define r where "r = (if g then int p - 1 else NOT (int p))"
  have eq: "uprv_stableBinarySearch a n item cmp ctx = Some r"
    by (simp add: uprv_stableBinarySearch_def b lin r_def)
  moreover have "g \<Longrightarrow> p > 0" using inv by (auto simp: search_inv_def)
  ultimately have "(r \<ge> 0) = g"
    by (auto simp: not_int_def r_def)
  with inv eq that r_def show ?thesis by simp
qed

text \<open>One insertion: item \<open>j\<close> moves to the point the search returns.\<close>

definition insertItem :: "'a list \<Rightarrow> nat \<Rightarrow> 'a list" where
  "insertItem a j =
     (let r = the (uprv_stableBinarySearch a j (a ! j) cmp ctx);
          p = nat (if r < 0 then NOT r else r + 1)
      in if p < j then (memmove_items a (p + 1) p (j - p))[p := a ! j] else a)"

lemma insertionSortLoop_insertItem:
  assumes "sorted_wrt le (take j a)" "j \<le> length a" "j \<le> 2 ^ 30"
  shows "insertionSortLoop cmp ctx len j a =
     (if j < len then insertionSortLoop cmp ctx len (j + 1) (insertItem a j) else Some a)"
proof -
  obtain r where "uprv_stableBinarySearch a j (a ! j) cmp ctx = Some r" using stableBinarySearch_inv [OF assms] by blast
  then show ?thesis by (simp add: insertionSortLoop.simps [of _ _ _ j] insertItem_def Let_def)
qed

lemma insertItem_split:
  assumes "sorted_wrt le (take j a)" "j < length a" "j \<le> 2 ^ 30"
  obtains p where "p \<le> j" "\<forall>y \<in> set (take p a). le y (a ! j)"
    "\<forall>y \<in> set (drop p (take j a)). cmp ctx (a ! j) y < 0"
    "insertItem a j = take p a @ a ! j # drop p (take j a) @ drop (Suc j) a"
proof -
  obtain p r where s: "uprv_stableBinarySearch a j (a ! j) cmp ctx = Some r" and inv: "search_inv a j (a ! j) p p (r \<ge> 0)"
    and r: "r = (if r \<ge> 0 then int p - 1 else NOT (int p))"
    using stableBinarySearch_inv [OF assms(1) less_imp_le [OF assms(2)] assms(3)] by blast
  have pj: "p \<le> j" using inv by (simp add: search_inv_def)
  have point: "nat (if r < 0 then NOT r else r + 1) = p"
    using r by (auto simp: not_int_def split: if_splits)
  have mm: "memmove_items a (Suc p) p (j - p) = take (Suc p) a @ drop p (take j a) @ drop (Suc j) a"
    using pj by (simp add: memmove_items_def drop_take)
  have "(take (Suc p) a)[p := a ! j] = take p a @ [a ! j]"
    using pj assms(2) by (simp add: take_Suc_conv_app_nth list_update_append)
  then have "insertItem a j = take p a @ a ! j # drop p (take j a) @ drop (Suc j) a" if "p < j"
    using that point assms(2) by (simp add: insertItem_def s Let_def mm list_update_append)
  moreover have "insertItem a j = take p a @ a ! j # drop p (take j a) @ drop (Suc j) a" if "p = j"
    using that point assms(2) by (simp add: insertItem_def s Let_def id_take_nth_drop [symmetric])
  moreover have "\<forall>y \<in> set (take p a). le y (a ! j)"
    "\<forall>y \<in> set (drop p (take j a)). cmp ctx (a ! j) y < 0"
    using inv by (auto simp: search_inv_def in_set_conv_nth)
  ultimately show ?thesis using that pj by fastforce
qed

lemma insertItem_correct:
  assumes "sorted_wrt le (take j a)" "j < length a" "j \<le> 2 ^ 30"
  shows "sorted_wrt le (take (Suc j) (insertItem a j))"
    and "mset (insertItem a j) = mset a"
    and "filter (\<lambda>y. cmp ctx v y = 0) (insertItem a j) = filter (\<lambda>y. cmp ctx v y = 0) a"
    and "drop (Suc j) (insertItem a j) = drop (Suc j) a"
proof -
  obtain p where p: "p \<le> j" and lo: "\<forall>y \<in> set (take p a). le y (a ! j)"
    and hi: "\<forall>y \<in> set (drop p (take j a)). cmp ctx (a ! j) y < 0"
    and eq: "insertItem a j = take p a @ a ! j # drop p (take j a) @ drop (Suc j) a"
    using insertItem_split [OF assms] by blast
  have len: "length (take p a @ a ! j # drop p (take j a)) = Suc j" using p assms(2) by simp
  have a: "a = take p a @ drop p (take j a) @ a ! j # drop (Suc j) a"
    using id_take_nth_drop [OF assms(2)] append_take_drop_id [of p "take j a"] p
    by (metis append.assoc min.absorb1 take_take)
  have "take (Suc j) (insertItem a j) = take p a @ a ! j # drop p (take j a)"
    "drop (Suc j) (insertItem a j) = drop (Suc j) a"
    using append_eq_conv_conj [of "take p a @ a ! j # drop p (take j a)" "drop (Suc j) a" "insertItem a j"]
    unfolding len by (simp_all add: eq)
  moreover have "sorted_wrt le (take p a @ drop p (take j a))"
    using assms(1) p append_take_drop_id [of p "take j a"] by simp
  ultimately show "sorted_wrt le (take (Suc j) (insertItem a j))"
    "drop (Suc j) (insertItem a j) = drop (Suc j) a"
    using lo hi by (auto simp: sorted_wrt_append less_imp_le)
  show "mset (insertItem a j) = mset a" by (subst (2) a, unfold eq) simp
  show "filter (\<lambda>y. cmp ctx v y = 0) (insertItem a j) = filter (\<lambda>y. cmp ctx v y = 0) a"
  proof (cases "cmp ctx v (a ! j) = 0")
    case True
    then have "cmp ctx v y \<noteq> 0" if "cmp ctx (a ! j) y < 0" for y
      using le_less_trans [of v "a ! j" y] that by fastforce
    with hi have "filter (\<lambda>y. cmp ctx v y = 0) (drop p (take j a)) = []"
      by (auto simp: filter_empty_conv)
    then show ?thesis by (subst (2) a, unfold eq) simp
  next
    case False
    then show ?thesis by (subst (2) a, unfold eq) simp
  qed
qed

lemma insertItem_length: "sorted_wrt le (take j a) \<Longrightarrow> j < length a \<Longrightarrow> j \<le> 2 ^ 30 \<Longrightarrow> length (insertItem a j) = length a"
  using insertItem_correct(2) by (metis size_mset)

lemma insertionSortLoop_correct:
  assumes "sorted_wrt le (take j a)" "len \<le> length a" "j \<le> len" "len \<le> 2 ^ 30"
  shows "\<exists>b. insertionSortLoop cmp ctx len j a = Some b \<and> sorted_wrt le (take len b) \<and> mset b = mset a \<and> drop len b = drop len a
    \<and> (\<forall>v. filter (\<lambda>y. cmp ctx v y = 0) b = filter (\<lambda>y. cmp ctx v y = 0) a)"
  using assms
proof (induction "len - j" arbitrary: j a)
  case 0
  then show ?case by (simp add: insertionSortLoop_insertItem)
next
  case (Suc d)
  then have j: "j < length a" "j < len" "j \<le> 2 ^ 30" by auto
  note ins = insertItem_correct [OF Suc.prems(1) j(1,3)]
  have d: "drop len (insertItem a j) = drop len a"
    using arg_cong [OF ins(4), of "drop (len - Suc j)"] j by (simp add: drop_drop)
  have "insertionSortLoop cmp ctx len j a = insertionSortLoop cmp ctx len (j + 1) (insertItem a j)"
    using insertionSortLoop_insertItem [OF Suc.prems(1) _ j(3)] j by simp
  with Suc.hyps(1) [of "j + 1" "insertItem a j"] Suc.hyps(2) Suc.prems j ins d
  show ?case by (simp add: insertItem_length)
qed

lemma doInsertionSort_correct:
  assumes "len \<le> length a" "len \<le> 2 ^ 30"
  shows "\<exists>b. doInsertionSort a len cmp ctx = Some b \<and> sorted_wrt le (take len b) \<and> mset b = mset a \<and> drop len b = drop len a
    \<and> (\<forall>v. filter (\<lambda>y. cmp ctx v y = 0) b = filter (\<lambda>y. cmp ctx v y = 0) a)"
proof -
  have one: "sorted_wrt le (take 1 a)" by (cases a) simp_all
  show ?thesis using insertionSortLoop_correct [OF one assms(1) _ assms(2)]
    by (cases "len = 0") (simp_all add: doInsertionSort_def insertionSortLoop.simps)
qed

lemma scanLeft_stops:
  assumes "left \<le> k" "k < length a" "\<not> cmp ctx (a ! k) x < 0"
  obtains l where "scanLeft cmp ctx a x left = Some l" "left \<le> l" "l \<le> k"
    "\<forall>i. left \<le> i \<and> i < l \<longrightarrow> cmp ctx (a ! i) x < 0" "\<not> cmp ctx (a ! l) x < 0"
proof -
  have "\<exists>l. scanLeft cmp ctx a x left = Some l \<and> left \<le> l \<and> l \<le> k
      \<and> (\<forall>i. left \<le> i \<and> i < l \<longrightarrow> cmp ctx (a ! i) x < 0) \<and> \<not> cmp ctx (a ! l) x < 0"
    using assms
  proof (induction "k - left" arbitrary: left)
    case 0
    then show ?case by (auto simp: scanLeft.simps [of _ _ _ _ left])
  next
    case (Suc d)
    show ?case
    proof (cases "cmp ctx (a ! left) x < 0")
      case True
      have "d = k - Suc left" "Suc left \<le> k" using Suc.hyps(2) by auto
      from Suc.hyps(1) [OF this] Suc.prems
      obtain l where l: "scanLeft cmp ctx a x (Suc left) = Some l" "Suc left \<le> l" "l \<le> k"
        "\<forall>i. Suc left \<le> i \<and> i < l \<longrightarrow> cmp ctx (a ! i) x < 0" "\<not> cmp ctx (a ! l) x < 0" by auto
      have "\<forall>i. left \<le> i \<and> i < l \<longrightarrow> cmp ctx (a ! i) x < 0"
        using l(4) True by (metis Suc_leI le_neq_implies_less)
      with l True Suc.prems show ?thesis by (auto simp: scanLeft.simps [of _ _ _ _ left])
    next
      case False
      with Suc.prems show ?thesis by (auto simp: scanLeft.simps [of _ _ _ _ left])
    qed
  qed
  with that show ?thesis by blast
qed

lemma scanRight_stops:
  assumes "k < right" "right \<le> length a" "\<not> cmp ctx x (a ! k) < 0"
  obtains r where "scanRight cmp ctx a x right = Some r" "k < r" "r \<le> right"
    "\<forall>i. r \<le> i \<and> i < right \<longrightarrow> cmp ctx x (a ! i) < 0" "\<not> cmp ctx x (a ! (r - 1)) < 0"
proof -
  have "\<exists>r. scanRight cmp ctx a x right = Some r \<and> k < r \<and> r \<le> right
      \<and> (\<forall>i. r \<le> i \<and> i < right \<longrightarrow> cmp ctx x (a ! i) < 0) \<and> \<not> cmp ctx x (a ! (r - 1)) < 0"
    using assms
  proof (induction right)
    case 0
    then show ?case by simp
  next
    case (Suc r)
    show ?case
    proof (cases "cmp ctx x (a ! r) < 0")
      case True
      with Suc.prems have "k < r" by (metis less_antisym)
      with Suc True show ?thesis by (auto simp: less_Suc_eq)
    next
      case False
      with Suc.prems show ?thesis by auto
    qed
  qed
  with that show ?thesis by blast
qed

text \<open>The partition step. Beside the items already on their side of the pivot, the invariant
  keeps one item on which each unguarded scan is bound to stop.\<close>

definition sides :: "'a list \<Rightarrow> 'a \<Rightarrow> nat \<Rightarrow> nat \<Rightarrow> nat \<Rightarrow> nat \<Rightarrow> bool" where
  "sides a x start limit left right \<longleftrightarrow>
     (\<forall>k. start \<le> k \<and> k < left \<longrightarrow> le (a ! k) x) \<and> (\<forall>k. right \<le> k \<and> k < limit \<longrightarrow> le x (a ! k))"

definition part_inv :: "'a list \<Rightarrow> 'a \<Rightarrow> nat \<Rightarrow> nat \<Rightarrow> nat \<Rightarrow> nat \<Rightarrow> bool" where
  "part_inv a x start limit left right \<longleftrightarrow>
     start \<le> left \<and> right \<le> limit \<and> limit \<le> length a \<and> sides a x start limit left right
     \<and> (\<exists>k. left \<le> k \<and> k < limit \<and> \<not> cmp ctx (a ! k) x < 0)
     \<and> (\<exists>k. start \<le> k \<and> k < right \<and> \<not> cmp ctx x (a ! k) < 0)"

lemma not_less_le: "\<not> cmp ctx x y < 0 \<Longrightarrow> le y x"
  using flip [of y x] cmp_le_flip [of y x] by linarith

lemma part_inv_scan:
  assumes "part_inv a x start limit left right"
  obtains l r where "scanLeft cmp ctx a x left = Some l" "scanRight cmp ctx a x right = Some r"
    "left \<le> l" "l < limit" "start < r" "r \<le> right" "sides a x start limit l r"
    "le x (a ! l)" "le (a ! (r - 1)) x"
    "\<And>k. left \<le> k \<Longrightarrow> k < right \<Longrightarrow> cmp ctx (a ! k) x = 0 \<Longrightarrow> l \<le> k \<and> k < r"
proof -
  from assms obtain k k' where k: "left \<le> k" "k < limit" "\<not> cmp ctx (a ! k) x < 0"
    and k': "start \<le> k'" "k' < right" "\<not> cmp ctx x (a ! k') < 0"
    and b: "start \<le> left" "right \<le> limit" "limit \<le> length a" and sd: "sides a x start limit left right"
    by (auto simp: part_inv_def)
  from k b have "k < length a" by simp
  from scanLeft_stops [OF k(1) this k(3)] obtain l where l: "scanLeft cmp ctx a x left = Some l"
    "left \<le> l" "l \<le> k" "\<forall>i. left \<le> i \<and> i < l \<longrightarrow> cmp ctx (a ! i) x < 0" "\<not> cmp ctx (a ! l) x < 0"
    by blast
  from b have "right \<le> length a" by simp
  from scanRight_stops [OF k'(2) this k'(3)] obtain r where r: "scanRight cmp ctx a x right = Some r"
    "k' < r" "r \<le> right" "\<forall>i. r \<le> i \<and> i < right \<longrightarrow> cmp ctx x (a ! i) < 0"
    "\<not> cmp ctx x (a ! (r - 1)) < 0" by blast
  have "le (a ! i) x" if "start \<le> i" "i < l" for i
    using that sd l(4) by (cases "i < left") (auto simp: sides_def not_less intro: less_imp_le)
  moreover have "le x (a ! i)" if "r \<le> i" "i < limit" for i
    using that sd r(4) by (cases "right \<le> i") (auto simp: sides_def not_le intro: less_imp_le)
  ultimately have "sides a x start limit l r" by (simp add: sides_def)
  moreover have "l \<le> i \<and> i < r" if "left \<le> i" "i < right" "cmp ctx (a ! i) x = 0" for i
    using that l(4) r(4) cmp_zero_sym [of "a ! i" x] by (metis less_irrefl not_le_imp_less)
  ultimately show ?thesis
    using that l r k k' not_less_le by simp
qed

end

lemma length_swap_items [simp]: "length (swap_items a i j) = length a"
  by (simp add: swap_items_def)

lemma nth_swap_items:
  "i < length a \<Longrightarrow> j < length a \<Longrightarrow> k < length a \<Longrightarrow>
     swap_items a i j ! k = (if k = j then a ! i else if k = i then a ! j else a ! k)"
  by (simp add: swap_items_def)

lemma perm_within_swap:
  assumes "s \<le> i" "i < l" "s \<le> j" "j < l" "l \<le> length a"
  shows "perm_within a (swap_items a i j) s l"
proof -
  have "seg (swap_items a i j) s l
      = (seg a s l)[i - s := seg a s l ! (j - s), j - s := seg a s l ! (i - s)]"
    using assms by (intro nth_equalityI) (auto simp: nth_swap_items nth_list_update)
  also have "mset \<dots> = mset (seg a s l)"
    using assms by (intro mset_swap) auto
  finally show ?thesis using assms by (auto simp: perm_within_def nth_swap_items)
qed

context sort_client
begin

lemma part_inv_exchange:
  assumes b: "start \<le> l" "l < r'" "r' < limit" "limit \<le> length a"
    and sd: "sides a x start limit l (Suc r')" and xl: "le x (a ! l)" and xr: "le (a ! r') x"
  shows "sides (swap_items a l r') x start limit (Suc l) r'"
    and "Suc l < r' \<Longrightarrow> part_inv (swap_items a l r') x start limit (Suc l) r'"
proof -
  show new: "sides (swap_items a l r') x start limit (Suc l) r'"
    using sd xl xr b by (auto simp: sides_def nth_swap_items less_Suc_eq Suc_le_eq)
  assume lt: "Suc l < r'"
  have "\<not> cmp ctx (swap_items a l r' ! r') x < 0" "\<not> cmp ctx x (swap_items a l r' ! l) < 0"
    using xl xr b flip [of "a ! l" x] flip [of x "a ! r'"] by (auto simp: nth_swap_items)
  with new lt b show "part_inv (swap_items a l r') x start limit (Suc l) r'"
    by (auto simp: part_inv_def intro: exI [of _ r'] exI [of _ l])
qed

lemma partitionLoop_correct:
  assumes "part_inv a x start limit left right"
  shows "\<exists>a' l r. partitionLoop cmp ctx a x left right = Some (a', l, r)
    \<and> perm_within a a' start limit \<and> sides a' x start limit l r \<and> r \<le> l \<and> start \<le> r \<and> l \<le> limit
    \<and> left \<le> l \<and> r \<le> right \<and> ((\<exists>k. left \<le> k \<and> k < right \<and> cmp ctx (a ! k) x = 0) \<longrightarrow> left < l \<and> r < right)"
  using assms
proof (induction "right - left" arbitrary: a left right rule: less_induct)
  case less
  from part_inv_scan [OF less.prems] obtain l r where
    sc: "scanLeft cmp ctx a x left = Some l" "scanRight cmp ctx a x right = Some r"
    and lr: "left \<le> l" "l < limit" "start < r" "r \<le> right"
    and sd: "sides a x start limit l r" and xl: "le x (a ! l)" and xr: "le (a ! (r - 1)) x"
    and mid: "\<And>k. left \<le> k \<Longrightarrow> k < right \<Longrightarrow> cmp ctx (a ! k) x = 0 \<Longrightarrow> l \<le> k \<and> k < r" by metis
  have b: "start \<le> left" "right \<le> limit" "limit \<le> length a" using less.prems by (auto simp: part_inv_def)
  show ?case
  proof (cases "l < r")
    case False
    then have "\<not> (\<exists>k. left \<le> k \<and> k < right \<and> cmp ctx (a ! k) x = 0)"
      using mid by fastforce
    with False sc lr b sd show ?thesis
      by (auto simp: partitionLoop.simps [of _ _ _ _ left])
  next
    case True
    then obtain r' where r: "r = Suc r'" "l \<le> r'" by (cases r) auto
    let ?a = "if l < r' then swap_items a l r' else a"
    have pw: "perm_within a ?a start limit"
      using r lr b by (auto intro!: perm_within_swap)
    have sd': "sides ?a x start limit (Suc l) r'"
    proof (cases "l < r'")
      case True
      then show ?thesis using part_inv_exchange(1) [of start l r' limit a x] sd xl xr r lr b by simp
    next
      case False
      then have "r' \<le> k \<longleftrightarrow> k = l \<or> Suc r' \<le> k" for k using r by auto
      with sd xl xr r False show ?thesis by (auto simp: sides_def less_Suc_eq)
    qed
    show ?thesis
    proof (cases "Suc l < r'")
      case True
      then have "part_inv ?a x start limit (Suc l) r'"
        using part_inv_exchange(2) [of start l r' limit a x] sd xl xr r lr b by simp
      moreover have "r' - Suc l < right - left" using True r lr by simp
      ultimately obtain a' l' q where
        "partitionLoop cmp ctx ?a x (Suc l) r' = Some (a', l', q)" "perm_within ?a a' start limit"
        "sides a' x start limit l' q" "q \<le> l'" "start \<le> q" "l' \<le> limit"
        "Suc l \<le> l'" "q \<le> r'" using less.hyps by blast
      then show ?thesis
        using sc True r lr perm_within_trans [OF pw]
        by (auto simp: partitionLoop.simps [of _ _ a _ left])
    next
      case False
      with sc r lr b sd' pw show ?thesis
        by (auto simp: partitionLoop.simps [of _ _ a _ left])
    qed
  qed
qed

abbreviation sorted_seg :: "'a list \<Rightarrow> nat \<Rightarrow> nat \<Rightarrow> bool" where
  "sorted_seg a s l \<equiv> sorted_wrt le (seg a s l)"

lemma sorted_seg_nth:
  "l \<le> length a \<Longrightarrow> sorted_seg a s l \<longleftrightarrow> (\<forall>i j. s \<le> i \<and> i < j \<and> j < l \<longrightarrow> le (a ! i) (a ! j))"
proof (intro iffI allI impI)
  fix i j assume l: "l \<le> length a" "sorted_seg a s l" and ij: "s \<le> i \<and> i < j \<and> j < l"
  then have "i - s < j - s" "j - s < l - s" by auto
  with l ij show "le (a ! i) (a ! j)"
    using sorted_wrt_nth_less [of le "seg a s l" "i - s" "j - s"] by simp
qed (auto simp: sorted_wrt_iff_nth_less)

lemma sorted_seg_frame:
  assumes "sorted_seg a s l" "perm_within a b s' l'" "l \<le> s' \<or> l' \<le> s" "l \<le> length a"
  shows "sorted_seg b s l"
proof -
  have "seg b s l = seg a s l"
    using assms by (intro seg_cong) (auto simp: perm_within_def)
  with assms(1) show ?thesis by simp
qed

lemma sides_perm_low:
  assumes "sides a x start limit left right" "perm_within a b start right" "right \<le> left"
    "left \<le> limit" "limit \<le> length a"
  shows "sides b x start limit left right"
  unfolding sides_def
proof (intro conjI allI impI)
  fix k assume k: "start \<le> k \<and> k < left"
  show "le (b ! k) x"
  proof (cases "k < right")
    case True
    with k assms obtain k' where "start \<le> k'" "k' < right" "b ! k = a ! k'"
      using perm_within_nth [OF assms(2), of k] by (metis order_trans)
    with assms show ?thesis by (simp add: sides_def)
  next
    case False
    with k assms show ?thesis by (auto simp: sides_def perm_within_def)
  qed
next
  fix k assume "right \<le> k \<and> k < limit"
  with assms show "le x (b ! k)" by (auto simp: sides_def perm_within_def)
qed

lemma sides_perm_high:
  assumes "sides a x start limit left right" "perm_within a b left limit" "right \<le> left"
    "left \<le> limit" "limit \<le> length a"
  shows "sides b x start limit left right"
  unfolding sides_def
proof (intro conjI allI impI)
  fix k assume k: "right \<le> k \<and> k < limit"
  show "le x (b ! k)"
  proof (cases "left \<le> k")
    case True
    with k assms obtain k' where "left \<le> k'" "k' < limit" "b ! k = a ! k'"
      using perm_within_nth [OF assms(2), of k] by metis
    with assms show ?thesis by (simp add: sides_def)
  next
    case False
    with k assms show ?thesis by (auto simp: sides_def perm_within_def)
  qed
next
  fix k assume "start \<le> k \<and> k < left"
  with assms show "le (b ! k) x" by (auto simp: sides_def perm_within_def)
qed

lemma sorted_seg_join:
  assumes "sides a x start limit left right" "sorted_seg a start right" "sorted_seg a left limit"
    "right \<le> left" "left \<le> limit" "limit \<le> length a"
  shows "sorted_seg a start limit"
proof -
  have "le (a ! i) (a ! j)" if "start \<le> i" "i < j" "j < limit" for i j
  proof (cases "j < right \<or> left \<le> i")
    case True
    with assms that show ?thesis by (auto simp: sorted_seg_nth)
  next
    case False
    with assms that have "le (a ! i) x" "le x (a ! j)" by (auto simp: sides_def)
    then show ?thesis by (rule le_trans)
  qed
  with assms show ?thesis by (auto simp: sorted_seg_nth)
qed

text \<open>A range of at most one item is not sorted further; longer ranges recurse.\<close>

definition sortRange :: "'a list \<Rightarrow> nat \<Rightarrow> nat \<Rightarrow> 'a list option" where
  "sortRange a s l = (if s < l - 1 then subQuickSort cmp ctx a s l else Some a)"

definition sorts :: "'a list option \<Rightarrow> 'a list \<Rightarrow> nat \<Rightarrow> nat \<Rightarrow> bool" where
  "sorts r a s l \<longleftrightarrow> (\<exists>b. r = Some b \<and> perm_within a b s l \<and> sorted_seg b s l)"

lemma sortRange_sorts:
  assumes "s < l - 1 \<Longrightarrow> sorts (subQuickSort cmp ctx a s l) a s l" "l \<le> length a"
  shows "sorts (sortRange a s l) a s l"
proof (cases "s < l - 1")
  case True
  with assms show ?thesis by (simp add: sortRange_def)
next
  case False
  with assms(2) show ?thesis by (auto simp: sortRange_def sorts_def sorted_seg_nth)
qed

lemma subQuickSort_rec:
  assumes "start + MIN_QSORT < limit"
    "middle start limit = Some m" "partitionLoop cmp ctx a (a ! m) start limit = Some (a1, left, right)"
  shows "subQuickSort cmp ctx a start limit =
    (if int right - int start < int limit - int left
     then Option.bind (sortRange a1 start right) (\<lambda>a2. sortRange a2 left limit)
     else Option.bind (sortRange a1 left limit) (\<lambda>a2. sortRange a2 start right))"
  using assms by (simp add: subQuickSort.simps [of _ _ a start] sortRange_def)

lemma sorts_both:
  assumes sd: "sides a1 x start limit left right"
    and b: "start \<le> right" "right \<le> left" "left \<le> limit" "limit \<le> length a1"
    and lo: "\<And>c. length c = length a1 \<Longrightarrow> sorts (sortRange c start right) c start right"
    and hi: "\<And>c. length c = length a1 \<Longrightarrow> sorts (sortRange c left limit) c left limit"
  shows "sorts (Option.bind (sortRange a1 start right) (\<lambda>a2. sortRange a2 left limit)) a1 start limit"
    and "sorts (Option.bind (sortRange a1 left limit) (\<lambda>a2. sortRange a2 start right)) a1 start limit"
proof -
  obtain u where u: "sortRange a1 start right = Some u" "perm_within a1 u start right"
    "sorted_seg u start right" using lo [of a1] by (auto simp: sorts_def)
  then have ul: "length u = length a1" by (simp add: perm_within_def)
  obtain v where v: "sortRange u left limit = Some v" "perm_within u v left limit"
    "sorted_seg v left limit" using hi [OF ul] by (auto simp: sorts_def)
  have "sides v x start limit left right"
    using sides_perm_low [OF sd u(2)] sides_perm_high [OF _ v(2)] b ul by simp
  moreover have "sorted_seg v start right"
    using sorted_seg_frame [OF u(3) v(2)] b ul by simp
  moreover have vl: "length v = length a1" using v(2) ul by (simp add: perm_within_def)
  ultimately have "sorted_seg v start limit"
    using v(3) b by - (rule sorted_seg_join [where x = x]; simp)
  moreover have "perm_within a1 v start limit"
    using b ul by (intro perm_within_trans [OF perm_within_mono [OF u(2)] perm_within_mono [OF v(2)]]) simp_all
  ultimately show "sorts (Option.bind (sortRange a1 start right) (\<lambda>a2. sortRange a2 left limit)) a1 start limit"
    using u v by (simp add: sorts_def)
next
  obtain u where u: "sortRange a1 left limit = Some u" "perm_within a1 u left limit"
    "sorted_seg u left limit" using hi [of a1] by (auto simp: sorts_def)
  then have ul: "length u = length a1" by (simp add: perm_within_def)
  obtain v where v: "sortRange u start right = Some v" "perm_within u v start right"
    "sorted_seg v start right" using lo [OF ul] by (auto simp: sorts_def)
  have "sides v x start limit left right"
    using sides_perm_high [OF sd u(2)] sides_perm_low [OF _ v(2)] b ul by simp
  moreover have "sorted_seg v left limit"
    using sorted_seg_frame [OF u(3) v(2)] b ul by simp
  moreover have vl: "length v = length a1" using v(2) ul by (simp add: perm_within_def)
  ultimately have "sorted_seg v start limit"
    using v(3) b by - (rule sorted_seg_join [where x = x]; simp)
  moreover have "perm_within a1 v start limit"
    using b ul by (intro perm_within_trans [OF perm_within_mono [OF u(2)] perm_within_mono [OF v(2)]]) simp_all
  ultimately show "sorts (Option.bind (sortRange a1 left limit) (\<lambda>a2. sortRange a2 start right)) a1 start limit"
    using u v by (simp add: sorts_def)
qed

lemma subQuickSort_small:
  assumes "start \<le> limit" "limit \<le> length a" "start + MIN_QSORT \<ge> limit"
  shows "sorts (subQuickSort cmp ctx a start limit) a start limit"
proof -
  have len: "limit - start \<le> length (drop start a)" "limit - start \<le> 2 ^ 30" using assms by simp_all
  obtain c where run: "doInsertionSort (drop start a) (limit - start) cmp ctx = Some c"
    and c: "sorted_wrt le (take (limit - start) c)" "mset c = mset (drop start a)" "drop (limit - start) c = drop (limit - start) (drop start a)"
    using doInsertionSort_correct [OF len] by blast
  let ?c = c
  have lc: "length ?c = length a - start" using arg_cong [OF c(2), of size] by simp
  have sg: "seg (take start a @ ?c) start limit = take (limit - start) ?c"
    using assms by (simp add: seg_def)
  have "mset (take (limit - start) ?c @ drop (limit - start) ?c)
      = mset (take (limit - start) (drop start a) @ drop (limit - start) (drop start a))"
    using c(2) by (simp only: append_take_drop_id)
  then have "mset (take (limit - start) ?c) = mset (take (limit - start) (drop start a))"
    unfolding mset_append c(3) by simp
  moreover have "(take start a @ ?c) ! k = a ! k" if "k < length a" "k < start \<or> limit \<le> k" for k
  proof (cases "k < start")
    case False
    then have "?c ! (k - start) = drop (limit - start) ?c ! (k - limit)"
      using that assms lc by simp
    also have "\<dots> = a ! k" unfolding c(3) using that False assms by simp
    finally show ?thesis using that False assms by (simp add: nth_append)
  qed (use that assms in \<open>simp add: nth_append\<close>)
  ultimately have "perm_within a (take start a @ ?c) start limit"
    using sg lc assms by (auto simp: perm_within_def seg_def)
  with sg c(1) assms run show ?thesis by (simp add: sorts_def subQuickSort.simps)
qed

lemma subQuickSort_correct:
  assumes "start \<le> limit" "limit \<le> length a" "limit \<le> 2 ^ 30"
  shows "sorts (subQuickSort cmp ctx a start limit) a start limit"
  using assms
proof (induction "limit - start" arbitrary: start limit a rule: less_induct)
  case less
  show ?case
  proof (cases "start + MIN_QSORT \<ge> limit")
    case True
    with less.prems show ?thesis by (intro subQuickSort_small)
  next
    case False
    let ?m = "(start + limit) div 2" and ?x = "a ! ((start + limit) div 2)"
    have m: "start \<le> ?m" "?m < limit" "middle start limit = Some ?m" using False less.prems by (auto simp: middle_def)
    have "part_inv a ?x start limit start limit"
      using m less.prems by (auto simp: part_inv_def sides_def intro!: exI [of _ ?m])
    from partitionLoop_correct [OF this] m cmp_refl [of ?x] obtain a1 left right where
      p: "partitionLoop cmp ctx a ?x start limit = Some (a1, left, right)"
      and pw: "perm_within a a1 start limit" and sd: "sides a1 ?x start limit left right"
      and b: "right \<le> left" "start \<le> right" "left \<le> limit" "start < left" "right < limit" by blast
    have la: "length a1 = length a" using pw by (simp add: perm_within_def)
    have "sorts (sortRange c start right) c start right" "sorts (sortRange c left limit) c left limit"
      if "length c = length a1" for c
      using that la b less.prems by (auto intro!: sortRange_sorts less.hyps)+
    from sorts_both [OF sd _ _ _ _ this] b less.prems la
    have "sorts (subQuickSort cmp ctx a start limit) a1 start limit"
      using False p m(3) by (simp add: subQuickSort_rec)
    then show ?thesis by (auto simp: sorts_def intro: perm_within_trans [OF pw])
  qed
qed

end

section \<open>The comparators of the file\<close>

lemma uint16_contract: "comparator (uprv_uint16Comparator ctx)"
  by unfold_locales (auto simp: uprv_uint16Comparator_def)

lemma uint32_contract: "comparator (uprv_uint32Comparator ctx)"
  by unfold_locales (auto simp: uprv_uint32Comparator_def split: if_splits)

interpretation u16: sort_client uprv_uint16Comparator ctx for ctx
  by unfold_locales (fact comparator.flip [OF uint16_contract] comparator.le_trans [OF uint16_contract])+

interpretation u32: sort_client uprv_uint32Comparator ctx for ctx
  by unfold_locales (fact comparator.flip [OF uint32_contract] comparator.le_trans [OF uint32_contract])+

section \<open>Properties\<close>

lemma perm_within_prefix:
  "perm_within a b 0 n \<Longrightarrow> n \<le> length a \<Longrightarrow> mset (take n b) = mset (take n a) \<and> drop n b = drop n a"
  by (auto simp: perm_within_def seg_def intro!: nth_equalityI)

lemma quickSort_sorts:
  assumes "comparator (cmp ctx)" "n \<le> length a" "itemSize \<le> STACK_ITEM_SIZE \<or> malloc (2 * itemSize)" "n \<le> 2 ^ 30"
  shows "\<exists>b. quickSort malloc a n itemSize cmp ctx ec = Some (b, ec)
    \<and> mset (take n b) = mset (take n a) \<and> drop n b = drop n a
    \<and> sorted_wrt (\<lambda>x y. cmp ctx x y \<le> 0) (take n b)"
proof -
  have sc: "sort_client cmp ctx" by (rule sort_client.intro) (rule assms(1))
  from sort_client.subQuickSort_correct [OF sc, of 0 n a] assms(2,4)
  obtain b where "subQuickSort cmp ctx a 0 n = Some b" "perm_within a b 0 n"
    "sorted_wrt (\<lambda>x y. cmp ctx x y \<le> 0) (seg b 0 n)"
    by (auto simp: sort_client.sorts_def [OF sc])
  with perm_within_prefix [of a b n] assms show ?thesis
    by (auto simp: quickSort_def seg_def)
qed

lemma insertionSort_sorts:
  assumes "comparator (cmp ctx)" "n \<le> length a" "itemSize \<le> STACK_ITEM_SIZE \<or> malloc itemSize" "n \<le> 2 ^ 30"
  shows "\<exists>b. insertionSort malloc a n itemSize cmp ctx ec = Some (b, ec)
    \<and> mset (take n b) = mset (take n a) \<and> drop n b = drop n a
    \<and> sorted_wrt (\<lambda>x y. cmp ctx x y \<le> 0) (take n b)
    \<and> (\<forall>v. filter (\<lambda>y. cmp ctx v y = 0) (take n b) = filter (\<lambda>y. cmp ctx v y = 0) (take n a))"
proof -
  have sc: "sort_client cmp ctx" by (rule sort_client.intro) (rule assms(1))
  obtain b where b: "doInsertionSort a n cmp ctx = Some b"
    and c: "sorted_wrt (\<lambda>x y. cmp ctx x y \<le> 0) (take n b)" "mset b = mset a" "drop n b = drop n a"
      "\<And>v. filter (\<lambda>y. cmp ctx v y = 0) b = filter (\<lambda>y. cmp ctx v y = 0) a"
    using sort_client.doInsertionSort_correct [OF sc assms(2,4)] by blast
  have "mset (take n b) + mset (drop n b) = mset (take n a) + mset (drop n a)"
    using c(2) by (metis append_take_drop_id mset_append)
  then have m: "mset (take n b) = mset (take n a)" by (simp add: c(3))
  have "filter (\<lambda>y. cmp ctx v y = 0) (take n b) @ filter (\<lambda>y. cmp ctx v y = 0) (drop n b)
      = filter (\<lambda>y. cmp ctx v y = 0) (take n a) @ filter (\<lambda>y. cmp ctx v y = 0) (drop n a)" for v
    using c(4) [of v] by (metis append_take_drop_id filter_append)
  then have "filter (\<lambda>y. cmp ctx v y = 0) (take n b) = filter (\<lambda>y. cmp ctx v y = 0) (take n a)" for v
    by (simp add: c(3))
  with m c(1,3) assms(3) b show ?thesis by (auto simp: insertionSort_def)
qed

lemma sortArray_correct:
  assumes "comparator (cmp ctx)" "n \<le> length a" "n \<le> 2 ^ 30" "0 < itemSize" "\<not> U_FAILURE ec"
    and mem: "itemSize \<le> STACK_ITEM_SIZE \<or> malloc itemSize \<and> malloc (2 * itemSize)"
  shows "\<exists>b. uprv_sortArray malloc (Some a) (int n) (int itemSize) (Some cmp) ctx sortStable
             (Some ec) = Some (Some b, Some ec)
           \<and> mset (take n b) = mset (take n a) \<and> drop n b = drop n a
           \<and> sorted_wrt (\<lambda>x y. cmp ctx x y \<le> 0) (take n b)"
proof -
  consider "n \<le> 1" | "1 < n" "n < 9 \<or> sortStable" | "1 < n" "\<not> (n < 9 \<or> sortStable)" by linarith
  then show ?thesis
  proof cases
    case 1
    then have "sorted_wrt (\<lambda>x y. cmp ctx x y \<le> 0) (take n a)"
      by (cases a; cases n) auto
    with 1 assms show ?thesis by (auto simp: uprv_sortArray_def)
  next
    case 2
    with insertionSort_sorts [where cmp = cmp and ctx = ctx and a = a and n = n and itemSize = itemSize
        and malloc = malloc and ec = ec] assms show ?thesis
      by (auto simp: uprv_sortArray_def)
  next
    case 3
    with quickSort_sorts [where cmp = cmp and ctx = ctx and a = a and n = n and itemSize = itemSize
        and malloc = malloc and ec = ec] assms show ?thesis
      by (auto simp: uprv_sortArray_def)
  qed
qed

text \<open>C4: with a comparator that is a total preorder, valid arguments, at most \<open>2^30\<close> items in less than
  \<open>2^31\<close> bytes (the sum of two indices and the offset of an item then fit into 32 bits) and enough memory,
  uprv_sortArray always returns (neither sort runs off the array or loops), reports no error,
  leaves a sorted rearrangement in the first \<open>n\<close> items and does not touch the items behind
  them, whichever of the two algorithms it selects.\<close>

theorem uprv_sortArray_sorts:
  assumes "comparator (cmp ctx)" "n \<le> length a" "n \<le> 2 ^ 30" "n * itemSize < 2 ^ 31" "0 < itemSize"
    and mem: "itemSize \<le> STACK_ITEM_SIZE \<or> malloc itemSize \<and> malloc (2 * itemSize)"
  shows "\<exists>b. uprv_sortArray malloc (Some a) (int n) (int itemSize) (Some cmp) ctx sortStable
             (Some U_ZERO_ERROR) = Some (Some b, Some U_ZERO_ERROR)
           \<and> mset (take n b) = mset (take n a) \<and> drop n b = drop n a
           \<and> sorted_wrt (\<lambda>x y. cmp ctx x y \<le> 0) (take n b)"
  by (rule sortArray_correct) (use assms in simp_all)

theorem uprv_sortArray_sorts_witness:
  "\<exists>b. uprv_sortArray (\<lambda>_. False) (Some [5, 3, 8, 1, 9, 2, 7, 3, 6, 4, 0, 3 :: 32 word])
         (int 11) (int 4) (Some uprv_uint32Comparator) () False (Some U_ZERO_ERROR)
       = Some (Some b, Some U_ZERO_ERROR)
     \<and> mset (take 11 b) = mset (take 11 [5, 3, 8, 1, 9, 2, 7, 3, 6, 4, 0, 3])
     \<and> drop 11 b = drop 11 [5, 3, 8, 1, 9, 2, 7, 3, 6, 4, 0, 3]
     \<and> sorted_wrt (\<lambda>x y. uprv_uint32Comparator () x y \<le> 0) (take 11 b)"
  by (rule uprv_sortArray_sorts [where cmp = uprv_uint32Comparator and ctx = "()"])
    (simp_all add: uint32_contract)

text \<open>C21: with a comparator that is a total preorder, at most \<open>2^30\<close> items in less than \<open>2^31\<close> bytes and
  enough memory, a stable sort returns without error and keeps items that compare equal in their original order:
  for every value, the subsequence of items equal to it is the same before and after.\<close>

theorem uprv_sortArray_stable:
  assumes "comparator (cmp ctx)" "n \<le> length a" "n \<le> 2 ^ 30" "n * itemSize < 2 ^ 31" "0 < itemSize"
    and "itemSize \<le> STACK_ITEM_SIZE \<or> malloc itemSize"
  shows "\<exists>b. uprv_sortArray malloc (Some a) (int n) (int itemSize) (Some cmp) ctx True
             (Some U_ZERO_ERROR) = Some (Some b, Some U_ZERO_ERROR)
           \<and> (\<forall>v. filter (\<lambda>y. cmp ctx v y = 0) (take n b) = filter (\<lambda>y. cmp ctx v y = 0) (take n a))"
proof (cases "n \<le> 1")
  case True
  with assms show ?thesis by (auto simp: uprv_sortArray_def)
next
  case False
  with insertionSort_sorts [where cmp = cmp and ctx = ctx and a = a and n = n and itemSize = itemSize
      and malloc = malloc and ec = U_ZERO_ERROR] assms show ?thesis
    by (auto simp: uprv_sortArray_def)
qed

text \<open>A comparator that looks at the first component only, to make stability visible.\<close>

lemma fst_contract: "comparator (\<lambda>x y. uprv_uint16Comparator () (fst x) (fst y))"
  by unfold_locales (auto simp: uprv_uint16Comparator_def)

theorem uprv_sortArray_stable_witness:
  "\<exists>b. uprv_sortArray (\<lambda>_. False) (Some [(2, ''a''), (1, ''b''), (2, ''c''), (1 :: 16 word, ''d'')])
         (int 4) (int 8) (Some (\<lambda>_ x y. uprv_uint16Comparator () (fst x) (fst y))) () True
         (Some U_ZERO_ERROR) = Some (Some b, Some U_ZERO_ERROR)
     \<and> (\<forall>v :: 16 word \<times> string. filter (\<lambda>y. uprv_uint16Comparator () (fst v) (fst y) = 0) (take 4 b)
          = filter (\<lambda>y. uprv_uint16Comparator () (fst v) (fst y) = 0)
              (take 4 [(2, ''a''), (1, ''b''), (2, ''c''), (1, ''d'')]))"
  by (rule uprv_sortArray_stable [where ctx = "()"
        and cmp = "\<lambda>_ x y. uprv_uint16Comparator () (fst x) (fst y)"])
    (simp_all add: fst_contract)

text \<open>\<open>uprv_stableBinarySearch\<close> on a sorted prefix returns the index of the last item equal to
  the sought one, and when there is none the bitwise complement of the insertion point that
  keeps the prefix sorted.\<close>

theorem uprv_stableBinarySearch_spec:
  assumes "comparator (cmp ctx)" "n \<le> length a" "sorted_wrt (\<lambda>x y. cmp ctx x y \<le> 0) (take n a)" "n \<le> 2 ^ 30"
  shows "\<exists>r. uprv_stableBinarySearch a n item cmp ctx = Some r \<and>
        (if (\<exists>k<n. cmp ctx item (a ! k) = 0)
         then 0 \<le> r \<and> nat r < n \<and> cmp ctx item (a ! nat r) = 0
                \<and> (\<forall>k. nat r < k \<and> k < n \<longrightarrow> cmp ctx item (a ! k) < 0)
         else r < 0 \<and> nat (NOT r) \<le> n \<and> (\<forall>k<nat (NOT r). cmp ctx item (a ! k) > 0)
                \<and> (\<forall>k. nat (NOT r) \<le> k \<and> k < n \<longrightarrow> cmp ctx item (a ! k) < 0))"
proof -
  have sc: "sort_client cmp ctx" by (rule sort_client.intro) (rule assms(1))
  obtain p r where s: "uprv_stableBinarySearch a n item cmp ctx = Some r" and inv: "sort_client.search_inv cmp ctx a n item p p (0 \<le> r)"
    and r: "r = (if 0 \<le> r then int p - 1 else NOT (int p))"
    using sort_client.stableBinarySearch_inv [OF sc assms(3,2,4), of item] by blast
  note inv' = inv [unfolded sort_client.search_inv_def [OF sc]]
  note flip = comparator.flip [OF assms(1)] and zero = comparator.cmp_zero_sym [OF assms(1)]
  show ?thesis
  proof (cases "0 \<le> r")
    case True
    then have p: "nat r = p - 1" "0 < p" "p \<le> n" using r inv' by auto
    obtain k where k: "k < p" "cmp ctx item (a ! k) = 0" using inv' True by auto
    have "cmp ctx (a ! k) (a ! (p - 1)) \<le> 0"
      using sort_client.sorted_nth [OF sc assms(3,2), of k "p - 1"] k p by simp
    then have "cmp ctx item (a ! (p - 1)) \<le> 0"
      using comparator.le_trans [OF assms(1), of item "a ! k"] k by simp
    moreover have "cmp ctx (a ! (p - 1)) item \<le> 0" using inv' p by simp
    ultimately have "cmp ctx item (a ! (p - 1)) = 0" using flip [of "a ! (p - 1)" item] flip [of item "a ! (p - 1)"] by linarith
    moreover have "\<exists>k<n. cmp ctx item (a ! k) = 0" using k p by (meson less_le_trans)
    moreover have "\<forall>k. nat r < k \<and> k < n \<longrightarrow> cmp ctx item (a ! k) < 0" using inv' p by auto
    ultimately show ?thesis using True p by (simp add: s)
  next
    case False
    then have p: "nat (NOT r) = p" using r by (simp add: not_int_def)
    have "cmp ctx item (a ! k) > 0" if "k < p" for k
      using that inv' False flip [of "a ! k" item] zero [of "a ! k" item] by (metis order_le_less)
    with False p inv' show ?thesis
      by (auto simp: s) (metis less_irrefl linorder_not_less)+
  qed
qed

theorem uprv_stableBinarySearch_spec_witness:
  "\<exists>r. uprv_stableBinarySearch [1, 3, 3, 5 :: 32 word] 4 3 uprv_uint32Comparator () = Some r \<and>
   (if (\<exists>k<4. uprv_uint32Comparator () 3 ([1, 3, 3, 5] ! k) = 0)
   then 0 \<le> r \<and> nat r < 4 \<and> uprv_uint32Comparator () 3 ([1, 3, 3, 5] ! nat r) = 0
          \<and> (\<forall>k. nat r < k \<and> k < 4 \<longrightarrow> uprv_uint32Comparator () 3 ([1, 3, 3, 5] ! k) < 0)
   else r < 0 \<and> nat (NOT r) \<le> 4 \<and> (\<forall>k<nat (NOT r). uprv_uint32Comparator () 3 ([1, 3, 3, 5] ! k) > 0)
          \<and> (\<forall>k. nat (NOT r) \<le> k \<and> k < 4 \<longrightarrow> uprv_uint32Comparator () 3 ([1, 3, 3, 5] ! k) < 0))"
  by (rule uprv_stableBinarySearch_spec [where cmp = uprv_uint32Comparator and ctx = "()"])
    (simp_all add: uint32_contract, simp add: uprv_uint32Comparator_def)

text \<open>C33: the comparator for signed 32-bit items subtracts, and where the difference leaves 32
  bits it has the wrong sign: sorting 1 and the least integer leaves them in the wrong order.\<close>

theorem uprv_int32Comparator_overflow:
  "uprv_sortArray (\<lambda>_. True) (Some [1, 0x80000000 :: 32 word]) 2 4 (Some uprv_int32Comparator) ()
       False (Some U_ZERO_ERROR) = Some (Some [1, 0x80000000], Some U_ZERO_ERROR)
   \<and> sint (0x80000000 :: 32 word) < sint (1 :: 32 word)
   \<and> \<not> comparator (uprv_int32Comparator ())"
proof -
  have "uprv_int32Comparator () (0x80000000 :: 32 word) 1 > 0"
    "uprv_int32Comparator () 1 (0x80000000 :: 32 word) < 0"
    by (simp_all add: uprv_int32Comparator_def wrap32_def)
  moreover have "uprv_int32Comparator () 0 (0x80000000 :: 32 word) < 0"
    "uprv_int32Comparator () (0x80000000 :: 32 word) 0 < 0"
    by (simp_all add: uprv_int32Comparator_def wrap32_def)
  ultimately have "\<not> comparator (uprv_int32Comparator ())"
    using comparator.flip [of "uprv_int32Comparator ()" 0 "0x80000000"] by fastforce
  then show ?thesis
    by (simp add: uprv_sortArray_def insertionSort_def doInsertionSort_def insertionSortLoop.simps
        uprv_stableBinarySearch_def binarySearchLoop.simps linearSearchLoop.simps
        uprv_int32Comparator_def wrap32_def not_int_def)
qed

end
