(* ===== verification/TimeScale.thy ===== *)
theory TimeScale
  imports Prelude
begin

text \<open>
  \<open>Source/icu/utmscale.c\<close>: conversion between the universal time scale (100 ns ticks since
  year 1) and ten other date-time scales. The table of constants is the source's; every
  64-bit operation is reduced by \<open>wrap64\<close> and division truncates (\<open>sdiv\<close>). The lemmas show
  that the range checks keep every intermediate value inside 64 bits, that the result is the
  nearest unit, and that converting forth and back is the identity.
\<close>

section \<open>The table\<close>

abbreviation (input) UDTS_MAX_SCALE :: int where "UDTS_MAX_SCALE \<equiv> 10"
abbreviation (input) UTSV_MAX_SCALE_VALUE :: int where "UTSV_MAX_SCALE_VALUE \<equiv> 11"

abbreviation (input) UTSV_UNITS_VALUE :: nat where "UTSV_UNITS_VALUE \<equiv> 0"
abbreviation (input) UTSV_EPOCH_OFFSET_VALUE :: nat where "UTSV_EPOCH_OFFSET_VALUE \<equiv> 1"
abbreviation (input) UTSV_FROM_MIN_VALUE :: nat where "UTSV_FROM_MIN_VALUE \<equiv> 2"
abbreviation (input) UTSV_FROM_MAX_VALUE :: nat where "UTSV_FROM_MAX_VALUE \<equiv> 3"
abbreviation (input) UTSV_TO_MIN_VALUE :: nat where "UTSV_TO_MIN_VALUE \<equiv> 4"
abbreviation (input) UTSV_TO_MAX_VALUE :: nat where "UTSV_TO_MAX_VALUE \<equiv> 5"
abbreviation (input) UTSV_EPOCH_OFFSET_PLUS_1_VALUE :: nat where "UTSV_EPOCH_OFFSET_PLUS_1_VALUE \<equiv> 6"
abbreviation (input) UTSV_EPOCH_OFFSET_MINUS_1_VALUE :: nat where "UTSV_EPOCH_OFFSET_MINUS_1_VALUE \<equiv> 7"
abbreviation (input) UTSV_UNITS_ROUND_VALUE :: nat where "UTSV_UNITS_ROUND_VALUE \<equiv> 8"
abbreviation (input) UTSV_MIN_ROUND_VALUE :: nat where "UTSV_MIN_ROUND_VALUE \<equiv> 9"
abbreviation (input) UTSV_MAX_ROUND_VALUE :: nat where "UTSV_MAX_ROUND_VALUE \<equiv> 10"

abbreviation (input) U_INT64_MIN :: int where "U_INT64_MIN \<equiv> -9223372036854775808"
abbreviation (input) U_INT64_MAX :: int where "U_INT64_MAX \<equiv> 9223372036854775807"

abbreviation (input) ticks :: int where "ticks \<equiv> 1"
abbreviation (input) microseconds :: int where "microseconds \<equiv> 10"
abbreviation (input) milliseconds :: int where "milliseconds \<equiv> 10000"
abbreviation (input) seconds :: int where "seconds \<equiv> 10000000"
abbreviation (input) days :: int where "days \<equiv> 864000000000"

definition timeScaleTable :: "int list list" where
  "timeScaleTable =
   [[milliseconds, 62135596800000, -984472800485477, 860201606885477,
       -9223372036854774999, 9223372036854774999, 62135596800001, 62135596799999,
       5000, -9223372036854770808, 9223372036854770807],
    [seconds, 62135596800, -984472800485, 860201606885,
       U_INT64_MIN, U_INT64_MAX, 62135596801, 62135596799,
       5000000, -9223372036849775808, 9223372036849775807],
    [milliseconds, 62135596800000, -984472800485477, 860201606885477,
       -9223372036854774999, 9223372036854774999, 62135596800001, 62135596799999,
       5000, -9223372036854770808, 9223372036854770807],
    [ticks, 504911232000000000, U_INT64_MIN, 8718460804854775807,
       -8718460804854775808, U_INT64_MAX, 504911232000000000, 504911232000000000,
       0, U_INT64_MIN, U_INT64_MAX],
    [ticks, 0, U_INT64_MIN, U_INT64_MAX,
       U_INT64_MIN, U_INT64_MAX, 0, 0,
       0, U_INT64_MIN, U_INT64_MAX],
    [seconds, 60052752000, -982389955685, 862284451685,
       U_INT64_MIN, U_INT64_MAX, 60052752001, 60052751999,
       5000000, -9223372036849775808, 9223372036849775807],
    [seconds, 63113904000, -985451107685, 859223299685,
       U_INT64_MIN, U_INT64_MAX, 63113904001, 63113903999,
       5000000, -9223372036849775808, 9223372036849775807],
    [days, 693594, -11368793, 9981605,
       U_INT64_MIN, U_INT64_MAX, 693595, 693593,
       432000000000, -9223371604854775808, 9223371604854775807],
    [days, 693594, -11368793, 9981605,
       U_INT64_MIN, U_INT64_MAX, 693595, 693593,
       432000000000, -9223371604854775808, 9223371604854775807],
    [microseconds, 62135596800000000, -984472800485477580, 860201606885477580,
       -9223372036854775804, 9223372036854775804, 62135596800000001, 62135596799999999,
       5, -9223372036854775803, 9223372036854775802]]"

section \<open>Operations\<close>

text \<open>
  The status argument is a pointer in C: \<open>None\<close> is NULL, and the result pairs the return
  value with what the pointer holds afterwards.
\<close>

definition utmscale_getTimeScaleValue ::
    "int \<Rightarrow> int \<Rightarrow> UErrorCode option \<Rightarrow> int \<times> UErrorCode option" where
  "utmscale_getTimeScaleValue timeScale value status =
     (case status of
        None \<Rightarrow> (0, None)
      | Some st \<Rightarrow>
          if U_FAILURE st then (0, Some st)
          else if timeScale < 0 \<or> UDTS_MAX_SCALE \<le> timeScale
                 \<or> value < 0 \<or> UTSV_MAX_SCALE_VALUE \<le> value
          then (0, Some U_ILLEGAL_ARGUMENT_ERROR)
          else (timeScaleTable ! nat timeScale ! nat value, Some st))"

definition utmscale_fromInt64 ::
    "int \<Rightarrow> int \<Rightarrow> UErrorCode option \<Rightarrow> int \<times> UErrorCode option" where
  "utmscale_fromInt64 otherTime timeScale status =
     (case status of
        None \<Rightarrow> (0, None)
      | Some st \<Rightarrow>
          if U_FAILURE st then (0, Some st)
          else if timeScale < 0 \<or> timeScale \<ge> UDTS_MAX_SCALE
          then (0, Some U_ILLEGAL_ARGUMENT_ERROR)
          else
            let data = timeScaleTable ! nat timeScale in
            if otherTime < data ! UTSV_FROM_MIN_VALUE \<or> otherTime > data ! UTSV_FROM_MAX_VALUE
            then (0, Some U_ILLEGAL_ARGUMENT_ERROR)
            else (wrap64 (wrap64 (otherTime + data ! UTSV_EPOCH_OFFSET_VALUE)
                            * data ! UTSV_UNITS_VALUE),
                  Some st))"

definition utmscale_toInt64 ::
    "int \<Rightarrow> int \<Rightarrow> UErrorCode option \<Rightarrow> int \<times> UErrorCode option" where
  "utmscale_toInt64 universalTime timeScale status =
     (case status of
        None \<Rightarrow> (0, None)
      | Some st \<Rightarrow>
          if U_FAILURE st then (0, Some st)
          else if timeScale < 0 \<or> timeScale \<ge> UDTS_MAX_SCALE
          then (0, Some U_ILLEGAL_ARGUMENT_ERROR)
          else
            let data = timeScaleTable ! nat timeScale in
            if universalTime < data ! UTSV_TO_MIN_VALUE \<or> universalTime > data ! UTSV_TO_MAX_VALUE
            then (0, Some U_ILLEGAL_ARGUMENT_ERROR)
            else if universalTime < 0 then
              (if universalTime < data ! UTSV_MIN_ROUND_VALUE
               then (wrap64 (wrap64 (wrap64 (universalTime + data ! UTSV_UNITS_ROUND_VALUE)
                               sdiv data ! UTSV_UNITS_VALUE)
                             - data ! UTSV_EPOCH_OFFSET_PLUS_1_VALUE), Some st)
               else (wrap64 (wrap64 (wrap64 (universalTime - data ! UTSV_UNITS_ROUND_VALUE)
                               sdiv data ! UTSV_UNITS_VALUE)
                             - data ! UTSV_EPOCH_OFFSET_VALUE), Some st))
            else if universalTime > data ! UTSV_MAX_ROUND_VALUE
            then (wrap64 (wrap64 (wrap64 (universalTime - data ! UTSV_UNITS_ROUND_VALUE)
                            sdiv data ! UTSV_UNITS_VALUE)
                          - data ! UTSV_EPOCH_OFFSET_MINUS_1_VALUE), Some st)
            else (wrap64 (wrap64 (wrap64 (universalTime + data ! UTSV_UNITS_ROUND_VALUE)
                            sdiv data ! UTSV_UNITS_VALUE)
                          - data ! UTSV_EPOCH_OFFSET_VALUE), Some st))"

section \<open>Facts about the table\<close>

lemma scale_cases:
  assumes "0 \<le> (s::int)" "s < UDTS_MAX_SCALE"
  shows "nat s < length timeScaleTable"
  using assms by (simp add: timeScaleTable_def)

text \<open>
  What the source's comment "constants generated by GenerateCTimeScaleData" promises of a row:
  the rounding constant is half a unit, the two rounding limits are the 64-bit limits moved in
  by it, the shifted epoch offsets differ by one where there is rounding at all, and the
  \<open>from\<close> range is exactly what the \<open>to\<close> range rounds to.
\<close>

definition INT64_range :: "int \<Rightarrow> bool" where
  "INT64_range x \<longleftrightarrow> - (2 ^ 63) \<le> x \<and> x < 2 ^ 63"

definition nearest :: "int \<Rightarrow> int \<Rightarrow> int" where
  "nearest units u = (if u < 0 then - ((- u + units div 2) div units) else (u + units div 2) div units)"

definition row_ok :: "int list \<Rightarrow> bool" where
  "row_ok d \<longleftrightarrow>
     (let units = d ! UTSV_UNITS_VALUE; off = d ! UTSV_EPOCH_OFFSET_VALUE;
          r = d ! UTSV_UNITS_ROUND_VALUE in
      (units = 1 \<and> r = 0 \<or> units = 2 * r \<and> r > 0 \<and> r < 2 ^ 40
         \<and> d ! UTSV_EPOCH_OFFSET_PLUS_1_VALUE = off + 1
         \<and> d ! UTSV_EPOCH_OFFSET_MINUS_1_VALUE = off - 1)
      \<and> 0 \<le> off \<and> off < 2 ^ 60
      \<and> d ! UTSV_MIN_ROUND_VALUE = - (2 ^ 63) + r \<and> d ! UTSV_MAX_ROUND_VALUE = 2 ^ 63 - 1 - r
      \<and> - (2 ^ 63) \<le> d ! UTSV_TO_MIN_VALUE \<and> d ! UTSV_TO_MAX_VALUE < 2 ^ 63
      \<and> d ! UTSV_TO_MIN_VALUE < 0 \<and> 0 \<le> d ! UTSV_TO_MAX_VALUE
      \<and> - (2 ^ 63) \<le> d ! UTSV_FROM_MIN_VALUE \<and> d ! UTSV_FROM_MAX_VALUE < 2 ^ 63
      \<and> d ! UTSV_FROM_MIN_VALUE \<le> nearest units (d ! UTSV_TO_MIN_VALUE) - off
      \<and> nearest units (d ! UTSV_TO_MAX_VALUE) - off \<le> d ! UTSV_FROM_MAX_VALUE
      \<and> d ! UTSV_TO_MIN_VALUE \<le> (d ! UTSV_FROM_MIN_VALUE + off) * units
      \<and> (d ! UTSV_FROM_MAX_VALUE + off) * units \<le> d ! UTSV_TO_MAX_VALUE)"

lemma table_rows_ok: "list_all row_ok timeScaleTable"
  by (simp add: timeScaleTable_def row_ok_def nearest_def)


lemma table_row_ok:
  assumes "0 \<le> s" "s < UDTS_MAX_SCALE"
  shows "row_ok (timeScaleTable ! nat s)"
  using table_rows_ok scale_cases [OF assms] by (simp add: list_all_length)

section \<open>Rounding to the nearest unit\<close>

lemma sdiv_nonneg: "0 \<le> a \<Longrightarrow> 0 < b \<Longrightarrow> (a::int) sdiv b = a div b"
  by (simp add: signed_divide_int_def sgn_if)

lemma sdiv_neg: "a < 0 \<Longrightarrow> 0 < b \<Longrightarrow> (a::int) sdiv b = - ((- a) div b)"
  by (simp add: signed_divide_int_def sgn_if)

lemma div_shift_unit: "0 < r \<Longrightarrow> (a + r) div (2 * r) = (a - r) div (2 * r) + (1::int)"
proof -
  assume "0 < r"
  have "a + r = (a - r) + 1 * (2 * r)" by simp
  with \<open>0 < r\<close> show ?thesis by (metis div_mult_self1 less_irrefl mult_eq_0_iff zero_neq_numeral add.commute)
qed

lemma nearest_mono: "0 < units \<Longrightarrow> u \<le> v \<Longrightarrow> nearest units u \<le> nearest units v"
proof -
  assume u: "0 < units" and le: "u \<le> v"
  consider "v < 0" | "u < 0" "0 \<le> v" | "0 \<le> u" by linarith
  then show ?thesis
  proof cases
    case 1
    with le u show ?thesis by (simp add: nearest_def zdiv_mono1)
  next
    case 2
    have "0 \<le> (- u + units div 2) div units" "0 \<le> (v + units div 2) div units"
      using 2 u by (simp_all add: pos_imp_zdiv_nonneg_iff)
    with 2 show ?thesis by (simp add: nearest_def)
  next
    case 3
    with le u show ?thesis by (simp add: nearest_def zdiv_mono1)
  qed
qed

lemma nearest_multiple: "0 < units \<Longrightarrow> nearest units (k * units) = k"
proof -
  assume u: "0 < units"
  then have half: "(j * units + units div 2) div units = j" for j :: int
    by (simp add: div_pos_pos_trivial)
  show ?thesis
    using half [of k] half [of "- k"] u
    by (auto simp: nearest_def mult_less_0_iff)
qed

lemma nearest_error:
  assumes "units = 1 \<or> units = 2 * r \<and> 0 < r"
  shows "2 * \<bar>nearest units u * units - u\<bar> \<le> units"
proof -
  have aux: "2 * \<bar>((a + units div 2) div units) * units - a\<bar> \<le> units" if "0 \<le> a" for a
  proof -
    have "units > 0" using assms by auto
    then have m: "0 \<le> (a + units div 2) mod units" "(a + units div 2) mod units < units"
      by simp_all
    have e: "((a + units div 2) div units) * units = a + units div 2 - (a + units div 2) mod units"
      by (simp add: minus_mod_eq_div_mult)
    have "\<bar>units div 2 - (a + units div 2) mod units\<bar> * 2 \<le> units"
      using m assms
    proof (elim disjE conjE)
      assume "units = 2 * r" "0 < r"
      moreover define m' where "m' = (a + units div 2) mod units"
      ultimately have "0 \<le> m'" "m' < 2 * r" "units div 2 = r" using m by simp_all
      moreover have "\<bar>r - m'\<bar> * 2 \<le> 2 * r" using calculation(1,2) by (simp add: abs_if)
      ultimately show ?thesis using \<open>units = 2 * r\<close> by (simp add: m'_def)
    qed (use m in simp)
    then show ?thesis unfolding e by (simp add: algebra_simps)
  qed
  show ?thesis
  proof (cases "u < 0")
    case True
    with aux [of "- u"] show ?thesis by (simp add: nearest_def abs_minus_commute add.commute)
  next
    case False
    with aux [of u] show ?thesis by (simp add: nearest_def)
  qed
qed

section \<open>The conversions compute the exact result\<close>

lemma abs_nearest_le:
  assumes "units = 1 \<or> units = 2 * r \<and> 0 < r"
  shows "\<bar>nearest units u\<bar> \<le> \<bar>u\<bar>"
proof (cases "u = 0")
  case True
  with assms show ?thesis by (auto simp: nearest_def)
next
  case False
  have u: "units > 0" using assms by auto
  then have "nearest units u \<le> nearest units (\<bar>u\<bar> * units)"
    "nearest units ((- \<bar>u\<bar>) * units) \<le> nearest units u"
    using False by (intro nearest_mono; simp; smt (verit) mult_le_cancel_left1 mult_minus_left)+
  with u show ?thesis by (simp only: nearest_multiple)
qed

lemma from_branch:
  assumes ok: "row_ok d" and t: "d ! UTSV_FROM_MIN_VALUE \<le> t" "t \<le> d ! UTSV_FROM_MAX_VALUE"
  defines "x \<equiv> t + d ! UTSV_EPOCH_OFFSET_VALUE" and "units \<equiv> d ! UTSV_UNITS_VALUE"
  shows "d ! UTSV_TO_MIN_VALUE \<le> x * units" and "x * units \<le> d ! UTSV_TO_MAX_VALUE"
    and "wrap64 (wrap64 x * units) = x * units"
proof -
  note ok' = ok [unfolded row_ok_def Let_def, folded units_def]
  have upos: "1 \<le> units" using ok' by auto
  have "(d ! UTSV_FROM_MIN_VALUE + d ! UTSV_EPOCH_OFFSET_VALUE) * units \<le> x * units"
    and "x * units \<le> (d ! UTSV_FROM_MAX_VALUE + d ! UTSV_EPOCH_OFFSET_VALUE) * units"
    using t upos by (auto simp: x_def intro!: mult_right_mono)
  moreover have "d ! UTSV_TO_MIN_VALUE \<le> (d ! UTSV_FROM_MIN_VALUE + d ! UTSV_EPOCH_OFFSET_VALUE) * units"
    and "(d ! UTSV_FROM_MAX_VALUE + d ! UTSV_EPOCH_OFFSET_VALUE) * units \<le> d ! UTSV_TO_MAX_VALUE"
    and b: "- (2 ^ 63) \<le> d ! UTSV_TO_MIN_VALUE" "d ! UTSV_TO_MAX_VALUE < 2 ^ 63"
    using ok' by blast+
  ultimately show min: "d ! UTSV_TO_MIN_VALUE \<le> x * units"
    and max: "x * units \<le> d ! UTSV_TO_MAX_VALUE" by linarith+
  have "\<bar>x\<bar> \<le> \<bar>x * units\<bar>" using upos by (simp add: abs_mult mult_le_cancel_left1)
  then have "- (2 ^ 63) \<le> x" "x < 2 ^ 63"
    using min max b upos by (cases "x < 0"; simp add: mult_less_0_iff; linarith)+
  then show "wrap64 (wrap64 x * units) = x * units"
    using order_trans [OF b(1) min] order_le_less_trans [OF max b(2)] by (simp only: wrap64_id)
qed

lemma utmscale_fromInt64_exact:
  assumes s: "0 \<le> s" "s < UDTS_MAX_SCALE"
    and t: "timeScaleTable ! nat s ! UTSV_FROM_MIN_VALUE \<le> t"
      "t \<le> timeScaleTable ! nat s ! UTSV_FROM_MAX_VALUE"
  shows "utmscale_fromInt64 t s (Some U_ZERO_ERROR)
           = ((t + timeScaleTable ! nat s ! UTSV_EPOCH_OFFSET_VALUE)
                * timeScaleTable ! nat s ! UTSV_UNITS_VALUE, Some U_ZERO_ERROR)"
  using s t from_branch(3) [OF table_row_ok [OF s] t]
  by (simp add: utmscale_fromInt64_def Let_def del: One_nat_def)

lemma nearest_from_range:
  assumes ok: "row_ok d" and u: "d ! UTSV_TO_MIN_VALUE \<le> u" "u \<le> d ! UTSV_TO_MAX_VALUE"
  defines "q \<equiv> nearest (d ! UTSV_UNITS_VALUE) u"
  shows "d ! UTSV_FROM_MIN_VALUE \<le> q - d ! UTSV_EPOCH_OFFSET_VALUE"
    and "q - d ! UTSV_EPOCH_OFFSET_VALUE \<le> d ! UTSV_FROM_MAX_VALUE"
    and "wrap64 (q - d ! UTSV_EPOCH_OFFSET_VALUE) = q - d ! UTSV_EPOCH_OFFSET_VALUE"
proof -
  note ok' = ok [unfolded row_ok_def Let_def]
  have upos: "0 < d ! UTSV_UNITS_VALUE" using ok' by auto
  show lo: "d ! UTSV_FROM_MIN_VALUE \<le> q - d ! UTSV_EPOCH_OFFSET_VALUE"
    and hi: "q - d ! UTSV_EPOCH_OFFSET_VALUE \<le> d ! UTSV_FROM_MAX_VALUE"
    using nearest_mono [OF upos u(1)] nearest_mono [OF upos u(2)] ok'
    unfolding q_def by linarith+
  have "- (2 ^ 63) \<le> d ! UTSV_FROM_MIN_VALUE" "d ! UTSV_FROM_MAX_VALUE < 2 ^ 63"
    using ok' by blast+
  with lo hi show "wrap64 (q - d ! UTSV_EPOCH_OFFSET_VALUE) = q - d ! UTSV_EPOCH_OFFSET_VALUE"
    by (intro wrap64_id) simp_all
qed

text \<open>
  The two outer branches exist only where adding the rounding constant would leave 64 bits;
  there the code subtracts it and corrects the epoch offset by one instead.
\<close>

lemma toInt64_branch_neg:
  assumes ok: "row_ok d" and u: "- (2 ^ 63) \<le> u" "u < 0"
  defines "q \<equiv> nearest (d ! UTSV_UNITS_VALUE) u" and "r \<equiv> d ! UTSV_UNITS_ROUND_VALUE"
  shows "u < d ! UTSV_MIN_ROUND_VALUE \<Longrightarrow>
           wrap64 (wrap64 (u + r) sdiv d ! UTSV_UNITS_VALUE) - d ! UTSV_EPOCH_OFFSET_PLUS_1_VALUE
             = q - d ! UTSV_EPOCH_OFFSET_VALUE"
    and "\<not> u < d ! UTSV_MIN_ROUND_VALUE \<Longrightarrow>
           wrap64 (wrap64 (u - r) sdiv d ! UTSV_UNITS_VALUE) = q"
proof -
  let ?units = "d ! UTSV_UNITS_VALUE"
  note ok' = ok [unfolded row_ok_def Let_def, folded r_def]
  have units: "?units = 1 \<or> ?units = 2 * r \<and> 0 < r" and upos: "0 < ?units"
    and half: "?units div 2 = r" and r: "0 \<le> r" "r < 2 ^ 40" using ok' by auto
  have q: "\<bar>q\<bar> \<le> - u" "q \<le> 0"
    using abs_nearest_le [OF units, of u] u upos half r
    by (auto simp: q_def nearest_def pos_imp_zdiv_nonneg_iff)
  {
    assume lt: "u < d ! UTSV_MIN_ROUND_VALUE"
    then have r': "0 < r" "?units = 2 * r" using ok' u by auto
    have neg: "u + r < 0" using ok' lt r by simp
    then have "(u + r) sdiv ?units = - ((- u - r) div ?units)"
      using upos by (simp add: sdiv_neg)
    also have "\<dots> = q + 1"
      using u half r' div_shift_unit [of r "- u"] by (simp add: q_def nearest_def)
    finally have "wrap64 (wrap64 (u + r) sdiv ?units) = q + 1"
      using u q neg r by (simp add: wrap64_id)
    then show "wrap64 (wrap64 (u + r) sdiv ?units) - d ! UTSV_EPOCH_OFFSET_PLUS_1_VALUE
        = q - d ! UTSV_EPOCH_OFFSET_VALUE" using ok' r' by simp
  next
    assume ge: "\<not> u < d ! UTSV_MIN_ROUND_VALUE"
    have "(u - r) sdiv ?units = q"
      using u upos half r by (subst sdiv_neg) (auto simp: q_def nearest_def algebra_simps)
    moreover have "- (2 ^ 63) \<le> u - r" using ge ok' by simp
    ultimately show "wrap64 (wrap64 (u - r) sdiv ?units) = q"
      using u q r by (simp add: wrap64_id)
  }
qed

lemma toInt64_branch_pos:
  assumes ok: "row_ok d" and u: "0 \<le> u" "u < 2 ^ 63"
  defines "q \<equiv> nearest (d ! UTSV_UNITS_VALUE) u" and "r \<equiv> d ! UTSV_UNITS_ROUND_VALUE"
  shows "u > d ! UTSV_MAX_ROUND_VALUE \<Longrightarrow>
           wrap64 (wrap64 (u - r) sdiv d ! UTSV_UNITS_VALUE) - d ! UTSV_EPOCH_OFFSET_MINUS_1_VALUE
             = q - d ! UTSV_EPOCH_OFFSET_VALUE"
    and "\<not> u > d ! UTSV_MAX_ROUND_VALUE \<Longrightarrow>
           wrap64 (wrap64 (u + r) sdiv d ! UTSV_UNITS_VALUE) = q"
proof -
  let ?units = "d ! UTSV_UNITS_VALUE"
  note ok' = ok [unfolded row_ok_def Let_def, folded r_def]
  have units: "?units = 1 \<or> ?units = 2 * r \<and> 0 < r" and upos: "0 < ?units"
    and half: "?units div 2 = r" and r: "0 \<le> r" "r < 2 ^ 40" using ok' by auto
  have q: "q \<le> u" "0 \<le> q"
    using abs_nearest_le [OF units, of u] u upos half r
    by (auto simp: q_def nearest_def pos_imp_zdiv_nonneg_iff)
  {
    assume gt: "u > d ! UTSV_MAX_ROUND_VALUE"
    then have r': "0 < r" "?units = 2 * r" using ok' u by auto
    have pos: "0 \<le> u - r" using ok' gt r by simp
    then have "(u - r) sdiv ?units = q - 1"
      using u half r' upos div_shift_unit [of r u] by (simp add: q_def nearest_def sdiv_nonneg)
    then have "wrap64 (wrap64 (u - r) sdiv ?units) = q - 1"
      using u q pos r by (simp add: wrap64_id)
    then show "wrap64 (wrap64 (u - r) sdiv ?units) - d ! UTSV_EPOCH_OFFSET_MINUS_1_VALUE
        = q - d ! UTSV_EPOCH_OFFSET_VALUE" using ok' r' by simp
  next
    assume le: "\<not> u > d ! UTSV_MAX_ROUND_VALUE"
    have "(u + r) sdiv ?units = q"
      using u upos half r by (subst sdiv_nonneg) (auto simp: q_def nearest_def)
    moreover have "u + r < 2 ^ 63" using le ok' by simp
    ultimately show "wrap64 (wrap64 (u + r) sdiv ?units) = q"
      using u q r by (simp add: wrap64_id)
  }
qed

lemma utmscale_toInt64_exact:
  assumes s: "0 \<le> s" "s < UDTS_MAX_SCALE"
    and u: "timeScaleTable ! nat s ! UTSV_TO_MIN_VALUE \<le> u"
      "u \<le> timeScaleTable ! nat s ! UTSV_TO_MAX_VALUE"
  defines "d \<equiv> timeScaleTable ! nat s"
  shows "utmscale_toInt64 u s (Some U_ZERO_ERROR)
           = (nearest (d ! UTSV_UNITS_VALUE) u - d ! UTSV_EPOCH_OFFSET_VALUE, Some U_ZERO_ERROR)"
proof -
  note ok = table_row_ok [OF s, folded d_def]
  have ub: "- (2 ^ 63) \<le> u" "u < 2 ^ 63"
    using ok u by (auto simp: d_def row_ok_def Let_def)
  note w = nearest_from_range(3) [OF ok u [folded d_def]]
  note n = toInt64_branch_neg [OF ok ub(1)] and p = toInt64_branch_pos [OF ok _ ub(2)]
  show ?thesis
    using s u w n p
    by (cases "u < 0"; cases "u < d ! UTSV_MIN_ROUND_VALUE"; cases "u > d ! UTSV_MAX_ROUND_VALUE")
       (simp_all add: utmscale_toInt64_def Let_def d_def del: One_nat_def)
qed

section \<open>Properties\<close>

text \<open>C22: converting a time of any of the ten scales to universal time and back returns it
  unchanged, whenever it lies in the range the scale's table row admits.\<close>

theorem utmscale_roundtrip:
  assumes s: "0 \<le> s" "s < UDTS_MAX_SCALE"
    and t: "timeScaleTable ! nat s ! UTSV_FROM_MIN_VALUE \<le> t"
      "t \<le> timeScaleTable ! nat s ! UTSV_FROM_MAX_VALUE"
  shows "utmscale_toInt64 (fst (utmscale_fromInt64 t s (Some U_ZERO_ERROR))) s (Some U_ZERO_ERROR)
           = (t, Some U_ZERO_ERROR)"
proof -
  note fr = utmscale_fromInt64_exact [OF s t] from_branch [OF table_row_ok [OF s] t]
  have "0 < timeScaleTable ! nat s ! UTSV_UNITS_VALUE"
    using table_row_ok [OF s] by (auto simp: row_ok_def Let_def)
  then show ?thesis
    using utmscale_toInt64_exact [OF s fr(2,3)]
    by (simp add: fr(1) nearest_multiple del: One_nat_def)
qed

theorem utmscale_roundtrip_witness:
  "utmscale_toInt64 (fst (utmscale_fromInt64 1546300800 1 (Some U_ZERO_ERROR))) 1 (Some U_ZERO_ERROR)
     = (1546300800, Some U_ZERO_ERROR)"
  by (rule utmscale_roundtrip) (simp_all add: timeScaleTable_def)

text \<open>C23: a universal time inside a scale's range converts without error to the nearest whole
  unit of that scale (the error is at most half a unit), no 64-bit operation on the way wraps
  around although both ends of the range are the 64-bit limits, and the result is in the range
  the opposite conversion accepts.\<close>

theorem utmscale_toInt64_nearest:
  assumes s: "0 \<le> s" "s < UDTS_MAX_SCALE"
    and u: "timeScaleTable ! nat s ! UTSV_TO_MIN_VALUE \<le> u"
      "u \<le> timeScaleTable ! nat s ! UTSV_TO_MAX_VALUE"
  shows "\<exists>t. utmscale_toInt64 u s (Some U_ZERO_ERROR) = (t, Some U_ZERO_ERROR)
           \<and> 2 * \<bar>(t + timeScaleTable ! nat s ! UTSV_EPOCH_OFFSET_VALUE)
                     * timeScaleTable ! nat s ! UTSV_UNITS_VALUE - u\<bar>
               \<le> timeScaleTable ! nat s ! UTSV_UNITS_VALUE
           \<and> timeScaleTable ! nat s ! UTSV_FROM_MIN_VALUE \<le> t
           \<and> t \<le> timeScaleTable ! nat s ! UTSV_FROM_MAX_VALUE"
proof -
  note ok = table_row_ok [OF s]
  have "timeScaleTable ! nat s ! UTSV_UNITS_VALUE = 1
      \<or> timeScaleTable ! nat s ! UTSV_UNITS_VALUE = 2 * (timeScaleTable ! nat s ! UTSV_UNITS_ROUND_VALUE)
         \<and> 0 < timeScaleTable ! nat s ! UTSV_UNITS_ROUND_VALUE"
    using ok by (auto simp: row_ok_def Let_def)
  from nearest_error [OF this] show ?thesis
    using utmscale_toInt64_exact [OF s u] nearest_from_range(1,2) [OF ok u] by simp
qed

theorem utmscale_toInt64_nearest_witness:
  "\<exists>t. utmscale_toInt64 9223372036854775807 7 (Some U_ZERO_ERROR) = (t, Some U_ZERO_ERROR)
     \<and> 2 * \<bar>(t + 693594) * 864000000000 - 9223372036854775807\<bar> \<le> 864000000000
     \<and> -11368793 \<le> t \<and> t \<le> 9981605"
  using utmscale_toInt64_nearest [of 7 9223372036854775807] by (simp add: timeScaleTable_def)

end
