(* ===== verification/CString.thy ===== *)
theory CString
  imports Prelude "HOL-Library.List_Lexorder"
begin

text \<open>
  \<open>Source/icu/cstring.c\<close>: case mapping and comparison of invariant-character strings, and the
  conversion of integers to and from digit strings. A \<open>char\<close> is an \<open>8 word\<close> (signed where the
  source compares it as \<open>char\<close>), a string is the list of bytes from a pointer to the end of its
  object, and a pointer that may be NULL is an option. Running off an object is \<open>None\<close>.
\<close>

section \<open>Bytes and strings\<close>

type_synonym cchar = "8 word"

text \<open>The byte a string pointer points to; the terminating NUL is the end of the list or a 0 in it.\<close>

definition hd0 :: "'a::len word list \<Rightarrow> 'a word" where
  "hd0 s = (case s of [] \<Rightarrow> 0 | c # _ \<Rightarrow> c)"

definition cstr :: "'a::len word list \<Rightarrow> 'a word list" where
  "cstr s = takeWhile (\<lambda>c. c \<noteq> 0) s"

definition uprv_isASCIILetter :: "cchar \<Rightarrow> bool" where
  "uprv_isASCIILetter c \<longleftrightarrow> 0x61 \<le> sint c \<and> sint c \<le> 0x7A \<or> 0x41 \<le> sint c \<and> sint c \<le> 0x5A"

definition uprv_toupper :: "cchar \<Rightarrow> cchar" where
  "uprv_toupper c = (if 0x61 \<le> sint c \<and> sint c \<le> 0x7A then c + (0x41 - 0x61) else c)"

definition uprv_asciitolower :: "cchar \<Rightarrow> cchar" where
  "uprv_asciitolower c = (if 0x41 \<le> sint c \<and> sint c \<le> 0x5A then c + 0x20 else c)"

definition uprv_ebcdictolower :: "cchar \<Rightarrow> cchar" where
  "uprv_ebcdictolower c =
     (if 0xC1 \<le> c \<and> c \<le> 0xC9 \<or> 0xD1 \<le> c \<and> c \<le> 0xD9 \<or> 0xE2 \<le> c \<and> c \<le> 0xE9
      then c - 0x40 else c)"

text \<open>The in-place loops write every byte up to and including the terminating NUL.\<close>

fun lower_loop :: "cchar list \<Rightarrow> cchar list option" where
  "lower_loop [] = None"
| "lower_loop (c # s) =
     (let c' = uprv_asciitolower c in
      if c' = 0 then Some (c' # s) else map_option (\<lambda>s'. c' # s') (lower_loop s))"

definition T_CString_toLowerCase :: "cchar list option \<Rightarrow> cchar list option option" where
  "T_CString_toLowerCase str = (case str of None \<Rightarrow> Some None | Some s \<Rightarrow> map_option Some (lower_loop s))"

fun upper_loop :: "cchar list \<Rightarrow> cchar list option" where
  "upper_loop [] = None"
| "upper_loop (c # s) =
     (let c' = uprv_toupper c in
      if c' = 0 then Some (c' # s) else map_option (\<lambda>s'. c' # s') (upper_loop s))"

definition T_CString_toUpperCase :: "cchar list option \<Rightarrow> cchar list option option" where
  "T_CString_toUpperCase str = (case str of None \<Rightarrow> Some None | Some s \<Rightarrow> map_option Some (upper_loop s))"

section \<open>Numbers to strings\<close>

definition T_CString_itosOffset :: "nat \<Rightarrow> cchar" where
  "T_CString_itosOffset a = (if a \<le> 9 then 0x30 + of_nat a else 0x41 + of_nat a - 10)"

text \<open>The digits are written backwards into the local array \<open>tbuf\<close>; \<open>tbx\<close> is the index of the last
  one written. Writing before the start of the array is \<open>None\<close>.\<close>

fun itos_loop :: "cchar list \<Rightarrow> nat \<Rightarrow> nat \<Rightarrow> nat \<Rightarrow> (cchar list \<times> nat) option" where
  "itos_loop tbuf 0 uval radix = None"
| "itos_loop tbuf (Suc tbx) uval radix =
     (let tbuf' = tbuf[tbx := T_CString_itosOffset (uval mod radix)];
          uval' = uval div radix
      in if uval' \<noteq> 0 then itos_loop tbuf' tbx uval' radix else Some (tbuf', tbx))"

definition write_bytes :: "cchar list \<Rightarrow> nat \<Rightarrow> cchar list \<Rightarrow> cchar list option" where
  "write_bytes buffer pos bytes =
     (if pos + length bytes \<le> length buffer
      then Some (take pos buffer @ bytes @ drop (pos + length bytes) buffer) else None)"

text \<open>\<open>uprv_strcpy\<close> copies up to and including the NUL.\<close>

definition uprv_strcpy :: "cchar list \<Rightarrow> nat \<Rightarrow> cchar list \<Rightarrow> cchar list option" where
  "uprv_strcpy buffer pos src = write_bytes buffer pos (cstr src @ [0])"

definition sizeof_tbuf :: nat where "sizeof_tbuf = 30"

definition T_CString_integerToString ::
    "cchar list \<Rightarrow> 32 word \<Rightarrow> nat \<Rightarrow> (cchar list \<times> nat) option" where
  "T_CString_integerToString buffer v radix =
     (let isneg = (sint v < 0 \<and> radix = 10);
          uval = (if isneg then unat (- v) else unat v);
          len0 = (if isneg then 1 else 0);
          buffer0 = (if isneg then write_bytes buffer 0 [0x2D] else Some buffer);
          tbuf = (replicate sizeof_tbuf 0)[sizeof_tbuf - 1 := 0]
      in case (buffer0, itos_loop tbuf (sizeof_tbuf - 1) uval radix) of
           (Some buffer1, Some (tbuf', tbx)) \<Rightarrow>
             map_option (\<lambda>b. (b, len0 + (sizeof_tbuf - tbx - 1))) (uprv_strcpy buffer1 len0 (drop tbx tbuf'))
         | _ \<Rightarrow> None)"

definition T_CString_int64ToString ::
    "cchar list \<Rightarrow> 64 word \<Rightarrow> nat \<Rightarrow> (cchar list \<times> nat) option" where
  "T_CString_int64ToString buffer v radix =
     (let isneg = (sint v < 0 \<and> radix = 10);
          uval = (if isneg then unat (- v) else unat v);
          len0 = (if isneg then 1 else 0);
          buffer0 = (if isneg then write_bytes buffer 0 [0x2D] else Some buffer);
          tbuf = (replicate sizeof_tbuf 0)[sizeof_tbuf - 1 := 0]
      in case (buffer0, itos_loop tbuf (sizeof_tbuf - 1) uval radix) of
           (Some buffer1, Some (tbuf', tbx)) \<Rightarrow>
             map_option (\<lambda>b. (b, len0 + (sizeof_tbuf - tbx - 1))) (uprv_strcpy buffer1 len0 (drop tbx tbuf'))
         | _ \<Rightarrow> None)"

section \<open>Strings to numbers\<close>

text \<open>\<open>strtoul\<close> of the C library, for the bases 2 to 36, with a 32-bit \<open>unsigned long\<close>: leading white
  space, a sign, for base 16 a prefix 0x in front of a digit, then the digits; values out of range
  give the largest \<open>unsigned long\<close>, and a minus sign negates modulo \<open>2 ^ 32\<close>.\<close>

definition is_cspace :: "cchar \<Rightarrow> bool" where
  "is_cspace c \<longleftrightarrow> c = 0x20 \<or> 9 \<le> c \<and> c \<le> 13"

definition digit_value :: "cchar \<Rightarrow> nat option" where
  "digit_value c =
     (if 0x30 \<le> c \<and> c \<le> 0x39 then Some (unat c - 0x30)
      else if 0x41 \<le> c \<and> c \<le> 0x5A then Some (unat c - 0x41 + 10)
      else if 0x61 \<le> c \<and> c \<le> 0x7A then Some (unat c - 0x61 + 10)
      else None)"

definition is_digit :: "nat \<Rightarrow> cchar \<Rightarrow> bool" where
  "is_digit radix c \<longleftrightarrow> (case digit_value c of None \<Rightarrow> False | Some d \<Rightarrow> d < radix)"

fun scan_digits :: "nat \<Rightarrow> nat \<Rightarrow> cchar list \<Rightarrow> nat" where
  "scan_digits radix acc [] = acc"
| "scan_digits radix acc (c # s) =
     (if is_digit radix c then scan_digits radix (acc * radix + the (digit_value c)) s else acc)"

definition skip_prefix :: "nat \<Rightarrow> cchar list \<Rightarrow> cchar list" where
  "skip_prefix radix s =
     (case s of
        a # b # c # rest \<Rightarrow>
          if radix = 16 \<and> a = 0x30 \<and> (b = 0x78 \<or> b = 0x58) \<and> is_digit radix c then c # rest else s
      | _ \<Rightarrow> s)"

definition uprv_strtoul :: "cchar list \<Rightarrow> nat \<Rightarrow> nat" where
  "uprv_strtoul str radix =
     (let s = dropWhile is_cspace str;
          neg = (hd0 s = 0x2D);
          s1 = (if hd0 s = 0x2D \<or> hd0 s = 0x2B then tl s else s);
          n = scan_digits radix 0 (skip_prefix radix s1)
      in if n \<ge> 2 ^ 32 then 2 ^ 32 - 1
         else if neg then (2 ^ 32 - n) mod 2 ^ 32 else n)"

definition T_CString_stringToInteger :: "cchar list \<Rightarrow> nat \<Rightarrow> 32 word" where
  "T_CString_stringToInteger integerString radix = of_nat (uprv_strtoul integerString radix)"

section \<open>Comparison and copies\<close>

function stricmp_loop :: "cchar list \<Rightarrow> cchar list \<Rightarrow> int" where
  "stricmp_loop str1 str2 =
     (let c1 = hd0 str1; c2 = hd0 str2 in
      if c1 = 0 then (if c2 = 0 then 0 else -1)
      else if c2 = 0 then 1
      else let rc = uint (uprv_asciitolower c1) - uint (uprv_asciitolower c2)
           in if rc \<noteq> 0 then rc else stricmp_loop (tl str1) (tl str2))"
  by pat_completeness auto
termination
  by (relation "measure (\<lambda>(str1, str2). length str1)") (auto simp: hd0_def split: list.splits)

declare stricmp_loop.simps [simp del]

definition uprv_stricmp :: "cchar list option \<Rightarrow> cchar list option \<Rightarrow> int" where
  "uprv_stricmp str1 str2 =
     (case str1 of
        None \<Rightarrow> (case str2 of None \<Rightarrow> 0 | Some _ \<Rightarrow> -1)
      | Some s1 \<Rightarrow> (case str2 of None \<Rightarrow> 1 | Some s2 \<Rightarrow> stricmp_loop s1 s2))"

fun strnicmp_loop :: "nat \<Rightarrow> cchar list \<Rightarrow> cchar list \<Rightarrow> int" where
  "strnicmp_loop 0 str1 str2 = 0"
| "strnicmp_loop (Suc n) str1 str2 =
     (let c1 = hd0 str1; c2 = hd0 str2 in
      if c1 = 0 then (if c2 = 0 then 0 else -1)
      else if c2 = 0 then 1
      else let rc = uint (uprv_asciitolower c1) - uint (uprv_asciitolower c2)
           in if rc \<noteq> 0 then rc else strnicmp_loop n (tl str1) (tl str2))"

definition uprv_strnicmp :: "cchar list option \<Rightarrow> cchar list option \<Rightarrow> nat \<Rightarrow> int" where
  "uprv_strnicmp str1 str2 n =
     (case str1 of
        None \<Rightarrow> (case str2 of None \<Rightarrow> 0 | Some _ \<Rightarrow> -1)
      | Some s1 \<Rightarrow> (case str2 of None \<Rightarrow> 1 | Some s2 \<Rightarrow> strnicmp_loop n s1 s2))"

text \<open>The copies return NULL (\<open>Some None\<close>) where the allocation fails; \<open>uprv_strndup\<close> reads \<open>n\<close> bytes
  of the source whatever they are, and past the end of its object that is \<open>None\<close>.\<close>

definition uprv_strdup :: "(nat \<Rightarrow> bool) \<Rightarrow> cchar list \<Rightarrow> cchar list option option" where
  "uprv_strdup malloc src =
     (let len = length (cstr src) + 1 in
      Some (if malloc len then Some (cstr src @ [0]) else None))"

definition uprv_strndup :: "(nat \<Rightarrow> bool) \<Rightarrow> cchar list \<Rightarrow> int \<Rightarrow> cchar list option option" where
  "uprv_strndup malloc src n =
     (if n < 0 then uprv_strdup malloc src
      else if malloc (nat n + 1)
      then (if nat n \<le> length src then Some (Some (take (nat n) src @ [0])) else None)
      else Some None)"

section \<open>Digits\<close>

text \<open>The digits of a number, most significant first.\<close>

fun digits_of :: "nat \<Rightarrow> nat \<Rightarrow> nat list" where
  "digits_of r u = (if r < 2 \<or> u < r then [u] else digits_of r (u div r) @ [u mod r])"

declare digits_of.simps [simp del]

lemma digits_of_not_Nil [simp]: "digits_of r u \<noteq> []"
  by (subst digits_of.simps) simp

lemma digits_of_less: "2 \<le> r \<Longrightarrow> d \<in> set (digits_of r u) \<Longrightarrow> d < r"
proof (induction r u rule: digits_of.induct)
  case (1 r u)
  then show ?case by (cases "u < r") (auto simp: digits_of.simps [of r u])
qed

lemma digits_of_value: "2 \<le> r \<Longrightarrow> foldl (\<lambda>a d. a * r + d) 0 (digits_of r u) = u"
proof (induction r u rule: digits_of.induct)
  case (1 r u)
  then show ?case by (cases "u < r") (auto simp: digits_of.simps [of r u])
qed

lemma digits_of_length: "2 \<le> r \<Longrightarrow> u < r ^ Suc k \<Longrightarrow> length (digits_of r u) \<le> Suc k"
proof (induction k arbitrary: u)
  case 0
  then show ?case by (simp add: digits_of.simps [of r u])
next
  case (Suc k)
  then have "u div r < r ^ Suc k" by (simp add: div_less_iff_less_mult ac_simps)
  with Suc show ?case by (subst digits_of.simps) auto
qed

lemma digits_of_length_ge: "2 \<le> r \<Longrightarrow> r ^ k \<le> u \<Longrightarrow> k < length (digits_of r u)"
proof (induction k arbitrary: u)
  case 0
  then show ?case by simp
next
  case (Suc k)
  have "r * 1 \<le> r * r ^ k" using Suc.prems(1) by (intro mult_le_mono2) simp
  with Suc.prems(2) have "r \<le> u" unfolding mult_1_right power_Suc by (rule order_trans [rotated])
  moreover have "r ^ k \<le> u div r" using Suc.prems by (simp add: less_eq_div_iff_mult_less_eq ac_simps)
  ultimately show ?case using Suc by (subst digits_of.simps) auto
qed

text \<open>The backwards loop writes exactly the digits, and only in front of the index it starts from.
  It runs off the array exactly when there are more digits than places.\<close>

lemma itos_loop_correct:
  assumes "2 \<le> r" "tbx \<le> length tbuf"
  shows "if length (digits_of r u) \<le> tbx
         then \<exists>tbuf'. itos_loop tbuf tbx u r = Some (tbuf', tbx - length (digits_of r u))
                \<and> drop (tbx - length (digits_of r u)) tbuf'
                    = map T_CString_itosOffset (digits_of r u) @ drop tbx tbuf
         else itos_loop tbuf tbx u r = None"
  using assms(2)
proof (induction tbx arbitrary: tbuf u)
  case 0
  then show ?case by simp
next
  case (Suc tbx)
  let ?t = "tbuf[tbx := T_CString_itosOffset (u mod r)]"
  have d: "drop tbx ?t = T_CString_itosOffset (u mod r) # drop (Suc tbx) tbuf"
    using Suc.prems by (simp add: Cons_nth_drop_Suc [symmetric])
  show ?case
  proof (cases "u < r")
    case True
    then show ?thesis using assms(1) d by (simp add: digits_of.simps [of r u])
  next
    case False
    then have "u div r \<noteq> 0" using assms(1) by (simp add: div_eq_0_iff)
    moreover have ds: "digits_of r u = digits_of r (u div r) @ [u mod r]"
      using False assms(1) by (simp add: digits_of.simps [of r u])
    moreover note Suc.IH [of ?t "u div r"]
    ultimately show ?thesis using Suc.prems d by (auto simp: Let_def split: if_splits)
  qed
qed

lemma digit_char:
  assumes "d < 16"
  shows "digit_value (T_CString_itosOffset d) = Some d" "T_CString_itosOffset d \<noteq> 0"
    "\<not> is_cspace (T_CString_itosOffset d)" "T_CString_itosOffset d \<noteq> 0x2D"
    "T_CString_itosOffset d \<noteq> 0x2B" "T_CString_itosOffset d \<noteq> 0x78" "T_CString_itosOffset d \<noteq> 0x58"
proof -
  have "\<forall>d\<in>set [0..<16]. digit_value (T_CString_itosOffset d) = Some d \<and> T_CString_itosOffset d \<noteq> 0
      \<and> \<not> is_cspace (T_CString_itosOffset d) \<and> T_CString_itosOffset d \<noteq> 0x2D
      \<and> T_CString_itosOffset d \<noteq> 0x2B \<and> T_CString_itosOffset d \<noteq> 0x78 \<and> T_CString_itosOffset d \<noteq> 0x58"
    by (simp add: upt_rec T_CString_itosOffset_def digit_value_def is_cspace_def)
  then show "digit_value (T_CString_itosOffset d) = Some d" "T_CString_itosOffset d \<noteq> 0"
    "\<not> is_cspace (T_CString_itosOffset d)" "T_CString_itosOffset d \<noteq> 0x2D"
    "T_CString_itosOffset d \<noteq> 0x2B" "T_CString_itosOffset d \<noteq> 0x78" "T_CString_itosOffset d \<noteq> 0x58"
    using assms by auto
qed

lemma cstr_digits:
  "(\<And>d. d \<in> set ds \<Longrightarrow> d < 16) \<Longrightarrow> cstr (map T_CString_itosOffset ds @ 0 # rest) = map T_CString_itosOffset ds"
  by (induction ds) (auto simp: cstr_def digit_char)

lemma scan_digits_correct:
  "r \<le> 16 \<Longrightarrow> (\<And>d. d \<in> set ds \<Longrightarrow> d < r) \<Longrightarrow>
     scan_digits r acc (map T_CString_itosOffset ds @ 0 # rest) = foldl (\<lambda>a d. a * r + d) acc ds"
proof (induction ds arbitrary: acc)
  case Nil
  then show ?case by (simp add: is_digit_def digit_value_def)
next
  case (Cons d ds)
  have "d < r" using Cons.prems(2) [of d] by simp
  moreover from this have "d < 16" using Cons.prems(1) by linarith
  ultimately show ?case using Cons by (simp add: is_digit_def digit_char)
qed

lemma skip_prefix_digits:
  assumes "\<And>d. d \<in> set ds \<Longrightarrow> d < 16"
  shows "skip_prefix r (map T_CString_itosOffset ds @ 0 # rest) = map T_CString_itosOffset ds @ 0 # rest"
proof (cases ds)
  case Nil
  then show ?thesis by (simp add: skip_prefix_def split: list.splits)
next
  case (Cons d ds')
  with assms show ?thesis
    by (cases ds') (auto simp: skip_prefix_def digit_char split: list.splits)
qed

lemma strtoul_digits:
  assumes "2 \<le> r" "r \<le> 16" "u < 2 ^ 32"
  shows "uprv_strtoul (map T_CString_itosOffset (digits_of r u) @ 0 # rest) r = u"
    and "uprv_strtoul (0x2D # map T_CString_itosOffset (digits_of r u) @ 0 # rest) r = (2 ^ 32 - u) mod 2 ^ 32"
proof -
  let ?s = "map T_CString_itosOffset (digits_of r u) @ 0 # rest"
  have d: "d < r" "d < 16" if "d \<in> set (digits_of r u)" for d
    using digits_of_less [OF assms(1) that] assms(2) by auto
  have "scan_digits r 0 (skip_prefix r ?s) = foldl (\<lambda>a d. a * r + d) 0 (digits_of r u)"
    using d assms(2) by (simp add: skip_prefix_digits scan_digits_correct)
  then have scan: "scan_digits r 0 (skip_prefix r ?s) = u" by (simp add: digits_of_value [OF assms(1)])
  obtain d0 ds where ds: "digits_of r u = d0 # ds" by (cases "digits_of r u") auto
  then have d0: "d0 < 16" using d(2) by simp
  have h: "hd0 ?s = T_CString_itosOffset d0" "dropWhile is_cspace ?s = ?s"
    using digit_char(3) [OF d0] by (simp_all add: ds hd0_def)
  show "uprv_strtoul ?s r = u"
    unfolding uprv_strtoul_def Let_def h using assms(3) scan digit_char(4,5) [OF d0] by simp
  have "\<not> is_cspace 0x2D" by (simp add: is_cspace_def)
  then have m: "dropWhile is_cspace (0x2D # ?s) = 0x2D # ?s" "hd0 (0x2D # ?s) = 0x2D"
    by (simp_all add: hd0_def)
  show "uprv_strtoul (0x2D # ?s) r = (2 ^ 32 - u) mod 2 ^ 32"
    unfolding uprv_strtoul_def Let_def m using assms(3) scan by simp
qed

lemma stored_digits:
  assumes "2 \<le> r" "r \<le> 16" "length (digits_of r u) \<le> 29"
  obtains tbuf' where
    "itos_loop ((replicate sizeof_tbuf 0)[sizeof_tbuf - 1 := 0]) (sizeof_tbuf - 1) u r
       = Some (tbuf', 29 - length (digits_of r u))"
    "cstr (drop (29 - length (digits_of r u)) tbuf') = map T_CString_itosOffset (digits_of r u)"
proof -
  let ?t = "(replicate sizeof_tbuf 0)[sizeof_tbuf - 1 := 0]"
  have "?t = replicate 30 (0 :: cchar)"
    by (simp add: sizeof_tbuf_def list_eq_iff_nth_eq nth_list_update)
  then have t: "drop 29 ?t = [0 :: cchar]" by simp
  obtain tbuf' where "itos_loop ?t (sizeof_tbuf - 1) u r = Some (tbuf', 29 - length (digits_of r u))"
      "drop (29 - length (digits_of r u)) tbuf' = map T_CString_itosOffset (digits_of r u) @ drop 29 ?t"
    using itos_loop_correct [OF assms(1), of 29 ?t u] assms(3) by (auto simp: sizeof_tbuf_def)
  moreover have "d < 16" if "d \<in> set (digits_of r u)" for d
    using digits_of_less [OF assms(1) that] assms(2) by simp
  ultimately show ?thesis using that t cstr_digits [of "digits_of r u" "[]"] by simp
qed

lemma write_bytes_Some:
  "pos + length bytes \<le> length buffer \<Longrightarrow>
     write_bytes buffer pos bytes = Some (take pos buffer @ bytes @ drop (pos + length bytes) buffer)"
  by (simp add: write_bytes_def)

text \<open>What \<open>T_CString_integerToString\<close> leaves in a buffer that is large enough.\<close>

lemma integerToString_result:
  assumes r: "2 \<le> r" "r \<le> 16" and isneg: "isneg \<longleftrightarrow> sint v < 0 \<and> r = 10"
    and u: "u = (if isneg then unat (- v) else unat v)"
    and len: "length (digits_of r u) \<le> 29" "length (digits_of r u) + 2 \<le> length buffer"
  shows "\<exists>rest. T_CString_integerToString buffer v r =
     Some ((if isneg then [0x2D] else []) @ map T_CString_itosOffset (digits_of r u) @ 0 # rest,
           (if isneg then 1 else 0) + length (digits_of r u))"
proof -
  obtain tbuf' where t: "itos_loop ((replicate sizeof_tbuf 0)[sizeof_tbuf - 1 := 0]) (sizeof_tbuf - 1) u r
       = Some (tbuf', 29 - length (digits_of r u))"
    "cstr (drop (29 - length (digits_of r u)) tbuf') = map T_CString_itosOffset (digits_of r u)"
    by (rule stored_digits [OF r len(1)])
  have n: "sizeof_tbuf - (29 - length (digits_of r u)) - 1 = length (digits_of r u)"
    using len(1) by (simp add: sizeof_tbuf_def)
  show ?thesis
  proof (cases isneg)
    case True
    with isneg u have u': "sint v < 0 \<and> r = 10" "unat (- v) = u" by auto
    have "write_bytes buffer 0 [0x2D] = Some (0x2D # drop 1 buffer)"
      using len(2) by (simp add: write_bytes_def)
    moreover have "uprv_strcpy (0x2D # drop 1 buffer) 1 (drop (29 - length (digits_of r u)) tbuf') =
        Some (0x2D # map T_CString_itosOffset (digits_of r u) @ 0 # drop (length (digits_of r u) + 2) buffer)"
      using len(2) by (simp add: uprv_strcpy_def t(2) write_bytes_def)
    ultimately show ?thesis using True u' t(1) n
      by (simp add: T_CString_integerToString_def Let_def)
  next
    case False
    with isneg u have u': "\<not> (sint v < 0 \<and> r = 10)" "unat v = u" by auto
    have "uprv_strcpy buffer 0 (drop (29 - length (digits_of r u)) tbuf') =
        Some (map T_CString_itosOffset (digits_of r u) @ 0 # drop (length (digits_of r u) + 1) buffer)"
      using len(2) by (simp add: uprv_strcpy_def t(2) write_bytes_def)
    then show ?thesis using False u' t(1) n
      by (auto simp: T_CString_integerToString_def Let_def)
  qed
qed

lemma digits_bound_32:
  assumes "2 \<le> r" "u < 2 ^ 32" "r = 2 \<longrightarrow> u < 2 ^ 29"
  shows "length (digits_of r u) \<le> 29"
proof (cases "r = 2")
  case True
  then show ?thesis using digits_of_length [of 2 u 28] assms by simp
next
  case False
  then have "3 \<le> r" using assms(1) by simp
  then have "(3 :: nat) ^ 21 \<le> r ^ 21" by (rule power_mono) simp
  then have "u < r ^ Suc 20" using assms(2) by simp
  from digits_of_length [OF assms(1) this] show ?thesis by simp
qed

section \<open>Case-insensitive order\<close>

definition fold_key :: "cchar list \<Rightarrow> int list" where
  "fold_key s = map (\<lambda>c. uint (uprv_asciitolower c)) (cstr s)"

lemma fold_key_simps:
  "hd0 s = 0 \<Longrightarrow> fold_key s = []"
  "hd0 s \<noteq> 0 \<Longrightarrow> fold_key s = uint (uprv_asciitolower (hd0 s)) # fold_key (tl s)"
  by (cases s; simp add: fold_key_def hd0_def cstr_def)+

lemma stricmp_loop_lex:
  "stricmp_loop s1 s2 < 0 \<longleftrightarrow> fold_key s1 < fold_key s2"
  "stricmp_loop s1 s2 > 0 \<longleftrightarrow> fold_key s2 < fold_key s1"
proof (induction s1 s2 rule: stricmp_loop.induct)
  case (1 s1 s2)
  {
    case 1
    show ?case using "1.IH"
      by (subst stricmp_loop.simps)
        (auto simp: Let_def fold_key_simps not_less_iff_gr_or_eq)
  next
    case 2
    show ?case using "1.IH"
      by (subst stricmp_loop.simps)
        (auto simp: Let_def fold_key_simps not_less_iff_gr_or_eq)
  }
qed

lemma stricmp_loop_le: "stricmp_loop s1 s2 \<le> 0 \<longleftrightarrow> fold_key s1 \<le> fold_key s2"
  using stricmp_loop_lex(2) [of s1 s2] by (simp add: not_less [symmetric])

lemma stricmp_loop_zero: "stricmp_loop s1 s2 = 0 \<longleftrightarrow> fold_key s1 = fold_key s2"
  using stricmp_loop_lex [of s1 s2] by (metis less_irrefl linorder_neqE)

interpretation stricmp: comparator uprv_stricmp
proof
  fix x y z :: "cchar list option"
  show "uprv_stricmp x y < 0 \<longleftrightarrow> uprv_stricmp y x > 0"
    using stricmp_loop_lex by (auto simp: uprv_stricmp_def split: option.splits)
  assume "uprv_stricmp x y \<le> 0" "uprv_stricmp y z \<le> 0"
  then show "uprv_stricmp x z \<le> 0"
    by (auto simp: uprv_stricmp_def stricmp_loop_le split: option.splits)
qed

lemma strnicmp_loop_take: "strnicmp_loop n s1 s2 = stricmp_loop (take n s1) (take n s2)"
proof (induction n arbitrary: s1 s2)
  case 0
  then show ?case by (simp add: stricmp_loop.simps hd0_def)
next
  case (Suc n)
  have "hd0 (take (Suc n) s) = hd0 s" "tl (take (Suc n) s) = take n (tl s)" for s :: "cchar list"
    by (cases s; simp add: hd0_def)+
  then show ?case by (simp add: stricmp_loop.simps [of "take (Suc n) s1"] Suc Let_def)
qed

section \<open>Properties\<close>

text \<open>C36: Printing a 32-bit integer in a base from 3 to 16, or in base 2 an integer below \<open>2 ^ 29\<close>, into
  a buffer of 31 characters and reading the string back gives the integer, negative numbers included
  (base 10 prints a sign, the other bases the two's complement), and the returned length is the
  length of the string. In base 2 the digits of larger values do not fit the local array.\<close>

theorem integerToString_roundtrip:
  assumes "2 \<le> radix" "radix \<le> 16" "radix = 2 \<longrightarrow> unat v < 2 ^ 29" "31 \<le> length buffer"
  shows "\<exists>buffer' n. T_CString_integerToString buffer v radix = Some (buffer', n)
           \<and> T_CString_stringToInteger buffer' radix = v \<and> length (cstr buffer') = n"
proof -
  define isneg where "isneg \<longleftrightarrow> sint v < 0 \<and> radix = 10"
  define u where "u = (if isneg then unat (- v) else unat v)"
  have u32: "u < 2 ^ 32"
    unfolding u_def by (cases isneg) (simp_all add: unsigned_less [THEN order.strict_trans2])
  have d16: "d < 16" if "d \<in> set (digits_of radix u)" for d
    using digits_of_less [OF assms(1) that] assms(2) by simp
  have "radix = 2 \<longrightarrow> u < 2 ^ 29" using assms(3) by (auto simp: u_def isneg_def)
  then have len: "length (digits_of radix u) \<le> 29" by (rule digits_bound_32 [OF assms(1) u32])
  obtain rest where r: "T_CString_integerToString buffer v radix =
     Some ((if isneg then [0x2D] else []) @ map T_CString_itosOffset (digits_of radix u) @ 0 # rest,
           (if isneg then 1 else 0) + length (digits_of radix u))" (is "_ = Some (?b, ?n)")
    using integerToString_result [OF assms(1,2) isneg_def u_def len, of buffer] len assms(4) by fastforce
  have "length (cstr ?b) = ?n"
    using cstr_digits [of "digits_of radix u" rest] d16 by (auto simp: cstr_def)
  moreover have "T_CString_stringToInteger ?b radix = v"
  proof (cases isneg)
    case False
    then show ?thesis
      using strtoul_digits(1) [OF assms(1,2) u32, of rest]
      by (simp add: T_CString_stringToInteger_def u_def)
  next
    case True
    have "of_nat ((2 ^ 32 - u) mod 2 ^ 32) = (of_nat (2 ^ 32 - u) :: 32 word)"
      by (simp add: word_of_nat_eq_iff take_bit_eq_mod)
    also have "\<dots> = - of_nat u" using u32 by (simp add: of_nat_diff)
    also have "\<dots> = v" using True by (simp add: u_def)
    finally show ?thesis
      using True strtoul_digits(2) [OF assms(1,2) u32, of rest]
      by (simp add: T_CString_stringToInteger_def)
  qed
  ultimately show ?thesis using r by blast
qed

theorem integerToString_roundtrip_witness:
  "\<exists>buffer' n. T_CString_integerToString (replicate 40 1) (- 305) 10 = Some (buffer', n)
     \<and> T_CString_stringToInteger buffer' 10 = - 305 \<and> length (cstr buffer') = n"
  by (rule integerToString_roundtrip) simp_all

text \<open>C37: The local array has room for 29 digits, but the bases admitted by the assertion start at 2:
  a number with more digits than that makes the loop write in front of the array. In base 2 this
  is every 32-bit value from \<open>2 ^ 29\<close> on, for example -1, whatever the caller's buffer.\<close>

theorem integerToString_overflow:
  assumes "2 ^ 29 \<le> unat v"
  shows "T_CString_integerToString buffer v 2 = None"
proof -
  let ?t = "(replicate sizeof_tbuf 0)[sizeof_tbuf - 1 := 0] :: cchar list"
  have "29 < length (digits_of 2 (unat v))" using digits_of_length_ge [of 2 29 "unat v"] assms by simp
  then have "itos_loop ?t (sizeof_tbuf - 1) (unat v) 2 = None"
    using itos_loop_correct [of 2 29 ?t "unat v"] by (simp add: sizeof_tbuf_def)
  then show ?thesis by (simp add: T_CString_integerToString_def Let_def)
qed

theorem integerToString_overflow_witness:
  "T_CString_integerToString (replicate 64 0) 0xFFFFFFFF 2 = None"
  by (rule integerToString_overflow) simp

text \<open>C38: \<open>uprv_stricmp\<close> is a total preorder on strings, NULL before every string: it orders them by
  their lower-case forms, byte by byte, and gives 0 exactly for strings equal up to ASCII case.
  \<open>uprv_strnicmp\<close> does the same on the first \<open>n\<close> bytes.\<close>

theorem uprv_stricmp_order:
  "(uprv_stricmp (Some s1) (Some s2) < 0 \<longleftrightarrow> fold_key s1 < fold_key s2)
   \<and> (uprv_stricmp (Some s1) (Some s2) = 0 \<longleftrightarrow> fold_key s1 = fold_key s2)
   \<and> (uprv_stricmp x y < 0 \<longleftrightarrow> uprv_stricmp y x > 0)
   \<and> (uprv_stricmp x y > 0 \<or> uprv_stricmp y z > 0 \<or> uprv_stricmp x z \<le> 0)
   \<and> uprv_strnicmp (Some s1) (Some s2) n = uprv_stricmp (Some (take n s1)) (Some (take n s2))"
proof -
  have "uprv_stricmp x y > 0 \<or> uprv_stricmp y z > 0 \<or> uprv_stricmp x z \<le> 0"
    using stricmp.le_trans [of x y z] by linarith
  then show ?thesis using stricmp.flip [of x y]
    by (simp add: uprv_strnicmp_def strnicmp_loop_take)
      (simp add: uprv_stricmp_def stricmp_loop_lex stricmp_loop_zero)
qed

end
