(* ===== verification/TablePrimes.thy ===== *)
theory TablePrimes
  imports Main
begin

text \<open>
  A number-theoretic lemma for the hash table: the table lengths of \<open>uhash.c\<close> are prime, so
  any probe increment is relatively prime to them. Primality of numbers up to \<open>2\<^sup>31\<close> is checked by
  Lucas certificates: an element of order \<open>n - 1\<close> modulo \<open>n\<close>.
\<close>

named_theorems uprimes \<open>certified primes\<close>

section \<open>Primality as the hash table needs it\<close>

definition uprime :: "int \<Rightarrow> bool" where
  "uprime p \<longleftrightarrow> 1 < p \<and> (\<forall>k. 0 < k \<and> k < p \<longrightarrow> coprime k p)"

lemma uprime_dvd_or_coprime:
  assumes "uprime q" "0 < m"
  shows "q dvd m \<or> coprime m q"
proof -
  have "m mod q = 0 \<or> coprime (m mod q) q"
  proof (cases "m mod q = 0")
    case False
    moreover have "0 \<le> m mod q" "m mod q < q" using assms(1) by (simp_all add: uprime_def)
    ultimately have "0 < m mod q" "m mod q < q" by simp_all
    with assms show ?thesis by (simp add: uprime_def)
  qed simp
  then show ?thesis by (auto simp: dvd_eq_mod_eq_0 coprime_iff_gcd_eq_1 gcd_red_int [symmetric] gcd.commute)
qed

lemma proper_divisor_misses_prime:
  assumes primes: "\<forall>q \<in> set qs. uprime q" and fac: "prod_list qs = n" and d: "d dvd n" "0 < d" "d < n"
  shows "\<exists>q \<in> set qs. d dvd n div q"
proof -
  obtain m where m: "n = d * m" using d by (auto simp: dvd_def)
  with d have "1 < m" by (metis less_irrefl mult.right_neutral mult_less_cancel_left_pos not_less_iff_gr_or_eq
        zero_less_mult_iff zmult_zless_mono2 int_one_le_iff_zero_less nless_le order_less_trans)
  have "\<not> coprime m (prod_list qs)"
  proof
    assume "coprime m (prod_list qs)"
    moreover have "m dvd prod_list qs" using fac m by simp
    ultimately have "is_unit m" by (rule coprime_common_divisor [OF _ dvd_refl])
    with \<open>1 < m\<close> show False by simp
  qed
  then obtain q where q: "q \<in> set qs" "\<not> coprime m q"
    by (induction qs) auto
  then have "q dvd m" using uprime_dvd_or_coprime [of q m] primes \<open>1 < m\<close> by auto
  then obtain m' where m': "m = q * m'" by (auto simp: dvd_def)
  moreover have "q \<noteq> 0" using q primes by (auto simp: uprime_def)
  ultimately have "n div q = d * m'" using m by (simp add: mult.left_commute)
  with q show ?thesis by (auto intro!: bexI [of _ q])
qed

section \<open>Modular exponentiation\<close>

function powmod :: "int \<Rightarrow> int \<Rightarrow> int \<Rightarrow> int" where
  "powmod a e n =
     (if e \<le> 0 then 1 mod n
      else let x = powmod a (e div 2) n in
           if e mod 2 = 0 then x * x mod n else (x * x mod n) * a mod n)"
  by pat_completeness auto
termination
  by (relation "measure (\<lambda>(a, e, n). nat e)") auto

declare powmod.simps [simp del]

lemma powmod_eq: "powmod a e n = a ^ nat e mod n"
proof (induction a e n rule: powmod.induct)
  case (1 a e n)
  show ?case
  proof (cases "e \<le> 0")
    case True
    then show ?thesis by (simp add: powmod.simps)
  next
    case False
    then have ih: "powmod a (e div 2) n = a ^ nat (e div 2) mod n" using "1" by simp
    have "e = e div 2 + e div 2 + e mod 2" by simp
    moreover have "0 \<le> e div 2" "0 \<le> e mod 2" using False by simp_all
    ultimately have "nat e = nat (e div 2) + nat (e div 2) + nat (e mod 2)"
      by (metis add_nonneg_nonneg nat_add_distrib)
    then have split: "a ^ nat e = a ^ nat (e div 2) * a ^ nat (e div 2) * a ^ nat (e mod 2)"
      by (simp only: power_add)
    show ?thesis
    proof (cases "e mod 2 = 0")
      case True
      then show ?thesis
        using False by (simp add: powmod.simps [of a e] ih split mod_mult_eq)
    next
      case odd: False
      then have "e mod 2 = 1" by presburger
      then show ?thesis
        using False by (simp add: powmod.simps [of a e] ih split Let_def)
          (metis mod_mult_eq mod_mult_left_eq)
    qed
  qed
qed

section \<open>Lucas certificates\<close>

lemma power_mod_one_dvd:
  fixes a n :: int
  assumes "1 < n" "a ^ d mod n = 1" "0 < d" "\<forall>j. 0 < j \<and> j < d \<longrightarrow> a ^ j mod n \<noteq> 1" "a ^ e mod n = 1"
  shows "d dvd e"
proof -
  have unit: "(a ^ d) ^ k mod n = 1" for k
  proof (induction k)
    case (Suc k)
    have "(a ^ d) ^ Suc k mod n = (a ^ d mod n) * ((a ^ d) ^ k mod n) mod n"
      by (simp add: mod_mult_eq)
    with Suc assms(1,2) show ?case by simp
  qed (use assms(1) in simp)
  have "a ^ e = (a ^ d) ^ (e div d) * a ^ (e mod d)"
    by (simp flip: power_mult power_add)
  then have "a ^ e mod n = ((a ^ d) ^ (e div d) mod n) * (a ^ (e mod d)) mod n"
    by (simp only: mod_mult_left_eq)
  then have "a ^ (e mod d) mod n = 1" using assms(5) unit by simp
  then have "\<not> (0 < e mod d \<and> e mod d < d)" using assms(4) by metis
  then have "e mod d = 0" using assms(3) by simp
  then show ?thesis by (simp add: mod_eq_0_iff_dvd)
qed

lemma full_order_uprime:
  fixes a n :: int
  assumes n: "1 < n" and one: "a ^ nat (n - 1) mod n = 1"
    and least: "\<forall>j. 0 < j \<and> j < nat (n - 1) \<longrightarrow> a ^ j mod n \<noteq> 1"
  shows "uprime n"
proof -
  let ?N = "nat (n - 1)" and ?f = "\<lambda>i. a ^ i mod n"
  have nz: "n \<noteq> 0" using n by simp
  have "coprime (a ^ ?N mod n) n" using one by simp
  then have "coprime (a ^ ?N) n" using nz by (simp add: coprime_mod_left_iff)
  then have cop: "coprime (a ^ i) n" for i
    using n by (cases "?N = 0") (auto simp: coprime_power_left_iff)
  have inj: "inj_on ?f {..<?N}"
  proof (rule linorder_inj_onI')
    fix i j assume ij: "i \<in> {..<?N}" "j \<in> {..<?N}" "i < j"
    show "?f i \<noteq> ?f j"
    proof
      assume "?f i = ?f j"
      then have "n dvd a ^ i * (a ^ (j - i) - 1)"
        using ij by (simp add: mod_eq_dvd_iff right_diff_distrib dvd_diff_commute flip: power_add)
      then have "n dvd a ^ (j - i) - 1"
        using cop [of i] by (metis coprime_commute coprime_dvd_mult_right_iff)
      then have "a ^ (j - i) mod n = 1" using n by (metis mod_eq_dvd_iff mod_pos_pos_trivial zero_le_one)
      with least ij show False by auto
    qed
  qed
  have sub: "?f ` {..<?N} \<subseteq> {1..<n}"
  proof
    fix x assume "x \<in> ?f ` {..<?N}"
    then obtain i where x: "x = a ^ i mod n" by auto
    have "coprime x n" using cop [of i] nz x by (simp add: coprime_mod_left_iff)
    then have "x \<noteq> 0" using n by auto
    moreover have "0 \<le> x" "x < n" using n x by simp_all
    ultimately show "x \<in> {1..<n}" by simp
  qed
  have "card (?f ` {..<?N}) = ?N" using inj by (simp add: card_image)
  moreover have "card {1..<n} = ?N" by simp
  ultimately have eq: "?f ` {..<?N} = {1..<n}"
    using sub by (intro card_subset_eq) auto
  have "coprime k n" if "0 < k" "k < n" for k
  proof -
    from that have "k \<in> ?f ` {..<?N}" by (simp add: eq)
    then obtain i where "k = a ^ i mod n" by blast
    with cop [of i] nz show ?thesis by (simp add: coprime_mod_left_iff)
  qed
  with n show ?thesis by (simp add: uprime_def)
qed

lemma lucas_uprime:
  fixes a n :: int
  assumes n: "1 < n" and qs: "\<forall>q \<in> set qs. uprime q" "prod_list qs = n - 1"
    and one: "powmod a (n - 1) n = 1" and no: "\<forall>q \<in> set qs. powmod a ((n - 1) div q) n \<noteq> 1"
  shows "uprime n"
proof -
  let ?N = "nat (n - 1)"
  have N: "a ^ ?N mod n = 1" using one by (simp add: powmod_eq)
  define d where "d = (LEAST j. 0 < j \<and> a ^ j mod n = 1)"
  have ex: "0 < ?N \<and> a ^ ?N mod n = 1" using n N by simp
  have d: "0 < d" "a ^ d mod n = 1" using LeastI [of "\<lambda>j. 0 < j \<and> a ^ j mod n = 1", OF ex] by (simp_all add: d_def)
  have min: "\<forall>j. 0 < j \<and> j < d \<longrightarrow> a ^ j mod n \<noteq> 1" unfolding d_def using not_less_Least by blast
  have dv: "d dvd ?N" by (rule power_mod_one_dvd [OF n d(2,1) min N])
  have "d = ?N"
  proof (rule ccontr)
    assume "d \<noteq> ?N"
    moreover have "d \<le> ?N" using dv ex by (auto dest: dvd_imp_le)
    moreover have "int d dvd int ?N" using dv by (simp only: int_dvd_int_iff)
    ultimately have "int d dvd n - 1" "0 < int d" "int d < n - 1"
      using d(1) n by auto
    then obtain q where q: "q \<in> set qs" "int d dvd (n - 1) div q"
      using proper_divisor_misses_prime [OF qs] by blast
    then obtain e where "(n - 1) div q = int d * e" by (auto simp: dvd_def)
    moreover have "0 \<le> (n - 1) div q" using n qs(1) q(1) by (auto simp: uprime_def pos_imp_zdiv_nonneg_iff)
    ultimately have "nat ((n - 1) div q) = d * nat e" using d(1) by (simp add: nat_mult_distrib zero_le_mult_iff)
    then have "a ^ nat ((n - 1) div q) mod n = 1"
      using d n by (metis mod_pos_pos_trivial power_mod power_mult power_one zero_le_one)
    with no q(1) show False by (simp add: powmod_eq)
  qed
  with full_order_uprime [OF n N] min show ?thesis by blast
qed

section \<open>Certificates\<close>

lemma uprime_upto [code]: "uprime p \<longleftrightarrow> 1 < p \<and> (\<forall>k \<in> set [1..p - 1]. coprime k p)"
  by (auto simp: uprime_def)

lemma small_uprimes [uprimes]:
  "uprime 2" "uprime 3" "uprime 5" "uprime 7" "uprime 11" "uprime 13" "uprime 17" "uprime 19"
  "uprime 23" "uprime 29" "uprime 31"
  by code_simp+

lemma uprime_61 [uprimes]: "uprime 61"
  by (rule lucas_uprime [of _ "[2, 2, 3, 5]" 2]) (simp, simp add: uprimes, simp, code_simp, code_simp)

lemma uprime_127 [uprimes]: "uprime 127"
  by (rule lucas_uprime [of _ "[2, 3, 3, 7]" 3]) (simp, simp add: uprimes, simp, code_simp, code_simp)

lemma uprime_251 [uprimes]: "uprime 251"
  by (rule lucas_uprime [of _ "[2, 5, 5, 5]" 6]) (simp, simp add: uprimes, simp, code_simp, code_simp)

lemma uprime_509 [uprimes]: "uprime 509"
  by (rule lucas_uprime [of _ "[2, 2, 127]" 2]) (simp, simp add: uprimes, simp, code_simp, code_simp)

lemma uprime_1021 [uprimes]: "uprime 1021"
  by (rule lucas_uprime [of _ "[2, 2, 3, 5, 17]" 10]) (simp, simp add: uprimes, simp, code_simp, code_simp)

lemma uprime_1019 [uprimes]: "uprime 1019"
  by (rule lucas_uprime [of _ "[2, 509]" 2]) (simp, simp add: uprimes, simp, code_simp, code_simp)

lemma uprime_2039 [uprimes]: "uprime 2039"
  by (rule lucas_uprime [of _ "[2, 1019]" 7]) (simp, simp add: uprimes, simp, code_simp, code_simp)

lemma uprime_4093 [uprimes]: "uprime 4093"
  by (rule lucas_uprime [of _ "[2, 2, 3, 11, 31]" 2]) (simp, simp add: uprimes, simp, code_simp, code_simp)

lemma uprime_8191 [uprimes]: "uprime 8191"
  by (rule lucas_uprime [of _ "[2, 3, 3, 5, 7, 13]" 17]) (simp, simp add: uprimes, simp, code_simp, code_simp)

lemma uprime_16381 [uprimes]: "uprime 16381"
  by (rule lucas_uprime [of _ "[2, 2, 3, 3, 5, 7, 13]" 2]) (simp, simp add: uprimes, simp, code_simp, code_simp)

lemma uprime_2729 [uprimes]: "uprime 2729"
  by (rule lucas_uprime [of _ "[2, 2, 2, 11, 31]" 3]) (simp, simp add: uprimes, simp, code_simp, code_simp)

lemma uprime_32749 [uprimes]: "uprime 32749"
  by (rule lucas_uprime [of _ "[2, 2, 3, 2729]" 2]) (simp, simp add: uprimes, simp, code_simp, code_simp)

lemma uprime_65521 [uprimes]: "uprime 65521"
  by (rule lucas_uprime [of _ "[2, 2, 2, 2, 3, 3, 5, 7, 13]" 17]) (simp, simp add: uprimes, simp, code_simp, code_simp)

lemma uprime_257 [uprimes]: "uprime 257"
  by (rule lucas_uprime [of _ "[2, 2, 2, 2, 2, 2, 2, 2]" 3]) (simp, simp add: uprimes, simp, code_simp, code_simp)

lemma uprime_131071 [uprimes]: "uprime 131071"
  by (rule lucas_uprime [of _ "[2, 3, 5, 17, 257]" 3]) (simp, simp add: uprimes, simp, code_simp, code_simp)

lemma uprime_53 [uprimes]: "uprime 53"
  by (rule lucas_uprime [of _ "[2, 2, 13]" 2]) (simp, simp add: uprimes, simp, code_simp, code_simp)

lemma uprime_103 [uprimes]: "uprime 103"
  by (rule lucas_uprime [of _ "[2, 3, 17]" 5]) (simp, simp add: uprimes, simp, code_simp, code_simp)

lemma uprime_2473 [uprimes]: "uprime 2473"
  by (rule lucas_uprime [of _ "[2, 2, 2, 3, 103]" 5]) (simp, simp add: uprimes, simp, code_simp, code_simp)

lemma uprime_262139 [uprimes]: "uprime 262139"
  by (rule lucas_uprime [of _ "[2, 53, 2473]" 2]) (simp, simp add: uprimes, simp, code_simp, code_simp)

lemma uprime_73 [uprimes]: "uprime 73"
  by (rule lucas_uprime [of _ "[2, 2, 2, 3, 3]" 5]) (simp, simp add: uprimes, simp, code_simp, code_simp)

lemma uprime_524287 [uprimes]: "uprime 524287"
  by (rule lucas_uprime [of _ "[2, 3, 3, 3, 7, 19, 73]" 3]) (simp, simp add: uprimes, simp, code_simp, code_simp)

lemma uprime_1048573 [uprimes]: "uprime 1048573"
  by (rule lucas_uprime [of _ "[2, 2, 3, 3, 3, 7, 19, 73]" 2]) (simp, simp add: uprimes, simp, code_simp, code_simp)

lemma uprime_47 [uprimes]: "uprime 47"
  by (rule lucas_uprime [of _ "[2, 23]" 5]) (simp, simp add: uprimes, simp, code_simp, code_simp)

lemma uprime_97 [uprimes]: "uprime 97"
  by (rule lucas_uprime [of _ "[2, 2, 2, 2, 2, 3]" 5]) (simp, simp add: uprimes, simp, code_simp, code_simp)

lemma uprime_1048571 [uprimes]: "uprime 1048571"
  by (rule lucas_uprime [of _ "[2, 5, 23, 47, 97]" 2]) (simp, simp add: uprimes, simp, code_simp, code_simp)

lemma uprime_2097143 [uprimes]: "uprime 2097143"
  by (rule lucas_uprime [of _ "[2, 1048571]" 5]) (simp, simp add: uprimes, simp, code_simp, code_simp)

lemma uprime_41 [uprimes]: "uprime 41"
  by (rule lucas_uprime [of _ "[2, 2, 2, 5]" 6]) (simp, simp add: uprimes, simp, code_simp, code_simp)

lemma uprime_4194301 [uprimes]: "uprime 4194301"
  by (rule lucas_uprime [of _ "[2, 2, 3, 5, 5, 11, 31, 41]" 7]) (simp, simp add: uprimes, simp, code_simp, code_simp)

lemma uprime_8388593 [uprimes]: "uprime 8388593"
  by (rule lucas_uprime [of _ "[2, 2, 2, 2, 524287]" 3]) (simp, simp add: uprimes, simp, code_simp, code_simp)

lemma uprime_89 [uprimes]: "uprime 89"
  by (rule lucas_uprime [of _ "[2, 2, 2, 11]" 3]) (simp, simp add: uprimes, simp, code_simp, code_simp)

lemma uprime_683 [uprimes]: "uprime 683"
  by (rule lucas_uprime [of _ "[2, 11, 31]" 5]) (simp, simp add: uprimes, simp, code_simp, code_simp)

lemma uprime_16777213 [uprimes]: "uprime 16777213"
  by (rule lucas_uprime [of _ "[2, 2, 3, 23, 89, 683]" 5]) (simp, simp add: uprimes, simp, code_simp, code_simp)

lemma uprime_79 [uprimes]: "uprime 79"
  by (rule lucas_uprime [of _ "[2, 3, 13]" 3]) (simp, simp add: uprimes, simp, code_simp, code_simp)

lemma uprime_2371 [uprimes]: "uprime 2371"
  by (rule lucas_uprime [of _ "[2, 3, 5, 79]" 2]) (simp, simp add: uprimes, simp, code_simp, code_simp)

lemma uprime_33554393 [uprimes]: "uprime 33554393"
  by (rule lucas_uprime [of _ "[2, 2, 2, 29, 61, 2371]" 3]) (simp, simp add: uprimes, simp, code_simp, code_simp)

lemma uprime_239 [uprimes]: "uprime 239"
  by (rule lucas_uprime [of _ "[2, 7, 17]" 7]) (simp, simp add: uprimes, simp, code_simp, code_simp)

lemma uprime_479 [uprimes]: "uprime 479"
  by (rule lucas_uprime [of _ "[2, 239]" 13]) (simp, simp add: uprimes, simp, code_simp, code_simp)

lemma uprime_233 [uprimes]: "uprime 233"
  by (rule lucas_uprime [of _ "[2, 2, 2, 29]" 3]) (simp, simp add: uprimes, simp, code_simp, code_simp)

lemma uprime_467 [uprimes]: "uprime 467"
  by (rule lucas_uprime [of _ "[2, 233]" 2]) (simp, simp add: uprimes, simp, code_simp, code_simp)

lemma uprime_70051 [uprimes]: "uprime 70051"
  by (rule lucas_uprime [of _ "[2, 3, 5, 5, 467]" 7]) (simp, simp add: uprimes, simp, code_simp, code_simp)

lemma uprime_67108859 [uprimes]: "uprime 67108859"
  by (rule lucas_uprime [of _ "[2, 479, 70051]" 2]) (simp, simp add: uprimes, simp, code_simp, code_simp)

lemma uprime_101 [uprimes]: "uprime 101"
  by (rule lucas_uprime [of _ "[2, 2, 5, 5]" 2]) (simp, simp add: uprimes, simp, code_simp, code_simp)

lemma uprime_151 [uprimes]: "uprime 151"
  by (rule lucas_uprime [of _ "[2, 3, 5, 5]" 6]) (simp, simp add: uprimes, simp, code_simp, code_simp)

lemma uprime_15101 [uprimes]: "uprime 15101"
  by (rule lucas_uprime [of _ "[2, 2, 5, 5, 151]" 2]) (simp, simp add: uprimes, simp, code_simp, code_simp)

lemma uprime_134217689 [uprimes]: "uprime 134217689"
  by (rule lucas_uprime [of _ "[2, 2, 2, 11, 101, 15101]" 3]) (simp, simp add: uprimes, simp, code_simp, code_simp)

lemma uprime_6917 [uprimes]: "uprime 6917"
  by (rule lucas_uprime [of _ "[2, 2, 7, 13, 19]" 2]) (simp, simp add: uprimes, simp, code_simp, code_simp)

lemma uprime_581029 [uprimes]: "uprime 581029"
  by (rule lucas_uprime [of _ "[2, 2, 3, 7, 6917]" 6]) (simp, simp add: uprimes, simp, code_simp, code_simp)

lemma uprime_268435399 [uprimes]: "uprime 268435399"
  by (rule lucas_uprime [of _ "[2, 3, 7, 11, 581029]" 3]) (simp, simp add: uprimes, simp, code_simp, code_simp)

lemma uprime_262657 [uprimes]: "uprime 262657"
  by (rule lucas_uprime [of _ "[2, 2, 2, 2, 2, 2, 2, 2, 2, 3, 3, 3, 19]" 5]) (simp, simp add: uprimes, simp, code_simp, code_simp)

lemma uprime_536870909 [uprimes]: "uprime 536870909"
  by (rule lucas_uprime [of _ "[2, 2, 7, 73, 262657]" 2]) (simp, simp add: uprimes, simp, code_simp, code_simp)

lemma uprime_2341 [uprimes]: "uprime 2341"
  by (rule lucas_uprime [of _ "[2, 2, 3, 3, 5, 13]" 7]) (simp, simp add: uprimes, simp, code_simp, code_simp)

lemma uprime_1073741789 [uprimes]: "uprime 1073741789"
  by (rule lucas_uprime [of _ "[2, 2, 7, 2341, 16381]" 2]) (simp, simp add: uprimes, simp, code_simp, code_simp)

lemma uprime_331 [uprimes]: "uprime 331"
  by (rule lucas_uprime [of _ "[2, 3, 5, 11]" 3]) (simp, simp add: uprimes, simp, code_simp, code_simp)

lemma uprime_2147483647 [uprimes]: "uprime 2147483647"
  by (rule lucas_uprime [of _ "[2, 3, 3, 7, 11, 31, 151, 331]" 7]) (simp, simp add: uprimes, simp, code_simp, code_simp)

end
