(* ===== verification/UHash.thy ===== *)
theory UHash
  imports Prelude TablePrimes
begin

text \<open>
  \<open>Source/icu/uhash.c\<close>: the open-addressing hash table with double hashing that the library's
  caches and services are built on. The build target is wasm32, where the token union
  \<open>UHashTok\<close> (a pointer or an \<open>int32_t\<close>) is exactly 32 bits, NULL is 0, and
  \<open>sizeof(UHashElement)\<close> is 12. A pointer into the element array is an index. The hasher and
  the comparators are function pointers of the table and stay functions here; a deleter is
  code outside the file, so a deleter is a name and every call of one is recorded, in order,
  in the ghost field \<open>uh_deleted\<close>. \<open>malloc\<close> says whether an allocation of that many bytes
  succeeds. Dereferencing the NULL that \<open>_uhash_find\<close> could return is \<open>None\<close>. The private
  functions of the file (leading underscore) have the prefix \<open>priv\<close>.
\<close>

section \<open>Data\<close>

type_synonym UHashTok = "32 word"

record UHashElement =
  el_hashcode :: "32 word"
  el_value :: UHashTok
  el_key :: UHashTok

datatype UHashResizePolicy = U_GROW | U_GROW_AND_SHRINK | U_FIXED

text \<open>A single-precision constant \<open>m / 2 ^ e\<close> as the pair \<open>(m, e)\<close>; the compiler rounds \<open>0.1F\<close> to
  \<open>13421773 / 2 ^ 27\<close>.\<close>

type_synonym float32 = "nat \<times> nat"

type_synonym UObjectDeleter = nat

text \<open>A pointer to a comparator is the address and the function there. \<open>uhash_equals\<close> compares the
  addresses of the two comparators of a table, which are kept beside the functions; NULL is \<open>None\<close>.\<close>

type_synonym UComparatorPtr = "nat \<times> (UHashTok \<Rightarrow> UHashTok \<Rightarrow> bool)"

record UHashtable =
  uh_elements :: "UHashElement list"
  uh_keyHasher :: "UHashTok \<Rightarrow> 32 word"
  uh_keyComparator :: "UHashTok \<Rightarrow> UHashTok \<Rightarrow> bool"
  uh_keyComparatorAddr :: nat
  uh_valueComparator :: "(UHashTok \<Rightarrow> UHashTok \<Rightarrow> bool) option"
  uh_valueComparatorAddr :: "nat option"
  uh_keyDeleter :: "UObjectDeleter option"
  uh_valueDeleter :: "UObjectDeleter option"
  uh_count :: nat
  uh_length :: nat
  uh_highWaterMark :: nat
  uh_lowWaterMark :: nat
  uh_highWaterRatio :: float32
  uh_lowWaterRatio :: float32
  uh_primeIndex :: nat
  uh_allocated :: bool
  uh_deleted :: "(UObjectDeleter \<times> UHashTok) list"

definition PRIMES :: "nat list" where
  "PRIMES =
    [13, 31, 61, 127, 251, 509, 1021, 2039, 4093, 8191, 16381, 32749,
     65521, 131071, 262139, 524287, 1048573, 2097143, 4194301, 8388593,
     16777213, 33554393, 67108859, 134217689, 268435399, 536870909,
     1073741789, 2147483647]"

abbreviation (input) PRIMES_LENGTH :: nat where "PRIMES_LENGTH \<equiv> 28"
abbreviation (input) DEFAULT_PRIME_INDEX :: nat where "DEFAULT_PRIME_INDEX \<equiv> 3"

definition RESIZE_POLICY_RATIO_TABLE :: "float32 list" where
  "RESIZE_POLICY_RATIO_TABLE =
    [(0, 0), (1, 1),
     (13421773, 27), (1, 1),
     (0, 0), (1, 0)]"

abbreviation (input) HASH_DELETED :: "32 word" where "HASH_DELETED \<equiv> 0x80000000"
abbreviation (input) HASH_EMPTY :: "32 word" where "HASH_EMPTY \<equiv> 0x80000001"

definition IS_EMPTY_OR_DELETED :: "32 word \<Rightarrow> bool" where
  "IS_EMPTY_OR_DELETED x \<longleftrightarrow> sint x < 0"

abbreviation (input) HINT_KEY_POINTER :: "8 word" where "HINT_KEY_POINTER \<equiv> 1"
abbreviation (input) HINT_VALUE_POINTER :: "8 word" where "HINT_VALUE_POINTER \<equiv> 2"

definition emptyElement :: UHashElement where
  "emptyElement = \<lparr>el_hashcode = HASH_EMPTY, el_value = 0, el_key = 0\<rparr>"

text \<open>\<open>(int32_t)(length * ratio)\<close> in single precision: the length is converted to \<open>float\<close>, the
  product is rounded to 24 significant bits, to nearest even, and the conversion truncates.\<close>

definition round24 :: "nat \<Rightarrow> nat" where
  "round24 n =
     (let k = bit_length n - 24 in
      if n < 2 ^ 24 then n
      else let q = n div 2 ^ k; r = n mod 2 ^ k; h = 2 ^ (k - 1) in
           (if r > h \<or> r = h \<and> odd q then q + 1 else q) * 2 ^ k)"

definition float_mult_trunc :: "nat \<Rightarrow> float32 \<Rightarrow> nat" where
  "float_mult_trunc n ratio = round24 (round24 n * fst ratio) div 2 ^ snd ratio"

section \<open>Private operations\<close>

definition callDeleter ::
    "UObjectDeleter option \<Rightarrow> UHashTok \<Rightarrow> (UObjectDeleter \<times> UHashTok) list
       \<Rightarrow> (UObjectDeleter \<times> UHashTok) list" where
  "callDeleter d p log = (case d of None \<Rightarrow> log | Some f \<Rightarrow> if p \<noteq> 0 then log @ [(f, p)] else log)"

definition HASH_DELETE_KEY_VALUE :: "UHashtable \<Rightarrow> UHashTok \<Rightarrow> UHashTok \<Rightarrow> UHashtable" where
  "HASH_DELETE_KEY_VALUE hash keypointer valuepointer =
     hash\<lparr>uh_deleted :=
       callDeleter (uh_valueDeleter hash) valuepointer
         (callDeleter (uh_keyDeleter hash) keypointer (uh_deleted hash))\<rparr>"

text \<open>The two hint branches of \<open>_uhash_setElement\<close> copy the same 32 bits on this target.\<close>

definition priv_uhash_setElement ::
    "UHashtable \<Rightarrow> nat \<Rightarrow> 32 word \<Rightarrow> UHashTok \<Rightarrow> UHashTok \<Rightarrow> 8 word \<Rightarrow> UHashtable \<times> UHashTok" where
  "priv_uhash_setElement hash i hashcode key val hint =
     (let e = uh_elements hash ! i;
          log1 = (if uh_keyDeleter hash \<noteq> None \<and> el_key e \<noteq> 0 \<and> el_key e \<noteq> key
                  then uh_deleted hash @ [(the (uh_keyDeleter hash), el_key e)]
                  else uh_deleted hash);
          log2 = (if uh_valueDeleter hash \<noteq> None \<and> el_value e \<noteq> 0 \<and> el_value e \<noteq> val
                  then log1 @ [(the (uh_valueDeleter hash), el_value e)]
                  else log1);
          oldValue = (if uh_valueDeleter hash \<noteq> None then 0 else el_value e);
          e' = \<lparr>el_hashcode = hashcode, el_value = val, el_key = key\<rparr>
      in (hash\<lparr>uh_elements := (uh_elements hash)[i := e'], uh_deleted := log2\<rparr>, oldValue))"

definition priv_uhash_internalRemoveElement :: "UHashtable \<Rightarrow> nat \<Rightarrow> UHashtable \<times> UHashTok" where
  "priv_uhash_internalRemoveElement hash i =
     priv_uhash_setElement (hash\<lparr>uh_count := uh_count hash - 1\<rparr>) i HASH_DELETED 0 0 0"

fun policy_index :: "UHashResizePolicy \<Rightarrow> nat" where
  "policy_index U_GROW = 0"
| "policy_index U_GROW_AND_SHRINK = 1"
| "policy_index U_FIXED = 2"

definition priv_uhash_internalSetResizePolicy :: "UHashtable \<Rightarrow> UHashResizePolicy \<Rightarrow> UHashtable" where
  "priv_uhash_internalSetResizePolicy hash policy =
     hash\<lparr>uh_lowWaterRatio := RESIZE_POLICY_RATIO_TABLE ! (policy_index policy * 2),
          uh_highWaterRatio := RESIZE_POLICY_RATIO_TABLE ! (policy_index policy * 2 + 1)\<rparr>"

text \<open>The byte count \<open>sizeof(UHashElement) * length\<close> is computed in the 32-bit \<open>size_t\<close>; the block
  holds as many elements as it has room for, which is \<open>length\<close> unless the product wraps.\<close>

definition priv_uhash_allocate ::
    "(nat \<Rightarrow> bool) \<Rightarrow> UHashtable \<Rightarrow> nat \<Rightarrow> UErrorCode \<Rightarrow> UHashtable \<times> UErrorCode" where
  "priv_uhash_allocate malloc hash primeIndex status =
     (if U_FAILURE status then (hash, status)
      else
        let len = PRIMES ! primeIndex;
            hash1 = hash\<lparr>uh_primeIndex := primeIndex, uh_length := len\<rparr>
        in if malloc ((12 * len) mod 2 ^ 32)
           then (hash1\<lparr>uh_elements := replicate ((12 * len) mod 2 ^ 32 div 12) emptyElement, uh_count := 0,
                       uh_lowWaterMark := float_mult_trunc len (uh_lowWaterRatio hash),
                       uh_highWaterMark := float_mult_trunc len (uh_highWaterRatio hash)\<rparr>, status)
           else (hash1\<lparr>uh_elements := []\<rparr>, U_MEMORY_ALLOCATION_ERROR))"

text \<open>The storage handed to \<open>_uhash_init\<close> by the caller or by malloc is uninitialised; the fields
  the function does not set are those of the \<open>raw\<close> table.\<close>

definition priv_uhash_init ::
    "(nat \<Rightarrow> bool) \<Rightarrow> UHashtable \<Rightarrow> (UHashTok \<Rightarrow> 32 word) \<Rightarrow> UComparatorPtr
       \<Rightarrow> UComparatorPtr option \<Rightarrow> nat \<Rightarrow> UErrorCode \<Rightarrow> UHashtable option \<times> UErrorCode" where
  "priv_uhash_init malloc raw keyHash keyComp valueComp primeIndex status =
     (if U_FAILURE status then (None, status)
      else
        let result = raw\<lparr>uh_keyHasher := keyHash,
                         uh_keyComparator := snd keyComp, uh_keyComparatorAddr := fst keyComp,
                         uh_valueComparator := map_option snd valueComp,
                         uh_valueComparatorAddr := map_option fst valueComp,
                         uh_keyDeleter := None, uh_valueDeleter := None, uh_allocated := False\<rparr>;
            (result', status') =
               priv_uhash_allocate malloc (priv_uhash_internalSetResizePolicy result U_GROW)
                 primeIndex status
        in if U_FAILURE status' then (None, status') else (Some result', status'))"

abbreviation (input) SIZEOF_UHashtable :: nat where "SIZEOF_UHashtable \<equiv> 52"

definition priv_uhash_create ::
    "(nat \<Rightarrow> bool) \<Rightarrow> UHashtable \<Rightarrow> (UHashTok \<Rightarrow> 32 word) \<Rightarrow> UComparatorPtr
       \<Rightarrow> UComparatorPtr option \<Rightarrow> nat \<Rightarrow> UErrorCode \<Rightarrow> UHashtable option \<times> UErrorCode" where
  "priv_uhash_create malloc raw keyHash keyComp valueComp primeIndex status =
     (if U_FAILURE status then (None, status)
      else if \<not> malloc SIZEOF_UHashtable then (None, U_MEMORY_ALLOCATION_ERROR)
      else
        let (r, status') = priv_uhash_init malloc raw keyHash keyComp valueComp primeIndex status
        in if U_FAILURE status' then (None, status')
           else (map_option (\<lambda>h. h\<lparr>uh_allocated := True\<rparr>) r, status'))"

text \<open>The probe loop. The fuel bounds the number of slots looked at; the loop condition alone
  ends it after at most \<open>length\<close> slots, which the fuel \<open>length\<close> never cuts short.\<close>

definition find_exit :: "32 word \<Rightarrow> nat \<Rightarrow> int \<Rightarrow> nat option" where
  "find_exit tableHash theIndex firstDeleted =
     (if firstDeleted \<ge> 0 then Some (nat firstDeleted)
      else if tableHash \<noteq> HASH_EMPTY then None
      else Some theIndex)"

fun find_loop ::
    "nat \<Rightarrow> UHashtable \<Rightarrow> UHashTok \<Rightarrow> 32 word \<Rightarrow> nat \<Rightarrow> nat \<Rightarrow> nat \<Rightarrow> int \<Rightarrow> nat option" where
  "find_loop 0 hash key hashcode startIndex theIndex jump firstDeleted = None"
| "find_loop (Suc fuel) hash key hashcode startIndex theIndex jump firstDeleted =
     (let tableHash = el_hashcode (uh_elements hash ! theIndex) in
      if tableHash = hashcode \<and> uh_keyComparator hash key (el_key (uh_elements hash ! theIndex))
      then Some theIndex
      else if tableHash \<noteq> hashcode \<and> IS_EMPTY_OR_DELETED tableHash \<and> tableHash = HASH_EMPTY
      then find_exit tableHash theIndex firstDeleted
      else
        let firstDeleted' = (if tableHash \<noteq> hashcode \<and> IS_EMPTY_OR_DELETED tableHash \<and> firstDeleted < 0
                             then int theIndex else firstDeleted);
            jump' = (if jump = 0 then unat hashcode mod (uh_length hash - 1) + 1 else jump);
            theIndex' = (theIndex + jump') mod uh_length hash
        in if theIndex' \<noteq> startIndex
           then find_loop fuel hash key hashcode startIndex theIndex' jump' firstDeleted'
           else find_exit tableHash theIndex' firstDeleted')"

definition priv_uhash_find :: "UHashtable \<Rightarrow> UHashTok \<Rightarrow> 32 word \<Rightarrow> nat option" where
  "priv_uhash_find hash key hashcode0 =
     (let hashcode = hashcode0 AND 0x7FFFFFFF;
          startIndex = unat (hashcode XOR 0x4000000) mod uh_length hash
      in find_loop (uh_length hash) hash key hashcode startIndex startIndex 0 (-1))"

text \<open>The loop that moves the old elements, from the last to the first.\<close>

fun rehash_loop :: "UHashElement list \<Rightarrow> nat \<Rightarrow> UHashtable \<Rightarrow> UHashtable option" where
  "rehash_loop old 0 hash = Some hash"
| "rehash_loop old (Suc i) hash =
     (if \<not> IS_EMPTY_OR_DELETED (el_hashcode (old ! i)) then
        (case priv_uhash_find hash (el_key (old ! i)) (el_hashcode (old ! i)) of
           None \<Rightarrow> None
         | Some e \<Rightarrow>
             rehash_loop old i
               (hash\<lparr>uh_elements := (uh_elements hash)[e := \<lparr>el_hashcode = el_hashcode (old ! i),
                                     el_value = el_value (old ! i), el_key = el_key (old ! i)\<rparr>],
                     uh_count := uh_count hash + 1\<rparr>))
      else rehash_loop old i hash)"

definition priv_uhash_rehash ::
    "(nat \<Rightarrow> bool) \<Rightarrow> UHashtable \<Rightarrow> UErrorCode \<Rightarrow> (UHashtable \<times> UErrorCode) option" where
  "priv_uhash_rehash malloc hash status =
     (let old = uh_elements hash;
          oldLength = uh_length hash;
          newPrimeIndex = (if uh_count hash > uh_highWaterMark hash then int (uh_primeIndex hash) + 1
                           else int (uh_primeIndex hash) - 1)
      in if \<not> uh_count hash > uh_highWaterMark hash \<and> \<not> uh_count hash < uh_lowWaterMark hash
         then Some (hash, status)
         else if newPrimeIndex \<ge> int PRIMES_LENGTH \<or> newPrimeIndex < 0 then Some (hash, status)
         else
           let (hash1, status1) = priv_uhash_allocate malloc hash (nat newPrimeIndex) status
           in if U_FAILURE status1
              then Some (hash1\<lparr>uh_elements := old, uh_length := oldLength\<rparr>, status1)
              else map_option (\<lambda>h. (h, status1)) (rehash_loop old oldLength hash1))"

definition priv_uhash_remove ::
    "(nat \<Rightarrow> bool) \<Rightarrow> UHashtable \<Rightarrow> UHashTok \<Rightarrow> (UHashtable \<times> UHashTok) option" where
  "priv_uhash_remove malloc hash key =
     (case priv_uhash_find hash key (uh_keyHasher hash key) of
        None \<Rightarrow> None
      | Some e \<Rightarrow>
          if \<not> IS_EMPTY_OR_DELETED (el_hashcode (uh_elements hash ! e)) then
            let (hash1, result) = priv_uhash_internalRemoveElement hash e in
            if uh_count hash1 < uh_lowWaterMark hash1
            then map_option (\<lambda>(h, _). (h, result)) (priv_uhash_rehash malloc hash1 U_ZERO_ERROR)
            else Some (hash1, result)
          else Some (hash, 0))"

definition priv_uhash_put ::
    "(nat \<Rightarrow> bool) \<Rightarrow> UHashtable \<Rightarrow> UHashTok \<Rightarrow> UHashTok \<Rightarrow> 8 word \<Rightarrow> UErrorCode
       \<Rightarrow> (UHashtable \<times> UHashTok \<times> UErrorCode) option" where
  "priv_uhash_put malloc hash key val hint status =
     (if U_FAILURE status then Some (HASH_DELETE_KEY_VALUE hash key val, 0, status)
      else if hint AND HINT_VALUE_POINTER \<noteq> 0 \<and> val = 0
      then map_option (\<lambda>(h, r). (h, r, status)) (priv_uhash_remove malloc hash key)
      else
        case (if uh_count hash > uh_highWaterMark hash then priv_uhash_rehash malloc hash status
              else Some (hash, status)) of
          None \<Rightarrow> None
        | Some (hash1, status1) \<Rightarrow>
            if U_FAILURE status1 then Some (HASH_DELETE_KEY_VALUE hash1 key val, 0, status1)
            else
              let hashcode = uh_keyHasher hash1 key in
              case priv_uhash_find hash1 key hashcode of
                None \<Rightarrow> None
              | Some e \<Rightarrow>
                  if IS_EMPTY_OR_DELETED (el_hashcode (uh_elements hash1 ! e))
                     \<and> uh_count hash1 + 1 = uh_length hash1
                  then Some (HASH_DELETE_KEY_VALUE hash1 key val, 0, U_MEMORY_ALLOCATION_ERROR)
                  else
                    let hash2 = (if IS_EMPTY_OR_DELETED (el_hashcode (uh_elements hash1 ! e))
                                 then hash1\<lparr>uh_count := uh_count hash1 + 1\<rparr> else hash1);
                        (hash3, old) = priv_uhash_setElement hash2 e (hashcode AND 0x7FFFFFFF) key val hint
                    in Some (hash3, old, status1))"

section \<open>Public operations\<close>

definition uhash_open where
  "uhash_open malloc raw keyHash keyComp valueComp status =
     priv_uhash_create malloc raw keyHash keyComp valueComp DEFAULT_PRIME_INDEX status"

function openSize_index :: "nat \<Rightarrow> int \<Rightarrow> nat" where
  "openSize_index i sz =
     (if i < PRIMES_LENGTH - 1 \<and> int (PRIMES ! i) < sz then openSize_index (i + 1) sz else i)"
  by pat_completeness auto
termination
  by (relation "measure (\<lambda>(i, sz). PRIMES_LENGTH - i)") auto

definition uhash_openSize where
  "uhash_openSize malloc raw keyHash keyComp valueComp sz status =
     priv_uhash_create malloc raw keyHash keyComp valueComp (openSize_index 0 sz) status"

definition uhash_init where
  "uhash_init malloc fillinResult keyHash keyComp valueComp status =
     priv_uhash_init malloc fillinResult keyHash keyComp valueComp DEFAULT_PRIME_INDEX status"

text \<open>\<open>uhash_nextElement\<close> searches from \<open>pos + 1\<close>; \<open>UHASH_FIRST\<close> is -1. The result pairs the index
  found with the new position.\<close>

function nextElement_loop :: "UHashtable \<Rightarrow> nat \<Rightarrow> nat option" where
  "nextElement_loop hash i =
     (if i < uh_length hash then
        if \<not> IS_EMPTY_OR_DELETED (el_hashcode (uh_elements hash ! i)) then Some i
        else nextElement_loop hash (i + 1)
      else None)"
  by pat_completeness auto
termination
  by (relation "measure (\<lambda>(hash, i). uh_length hash - i)") auto

abbreviation (input) UHASH_FIRST :: int where "UHASH_FIRST \<equiv> -1"

definition uhash_nextElement :: "UHashtable \<Rightarrow> int \<Rightarrow> (nat \<times> int) option" where
  "uhash_nextElement hash pos =
     map_option (\<lambda>i. (i, int i)) (nextElement_loop hash (nat (pos + 1)))"

declare openSize_index.simps [simp del] nextElement_loop.simps [simp del]

definition uhash_removeElement :: "UHashtable \<Rightarrow> nat \<Rightarrow> UHashtable \<times> UHashTok" where
  "uhash_removeElement hash e =
     (if \<not> IS_EMPTY_OR_DELETED (el_hashcode (uh_elements hash ! e))
      then priv_uhash_internalRemoveElement hash e
      else (hash, 0))"

lemma nextElement_loop_bounds: "nextElement_loop hash i = Some j \<Longrightarrow> i \<le> j \<and> j < uh_length hash"
proof (induction "uh_length hash - i" arbitrary: i)
  case 0
  then show ?case by (simp add: nextElement_loop.simps [of _ i])
next
  case (Suc d)
  then have "d = uh_length hash - Suc i" by simp
  with Suc.hyps(1) [of "Suc i"] Suc.prems show ?case
    by (auto simp: nextElement_loop.simps [of _ i] split: if_splits)
qed

lemma setElement_fields [simp]:
  "uh_length (fst (priv_uhash_setElement hash i hc k v h)) = uh_length hash"
  "uh_count (fst (priv_uhash_setElement hash i hc k v h)) = uh_count hash"
  "uh_keyHasher (fst (priv_uhash_setElement hash i hc k v h)) = uh_keyHasher hash"
  "uh_keyComparator (fst (priv_uhash_setElement hash i hc k v h)) = uh_keyComparator hash"
  "uh_keyDeleter (fst (priv_uhash_setElement hash i hc k v h)) = uh_keyDeleter hash"
  "uh_valueDeleter (fst (priv_uhash_setElement hash i hc k v h)) = uh_valueDeleter hash"
  "uh_elements (fst (priv_uhash_setElement hash i hc k v h))
     = (uh_elements hash)[i := \<lparr>el_hashcode = hc, el_value = v, el_key = k\<rparr>]"
  by (simp_all add: priv_uhash_setElement_def Let_def)

lemma removeElement_length [simp]: "uh_length (fst (uhash_removeElement hash e)) = uh_length hash"
  by (simp add: uhash_removeElement_def priv_uhash_internalRemoveElement_def)

function removeAll_loop :: "UHashtable \<Rightarrow> int \<Rightarrow> UHashtable" where
  "removeAll_loop hash pos =
     (case uhash_nextElement hash pos of
        None \<Rightarrow> hash
      | Some (e, pos') \<Rightarrow> removeAll_loop (fst (uhash_removeElement hash e)) pos')"
  by pat_completeness auto
termination
  by (relation "measure (\<lambda>(hash, pos). uh_length hash - nat (pos + 1))")
    (auto simp: uhash_nextElement_def nat_add_distrib dest!: nextElement_loop_bounds)

definition uhash_removeAll :: "UHashtable \<Rightarrow> UHashtable" where
  "uhash_removeAll hash = (if uh_count hash \<noteq> 0 then removeAll_loop hash UHASH_FIRST else hash)"

function close_loop :: "UHashtable \<Rightarrow> int \<Rightarrow> UHashtable" where
  "close_loop hash pos =
     (case uhash_nextElement hash pos of
        None \<Rightarrow> hash
      | Some (e, pos') \<Rightarrow>
          close_loop (HASH_DELETE_KEY_VALUE hash (el_key (uh_elements hash ! e))
                        (el_value (uh_elements hash ! e))) pos')"
  by pat_completeness auto
termination
  by (relation "measure (\<lambda>(hash, pos). uh_length hash - nat (pos + 1))")
    (auto simp: uhash_nextElement_def nat_add_distrib HASH_DELETE_KEY_VALUE_def
      dest!: nextElement_loop_bounds)

declare removeAll_loop.simps [simp del] close_loop.simps [simp del]

text \<open>\<open>uhash_close\<close> returns the table with its element array freed (NULL is \<open>[]\<close>) and whether the
  structure itself was freed.\<close>

definition uhash_close :: "UHashtable option \<Rightarrow> (UHashtable \<times> bool) option" where
  "uhash_close hash0 =
     (case hash0 of
        None \<Rightarrow> None
      | Some hash \<Rightarrow>
          let hash1 = (if uh_elements hash \<noteq> [] then
                         (if uh_keyDeleter hash \<noteq> None \<or> uh_valueDeleter hash \<noteq> None
                          then close_loop hash UHASH_FIRST else hash)\<lparr>uh_elements := []\<rparr>
                       else hash)
          in Some (hash1, uh_allocated hash1))"

definition uhash_setKeyHasher :: "UHashtable \<Rightarrow> (UHashTok \<Rightarrow> 32 word) \<Rightarrow> UHashtable \<times> (UHashTok \<Rightarrow> 32 word)" where
  "uhash_setKeyHasher hash f = (hash\<lparr>uh_keyHasher := f\<rparr>, uh_keyHasher hash)"

definition uhash_setKeyComparator :: "UHashtable \<Rightarrow> UComparatorPtr \<Rightarrow> UHashtable \<times> UComparatorPtr" where
  "uhash_setKeyComparator hash f =
     (hash\<lparr>uh_keyComparator := snd f, uh_keyComparatorAddr := fst f\<rparr>,
      (uh_keyComparatorAddr hash, uh_keyComparator hash))"

definition uhash_setValueComparator ::
    "UHashtable \<Rightarrow> UComparatorPtr option \<Rightarrow> UHashtable \<times> UComparatorPtr option" where
  "uhash_setValueComparator hash f =
     (hash\<lparr>uh_valueComparator := map_option snd f, uh_valueComparatorAddr := map_option fst f\<rparr>,
      (case (uh_valueComparatorAddr hash, uh_valueComparator hash) of
         (Some a, Some g) \<Rightarrow> Some (a, g) | _ \<Rightarrow> None))"

definition uhash_setKeyDeleter where
  "uhash_setKeyDeleter hash f = (hash\<lparr>uh_keyDeleter := f\<rparr>, uh_keyDeleter (hash :: UHashtable))"

definition uhash_setValueDeleter where
  "uhash_setValueDeleter hash f = (hash\<lparr>uh_valueDeleter := f\<rparr>, uh_valueDeleter (hash :: UHashtable))"

definition uhash_setResizePolicy ::
    "(nat \<Rightarrow> bool) \<Rightarrow> UHashtable \<Rightarrow> UHashResizePolicy \<Rightarrow> UHashtable option" where
  "uhash_setResizePolicy malloc hash policy =
     (let hash1 = priv_uhash_internalSetResizePolicy hash policy;
          hash2 = hash1\<lparr>uh_lowWaterMark := float_mult_trunc (uh_length hash1) (uh_lowWaterRatio hash1),
                        uh_highWaterMark := float_mult_trunc (uh_length hash1) (uh_highWaterRatio hash1)\<rparr>
      in map_option fst (priv_uhash_rehash malloc hash2 U_ZERO_ERROR))"

definition uhash_count :: "UHashtable \<Rightarrow> nat" where
  "uhash_count hash = uh_count hash"

text \<open>On this target the four flavours of get, put and remove (pointer or integer key, pointer or
  integer value) differ only in the hint that \<open>put\<close> passes on.\<close>

definition uhash_get :: "UHashtable \<Rightarrow> UHashTok \<Rightarrow> UHashTok option" where
  "uhash_get hash key =
     map_option (\<lambda>i. el_value (uh_elements hash ! i)) (priv_uhash_find hash key (uh_keyHasher hash key))"

definition uhash_iget :: "UHashtable \<Rightarrow> UHashTok \<Rightarrow> UHashTok option" where
  "uhash_iget hash key =
     map_option (\<lambda>i. el_value (uh_elements hash ! i)) (priv_uhash_find hash key (uh_keyHasher hash key))"

definition uhash_geti :: "UHashtable \<Rightarrow> UHashTok \<Rightarrow> UHashTok option" where
  "uhash_geti hash key =
     map_option (\<lambda>i. el_value (uh_elements hash ! i)) (priv_uhash_find hash key (uh_keyHasher hash key))"

definition uhash_igeti :: "UHashtable \<Rightarrow> UHashTok \<Rightarrow> UHashTok option" where
  "uhash_igeti hash key =
     map_option (\<lambda>i. el_value (uh_elements hash ! i)) (priv_uhash_find hash key (uh_keyHasher hash key))"

definition uhash_put where
  "uhash_put malloc hash key val status =
     priv_uhash_put malloc hash key val (HINT_KEY_POINTER OR HINT_VALUE_POINTER) status"

definition uhash_iput where
  "uhash_iput malloc hash key val status = priv_uhash_put malloc hash key val HINT_VALUE_POINTER status"

definition uhash_puti where
  "uhash_puti malloc hash key val status = priv_uhash_put malloc hash key val HINT_KEY_POINTER status"

definition uhash_iputi where
  "uhash_iputi malloc hash key val status = priv_uhash_put malloc hash key val 0 status"

definition uhash_remove where
  "uhash_remove malloc hash key = priv_uhash_remove malloc hash key"

definition uhash_iremove where
  "uhash_iremove malloc hash key = priv_uhash_remove malloc hash key"

definition uhash_removei where
  "uhash_removei malloc hash key = priv_uhash_remove malloc hash key"

definition uhash_iremovei where
  "uhash_iremovei malloc hash key = priv_uhash_remove malloc hash key"

text \<open>\<open>uhash_find\<close> returns NULL (\<open>Some None\<close>) where there is no element.\<close>

definition uhash_find :: "UHashtable \<Rightarrow> UHashTok \<Rightarrow> nat option option" where
  "uhash_find hash key =
     map_option (\<lambda>i. if IS_EMPTY_OR_DELETED (el_hashcode (uh_elements hash ! i)) then None else Some i)
       (priv_uhash_find hash key (uh_keyHasher hash key))"

text \<open>\<open>uhash_equals\<close> compares the pointers to the two tables and the function pointers in them. A
  table pointer is NULL (\<open>None\<close>) or an address with the table that is there. The result is \<open>None\<close>
  where a NULL element would be dereferenced.\<close>

fun equals_loop :: "nat \<Rightarrow> UHashtable \<Rightarrow> UHashtable \<Rightarrow> (UHashTok \<Rightarrow> UHashTok \<Rightarrow> bool) \<Rightarrow> int \<Rightarrow> bool option" where
  "equals_loop 0 hash1 hash2 valueComparator pos = Some True"
| "equals_loop (Suc n) hash1 hash2 valueComparator pos =
     (case uhash_nextElement hash1 pos of
        None \<Rightarrow> None
      | Some (e1, pos') \<Rightarrow>
          let key1 = el_key (uh_elements hash1 ! e1); val1 = el_value (uh_elements hash1 ! e1) in
          (case priv_uhash_find hash2 key1 (uh_keyHasher hash2 key1) of
             None \<Rightarrow> None
           | Some e2 \<Rightarrow>
               if \<not> valueComparator val1 (el_value (uh_elements hash2 ! e2)) then Some False
               else equals_loop n hash1 hash2 valueComparator pos'))"

definition uhash_equals ::
    "(nat \<times> UHashtable) option \<Rightarrow> (nat \<times> UHashtable) option \<Rightarrow> bool option" where
  "uhash_equals hash1 hash2 =
     (if map_option fst hash1 = map_option fst hash2 then Some True
      else
        case (hash1, hash2) of
          (Some (_, h1), Some (_, h2)) \<Rightarrow>
            if uh_keyComparatorAddr h1 \<noteq> uh_keyComparatorAddr h2
               \<or> uh_valueComparatorAddr h1 \<noteq> uh_valueComparatorAddr h2 then Some False
            else
              (case uh_valueComparator h1 of
                 None \<Rightarrow> Some False
               | Some valueComparator \<Rightarrow>
                   if uhash_count h1 \<noteq> uhash_count h2 then Some False
                   else equals_loop (uhash_count h1) h1 h2 valueComparator UHASH_FIRST)
        | _ \<Rightarrow> Some False)"

section \<open>Key functions\<close>

definition uhash_hashLong :: "UHashTok \<Rightarrow> 32 word" where
  "uhash_hashLong key = key"

definition uhash_compareLong :: "UHashTok \<Rightarrow> UHashTok \<Rightarrow> bool" where
  "uhash_compareLong key1 key2 \<longleftrightarrow> key1 = key2"

end
