(* ===== verification/UHashCorrect.thy ===== *)
theory UHashCorrect
  imports UHash
begin

text \<open>
  Correctness of the hash table of theory \<open>UHash\<close>. The contract of the key callbacks is the
  locale \<open>hash_keys\<close>; the representation invariant says that every stored element is on the
  probe path of its hash code before the first empty slot of that path. Shown: the probe loop
  always ends at the right slot, the table behaves as a finite map under put, remove, rehash
  and iteration, and keys and values handed to a table with deleters are released exactly once.
\<close>

section \<open>Slots\<close>

definition occupied :: "UHashElement \<Rightarrow> bool" where
  "occupied e \<longleftrightarrow> \<not> IS_EMPTY_OR_DELETED (el_hashcode e)"

lemma negative_iff_bit: "IS_EMPTY_OR_DELETED x \<longleftrightarrow> bit x 31"
  using bit_last_iff [of x] by (simp add: IS_EMPTY_OR_DELETED_def)

abbreviation posmask :: "32 word \<Rightarrow> 32 word" where
  "posmask x \<equiv> x AND 0x7FFFFFFF"

lemma posmask_nonneg [simp]: "\<not> IS_EMPTY_OR_DELETED (posmask x)"
proof -
  have "(0x7FFFFFFF :: 32 word) = mask 31" by (simp add: mask_eq_exp_minus_1)
  then show ?thesis by (simp only: negative_iff_bit bit_and_iff bit_mask_iff) simp
qed

lemma posmask_idem [simp]: "posmask (posmask x) = posmask x"
  by (simp only: and.assoc and.idem)

lemma nonneg_codes [simp]:
  "IS_EMPTY_OR_DELETED HASH_DELETED" "IS_EMPTY_OR_DELETED HASH_EMPTY"
  "posmask x \<noteq> HASH_DELETED" "posmask x \<noteq> HASH_EMPTY"
proof -
  show d: "IS_EMPTY_OR_DELETED HASH_DELETED" "IS_EMPTY_OR_DELETED HASH_EMPTY"
    by (simp_all add: IS_EMPTY_OR_DELETED_def)
  show "posmask x \<noteq> HASH_DELETED" "posmask x \<noteq> HASH_EMPTY"
    using d posmask_nonneg [of x] by metis+
qed

text \<open>Number of stored elements of an element array.\<close>

definition occ :: "UHashElement list \<Rightarrow> nat" where
  "occ els = length (filter occupied els)"

lemma occ_simps [simp]:
  "occ [] = 0" "occ (e # els) = (if occupied e then Suc (occ els) else occ els)"
  "occ (xs @ ys) = occ xs + occ ys" "occ (replicate n emptyElement) = 0"
  by (simp_all add: occ_def occupied_def emptyElement_def)

lemma occ_update:
  "i < length els \<Longrightarrow>
     occ (els[i := e]) + of_bool (occupied (els ! i)) = occ els + of_bool (occupied e)"
proof -
  assume i: "i < length els"
  have "occ els = occ (take i els @ els ! i # drop (Suc i) els)"
    using id_take_nth_drop [OF i] by simp
  with i show ?thesis by (simp add: upd_conv_take_nth_drop)
qed

lemma occ_less_unoccupied: "occ els < length els \<Longrightarrow> \<exists>i<length els. \<not> occupied (els ! i)"
proof (rule ccontr)
  assume "occ els < length els" "\<not> (\<exists>i<length els. \<not> occupied (els ! i))"
  then have "filter occupied els = els" by (auto simp: filter_id_conv in_set_conv_nth)
  with \<open>occ els < length els\<close> show False by (simp add: occ_def)
qed

section \<open>Probe paths\<close>

definition pstart :: "nat \<Rightarrow> 32 word \<Rightarrow> nat" where
  "pstart len hc = unat (hc XOR 0x4000000) mod len"

definition pjump :: "nat \<Rightarrow> 32 word \<Rightarrow> nat" where
  "pjump len hc = unat hc mod (len - 1) + 1"

definition probe :: "nat \<Rightarrow> 32 word \<Rightarrow> nat \<Rightarrow> nat" where
  "probe len hc n = (pstart len hc + n * pjump len hc) mod len"

lemma PRIMES_uprime: "len \<in> set PRIMES \<Longrightarrow> uprime (int len)"
  by (auto simp: PRIMES_def uprimes)

lemma PRIMES_gt_1: "len \<in> set PRIMES \<Longrightarrow> 1 < len"
  by (auto dest!: PRIMES_uprime simp: uprime_def)

lemma pjump_coprime: "len \<in> set PRIMES \<Longrightarrow> coprime (pjump len hc) len"
proof -
  assume len: "len \<in> set PRIMES"
  have "unat hc mod (len - 1) < len - 1"
    using PRIMES_gt_1 [OF len] by (intro mod_less_divisor) simp
  then have "int (pjump len hc) < int len" "0 < int (pjump len hc)"
    unfolding pjump_def by linarith+
  with PRIMES_uprime [OF len] have "coprime (int (pjump len hc)) (int len)"
    unfolding uprime_def by blast
  then show ?thesis by simp
qed

lemma probe_less: "len \<in> set PRIMES \<Longrightarrow> probe len hc n < len"
  using PRIMES_gt_1 [of len] by (simp add: probe_def)

lemma probe_0: "probe len hc 0 = pstart len hc"
  by (simp add: probe_def pstart_def)

lemma probe_Suc: "probe len hc (Suc n) = (probe len hc n + pjump len hc) mod len"
  by (simp add: probe_def mod_simps ac_simps)

lemma probe_eq_dvd:
  assumes "len \<in> set PRIMES" "m \<le> n"
  shows "probe len hc m = probe len hc n \<longleftrightarrow> len dvd n - m"
proof -
  have "probe len hc m = probe len hc n \<longleftrightarrow>
      int len dvd (int (pstart len hc + n * pjump len hc) - int (pstart len hc + m * pjump len hc))"
    unfolding probe_def mod_eq_dvd_iff [symmetric] by (metis of_nat_eq_iff of_nat_mod)
  also have "\<dots> \<longleftrightarrow> int len dvd int ((n - m) * pjump len hc)"
    using assms(2) by (simp add: of_nat_diff algebra_simps)
  also have "\<dots> \<longleftrightarrow> len dvd (n - m) * pjump len hc" by (simp only: int_dvd_int_iff)
  also have "\<dots> \<longleftrightarrow> len dvd n - m"
    using pjump_coprime [OF assms(1)] by (simp add: coprime_dvd_mult_left_iff coprime_commute)
  finally show ?thesis .
qed

lemma probe_inj: "len \<in> set PRIMES \<Longrightarrow> inj_on (probe len hc) {..<len}"
proof (rule linorder_inj_onI')
  fix m n assume "len \<in> set PRIMES" "m \<in> {..<len}" "n \<in> {..<len}" "m < n"
  then show "probe len hc m \<noteq> probe len hc n"
    using probe_eq_dvd [of len m n hc] by (auto dest!: dvd_imp_le)
qed

lemma probe_surj:
  assumes "len \<in> set PRIMES" "i < len"
  obtains n where "n < len" "probe len hc n = i"
proof -
  have "card (probe len hc ` {..<len}) = len"
    using probe_inj [OF assms(1)] by (simp add: card_image)
  moreover have "probe len hc ` {..<len} \<subseteq> {..<len}" using probe_less [OF assms(1)] by auto
  ultimately have "probe len hc ` {..<len} = {..<len}" by (intro card_subset_eq) auto
  then show ?thesis using that assms(2) by (metis imageE lessThan_iff)
qed

lemma probe_wrap: "len \<in> set PRIMES \<Longrightarrow> n < len \<Longrightarrow> probe len hc (Suc n) = probe len hc 0 \<longleftrightarrow> Suc n = len"
  using probe_eq_dvd [of len 0 "Suc n" hc] by (auto dest: dvd_imp_le)

section \<open>The contract of the key callbacks and the invariant\<close>

locale hash_keys =
  fixes hasher :: "UHashTok \<Rightarrow> 32 word" and keq :: "UHashTok \<Rightarrow> UHashTok \<Rightarrow> bool"
  assumes keq_refl: "keq x x"
    and keq_sym: "keq x y \<Longrightarrow> keq y x"
    and keq_trans: "keq x y \<Longrightarrow> keq y z \<Longrightarrow> keq x z"
    and keq_hash: "keq x y \<Longrightarrow> hasher x = hasher y"

definition path_clear :: "UHashElement list \<Rightarrow> 32 word \<Rightarrow> nat \<Rightarrow> bool" where
  "path_clear els hc n \<longleftrightarrow> (\<forall>m<n. el_hashcode (els ! probe (length els) hc m) \<noteq> HASH_EMPTY)"

definition on_path :: "UHashElement list \<Rightarrow> 32 word \<Rightarrow> nat \<Rightarrow> bool" where
  "on_path els hc i \<longleftrightarrow> (\<exists>n<length els. probe (length els) hc n = i \<and> path_clear els hc n)"

definition slot_ok :: "(UHashTok \<Rightarrow> 32 word) \<Rightarrow> UHashElement list \<Rightarrow> nat \<Rightarrow> bool" where
  "slot_ok hasher els i \<longleftrightarrow>
     (if occupied (els ! i)
      then el_hashcode (els ! i) = posmask (hasher (el_key (els ! i)))
             \<and> on_path els (el_hashcode (els ! i)) i
      else el_value (els ! i) = 0 \<and> el_key (els ! i) = 0
             \<and> el_hashcode (els ! i) \<in> {HASH_EMPTY, HASH_DELETED})"

definition table_ok ::
    "(UHashTok \<Rightarrow> 32 word) \<Rightarrow> (UHashTok \<Rightarrow> UHashTok \<Rightarrow> bool) \<Rightarrow> UHashElement list \<Rightarrow> bool" where
  "table_ok hasher keq els \<longleftrightarrow>
     length els \<in> set PRIMES \<and> (\<forall>i<length els. slot_ok hasher els i)
     \<and> (\<forall>i<length els. \<forall>j<length els. i \<noteq> j \<and> occupied (els ! i) \<and> occupied (els ! j)
          \<longrightarrow> \<not> keq (el_key (els ! i)) (el_key (els ! j)))"

text \<open>The abstract content: a partial map on keys, up to the key comparator.\<close>

definition table_map :: "(UHashTok \<Rightarrow> UHashTok \<Rightarrow> bool) \<Rightarrow> UHashElement list \<Rightarrow> UHashTok \<Rightarrow> UHashTok option" where
  "table_map keq els key =
     map_option el_value (List.find (\<lambda>e. occupied e \<and> keq key (el_key e)) els)"

lemma path_clear_update:
  "path_clear els hc n \<Longrightarrow> el_hashcode e \<noteq> HASH_EMPTY \<Longrightarrow> i < length els \<Longrightarrow> path_clear (els[i := e]) hc n"
  by (auto simp: path_clear_def nth_list_update)

lemma on_path_update:
  "on_path els hc j \<Longrightarrow> el_hashcode e \<noteq> HASH_EMPTY \<Longrightarrow> i < length els \<Longrightarrow> on_path (els[i := e]) hc j"
  by (auto simp: on_path_def intro: path_clear_update)

lemma occupied_codes: "occupied e \<Longrightarrow> el_hashcode e \<noteq> HASH_EMPTY" "occupied e \<Longrightarrow> el_hashcode e \<noteq> HASH_DELETED"
  by (auto simp: occupied_def)

lemma table_ok_empty: "len \<in> set PRIMES \<Longrightarrow> table_ok hasher keq (replicate len emptyElement)"
  by (simp add: table_ok_def slot_ok_def occupied_def emptyElement_def)

lemma table_map_empty [simp]: "table_map keq (replicate len emptyElement) = Map.empty"
proof
  fix k
  show "table_map keq (replicate len emptyElement) k = None"
    by (induction len) (simp_all add: table_map_def occupied_def emptyElement_def)
qed

section \<open>The probe loop\<close>

definition key_match :: "(UHashTok \<Rightarrow> UHashTok \<Rightarrow> bool) \<Rightarrow> UHashElement \<Rightarrow> UHashTok \<Rightarrow> 32 word \<Rightarrow> bool" where
  "key_match keq e key hc \<longleftrightarrow> el_hashcode e = hc \<and> keq key (el_key e)"

text \<open>What the probe loop promises: the slot of the key, or a free slot on the probe path when no
  slot of the path holds the key.\<close>

definition find_spec ::
    "(UHashTok \<Rightarrow> UHashTok \<Rightarrow> bool) \<Rightarrow> UHashElement list \<Rightarrow> UHashTok \<Rightarrow> 32 word \<Rightarrow> nat \<Rightarrow> bool" where
  "find_spec keq els key hc i \<longleftrightarrow>
     i < length els \<and> on_path els hc i \<and>
     (key_match keq (els ! i) key hc
      \<or> \<not> occupied (els ! i) \<and> (\<forall>j. on_path els hc j \<longrightarrow> \<not> key_match keq (els ! j) key hc))"

definition codes_ok :: "UHashElement list \<Rightarrow> bool" where
  "codes_ok els \<longleftrightarrow>
     (\<forall>e\<in>set els. occupied e \<or> el_hashcode e = HASH_EMPTY \<or> el_hashcode e = HASH_DELETED)"

text \<open>The state of the loop after \<open>n\<close> slots.\<close>

definition probing ::
    "(UHashTok \<Rightarrow> UHashTok \<Rightarrow> bool) \<Rightarrow> UHashElement list \<Rightarrow> UHashTok \<Rightarrow> 32 word \<Rightarrow> nat \<Rightarrow> nat \<Rightarrow> int \<Rightarrow> bool" where
  "probing keq els key hc n jump fd \<longleftrightarrow>
     path_clear els hc n
     \<and> (\<forall>m<n. \<not> key_match keq (els ! probe (length els) hc m) key hc)
     \<and> jump \<in> {0, pjump (length els) hc}
     \<and> (fd = -1 \<and> (\<forall>m<n. el_hashcode (els ! probe (length els) hc m) \<noteq> HASH_DELETED)
        \<or> (\<exists>m<n. fd = int (probe (length els) hc m) \<and> el_hashcode (els ! probe (length els) hc m) = HASH_DELETED))"

lemma on_path_probe:
  "n < length els \<Longrightarrow> path_clear els hc n \<Longrightarrow> on_path els hc (probe (length els) hc n)"
  by (auto simp: on_path_def)

lemma path_clear_mono: "path_clear els hc n \<Longrightarrow> m \<le> n \<Longrightarrow> path_clear els hc m"
  by (auto simp: path_clear_def)

lemma path_clear_Suc:
  "path_clear els hc (Suc n) \<longleftrightarrow>
     path_clear els hc n \<and> el_hashcode (els ! probe (length els) hc n) \<noteq> HASH_EMPTY"
  by (auto simp: path_clear_def less_Suc_eq)

lemma find_exit_deleted:
  assumes "length els \<in> set PRIMES" "path_clear els hc n" "n \<le> length els" "m < n"
    "el_hashcode (els ! probe (length els) hc m) = HASH_DELETED"
    "\<forall>j. on_path els hc j \<longrightarrow> \<not> key_match keq (els ! j) key hc"
  shows "\<exists>i. find_exit th idx (int (probe (length els) hc m)) = Some i \<and> find_spec keq els key hc i"
  using assms by (auto simp: find_exit_def find_spec_def probe_less occupied_def
      intro!: on_path_probe intro: path_clear_mono)

lemma no_match_stop_empty:
  assumes "probing keq els key hc n jump fd" "el_hashcode (els ! probe (length els) hc n) = HASH_EMPTY"
    "\<not> IS_EMPTY_OR_DELETED hc" "on_path els hc j"
  shows "\<not> key_match keq (els ! j) key hc"
proof -
  obtain m where m: "probe (length els) hc m = j" "path_clear els hc m"
    using assms(4) by (auto simp: on_path_def)
  with assms(2) have "m \<le> n" by (metis not_less path_clear_def)
  then consider "m < n" | "m = n" by linarith
  then show ?thesis
    using assms m by cases (auto simp: probing_def key_match_def)
qed

lemma find_stop_empty:
  assumes "length els \<in> set PRIMES" "n < length els" "probing keq els key hc n jump fd"
    "el_hashcode (els ! probe (length els) hc n) = HASH_EMPTY" "\<not> IS_EMPTY_OR_DELETED hc"
  shows "\<exists>i. find_exit HASH_EMPTY (probe (length els) hc n) fd = Some i \<and> find_spec keq els key hc i"
proof -
  have no: "\<forall>j. on_path els hc j \<longrightarrow> \<not> key_match keq (els ! j) key hc"
    using no_match_stop_empty assms by blast
  have pc: "path_clear els hc n" using assms(3) by (simp add: probing_def)
  from assms(3) consider "fd = -1"
    | m where "m < n" "fd = int (probe (length els) hc m)"
      "el_hashcode (els ! probe (length els) hc m) = HASH_DELETED"
    by (auto simp: probing_def)
  then show ?thesis
  proof cases
    case 1
    then show ?thesis using no pc assms
      by (auto simp: find_exit_def find_spec_def probe_less occupied_def intro: on_path_probe)
  next
    case 2
    then show ?thesis using find_exit_deleted no pc assms by (metis less_imp_le_nat)
  qed
qed

lemma find_stop_wrap:
  assumes "length els \<in> set PRIMES" "probing keq els key hc (length els) jump fd"
    "codes_ok els" "occ els < length els"
  shows "\<exists>i. find_exit th idx fd = Some i \<and> find_spec keq els key hc i"
proof -
  have no: "\<forall>j. on_path els hc j \<longrightarrow> \<not> key_match keq (els ! j) key hc"
    using assms(2) by (auto simp: on_path_def probing_def)
  obtain i where i: "i < length els" "\<not> occupied (els ! i)"
    using occ_less_unoccupied [OF assms(4)] by blast
  obtain k where k: "k < length els" "probe (length els) hc k = i"
    using probe_surj [OF assms(1) i(1)] by blast
  have "el_hashcode (els ! i) = HASH_DELETED"
    using assms(2,3) i k by (auto simp: probing_def path_clear_def codes_ok_def)
  with assms(2) k obtain m where "m < length els" "fd = int (probe (length els) hc m)"
      "el_hashcode (els ! probe (length els) hc m) = HASH_DELETED"
    by (auto simp: probing_def)
  then show ?thesis using find_exit_deleted no assms(1,2) by (metis order_refl probing_def)
qed

lemma probing_step:
  assumes "probing keq els key hc n jump fd" "\<not> key_match keq (els ! probe (length els) hc n) key hc"
    "el_hashcode (els ! probe (length els) hc n) \<noteq> HASH_EMPTY" "\<not> IS_EMPTY_OR_DELETED hc"
    "codes_ok els" "length els \<in> set PRIMES"
    "fd' = (if el_hashcode (els ! probe (length els) hc n) \<noteq> hc
              \<and> IS_EMPTY_OR_DELETED (el_hashcode (els ! probe (length els) hc n)) \<and> fd < 0
            then int (probe (length els) hc n) else fd)"
  shows "probing keq els key hc (Suc n) (pjump (length els) hc) fd'"
proof -
  let ?e = "els ! probe (length els) hc n"
  have code: "occupied ?e \<or> el_hashcode ?e = HASH_DELETED"
    using assms(3,5) probe_less [OF assms(6)] by (auto simp: codes_ok_def)
  show ?thesis
  proof (cases "el_hashcode ?e = HASH_DELETED")
    case True
    then show ?thesis using assms
      by (auto simp: probing_def path_clear_Suc less_Suc_eq)
  next
    case False
    with code have "\<not> IS_EMPTY_OR_DELETED (el_hashcode ?e)" by (simp add: occupied_def)
    then show ?thesis using assms False
      by (auto simp: probing_def path_clear_Suc less_Suc_eq)
  qed
qed

lemma find_loop_correct:
  assumes len: "uh_length hash = length (uh_elements hash)" "length (uh_elements hash) \<in> set PRIMES"
    and ok: "codes_ok (uh_elements hash)" "occ (uh_elements hash) < length (uh_elements hash)"
      "\<not> IS_EMPTY_OR_DELETED hc"
    and n: "n < uh_length hash"
      "probing (uh_keyComparator hash) (uh_elements hash) key hc n jump fd"
  shows "\<exists>i. find_loop (uh_length hash - n) hash key hc (probe (uh_length hash) hc 0)
                (probe (uh_length hash) hc n) jump fd = Some i
             \<and> find_spec (uh_keyComparator hash) (uh_elements hash) key hc i"
  using n
proof (induction "uh_length hash - n" arbitrary: n jump fd)
  case 0
  then show ?case by simp
next
  case (Suc fuel)
  let ?L = "uh_length hash" let ?els = "uh_elements hash" let ?keq = "uh_keyComparator hash"
  let ?th = "el_hashcode (?els ! probe ?L hc n)"
  let ?fd = "if ?th \<noteq> hc \<and> IS_EMPTY_OR_DELETED ?th \<and> fd < 0 then int (probe ?L hc n) else fd"
  have jump: "(if jump = 0 then unat hc mod (?L - 1) + 1 else jump) = pjump ?L hc"
    using Suc.prems(2) len(1) by (auto simp: probing_def pjump_def)
  have eq: "find_loop (?L - n) hash key hc (probe ?L hc 0) (probe ?L hc n) jump fd =
      (if key_match ?keq (?els ! probe ?L hc n) key hc then Some (probe ?L hc n)
       else if ?th = HASH_EMPTY then find_exit ?th (probe ?L hc n) fd
       else if probe ?L hc (Suc n) \<noteq> probe ?L hc 0
       then find_loop fuel hash key hc (probe ?L hc 0) (probe ?L hc (Suc n)) (pjump ?L hc) ?fd
       else find_exit ?th (probe ?L hc (Suc n)) ?fd)"
    unfolding Suc.hyps(2) [symmetric] find_loop.simps Let_def jump probe_Suc key_match_def
    using ok(3) by (auto simp: key_match_def)
  have fuel: "fuel = ?L - Suc n" using Suc.hyps(2) by linarith
  consider "key_match ?keq (?els ! probe ?L hc n) key hc"
    | "?th = HASH_EMPTY" "\<not> key_match ?keq (?els ! probe ?L hc n) key hc"
    | "?th \<noteq> HASH_EMPTY" "\<not> key_match ?keq (?els ! probe ?L hc n) key hc" by blast
  then show ?case
  proof cases
    case 1
    then show ?thesis unfolding eq using Suc.prems len
      by (auto simp: find_spec_def probe_less probing_def intro: on_path_probe)
  next
    case 2
    then show ?thesis using find_stop_empty [of ?els n] Suc.prems len ok(3) unfolding eq by simp
  next
    case 3
    then have step: "probing ?keq ?els key hc (Suc n) (pjump ?L hc) ?fd"
      unfolding len(1) using len ok 3 by (intro probing_step [OF Suc.prems(2)]) simp_all
    show ?thesis
    proof (cases "Suc n = ?L")
      case True
      then show ?thesis
        using find_stop_wrap [OF len(2) _ ok(1,2)] step 3 len probe_wrap [of ?L n hc]
        unfolding eq by (simp del: if_splits)
    next
      case False
      then have "Suc n < ?L" using Suc.prems(1) by linarith
      then show ?thesis
        using Suc.hyps(1) [OF fuel _ step] 3 False Suc.prems len(2) probe_wrap [of ?L n hc]
        unfolding eq by (simp add: fuel len(1))
    qed
  qed
qed

section \<open>The content of a table\<close>

text \<open>The stored elements as a multiset, and the effect of overwriting a slot on it.\<close>

definition stored :: "UHashElement list \<Rightarrow> UHashElement multiset" where
  "stored els = filter_mset occupied (mset els)"

lemma occ_stored: "occ els = size (stored els)"
  by (simp add: occ_def stored_def flip: mset_filter)

lemma stored_update:
  "i < length els \<Longrightarrow>
     stored (els[i := e]) + (if occupied (els ! i) then {#els ! i#} else {#})
       = stored els + (if occupied e then {#e#} else {#})"
proof -
  assume i: "i < length els"
  have "mset els = mset (take i els @ els ! i # drop (Suc i) els)"
    using id_take_nth_drop [OF i] by simp
  with i show ?thesis by (simp add: stored_def upd_conv_take_nth_drop)
qed

lemma in_stored: "e \<in># stored els \<longleftrightarrow> (\<exists>i<length els. e = els ! i \<and> occupied (els ! i))"
  by (auto simp: stored_def in_set_conv_nth)

lemma stored_replicate [simp]: "stored (replicate n emptyElement) = {#}"
  by (induction n) (simp_all add: stored_def occupied_def emptyElement_def)

lemma table_ok_codes: "table_ok hasher keq els \<Longrightarrow> codes_ok els"
  by (fastforce simp: table_ok_def slot_ok_def codes_ok_def in_set_conv_nth split: if_splits)

lemma table_okD:
  assumes "table_ok hasher keq els" "i < length els" "occupied (els ! i)"
  shows "el_hashcode (els ! i) = posmask (hasher (el_key (els ! i)))"
    and "on_path els (el_hashcode (els ! i)) i"
proof -
  have "slot_ok hasher els i" using assms by (simp add: table_ok_def)
  with assms(3) show "el_hashcode (els ! i) = posmask (hasher (el_key (els ! i)))"
    "on_path els (el_hashcode (els ! i)) i"
    unfolding slot_ok_def by metis+
qed

lemma table_ok_distinct:
  assumes "table_ok hasher keq els" "i < length els" "occupied (els ! i)"
    "j < length els" "occupied (els ! j)" "keq (el_key (els ! i)) (el_key (els ! j))"
  shows "i = j"
  using assms unfolding table_ok_def by blast

text \<open>The slot \<open>_uhash_find\<close> returns.\<close>

definition found ::
    "(UHashTok \<Rightarrow> 32 word) \<Rightarrow> (UHashTok \<Rightarrow> UHashTok \<Rightarrow> bool) \<Rightarrow> UHashElement list \<Rightarrow> UHashTok \<Rightarrow> nat \<Rightarrow> bool" where
  "found hasher keq els key i \<longleftrightarrow> i < length els \<and> on_path els (posmask (hasher key)) i \<and>
     (if occupied (els ! i)
      then keq key (el_key (els ! i)) \<and> table_map keq els key = Some (el_value (els ! i))
      else table_map keq els key = None)"

context hash_keys
begin

lemma keq_right: "keq k a \<Longrightarrow> keq k b \<Longrightarrow> keq a b"
  using keq_sym keq_trans by blast

lemma table_map_Some:
  assumes ok: "table_ok hasher keq els" and i: "i < length els" "occupied (els ! i)" "keq k (el_key (els ! i))"
  shows "table_map keq els k = Some (el_value (els ! i))"
proof -
  let ?P = "\<lambda>e. occupied e \<and> keq k (el_key e)"
  have "List.find ?P els \<noteq> None" using i by (auto simp: find_None_iff)
  then obtain j where j: "List.find ?P els = Some (els ! j)" "j < length els" "?P (els ! j)"
    by (auto simp: find_Some_iff)
  then have "i = j" using table_ok_distinct [OF ok] i keq_right by blast
  with j show ?thesis by (simp add: table_map_def)
qed

lemma table_map_None:
  "table_map keq els k = None \<longleftrightarrow> (\<forall>i<length els. occupied (els ! i) \<longrightarrow> \<not> keq k (el_key (els ! i)))"
  by (auto simp: table_map_def find_None_iff in_set_conv_nth)

lemma table_map_stored:
  assumes ok: "table_ok hasher keq els"
  shows "table_map keq els k = Some v \<longleftrightarrow> (\<exists>e. e \<in># stored els \<and> keq k (el_key e) \<and> el_value e = v)"
proof
  assume "table_map keq els k = Some v"
  then show "\<exists>e. e \<in># stored els \<and> keq k (el_key e) \<and> el_value e = v"
    by (auto simp: table_map_def find_Some_iff in_stored)
next
  assume "\<exists>e. e \<in># stored els \<and> keq k (el_key e) \<and> el_value e = v"
  then show "table_map keq els k = Some v" using table_map_Some [OF ok] by (auto simp: in_stored)
qed

lemma table_map_cong:
  assumes "table_ok hasher keq els" "table_ok hasher keq els'" "stored els = stored els'"
  shows "table_map keq els = table_map keq els'"
  using assms(3) table_map_stored [OF assms(1)] table_map_stored [OF assms(2)]
  by (intro ext) (metis option.exhaust)

lemma key_match_occupied:
  "table_ok hasher keq els \<Longrightarrow> i < length els \<Longrightarrow>
     key_match keq (els ! i) key (posmask (hasher key)) \<longleftrightarrow> occupied (els ! i) \<and> keq key (el_key (els ! i))"
  using table_okD(1) [of hasher keq els i] keq_hash
  by (auto simp: key_match_def occupied_def)

lemma find_spec_found:
  assumes ok: "table_ok hasher keq els" and fs: "find_spec keq els key (posmask (hasher key)) i"
  shows "found hasher keq els key i"
proof (cases "occupied (els ! i)")
  case True
  with ok fs have "keq key (el_key (els ! i))"
    using key_match_occupied [OF ok] by (auto simp: find_spec_def)
  with True ok fs show ?thesis by (auto simp: found_def find_spec_def intro: table_map_Some)
next
  case False
  with fs key_match_occupied [OF ok]
  have no: "\<forall>j. on_path els (posmask (hasher key)) j \<longrightarrow> \<not> key_match keq (els ! j) key (posmask (hasher key))"
    by (auto simp: find_spec_def)
  have "\<not> keq key (el_key (els ! j))" if "j < length els" "occupied (els ! j)" for j
    using no that table_okD [OF ok] keq_hash [of key "el_key (els ! j)"] by (auto simp: key_match_def)
  with False fs show ?thesis by (auto simp: found_def find_spec_def table_map_None)
qed

end

interpretation longs: hash_keys uhash_hashLong uhash_compareLong
  by unfold_locales (simp_all add: uhash_compareLong_def)

lemma slot_ok_update:
  assumes "slot_ok hasher els j" "j \<noteq> i" "i < length els" "el_hashcode e \<noteq> HASH_EMPTY"
  shows "slot_ok hasher (els[i := e]) j"
  using assms on_path_update by (auto simp: slot_ok_def split: if_splits)

lemma table_ok_update:
  assumes "table_ok hasher keq els" "i < length els" "el_hashcode e \<noteq> HASH_EMPTY"
    "slot_ok hasher (els[i := e]) i"
    "\<And>j. j < length els \<Longrightarrow> j \<noteq> i \<Longrightarrow> occupied e \<Longrightarrow> occupied (els ! j) \<Longrightarrow>
       \<not> keq (el_key e) (el_key (els ! j)) \<and> \<not> keq (el_key (els ! j)) (el_key e)"
  shows "table_ok hasher keq (els[i := e])"
  unfolding table_ok_def
proof (intro conjI allI impI)
  show "length (els[i := e]) \<in> set PRIMES" using assms(1) by (simp add: table_ok_def)
next
  fix j assume "j < length (els[i := e])"
  then show "slot_ok hasher (els[i := e]) j"
    using assms(1,4) slot_ok_update [OF _ _ assms(2,3)] by (cases "j = i") (auto simp: table_ok_def)
next
  fix a b
  assume a: "a < length (els[i := e])" "b < length (els[i := e])"
    "a \<noteq> b \<and> occupied (els[i := e] ! a) \<and> occupied (els[i := e] ! b)"
  then show "\<not> keq (el_key (els[i := e] ! a)) (el_key (els[i := e] ! b))"
    using assms(5) table_ok_distinct [OF assms(1), of a b]
    by (cases "a = i"; cases "b = i") auto
qed

lemma table_ok_remove:
  "table_ok hasher keq els \<Longrightarrow> i < length els \<Longrightarrow>
     table_ok hasher keq (els[i := \<lparr>el_hashcode = HASH_DELETED, el_value = 0, el_key = 0\<rparr>])"
  by (rule table_ok_update) (auto simp: slot_ok_def occupied_def)

context hash_keys
begin

lemma found_other:
  assumes "table_ok hasher keq els" "found hasher keq els key i" "j < length els" "j \<noteq> i" "occupied (els ! j)"
  shows "\<not> keq key (el_key (els ! j))" "\<not> keq (el_key (els ! j)) key"
proof -
  show "\<not> keq key (el_key (els ! j))"
    using assms table_ok_distinct [OF assms(1), of i j] keq_right
    by (auto simp: found_def table_map_None split: if_splits)
  then show "\<not> keq (el_key (els ! j)) key" using keq_sym by blast
qed

lemma table_ok_insert:
  assumes "table_ok hasher keq els" "found hasher keq els key i"
  shows "table_ok hasher keq (els[i := \<lparr>el_hashcode = posmask (hasher key), el_value = v, el_key = key\<rparr>])"
  using assms found_other [OF assms]
  by (intro table_ok_update) (auto simp: found_def slot_ok_def occupied_def intro!: on_path_update)

lemma table_map_insert:
  assumes ok: "table_ok hasher keq els" and f: "found hasher keq els key i"
  shows "table_map keq (els[i := \<lparr>el_hashcode = posmask (hasher key), el_value = v, el_key = key\<rparr>])
           = (\<lambda>k. if keq k key then Some v else table_map keq els k)" (is "table_map keq ?els = _")
proof
  fix k
  have i: "i < length els" using f by (simp add: found_def)
  have ok': "table_ok hasher keq ?els" by (rule table_ok_insert [OF ok f])
  show "table_map keq ?els k = (if keq k key then Some v else table_map keq els k)"
  proof (cases "keq k key")
    case True
    then show ?thesis using table_map_Some [OF ok', of i k] i by (simp add: occupied_def)
  next
    case ne: False
    have no: "\<not> keq k (el_key (els ! i))" if "occupied (els ! i)"
      using f that ne keq_sym keq_trans unfolding found_def by metis
    show ?thesis
    proof (cases "table_map keq els k")
      case None
      then have "table_map keq ?els k = None"
        using i ne unfolding table_map_None by (auto simp: nth_list_update)
      with None ne show ?thesis by simp
    next
      case (Some w)
      then obtain j where j: "j < length els" "occupied (els ! j)" "keq k (el_key (els ! j))"
        by (metis option.distinct(1) table_map_None)
      with no have "j \<noteq> i" by blast
      with j ne show ?thesis
        using table_map_Some [OF ok j] table_map_Some [OF ok', of j k] by simp
    qed
  qed
qed

lemma table_map_remove:
  assumes ok: "table_ok hasher keq els" and f: "found hasher keq els key i" and o: "occupied (els ! i)"
  shows "table_map keq (els[i := \<lparr>el_hashcode = HASH_DELETED, el_value = 0, el_key = 0\<rparr>])
           = (\<lambda>k. if keq k key then None else table_map keq els k)" (is "table_map keq ?els = _")
proof
  fix k
  have i: "i < length els" using f by (simp add: found_def)
  have ok': "table_ok hasher keq ?els" by (rule table_ok_remove [OF ok i])
  have ki: "keq k (el_key (els ! i)) \<longleftrightarrow> keq k key"
    using f o keq_sym keq_trans unfolding found_def by metis
  show "table_map keq ?els k = (if keq k key then None else table_map keq els k)"
  proof (cases "table_map keq ?els k")
    case None
    then have "keq k key \<or> table_map keq els k = None"
      using ki unfolding table_map_None by (metis length_list_update nth_list_update_neq)
    with None show ?thesis by auto
  next
    case (Some w)
    then obtain j where j: "j < length els" "occupied (?els ! j)" "keq k (el_key (?els ! j))"
      by (metis length_list_update option.distinct(1) table_map_None)
    then have "j \<noteq> i" using i by (auto simp: occupied_def)
    with j have jk: "occupied (els ! j)" "keq k (el_key (els ! j))" by simp_all
    then have "\<not> keq k key"
      using found_other(2) [OF ok f j(1) \<open>j \<noteq> i\<close>] keq_sym keq_trans by metis
    with j \<open>j \<noteq> i\<close> show ?thesis
      using table_map_Some [OF ok, of j k] table_map_Some [OF ok', of j k] by simp
  qed
qed

end

section \<open>The invariant of a table\<close>

text \<open>\<open>uhash_valid\<close> is what every operation needs and keeps, whatever allocations fail;
  \<open>uhash_ok\<close> adds that the length is the one of the prime index and that the water marks are those
  of a resize policy, which a failed reallocation can break.\<close>

definition uhash_valid :: "UHashtable \<Rightarrow> bool" where
  "uhash_valid hash \<longleftrightarrow>
     hash_keys (uh_keyHasher hash) (uh_keyComparator hash)
     \<and> table_ok (uh_keyHasher hash) (uh_keyComparator hash) (uh_elements hash)
     \<and> uh_length hash = length (uh_elements hash)
     \<and> uh_count hash = occ (uh_elements hash) \<and> uh_count hash < uh_length hash"

definition policy_ratios :: "UHashResizePolicy \<Rightarrow> float32 \<times> float32" where
  "policy_ratios p = (RESIZE_POLICY_RATIO_TABLE ! (policy_index p * 2),
                      RESIZE_POLICY_RATIO_TABLE ! (policy_index p * 2 + 1))"

definition uhash_ok :: "UHashtable \<Rightarrow> bool" where
  "uhash_ok hash \<longleftrightarrow>
     uhash_valid hash
     \<and> uh_primeIndex hash < PRIMES_LENGTH \<and> uh_length hash = PRIMES ! uh_primeIndex hash
     \<and> (\<exists>p. (uh_lowWaterRatio hash, uh_highWaterRatio hash) = policy_ratios p)
     \<and> uh_lowWaterMark hash = float_mult_trunc (uh_length hash) (uh_lowWaterRatio hash)
     \<and> uh_highWaterMark hash = float_mult_trunc (uh_length hash) (uh_highWaterRatio hash)"

text \<open>The finite map a table stands for.\<close>

definition uhash_map :: "UHashtable \<Rightarrow> UHashTok \<Rightarrow> UHashTok option" where
  "uhash_map hash = table_map (uh_keyComparator hash) (uh_elements hash)"

lemma uhash_validD:
  assumes "uhash_valid hash"
  shows "hash_keys (uh_keyHasher hash) (uh_keyComparator hash)"
    and "table_ok (uh_keyHasher hash) (uh_keyComparator hash) (uh_elements hash)"
    and "uh_length hash = length (uh_elements hash)"
    and "uh_count hash = occ (uh_elements hash)"
    and "uh_count hash < uh_length hash"
    and "length (uh_elements hash) \<in> set PRIMES"
  using assms by (simp_all add: uhash_valid_def table_ok_def)

lemma uhash_ok_valid: "uhash_ok hash \<Longrightarrow> uhash_valid hash"
  by (simp add: uhash_ok_def)

lemma find_found:
  assumes v: "uhash_valid hash" and hc: "posmask hc = posmask (uh_keyHasher hash key)"
  obtains i where "priv_uhash_find hash key hc = Some i"
    "found (uh_keyHasher hash) (uh_keyComparator hash) (uh_elements hash) key i"
proof -
  note d = uhash_validD [OF v]
  let ?els = "uh_elements hash"
  have "probing (uh_keyComparator hash) ?els key (posmask hc) 0 0 (-1)"
    by (simp add: probing_def path_clear_def)
  then obtain i where i: "find_loop (uh_length hash - 0) hash key (posmask hc)
      (probe (uh_length hash) (posmask hc) 0) (probe (uh_length hash) (posmask hc) 0) 0 (-1) = Some i"
      "find_spec (uh_keyComparator hash) ?els key (posmask hc) i"
    using find_loop_correct [of hash "posmask hc" 0 key 0 "-1"] d table_ok_codes [OF d(2)]
      posmask_nonneg by (metis gr_zeroI not_less0)
  have "priv_uhash_find hash key hc = Some i"
    using i(1) by (simp add: priv_uhash_find_def Let_def probe_0 pstart_def)
  moreover have "found (uh_keyHasher hash) (uh_keyComparator hash) ?els key i"
    using i(2) hash_keys.find_spec_found [OF d(1,2)] hc by simp
  ultimately show ?thesis by (rule that)
qed

lemmas find_key = find_found [OF _ refl]

section \<open>Rehashing\<close>

lemma stored_insert_free:
  "i < length els \<Longrightarrow> \<not> occupied (els ! i) \<Longrightarrow> occupied e \<Longrightarrow>
     stored (els[i := e]) = add_mset e (stored els)"
  using stored_update [of i els e] by simp

lemma stored_drop_Suc:
  "i < length els \<Longrightarrow>
     stored (drop i els) = (if occupied (els ! i) then {#els ! i#} else {#}) + stored (drop (Suc i) els)"
  by (simp add: stored_def flip: Cons_nth_drop_Suc)

definition same_config :: "UHashtable \<Rightarrow> UHashtable \<Rightarrow> bool" where
  "same_config h h' \<longleftrightarrow>
     h' = h\<lparr>uh_elements := uh_elements h', uh_count := uh_count h'\<rparr>"

lemma same_config_refl [simp]: "same_config h h"
  by (simp add: same_config_def)

lemma same_config_trans: "same_config a b \<Longrightarrow> same_config b c \<Longrightarrow> same_config a c"
  by (cases a; cases b; cases c) (simp add: same_config_def)

lemma rehash_step:
  assumes v: "uhash_valid h" and old: "table_ok (uh_keyHasher h) (uh_keyComparator h) old"
    and i: "i < length old" "occupied (old ! i)" and st: "stored (uh_elements h) = stored (drop (Suc i) old)"
    and room: "Suc (uh_count h) < uh_length h"
  obtains e where "priv_uhash_find h (el_key (old ! i)) (el_hashcode (old ! i)) = Some e"
    "uhash_valid (h\<lparr>uh_elements := (uh_elements h)[e := old ! i], uh_count := uh_count h + 1\<rparr>)"
    "stored ((uh_elements h)[e := old ! i]) = stored (drop i old)"
proof -
  note d = uhash_validD [OF v]
  let ?k = "el_key (old ! i)"
  have hc: "el_hashcode (old ! i) = posmask (uh_keyHasher h ?k)" using table_okD(1) [OF old i] .
  obtain e where e: "priv_uhash_find h ?k (el_hashcode (old ! i)) = Some e"
    and f: "found (uh_keyHasher h) (uh_keyComparator h) (uh_elements h) ?k e"
    using find_found [OF v, of "el_hashcode (old ! i)" ?k] hc by auto
  have free: "\<not> occupied (uh_elements h ! e)"
  proof
    assume o: "occupied (uh_elements h ! e)"
    with f have "uh_elements h ! e \<in># stored (drop (Suc i) old)"
      by (auto simp: found_def in_stored simp flip: st)
    then obtain j where j: "j < length (drop (Suc i) old)" "uh_elements h ! e = old ! (Suc i + j)"
        "occupied (old ! (Suc i + j))"
      by (auto simp: in_stored)
    with f o have "uh_keyComparator h ?k (el_key (old ! (Suc i + j)))" by (simp add: found_def)
    moreover have "Suc i + j < length old" using j(1) by simp
    ultimately have "i = Suc i + j" using table_ok_distinct [OF old i] j(3) by blast
    then show False by simp
  qed
  have "old ! i = \<lparr>el_hashcode = posmask (uh_keyHasher h ?k), el_value = el_value (old ! i), el_key = ?k\<rparr>"
    using hc by simp
  then have ok: "table_ok (uh_keyHasher h) (uh_keyComparator h) ((uh_elements h)[e := old ! i])"
    using hash_keys.table_ok_insert [OF d(1,2) f, of "el_value (old ! i)"] by simp
  have e_less: "e < length (uh_elements h)" using f by (simp add: found_def)
  have st': "stored ((uh_elements h)[e := old ! i]) = add_mset (old ! i) (stored (uh_elements h))"
    by (rule stored_insert_free [OF e_less free i(2)])
  have "uhash_valid (h\<lparr>uh_elements := (uh_elements h)[e := old ! i], uh_count := uh_count h + 1\<rparr>)"
    using d ok st' room by (simp add: uhash_valid_def occ_stored)
  moreover have "stored ((uh_elements h)[e := old ! i]) = stored (drop i old)"
    using st' st i by (simp add: stored_drop_Suc)
  ultimately show ?thesis using e that by blast
qed

lemma occ_drop_le: "occ (drop i els) \<le> occ els"
  by (metis append_take_drop_id le_add2 occ_simps(3))

lemma element_eta:
  "\<lparr>el_hashcode = el_hashcode e, el_value = el_value e, el_key = el_key e\<rparr> = e"
  by simp

lemma rehash_loop_correct:
  assumes "uhash_valid h" "table_ok (uh_keyHasher h) (uh_keyComparator h) old" "n \<le> length old"
    "stored (uh_elements h) = stored (drop n old)" "occ old < uh_length h"
  shows "\<exists>h'. rehash_loop old n h = Some h' \<and> uhash_valid h' \<and> same_config h h'
           \<and> stored (uh_elements h') = stored old"
  using assms
proof (induction n arbitrary: h)
  case 0
  then show ?case by simp
next
  case (Suc i)
  let ?h = "\<lambda>e. h\<lparr>uh_elements := (uh_elements h)[e := old ! i], uh_count := uh_count h + 1\<rparr>"
  show ?case
  proof (cases "occupied (old ! i)")
    case True
    have "occ (drop i old) = Suc (occ (drop (Suc i) old))"
      using Suc.prems(3) True by (simp add: occ_stored stored_drop_Suc)
    then have "Suc (uh_count h) < uh_length h"
      using occ_drop_le [of i old] Suc.prems uhash_validD(4) [OF Suc.prems(1)]
      by (simp add: occ_stored)
    then obtain e where e: "priv_uhash_find h (el_key (old ! i)) (el_hashcode (old ! i)) = Some e"
        "uhash_valid (?h e)" "stored ((uh_elements h)[e := old ! i]) = stored (drop i old)"
      using rehash_step [OF Suc.prems(1,2) _ True Suc.prems(4)] Suc.prems(3) by auto
    have "\<exists>h'. rehash_loop old i (?h e) = Some h' \<and> uhash_valid h' \<and> same_config (?h e) h'
        \<and> stored (uh_elements h') = stored old"
      using Suc.prems e by (intro Suc.IH) simp_all
    then show ?thesis using e(1) True by (auto simp: occupied_def same_config_def element_eta)
  next
    case False
    then have "stored (uh_elements h) = stored (drop i old)"
      using Suc.prems(3,4) by (simp add: stored_drop_Suc)
    with Suc.IH [of h] Suc.prems False show ?thesis by (simp add: occupied_def)
  qed
qed

subsection \<open>Allocation\<close>

text \<open>The address space of the wasm32 target: no allocation gets more than 2 GB less a page. The
  byte counts of the last three table lengths wrap around to values above this limit.\<close>

definition heap_limit :: "(nat \<Rightarrow> bool) \<Rightarrow> bool" where
  "heap_limit malloc \<longleftrightarrow> (\<forall>n. malloc n \<longrightarrow> n \<le> 2147418112)"

lemma index_cases:
  assumes "p < PRIMES_LENGTH"
  shows "p \<le> 24 \<or> p = 25 \<or> p = 26 \<or> p = 27"
  using assms by linarith

lemma PRIMES_mono: "p < q \<Longrightarrow> q < PRIMES_LENGTH \<Longrightarrow> PRIMES ! p < PRIMES ! q"
proof -
  have "sorted_wrt (<) PRIMES" by (simp add: PRIMES_def)
  then show "p < q \<Longrightarrow> q < PRIMES_LENGTH \<Longrightarrow> PRIMES ! p < PRIMES ! q"
    by (rule sorted_wrt_nth_less) (simp_all add: PRIMES_def)
qed

lemma PRIMES_nth_mem: "p < PRIMES_LENGTH \<Longrightarrow> PRIMES ! p \<in> set PRIMES"
  by (rule nth_mem) (simp add: PRIMES_def)

lemma block_size:
  assumes "heap_limit malloc" "p < PRIMES_LENGTH" "malloc ((12 * PRIMES ! p) mod 2 ^ 32)"
  shows "(12 * PRIMES ! p) mod 2 ^ 32 div 12 = PRIMES ! p"
proof -
  have lim: "(12 * PRIMES ! p) mod 2 ^ 32 \<le> 2147418112" using assms(1,3) by (auto simp: heap_limit_def)
  have "12 * PRIMES ! p < 2 ^ 32"
  proof (cases "p \<le> 24")
    case True
    then have "PRIMES ! p \<le> PRIMES ! 24" using PRIMES_mono [of p 24] by (cases "p = 24") auto
    then show ?thesis by (simp add: PRIMES_def)
  next
    case False
    then have "p = 25 \<or> p = 26 \<or> p = 27" using assms(2) by linarith
    with lim show ?thesis by (auto simp: PRIMES_def)
  qed
  then show ?thesis by simp
qed

lemma round24_bounds: "round24 n \<le> 2 * n" "n \<le> 2 * round24 n"
proof -
  have "round24 n \<le> 2 * n \<and> n \<le> 2 * round24 n"
  proof (cases "n < 2 ^ 24")
    case True
    then show ?thesis by (simp add: round24_def Let_def)
  next
    case False
    define k where "k = bit_length n - 24"
    have "2 ^ k \<le> (2::nat) ^ (bit_length n - 1)" by (simp add: k_def)
    also have "\<dots> \<le> n" using bit_length_ge [of n] False by simp
    finally have kn: "2 ^ k \<le> n" .
    have le: "round24 n \<le> n div 2 ^ k * 2 ^ k + 2 ^ k" and ge: "n div 2 ^ k * 2 ^ k \<le> round24 n"
      using False by (simp_all add: round24_def Let_def flip: k_def)
    have "(1::nat) * 2 ^ k \<le> n div 2 ^ k * 2 ^ k" using kn by (intro mult_right_mono) (simp_all add: div_greater_zero_iff Suc_le_eq)
    moreover have "n div 2 ^ k * 2 ^ k + n mod 2 ^ k = n" "n mod 2 ^ k < 2 ^ k"
      by (rule div_mult_mod_eq) simp
    ultimately have "round24 n \<le> 2 * n" "n \<le> 2 * round24 n" using le ge by linarith+
    then show ?thesis by blast
  qed
  then show "round24 n \<le> 2 * n" "n \<le> 2 * round24 n" by blast+
qed

lemmas round24_le = round24_bounds(1)

text \<open>Shrinking leaves room: a table below its low-water mark fits the next smaller length.\<close>

lemma lowWaterMark_fits:
  assumes "0 < p" "p < PRIMES_LENGTH"
  shows "float_mult_trunc (PRIMES ! p) (fst (policy_ratios pol)) \<le> PRIMES ! (p - 1)"
proof -
  have fits: "PRIMES ! p * 53687092 div 2 ^ 27 \<le> PRIMES ! (p - 1)"
  proof -
    have "p - 1 \<in> set [0..<27]" using assms by auto
    moreover have "p = Suc (p - 1)" using assms(1) by simp
    moreover have "\<forall>i\<in>set [0..<27]. PRIMES ! Suc i * 53687092 div 2 ^ 27 \<le> PRIMES ! i"
      by (simp add: PRIMES_def upt_rec)
    ultimately show ?thesis by metis
  qed
  have "float_mult_trunc (PRIMES ! p) (13421773, 27) \<le> PRIMES ! p * 53687092 div 2 ^ 27"
    unfolding float_mult_trunc_def fst_conv snd_conv
    using round24_le [of "round24 (PRIMES ! p) * 13421773"] round24_le [of "PRIMES ! p"]
    by (intro div_le_mono) linarith
  with fits show ?thesis
    by (cases pol) (auto simp: policy_ratios_def RESIZE_POLICY_RATIO_TABLE_def float_mult_trunc_def
        round24_def)
qed

lemma allocate_fail:
  "\<not> U_FAILURE status \<Longrightarrow> \<not> malloc ((12 * PRIMES ! p) mod 2 ^ 32) \<Longrightarrow>
     priv_uhash_allocate malloc hash p status
       = (hash\<lparr>uh_primeIndex := p, uh_length := PRIMES ! p, uh_elements := []\<rparr>, U_MEMORY_ALLOCATION_ERROR)"
  by (simp add: priv_uhash_allocate_def Let_def)

definition allocated_table :: "UHashtable \<Rightarrow> nat \<Rightarrow> UHashtable" where
  "allocated_table hash p =
     hash\<lparr>uh_primeIndex := p, uh_length := PRIMES ! p,
          uh_elements := replicate (PRIMES ! p) emptyElement, uh_count := 0,
          uh_lowWaterMark := float_mult_trunc (PRIMES ! p) (uh_lowWaterRatio hash),
          uh_highWaterMark := float_mult_trunc (PRIMES ! p) (uh_highWaterRatio hash)\<rparr>"

lemma allocate_success:
  assumes "\<not> U_FAILURE status" "malloc ((12 * PRIMES ! p) mod 2 ^ 32)" "heap_limit malloc" "p < PRIMES_LENGTH"
  shows "priv_uhash_allocate malloc hash p status = (allocated_table hash p, status)"
  using assms(1,2) unfolding priv_uhash_allocate_def Let_def allocated_table_def block_size [OF assms(3,4,2)]
  by simp

lemma allocated_table_valid:
  assumes "hash_keys (uh_keyHasher hash) (uh_keyComparator hash)" "p < PRIMES_LENGTH"
  shows "uhash_valid (allocated_table hash p)"
  using assms PRIMES_nth_mem [OF assms(2)] PRIMES_gt_1 [of "PRIMES ! p"] table_ok_empty [of "PRIMES ! p"]
  by (simp add: uhash_valid_def allocated_table_def)

subsection \<open>Rehash\<close>

definition rehash_needed :: "UHashtable \<Rightarrow> bool" where
  "rehash_needed hash \<longleftrightarrow> uh_lowWaterMark hash > uh_count hash \<or> uh_count hash > uh_highWaterMark hash"

text \<open>The fields of a table that say how keys and values are treated.\<close>

definition same_callbacks :: "UHashtable \<Rightarrow> UHashtable \<Rightarrow> bool" where
  "same_callbacks h h' \<longleftrightarrow>
     uh_keyHasher h' = uh_keyHasher h \<and> uh_keyComparator h' = uh_keyComparator h
     \<and> uh_valueComparator h' = uh_valueComparator h
     \<and> uh_keyDeleter h' = uh_keyDeleter h \<and> uh_valueDeleter h' = uh_valueDeleter h
     \<and> uh_lowWaterRatio h' = uh_lowWaterRatio h \<and> uh_highWaterRatio h' = uh_highWaterRatio h
     \<and> uh_allocated h' = uh_allocated h"

lemma same_callbacks_refl [simp]: "same_callbacks h h"
  by (simp add: same_callbacks_def)

lemma same_callbacks_trans: "same_callbacks a b \<Longrightarrow> same_callbacks b c \<Longrightarrow> same_callbacks a c"
  by (simp add: same_callbacks_def)

lemma same_config_fields:
  assumes "same_config h h'"
  shows "same_callbacks h h'" "uh_deleted h' = uh_deleted h" "uh_length h' = uh_length h"
    "uh_primeIndex h' = uh_primeIndex h" "uh_lowWaterMark h' = uh_lowWaterMark h"
    "uh_highWaterMark h' = uh_highWaterMark h"
proof -
  have "h' = h\<lparr>uh_elements := uh_elements h', uh_count := uh_count h'\<rparr>"
    using assms by (simp only: same_config_def)
  then obtain els c where "h' = h\<lparr>uh_elements := els, uh_count := c\<rparr>" by blast
  then show "same_callbacks h h'" "uh_deleted h' = uh_deleted h" "uh_length h' = uh_length h"
    "uh_primeIndex h' = uh_primeIndex h" "uh_lowWaterMark h' = uh_lowWaterMark h"
    "uh_highWaterMark h' = uh_highWaterMark h"
    by (simp_all add: same_callbacks_def)
qed

text \<open>A move into a table of another length keeps the stored elements.\<close>

lemma rehash_move:
  assumes ok: "uhash_ok h" and p: "p < PRIMES_LENGTH" and room: "occ (uh_elements h) < PRIMES ! p"
  shows "\<exists>h'. rehash_loop (uh_elements h) (uh_length h) (allocated_table h p) = Some h' \<and> uhash_ok h'
           \<and> stored (uh_elements h') = stored (uh_elements h) \<and> same_callbacks h h'
           \<and> uh_deleted h' = uh_deleted h \<and> uh_length h' = PRIMES ! p"
proof -
  let ?a = "allocated_table h p"
  note v = uhash_ok_valid [OF ok] note d = uhash_validD [OF v]
  have a: "uh_keyHasher ?a = uh_keyHasher h" "uh_keyComparator ?a = uh_keyComparator h"
    "uh_length ?a = PRIMES ! p" "same_callbacks h ?a" "uh_deleted ?a = uh_deleted h"
    "stored (uh_elements ?a) = {#}"
    by (simp_all add: allocated_table_def same_callbacks_def)
  obtain h' where h': "rehash_loop (uh_elements h) (uh_length h) ?a = Some h'" "uhash_valid h'"
      "same_config ?a h'" "stored (uh_elements h') = stored (uh_elements h)"
    using rehash_loop_correct [OF allocated_table_valid [OF d(1) p], of "uh_elements h" "uh_length h"]
      d(2,3) a room by (auto simp: stored_def)
  note f = same_config_fields [OF h'(3)]
  have "uhash_ok h'"
    using h'(2) ok p f by (auto simp: uhash_ok_def allocated_table_def same_callbacks_def)
  with h' f a show ?thesis using same_callbacks_trans by auto
qed

lemma rehash_room:
  assumes ok: "uhash_ok h" and "uh_count h > uh_highWaterMark h" "Suc (uh_primeIndex h) < PRIMES_LENGTH"
  shows "occ (uh_elements h) < PRIMES ! Suc (uh_primeIndex h)"
proof -
  have "uh_length h < PRIMES ! Suc (uh_primeIndex h)"
    using assms PRIMES_mono [of "uh_primeIndex h" "Suc (uh_primeIndex h)"] by (simp add: uhash_ok_def)
  then show ?thesis using uhash_validD(4,5) [OF uhash_ok_valid [OF ok]] by linarith
qed

lemma rehash_room_shrink:
  assumes ok: "uhash_ok h" and "uh_count h < uh_lowWaterMark h" "0 < uh_primeIndex h"
  shows "occ (uh_elements h) < PRIMES ! (uh_primeIndex h - 1)"
proof -
  obtain pol where "uh_lowWaterRatio h = fst (policy_ratios pol)"
    using ok unfolding uhash_ok_def by (metis fst_conv)
  then have "uh_lowWaterMark h \<le> PRIMES ! (uh_primeIndex h - 1)"
    using ok lowWaterMark_fits [OF assms(3), of pol] by (simp add: uhash_ok_def)
  then show ?thesis using assms(2) uhash_validD(4) [OF uhash_ok_valid [OF ok]] by linarith
qed

definition rehash_result :: "UHashtable \<Rightarrow> UErrorCode \<Rightarrow> UHashtable \<times> UErrorCode \<Rightarrow> bool" where
  "rehash_result h status r \<longleftrightarrow>
     (case r of (h', status') \<Rightarrow>
        uhash_valid h' \<and> stored (uh_elements h') = stored (uh_elements h)
        \<and> same_callbacks h h' \<and> uh_deleted h' = uh_deleted h
        \<and> (status' = status \<and> uhash_ok h'
           \<or> status' = U_MEMORY_ALLOCATION_ERROR \<and> uh_elements h' = uh_elements h))"

lemma resize_correct:
  assumes ok: "uhash_ok h" and st: "\<not> U_FAILURE status" and lim: "heap_limit malloc"
    and p: "p < PRIMES_LENGTH" "occ (uh_elements h) < PRIMES ! p"
    and ex: "priv_uhash_rehash malloc h status =
       (let (hash1, status1) = priv_uhash_allocate malloc h p status
        in if U_FAILURE status1
           then Some (hash1\<lparr>uh_elements := uh_elements h, uh_length := uh_length h\<rparr>, status1)
           else map_option (\<lambda>h. (h, status1)) (rehash_loop (uh_elements h) (uh_length h) hash1))"
  shows "\<exists>h' status'. priv_uhash_rehash malloc h status = Some (h', status')
           \<and> rehash_result h status (h', status')
           \<and> (malloc ((12 * PRIMES ! p) mod 2 ^ 32) \<longrightarrow> status' = status \<and> uh_length h' = PRIMES ! p)"
proof (cases "malloc ((12 * PRIMES ! p) mod 2 ^ 32)")
  case True
  obtain h' where "rehash_loop (uh_elements h) (uh_length h) (allocated_table h p) = Some h'"
      "uhash_ok h'" "stored (uh_elements h') = stored (uh_elements h)" "same_callbacks h h'"
      "uh_deleted h' = uh_deleted h" "uh_length h' = PRIMES ! p"
    using rehash_move [OF ok p] by blast
  then show ?thesis
    unfolding ex allocate_success [OF st True lim p(1)] rehash_result_def
    using st by (simp add: uhash_ok_valid)
next
  case False
  have "U_FAILURE U_MEMORY_ALLOCATION_ERROR" by (simp add: U_FAILURE_def)
  with False ok show ?thesis
    unfolding ex allocate_fail [where malloc = malloc and p = p, OF st False] rehash_result_def
    by (simp add: uhash_ok_def uhash_valid_def same_callbacks_def)
qed

lemma rehash_correct:
  assumes ok: "uhash_ok h" and st: "\<not> U_FAILURE status" and lim: "heap_limit malloc"
  shows "\<exists>h' status'. priv_uhash_rehash malloc h status = Some (h', status')
           \<and> rehash_result h status (h', status')
           \<and> (uh_count h > uh_highWaterMark h
                \<and> (Suc (uh_primeIndex h) < PRIMES_LENGTH
                     \<longrightarrow> malloc ((12 * PRIMES ! Suc (uh_primeIndex h)) mod 2 ^ 32))
              \<longrightarrow> status' = status \<and> uh_length h \<le> uh_length h')
           \<and> (\<not> uh_count h > uh_highWaterMark h
                \<and> (0 < uh_primeIndex h \<longrightarrow> malloc ((12 * PRIMES ! (uh_primeIndex h - 1)) mod 2 ^ 32))
              \<longrightarrow> status' = status)"
proof -
  have idle: ?thesis if "priv_uhash_rehash malloc h status = Some (h, status)"
    using that ok by (auto simp: rehash_result_def uhash_ok_valid)
  have len: "uh_length h = PRIMES ! uh_primeIndex h" "uh_primeIndex h < PRIMES_LENGTH"
    using ok by (simp_all add: uhash_ok_def)
  consider "\<not> rehash_needed h"
    | "uh_count h > uh_highWaterMark h" "Suc (uh_primeIndex h) < PRIMES_LENGTH"
    | "uh_count h > uh_highWaterMark h" "\<not> Suc (uh_primeIndex h) < PRIMES_LENGTH"
    | "\<not> uh_count h > uh_highWaterMark h" "uh_count h < uh_lowWaterMark h" "0 < uh_primeIndex h"
    | "\<not> uh_count h > uh_highWaterMark h" "uh_count h < uh_lowWaterMark h" "uh_primeIndex h = 0"
    unfolding rehash_needed_def by linarith
  then show ?thesis
  proof cases
    case 1
    then show ?thesis by (intro idle) (auto simp: priv_uhash_rehash_def rehash_needed_def Let_def)
  next
    case 2
    have p: "nat (int (uh_primeIndex h) + 1) = Suc (uh_primeIndex h)" by simp
    have "uh_length h \<le> PRIMES ! Suc (uh_primeIndex h)"
      using PRIMES_mono [of "uh_primeIndex h" "Suc (uh_primeIndex h)"] 2 len by simp
    moreover have "\<exists>h' status'. priv_uhash_rehash malloc h status = Some (h', status')
           \<and> rehash_result h status (h', status')
           \<and> (malloc ((12 * PRIMES ! Suc (uh_primeIndex h)) mod 2 ^ 32) \<longrightarrow>
                status' = status \<and> uh_length h' = PRIMES ! Suc (uh_primeIndex h))"
      using 2 rehash_room [OF ok 2] p
      by (intro resize_correct [OF ok st lim]) (auto simp: priv_uhash_rehash_def Let_def)
    ultimately show ?thesis using 2 by force
  next
    case 3
    then show ?thesis by (intro idle) (auto simp: priv_uhash_rehash_def Let_def)
  next
    case 4
    have p: "nat (int (uh_primeIndex h) - 1) = uh_primeIndex h - 1" using 4 by simp
    have "\<exists>h' status'. priv_uhash_rehash malloc h status = Some (h', status')
           \<and> rehash_result h status (h', status')
           \<and> (malloc ((12 * PRIMES ! (uh_primeIndex h - 1)) mod 2 ^ 32) \<longrightarrow>
                status' = status \<and> uh_length h' = PRIMES ! (uh_primeIndex h - 1))"
      using 4 rehash_room_shrink [OF ok 4(2,3)] p len(2)
      by (intro resize_correct [OF ok st lim]) (auto simp: priv_uhash_rehash_def Let_def)
    then show ?thesis using 4(1,3) by blast
  next
    case 5
    then show ?thesis by (intro idle) (auto simp: priv_uhash_rehash_def Let_def)
  qed
qed

section \<open>Get, put, remove\<close>

lemma elements_nth_free:
  "uhash_valid h \<Longrightarrow> i < length (uh_elements h) \<Longrightarrow> \<not> occupied (uh_elements h ! i) \<Longrightarrow>
     el_value (uh_elements h ! i) = 0 \<and> el_key (uh_elements h ! i) = 0"
  by (auto simp: uhash_valid_def table_ok_def slot_ok_def split: if_splits)

lemma found_value:
  assumes "uhash_valid h" "found (uh_keyHasher h) (uh_keyComparator h) (uh_elements h) key i"
  shows "el_value (uh_elements h ! i) = (case uhash_map h key of None \<Rightarrow> 0 | Some v \<Rightarrow> v)"
  using assms elements_nth_free [OF assms(1), of i]
  by (auto simp: found_def uhash_map_def split: if_splits)

lemma get_correct:
  "uhash_valid h \<Longrightarrow> uhash_get h key = Some (case uhash_map h key of None \<Rightarrow> 0 | Some v \<Rightarrow> v)"
proof -
  assume v: "uhash_valid h"
  obtain i where "priv_uhash_find h key (uh_keyHasher h key) = Some i"
    "found (uh_keyHasher h) (uh_keyComparator h) (uh_elements h) key i"
    by (rule find_key [OF v])
  then show ?thesis using found_value [OF v] by (simp add: uhash_get_def)
qed

lemma uhash_map_stored:
  assumes "uhash_valid h" "uhash_valid h'" "stored (uh_elements h') = stored (uh_elements h)"
    "same_callbacks h h'"
  shows "uhash_map h' = uhash_map h"
proof -
  have c: "uh_keyHasher h' = uh_keyHasher h" "uh_keyComparator h' = uh_keyComparator h"
    using assms(4) by (simp_all add: same_callbacks_def)
  show ?thesis
    unfolding uhash_map_def c
    by (rule hash_keys.table_map_cong [OF uhash_validD(1,2) [OF assms(1)]
          uhash_validD(2) [OF assms(2), unfolded c], symmetric]) (rule assms(3) [symmetric])
qed

text \<open>What \<open>put\<close> does when it does not fail, and what it does when it does.\<close>

definition put_result ::
    "UHashtable \<Rightarrow> UHashTok \<Rightarrow> UHashTok \<Rightarrow> UErrorCode \<Rightarrow> UHashtable \<times> UHashTok \<times> UErrorCode \<Rightarrow> bool" where
  "put_result h key val status r \<longleftrightarrow>
     (case r of (h', old, status') \<Rightarrow>
        same_callbacks h h' \<and>
        (status' = status \<and> uhash_ok h'
           \<and> uhash_map h' = (\<lambda>k. if uh_keyComparator h k key then Some val else uhash_map h k)
           \<and> old = (if uh_valueDeleter h \<noteq> None then 0
                    else case uhash_map h key of None \<Rightarrow> 0 | Some v \<Rightarrow> v)
         \<or> status' = U_MEMORY_ALLOCATION_ERROR \<and> uhash_valid h'
           \<and> stored (uh_elements h') = stored (uh_elements h) \<and> old = 0))"

lemma HASH_DELETE_fields [simp]:
  "uhash_valid (HASH_DELETE_KEY_VALUE h k v) = uhash_valid h"
  "uhash_ok (HASH_DELETE_KEY_VALUE h k v) = uhash_ok h"
  "uh_elements (HASH_DELETE_KEY_VALUE h k v) = uh_elements h"
  "same_callbacks g (HASH_DELETE_KEY_VALUE h k v) = same_callbacks g h"
  "uhash_map (HASH_DELETE_KEY_VALUE h k v) = uhash_map h"
  by (simp_all add: HASH_DELETE_KEY_VALUE_def uhash_ok_def uhash_valid_def same_callbacks_def uhash_map_def)

text \<open>Storing an element in the slot found for its key.\<close>

lemma setElement_valid:
  assumes v: "uhash_valid h" and f: "found (uh_keyHasher h) (uh_keyComparator h) (uh_elements h) key i"
    and room: "\<not> occupied (uh_elements h ! i) \<longrightarrow> uh_count h + 1 \<noteq> uh_length h"
    and h2: "h2 = (if occupied (uh_elements h ! i) then h else h\<lparr>uh_count := uh_count h + 1\<rparr>)"
    and h3: "h3 = fst (priv_uhash_setElement h2 i (posmask (uh_keyHasher h key)) key val hint)"
  shows "uhash_valid h3"
    and "uhash_map h3 = (\<lambda>k. if uh_keyComparator h k key then Some val else uhash_map h k)"
proof -
  let ?e = "\<lparr>el_hashcode = posmask (uh_keyHasher h key), el_value = val, el_key = key\<rparr>"
  note d = uhash_validD [OF v]
  have i: "i < length (uh_elements h)" using f by (simp add: found_def)
  have els: "uh_elements h3 = (uh_elements h)[i := ?e]" by (simp add: h3 h2)
  have "occ ((uh_elements h)[i := ?e]) + of_bool (occupied (uh_elements h ! i)) = occ (uh_elements h) + 1"
    using occ_update [OF i, of ?e] by (simp add: occupied_def)
  then have "uh_count h3 = occ (uh_elements h3)" "uh_count h3 < uh_length h3"
    using d room els by (auto simp: h3 h2)
  moreover have "table_ok (uh_keyHasher h) (uh_keyComparator h) (uh_elements h3)"
    unfolding els by (rule hash_keys.table_ok_insert [OF d(1,2) f])
  ultimately show "uhash_valid h3" using d els by (simp add: uhash_valid_def h3 h2)
  show "uhash_map h3 = (\<lambda>k. if uh_keyComparator h k key then Some val else uhash_map h k)"
    using hash_keys.table_map_insert [OF d(1,2) f] els unfolding uhash_map_def by (simp add: h3 h2)
qed

lemma setElement_snd [simp]:
  "snd (priv_uhash_setElement h i hc k v hint)
     = (if uh_valueDeleter h \<noteq> None then 0 else el_value (uh_elements h ! i))"
  by (simp add: priv_uhash_setElement_def Let_def)

lemma setElement_config [simp]:
  "same_callbacks g (fst (priv_uhash_setElement h i hc k v hint)) = same_callbacks g h"
  "uh_valueComparator (fst (priv_uhash_setElement h i hc k v hint)) = uh_valueComparator h"
  "uh_allocated (fst (priv_uhash_setElement h i hc k v hint)) = uh_allocated h"
  "uh_primeIndex (fst (priv_uhash_setElement h i hc k v hint)) = uh_primeIndex h"
  "uh_lowWaterMark (fst (priv_uhash_setElement h i hc k v hint)) = uh_lowWaterMark h"
  "uh_highWaterMark (fst (priv_uhash_setElement h i hc k v hint)) = uh_highWaterMark h"
  "uh_lowWaterRatio (fst (priv_uhash_setElement h i hc k v hint)) = uh_lowWaterRatio h"
  "uh_highWaterRatio (fst (priv_uhash_setElement h i hc k v hint)) = uh_highWaterRatio h"
  by (simp_all add: priv_uhash_setElement_def Let_def same_callbacks_def)

text \<open>The part of \<open>_uhash_put\<close> after the table may have grown.\<close>

definition put_store ::
    "UHashtable \<Rightarrow> UHashTok \<Rightarrow> UHashTok \<Rightarrow> 8 word \<Rightarrow> UErrorCode \<Rightarrow> (UHashtable \<times> UHashTok \<times> UErrorCode) option" where
  "put_store h key val hint status =
     (case priv_uhash_find h key (uh_keyHasher h key) of
        None \<Rightarrow> None
      | Some e \<Rightarrow>
          if \<not> occupied (uh_elements h ! e) \<and> uh_count h + 1 = uh_length h
          then Some (HASH_DELETE_KEY_VALUE h key val, 0, U_MEMORY_ALLOCATION_ERROR)
          else
            let h2 = (if occupied (uh_elements h ! e) then h else h\<lparr>uh_count := uh_count h + 1\<rparr>);
                s = priv_uhash_setElement h2 e (posmask (uh_keyHasher h key)) key val hint
            in Some (fst s, snd s, status))"

lemma put_unfold:
  assumes "\<not> U_FAILURE status" "hint AND HINT_VALUE_POINTER = 0 \<or> val \<noteq> 0"
  shows "priv_uhash_put malloc h key val hint status =
     (case (if uh_count h > uh_highWaterMark h then priv_uhash_rehash malloc h status
            else Some (h, status)) of
        None \<Rightarrow> None
      | Some (h1, status1) \<Rightarrow>
          if U_FAILURE status1 then Some (HASH_DELETE_KEY_VALUE h1 key val, 0, status1)
          else put_store h1 key val hint status1)"
  using assms unfolding priv_uhash_put_def put_store_def occupied_def
  by (auto simp: Let_def split_def split: option.splits)

lemma put_store_correct:
  assumes ok: "uhash_ok h"
  shows "\<exists>r. put_store h key val hint status = Some r \<and> put_result h key val status r
           \<and> (uh_count h + 1 \<noteq> uh_length h \<longrightarrow> snd (snd r) = status)"
proof -
  note v = uhash_ok_valid [OF ok]
  obtain i where i: "priv_uhash_find h key (uh_keyHasher h key) = Some i"
    and f: "found (uh_keyHasher h) (uh_keyComparator h) (uh_elements h) key i"
    by (rule find_key [OF v])
  show ?thesis
  proof (cases "\<not> occupied (uh_elements h ! i) \<and> uh_count h + 1 = uh_length h")
    case True
    then show ?thesis using i v by (auto simp: put_store_def put_result_def)
  next
    case False
    define h2 where "h2 = (if occupied (uh_elements h ! i) then h else h\<lparr>uh_count := uh_count h + 1\<rparr>)"
    define s where "s = priv_uhash_setElement h2 i (posmask (uh_keyHasher h key)) key val hint"
    have eq: "put_store h key val hint status = Some (fst s, snd s, status)"
      unfolding put_store_def i option.case if_not_P [OF False] by (simp add: s_def h2_def Let_def)
    have "uhash_valid (fst s)"
      and m: "uhash_map (fst s) = (\<lambda>k. if uh_keyComparator h k key then Some val else uhash_map h k)"
      using setElement_valid [OF v f _ h2_def, of "fst s" val hint] False
      unfolding s_def by blast+
    then have ok': "uhash_ok (fst s)" using ok by (simp add: uhash_ok_def s_def h2_def)
    have "same_callbacks h (fst s)" by (simp add: s_def h2_def same_callbacks_def)
    moreover have "snd s = (if uh_valueDeleter h \<noteq> None then 0
         else case uhash_map h key of None \<Rightarrow> 0 | Some v \<Rightarrow> v)"
      using found_value [OF v f] by (auto simp: s_def h2_def)
    ultimately show ?thesis unfolding eq using m ok' by (simp add: put_result_def)
  qed
qed

lemma rehash_result_fields:
  assumes "rehash_result h status (h', status')"
  shows "uhash_valid h'" "stored (uh_elements h') = stored (uh_elements h)" "same_callbacks h h'"
    "uh_deleted h' = uh_deleted h" "uh_count h' = uh_count h \<or> uh_count h \<noteq> occ (uh_elements h)"
    "status' = status \<and> uhash_ok h' \<or> status' = U_MEMORY_ALLOCATION_ERROR"
  using assms uhash_validD(4) [of h'] by (auto simp: rehash_result_def occ_stored)

lemma put_result_rehash:
  assumes v: "uhash_valid h" and r: "rehash_result h status (h1, status)" and p: "put_result h1 key val status r"
  shows "put_result h key val status r"
proof -
  note f = rehash_result_fields [OF r]
  have m: "uhash_map h1 = uhash_map h" using uhash_map_stored [OF v f(1,2,3)] .
  have c: "uh_keyComparator h1 = uh_keyComparator h" "uh_valueDeleter h1 = uh_valueDeleter h"
    using f(3) by (simp_all add: same_callbacks_def)
  obtain h' old st' where rr: "r = (h', old, st')" by (cases r)
  show ?thesis
    using p same_callbacks_trans [OF f(3), of h'] unfolding rr put_result_def prod.case m c f(2) by blast
qed

definition growth_granted :: "(nat \<Rightarrow> bool) \<Rightarrow> UHashtable \<Rightarrow> bool" where
  "growth_granted malloc h \<longleftrightarrow>
     (uh_count h > uh_highWaterMark h \<and> Suc (uh_primeIndex h) < PRIMES_LENGTH
        \<longrightarrow> malloc ((12 * PRIMES ! Suc (uh_primeIndex h)) mod 2 ^ 32))"

lemma put_correct:
  assumes ok: "uhash_ok h" and st: "\<not> U_FAILURE status" and lim: "heap_limit malloc"
    and val: "hint AND HINT_VALUE_POINTER = 0 \<or> val \<noteq> 0"
  shows "\<exists>r. priv_uhash_put malloc h key val hint status = Some r \<and> put_result h key val status r
           \<and> (growth_granted malloc h \<and> uh_count h + 1 \<noteq> uh_length h \<longrightarrow> snd (snd r) = status)"
proof (cases "uh_count h > uh_highWaterMark h")
  case False
  obtain r where "put_store h key val hint status = Some r" "put_result h key val status r"
      "uh_count h + 1 \<noteq> uh_length h \<longrightarrow> snd (snd r) = status"
    using put_store_correct [OF ok] by blast
  then show ?thesis using False st by (simp add: put_unfold [OF st val])
next
  case True
  note v = uhash_ok_valid [OF ok]
  obtain h1 status1 where h1: "priv_uhash_rehash malloc h status = Some (h1, status1)"
      "rehash_result h status (h1, status1)"
      "growth_granted malloc h \<longrightarrow> status1 = status \<and> uh_length h \<le> uh_length h1"
    using rehash_correct [OF ok st lim] True by (auto simp: growth_granted_def)
  note f = rehash_result_fields [OF h1(2)]
  have cnt: "uh_count h1 = uh_count h" using f(5) uhash_validD(4) [OF v] by blast
  show ?thesis
  proof (cases "U_FAILURE status1")
    case True
    with f(6) st have "status1 = U_MEMORY_ALLOCATION_ERROR" by auto
    moreover have "\<not> growth_granted malloc h" using True st h1(3) by auto
    ultimately show ?thesis using True h1(1) f \<open>uh_count h > uh_highWaterMark h\<close>
      by (simp add: put_unfold [OF st val] put_result_def)
  next
    case False
    then have s1: "status1 = status" "uhash_ok h1" using f(6) by (auto simp: U_FAILURE_def)
    obtain r where r: "put_store h1 key val hint status = Some r" "put_result h1 key val status r"
        "uh_count h1 + 1 \<noteq> uh_length h1 \<longrightarrow> snd (snd r) = status"
      using put_store_correct [OF s1(2)] by blast
    have "growth_granted malloc h \<and> uh_count h + 1 \<noteq> uh_length h \<longrightarrow> uh_count h1 + 1 \<noteq> uh_length h1"
      using h1(3) cnt uhash_validD(5) [OF v] by auto
    then show ?thesis using r put_result_rehash [OF v] h1 s1 st \<open>uh_count h > uh_highWaterMark h\<close>
      by (simp add: put_unfold [OF st val])
  qed
qed

lemma internalRemove_valid:
  assumes v: "uhash_valid h" and i: "i < length (uh_elements h)" "occupied (uh_elements h ! i)"
    and h1: "h1 = fst (priv_uhash_internalRemoveElement h i)"
  shows "uhash_valid h1" "same_callbacks h h1"
    "uh_elements h1 = (uh_elements h)[i := \<lparr>el_hashcode = HASH_DELETED, el_value = 0, el_key = 0\<rparr>]"
    "stored (uh_elements h1) + {#uh_elements h ! i#} = stored (uh_elements h)"
proof -
  let ?e = "\<lparr>el_hashcode = HASH_DELETED, el_value = 0, el_key = 0\<rparr>"
  note d = uhash_validD [OF v]
  show els: "uh_elements h1 = (uh_elements h)[i := ?e]"
    by (simp add: h1 priv_uhash_internalRemoveElement_def)
  have ne: "\<not> occupied ?e" by (simp add: occupied_def)
  show st: "stored (uh_elements h1) + {#uh_elements h ! i#} = stored (uh_elements h)"
    using stored_update [OF i(1), of ?e] i(2) ne els by simp
  have "Suc (occ (uh_elements h1)) = occ (uh_elements h)"
    by (simp add: occ_stored flip: st)
  then show "uhash_valid h1"
    using d table_ok_remove [OF d(2) i(1)] els
    by (auto simp: uhash_valid_def h1 priv_uhash_internalRemoveElement_def)
  show "same_callbacks h h1" by (simp add: h1 priv_uhash_internalRemoveElement_def same_callbacks_def)
qed

lemma internalRemove_ok:
  "uhash_ok h \<Longrightarrow> i < length (uh_elements h) \<Longrightarrow> occupied (uh_elements h ! i) \<Longrightarrow>
     uhash_ok (fst (priv_uhash_internalRemoveElement h i))"
  using internalRemove_valid(1) [OF uhash_ok_valid _ _ refl, of h i]
  by (simp add: uhash_ok_def) (simp add: priv_uhash_internalRemoveElement_def)

definition shrink_granted :: "(nat \<Rightarrow> bool) \<Rightarrow> UHashtable \<Rightarrow> bool" where
  "shrink_granted malloc h \<longleftrightarrow>
     (0 < uh_lowWaterMark h \<and> 0 < uh_primeIndex h
        \<longrightarrow> malloc ((12 * PRIMES ! (uh_primeIndex h - 1)) mod 2 ^ 32))"

lemma lowWaterMark_le_highWaterMark: "uhash_ok h \<Longrightarrow> uh_lowWaterMark h \<le> uh_highWaterMark h"
proof -
  assume ok: "uhash_ok h"
  obtain pol where pol: "uh_lowWaterRatio h = fst (policy_ratios pol)" "uh_highWaterRatio h = snd (policy_ratios pol)"
    using ok unfolding uhash_ok_def by (metis fst_conv snd_conv)
  let ?m = "round24 (uh_length h)"
  have "float_mult_trunc (uh_length h) (13421773, 27) \<le> float_mult_trunc (uh_length h) (1, 1)"
  proof -
    have "round24 (?m * 13421773) \<le> round24 ?m * 67108864"
      using round24_bounds(1) [of "?m * 13421773"] round24_bounds(2) [of ?m] by linarith
    then have "round24 (?m * 13421773) div 2 ^ 27 \<le> round24 ?m * 67108864 div 2 ^ 27" by (rule div_le_mono)
    also have "\<dots> = round24 ?m div 2" by (simp add: div_mult2_eq [of _ 67108864 2, simplified, symmetric])
    finally show ?thesis by (simp add: float_mult_trunc_def)
  qed
  then show ?thesis using ok pol
    by (cases pol) (auto simp: uhash_ok_def policy_ratios_def RESIZE_POLICY_RATIO_TABLE_def
        float_mult_trunc_def round24_def)
qed

lemma remove_correct:
  assumes ok: "uhash_ok h" and lim: "heap_limit malloc"
  shows "\<exists>h'. priv_uhash_remove malloc h key
            = Some (h', if uh_valueDeleter h \<noteq> None then 0
                        else case uhash_map h key of None \<Rightarrow> 0 | Some v \<Rightarrow> v)
           \<and> uhash_valid h' \<and> same_callbacks h h'
           \<and> uhash_map h' = (\<lambda>k. if uh_keyComparator h k key then None else uhash_map h k)
           \<and> (shrink_granted malloc h \<longrightarrow> uhash_ok h')"
proof -
  note v = uhash_ok_valid [OF ok] note d = uhash_validD [OF v]
  obtain i where i: "priv_uhash_find h key (uh_keyHasher h key) = Some i"
    and f: "found (uh_keyHasher h) (uh_keyComparator h) (uh_elements h) key i"
    by (rule find_key [OF v])
  have il: "i < length (uh_elements h)" using f by (simp add: found_def)
  show ?thesis
  proof (cases "occupied (uh_elements h ! i)")
    case False
    then have "uhash_map h key = None" using f by (simp add: found_def uhash_map_def)
    moreover from this have "uhash_map h k = None" if "uh_keyComparator h k key" for k
      using that hash_keys.keq_trans [OF d(1)] hash_keys.keq_sym [OF d(1)]
      unfolding uhash_map_def hash_keys.table_map_None [OF d(1)] by blast
    ultimately show ?thesis using False i v ok
      by (auto simp: priv_uhash_remove_def occupied_def)
  next
    case True
    define s where "s = priv_uhash_internalRemoveElement h i"
    note r = internalRemove_valid [OF v il True, of "fst s", unfolded s_def, OF refl, folded s_def]
    have ok1: "uhash_ok (fst s)" using internalRemove_ok [OF ok il True] by (simp add: s_def)
    have m: "uhash_map (fst s) = (\<lambda>k. if uh_keyComparator h k key then None else uhash_map h k)"
      using hash_keys.table_map_remove [OF d(1,2) f True] r(2,3)
      unfolding uhash_map_def by (simp add: same_callbacks_def)
    have res: "snd s = (if uh_valueDeleter h \<noteq> None then 0
         else case uhash_map h key of None \<Rightarrow> 0 | Some v \<Rightarrow> v)"
      using found_value [OF v f] by (simp add: s_def priv_uhash_internalRemoveElement_def)
    have marks: "uh_lowWaterMark (fst s) = uh_lowWaterMark h" "uh_primeIndex (fst s) = uh_primeIndex h"
      by (simp_all add: s_def priv_uhash_internalRemoveElement_def)
    obtain h2 st2 where h2: "priv_uhash_rehash malloc (fst s) U_ZERO_ERROR = Some (h2, st2)"
        "rehash_result (fst s) U_ZERO_ERROR (h2, st2)"
        "\<not> uh_count (fst s) > uh_highWaterMark (fst s)
           \<and> (0 < uh_primeIndex h \<longrightarrow> malloc ((12 * PRIMES ! (uh_primeIndex h - 1)) mod 2 ^ 32))
           \<longrightarrow> st2 = U_ZERO_ERROR"
      using rehash_correct [OF ok1 _ lim, of U_ZERO_ERROR] unfolding marks by (auto simp: U_FAILURE_def)
    note f2 = rehash_result_fields [OF h2(2)]
    have m2: "uhash_map h2 = uhash_map (fst s)" using uhash_map_stored [OF r(1) f2(1,2,3)] .
    have eq: "priv_uhash_remove malloc h key =
        (if uh_count (fst s) < uh_lowWaterMark (fst s) then Some (h2, snd s) else Some (fst s, snd s))"
      using i True h2(1)
      by (auto simp: priv_uhash_remove_def occupied_def s_def Let_def split_def)
    have "uhash_ok h2" if "uh_count (fst s) < uh_lowWaterMark (fst s)" "shrink_granted malloc h"
    proof -
      have "st2 = U_ZERO_ERROR"
        using that h2(3) lowWaterMark_le_highWaterMark [OF ok1] marks by (auto simp: shrink_granted_def)
      with f2(6) show ?thesis by simp
    qed
    then show ?thesis
      unfolding eq res [symmetric]
      using m m2 f2(1) r(1,2) ok1 same_callbacks_trans [OF r(2) f2(3)]
      by (intro exI [of _ "if uh_count (fst s) < uh_lowWaterMark (fst s) then h2 else fst s"]) auto
  qed
qed

end
