(* ===== verification/UHashProps.thy ===== *)
theory UHashProps
  imports UHashCorrect
begin

text \<open>
  Ownership and iteration for the hash table of theory \<open>UHash\<close>, and the properties of the
  component: lookup, insertion, removal and creation as operations on a finite map, release of
  every adopted key and value exactly once, and the limits of the allocation code.
\<close>

section \<open>Ownership\<close>

text \<open>What a deleter has to release for a token, and what a table holds that its deleters must
  release one day.\<close>

definition tok_of :: "UObjectDeleter option \<Rightarrow> UHashTok \<Rightarrow> (UObjectDeleter \<times> UHashTok) multiset" where
  "tok_of d p = (case d of None \<Rightarrow> {#} | Some f \<Rightarrow> if p \<noteq> 0 then {#(f, p)#} else {#})"

definition el_toks :: "UHashtable \<Rightarrow> UHashElement \<Rightarrow> (UObjectDeleter \<times> UHashTok) multiset" where
  "el_toks h e = tok_of (uh_keyDeleter h) (el_key e) + tok_of (uh_valueDeleter h) (el_value e)"

definition owned :: "UHashtable \<Rightarrow> (UObjectDeleter \<times> UHashTok) multiset" where
  "owned h = \<Sum>\<^sub># (image_mset (el_toks h) (stored (uh_elements h)))"

text \<open>Everything the table has taken and either released or still holds.\<close>

definition ledger :: "UHashtable \<Rightarrow> (UObjectDeleter \<times> UHashTok) multiset" where
  "ledger h = mset (uh_deleted h) + owned h"

lemma tok_of_0 [simp]: "tok_of d 0 = {#}"
  by (simp add: tok_of_def split: option.splits)

lemma el_toks_cong: "same_callbacks h h' \<Longrightarrow> el_toks h' = el_toks h"
  by (simp add: same_callbacks_def el_toks_def fun_eq_iff)

lemma callDeleter_mset: "mset (callDeleter d p log) = mset log + tok_of d p"
  by (simp add: callDeleter_def tok_of_def split: option.splits)

lemma HASH_DELETE_ledger:
  "ledger (HASH_DELETE_KEY_VALUE h k v) = ledger h + tok_of (uh_keyDeleter h) k + tok_of (uh_valueDeleter h) v"
proof -
  have "el_toks (HASH_DELETE_KEY_VALUE h k v) = el_toks h"
    by (rule el_toks_cong) simp
  then show ?thesis
    by (simp add: ledger_def owned_def)
      (simp add: HASH_DELETE_KEY_VALUE_def callDeleter_mset)
qed

lemma setElement_deleted:
  "mset (uh_deleted (fst (priv_uhash_setElement h i hc k v hint))) =
     mset (uh_deleted h)
     + (if el_key (uh_elements h ! i) \<noteq> k then tok_of (uh_keyDeleter h) (el_key (uh_elements h ! i)) else {#})
     + (if el_value (uh_elements h ! i) \<noteq> v then tok_of (uh_valueDeleter h) (el_value (uh_elements h ! i)) else {#})"
  by (cases "uh_keyDeleter h"; cases "uh_valueDeleter h")
    (simp_all add: priv_uhash_setElement_def Let_def tok_of_def)

lemma ledger_rehash:
  "rehash_result h status (h', status') \<Longrightarrow> ledger h' = ledger h"
  using rehash_result_fields [of h status h' status'] el_toks_cong [of h h']
  by (simp add: ledger_def owned_def)

lemma owned_update:
  assumes "same_callbacks h h'" "uh_elements h' = (uh_elements h)[i := e]" "i < length (uh_elements h)"
    "uhash_valid h"
  shows "owned h' + el_toks h (uh_elements h ! i) = owned h + (if occupied e then el_toks h e else {#})"
proof -
  let ?S = "\<lambda>M. \<Sum>\<^sub># (image_mset (el_toks h) M)"
  have "?S (stored (uh_elements h') + (if occupied (uh_elements h ! i) then {#uh_elements h ! i#} else {#}))
      = ?S (stored (uh_elements h) + (if occupied e then {#e#} else {#}))"
    using stored_update [OF assms(3), of e] by (simp only: assms(2))
  moreover have "\<not> occupied (uh_elements h ! i) \<Longrightarrow> el_toks h (uh_elements h ! i) = {#}"
    using elements_nth_free [OF assms(4,3)] by (simp add: el_toks_def)
  ultimately show ?thesis using el_toks_cong [OF assms(1)]
    by (auto simp: owned_def split: if_splits)
qed

text \<open>The element stored under a key, and what it holds that a put hands over again: the same key
  pointer or the same value pointer.\<close>

definition element_for :: "UHashtable \<Rightarrow> UHashTok \<Rightarrow> UHashElement option" where
  "element_for h key = List.find (\<lambda>e. occupied e \<and> uh_keyComparator h key (el_key e)) (uh_elements h)"

definition retaken :: "UHashtable \<Rightarrow> UHashTok \<Rightarrow> UHashTok \<Rightarrow> (UObjectDeleter \<times> UHashTok) multiset" where
  "retaken h key val =
     (case element_for h key of
        None \<Rightarrow> {#}
      | Some e \<Rightarrow> (if el_key e = key then tok_of (uh_keyDeleter h) key else {#})
                + (if el_value e = val then tok_of (uh_valueDeleter h) val else {#}))"

lemma element_for_stored:
  assumes "uhash_valid h"
  shows "element_for h key = Some e \<longleftrightarrow> e \<in># stored (uh_elements h) \<and> uh_keyComparator h key (el_key e)"
proof
  assume "element_for h key = Some e"
  then show "e \<in># stored (uh_elements h) \<and> uh_keyComparator h key (el_key e)"
    by (auto simp: element_for_def find_Some_iff in_stored)
next
  note d = uhash_validD(1,2) [OF assms]
  assume e: "e \<in># stored (uh_elements h) \<and> uh_keyComparator h key (el_key e)"
  then have "element_for h key \<noteq> None" by (auto simp: element_for_def find_None_iff in_stored)
  then obtain e' where e': "element_for h key = Some e'" by blast
  then have "e' \<in># stored (uh_elements h) \<and> uh_keyComparator h key (el_key e')"
    by (auto simp: element_for_def find_Some_iff in_stored)
  with e have "e = e'"
    using hash_keys.keq_right [OF d(1), of key "el_key e" "el_key e'"] table_ok_distinct [OF d(2)]
    by (auto simp: in_stored)
  with e' show "element_for h key = Some e" by simp
qed

lemma element_for_found:
  assumes v: "uhash_valid h" and f: "found (uh_keyHasher h) (uh_keyComparator h) (uh_elements h) key i"
  shows "element_for h key = (if occupied (uh_elements h ! i) then Some (uh_elements h ! i) else None)"
proof (cases "occupied (uh_elements h ! i)")
  case True
  then show ?thesis using f element_for_stored [OF v, of key "uh_elements h ! i"] by (auto simp: found_def in_stored)
next
  case False
  then have "table_map (uh_keyComparator h) (uh_elements h) key = None" using f by (simp add: found_def)
  with False show ?thesis by (simp add: element_for_def table_map_def)
qed

lemma retaken_cong:
  assumes "uhash_valid h" "uhash_valid h'" "stored (uh_elements h') = stored (uh_elements h)" "same_callbacks h h'"
  shows "retaken h' key val = retaken h key val"
proof -
  have c: "uh_keyComparator h' = uh_keyComparator h" "uh_keyDeleter h' = uh_keyDeleter h"
    "uh_valueDeleter h' = uh_valueDeleter h"
    using assms(4) by (simp_all add: same_callbacks_def)
  have "element_for h' key = Some e \<longleftrightarrow> element_for h key = Some e" for e
    using element_for_stored [OF assms(1)] element_for_stored [OF assms(2)] by (simp add: assms(3) c)
  then have "element_for h' key = element_for h key" by (metis option.exhaust)
  then show ?thesis unfolding retaken_def c by simp
qed

lemma put_store_ledger:
  assumes v: "uhash_valid h" and st: "\<not> U_FAILURE status"
    and r: "put_store h key val hint status = Some (h', old, status')"
  shows "ledger h' + (if U_FAILURE status' then {#} else retaken h key val)
       = ledger h + tok_of (uh_keyDeleter h) key + tok_of (uh_valueDeleter h) val"
proof -
  obtain i where i: "priv_uhash_find h key (uh_keyHasher h key) = Some i"
    and f: "found (uh_keyHasher h) (uh_keyComparator h) (uh_elements h) key i"
    by (rule find_key [OF v])
  have il: "i < length (uh_elements h)" using f by (simp add: found_def)
  show ?thesis
  proof (cases "\<not> occupied (uh_elements h ! i) \<and> uh_count h + 1 = uh_length h")
    case True
    then show ?thesis using r i by (auto simp: put_store_def HASH_DELETE_ledger U_FAILURE_def)
  next
    case False
    let ?e = "\<lparr>el_hashcode = posmask (uh_keyHasher h key), el_value = val, el_key = key\<rparr>"
    define h2 where "h2 = (if occupied (uh_elements h ! i) then h else h\<lparr>uh_count := uh_count h + 1\<rparr>)"
    have h': "h' = fst (priv_uhash_setElement h2 i (posmask (uh_keyHasher h key)) key val hint)" "status' = status"
      using r unfolding put_store_def i option.case if_not_P [OF False] by (simp_all add: h2_def Let_def)
    have same: "uh_elements h2 = uh_elements h" "uh_deleted h2 = uh_deleted h"
      "uh_keyDeleter h2 = uh_keyDeleter h" "uh_valueDeleter h2 = uh_valueDeleter h" "same_callbacks h h2"
      by (simp_all add: h2_def same_callbacks_def)
    have "owned h' + el_toks h (uh_elements h ! i) = owned h + el_toks h ?e"
      using owned_update [of h h' i ?e, OF _ _ il v] by (simp add: h' same occupied_def)
    moreover have "mset (uh_deleted h') + retaken h key val = mset (uh_deleted h) + el_toks h (uh_elements h ! i)"
      using element_for_found [OF v f] elements_nth_free [OF v il]
      by (auto simp: h' setElement_deleted same el_toks_def retaken_def)
    ultimately show ?thesis using st h'(2) by (simp add: ledger_def el_toks_def ac_simps)
  qed
qed

lemma put_ledger:
  assumes ok: "uhash_ok h" and st: "\<not> U_FAILURE status" and lim: "heap_limit malloc"
    and val: "hint AND HINT_VALUE_POINTER = 0 \<or> val \<noteq> 0"
    and r: "priv_uhash_put malloc h key val hint status = Some (h', old, status')"
  shows "ledger h' + (if U_FAILURE status' then {#} else retaken h key val)
       = ledger h + tok_of (uh_keyDeleter h) key + tok_of (uh_valueDeleter h) val"
proof (cases "uh_count h > uh_highWaterMark h")
  case False
  then show ?thesis using r st put_store_ledger [OF uhash_ok_valid [OF ok] st]
    by (simp add: put_unfold [OF st val])
next
  case True
  obtain h1 status1 where h1: "priv_uhash_rehash malloc h status = Some (h1, status1)"
      "rehash_result h status (h1, status1)"
    using rehash_correct [OF ok st lim] by blast
  note f = rehash_result_fields [OF h1(2)]
  have same: "uh_keyDeleter h1 = uh_keyDeleter h" "uh_valueDeleter h1 = uh_valueDeleter h"
    using f(3) by (simp_all add: same_callbacks_def)
  have "ledger h' + (if U_FAILURE status' then {#} else retaken h1 key val)
      = ledger h1 + tok_of (uh_keyDeleter h) key + tok_of (uh_valueDeleter h) val"
  proof (cases "U_FAILURE status1")
    case False
    then show ?thesis
      using r True h1(1) put_store_ledger [OF f(1) False] same by (simp add: put_unfold [OF st val])
  qed (use r True h1(1) same in \<open>auto simp: put_unfold [OF st val] HASH_DELETE_ledger\<close>)
  then show ?thesis
    by (simp only: ledger_rehash [OF h1(2)] retaken_cong [OF uhash_ok_valid [OF ok] f(1-3)])
qed

lemma internalRemove_ledger:
  assumes v: "uhash_valid h" and i: "i < length (uh_elements h)" "occupied (uh_elements h ! i)"
  shows "ledger (fst (priv_uhash_internalRemoveElement h i)) = ledger h"
proof -
  let ?h = "fst (priv_uhash_internalRemoveElement h i)"
  note r = internalRemove_valid [OF v i refl]
  have "owned ?h + el_toks h (uh_elements h ! i) = owned h"
    using owned_update [OF r(2,3) i(1) v] by (simp add: occupied_def)
  moreover have "mset (uh_deleted ?h) = mset (uh_deleted h) + el_toks h (uh_elements h ! i)"
    by (simp add: priv_uhash_internalRemoveElement_def setElement_deleted el_toks_def)
  ultimately show ?thesis by (simp add: ledger_def ac_simps)
qed

lemma remove_ledger:
  assumes ok: "uhash_ok h" and lim: "heap_limit malloc"
    and r: "priv_uhash_remove malloc h key = Some (h', old)"
  shows "ledger h' = ledger h"
proof -
  note v = uhash_ok_valid [OF ok]
  obtain i where i: "priv_uhash_find h key (uh_keyHasher h key) = Some i"
    and f: "found (uh_keyHasher h) (uh_keyComparator h) (uh_elements h) key i"
    by (rule find_key [OF v])
  have il: "i < length (uh_elements h)" using f by (simp add: found_def)
  show ?thesis
  proof (cases "occupied (uh_elements h ! i)")
    case False
    then show ?thesis using r i by (simp add: priv_uhash_remove_def occupied_def)
  next
    case True
    let ?h = "fst (priv_uhash_internalRemoveElement h i)"
    obtain h2 st2 where h2: "priv_uhash_rehash malloc ?h U_ZERO_ERROR = Some (h2, st2)"
        "rehash_result ?h U_ZERO_ERROR (h2, st2)"
      using rehash_correct [OF internalRemove_ok [OF ok il True] _ lim, of U_ZERO_ERROR]
      by (auto simp: U_FAILURE_def)
    have "h' = h2 \<or> h' = ?h"
      using r i True h2(1)
      by (auto simp: priv_uhash_remove_def occupied_def Let_def split_def split: if_splits)
    then show ?thesis
      using ledger_rehash [OF h2(2)] internalRemove_ledger [OF v il True] by auto
  qed
qed

section \<open>Iteration\<close>

lemma nextElement_loop_Some:
  "nextElement_loop h i = Some j \<Longrightarrow>
     i \<le> j \<and> j < uh_length h \<and> occupied (uh_elements h ! j)
     \<and> (\<forall>k. i \<le> k \<and> k < j \<longrightarrow> \<not> occupied (uh_elements h ! k))"
proof (induction h i rule: nextElement_loop.induct)
  case (1 h i)
  show ?case
  proof (cases "i < uh_length h \<and> \<not> occupied (uh_elements h ! i)")
    case True
    then have "nextElement_loop h (i + 1) = Some j"
      using 1(2) nextElement_loop.simps [of h i] by (simp add: occupied_def)
    with 1(1) True show ?thesis by (auto simp: occupied_def le_less) (metis Suc_leI le_neq_implies_less)
  next
    case False
    then show ?thesis using 1(2) nextElement_loop.simps [of h i]
      by (auto simp: occupied_def split: if_splits)
  qed
qed

lemma nextElement_loop_None:
  "nextElement_loop h i = None \<Longrightarrow> i \<le> k \<Longrightarrow> k < uh_length h \<Longrightarrow> \<not> occupied (uh_elements h ! k)"
proof (induction h i rule: nextElement_loop.induct)
  case (1 h i)
  then have "\<not> occupied (uh_elements h ! i)" "nextElement_loop h (i + 1) = None"
    using nextElement_loop.simps [of h i] by (auto simp: occupied_def split: if_splits)
  with 1 show ?case by (cases "k = i") (auto simp: occupied_def)
qed

definition clear_below :: "UHashtable \<Rightarrow> nat \<Rightarrow> bool" where
  "clear_below h n \<longleftrightarrow> (\<forall>k<n. k < uh_length h \<longrightarrow> \<not> occupied (uh_elements h ! k))"

lemma stored_clear:
  "uh_length h = length (uh_elements h) \<Longrightarrow>
     (\<And>k. k < uh_length h \<Longrightarrow> \<not> occupied (uh_elements h ! k)) \<Longrightarrow> stored (uh_elements h) = {#}"
  by (metis in_stored multiset_nonemptyE)

lemma removeAll_loop_correct:
  assumes "uhash_ok h" "-1 \<le> pos" "clear_below h (nat (pos + 1))"
  shows "uhash_ok (removeAll_loop h pos) \<and> stored (uh_elements (removeAll_loop h pos)) = {#}
           \<and> ledger (removeAll_loop h pos) = ledger h \<and> same_callbacks h (removeAll_loop h pos)"
  using assms
proof (induction h pos rule: removeAll_loop.induct)
  case (1 h pos)
  note v = uhash_ok_valid [OF 1(2)]
  show ?case
  proof (cases "nextElement_loop h (nat (pos + 1))")
    case None
    then have "stored (uh_elements h) = {#}"
      using 1(4) nextElement_loop_None [OF None] uhash_validD(3) [OF v]
      by (intro stored_clear) (metis clear_below_def not_less)+
    then show ?thesis
      using 1(2) None by (simp add: removeAll_loop.simps [of h pos] uhash_nextElement_def)
  next
    case (Some j)
    note j = nextElement_loop_Some [OF Some]
    let ?h = "fst (priv_uhash_internalRemoveElement h j)"
    have jl: "j < length (uh_elements h)" "occupied (uh_elements h ! j)"
      using j uhash_validD(3) [OF v] by auto
    have h1: "fst (uhash_removeElement h j) = ?h"
      using jl(2) by (simp add: uhash_removeElement_def occupied_def)
    have eq: "removeAll_loop h pos = removeAll_loop ?h (int j)"
      using Some h1 by (simp add: removeAll_loop.simps [of h pos] uhash_nextElement_def)
    note r = internalRemove_valid [OF v jl refl]
    have "clear_below ?h (Suc j)"
      unfolding clear_below_def
    proof (intro allI impI)
      fix k assume k: "k < Suc j" "k < uh_length ?h"
      then show "\<not> occupied (uh_elements ?h ! k)"
        using 1(4) j r(3) jl by (cases "k = j"; cases "k < nat (pos + 1)")
          (auto simp: clear_below_def occupied_def)
    qed
    then have "uhash_ok (removeAll_loop ?h (int j)) \<and> stored (uh_elements (removeAll_loop ?h (int j))) = {#}
        \<and> ledger (removeAll_loop ?h (int j)) = ledger ?h \<and> same_callbacks ?h (removeAll_loop ?h (int j))"
      using 1(1) [of "(j, int j)" j "int j"] Some h1 internalRemove_ok [OF 1(2) jl]
      by (auto simp: uhash_nextElement_def nat_add_distrib)
    then show ?thesis
      using eq internalRemove_ledger [OF v jl] same_callbacks_trans [OF r(2)] by auto
  qed
qed

lemma stored_drop_take:
  "i \<le> j \<Longrightarrow> j < length els \<Longrightarrow> (\<And>k. i \<le> k \<Longrightarrow> k < j \<Longrightarrow> \<not> occupied (els ! k)) \<Longrightarrow>
     stored (drop i els) = stored (drop j els)"
proof (induction "j - i" arbitrary: i)
  case 0
  then show ?case by simp
next
  case (Suc d)
  then have "stored (drop (Suc i) els) = stored (drop j els)" by (intro Suc.hyps) auto
  with Suc.prems Suc.hyps(2) show ?case using stored_drop_Suc [of i els] by simp
qed

text \<open>\<open>uhash_close\<close> releases what is stored from the position on.\<close>

lemma close_loop_correct:
  assumes "uh_length h = length (uh_elements h)" "-1 \<le> pos"
  shows "mset (uh_deleted (close_loop h pos)) =
           mset (uh_deleted h) + \<Sum>\<^sub># (image_mset (el_toks h) (stored (drop (nat (pos + 1)) (uh_elements h))))"
  using assms
proof (induction h pos rule: close_loop.induct)
  case (1 h pos)
  show ?case
  proof (cases "nextElement_loop h (nat (pos + 1))")
    case None
    have "stored (drop (nat (pos + 1)) (uh_elements h)) = {#}"
    proof (rule ccontr)
      assume "stored (drop (nat (pos + 1)) (uh_elements h)) \<noteq> {#}"
      then obtain e where "e \<in># stored (drop (nat (pos + 1)) (uh_elements h))" by (meson multiset_nonemptyE)
      with nextElement_loop_None [OF None] 1(2) show False by (auto simp: in_stored)
    qed
    then show ?thesis using None by (simp add: close_loop.simps [of h pos] uhash_nextElement_def)
  next
    case (Some j)
    note j = nextElement_loop_Some [OF Some]
    let ?h = "HASH_DELETE_KEY_VALUE h (el_key (uh_elements h ! j)) (el_value (uh_elements h ! j))"
    have same: "uh_length ?h = uh_length h" "el_toks ?h = el_toks h"
      "mset (uh_deleted ?h) = mset (uh_deleted h) + el_toks h (uh_elements h ! j)"
      by (simp_all add: HASH_DELETE_KEY_VALUE_def el_toks_def fun_eq_iff callDeleter_mset)
    have "stored (drop (nat (pos + 1)) (uh_elements h)) = stored (drop j (uh_elements h))"
      using j 1(2) by (intro stored_drop_take) auto
    also have "\<dots> = {#uh_elements h ! j#} + stored (drop (Suc j) (uh_elements h))"
      using j 1(2) stored_drop_Suc [of j "uh_elements h"] by simp
    finally have st: "stored (drop (nat (pos + 1)) (uh_elements h)) = \<dots>" .
    have "mset (uh_deleted (close_loop ?h (int j))) =
        mset (uh_deleted ?h) + \<Sum>\<^sub># (image_mset (el_toks h) (stored (drop (Suc j) (uh_elements h))))"
      using 1(1) [of "(j, int j)" j "int j"] Some 1(2) same
      by (simp add: uhash_nextElement_def nat_add_distrib)
    then show ?thesis
      using Some st same(3) by (simp add: close_loop.simps [of h pos] uhash_nextElement_def ac_simps)
  qed
qed

lemma close_ledger:
  assumes v: "uhash_valid h" and c: "uhash_close (Some h) = Some (h', freed)"
  shows "mset (uh_deleted h') = ledger h"
proof (cases "uh_keyDeleter h \<noteq> None \<or> uh_valueDeleter h \<noteq> None")
  case True
  note d = uhash_validD [OF v]
  have "uh_elements h \<noteq> []" using d(3,5) by auto
  with True c have "uh_deleted h' = uh_deleted (close_loop h UHASH_FIRST)"
    by (auto simp: uhash_close_def Let_def split: if_splits)
  then show ?thesis using close_loop_correct [OF d(3), of UHASH_FIRST] by (simp add: ledger_def owned_def)
next
  case False
  then have "el_toks h = (\<lambda>_. {#})" by (auto simp: el_toks_def tok_of_def)
  moreover have "uh_deleted h' = uh_deleted h" using False c by (auto simp: uhash_close_def Let_def split: if_splits)
  ultimately show ?thesis by (simp add: ledger_def owned_def)
qed

section \<open>Creation\<close>

lemma PRIMES_length: "length PRIMES = PRIMES_LENGTH"
  by (simp add: PRIMES_def)

lemma openSize_index_spec:
  "i < PRIMES_LENGTH \<Longrightarrow>
     i \<le> openSize_index i sz \<and> openSize_index i sz < PRIMES_LENGTH
     \<and> (\<forall>j. i \<le> j \<and> j < openSize_index i sz \<longrightarrow> int (PRIMES ! j) < sz)
     \<and> (openSize_index i sz < PRIMES_LENGTH - 1 \<longrightarrow> sz \<le> int (PRIMES ! openSize_index i sz))"
proof (induction i sz rule: openSize_index.induct)
  case (1 i sz)
  show ?case
  proof (cases "i < PRIMES_LENGTH - 1 \<and> int (PRIMES ! i) < sz")
    case True
    then have "openSize_index i sz = openSize_index (i + 1) sz"
      by (simp add: openSize_index.simps [of i sz])
    moreover have "int (PRIMES ! j) < sz" if "i \<le> j" "j < openSize_index (i + 1) sz" for j
      using that 1(1) True by (cases "j = i") auto
    ultimately show ?thesis using 1(1) True by auto
  next
    case False
    then have "openSize_index i sz = i" by (subst openSize_index.simps) auto
    with False 1(2) show ?thesis by auto
  qed
qed

lemma create_correct:
  assumes keys: "hash_keys keyHash (snd keyComp)" and lim: "heap_limit malloc" and st: "\<not> U_FAILURE status"
    and p: "p < PRIMES_LENGTH"
  shows "case priv_uhash_create malloc raw keyHash keyComp valueComp p status of
           (None, status') \<Rightarrow> status' = U_MEMORY_ALLOCATION_ERROR
             \<and> \<not> (malloc SIZEOF_UHashtable \<and> malloc ((12 * PRIMES ! p) mod 2 ^ 32))
         | (Some h, status') \<Rightarrow> status' = status \<and> uhash_ok h \<and> uhash_map h = Map.empty
             \<and> uh_count h = 0 \<and> uh_length h = PRIMES ! p
             \<and> uh_keyHasher h = keyHash \<and> uh_keyComparator h = snd keyComp
             \<and> uh_keyDeleter h = None \<and> uh_valueDeleter h = None \<and> uh_deleted h = uh_deleted raw"
proof -
  let ?h0 = "priv_uhash_internalSetResizePolicy
    (raw\<lparr>uh_keyHasher := keyHash, uh_keyComparator := snd keyComp, uh_keyComparatorAddr := fst keyComp,
         uh_valueComparator := map_option snd valueComp, uh_valueComparatorAddr := map_option fst valueComp,
         uh_keyDeleter := None, uh_valueDeleter := None, uh_allocated := False\<rparr>) U_GROW"
  have c: "uh_keyHasher ?h0 = keyHash" "uh_keyComparator ?h0 = snd keyComp" "uh_keyDeleter ?h0 = None"
    "uh_valueDeleter ?h0 = None" "uh_deleted ?h0 = uh_deleted raw" "(uh_lowWaterRatio ?h0, uh_highWaterRatio ?h0) = policy_ratios U_GROW"
    by (simp_all add: priv_uhash_internalSetResizePolicy_def policy_ratios_def)
  have mem: "U_FAILURE U_MEMORY_ALLOCATION_ERROR" by (simp add: U_FAILURE_def)
  show ?thesis
  proof (cases "malloc ((12 * PRIMES ! p) mod 2 ^ 32)")
    case False
    have "priv_uhash_allocate malloc ?h0 p status =
        (?h0\<lparr>uh_primeIndex := p, uh_length := PRIMES ! p, uh_elements := []\<rparr>, U_MEMORY_ALLOCATION_ERROR)"
      by (rule allocate_fail [where malloc = malloc and p = p, OF st False])
    with False st mem show ?thesis
      by (simp add: priv_uhash_create_def priv_uhash_init_def Let_def)
  next
    case True
    let ?a = "allocated_table ?h0 p"
    have "uhash_valid ?a" using keys p c by (intro allocated_table_valid) simp_all
    then have ok: "uhash_ok (?a\<lparr>uh_allocated := True\<rparr>)"
      using p c(6) by (auto simp: uhash_ok_def uhash_valid_def allocated_table_def)
    have "priv_uhash_allocate malloc ?h0 p status = (?a, status)"
      by (rule allocate_success [OF st True lim p])
    with ok True st c show ?thesis
      by (simp add: priv_uhash_create_def priv_uhash_init_def Let_def uhash_map_def allocated_table_def)
  qed
qed

section \<open>Properties\<close>

text \<open>Instances for the examples: a heap of 64 KB, and a table with integer keys made by
  \<open>uhash_open\<close>.\<close>

definition heap64k :: "nat \<Rightarrow> bool" where
  "heap64k n \<longleftrightarrow> n \<le> 65536"

definition raw_table :: UHashtable where
  "raw_table = \<lparr>uh_elements = [], uh_keyHasher = uhash_hashLong, uh_keyComparator = uhash_compareLong,
     uh_keyComparatorAddr = 0, uh_valueComparator = None, uh_valueComparatorAddr = None, uh_keyDeleter = None, uh_valueDeleter = None, uh_count = 0, uh_length = 0,
     uh_highWaterMark = 0, uh_lowWaterMark = 0, uh_highWaterRatio = (0, 0), uh_lowWaterRatio = (0, 0),
     uh_primeIndex = 0, uh_allocated = False, uh_deleted = []\<rparr>"

abbreviation (input) COMPARE_LONG :: nat where "COMPARE_LONG \<equiv> 64"

definition long_table :: UHashtable where
  "long_table = the (fst (uhash_open heap64k raw_table uhash_hashLong (COMPARE_LONG, uhash_compareLong) None U_ZERO_ERROR))"

lemma heap64k_limit: "heap_limit heap64k"
  by (simp add: heap_limit_def heap64k_def)

lemma zero_error: "\<not> U_FAILURE U_ZERO_ERROR"
  by (simp add: U_FAILURE_def)

lemma raw_deleted: "uh_deleted raw_table = []"
  by (simp add: raw_table_def)

lemma long_table_ok:
  "uhash_ok long_table" "uhash_map long_table = Map.empty" "uh_count long_table = 0"
  "uh_length long_table = 127" "uh_keyComparator long_table = uhash_compareLong"
  "uh_keyDeleter long_table = None" "uh_valueDeleter long_table = None" "uh_deleted long_table = []"
proof -
  let ?r = "uhash_open heap64k raw_table uhash_hashLong (COMPARE_LONG, uhash_compareLong) None U_ZERO_ERROR"
  have g: "heap64k SIZEOF_UHashtable" "heap64k ((12 * PRIMES ! 3) mod 2 ^ 32)"
    by (simp_all add: heap64k_def PRIMES_def)
  have c: "case ?r of
      (None, status') \<Rightarrow> status' = U_MEMORY_ALLOCATION_ERROR
        \<and> \<not> (heap64k SIZEOF_UHashtable \<and> heap64k ((12 * PRIMES ! 3) mod 2 ^ 32))
    | (Some h, status') \<Rightarrow> status' = U_ZERO_ERROR \<and> uhash_ok h \<and> uhash_map h = Map.empty
        \<and> uh_count h = 0 \<and> uh_length h = PRIMES ! 3
        \<and> uh_keyHasher h = uhash_hashLong \<and> uh_keyComparator h = uhash_compareLong
        \<and> uh_keyDeleter h = None \<and> uh_valueDeleter h = None \<and> uh_deleted h = []"
    unfolding uhash_open_def
    by (rule create_correct [of _ "(COMPARE_LONG, uhash_compareLong)" _ _ _ raw_table, unfolded snd_conv raw_deleted,
          OF longs.hash_keys_axioms heap64k_limit zero_error]) simp
  have "fst ?r = Some long_table"
  proof (cases "fst ?r")
    case None
    with c g show ?thesis by (auto split: prod.splits)
  qed (simp add: long_table_def)
  with c show "uhash_ok long_table" "uhash_map long_table = Map.empty" "uh_count long_table = 0"
    "uh_length long_table = 127" "uh_keyComparator long_table = uhash_compareLong"
    "uh_keyDeleter long_table = None" "uh_valueDeleter long_table = None" "uh_deleted long_table = []"
    by (auto simp: PRIMES_def split: prod.splits)
qed

text \<open>C11: Looking a key up never fails and never runs off the table: on a table with at least one
  free slot the probe sequence of every key ends after at most \<open>length\<close> slots, and \<open>uhash_get\<close>
  returns the value the table's finite map has for the key, or NULL where it has none.\<close>

theorem uhash_get_correct:
  assumes "uhash_valid h"
  shows "uhash_get h key = Some (case uhash_map h key of None \<Rightarrow> 0 | Some v \<Rightarrow> v)"
  by (rule get_correct [OF assms])

theorem uhash_get_correct_witness:
  "uhash_get long_table 5 = Some (case uhash_map long_table 5 of None \<Rightarrow> 0 | Some v \<Rightarrow> v)"
  by (rule uhash_get_correct) (rule uhash_ok_valid [OF long_table_ok(1)])

text \<open>C3: \<open>uhash_put\<close> with a non-NULL value, on a table with the invariant, with no earlier error and a heap
  that grants no request above 2 GB less a page, makes
  the table's finite map send the key (and every key equal to it) to the value and changes nothing
  else; it returns the old value, or NULL where there was none or where the table has a value
  deleter, which has then released the old value. The only failure is lack of memory, which leaves the map as it was; it does not
  happen when the table need not grow or the allocation is granted, and one slot besides the
  reserved one is free.\<close>

theorem uhash_put_correct:
  assumes "uhash_ok h" "\<not> U_FAILURE status" "heap_limit malloc" "val \<noteq> 0"
  shows "\<exists>h' old status'. uhash_put malloc h key val status = Some (h', old, status')
     \<and> (status' = status \<and> uhash_ok h'
          \<and> uhash_map h' = (\<lambda>k. if uh_keyComparator h k key then Some val else uhash_map h k)
          \<and> old = (if uh_valueDeleter h \<noteq> None then 0 else case uhash_map h key of None \<Rightarrow> 0 | Some v \<Rightarrow> v)
        \<or> status' = U_MEMORY_ALLOCATION_ERROR \<and> uhash_valid h' \<and> uhash_map h' = uhash_map h \<and> old = 0)
     \<and> (growth_granted malloc h \<and> uh_count h + 1 \<noteq> uh_length h \<longrightarrow> status' = status)"
proof -
  obtain h' old status' where r: "uhash_put malloc h key val status = Some (h', old, status')"
      "put_result h key val status (h', old, status')"
      "growth_granted malloc h \<and> uh_count h + 1 \<noteq> uh_length h \<longrightarrow> status' = status"
    using put_correct [OF assms(1-3), of "HINT_KEY_POINTER OR HINT_VALUE_POINTER" val key] assms(4)
    unfolding uhash_put_def by auto
  then show ?thesis
    using uhash_map_stored [OF uhash_ok_valid [OF assms(1)]] by (auto simp: put_result_def)
qed

theorem uhash_put_correct_witness:
  "\<exists>h' old status'. uhash_put heap64k long_table 5 7 U_ZERO_ERROR = Some (h', old, status')
     \<and> (status' = U_ZERO_ERROR \<and> uhash_ok h'
          \<and> uhash_map h' = (\<lambda>k. if uh_keyComparator long_table k 5 then Some 7 else uhash_map long_table k)
          \<and> old = (if uh_valueDeleter long_table \<noteq> None then 0
                   else case uhash_map long_table 5 of None \<Rightarrow> 0 | Some v \<Rightarrow> v)
        \<or> status' = U_MEMORY_ALLOCATION_ERROR \<and> uhash_valid h'
          \<and> uhash_map h' = uhash_map long_table \<and> old = 0)
     \<and> (growth_granted heap64k long_table \<and> uh_count long_table + 1 \<noteq> uh_length long_table
          \<longrightarrow> status' = U_ZERO_ERROR)"
  by (rule uhash_put_correct [OF long_table_ok(1) zero_error heap64k_limit]) simp

text \<open>C12: on such a table and heap \<open>uhash_remove\<close> makes the finite map undefined on the key and changes nothing else, returns
  the value that was stored (NULL where there was none, or where the table has a value deleter, which released it) and
  needs no memory to succeed: when a shrinking table cannot be reallocated it stays as it is.\<close>

theorem uhash_remove_correct:
  assumes "uhash_ok h" "heap_limit malloc"
  shows "\<exists>h'. uhash_remove malloc h key
            = Some (h', if uh_valueDeleter h \<noteq> None then 0
                        else case uhash_map h key of None \<Rightarrow> 0 | Some v \<Rightarrow> v)
           \<and> uhash_valid h'
           \<and> uhash_map h' = (\<lambda>k. if uh_keyComparator h k key then None else uhash_map h k)
           \<and> (shrink_granted malloc h \<longrightarrow> uhash_ok h')"
  using remove_correct [OF assms] unfolding uhash_remove_def by blast

theorem uhash_remove_correct_witness:
  "\<exists>h'. uhash_remove heap64k long_table 5
            = Some (h', if uh_valueDeleter long_table \<noteq> None then 0
                        else case uhash_map long_table 5 of None \<Rightarrow> 0 | Some v \<Rightarrow> v)
           \<and> uhash_valid h'
           \<and> uhash_map h' = (\<lambda>k. if uh_keyComparator long_table k 5 then None else uhash_map long_table k)
           \<and> (shrink_granted heap64k long_table \<longrightarrow> uhash_ok h')"
  by (rule uhash_remove_correct [OF long_table_ok(1) heap64k_limit])

text \<open>C13: The table releases what it owns exactly once, for a table with the invariant on a heap that grants
  no request above 2 GB less a page. The ledger of a table counts what its deleters
  have been called on together with what it still holds. \<open>uhash_put\<close> adds the key and the value to
  it, whether the call stores them or fails and releases them; a successful put that hands over
  the very key or value pointer that is already stored under the key does not count it again: the
  pointer is held and has not been released. With a NULL value and no earlier error the call only
  removes, and the key that was passed in is neither held nor released. \<open>uhash_remove\<close> leaves the
  ledger as it is, and closing the table releases exactly what is still held.\<close>

theorem uhash_releases_once:
  assumes "uhash_ok h" "heap_limit malloc"
  shows "(uhash_put malloc h key val status = Some (h1, old, status') \<longrightarrow>
            ledger h1 + (if \<not> U_FAILURE status \<and> val = 0 then tok_of (uh_keyDeleter h) key
                         else if U_FAILURE status' then {#} else retaken h key val)
              = ledger h + tok_of (uh_keyDeleter h) key + tok_of (uh_valueDeleter h) val)
       \<and> (uhash_remove malloc h key = Some (h2, old) \<longrightarrow> ledger h2 = ledger h)
       \<and> (uhash_close (Some h) = Some (h3, freed) \<longrightarrow> mset (uh_deleted h3) = ledger h)"
proof (intro conjI impI)
  assume p: "uhash_put malloc h key val status = Some (h1, old, status')"
  show "ledger h1 + (if \<not> U_FAILURE status \<and> val = 0 then tok_of (uh_keyDeleter h) key
      else if U_FAILURE status' then {#} else retaken h key val)
    = ledger h + tok_of (uh_keyDeleter h) key + tok_of (uh_valueDeleter h) val"
  proof (cases "U_FAILURE status \<or> val = 0")
    case True
    then show ?thesis using p remove_ledger [OF assms, of key]
      by (auto simp: uhash_put_def priv_uhash_put_def HASH_DELETE_ledger)
  next
    case False
    then show ?thesis
      using p put_ledger [OF assms(1) _ assms(2), of status "HINT_KEY_POINTER OR HINT_VALUE_POINTER" val key h1 old status']
      by (simp add: uhash_put_def)
  qed
next
  assume "uhash_remove malloc h key = Some (h2, old)"
  then show "ledger h2 = ledger h" using remove_ledger [OF assms] by (simp add: uhash_remove_def)
next
  assume "uhash_close (Some h) = Some (h3, freed)"
  then show "mset (uh_deleted h3) = ledger h" by (rule close_ledger [OF uhash_ok_valid [OF assms(1)]])
qed

text \<open>A table of 13 slots that owns its keys and values. The witness stores the value 7 under the key
  5, stores 9 under the same key pointer, and closes the table: the key and the two values are
  released, each once.\<close>

definition owning_table :: UHashtable where
  "owning_table =
     (case uhash_openSize heap64k raw_table uhash_hashLong (COMPARE_LONG, uhash_compareLong) None 5 U_ZERO_ERROR of
        (Some h, _) \<Rightarrow> fst (uhash_setValueDeleter (fst (uhash_setKeyDeleter h (Some 1))) (Some 2))
      | (None, _) \<Rightarrow> raw_table)"

definition owning_slots :: "UHashElement list \<Rightarrow> nat \<Rightarrow> UHashtable" where
  "owning_slots els n = raw_table\<lparr>uh_elements := els, uh_keyComparatorAddr := COMPARE_LONG,
     uh_keyDeleter := Some 1, uh_valueDeleter := Some 2, uh_count := n, uh_length := 13,
     uh_highWaterMark := 6, uh_highWaterRatio := (1, 1), uh_allocated := True\<rparr>"

definition holding_table :: UHashtable where
  "holding_table =
     owning_slots ((replicate 13 emptyElement)[9 := \<lparr>el_hashcode = 5, el_value = 7, el_key = 5\<rparr>]) 1"

lemma owning_table_eq: "owning_table = owning_slots (replicate 13 emptyElement) 0"
proof -
  have "openSize_index 0 5 = 0" by (simp add: openSize_index.simps PRIMES_def)
  then show ?thesis
    by (simp add: owning_table_def owning_slots_def uhash_openSize_def priv_uhash_create_def raw_table_def
        priv_uhash_init_def priv_uhash_allocate_def priv_uhash_internalSetResizePolicy_def Let_def U_FAILURE_def
        heap64k_def PRIMES_def RESIZE_POLICY_RATIO_TABLE_def float_mult_trunc_def round24_def
        uhash_setKeyDeleter_def uhash_setValueDeleter_def)
qed

lemma owning_table_ok: "uhash_ok owning_table"
proof -
  have "case uhash_openSize heap64k raw_table uhash_hashLong (COMPARE_LONG, uhash_compareLong) None 5 U_ZERO_ERROR of
      (None, status') \<Rightarrow> status' = U_MEMORY_ALLOCATION_ERROR
        \<and> \<not> (heap64k SIZEOF_UHashtable \<and> heap64k ((12 * PRIMES ! 0) mod 2 ^ 32))
    | (Some h, status') \<Rightarrow> uhash_ok h"
    using create_correct [of uhash_hashLong "(COMPARE_LONG, uhash_compareLong)", OF _ heap64k_limit zero_error,
        of 0 raw_table None] longs.hash_keys_axioms
    by (auto simp: uhash_openSize_def openSize_index.simps PRIMES_def split: prod.splits option.splits)
  moreover have "heap64k SIZEOF_UHashtable" "heap64k ((12 * PRIMES ! 0) mod 2 ^ 32)"
    by (simp_all add: heap64k_def PRIMES_def)
  ultimately show ?thesis
    by (auto simp: owning_table_def uhash_setKeyDeleter_def uhash_setValueDeleter_def uhash_ok_def uhash_valid_def
        split: prod.splits option.splits)
qed

lemma owning_put_5_7:
  "uhash_put heap64k owning_table 5 7 U_ZERO_ERROR = Some (holding_table, 0, U_ZERO_ERROR)"
proof -
  have fuel: "(13::nat) = Suc 12" by simp
  note f = find_loop.simps(2) [of 12, folded fuel]
  show ?thesis
    by (simp add: owning_table_eq holding_table_def owning_slots_def raw_table_def uhash_put_def priv_uhash_put_def
        U_FAILURE_def priv_uhash_find_def uhash_hashLong_def IS_EMPTY_OR_DELETED_def priv_uhash_setElement_def
        find_exit_def emptyElement_def Let_def f)
qed

lemma replicate_13: "replicate 13 x = [x, x, x, x, x, x, x, x, x, x, x, x, x]"
  by (simp add: numeral_eq_Suc)

lemma owning_slots_retaken:
  "retaken owning_table 5 7 = {#}" "retaken holding_table 5 9 = {#(1, 5)#}" "ledger owning_table = {#}"
  by (simp_all add: retaken_def element_for_def owning_table_eq holding_table_def owning_slots_def raw_table_def
      emptyElement_def occupied_def IS_EMPTY_OR_DELETED_def uhash_compareLong_def tok_of_def ledger_def owned_def
      stored_def replicate_13)

theorem uhash_releases_once_witness:
  "\<exists>h1 h2 h3. uhash_put heap64k owning_table 5 7 U_ZERO_ERROR = Some (h1, 0, U_ZERO_ERROR)
     \<and> uhash_put heap64k h1 5 9 U_ZERO_ERROR = Some (h2, 0, U_ZERO_ERROR)
     \<and> uhash_close (Some h2) = Some (h3, uh_allocated h3)
     \<and> mset (uh_deleted h3) = {#(1, 5), (2, 7), (2, 9)#}"
proof -
  let ?h1 = "holding_table"
  have f: "uh_keyDeleter owning_table = Some 1" "uh_valueDeleter owning_table = Some 2"
    "uh_keyDeleter ?h1 = Some 1" "uh_valueDeleter ?h1 = Some 2"
    "uh_count ?h1 = 1" "uh_length ?h1 = 13" "uh_highWaterMark ?h1 = 6"
    by (simp_all add: owning_table_eq holding_table_def owning_slots_def)
  have ok1: "uhash_ok ?h1"
    using put_correct [OF owning_table_ok zero_error heap64k_limit, of "HINT_KEY_POINTER OR HINT_VALUE_POINTER" 7 5]
      owning_put_5_7 by (simp add: uhash_put_def put_result_def)
  have l1: "ledger ?h1 = {#(1, 5), (2, 7)#}"
    using uhash_releases_once [OF owning_table_ok heap64k_limit, of 5 7 U_ZERO_ERROR ?h1 0 U_ZERO_ERROR]
      owning_put_5_7 zero_error by (simp add: owning_slots_retaken f tok_of_def)
  obtain h2 where h2: "uhash_put heap64k ?h1 5 9 U_ZERO_ERROR = Some (h2, 0, U_ZERO_ERROR)" "uhash_ok h2"
    using put_correct [OF ok1 zero_error heap64k_limit, of "HINT_KEY_POINTER OR HINT_VALUE_POINTER" 9 5]
    by (auto simp: uhash_put_def put_result_def growth_granted_def f)
  have l2: "ledger h2 = {#(1, 5), (2, 7), (2, 9)#}"
    using uhash_releases_once [OF ok1 heap64k_limit, of 5 9 U_ZERO_ERROR h2 0 U_ZERO_ERROR]
      h2(1) zero_error by (simp add: owning_slots_retaken f l1 tok_of_def)
  obtain h3 where h3: "uhash_close (Some h2) = Some (h3, uh_allocated h3)"
    by (simp add: uhash_close_def Let_def)
  then have "mset (uh_deleted h3) = {#(1, 5), (2, 7), (2, 9)#}"
    using uhash_releases_once [OF h2(2) heap64k_limit, of 5 0 0 undefined 0 0 undefined h3 "uh_allocated h3"] l2 by simp
  with owning_put_5_7 h2(1) h3 show ?thesis by blast
qed

text \<open>\<open>uhash_removeAll\<close> empties the table in one pass over it and leaves it usable: no key is
  mapped, the count is 0, the invariant holds, and with a deleter everything that was held has
  been released.\<close>

theorem uhash_removeAll_correct:
  assumes "uhash_ok h"
  shows "uhash_ok (uhash_removeAll h) \<and> uhash_map (uhash_removeAll h) = Map.empty
           \<and> uhash_count (uhash_removeAll h) = 0 \<and> mset (uh_deleted (uhash_removeAll h)) = ledger h"
proof -
  let ?r = "uhash_removeAll h"
  have r: "uhash_ok ?r" "stored (uh_elements ?r) = {#}" "ledger ?r = ledger h"
  proof -
    have "stored (uh_elements h) = {#}" if "uh_count h = 0"
      using that uhash_validD(4) [OF uhash_ok_valid [OF assms]] by (simp add: occ_stored)
    moreover have "clear_below h (nat (UHASH_FIRST + 1))" by (simp add: clear_below_def)
    ultimately show "uhash_ok ?r" "stored (uh_elements ?r) = {#}" "ledger ?r = ledger h"
      using removeAll_loop_correct [OF assms, of UHASH_FIRST] assms by (auto simp: uhash_removeAll_def)
  qed
  note d = uhash_validD [OF uhash_ok_valid [OF r(1)]]
  have "uhash_map ?r k = None" for k
    using hash_keys.table_map_stored [OF d(1,2), of k] r(2) unfolding uhash_map_def
    by (metis empty_iff not_None_eq set_mset_empty)
  moreover have "mset (uh_deleted ?r) = ledger h" using r(2,3) by (simp add: ledger_def owned_def)
  ultimately show ?thesis using r d(4) by (auto simp: uhash_count_def occ_stored)
qed

theorem uhash_removeAll_correct_witness:
  "uhash_ok (uhash_removeAll long_table) \<and> uhash_map (uhash_removeAll long_table) = Map.empty
     \<and> uhash_count (uhash_removeAll long_table) = 0
     \<and> mset (uh_deleted (uhash_removeAll long_table)) = ledger long_table"
  by (rule uhash_removeAll_correct [OF long_table_ok(1)])

text \<open>\<open>uhash_openSize\<close> makes an empty table satisfying the invariant whose length is the smallest
  prime of the list that is at least the requested size, or reports lack of memory, which happens
  only when one of its two allocations is refused.\<close>

theorem uhash_openSize_correct:
  assumes "hash_keys keyHash (snd keyComp)" "heap_limit malloc" "\<not> U_FAILURE status" "sz \<le> 2147483647"
  shows "case uhash_openSize malloc raw keyHash keyComp valueComp sz status of
           (None, status') \<Rightarrow> status' = U_MEMORY_ALLOCATION_ERROR
             \<and> \<not> (\<forall>n \<le> 12 * PRIMES ! openSize_index 0 sz. malloc n)
         | (Some h, status') \<Rightarrow> status' = status \<and> uhash_ok h \<and> uhash_map h = Map.empty
             \<and> sz \<le> int (uh_length h) \<and> (\<forall>q\<in>set PRIMES. sz \<le> int q \<longrightarrow> uh_length h \<le> q)"
proof -
  let ?p = "openSize_index 0 sz"
  have p: "?p < PRIMES_LENGTH" and lo: "\<forall>j<?p. int (PRIMES ! j) < sz"
    and hi: "?p < PRIMES_LENGTH - 1 \<longrightarrow> sz \<le> int (PRIMES ! ?p)"
    using openSize_index_spec [of 0 sz] by auto
  have "sz \<le> int (PRIMES ! ?p)"
  proof (cases "?p < PRIMES_LENGTH - 1")
    case False
    then have "?p = 27" using p by linarith
    then show ?thesis using assms(4) by (simp add: PRIMES_def)
  qed (use hi in blast)
  moreover have "PRIMES ! ?p \<le> q" if "q \<in> set PRIMES" "sz \<le> int q" for q
  proof -
    obtain j where j: "j < PRIMES_LENGTH" "q = PRIMES ! j"
      using \<open>q \<in> set PRIMES\<close> PRIMES_length by (auto simp: in_set_conv_nth)
    with that lo have "?p \<le> j" by (metis not_less)
    with j PRIMES_mono [of ?p j] show ?thesis by (cases "?p = j") auto
  qed
  moreover have "\<not> (\<forall>n \<le> 12 * PRIMES ! ?p. malloc n)"
    if "\<not> (malloc SIZEOF_UHashtable \<and> malloc ((12 * PRIMES ! ?p) mod 2 ^ 32))"
  proof -
    have "SIZEOF_UHashtable \<le> 12 * PRIMES ! ?p"
      using PRIMES_mono [of 0 ?p] p by (cases "?p = 0") (auto simp: PRIMES_def)
    moreover have "(12 * PRIMES ! ?p) mod 2 ^ 32 \<le> 12 * PRIMES ! ?p" by (rule mod_less_eq_dividend)
    ultimately show ?thesis using that by blast
  qed
  ultimately show ?thesis
    using create_correct [OF assms(1-3) p, of raw valueComp] unfolding uhash_openSize_def
    by (auto simp only: split: prod.splits option.splits)
qed

theorem uhash_openSize_correct_witness:
  "case uhash_openSize heap64k raw_table uhash_hashLong (COMPARE_LONG, uhash_compareLong) None 100 U_ZERO_ERROR of
     (None, status') \<Rightarrow> status' = U_MEMORY_ALLOCATION_ERROR
       \<and> \<not> (\<forall>n \<le> 12 * PRIMES ! openSize_index 0 100. heap64k n)
   | (Some h, status') \<Rightarrow> status' = U_ZERO_ERROR \<and> uhash_ok h \<and> uhash_map h = Map.empty
       \<and> 100 \<le> int (uh_length h) \<and> (\<forall>q\<in>set PRIMES. 100 \<le> int q \<longrightarrow> uh_length h \<le> q)"
  by (rule uhash_openSize_correct [OF _ heap64k_limit zero_error]) (simp_all add: longs.hash_keys_axioms)

text \<open>The header says that storing the value 0 with \<open>uhash_iputi\<close> removes the key. It does not:
  when the call does not run out of memory, the key is mapped to 0 afterwards.\<close>

theorem uhash_iputi_stores_zero:
  assumes "uhash_ok h" "\<not> U_FAILURE status" "heap_limit malloc" "growth_granted malloc h"
    "uh_count h + 1 \<noteq> uh_length h"
  shows "\<exists>h' old. uhash_iputi malloc h key 0 status = Some (h', old, status) \<and> uhash_map h' key = Some 0"
proof -
  obtain h' old status' where r: "uhash_iputi malloc h key 0 status = Some (h', old, status')"
      "put_result h key 0 status (h', old, status')" "status' = status"
    using put_correct [OF assms(1-3), of 0 0 key] assms(4,5) unfolding uhash_iputi_def by auto
  have "uh_keyComparator h key key"
    using hash_keys.keq_refl [OF uhash_validD(1) [OF uhash_ok_valid [OF assms(1)]]] .
  with r assms(2) show ?thesis by (auto simp: put_result_def U_FAILURE_def)
qed

theorem uhash_iputi_stores_zero_witness:
  "\<exists>h' old. uhash_iputi heap64k long_table 5 0 U_ZERO_ERROR = Some (h', old, U_ZERO_ERROR)
     \<and> uhash_map h' 5 = Some 0"
proof (rule uhash_iputi_stores_zero [OF long_table_ok(1) zero_error heap64k_limit])
  show "growth_granted heap64k long_table" using long_table_ok(3) by (simp add: growth_granted_def)
  show "uh_count long_table + 1 \<noteq> uh_length long_table" using long_table_ok(3,4) by simp
qed

text \<open>C35: A reallocation that fails, of a growing or of a shrinking table, leaves the table inconsistent:
  the elements and the length are put back, but the prime index stays the one of the length that
  was asked for, so the length is no longer the prime of the index and the next resize starts from
  the wrong one. A put into a table that had to grow reports the lack of memory and leaves the
  same inconsistency.\<close>

theorem uhash_rehash_failure_desync:
  assumes "uhash_ok h" "\<not> U_FAILURE status"
    and dir: "uh_count h > uh_highWaterMark h \<and> p = uh_primeIndex h + 1 \<and> p < PRIMES_LENGTH
      \<or> uh_count h < uh_lowWaterMark h \<and> \<not> uh_count h > uh_highWaterMark h \<and> uh_primeIndex h = p + 1"
    and "\<not> malloc ((12 * PRIMES ! p) mod 2 ^ 32)"
  shows "(\<exists>h'. priv_uhash_rehash malloc h status = Some (h', U_MEMORY_ALLOCATION_ERROR)
           \<and> uh_elements h' = uh_elements h \<and> uh_length h' = uh_length h \<and> uh_primeIndex h' = p
           \<and> uh_length h' \<noteq> PRIMES ! p \<and> \<not> uhash_ok h')
       \<and> (uh_count h > uh_highWaterMark h \<and> val \<noteq> 0 \<longrightarrow>
           (\<exists>h'. uhash_put malloc h key val status = Some (h', 0, U_MEMORY_ALLOCATION_ERROR)
             \<and> uh_elements h' = uh_elements h \<and> uh_length h' = uh_length h \<and> uh_primeIndex h' = p
             \<and> \<not> uhash_ok h'))"
proof -
  let ?h = "h\<lparr>uh_primeIndex := p\<rparr>"
  have fail: "U_FAILURE U_MEMORY_ALLOCATION_ERROR" by (simp add: U_FAILURE_def)
  have len: "uh_length h = PRIMES ! uh_primeIndex h" "uh_primeIndex h < PRIMES_LENGTH"
    using assms(1) by (simp_all add: uhash_ok_def)
  then have ne: "uh_length h \<noteq> PRIMES ! p"
    using dir PRIMES_mono [of p "uh_primeIndex h"] PRIMES_mono [of "uh_primeIndex h" p] by auto
  then have bad: "\<not> uhash_ok ?h" by (simp add: uhash_ok_def)
  have new: "(if uh_count h > uh_highWaterMark h then int (uh_primeIndex h) + 1 else int (uh_primeIndex h) - 1) = int p"
    using dir by auto
  have re: "priv_uhash_rehash malloc h status = Some (?h, U_MEMORY_ALLOCATION_ERROR)"
    unfolding priv_uhash_rehash_def Let_def new nat_int
      allocate_fail [where malloc = malloc and p = p and hash = h, OF assms(2,4)]
    using dir len(2) fail by auto
  have "uhash_put malloc h key val status = Some (HASH_DELETE_KEY_VALUE ?h key val, 0, U_MEMORY_ALLOCATION_ERROR)"
    if "uh_count h > uh_highWaterMark h" "val \<noteq> 0"
    using that re fail put_unfold [OF assms(2), of "HINT_KEY_POINTER OR HINT_VALUE_POINTER" val]
    by (simp add: uhash_put_def)
  moreover have "uh_length (HASH_DELETE_KEY_VALUE ?h key val) = uh_length h"
    "uh_primeIndex (HASH_DELETE_KEY_VALUE ?h key val) = p"
    by (simp_all add: HASH_DELETE_KEY_VALUE_def)
  ultimately show ?thesis
    using ne bad unfolding re by (intro conjI impI) (rule exI [of _ ?h], simp, elim conjE, simp)
qed

definition shrinking_table :: UHashtable where
  "shrinking_table = long_table\<lparr>uh_lowWaterRatio := (13421773, 27), uh_highWaterRatio := (1, 1),
     uh_lowWaterMark := float_mult_trunc 127 (13421773, 27),
     uh_highWaterMark := float_mult_trunc 127 (1, 1)\<rparr>"

lemma shrinking_table_ok:
  "uhash_ok shrinking_table" "uh_count shrinking_table < uh_lowWaterMark shrinking_table"
  "uh_primeIndex shrinking_table = 3" "uh_count shrinking_table = 0"
proof -
  have r: "(uh_lowWaterRatio shrinking_table, uh_highWaterRatio shrinking_table) = policy_ratios U_GROW_AND_SHRINK"
    by (simp add: shrinking_table_def policy_ratios_def RESIZE_POLICY_RATIO_TABLE_def)
  show "uhash_ok shrinking_table"
    using long_table_ok(1,4) r unfolding uhash_ok_def
    by (simp add: shrinking_table_def uhash_valid_def) metis
  have "2 ^ 27 \<le> round24 1704565171" using round24_bounds(2) [of 1704565171] by simp
  then have "1 \<le> float_mult_trunc 127 (13421773, 27)"
    by (simp add: float_mult_trunc_def round24_def [of 127] div_greater_zero_iff Suc_le_eq)
  then show "uh_count shrinking_table < uh_lowWaterMark shrinking_table"
    using long_table_ok(3) by (simp add: shrinking_table_def)
  have p: "PRIMES ! uh_primeIndex long_table = PRIMES ! 3" "uh_primeIndex long_table < PRIMES_LENGTH"
    using long_table_ok(1,4) by (simp_all add: uhash_ok_def PRIMES_def)
  then have "uh_primeIndex long_table = 3"
    using PRIMES_mono [of "uh_primeIndex long_table" 3] PRIMES_mono [of 3 "uh_primeIndex long_table"]
    by (cases "uh_primeIndex long_table" "3::nat" rule: linorder_cases) auto
  then show "uh_primeIndex shrinking_table = 3" by (simp add: shrinking_table_def)
  show "uh_count shrinking_table = 0" using long_table_ok(3) by (simp add: shrinking_table_def)
qed

theorem uhash_rehash_failure_desync_witness:
  "\<exists>h'. priv_uhash_rehash (\<lambda>_. False) shrinking_table U_ZERO_ERROR = Some (h', U_MEMORY_ALLOCATION_ERROR)
     \<and> uh_elements h' = uh_elements shrinking_table \<and> uh_length h' = uh_length shrinking_table
     \<and> uh_primeIndex h' = 2 \<and> uh_length h' \<noteq> PRIMES ! 2 \<and> \<not> uhash_ok h'"
  using uhash_rehash_failure_desync [OF shrinking_table_ok(1) zero_error, of 2 "\<lambda>_. False"] shrinking_table_ok(2-4)
  by simp

text \<open>The byte count of an element array is computed in a 32-bit \<open>size_t\<close>. For a requested size of
  300 million elements it wraps around, so where the allocator grants the wrapped request
  \<open>uhash_openSize\<close> returns a table whose length is three times the number of elements it has room
  for, and filling it with empty elements writes past the block.\<close>

theorem uhash_openSize_overflow:
  "\<exists>h. uhash_openSize (\<lambda>_. True) raw_table uhash_hashLong (COMPARE_LONG, uhash_compareLong) None 300000000 U_ZERO_ERROR
         = (Some h, U_ZERO_ERROR)
     \<and> uh_length h = 536870909 \<and> length (uh_elements h) = 178956967"
proof -
  have "openSize_index 0 300000000 = 25"
    by (simp add: openSize_index.simps PRIMES_def)
  then show ?thesis
    by (simp add: uhash_openSize_def priv_uhash_create_def priv_uhash_init_def priv_uhash_allocate_def
        Let_def U_FAILURE_def PRIMES_def priv_uhash_internalSetResizePolicy_def)
qed

text \<open>The header says that a table with a key deleter owns the key after \<open>uhash_put\<close>. With a NULL
  value the call only removes: the key that was passed in is neither stored nor released.\<close>

theorem uhash_put_null_drops_key:
  assumes "uhash_ok h" "\<not> U_FAILURE status" "heap_limit malloc"
  shows "\<exists>h' old. uhash_put malloc h key 0 status = Some (h', old, status) \<and> ledger h' = ledger h
           \<and> uhash_map h' = (\<lambda>k. if uh_keyComparator h k key then None else uhash_map h k)"
proof -
  obtain h' old where r: "priv_uhash_remove malloc h key = Some (h', old)"
      "uhash_map h' = (\<lambda>k. if uh_keyComparator h k key then None else uhash_map h k)"
    using remove_correct [OF assms(1,3)] by blast
  with remove_ledger [OF assms(1,3)] assms(2) show ?thesis
    by (simp add: uhash_put_def priv_uhash_put_def)
qed

theorem uhash_put_null_drops_key_witness:
  "\<exists>h' old. uhash_put heap64k owning_table 5 0 U_ZERO_ERROR = Some (h', old, U_ZERO_ERROR)
     \<and> ledger h' = ledger owning_table
     \<and> uhash_map h' = (\<lambda>k. if uh_keyComparator owning_table k 5 then None else uhash_map owning_table k)"
  by (rule uhash_put_null_drops_key [OF owning_table_ok zero_error heap64k_limit])

end
