(* ===== verification/UHashStrings.thy ===== *)
theory UHashStrings
  imports CString UHashProps
begin

text \<open>
  The key functions for strings of \<open>Source/icu/uhash.c\<close>, with the string hash of
  \<open>Source/icu/ustring.cpp\<close>, as instances of the contract of the hash table, and the comparison of
  two tables. Keys are pointers; \<open>mem\<close> gives the bytes (or code units) from a pointer to the end of
  its object, which a table with string keys relies on not changing.
\<close>

section \<open>Model\<close>

text \<open>The loop of \<open>STRING_HASH\<close> looks at every \<open>inc\<close>-th unit, at most about 32 of them. \<open>inc\<close> is
  positive for every length but 0, where the loop is not entered.\<close>

function string_hash_loop :: "32 word list \<Rightarrow> nat \<Rightarrow> nat \<Rightarrow> 32 word \<Rightarrow> 32 word" where
  "string_hash_loop units inc p hash =
     (if p < length units \<and> 0 < inc
      then string_hash_loop units inc (p + inc) (hash * 37 + units ! p) else hash)"
  by pat_completeness auto
termination
  by (relation "measure (\<lambda>(units, inc, p, hash). length units - p)") auto

declare string_hash_loop.simps [simp del]

definition STRING_HASH :: "32 word list \<Rightarrow> 32 word" where
  "STRING_HASH units =
     string_hash_loop units (nat ((int (length units) - 32) sdiv 32 + 1)) 0 0"

definition ustr_hashUCharsN :: "16 word list \<Rightarrow> 32 word" where
  "ustr_hashUCharsN s = STRING_HASH (map ucast s)"

definition ustr_hashCharsN :: "cchar list \<Rightarrow> 32 word" where
  "ustr_hashCharsN s = STRING_HASH (map ucast s)"

definition ustr_hashICharsN :: "cchar list \<Rightarrow> 32 word" where
  "ustr_hashICharsN s = STRING_HASH (map (\<lambda>c. ucast (uprv_asciitolower c)) s)"

definition uhash_hashUChars :: "(UHashTok \<Rightarrow> 16 word list) \<Rightarrow> UHashTok \<Rightarrow> 32 word" where
  "uhash_hashUChars mem key = (if key = 0 then 0 else ustr_hashUCharsN (cstr (mem key)))"

definition uhash_hashChars :: "(UHashTok \<Rightarrow> cchar list) \<Rightarrow> UHashTok \<Rightarrow> 32 word" where
  "uhash_hashChars mem key = (if key = 0 then 0 else ustr_hashCharsN (cstr (mem key)))"

definition uhash_hashIChars :: "(UHashTok \<Rightarrow> cchar list) \<Rightarrow> UHashTok \<Rightarrow> 32 word" where
  "uhash_hashIChars mem key = (if key = 0 then 0 else ustr_hashICharsN (cstr (mem key)))"

function compare_loop :: "'a::len word list \<Rightarrow> 'a word list \<Rightarrow> bool" where
  "compare_loop p1 p2 =
     (if hd0 p1 \<noteq> 0 \<and> hd0 p1 = hd0 p2 then compare_loop (tl p1) (tl p2) else hd0 p1 = hd0 p2)"
  by pat_completeness auto
termination
  by (relation "measure (\<lambda>(p1, p2). length p1)") (auto simp: hd0_def split: list.splits)

function compareI_loop :: "cchar list \<Rightarrow> cchar list \<Rightarrow> bool" where
  "compareI_loop p1 p2 =
     (if hd0 p1 \<noteq> 0 \<and> uprv_asciitolower (hd0 p1) = uprv_asciitolower (hd0 p2)
      then compareI_loop (tl p1) (tl p2) else hd0 p1 = hd0 p2)"
  by pat_completeness auto
termination
  by (relation "measure (\<lambda>(p1, p2). length p1)") (auto simp: hd0_def split: list.splits)

declare compare_loop.simps [simp del] compareI_loop.simps [simp del]

definition uhash_compareUChars :: "(UHashTok \<Rightarrow> 16 word list) \<Rightarrow> UHashTok \<Rightarrow> UHashTok \<Rightarrow> bool" where
  "uhash_compareUChars mem p1 p2 \<longleftrightarrow>
     (if p1 = p2 then True else if p1 = 0 \<or> p2 = 0 then False else compare_loop (mem p1) (mem p2))"

definition uhash_compareChars :: "(UHashTok \<Rightarrow> cchar list) \<Rightarrow> UHashTok \<Rightarrow> UHashTok \<Rightarrow> bool" where
  "uhash_compareChars mem p1 p2 \<longleftrightarrow>
     (if p1 = p2 then True else if p1 = 0 \<or> p2 = 0 then False else compare_loop (mem p1) (mem p2))"

definition uhash_compareIChars :: "(UHashTok \<Rightarrow> cchar list) \<Rightarrow> UHashTok \<Rightarrow> UHashTok \<Rightarrow> bool" where
  "uhash_compareIChars mem p1 p2 \<longleftrightarrow>
     (if p1 = p2 then True else if p1 = 0 \<or> p2 = 0 then False else compareI_loop (mem p1) (mem p2))"

section \<open>The key contract\<close>

lemma cstr_hd0:
  "hd0 s = 0 \<Longrightarrow> cstr s = []" "hd0 s \<noteq> 0 \<Longrightarrow> cstr s = hd0 s # cstr (tl s)"
  by (cases s; simp add: hd0_def cstr_def)+

lemma compare_loop_cstr: "compare_loop p1 p2 \<longleftrightarrow> cstr p1 = cstr p2"
proof (induction p1 p2 rule: compare_loop.induct)
  case (1 p1 p2)
  then show ?case
    by (subst compare_loop.simps) (cases "hd0 p1 = 0"; cases "hd0 p2 = 0"; auto simp: cstr_hd0)
qed

lemma tolower_zero [simp]: "uprv_asciitolower c = 0 \<longleftrightarrow> c = 0"
proof -
  have "c + 0x20 \<noteq> 0" if "0x41 \<le> sint c"
  proof
    assume "c + 0x20 = 0"
    then have "c = - 0x20" by (simp add: eq_neg_iff_add_eq_0)
    then show False using that by simp
  qed
  then show ?thesis by (auto simp: uprv_asciitolower_def)
qed

lemma tolower_0 [simp]: "uprv_asciitolower 0 = 0"
  by simp

lemma compareI_loop_cstr:
  "compareI_loop p1 p2 \<longleftrightarrow> map uprv_asciitolower (cstr p1) = map uprv_asciitolower (cstr p2)"
proof (induction p1 p2 rule: compareI_loop.induct)
  case (1 p1 p2)
  show ?case
  proof (cases "hd0 p1 = 0")
    case True
    then show ?thesis
      by (subst compareI_loop.simps) (cases "hd0 p2 = 0"; auto simp: cstr_hd0)
  next
    case False
    then show ?thesis using 1
      by (subst compareI_loop.simps)
        (cases "hd0 p2 = 0"; auto simp: cstr_hd0 tolower_zero)
  qed
qed

interpretation chars: hash_keys "uhash_hashChars mem" "uhash_compareChars mem"
  for mem
  by unfold_locales
    (auto simp: uhash_compareChars_def uhash_hashChars_def compare_loop_cstr split: if_splits)

interpretation uchars: hash_keys "uhash_hashUChars mem" "uhash_compareUChars mem"
  for mem
  by unfold_locales
    (auto simp: uhash_compareUChars_def uhash_hashUChars_def compare_loop_cstr split: if_splits)

lemma ustr_hashICharsN_fold:
  "map uprv_asciitolower a = map uprv_asciitolower b \<Longrightarrow> ustr_hashICharsN a = ustr_hashICharsN b"
proof -
  assume "map uprv_asciitolower a = map uprv_asciitolower b"
  then have "map ucast (map uprv_asciitolower a) = (map ucast (map uprv_asciitolower b) :: 32 word list)"
    by (rule arg_cong)
  then show ?thesis by (simp add: ustr_hashICharsN_def comp_def)
qed

interpretation ichars: hash_keys "uhash_hashIChars mem" "uhash_compareIChars mem"
  for mem
  by unfold_locales
    (auto simp: uhash_compareIChars_def uhash_hashIChars_def compareI_loop_cstr
      intro: ustr_hashICharsN_fold split: if_splits)

section \<open>Comparing tables\<close>

definition value_in :: "UHashtable \<Rightarrow> UHashTok \<Rightarrow> UHashTok" where
  "value_in h k = (case uhash_map h k of None \<Rightarrow> 0 | Some v \<Rightarrow> v)"

lemma uhash_map_cong:
  assumes "uhash_valid h" "uh_keyComparator h k k'"
  shows "uhash_map h k = uhash_map h k'"
proof -
  note d = uhash_validD(1,2) [OF assms(1)]
  have "uhash_map h k = Some v \<longleftrightarrow> uhash_map h k' = Some v" for v
    unfolding uhash_map_def hash_keys.table_map_stored [OF d]
    using assms(2) hash_keys.keq_trans [OF d(1)] hash_keys.keq_sym [OF d(1)] by metis
  then show ?thesis by (metis option.exhaust)
qed

lemma equals_loop_correct:
  assumes v1: "uhash_valid h1" and v2: "uhash_valid h2" and "-1 \<le> pos"
    and n: "n = occ (drop (nat (pos + 1)) (uh_elements h1))"
  shows "equals_loop n h1 h2 vc pos =
           Some (\<forall>e. e \<in># stored (drop (nat (pos + 1)) (uh_elements h1)) \<longrightarrow> vc (el_value e) (value_in h2 (el_key e)))"
  using assms(3,4)
proof (induction n arbitrary: pos)
  case 0
  then show ?case by (simp add: occ_stored)
next
  case (Suc n)
  let ?els = "uh_elements h1" let ?i = "nat (pos + 1)"
  have len: "uh_length h1 = length ?els" by (rule uhash_validD(3) [OF v1])
  obtain e where "e \<in># stored (drop ?i ?els)"
    using Suc.prems(2) by (metis Zero_not_Suc multiset_nonemptyE occ_stored size_empty)
  then obtain k where "?i \<le> k" "k < uh_length h1" "occupied (?els ! k)"
    unfolding in_stored len by (metis length_drop less_diff_conv nth_drop le_add1 add.commute less_imp_le_nat linorder_not_le drop_all list.size(3) not_less0)
  then obtain j where j: "nextElement_loop h1 ?i = Some j" using nextElement_loop_None [of h1 ?i k] by blast
  note js = nextElement_loop_Some [OF j]
  obtain i2 where f: "priv_uhash_find h2 (el_key (?els ! j)) (uh_keyHasher h2 (el_key (?els ! j))) = Some i2"
    "found (uh_keyHasher h2) (uh_keyComparator h2) (uh_elements h2) (el_key (?els ! j)) i2"
    by (rule find_key [OF v2])
  have st: "stored (drop ?i ?els) = add_mset (?els ! j) (stored (drop (Suc j) ?els))"
  proof -
    have "stored (drop ?i ?els) = stored (drop j ?els)"
      using js len by (intro stored_drop_take) auto
    also have "\<dots> = add_mset (?els ! j) (stored (drop (Suc j) ?els))"
      using js len stored_drop_Suc [of j ?els] by simp
    finally show ?thesis .
  qed
  have "n = occ (drop (nat (int j + 1)) ?els)"
    using Suc.prems(2) st by (simp add: occ_stored nat_add_distrib)
  then have IH: "equals_loop n h1 h2 vc (int j) =
      Some (\<forall>e. e \<in># stored (drop (Suc j) ?els) \<longrightarrow> vc (el_value e) (value_in h2 (el_key e)))"
    using Suc.IH [of "int j"] by (simp add: nat_add_distrib)
  have "el_value (uh_elements h2 ! i2) = value_in h2 (el_key (?els ! j))"
    using found_value [OF v2 f(2)] by (simp add: value_in_def)
  then show ?case using j f(1) IH
    by (auto simp: uhash_nextElement_def Let_def st)
qed

text \<open>C34: \<open>uhash_equals\<close> always returns. Two pointers to the same table compare equal; otherwise the answer
  is no unless both tables have the same key comparator and the same value comparator, compared by
  address, which is not NULL, and then it compares the counts and looks every key of the first table
  up in the second: it is whether every value of the first compares equal to what \<open>uhash_get\<close> gives
  for its key in the second. The last hypothesis is that one address holds one function.\<close>

theorem uhash_equals_correct:
  assumes "uhash_valid h1" "uhash_valid h2"
    and "uh_keyComparatorAddr h1 = uh_keyComparatorAddr h2 \<Longrightarrow> uh_keyComparator h1 = uh_keyComparator h2"
  shows "uhash_equals (Some (p1, h1)) (Some (p2, h2)) =
           Some (p1 = p2
             \<or> uh_keyComparatorAddr h1 = uh_keyComparatorAddr h2
               \<and> uh_valueComparatorAddr h1 = uh_valueComparatorAddr h2
               \<and> (\<exists>vc. uh_valueComparator h1 = Some vc \<and> uhash_count h1 = uhash_count h2
                    \<and> (\<forall>k v. uhash_map h1 k = Some v \<longrightarrow> (\<exists>w. uhash_get h2 k = Some w \<and> vc v w))))"
proof (cases "p1 \<noteq> p2 \<and> uh_keyComparatorAddr h1 = uh_keyComparatorAddr h2
    \<and> uh_valueComparatorAddr h1 = uh_valueComparatorAddr h2 \<and> uh_valueComparator h1 \<noteq> None")
  case True
  then obtain vc where vc: "uh_valueComparator h1 = Some vc" by blast
  note d = uhash_validD [OF assms(1)]
  have get: "(\<exists>w. uhash_get h2 k = Some w \<and> vc v w) \<longleftrightarrow> vc v (value_in h2 k)" for k v
    using get_correct [OF assms(2)] by (simp add: value_in_def)
  have cong: "value_in h2 k = value_in h2 k'" if "uh_keyComparator h1 k k'" for k k'
    using uhash_map_cong [OF assms(2), of k k'] that assms(3) True by (simp add: value_in_def)
  have cnt: "uhash_count h1 = occ (drop (nat (UHASH_FIRST + 1)) (uh_elements h1))"
    using d(4) by (simp add: uhash_count_def)
  have "(\<forall>e. e \<in># stored (uh_elements h1) \<longrightarrow> vc (el_value e) (value_in h2 (el_key e))) \<longleftrightarrow>
      (\<forall>k v. uhash_map h1 k = Some v \<longrightarrow> vc v (value_in h2 k))"
    unfolding uhash_map_def hash_keys.table_map_stored [OF d(1,2)]
    using cong hash_keys.keq_refl [OF d(1)] by metis
  then show ?thesis
    using equals_loop_correct [OF assms(1,2) _ cnt, of vc] vc True by (auto simp: uhash_equals_def get)
qed (auto simp: uhash_equals_def)

text \<open>Two tables at different addresses that both map 5 to 7 and have the same comparators are equal; the
  same contents without a value comparator are not.\<close>

definition eq_table :: UHashtable where
  "eq_table = fst (uhash_setValueComparator holding_table (Some (COMPARE_LONG, uhash_compareLong)))"

lemma holding_table_valid: "uhash_valid holding_table"
  using put_correct [OF owning_table_ok zero_error heap64k_limit, of "HINT_KEY_POINTER OR HINT_VALUE_POINTER" 7 5]
    owning_put_5_7 uhash_ok_valid by (simp add: uhash_put_def put_result_def)

lemma eq_table_valid: "uhash_valid eq_table"
  using holding_table_valid by (simp add: eq_table_def uhash_setValueComparator_def uhash_valid_def)

theorem uhash_equals_correct_witness:
  "uhash_equals (Some (1000, eq_table)) (Some (2000, eq_table)) = Some True
     \<and> uhash_equals (Some (1000, eq_table)) (Some (2000, holding_table)) = Some False"
proof
  have a: "uh_valueComparator eq_table = Some uhash_compareLong" "uh_valueComparatorAddr eq_table = Some COMPARE_LONG"
    "uh_valueComparatorAddr holding_table = None" "uh_keyComparator eq_table = uh_keyComparator holding_table"
    by (simp_all add: eq_table_def uhash_setValueComparator_def holding_table_def owning_slots_def raw_table_def)
  show "uhash_equals (Some (1000, eq_table)) (Some (2000, eq_table)) = Some True"
    using uhash_equals_correct [OF eq_table_valid eq_table_valid refl, of 1000 2000] a
    by (auto simp: get_correct [OF eq_table_valid] uhash_compareLong_def)
  show "uhash_equals (Some (1000, eq_table)) (Some (2000, holding_table)) = Some False"
    using uhash_equals_correct [OF eq_table_valid holding_table_valid a(4), of 1000 2000] a by simp
qed

text \<open>A lookup gives 0 both for a missing key and for a stored 0, so tables with different keys can
  compare equal: a table that maps only the key 1, to 0, and a table that maps only the key 2, to 0,
  are equal for \<open>uhash_equals\<close>.\<close>

definition zero_table :: "UHashTok \<Rightarrow> UHashtable" where
  "zero_table k = (case uhash_openSize heap64k raw_table uhash_hashLong (COMPARE_LONG, uhash_compareLong)
                           (Some (COMPARE_LONG, uhash_compareLong)) 5 U_ZERO_ERROR of
      (Some h, _) \<Rightarrow> (case uhash_iputi heap64k h k 0 U_ZERO_ERROR of Some (h', _) \<Rightarrow> h' | None \<Rightarrow> h)
    | (None, _) \<Rightarrow> raw_table)"

definition one_element :: "nat \<Rightarrow> UHashTok \<Rightarrow> UHashtable" where
  "one_element i k = raw_table\<lparr>uh_elements := (replicate 13 emptyElement)[i := \<lparr>el_hashcode = k, el_value = 0, el_key = k\<rparr>],
     uh_keyComparatorAddr := COMPARE_LONG, uh_valueComparator := Some uhash_compareLong,
     uh_valueComparatorAddr := Some COMPARE_LONG, uh_count := 1, uh_length := 13,
     uh_highWaterMark := 6, uh_highWaterRatio := (1, 1), uh_allocated := True\<rparr>"

lemma zero_table_eq: "zero_table 1 = one_element 5 1" "zero_table 2 = one_element 6 2"
proof -
  have ix: "openSize_index 0 5 = 0" by (simp add: openSize_index.simps PRIMES_def)
  have fuel: "(13::nat) = Suc 12" by simp
  note f = find_loop.simps(2) [of 12, folded fuel]
  note defs = zero_table_def one_element_def raw_table_def uhash_openSize_def ix priv_uhash_create_def
    priv_uhash_init_def priv_uhash_allocate_def priv_uhash_internalSetResizePolicy_def Let_def U_FAILURE_def
    heap64k_def PRIMES_def RESIZE_POLICY_RATIO_TABLE_def float_mult_trunc_def round24_def
    uhash_iputi_def priv_uhash_put_def priv_uhash_find_def uhash_hashLong_def IS_EMPTY_OR_DELETED_def
    priv_uhash_setElement_def find_exit_def emptyElement_def
  show "zero_table 1 = one_element 5 1" by (simp add: defs f)
  show "zero_table 2 = one_element 6 2" by (simp add: defs f)
qed

theorem uhash_equals_ignores_keys:
  "uhash_equals (Some (1000, zero_table 1)) (Some (2000, zero_table 2)) = Some True
     \<and> uhash_find (zero_table 1) 1 \<noteq> Some None \<and> uhash_find (zero_table 2) 1 = Some None"
proof -
  have fuel: "(13::nat) = Suc 12" by simp
  note f = find_loop.simps(2) [of 12, folded fuel]
  note defs = one_element_def raw_table_def Let_def priv_uhash_find_def uhash_hashLong_def
    IS_EMPTY_OR_DELETED_def find_exit_def emptyElement_def uhash_find_def uhash_compareLong_def
  have nxt: "nextElement_loop (one_element 5 1) 0 = Some 5"
    by (simp add: one_element_def emptyElement_def IS_EMPTY_OR_DELETED_def nextElement_loop.simps
        eval_nat_numeral)
  have fnd: "priv_uhash_find (one_element 6 2) 1 1 = Some 5"
    by (simp add: defs f)
  have "el_value (uh_elements (one_element 6 2) ! 5) = 0" "el_key (uh_elements (one_element 5 1) ! 5) = 1"
    "el_value (uh_elements (one_element 5 1) ! 5) = 0" "uh_keyHasher (one_element 6 2) 1 = 1"
    "uh_count (one_element 5 1) = 1" "uh_count (one_element 6 2) = 1"
    "uh_valueComparator (one_element 5 1) = Some uhash_compareLong"
    "uh_keyComparatorAddr (one_element 5 1) = uh_keyComparatorAddr (one_element 6 2)"
    "uh_valueComparatorAddr (one_element 5 1) = uh_valueComparatorAddr (one_element 6 2)"
    by (simp_all add: defs)
  with nxt fnd have "uhash_equals (Some (1000, one_element 5 1)) (Some (2000, one_element 6 2)) = Some True"
    by (simp add: uhash_equals_def uhash_count_def uhash_nextElement_def uhash_compareLong_def)
  moreover have "uhash_find (one_element 5 1) 1 \<noteq> Some None" "uhash_find (one_element 6 2) 1 = Some None"
    by (simp_all add: defs f)
  ultimately show ?thesis by (simp add: zero_table_eq)
qed

end
