(* ===== verification/Utf8.thy ===== *)
theory Utf8
  imports Prelude "HOL-Library.Monad_Syntax"
begin

text \<open>
  \<open>Source/icu/utf_impl.c\<close>: the out-of-line parts of the UTF-8 macros of \<open>unicode/utf8.h\<close> for
  reading forward and backward, appending and finding a boundary. A string is the array of its
  bytes, \<open>UChar32\<close> and the offsets are integers, and every access to the array is checked: reading
  or writing outside it is \<open>None\<close>.
\<close>

unbundle bit_operations_syntax

section \<open>Data and macros\<close>

type_synonym byte = "8 word"

definition rd :: "byte list \<Rightarrow> int \<Rightarrow> byte option" where
  "rd s i = (if 0 \<le> i \<and> i < int (length s) then Some (s ! nat i) else None)"

definition wr :: "byte list \<Rightarrow> int \<Rightarrow> byte \<Rightarrow> byte list option" where
  "wr s i b = (if 0 \<le> i \<and> i < int (length s) then Some (s[nat i := b]) else None)"

definition utf8_countTrailBytes :: "nat list" where
  "utf8_countTrailBytes =
     replicate 192 0 @ replicate 32 1 @ replicate 16 2 @ replicate 5 3 @ replicate 3 3
     @ replicate 4 4 @ replicate 2 5 @ replicate 2 0"

definition U8_COUNT_TRAIL_BYTES :: "byte \<Rightarrow> nat" where
  "U8_COUNT_TRAIL_BYTES leadByte =
     (if leadByte < 0xF0 then of_bool (leadByte \<ge> 0xC0) + of_bool (leadByte \<ge> 0xE0)
      else if leadByte < 0xFE then 3 + of_bool (leadByte \<ge> 0xF8) + of_bool (leadByte \<ge> 0xFC)
      else 0)"

definition U8_MASK_LEAD_BYTE :: "int \<Rightarrow> nat \<Rightarrow> int" where
  "U8_MASK_LEAD_BYTE leadByte countTrailBytes = leadByte AND (push_bit (6 - countTrailBytes) 1 - 1)"

definition U8_IS_TRAIL :: "byte \<Rightarrow> bool" where
  "U8_IS_TRAIL c \<longleftrightarrow> c AND 0xC0 = 0x80"

definition U_IS_SURROGATE :: "int \<Rightarrow> bool" where
  "U_IS_SURROGATE c \<longleftrightarrow> c AND 0xFFFFF800 = 0xD800"

definition U_IS_UNICODE_NONCHAR :: "int \<Rightarrow> bool" where
  "U_IS_UNICODE_NONCHAR c \<longleftrightarrow>
     c \<ge> 0xFDD0 \<and> (c mod 2 ^ 32 \<le> 0xFDEF \<or> c AND 0xFFFE = 0xFFFE) \<and> c mod 2 ^ 32 \<le> 0x10FFFF"

abbreviation (input) U_SENTINEL :: int where "U_SENTINEL \<equiv> -1"

definition utf8_minLegal :: "int list" where
  "utf8_minLegal = [0, 0x80, 0x800, 0x10000]"

definition utf8_errorValue :: "int list" where
  "utf8_errorValue = [0x15, 0x9F, 0xFFFF, 0x10FFFF, 0x3FFFFFF, 0x7FFFFFFF]"

definition errorValue :: "nat \<Rightarrow> int \<Rightarrow> int" where
  "errorValue cnt strict =
     (if strict \<ge> 0 then utf8_errorValue ! cnt
      else if strict = -3 then 0xFFFD
      else U_SENTINEL)"

section \<open>Reading forward\<close>

text \<open>The switch of \<open>utf8_nextCharSafeBody\<close>, one function per label that falls through to the next.
  \<open>Some None\<close> is a \<open>break\<close>, \<open>Some (Some (c, i))\<close> the return of a correct sequence.\<close>

definition next_case1 :: "byte list \<Rightarrow> int \<Rightarrow> int \<Rightarrow> nat \<Rightarrow> int \<Rightarrow> (int \<times> int) option option" where
  "next_case1 s i c cnt strict =
     do {
       b \<leftarrow> rd s i;
       let trail = uint (b - 0x80);
       let c = push_bit 6 c OR trail;
       Some (if trail > 0x3F then None
             else if c \<ge> utf8_minLegal ! cnt \<and> (strict \<le> 0 \<or> \<not> U_IS_UNICODE_NONCHAR c)
             then Some (c, i + 1) else None)
     }"

definition next_case2 :: "byte list \<Rightarrow> int \<Rightarrow> int \<Rightarrow> nat \<Rightarrow> int \<Rightarrow> (int \<times> int) option option" where
  "next_case2 s i c cnt strict =
     do {
       b \<leftarrow> rd s i;
       let trail = uint (b - 0x80);
       let c = push_bit 6 c OR trail;
       if c AND 0xFFE0 = 0x360 \<and> strict \<noteq> -2 \<or> trail > 0x3F then Some None
       else next_case1 s (i + 1) c cnt strict
     }"

definition next_case3 :: "byte list \<Rightarrow> int \<Rightarrow> int \<Rightarrow> nat \<Rightarrow> int \<Rightarrow> (int \<times> int) option option" where
  "next_case3 s i c cnt strict =
     do {
       b \<leftarrow> rd s i;
       let trail = uint (b - 0x80);
       let c = push_bit 6 c OR trail;
       if c \<ge> 0x110 \<or> trail > 0x3F then Some None
       else next_case2 s (i + 1) c cnt strict
     }"

definition next_switch :: "byte list \<Rightarrow> int \<Rightarrow> int \<Rightarrow> nat \<Rightarrow> int \<Rightarrow> (int \<times> int) option option" where
  "next_switch s i c cnt strict =
     (if cnt = 3 then next_case3 s i c cnt strict
      else if cnt = 2 then next_case2 s i c cnt strict
      else if cnt = 1 then next_case1 s i c cnt strict
      else Some None)"

fun error_loop :: "byte list \<Rightarrow> int \<Rightarrow> nat \<Rightarrow> int option" where
  "error_loop s i 0 = Some i"
| "error_loop s i (Suc cnt) =
     do { b \<leftarrow> rd s i; if U8_IS_TRAIL b then error_loop s (i + 1) cnt else Some i }"

text \<open>The lead byte \<open>c\<close> has been read and \<open>i\<close> is the offset after it; the result is the code point
  and the new offset.\<close>

definition utf8_nextCharSafeBody :: "byte list \<Rightarrow> int \<Rightarrow> int \<Rightarrow> byte \<Rightarrow> int \<Rightarrow> (int \<times> int) option" where
  "utf8_nextCharSafeBody s pi len c strict =
     do {
       let cnt = U8_COUNT_TRAIL_BYTES c;
       let enough = (pi + int cnt \<le> len \<or> len < 0);
       r \<leftarrow> (if enough then next_switch s pi (U8_MASK_LEAD_BYTE (uint c) cnt) cnt strict else Some None);
       case r of
         Some (c', i') \<Rightarrow> Some (c', i')
       | None \<Rightarrow>
           do {
             i \<leftarrow> error_loop s pi (if enough then cnt else nat ((len - pi) mod 256));
             Some (errorValue (nat (i - pi)) strict, i)
           }
     }"

section \<open>Appending\<close>

text \<open>\<open>UTF8_APPEND_CHAR_UNSAFE\<close> of \<open>unicode/utf_old.h\<close>: the bytes written for a code point, without
  any check. The casts to \<open>uint8_t\<close> truncate.\<close>

definition UTF8_APPEND_CHAR_UNSAFE :: "int \<Rightarrow> byte list" where
  "UTF8_APPEND_CHAR_UNSAFE c =
     (if c mod 2 ^ 32 \<le> 0x7F then [word_of_int c]
      else
        (if c mod 2 ^ 32 \<le> 0x7FF then [word_of_int (drop_bit 6 c OR 0xC0)]
         else
           (if c mod 2 ^ 32 \<le> 0xFFFF then [word_of_int (drop_bit 12 c OR 0xE0)]
            else [word_of_int (drop_bit 18 c OR 0xF0), word_of_int ((drop_bit 12 c AND 0x3F) OR 0x80)])
           @ [word_of_int ((drop_bit 6 c AND 0x3F) OR 0x80)])
        @ [word_of_int ((c AND 0x3F) OR 0x80)])"

fun wr_list :: "byte list \<Rightarrow> int \<Rightarrow> byte list \<Rightarrow> byte list option" where
  "wr_list s i [] = Some s"
| "wr_list s i (b # bs) = do { s' \<leftarrow> wr s i b; wr_list s' (i + 1) bs }"

text \<open>The result is the array, the new offset and whether \<open>*pIsError\<close> was set; \<open>report\<close> says whether
  the caller passed a non-NULL \<open>pIsError\<close>.\<close>

definition utf8_appendCharSafeBody ::
    "byte list \<Rightarrow> int \<Rightarrow> int \<Rightarrow> int \<Rightarrow> bool \<Rightarrow> (byte list \<times> int \<times> bool) option" where
  "utf8_appendCharSafeBody s i len c report =
     (if c mod 2 ^ 32 \<le> 0x7FF \<and> i + 1 < len then
        map_option (\<lambda>s'. (s', i + 2, False))
          (wr_list s i [word_of_int (drop_bit 6 c OR 0xC0), word_of_int ((c AND 0x3F) OR 0x80)])
      else if 0x7FF < c mod 2 ^ 32 \<and> c mod 2 ^ 32 \<le> 0xFFFF \<and> i + 2 < len \<and> \<not> U_IS_SURROGATE c then
        map_option (\<lambda>s'. (s', i + 3, False))
          (wr_list s i [word_of_int (drop_bit 12 c OR 0xE0), word_of_int ((drop_bit 6 c AND 0x3F) OR 0x80),
                        word_of_int ((c AND 0x3F) OR 0x80)])
      else if 0xFFFF < c mod 2 ^ 32 \<and> c mod 2 ^ 32 \<le> 0x10FFFF \<and> i + 3 < len then
        map_option (\<lambda>s'. (s', i + 4, False))
          (wr_list s i [word_of_int (drop_bit 18 c OR 0xF0), word_of_int ((drop_bit 12 c AND 0x3F) OR 0x80),
                        word_of_int ((drop_bit 6 c AND 0x3F) OR 0x80), word_of_int ((c AND 0x3F) OR 0x80)])
      else if report then Some (s, i, True)
      else
        let len1 = len - i in
        if len1 > 0 then
          let len2 = (if len1 > 3 then 3 else len1);
              bytes = UTF8_APPEND_CHAR_UNSAFE (utf8_errorValue ! nat (len2 - 1))
          in map_option (\<lambda>s'. (s', i + int (length bytes), False)) (wr_list s i bytes)
        else Some (s, i, False))"

section \<open>Reading backward\<close>

text \<open>The loop of \<open>utf8_prevCharSafeBody\<close>: \<open>c\<close> collects the bits of \<open>cnt\<close> trail bytes, \<open>pi\<close> is the
  position reported so far. The shift is always six times the count.\<close>

function prev_loop :: "byte list \<Rightarrow> int \<Rightarrow> int \<Rightarrow> int \<Rightarrow> int \<Rightarrow> nat \<Rightarrow> int \<Rightarrow> (int \<times> int) option" where
  "prev_loop s start pi i c cnt strict =
     (if i \<le> start then Some (errorValue 0 strict, pi)
      else
        do {
          b \<leftarrow> rd s (i - 1);
          if b - 0x80 < 0x7E then
            (if b AND 0x40 \<noteq> 0 then
               (let shouldCount = U8_COUNT_TRAIL_BYTES b in
                if cnt = shouldCount then
                  (let c' = c OR push_bit (6 * cnt) (U8_MASK_LEAD_BYTE (uint b) cnt) in
                   if cnt \<ge> 4 \<or> c' > 0x10FFFF \<or> c' < utf8_minLegal ! cnt
                      \<or> U_IS_SURROGATE c' \<and> strict \<noteq> -2 \<or> strict > 0 \<and> U_IS_UNICODE_NONCHAR c'
                   then Some (errorValue (if cnt \<ge> 4 then 3 else cnt) strict, i - 1)
                   else Some (c', i - 1))
                else if cnt < shouldCount then Some (errorValue cnt strict, i - 1)
                else Some (errorValue 0 strict, pi))
             else if cnt < 5 then
               prev_loop s start pi (i - 1) (c OR push_bit (6 * cnt) (uint (b AND 0x3F))) (cnt + 1) strict
             else Some (errorValue 0 strict, pi))
          else Some (errorValue 0 strict, pi)
        })"
  by pat_completeness auto
termination
  by (relation "measure (\<lambda>(s, start, pi, i, c, cnt, strict). nat (i - start))") auto

declare prev_loop.simps [simp del]

definition utf8_prevCharSafeBody :: "byte list \<Rightarrow> int \<Rightarrow> int \<Rightarrow> byte \<Rightarrow> int \<Rightarrow> (int \<times> int) option" where
  "utf8_prevCharSafeBody s start pi c strict =
     (if \<not> U8_IS_TRAIL c then Some (errorValue 0 strict, pi)
      else prev_loop s start pi pi (uint (c AND 0x3F)) 1 strict)"

section \<open>Finding a boundary\<close>

function back1_loop :: "byte list \<Rightarrow> int \<Rightarrow> int \<Rightarrow> int \<Rightarrow> int option" where
  "back1_loop s Z i I =
     do {
       b \<leftarrow> rd s I;
       if b - 0x80 \<ge> 0x7E then Some i
       else if b \<ge> 0xC0 then
         (if int (U8_COUNT_TRAIL_BYTES b) \<ge> i - I then Some I else Some i)
       else if Z \<le> I - 1 then back1_loop s Z i (I - 1)
       else Some i
     }"
  by pat_completeness auto
termination
  by (relation "measure (\<lambda>(s, Z, i, I). nat (I - Z))") auto

declare back1_loop.simps [simp del]

definition utf8_back1SafeBody :: "byte list \<Rightarrow> int \<Rightarrow> int \<Rightarrow> int option" where
  "utf8_back1SafeBody s start i = back1_loop s (if i - 5 > start then i - 5 else start) i i"

section \<open>Bits and arithmetic\<close>

lemma or_shift: "0 \<le> t \<Longrightarrow> t < 2 ^ n \<Longrightarrow> push_bit n c OR t = c * 2 ^ n + t" for c t :: int
  using concat_bit_eq [of n t c]
  by (simp add: concat_bit_def take_bit_int_eq_self push_bit_eq_mult ac_simps)

lemma or_shift_const:
  fixes t :: int
  shows "0 \<le> t \<Longrightarrow> t < 64 \<Longrightarrow> t OR 0x80 = 0x80 + t" "0 \<le> t \<Longrightarrow> t < 64 \<Longrightarrow> t OR 0xC0 = 0xC0 + t"
  "0 \<le> t \<Longrightarrow> t < 32 \<Longrightarrow> t OR 0xE0 = 0xE0 + t" "0 \<le> t \<Longrightarrow> t < 16 \<Longrightarrow> t OR 0xF0 = 0xF0 + t"
  using or_shift [of t 6 2] or_shift [of t 6 3] or_shift [of t 5 7] or_shift [of t 4 15]
  by (simp_all add: or.commute push_bit_eq_mult)

lemma and_low: "x AND (2 ^ k - 1) = x mod 2 ^ k" for x :: int
  by (simp add: mask_eq_exp_minus_1 [symmetric] take_bit_eq_mask [symmetric] take_bit_eq_mod)

lemma and_3F: "x AND 0x3F = x mod 64" for x :: int
  using and_low [of x 6] by simp

lemma and_high:
  fixes x :: int
  assumes "0 \<le> x" "x < 2 ^ m" "k \<le> m"
  shows "x AND (push_bit k (mask (m - k))) = x div 2 ^ k * 2 ^ k"
proof -
  have hi: "\<not> bit x n" if "m \<le> n" for n
    using assms(1,2) that by (metis bit_take_bit_iff linorder_not_less take_bit_int_eq_self)
  have "x AND (push_bit k (mask (m - k))) = push_bit k (drop_bit k x)"
    by (rule bit_eqI) (use hi assms(3) in \<open>auto simp: bit_simps less_diff_conv2 simp flip: linorder_not_le\<close>)
  then show ?thesis by (simp add: push_bit_eq_mult drop_bit_eq_div)
qed

lemma surrogate_iff: "0 \<le> c \<Longrightarrow> c < 2 ^ 32 \<Longrightarrow> U_IS_SURROGATE c \<longleftrightarrow> 0xD800 \<le> c \<and> c \<le> 0xDFFF"
  using and_high [of c 32 11] by (auto simp: U_IS_SURROGATE_def mask_eq_exp_minus_1 push_bit_eq_mult)

lemma surrogate_prefix_iff:
  "0 \<le> c \<Longrightarrow> c < 2 ^ 16 \<Longrightarrow> c AND 0xFFE0 = 0x360 \<longleftrightarrow> 0x360 \<le> c \<and> c \<le> 0x37F" for c :: int
  using and_high [of c 16 5] by (auto simp: mask_eq_exp_minus_1 push_bit_eq_mult)

section \<open>The encoding\<close>

text \<open>UTF-8 as the Unicode standard has it: scalar values, and the bytes of each.\<close>

definition scalar_value :: "int \<Rightarrow> bool" where
  "scalar_value c \<longleftrightarrow> 0 \<le> c \<and> c \<le> 0x10FFFF \<and> \<not> (0xD800 \<le> c \<and> c \<le> 0xDFFF)"

definition utf8_encode :: "int \<Rightarrow> byte list" where
  "utf8_encode c =
     (if c \<le> 0x7F then [word_of_int c]
      else if c \<le> 0x7FF then [word_of_int (0xC0 + c div 64), word_of_int (0x80 + c mod 64)]
      else if c \<le> 0xFFFF then
        [word_of_int (0xE0 + c div 4096), word_of_int (0x80 + c div 64 mod 64), word_of_int (0x80 + c mod 64)]
      else
        [word_of_int (0xF0 + c div 262144), word_of_int (0x80 + c div 4096 mod 64),
         word_of_int (0x80 + c div 64 mod 64), word_of_int (0x80 + c mod 64)])"

text \<open>Trail bytes and lead bytes by their values.\<close>

abbreviation tv :: "byte \<Rightarrow> int" where "tv b \<equiv> uint (b - 0x80)"

lemma tv_trail: "0 \<le> x \<Longrightarrow> x < 64 \<Longrightarrow> tv (word_of_int (0x80 + x)) = x"
proof -
  assume x: "0 \<le> x" "x < 64"
  have "word_of_int (0x80 + x) - 0x80 = (word_of_int x :: byte)" by simp
  with x show ?thesis by (simp add: unsigned_of_int take_bit_int_eq_self)
qed

lemma trail_of_tv: "b = word_of_int (0x80 + tv b)"
  by simp

lemma uint_lead: "0 \<le> x \<Longrightarrow> x < 256 \<Longrightarrow> uint (word_of_int x :: byte) = x"
  by (simp add: unsigned_of_int take_bit_int_eq_self)

lemma lead_count:
  "U8_COUNT_TRAIL_BYTES b =
     (if uint b < 0xC0 then 0 else if uint b < 0xE0 then 1 else if uint b < 0xF0 then 2
      else if uint b < 0xF8 then 3 else if uint b < 0xFC then 4 else if uint b < 0xFE then 5 else 0)"
  by (auto simp: U8_COUNT_TRAIL_BYTES_def word_less_alt word_le_def)

lemma mask_lead: "cnt \<le> 6 \<Longrightarrow> U8_MASK_LEAD_BYTE x cnt = x mod 2 ^ (6 - cnt)"
  by (simp add: U8_MASK_LEAD_BYTE_def push_bit_eq_mult and_low)

lemma uint_byte:
  fixes b :: byte
  shows "0 \<le> uint b" "uint b < 256"
  using uint_bounded [of b] by simp_all

lemma tv_bounds: "0 \<le> tv b" "tv b < 256"
  by (rule uint_byte)+

lemma tv_mod: "tv b = (uint b - 128) mod 256"
  by (simp add: uint_word_ariths)

lemma tv_le_iff: "tv b \<le> 0x3F \<longleftrightarrow> 128 \<le> uint b \<and> uint b \<le> 191"
proof (cases "128 \<le> uint b")
  case True
  then show ?thesis using uint_byte [of b] by (simp add: tv_mod)
next
  case False
  then have "(uint b - 128) mod 256 = uint b - 128 + 256"
    using uint_byte [of b] by (intro int_mod_pos_eq [where q = "-1"]) auto
  then show ?thesis unfolding tv_mod using False uint_byte [of b] by linarith
qed

lemma U8_IS_TRAIL_iff: "U8_IS_TRAIL b \<longleftrightarrow> tv b \<le> 0x3F"
proof -
  have "uint (b AND 0xC0) = uint b div 64 * 64"
    using and_high [of "uint b" 8 6] uint_byte [of b]
    by (simp add: uint_and mask_eq_exp_minus_1 push_bit_eq_mult)
  then have "U8_IS_TRAIL b \<longleftrightarrow> uint b div 64 * 64 = 128"
    by (simp add: U8_IS_TRAIL_def word_eq_iff_unsigned [where 'a = int])
  then show ?thesis by (auto simp: tv_le_iff)
qed

lemma encode_length:
  "length (utf8_encode c) = (if c \<le> 0x7F then 1 else if c \<le> 0x7FF then 2 else if c \<le> 0xFFFF then 3 else 4)"
  by (simp add: utf8_encode_def)

text \<open>The bytes at a position of an array.\<close>

definition bytes_at :: "byte list \<Rightarrow> int \<Rightarrow> byte list \<Rightarrow> bool" where
  "bytes_at s i bs \<longleftrightarrow> (\<forall>k<length bs. rd s (i + int k) = Some (bs ! k))"

lemma bytes_at_Cons: "bytes_at s i (b # bs) \<longleftrightarrow> rd s i = Some b \<and> bytes_at s (i + 1) bs"
proof -
  have "(\<forall>k<length (b # bs). rd s (i + int k) = Some ((b # bs) ! k)) \<longleftrightarrow>
      rd s i = Some b \<and> (\<forall>k<length bs. rd s (i + 1 + int k) = Some (bs ! k))"
    by (simp add: All_less_Suc2 ac_simps)
  then show ?thesis by (simp only: bytes_at_def)
qed

lemma bytes_at_Nil [simp]: "bytes_at s i []"
  by (simp add: bytes_at_def)

text \<open>The three labels of the switch, by arithmetic.\<close>

lemma next_case1_eq:
  assumes "rd s i = Some b" "0 \<le> c"
  shows "next_case1 s i c cnt strict =
     Some (if tv b > 0x3F then None
           else if utf8_minLegal ! cnt \<le> c * 64 + tv b \<and> (strict \<le> 0 \<or> \<not> U_IS_UNICODE_NONCHAR (c * 64 + tv b))
           then Some (c * 64 + tv b, i + 1) else None)"
  using assms or_shift [of "tv b" 6 c] tv_bounds [of b]
  by (cases "tv b > 0x3F") (simp_all add: next_case1_def Let_def)

lemma next_case2_eq:
  assumes "rd s i = Some b" "0 \<le> c" "c < 0x110"
  shows "next_case2 s i c cnt strict =
     (if tv b > 0x3F \<or> (0x360 \<le> c * 64 + tv b \<and> c * 64 + tv b \<le> 0x37F \<and> strict \<noteq> -2) then Some None
      else next_case1 s (i + 1) (c * 64 + tv b) cnt strict)"
proof (cases "tv b > 0x3F")
  case True
  with assms(1) show ?thesis by (simp add: next_case2_def Let_def)
next
  case False
  then have "push_bit 6 c OR tv b = c * 64 + tv b" "c * 64 + tv b < 2 ^ 16" "0 \<le> c * 64 + tv b"
    using or_shift [of "tv b" 6 c] tv_bounds [of b] assms(2,3) by simp_all
  with False assms(1) surrogate_prefix_iff [of "c * 64 + tv b"] show ?thesis
    by (simp add: next_case2_def Let_def)
qed

lemma next_case3_eq:
  assumes "rd s i = Some b" "0 \<le> c"
  shows "next_case3 s i c cnt strict =
     (if tv b > 0x3F \<or> c * 64 + tv b \<ge> 0x110 then Some None else next_case2 s (i + 1) (c * 64 + tv b) cnt strict)"
  using assms or_shift [of "tv b" 6 c] tv_bounds [of b]
  by (cases "tv b > 0x3F") (simp_all add: next_case3_def Let_def)

text \<open>The shape of an encoding of two, three and four bytes.\<close>

lemma encode2:
  assumes "0x80 \<le> c" "c \<le> 0x7FF"
  obtains l t1 where "utf8_encode c = [l, t1]" "uint l = 0xC0 + c div 64" "tv t1 = c mod 64"
proof -
  have "uint (word_of_int (0xC0 + c div 64) :: byte) = 0xC0 + c div 64"
    using assms by (intro uint_lead) auto
  moreover have "tv (word_of_int (0x80 + c mod 64)) = c mod 64" by (rule tv_trail) auto
  moreover have "utf8_encode c = [word_of_int (0xC0 + c div 64), word_of_int (0x80 + c mod 64)]"
    using assms by (simp only: utf8_encode_def if_not_P if_P not_le)
  ultimately show ?thesis using that by blast
qed

lemma encode3:
  assumes "0x7FF < c" "c \<le> 0xFFFF"
  obtains l t1 t2 where "utf8_encode c = [l, t1, t2]" "uint l = 0xE0 + c div 4096"
    "tv t1 = c div 64 mod 64" "tv t2 = c mod 64"
proof -
  have "uint (word_of_int (0xE0 + c div 4096) :: byte) = 0xE0 + c div 4096"
    using assms by (intro uint_lead) auto
  moreover have "tv (word_of_int (0x80 + c mod 64)) = c mod 64"
    "tv (word_of_int (0x80 + c div 64 mod 64)) = c div 64 mod 64" by (rule tv_trail; simp)+
  moreover have "utf8_encode c = [word_of_int (0xE0 + c div 4096), word_of_int (0x80 + c div 64 mod 64),
      word_of_int (0x80 + c mod 64)]"
    using assms by (simp only: utf8_encode_def if_not_P if_P not_le)
  ultimately show ?thesis using that by blast
qed

lemma encode4:
  assumes "0xFFFF < c" "c \<le> 0x10FFFF"
  obtains l t1 t2 t3 where "utf8_encode c = [l, t1, t2, t3]" "uint l = 0xF0 + c div 262144"
    "tv t1 = c div 4096 mod 64" "tv t2 = c div 64 mod 64" "tv t3 = c mod 64"
proof -
  have "uint (word_of_int (0xF0 + c div 262144) :: byte) = 0xF0 + c div 262144"
    using assms by (intro uint_lead) auto
  moreover have "tv (word_of_int (0x80 + c mod 64)) = c mod 64"
    "tv (word_of_int (0x80 + c div 64 mod 64)) = c div 64 mod 64"
    "tv (word_of_int (0x80 + c div 4096 mod 64)) = c div 4096 mod 64" by (rule tv_trail; simp)+
  moreover have "utf8_encode c = [word_of_int (0xF0 + c div 262144), word_of_int (0x80 + c div 4096 mod 64),
      word_of_int (0x80 + c div 64 mod 64), word_of_int (0x80 + c mod 64)]"
    using assms by (simp only: utf8_encode_def if_not_P if_P not_le)
  ultimately show ?thesis using that by blast
qed

lemma div_chain:
  fixes c :: int
  shows "c div 4096 * 64 + c div 64 mod 64 = c div 64" "c div 262144 * 64 + c div 4096 mod 64 = c div 4096"
    "c div 64 * 64 + c mod 64 = c"
  using div_mult_mod_eq [of "c div 4096" 64] div_mult_mod_eq [of "c div 64" 64]
  by (simp_all add: zdiv_zmult2_eq [symmetric] ac_simps)

lemma div_small:
  fixes c :: int
  shows "0 \<le> c \<Longrightarrow> c \<le> 0x7FF \<Longrightarrow> 0 \<le> c div 64 \<and> c div 64 < 32"
    "0 \<le> c \<Longrightarrow> c \<le> 0xFFFF \<Longrightarrow> 0 \<le> c div 4096 \<and> c div 4096 < 16"
    "0 \<le> c \<Longrightarrow> c \<le> 0x10FFFF \<Longrightarrow> 0 \<le> c div 262144 \<and> c div 262144 < 8 \<and> c div 4096 < 0x110"
  using zdiv_mono1 [of c "0x7FF" 64] zdiv_mono1 [of c "0xFFFF" 4096] zdiv_mono1 [of c "0x10FFFF" 262144]
    zdiv_mono1 [of c "0x10FFFF" 4096]
  by (simp_all add: pos_imp_zdiv_nonneg_iff)

lemma mod64 [simp]: "\<not> 63 < x mod 64" for x :: int
  using pos_mod_bound [of 64 x] by linarith

lemma lead_arith:
  fixes x :: int
  shows "0 \<le> x \<Longrightarrow> x < 32 \<Longrightarrow> (192 + x) mod 32 = x" "0 \<le> x \<Longrightarrow> x < 16 \<Longrightarrow> (224 + x) mod 16 = x"
    "0 \<le> x \<Longrightarrow> x < 8 \<Longrightarrow> (240 + x) mod 8 = x"
  by presburger+

text \<open>What the body returns when the switch accepts.\<close>

lemma next_success:
  assumes "pi + int (U8_COUNT_TRAIL_BYTES l) \<le> len \<or> len < 0"
    "next_switch s pi (uint l mod 2 ^ (6 - U8_COUNT_TRAIL_BYTES l)) (U8_COUNT_TRAIL_BYTES l) strict = Some (Some r)"
  shows "utf8_nextCharSafeBody s pi len l strict = Some r"
proof -
  have "U8_COUNT_TRAIL_BYTES l \<le> 6" by (simp add: lead_count)
  then show ?thesis using assms
    by (cases r) (simp add: utf8_nextCharSafeBody_def Let_def mask_lead)
qed

text \<open>Every well-formed sequence is read as its code point.\<close>

lemma next_complete:
  assumes c: "scalar_value c" "0x80 \<le> c" and b: "bytes_at s i (utf8_encode c)" and strict: "strict \<le> 0"
    and len: "i + int (length (utf8_encode c)) \<le> len \<or> len < 0"
  shows "utf8_nextCharSafeBody s (i + 1) len (hd (utf8_encode c)) strict
           = Some (c, i + int (length (utf8_encode c)))"
proof -
  have c_ge: "0 \<le> c" "c \<le> 0x10FFFF" "\<not> (0xD800 \<le> c \<and> c \<le> 0xDFFF)"
    using c by (auto simp: scalar_value_def)
  have sur: "\<not> (0x360 \<le> c div 64 \<and> c div 64 \<le> 0x37F)" using c_ge by auto
  consider "c \<le> 0x7FF" | "0x7FF < c" "c \<le> 0xFFFF" | "0xFFFF < c" by linarith
  then show ?thesis
  proof cases
    case 1
    obtain l t1 where e: "utf8_encode c = [l, t1]" "uint l = 0xC0 + c div 64" "tv t1 = c mod 64"
      by (rule encode2 [OF c(2) 1])
    have cnt: "U8_COUNT_TRAIL_BYTES l = 1" and m: "uint l mod 32 = c div 64"
      using lead_arith(1) [of "c div 64"] div_small(1) [OF c_ge(1) 1] e(2) by (simp_all add: lead_count)
    have "rd s (i + 1) = Some t1" using b by (simp add: e bytes_at_Cons)
    from next_case1_eq [OF this, of "c div 64" 1 strict]
    have "next_switch s (i + 1) (uint l mod 2 ^ (6 - 1)) 1 strict = Some (Some (c, i + 2))"
      using c c_ge strict by (simp add: next_switch_def m e(3) utf8_minLegal_def div_chain)
    then show ?thesis
      using next_success [of "i + 1" l len s strict "(c, i + 2)"] len by (simp add: cnt e(1) add.commute)
  next
    case 2
    obtain l t1 t2 where e: "utf8_encode c = [l, t1, t2]" "uint l = 0xE0 + c div 4096"
      "tv t1 = c div 64 mod 64" "tv t2 = c mod 64"
      by (rule encode3 [OF 2])
    have cnt: "U8_COUNT_TRAIL_BYTES l = 2" and m: "uint l mod 16 = c div 4096"
      using lead_arith(2) [of "c div 4096"] div_small(2) [OF c_ge(1) 2(2)] e(2) by (simp_all add: lead_count)
    have r: "rd s (i + 1) = Some t1" "rd s (i + 1 + 1) = Some t2" using b by (simp_all add: e bytes_at_Cons)
    have "next_case2 s (i + 1) (c div 4096) 2 strict = next_case1 s (i + 1 + 1) (c div 64) 2 strict"
      using next_case2_eq [OF r(1), of "c div 4096" 2 strict] div_small(2) [OF c_ge(1) 2(2)] sur by (auto simp: e(3) div_chain)
    moreover have "next_case1 s (i + 1 + 1) (c div 64) 2 strict = Some (Some (c, i + 3))"
      using next_case1_eq [OF r(2), of "c div 64" 2 strict] 2 strict by (simp add: e(4) utf8_minLegal_def div_chain)
    ultimately have "next_switch s (i + 1) (uint l mod 2 ^ (6 - 2)) 2 strict = Some (Some (c, i + 3))"
      by (simp add: next_switch_def m)
    then show ?thesis
      using next_success [of "i + 1" l len s strict "(c, i + 3)"] len by (simp add: cnt e(1) add.commute)
  next
    case 3
    obtain l t1 t2 t3 where e: "utf8_encode c = [l, t1, t2, t3]" "uint l = 0xF0 + c div 262144"
      "tv t1 = c div 4096 mod 64" "tv t2 = c div 64 mod 64" "tv t3 = c mod 64"
      by (rule encode4 [OF 3 c_ge(2)])
    have cnt: "U8_COUNT_TRAIL_BYTES l = 3" and m: "uint l mod 8 = c div 262144"
      using lead_arith(3) [of "c div 262144"] div_small(3) [OF c_ge(1,2)] e(2) by (simp_all add: lead_count)
    have r: "rd s (i + 1) = Some t1" "rd s (i + 1 + 1) = Some t2" "rd s (i + 1 + 1 + 1) = Some t3"
      using b by (simp_all add: e bytes_at_Cons)
    have "next_case3 s (i + 1) (c div 262144) 3 strict = next_case2 s (i + 1 + 1) (c div 4096) 3 strict"
      using next_case3_eq [OF r(1), of "c div 262144" 3 strict] div_small(3) [OF c_ge(1,2)] by (auto simp: e(3) div_chain)
    moreover have "\<dots> = next_case1 s (i + 1 + 1 + 1) (c div 64) 3 strict"
      using next_case2_eq [OF r(2), of "c div 4096" 3 strict] div_small(3) [OF c_ge(1,2)] 3 sur
      by (auto simp: e(4) div_chain pos_imp_zdiv_nonneg_iff)
    moreover have "\<dots> = Some (Some (c, i + 4))"
      using next_case1_eq [OF r(3), of "c div 64" 3 strict] 3 strict by (simp add: e(5) utf8_minLegal_def div_chain)
    ultimately have "next_switch s (i + 1) (uint l mod 2 ^ (6 - 3)) 3 strict = Some (Some (c, i + 4))"
      by (simp add: next_switch_def m)
    then show ?thesis
      using next_success [of "i + 1" l len s strict "(c, i + 4)"] len by (simp add: cnt e(1) add.commute)
  qed
qed

text \<open>Only well-formed sequences are accepted.\<close>

lemma tv_inject: "tv a = tv b \<Longrightarrow> a = b"
  by (simp add: word_eq_iff_unsigned [where 'a = int, symmetric])

lemma uint_inject: "uint a = uint b \<Longrightarrow> a = b" for a b :: byte
  by (simp add: word_eq_iff_unsigned [where 'a = int, symmetric])

lemma join64: "0 \<le> t \<Longrightarrow> t \<le> 63 \<Longrightarrow> (x * 64 + t) div 64 = x \<and> (x * 64 + t) mod 64 = t" for x t :: int
  by simp

lemma next_case1_sound:
  assumes "next_case1 s i x cnt strict = Some (Some (c, i'))" "0 \<le> x"
  obtains b where "rd s i = Some b" "tv b \<le> 63" "c div 64 = x" "c mod 64 = tv b" "i' = i + 1"
    "utf8_minLegal ! cnt \<le> c" "c = x * 64 + tv b"
proof -
  obtain b where b: "rd s i = Some b" using assms(1) by (cases "rd s i") (simp_all add: next_case1_def)
  from assms(1) next_case1_eq [OF b assms(2), of cnt strict]
  have "tv b \<le> 63" "c = x * 64 + tv b" "i' = i + 1" "utf8_minLegal ! cnt \<le> x * 64 + tv b"
    by (auto split: if_splits)
  with b join64 [OF tv_bounds(1) \<open>tv b \<le> 63\<close>, of x] show ?thesis using that by blast
qed

lemma next_case2_sound:
  assumes "next_case2 s i x cnt strict = Some (Some (c, i'))" "0 \<le> x" "x < 0x110" "strict \<noteq> -2"
  obtains b1 b2 where "rd s i = Some b1" "rd s (i + 1) = Some b2" "tv b1 \<le> 63" "tv b2 \<le> 63"
    "c div 64 = x * 64 + tv b1" "c mod 64 = tv b2" "i' = i + 2" "utf8_minLegal ! cnt \<le> c"
    "c = (x * 64 + tv b1) * 64 + tv b2" "\<not> (0xD800 \<le> c \<and> c \<le> 0xDFFF)"
proof -
  obtain b1 where b1: "rd s i = Some b1" using assms(1) by (cases "rd s i") (simp_all add: next_case2_def)
  from assms(1,4) next_case2_eq [OF b1 assms(2,3), of cnt strict]
  have t1: "tv b1 \<le> 63" "\<not> (0x360 \<le> x * 64 + tv b1 \<and> x * 64 + tv b1 \<le> 0x37F)"
    and n: "next_case1 s (i + 1) (x * 64 + tv b1) cnt strict = Some (Some (c, i'))"
    by (auto split: if_splits)
  obtain b2 where b2: "rd s (i + 1) = Some b2" "tv b2 \<le> 63" "c div 64 = x * 64 + tv b1" "c mod 64 = tv b2"
      "i' = i + 1 + 1" "utf8_minLegal ! cnt \<le> c" "c = (x * 64 + tv b1) * 64 + tv b2"
    using next_case1_sound [OF n] assms(2) tv_bounds(1) [of b1] by auto
  have "\<not> (0xD800 \<le> c \<and> c \<le> 0xDFFF)"
  proof
    assume "0xD800 \<le> c \<and> c \<le> 0xDFFF"
    then have "0xD800 div 64 \<le> c div 64" "c div 64 \<le> 0xDFFF div 64" by (auto intro: zdiv_mono1)
    with t1(2) b2(3) show False by simp
  qed
  with b1 b2 t1(1) that show ?thesis by simp
qed

lemma accept_one:
  assumes n: "next_case1 s i x 1 strict = Some (Some (c, i'))" and x: "uint l = 0xC0 + x" "0 \<le> x" "x < 32"
  shows "scalar_value c \<and> 0x80 \<le> c \<and> (\<exists>ts. utf8_encode c = l # ts \<and> bytes_at s i ts
           \<and> i' = i + int (length ts) \<and> length ts = 1)"
proof -
  from n x(2) obtain b where b: "rd s i = Some b" "tv b \<le> 63" "c div 64 = x" "c mod 64 = tv b" "i' = i + 1"
      "utf8_minLegal ! 1 \<le> c" "c = x * 64 + tv b"
    by (rule next_case1_sound)
  have c: "0x80 \<le> c" "c \<le> 0x7FF" using b(6) x(3) b(2,7) by (simp_all add: utf8_minLegal_def)
  obtain l' t1 where e: "utf8_encode c = [l', t1]" "uint l' = 0xC0 + c div 64" "tv t1 = c mod 64"
    by (rule encode2 [OF c])
  have "l' = l" by (rule uint_inject) (simp add: e(2) b(3) x(1))
  moreover have "t1 = b" by (rule tv_inject) (simp only: e(3) b(4))
  ultimately show ?thesis using e(1) b(1,5) c by (simp add: scalar_value_def bytes_at_Cons)
qed

lemma accept_two:
  assumes n: "next_case2 s i x 2 strict = Some (Some (c, i'))" and x: "uint l = 0xE0 + x" "0 \<le> x" "x < 16"
    and st: "strict \<noteq> -2"
  shows "scalar_value c \<and> 0x80 \<le> c \<and> (\<exists>ts. utf8_encode c = l # ts \<and> bytes_at s i ts
           \<and> i' = i + int (length ts) \<and> length ts = 2)"
proof -
  have x110: "x < 0x110" using x(3) by simp
  from n x(2) x110 st obtain b1 b2 where b: "rd s i = Some b1" "rd s (i + 1) = Some b2" "tv b1 \<le> 63" "tv b2 \<le> 63"
      "c div 64 = x * 64 + tv b1" "c mod 64 = tv b2" "i' = i + 2" "utf8_minLegal ! 2 \<le> c"
      "c = (x * 64 + tv b1) * 64 + tv b2" "\<not> (0xD800 \<le> c \<and> c \<le> 0xDFFF)"
    by (rule next_case2_sound)
  have c: "0x7FF < c" "c \<le> 0xFFFF" using b(8) x(3) b(3,4,9) by (simp_all add: utf8_minLegal_def)
  obtain l' t1 t2 where e: "utf8_encode c = [l', t1, t2]" "uint l' = 0xE0 + c div 4096"
    "tv t1 = c div 64 mod 64" "tv t2 = c mod 64" by (rule encode3 [OF c])
  have d: "c div 4096 = x" "c div 64 mod 64 = tv b1"
    using join64 [OF tv_bounds(1) b(3), of x] b(5) zdiv_zmult2_eq [of 64 c 64] by simp_all
  have "l' = l" by (rule uint_inject) (simp only: e(2) d(1) x(1))
  moreover have "t1 = b1" by (rule tv_inject) (simp only: e(3) d(2))
  moreover have "t2 = b2" by (rule tv_inject) (simp only: e(4) b(6))
  ultimately show ?thesis using e(1) b(1,2,7,10) c by (simp add: scalar_value_def bytes_at_Cons)
qed

lemma accept_three:
  assumes n: "next_case3 s i x 3 strict = Some (Some (c, i'))" and x: "uint l = 0xF0 + x" "0 \<le> x" "x < 8"
    and st: "strict \<noteq> -2"
  shows "scalar_value c \<and> 0x80 \<le> c \<and> (\<exists>ts. utf8_encode c = l # ts \<and> bytes_at s i ts
           \<and> i' = i + int (length ts) \<and> length ts = 3)"
proof -
  obtain b1 where b1: "rd s i = Some b1" using n by (cases "rd s i") (simp_all add: next_case3_def)
  have t1: "tv b1 \<le> 63" "x * 64 + tv b1 < 0x110"
    and n2: "next_case2 s (i + 1) (x * 64 + tv b1) 3 strict = Some (Some (c, i'))"
    using n next_case3_eq [OF b1 x(2), of 3 strict] by (auto split: if_splits)
  have x0: "0 \<le> x * 64 + tv b1" using x(2) tv_bounds(1) [of b1] by simp
  from n2 x0 t1(2) st obtain b2 b3 where b: "rd s (i + 1) = Some b2" "rd s (i + 1 + 1) = Some b3"
      "tv b2 \<le> 63" "tv b3 \<le> 63" "c div 64 = (x * 64 + tv b1) * 64 + tv b2" "c mod 64 = tv b3"
      "i' = i + 1 + 2" "utf8_minLegal ! 3 \<le> c"
      "c = ((x * 64 + tv b1) * 64 + tv b2) * 64 + tv b3" "\<not> (0xD800 \<le> c \<and> c \<le> 0xDFFF)"
    by (rule next_case2_sound)
  have c: "0xFFFF < c" "c \<le> 0x10FFFF" using b(8) t1(2) b(3,4,9) by (simp_all add: utf8_minLegal_def)
  obtain l' u1 u2 u3 where e: "utf8_encode c = [l', u1, u2, u3]" "uint l' = 0xF0 + c div 262144"
    "tv u1 = c div 4096 mod 64" "tv u2 = c div 64 mod 64" "tv u3 = c mod 64" by (rule encode4 [OF c])
  have d: "c div 4096 = x * 64 + tv b1" "c div 64 mod 64 = tv b2"
    using join64 [OF tv_bounds(1) b(3), of "x * 64 + tv b1"] b(5) zdiv_zmult2_eq [of 64 c 64] by simp_all
  have d': "c div 262144 = x" "c div 4096 mod 64 = tv b1"
    using join64 [OF tv_bounds(1) t1(1), of x] d(1) zdiv_zmult2_eq [of 64 c 4096] by simp_all
  have "l' = l" by (rule uint_inject) (simp only: e(2) d'(1) x(1))
  moreover have "u1 = b1" by (rule tv_inject) (simp only: e(3) d'(2))
  moreover have "u2 = b2" by (rule tv_inject) (simp only: e(4) d(2))
  moreover have "u3 = b3" by (rule tv_inject) (simp only: e(5) b(6))
  ultimately show ?thesis using e(1) b1 b(1,2,7,10) c by (simp add: scalar_value_def bytes_at_Cons)
qed

lemma accept_sound:
  assumes sw: "next_switch s i (uint l mod 2 ^ (6 - U8_COUNT_TRAIL_BYTES l)) (U8_COUNT_TRAIL_BYTES l) strict
      = Some (Some (c, i'))" and st: "strict \<noteq> -2"
  shows "scalar_value c \<and> 0x80 \<le> c
           \<and> (\<exists>ts. utf8_encode c = l # ts \<and> bytes_at s i ts \<and> i' = i + int (length ts)
                \<and> length ts = U8_COUNT_TRAIL_BYTES l)"
proof -
  let ?n = "U8_COUNT_TRAIL_BYTES l" let ?u = "uint l"
  from sw have "?n = 1 \<or> ?n = 2 \<or> ?n = 3" by (auto simp: next_switch_def split: if_splits)
  then consider (one) "?n = 1" "0xC0 \<le> ?u" "?u < 0xE0" | (two) "?n = 2" "0xE0 \<le> ?u" "?u < 0xF0"
    | (three) "?n = 3" "0xF0 \<le> ?u" "?u < 0xF8"
    by (auto simp: lead_count split: if_splits)
  then show ?thesis
  proof cases
    case one
    have "?u mod 32 = ?u - 0xC0" using one lead_arith(1) [of "?u - 0xC0"] by simp
    then show ?thesis using accept_one [of s i "?u - 0xC0" strict c i' l] sw one by (simp add: next_switch_def)
  next
    case two
    have "?u mod 16 = ?u - 0xE0" using two lead_arith(2) [of "?u - 0xE0"] by simp
    then show ?thesis using accept_two [of s i "?u - 0xE0" strict c i' l] sw two st by (simp add: next_switch_def)
  next
    case three
    have "?u mod 8 = ?u - 0xF0" using three lead_arith(3) [of "?u - 0xF0"] by simp
    then show ?thesis using accept_three [of s i "?u - 0xF0" strict c i' l] sw three st
      by (simp add: next_switch_def)
  qed
qed

lemma error_loop_bounds:
  "0 \<le> i \<Longrightarrow> i + int n \<le> int (length s) \<Longrightarrow>
     \<exists>i'. error_loop s i n = Some i' \<and> i \<le> i' \<and> i' \<le> i + int n"
proof (induction n arbitrary: i)
  case (Suc n)
  have "\<exists>i'. error_loop s (i + 1) n = Some i' \<and> i + 1 \<le> i' \<and> i' \<le> i + 1 + int n"
    using Suc.prems by (intro Suc.IH) simp_all
  then obtain i' where "error_loop s (i + 1) n = Some i'" "i + 1 \<le> i'" "i' \<le> i + 1 + int n"
    by blast
  then show ?case using Suc.prems by (auto simp: rd_def)
qed simp

lemma next_switch_bounds:
  assumes "0 \<le> i" "i + int (U8_COUNT_TRAIL_BYTES l) \<le> int (length s)" "0 \<le> x"
  shows "next_switch s i x (U8_COUNT_TRAIL_BYTES l) strict \<noteq> None"
  using assms by (auto simp: next_switch_def next_case1_def next_case2_def next_case3_def rd_def Let_def)

section \<open>Appending and reading backward\<close>

lemma wr_list_Some:
  "0 \<le> i \<Longrightarrow> i + int (length bs) \<le> int (length s) \<Longrightarrow>
     wr_list s i bs = Some (take (nat i) s @ bs @ drop (nat i + length bs) s)"
proof (induction bs arbitrary: s i)
  case Nil
  then show ?case by simp
next
  case (Cons b bs)
  have "nat i < length s" using Cons.prems by simp
  then have "take (nat (i + 1)) (s[nat i := b]) = take (nat i) s @ [b]"
    using Cons.prems(1) by (simp add: nat_add_distrib take_Suc_conv_app_nth)
  moreover have "drop (nat (i + 1) + length bs) (s[nat i := b]) = drop (nat i + length (b # bs)) s"
    using Cons.prems(1) by (simp add: nat_add_distrib drop_update_cancel)
  ultimately show ?case using Cons \<open>nat i < length s\<close> by (simp add: wr_def)
qed

lemma bytes_at_write:
  assumes "0 \<le> i" "i + int (length bs) \<le> int (length s)"
  shows "bytes_at (take (nat i) s @ bs @ drop (nat i + length bs) s) i bs"
  unfolding bytes_at_def
proof (intro allI impI)
  fix k assume "k < length bs"
  with assms show "rd (take (nat i) s @ bs @ drop (nat i + length bs) s) (i + int k) = Some (bs ! k)"
    by (simp add: rd_def nth_append nat_add_distrib)
qed

text \<open>The bytes the append function writes for a scalar value are its encoding.\<close>

lemma append_bytes:
  fixes c :: int
  assumes "0 \<le> c"
  shows "c \<le> 0x7FF \<Longrightarrow> drop_bit 6 c OR 0xC0 = 0xC0 + c div 64"
    "c \<le> 0xFFFF \<Longrightarrow> drop_bit 12 c OR 0xE0 = 0xE0 + c div 4096"
    "c \<le> 0x10FFFF \<Longrightarrow> drop_bit 18 c OR 0xF0 = 0xF0 + c div 262144"
    "(drop_bit 12 c AND 0x3F) OR 0x80 = 0x80 + c div 4096 mod 64"
    "(drop_bit 6 c AND 0x3F) OR 0x80 = 0x80 + c div 64 mod 64"
    "(c AND 0x3F) OR 0x80 = 0x80 + c mod 64"
  using div_small [OF assms] assms
  by (simp_all add: drop_bit_eq_div and_3F or_shift_const)

lemma append_correct:
  assumes c: "scalar_value c" "0x80 \<le> c" and i: "0 \<le> i" "i + int (length (utf8_encode c)) \<le> len"
    "len \<le> int (length s)"
  shows "utf8_appendCharSafeBody s i len c report =
     Some (take (nat i) s @ utf8_encode c @ drop (nat i + length (utf8_encode c)) s,
           i + int (length (utf8_encode c)), False)"
proof -
  have c_ge: "0 \<le> c" "c \<le> 0x10FFFF" "\<not> (0xD800 \<le> c \<and> c \<le> 0xDFFF)" using c by (auto simp: scalar_value_def)
  have w: "wr_list s i (utf8_encode c) = Some (take (nat i) s @ utf8_encode c @ drop (nat i + length (utf8_encode c)) s)"
    using i by (intro wr_list_Some) auto
  have sur: "\<not> U_IS_SURROGATE c" using c_ge by (simp add: surrogate_iff)
  have m: "c mod 2 ^ 32 = c" using c_ge by simp
  note ab = append_bytes [OF c_ge(1)]
  consider "c \<le> 0x7FF" | "0x7FF < c" "c \<le> 0xFFFF" | "0xFFFF < c" by linarith
  then show ?thesis
  proof cases
    case 1
    then have e: "utf8_encode c = [word_of_int (drop_bit 6 c OR 0xC0), word_of_int ((c AND 0x3F) OR 0x80)]"
      unfolding ab(6) ab(1) [OF 1] using c(2) by (simp only: utf8_encode_def if_not_P if_P not_le)
    show ?thesis
      unfolding utf8_appendCharSafeBody_def m e [symmetric] w using 1 i(2) e by simp
  next
    case 2
    then have e: "utf8_encode c = [word_of_int (drop_bit 12 c OR 0xE0), word_of_int ((drop_bit 6 c AND 0x3F) OR 0x80),
        word_of_int ((c AND 0x3F) OR 0x80)]"
      unfolding ab(5,6) ab(2) [OF 2(2)] using c(2) by (simp only: utf8_encode_def if_not_P if_P not_le)
    show ?thesis
      unfolding utf8_appendCharSafeBody_def m e [symmetric] w using 2 i(2) e sur by simp
  next
    case 3
    then have e: "utf8_encode c = [word_of_int (drop_bit 18 c OR 0xF0), word_of_int ((drop_bit 12 c AND 0x3F) OR 0x80),
        word_of_int ((drop_bit 6 c AND 0x3F) OR 0x80), word_of_int ((c AND 0x3F) OR 0x80)]"
      unfolding ab(4,5,6) ab(3) [OF c_ge(2)] using c(2) by (simp only: utf8_encode_def if_not_P if_P not_le)
    show ?thesis
      unfolding utf8_appendCharSafeBody_def m e [symmetric] w using 3 i(2) e c_ge(2) by simp
  qed
qed

lemma high_byte:
  fixes b :: byte
  assumes "128 \<le> uint b"
  shows "b AND 0x40 = 0 \<longleftrightarrow> uint b < 192" and "uint b < 254 \<Longrightarrow> b - 0x80 < 0x7E"
    and "254 \<le> uint b \<Longrightarrow> \<not> b - 0x80 < 0x7E" and "uint (b AND 0x3F) = uint b mod 64"
proof -
  have "b AND 0x40 = 0 \<longleftrightarrow> \<not> bit (uint b) 6"
    using and_exp_eq_0_iff_not_bit [of b 6] by (simp add: bit_uint_iff)
  also have "\<dots> \<longleftrightarrow> uint b div 64 \<noteq> 3"
  proof -
    have "uint b div 64 = 2 \<or> uint b div 64 = 3" using assms uint_byte [of b] by presburger
    then show ?thesis by (auto simp: bit_iff_odd)
  qed
  also have "\<dots> \<longleftrightarrow> uint b < 192" using uint_byte [of b] assms by auto
  finally show "b AND 0x40 = 0 \<longleftrightarrow> uint b < 192" .
  have "tv b = uint b - 128" using assms uint_byte [of b] by (simp add: tv_mod)
  then show "uint b < 254 \<Longrightarrow> b - 0x80 < 0x7E" "254 \<le> uint b \<Longrightarrow> \<not> b - 0x80 < 0x7E"
    by (simp_all add: word_less_alt)
  show "uint (b AND 0x3F) = uint b mod 64" by (simp add: uint_and and_3F)
qed

lemma trail_byte:
  assumes "tv b \<le> 63"
  shows "128 \<le> uint b" "uint b < 192" "b AND 0x40 = 0" "b - 0x80 < 0x7E" "uint (b AND 0x3F) = tv b" "U8_IS_TRAIL b"
proof -
  show u: "128 \<le> uint b" "uint b < 192" using assms by (simp_all add: tv_le_iff)
  have "tv b = uint b - 128" using u by (simp add: tv_mod)
  moreover have "uint b mod 64 = uint b - 128" using u by presburger
  ultimately show "uint (b AND 0x3F) = tv b" using high_byte(4) [OF u(1)] by simp
  show "b AND 0x40 = 0" "b - 0x80 < 0x7E" using high_byte(1,2) [OF u(1)] u by simp_all
  show "U8_IS_TRAIL b" using assms by (simp add: U8_IS_TRAIL_iff)
qed

text \<open>One step of the backward loop over a trail byte, and its end at the lead byte.\<close>

lemma prev_trail:
  assumes "start < i" "rd s (i - 1) = Some b" "tv b \<le> 63" "cnt < 5" "0 \<le> c" "c < 2 ^ (6 * cnt)"
  shows "prev_loop s start pi i c cnt strict = prev_loop s start pi (i - 1) (tv b * 2 ^ (6 * cnt) + c) (cnt + 1) strict"
  using assms trail_byte [OF assms(3)] or_shift [OF assms(5,6), of "tv b"]
  by (simp add: prev_loop.simps [of s start pi i] or.commute)

lemma prev_lead:
  assumes "start < i" "rd s (i - 1) = Some l" "0xC0 \<le> uint l" "U8_COUNT_TRAIL_BYTES l = cnt" "0 < cnt" "cnt \<le> 3"
    "0 \<le> c" "c < 2 ^ (6 * cnt)" "c' = uint l mod 2 ^ (6 - cnt) * 2 ^ (6 * cnt) + c"
    "utf8_minLegal ! cnt \<le> c'" "scalar_value c'" "strict \<le> 0"
  shows "prev_loop s start pi i c cnt strict = Some (c', i - 1)"
proof -
  have l: "uint l < 254" using assms(4,5) by (auto simp: lead_count split: if_splits)
  have "c OR push_bit (6 * cnt) (U8_MASK_LEAD_BYTE (uint l) cnt) = c'"
    using or_shift [OF assms(7,8)] assms(6,9) by (simp add: mask_lead or.commute)
  moreover have "\<not> U_IS_SURROGATE c'" "c' \<le> 0x10FFFF" using assms(11) by (simp_all add: scalar_value_def surrogate_iff)
  ultimately show ?thesis
    using assms l high_byte(1,2) [of l] by (simp add: prev_loop.simps [of s start pi i] Let_def)
qed

lemma step_numerals:
  fixes i :: int
  shows "i + 2 - 1 = i + 1" "i + 3 - 1 = i + 2" "(2::int) ^ (6 * 1) = 64" "(2::int) ^ (6 * 2) = 4096"
    "(2::int) ^ (6 * 3) = 262144"
    "(1 + 1 :: nat) = 2" "(2 + 1 :: nat) = 3"
  by simp_all

lemma prev2:
  assumes c: "scalar_value c" "0x80 \<le> c" "c \<le> 0x7FF" and b: "bytes_at s i (utf8_encode c)"
    and strict: "strict \<le> 0" and start: "start \<le> i"
  shows "utf8_prevCharSafeBody s start (i + int (length (utf8_encode c)) - 1) (last (utf8_encode c)) strict
           = Some (c, i)"
proof -
  have c_ge: "0 \<le> c" using c by simp
  obtain l t1 where e: "utf8_encode c = [l, t1]" "uint l = 0xC0 + c div 64" "tv t1 = c mod 64"
    by (rule encode2 [OF c(2,3)])
  note d = div_small(1) [OF c_ge c(3)]
  have cnt: "U8_COUNT_TRAIL_BYTES l = 1" and m: "uint l mod 32 = c div 64"
    using lead_arith(1) [of "c div 64"] d e(2) by (simp_all add: lead_count)
  have r: "rd s i = Some l" using b by (simp add: e bytes_at_Cons)
  have t: "tv t1 \<le> 63" using e(3) mod64 [of c] by linarith
  have "prev_loop s start (i + 1) (i + 1) (c mod 64) 1 strict = Some (c, i + 1 - 1)"
  proof (rule prev_lead [OF _ _ _ cnt])
    show "start < i + 1" "rd s (i + 1 - 1) = Some l" "0xC0 \<le> uint l" using start r e(2) d by simp_all
    have "uint l mod 2 ^ (6 - 1) = c div 64" using m by simp
    then show "c = uint l mod 2 ^ (6 - 1) * 2 ^ (6 * 1) + c mod 64" using div_chain(3) [of c] by simp
    show "utf8_minLegal ! 1 \<le> c" using c by (simp add: utf8_minLegal_def)
  qed (use c(1) strict in simp_all)
  then show ?thesis using trail_byte(5,6) [OF t] by (simp add: utf8_prevCharSafeBody_def e add.commute)
qed

lemma prev3:
  assumes c: "scalar_value c" "0x7FF < c" "c \<le> 0xFFFF" and b: "bytes_at s i (utf8_encode c)"
    and strict: "strict \<le> 0" and start: "start \<le> i"
  shows "utf8_prevCharSafeBody s start (i + int (length (utf8_encode c)) - 1) (last (utf8_encode c)) strict
           = Some (c, i)"
proof -
  have c_ge: "0 \<le> c" using c by simp
  obtain l t1 t2 where e: "utf8_encode c = [l, t1, t2]" "uint l = 0xE0 + c div 4096"
    "tv t1 = c div 64 mod 64" "tv t2 = c mod 64"
    by (rule encode3 [OF c(2,3)])
  note d = div_small(2) [OF c_ge c(3)]
  have cnt: "U8_COUNT_TRAIL_BYTES l = 2" and m: "uint l mod 16 = c div 4096"
    using lead_arith(2) [of "c div 4096"] d e(2) by (simp_all add: lead_count)
  have r: "rd s i = Some l" "rd s (i + 2 - 1) = Some t1" using b by (simp_all add: e bytes_at_Cons add.commute)
  have t: "tv t1 \<le> 63" "tv t2 \<le> 63" using e(3,4) mod64 [of c] mod64 [of "c div 64"] by linarith+
  define low where "low = c div 64 mod 64 * 64 + c mod 64"
  have v: "c = c div 4096 * 4096 + low" using div_chain(1,3) [of c] unfolding low_def by linarith
  have lt: "0 \<le> low" "low < 4096"
    using mod64 [of c] mod64 [of "c div 64"] by (simp_all add: low_def)
  have "prev_loop s start (i + 2) (i + 2) (c mod 64) 1 strict =
      prev_loop s start (i + 2) (i + 2 - 1) (tv t1 * 2 ^ (6 * 1) + c mod 64) (1 + 1) strict"
    by (rule prev_trail [OF _ r(2) t(1)]) (use start in simp_all)
  also have "\<dots> = prev_loop s start (i + 2) (i + 1) low 2 strict"
    by (simp only: e(3) step_numerals low_def)
  also have "\<dots> = Some (c, i + 1 - 1)"
  proof (rule prev_lead [OF _ _ _ cnt])
    show "start < i + 1" "rd s (i + 1 - 1) = Some l" "0xC0 \<le> uint l" using start r(1) e(2) d by simp_all
    have "uint l mod 2 ^ (6 - 2) = c div 4096" using m by simp
    then show "c = uint l mod 2 ^ (6 - 2) * 2 ^ (6 * 2) + low" using v by (simp only: step_numerals)
    show "utf8_minLegal ! 2 \<le> c" using c by (simp add: utf8_minLegal_def)
  qed (use lt c(1) strict in simp_all)
  finally show ?thesis using trail_byte(5,6) [OF t(2)] e(4) by (simp add: utf8_prevCharSafeBody_def e(1) add.commute)
qed

lemma prev4:
  assumes c: "scalar_value c" "0xFFFF < c" and b: "bytes_at s i (utf8_encode c)"
    and strict: "strict \<le> 0" and start: "start \<le> i"
  shows "utf8_prevCharSafeBody s start (i + int (length (utf8_encode c)) - 1) (last (utf8_encode c)) strict
           = Some (c, i)"
proof -
  have c_ge: "0 \<le> c" "c \<le> 0x10FFFF" using c by (auto simp: scalar_value_def)
  obtain l t1 t2 t3 where e: "utf8_encode c = [l, t1, t2, t3]" "uint l = 0xF0 + c div 262144"
    "tv t1 = c div 4096 mod 64" "tv t2 = c div 64 mod 64" "tv t3 = c mod 64"
    by (rule encode4 [OF c(2) c_ge(2)])
  note d = div_small(3) [OF c_ge]
  have cnt: "U8_COUNT_TRAIL_BYTES l = 3" and m: "uint l mod 8 = c div 262144"
    using lead_arith(3) [of "c div 262144"] d e(2) by (simp_all add: lead_count)
  have r: "rd s i = Some l" "rd s (i + 2 - 1) = Some t1" "rd s (i + 3 - 1) = Some t2"
    using b by (simp_all add: e bytes_at_Cons add.commute)
  have t: "tv t1 \<le> 63" "tv t2 \<le> 63" "tv t3 \<le> 63"
    using e(3,4,5) mod64 [of c] mod64 [of "c div 64"] mod64 [of "c div 4096"] by linarith+
  define low where "low = c div 64 mod 64 * 64 + c mod 64"
  define mid where "mid = c div 4096 mod 64 * 4096 + low"
  have v: "c = c div 262144 * 262144 + mid" using div_chain [of c] unfolding mid_def low_def by linarith
  have lt: "0 \<le> low" "low < 4096" using mod64 [of c] mod64 [of "c div 64"] by (simp_all add: low_def)
  have lt2: "0 \<le> mid" "mid < 262144" using lt mod64 [of "c div 4096"] by (simp_all add: mid_def)
  have "prev_loop s start (i + 3) (i + 3) (c mod 64) 1 strict =
      prev_loop s start (i + 3) (i + 3 - 1) (tv t2 * 2 ^ (6 * 1) + c mod 64) (1 + 1) strict"
    by (rule prev_trail [OF _ r(3) t(2)]) (use start in simp_all)
  also have "\<dots> = prev_loop s start (i + 3) (i + 2) low 2 strict"
    by (simp only: e(4) step_numerals low_def)
  also have "\<dots> = prev_loop s start (i + 3) (i + 2 - 1) (tv t1 * 2 ^ (6 * 2) + low) (2 + 1) strict"
    by (rule prev_trail [OF _ r(2) t(1)]) (use start lt in simp_all)
  also have "\<dots> = prev_loop s start (i + 3) (i + 1) mid 3 strict"
    by (simp only: e(3) step_numerals mid_def)
  also have "\<dots> = Some (c, i + 1 - 1)"
  proof (rule prev_lead [OF _ _ _ cnt])
    show "start < i + 1" "rd s (i + 1 - 1) = Some l" "0xC0 \<le> uint l" using start r(1) e(2) d by simp_all
    have "uint l mod 2 ^ (6 - 3) = c div 262144" using m by simp
    then show "c = uint l mod 2 ^ (6 - 3) * 2 ^ (6 * 3) + mid" using v by (simp only: step_numerals)
    show "utf8_minLegal ! 3 \<le> c" using c by (simp add: utf8_minLegal_def)
  qed (use lt2 c(1) strict in simp_all)
  finally show ?thesis using trail_byte(5,6) [OF t(3)] e(5) by (simp add: utf8_prevCharSafeBody_def e(1) add.commute)
qed

lemma prev_complete:
  assumes c: "scalar_value c" "0x80 \<le> c" and b: "bytes_at s i (utf8_encode c)" and strict: "strict \<le> 0"
    and start: "start \<le> i"
  shows "utf8_prevCharSafeBody s start (i + int (length (utf8_encode c)) - 1) (last (utf8_encode c)) strict
           = Some (c, i)"
proof -
  consider "c \<le> 0x7FF" | "0x7FF < c" "c \<le> 0xFFFF" | "0xFFFF < c" by linarith
  then show ?thesis
    using prev2 [OF c _ b strict start] prev3 [OF c(1) _ _ b strict start] prev4 [OF c(1) _ b strict start]
    by cases
qed

text \<open>Finding the start of the sequence a trail byte belongs to.\<close>

lemma back1_step:
  assumes "rd s I = Some b" "tv b \<le> 63" "Z \<le> I - 1"
  shows "back1_loop s Z i I = back1_loop s Z i (I - 1)"
proof -
  have "\<not> b - 0x80 \<ge> 0x7E" "\<not> b \<ge> 0xC0"
    using trail_byte [OF assms(2)] by (simp_all add: word_le_def word_less_alt)
  with assms show ?thesis by (simp add: back1_loop.simps [of s Z i I])
qed

lemma back1_lead:
  assumes "rd s I = Some l" "0xC0 \<le> uint l" "uint l < 254" "i - I \<le> int (U8_COUNT_TRAIL_BYTES l)"
  shows "back1_loop s Z i I = Some I"
proof -
  have "\<not> l - 0x80 \<ge> 0x7E" "l \<ge> 0xC0"
    using assms high_byte(2) [of l] by (simp_all add: word_le_def word_less_alt)
  with assms show ?thesis by (simp add: back1_loop.simps [of s Z i I])
qed

lemma back1_complete:
  assumes c: "scalar_value c" "0x80 \<le> c" and b: "bytes_at s j (utf8_encode c)"
    and k: "0 < k" "k < int (length (utf8_encode c))" and start: "start \<le> j"
  shows "utf8_back1SafeBody s start (j + k) = Some j"
proof -
  have c_ge: "0 \<le> c" "c \<le> 0x10FFFF" using c by (auto simp: scalar_value_def)
  define Z where "Z = (if j + k - 5 > start then j + k - 5 else start)"
  have k4: "k < 4" using k by (simp add: encode_length split: if_splits)
  then have Z: "Z \<le> j" using start by (simp add: Z_def)
  have eq: "utf8_back1SafeBody s start (j + k) = back1_loop s Z (j + k) (j + k)"
    by (simp add: utf8_back1SafeBody_def Z_def)
  consider "c \<le> 0x7FF" | "0x7FF < c" "c \<le> 0xFFFF" | "0xFFFF < c" by linarith
  then show ?thesis
  proof cases
    case 1
    obtain l t1 where e: "utf8_encode c = [l, t1]" "uint l = 0xC0 + c div 64" "tv t1 = c mod 64"
      by (rule encode2 [OF c(2) 1])
    have r: "rd s j = Some l" "rd s (j + 1) = Some t1" using b by (simp_all add: e bytes_at_Cons)
    have t: "tv t1 \<le> 63" using e(3) mod64 [of c] by linarith
    have "k = 1" using k by (simp add: e)
    have lead: "back1_loop s Z (j + k) j = Some j"
      using div_small(1) [OF c_ge(1) 1] r(1) e(2) \<open>k = 1\<close> by (intro back1_lead [where l = l]) (simp_all add: lead_count)
    show ?thesis unfolding eq using back1_step [OF r(2) t, of Z "j + k"] lead Z \<open>k = 1\<close> by simp
  next
    case 2
    obtain l t1 t2 where e: "utf8_encode c = [l, t1, t2]" "uint l = 0xE0 + c div 4096"
      "tv t1 = c div 64 mod 64" "tv t2 = c mod 64"
      by (rule encode3 [OF 2])
    have r: "rd s j = Some l" "rd s (j + 1) = Some t1" "rd s (j + 2) = Some t2"
      using b by (simp_all add: e bytes_at_Cons add.assoc)
    have t: "tv t1 \<le> 63" "tv t2 \<le> 63" using e(3,4) mod64 [of c] mod64 [of "c div 64"] by linarith+
    have "k = 1 \<or> k = 2" using k by (auto simp: e)
    moreover have lead: "back1_loop s Z (j + k) j = Some j"
      using div_small(2) [OF c_ge(1) 2(2)] r(1) e(2) calculation
      by (intro back1_lead [where l = l]) (auto simp: lead_count)
    moreover have "back1_loop s Z (j + k) (j + 1) = back1_loop s Z (j + k) j"
      using back1_step [OF r(2) t(1), of Z "j + k"] Z by (simp add: add.commute)
    moreover have "back1_loop s Z (j + k) (j + 2) = back1_loop s Z (j + k) (j + 1)"
      using back1_step [OF r(3) t(2), of Z "j + k"] Z by (simp add: add.commute)
    ultimately show ?thesis unfolding eq by auto
  next
    case 3
    obtain l t1 t2 t3 where e: "utf8_encode c = [l, t1, t2, t3]" "uint l = 0xF0 + c div 262144"
      "tv t1 = c div 4096 mod 64" "tv t2 = c div 64 mod 64" "tv t3 = c mod 64"
      by (rule encode4 [OF 3 c_ge(2)])
    have r: "rd s j = Some l" "rd s (j + 1) = Some t1" "rd s (j + 2) = Some t2" "rd s (j + 3) = Some t3"
      using b by (simp_all add: e bytes_at_Cons add.assoc)
    have t: "tv t1 \<le> 63" "tv t2 \<le> 63" "tv t3 \<le> 63"
      using e(3,4,5) mod64 [of c] mod64 [of "c div 64"] mod64 [of "c div 4096"] by linarith+
    have "k = 1 \<or> k = 2 \<or> k = 3" using k by (auto simp: e)
    moreover have lead: "back1_loop s Z (j + k) j = Some j"
      using div_small(3) [OF c_ge] r(1) e(2) calculation
      by (intro back1_lead [where l = l]) (auto simp: lead_count)
    moreover have "back1_loop s Z (j + k) (j + 1) = back1_loop s Z (j + k) j"
      using back1_step [OF r(2) t(1), of Z "j + k"] Z by (simp add: add.commute)
    moreover have "back1_loop s Z (j + k) (j + 2) = back1_loop s Z (j + k) (j + 1)"
      using back1_step [OF r(3) t(2), of Z "j + k"] Z by (simp add: add.commute)
    moreover have "back1_loop s Z (j + k) (j + 3) = back1_loop s Z (j + k) (j + 2)"
      using back1_step [OF r(4) t(3), of Z "j + k"] Z by (simp add: add.commute)
    ultimately show ?thesis unfolding eq by auto
  qed
qed

section \<open>Properties\<close>

text \<open>C24: In the mode \<open>strict = -1\<close> of \<open>U8_NEXT\<close> and \<open>U8_PREV\<close>, every Unicode scalar value outside ASCII that is appended to a buffer with room for it can be
  read back: reading forward from where it was written gives the code point and the position after
  it, reading backward from there gives the code point and the position before it, and from every
  trail byte of the sequence the boundary search finds its first byte. Nothing outside the written
  bytes changes.\<close>

theorem utf8_append_roundtrip:
  assumes "scalar_value c" "0x80 \<le> c" "0 \<le> start" "start \<le> i"
    "i + int (length (utf8_encode c)) \<le> capacity" "capacity \<le> int (length s)"
  shows "\<exists>s' i'. utf8_appendCharSafeBody s i capacity c report = Some (s', i', False)
     \<and> length s' = length s \<and> take (nat i) s' = take (nat i) s \<and> drop (nat i') s' = drop (nat i') s
     \<and> utf8_nextCharSafeBody s' (i + 1) capacity (s' ! nat i) (-1) = Some (c, i')
     \<and> utf8_prevCharSafeBody s' start (i' - 1) (s' ! nat (i' - 1)) (-1) = Some (c, i)
     \<and> (\<forall>k. 0 < k \<longrightarrow> i + k < i' \<longrightarrow> utf8_back1SafeBody s' start (i + k) = Some i)"
proof -
  let ?e = "utf8_encode c" let ?s = "take (nat i) s @ ?e @ drop (nat i + length ?e) s"
  let ?i = "i + int (length ?e)"
  have i: "0 \<le> i" "i + int (length ?e) \<le> int (length s)" using assms by auto
  have b: "bytes_at ?s i ?e" by (rule bytes_at_write [OF i])
  have ne: "?e \<noteq> []" by (simp add: utf8_encode_def)
  have hd: "?s ! nat i = hd ?e" using i ne by (simp add: nth_append hd_conv_nth)
  have last: "?s ! nat (?i - 1) = last ?e"
  proof -
    have "nat (?i - 1) = nat i + (length ?e - 1)" using i(1) ne by (cases ?e) auto
    then show ?thesis using i ne by (simp add: nth_append last_conv_nth)
  qed
  have "utf8_appendCharSafeBody s i capacity c report = Some (?s, ?i, False)"
    by (rule append_correct [OF assms(1,2) i(1) assms(5,6)])
  moreover have "length ?s = length s" "take (nat i) ?s = take (nat i) s" "drop (nat ?i) ?s = drop (nat ?i) s"
    using i by (auto simp: nat_add_distrib)
  moreover have "utf8_nextCharSafeBody ?s (i + 1) capacity (?s ! nat i) (-1) = Some (c, ?i)"
    unfolding hd using assms by (intro next_complete [OF assms(1,2) b]) auto
  moreover have "utf8_prevCharSafeBody ?s start (?i - 1) (?s ! nat (?i - 1)) (-1) = Some (c, i)"
    unfolding last using assms by (intro prev_complete [OF assms(1,2) b]) auto
  moreover have "\<forall>k. 0 < k \<longrightarrow> i + k < ?i \<longrightarrow> utf8_back1SafeBody ?s start (i + k) = Some i"
    using back1_complete [OF assms(1,2) b _ _ assms(4)] by simp
  ultimately show ?thesis by blast
qed

theorem utf8_append_roundtrip_witness:
  "\<exists>s' i'. utf8_appendCharSafeBody (replicate 8 0) 2 8 0x20AC True = Some (s', i', False)
     \<and> length s' = length (replicate 8 (0 :: byte)) \<and> take (nat 2) s' = take (nat 2) (replicate 8 0)
     \<and> drop (nat i') s' = drop (nat i') (replicate 8 0)
     \<and> utf8_nextCharSafeBody s' (2 + 1) 8 (s' ! nat 2) (-1) = Some (0x20AC, i')
     \<and> utf8_prevCharSafeBody s' 0 (i' - 1) (s' ! nat (i' - 1)) (-1) = Some (0x20AC, 2)
     \<and> (\<forall>k. 0 < k \<longrightarrow> 2 + k < i' \<longrightarrow> utf8_back1SafeBody s' 0 (2 + k) = Some 2)"
  by (rule utf8_append_roundtrip) (simp_all add: scalar_value_def encode_length)

text \<open>C25: In the mode \<open>strict = -1\<close>, the one of \<open>U8_NEXT\<close>, the forward reader accepts nothing but
  well-formed UTF-8, whatever the bytes (the mode -2 also accepts surrogates, and the others give
  other error values): for any array,
  offset and first byte it stays inside the array, always moves to a position between the offset
  and the end of the text, and gives either the error value or a scalar value whose encoding is
  exactly the bytes consumed, so overlong forms, surrogates and values above U+10FFFF are rejected.\<close>

theorem utf8_next_wellformed:
  assumes "0 < pi" "pi \<le> len" "len \<le> int (length s)"
  shows "\<exists>c i'. utf8_nextCharSafeBody s pi len l (-1) = Some (c, i') \<and> pi \<le> i' \<and> i' \<le> len
     \<and> (c = U_SENTINEL
        \<or> scalar_value c \<and> utf8_encode c = l # take (nat (i' - pi)) (drop (nat pi) s))"
proof -
  let ?n = "U8_COUNT_TRAIL_BYTES l"
  define enough where "enough \<longleftrightarrow> pi + int ?n \<le> len \<or> len < 0"
  define r where "r = (if enough then next_switch s pi (uint l mod 2 ^ (6 - ?n)) ?n (-1) else Some None)"
  have n6: "?n \<le> 6" by (simp add: lead_count)
  have body: "utf8_nextCharSafeBody s pi len l (-1) =
      r \<bind> (\<lambda>r. case r of Some (c', i') \<Rightarrow> Some (c', i')
           | None \<Rightarrow> error_loop s pi (if enough then ?n else nat ((len - pi) mod 256))
                       \<bind> (\<lambda>i. Some (errorValue (nat (i - pi)) (-1), i)))"
    by (simp add: utf8_nextCharSafeBody_def Let_def mask_lead [OF n6] r_def enough_def)
  have err: "\<exists>i'. error_loop s pi (if enough then ?n else nat ((len - pi) mod 256)) = Some i' \<and> pi \<le> i' \<and> i' \<le> len"
  proof -
    let ?k = "if enough then ?n else nat ((len - pi) mod 256)"
    have "(len - pi) mod 256 \<le> len - pi" using assms(2) by (intro zmod_le_nonneg_dividend) simp
    then have "pi + int ?k \<le> len" using assms by (auto simp: enough_def)
    then show ?thesis using error_loop_bounds [of pi ?k s] assms by fastforce
  qed
  have "r \<noteq> None"
    using next_switch_bounds [of pi l s "uint l mod 2 ^ (6 - ?n)" "-1"] assms by (auto simp: r_def enough_def)
  then obtain r' where r': "r = Some r'" by blast
  show ?thesis
  proof (cases r')
    case None
    with err show ?thesis unfolding body r' by (auto simp: errorValue_def)
  next
    case (Some ci)
    obtain c i' where ci: "ci = (c, i')" by (cases ci)
    have sw: "next_switch s pi (uint l mod 2 ^ (6 - ?n)) ?n (-1) = Some (Some (c, i'))" and en: "enough"
      using r' Some ci by (auto simp: r_def split: if_splits)
    obtain ts where ts: "scalar_value c" "utf8_encode c = l # ts" "bytes_at s pi ts" "i' = pi + int (length ts)"
        "length ts = ?n"
      using accept_sound [OF sw] by auto
    have "take (length ts) (drop (nat pi) s) = ts"
    proof (rule nth_equalityI)
      show "length (take (length ts) (drop (nat pi) s)) = length ts"
        using ts(5) en assms by (auto simp: enough_def)
      fix k assume "k < length (take (length ts) (drop (nat pi) s))"
      then show "take (length ts) (drop (nat pi) s) ! k = ts ! k"
        using ts(3) assms by (auto simp: bytes_at_def rd_def nat_add_distrib split: if_splits)
    qed
    then show ?thesis unfolding body r' Some ci using ts en assms by (auto simp: enough_def)
  qed
qed

theorem utf8_next_wellformed_witness:
  "\<exists>c i'. utf8_nextCharSafeBody [0xED, 0xA0, 0x80, 0x41] 1 4 0xED (-1) = Some (c, i') \<and> 1 \<le> i' \<and> i' \<le> 4
     \<and> (c = U_SENTINEL
        \<or> scalar_value c \<and> utf8_encode c = 0xED # take (nat (i' - 1)) (drop (nat 1) [0xED, 0xA0, 0x80, 0x41]))"
  by (rule utf8_next_wellformed) simp_all

end
