(* ===== verification/PropsVec.thy ===== *)
theory PropsVec
  imports ArraySort "HOL-Library.Monad_Syntax"
begin

text \<open>
  \<open>Source/icu/propsvec.c\<close>: the builder for properties vectors, an array of rows that assigns a
  vector of 32-bit values to each range of code points. The array is a list of rows, so a pointer
  into it is a row index and the moves of whole rows are moves of list items; each row holds the
  start and the limit of its range in its first two columns. The list has \<open>maxRows\<close> items, of which
  the first \<open>rows\<close> are in use. A byte count that overflows an \<open>int32_t\<close> is \<open>None\<close>. Reading a row outside the array is \<open>None\<close>. \<open>malloc\<close> says whether an
  allocation of that many bytes succeeds; memory it returns is not initialised, and the argument
  \<open>junk\<close> is what its rows hold.
\<close>

section \<open>Data\<close>

type_synonym row = "32 word list"

record UPropsVectors =
  pv_v :: "row list"
  pv_columns :: nat
  pv_maxRows :: nat
  pv_rows :: nat
  pv_prevRow :: nat
  pv_isCompacted :: bool

abbreviation (input) UPVEC_FIRST_SPECIAL_CP :: int where "UPVEC_FIRST_SPECIAL_CP \<equiv> 0x110000"
abbreviation (input) UPVEC_MAX_CP :: int where "UPVEC_MAX_CP \<equiv> 0x110001"
abbreviation (input) UPVEC_START_REAL_VALUES_CP :: int where "UPVEC_START_REAL_VALUES_CP \<equiv> 0x200000"
abbreviation (input) UPVEC_INITIAL_ROWS :: nat where "UPVEC_INITIAL_ROWS \<equiv> 4096"
abbreviation (input) UPVEC_MEDIUM_ROWS :: nat where "UPVEC_MEDIUM_ROWS \<equiv> 65536"
abbreviation (input) UPVEC_MAX_ROWS :: nat where "UPVEC_MAX_ROWS \<equiv> 0x110002"

text \<open>\<open>(UChar32)row[0]\<close> and \<open>(UChar32)row[1]\<close>.\<close>

definition row_start :: "row \<Rightarrow> int" where "row_start r = sint (r ! 0)"
definition row_limit :: "row \<Rightarrow> int" where "row_limit r = sint (r ! 1)"

definition row_at :: "UPropsVectors \<Rightarrow> nat \<Rightarrow> row option" where
  "row_at pv i = (if i < length (pv_v pv) then Some (pv_v pv ! i) else None)"

section \<open>Construction\<close>

text \<open>The loop that writes the rows of the special code points.\<close>

definition special_rows :: "nat \<Rightarrow> row list" where
  "special_rows columns =
     map (\<lambda>cp. word_of_int cp # word_of_int (cp + 1) # replicate (columns - 2) 0)
         [UPVEC_FIRST_SPECIAL_CP..UPVEC_MAX_CP]"

abbreviation (input) SIZEOF_UPropsVectors :: nat where "SIZEOF_UPropsVectors \<equiv> 24"

text \<open>The byte count \<open>rows*columns*4\<close> of an array of rows. All three factors are \<open>int32_t\<close>: a product
  that does not fit overflows, and what the code does then is undefined, \<open>None\<close>.\<close>

definition row_bytes :: "nat \<Rightarrow> nat \<Rightarrow> nat option" where
  "row_bytes rows columns = (if rows * columns * 4 < 2 ^ 31 then Some (rows * columns * 4) else None)"

text \<open>The outer option of the constructor is this undefined case; the inner one is the returned pointer.
  Adding 2 to the number of columns overflows only where the byte count does.\<close>

definition upvec_open ::
    "(nat \<Rightarrow> bool) \<Rightarrow> (nat \<Rightarrow> row) \<Rightarrow> int \<Rightarrow> UErrorCode \<Rightarrow> (UPropsVectors option \<times> UErrorCode) option" where
  "upvec_open malloc junk columns0 err =
     (if U_FAILURE err then Some (None, err)
      else if columns0 < 1 then Some (None, U_ILLEGAL_ARGUMENT_ERROR)
      else
        do {
          let columns = nat (columns0 + 2);
          bytes \<leftarrow> row_bytes UPVEC_INITIAL_ROWS columns;
          let rows = nat (2 + (UPVEC_MAX_CP - UPVEC_FIRST_SPECIAL_CP));
          let used = (0 # 0x110000 # replicate (columns - 2) 0) # special_rows columns;
          Some (if \<not> malloc SIZEOF_UPropsVectors \<or> \<not> malloc bytes then (None, U_MEMORY_ALLOCATION_ERROR)
                else (Some \<lparr>pv_v = used @ map junk [rows..<UPVEC_INITIAL_ROWS], pv_columns = columns,
                            pv_maxRows = UPVEC_INITIAL_ROWS, pv_rows = rows, pv_prevRow = 0,
                            pv_isCompacted = False\<rparr>, err))
        })"

text \<open>\<open>upvec_close\<close> frees the array and the structure: the blocks freed, in order.\<close>

definition upvec_close :: "UPropsVectors option \<Rightarrow> string list" where
  "upvec_close pv = (case pv of None \<Rightarrow> [] | Some _ \<Rightarrow> [''v'', ''pv''])"

section \<open>Finding a row\<close>

text \<open>The loop over the rows after the last-seen one: the row index of the first whose limit is
  above the code point.\<close>

function near_loop :: "UPropsVectors \<Rightarrow> int \<Rightarrow> nat \<Rightarrow> nat option" where
  "near_loop pv rangeStart prevRow =
     (if prevRow + 1 < length (pv_v pv)
      then if rangeStart \<ge> row_limit (pv_v pv ! (prevRow + 1)) then near_loop pv rangeStart (prevRow + 1)
           else Some (prevRow + 1)
      else None)"
  by pat_completeness auto
termination
  by (relation "measure (\<lambda>(pv, rangeStart, prevRow). length (pv_v pv) - prevRow)") auto

function bsearch_loop :: "UPropsVectors \<Rightarrow> int \<Rightarrow> nat \<Rightarrow> nat \<Rightarrow> nat option" where
  "bsearch_loop pv rangeStart start limit =
     (if start + 1 < limit then
        let i = (start + limit) div 2 in
        if i < length (pv_v pv) then
          if rangeStart < row_start (pv_v pv ! i) then bsearch_loop pv rangeStart start i
          else if rangeStart < row_limit (pv_v pv ! i) then Some i
          else bsearch_loop pv rangeStart i limit
        else None
      else Some start)"
  by pat_completeness auto
termination
  by (relation "measure (\<lambda>(pv, rangeStart, start, limit). limit - start)") auto

declare near_loop.simps [simp del] bsearch_loop.simps [simp del]

text \<open>The index of the row found and the builder with the row remembered.\<close>

definition priv_findRow :: "UPropsVectors \<Rightarrow> int \<Rightarrow> (nat \<times> UPropsVectors) option" where
  "priv_findRow pv rangeStart =
     do {
       let prevRow = pv_prevRow pv;
       let remember = (\<lambda>i. (i, pv\<lparr>pv_prevRow := i\<rparr>));
       let search = map_option remember (bsearch_loop pv rangeStart 0 (pv_rows pv));
       row0 \<leftarrow> row_at pv prevRow;
       if rangeStart \<ge> row_start row0 then
         if rangeStart < row_limit row0 then Some (prevRow, pv)
         else do {
           row1 \<leftarrow> row_at pv (prevRow + 1);
           if rangeStart < row_limit row1 then Some (remember (prevRow + 1))
           else do {
             row2 \<leftarrow> row_at pv (prevRow + 2);
             if rangeStart < row_limit row2 then Some (remember (prevRow + 2))
             else if rangeStart - row_limit row2 < 10 then map_option remember (near_loop pv rangeStart (prevRow + 2))
             else search
           }
         }
       else do {
         first \<leftarrow> row_at pv 0;
         if rangeStart < row_limit first then Some (remember 0) else search
       }
     }"

section \<open>Setting and reading values\<close>

text \<open>The growth of the array. The error codes are those of the two failing branches; \<open>None\<close> is the
  overflow of the byte count.\<close>

definition grow_rows ::
    "(nat \<Rightarrow> bool) \<Rightarrow> (nat \<Rightarrow> row) \<Rightarrow> UPropsVectors \<Rightarrow> nat \<Rightarrow> (UErrorCode + UPropsVectors) option" where
  "grow_rows malloc junk pv needed =
     (if needed > pv_maxRows pv then
        let newMaxRows = (if pv_maxRows pv < UPVEC_MEDIUM_ROWS then Some UPVEC_MEDIUM_ROWS
                          else if pv_maxRows pv < UPVEC_MAX_ROWS then Some UPVEC_MAX_ROWS
                          else None)
        in case newMaxRows of
             None \<Rightarrow> Some (Inl U_INTERNAL_PROGRAM_ERROR)
           | Some n \<Rightarrow>
               do {
                 bytes \<leftarrow> row_bytes n (pv_columns pv);
                 Some (if \<not> malloc bytes then Inl U_MEMORY_ALLOCATION_ERROR
                       else Inr (pv\<lparr>pv_v := take (pv_rows pv) (pv_v pv) @ map junk [pv_rows pv..<n],
                                    pv_maxRows := n\<rparr>))
               }
      else Some (Inr pv))"

text \<open>Splitting the first row: the rows up to the last move up by one, and the two copies of the first
  row get the code point as their common bound. Splitting the last row copies it.\<close>

definition split_first_row :: "row list \<Rightarrow> nat \<Rightarrow> nat \<Rightarrow> int \<Rightarrow> row list" where
  "split_first_row v f l start =
     (let va = memmove_items v (f + 1) f (l - f + 1);
          vb = va[f := (va ! f)[1 := word_of_int start]]
      in vb[f + 1 := (vb ! (f + 1))[0 := word_of_int start]])"

definition split_last_row :: "row list \<Rightarrow> nat \<Rightarrow> int \<Rightarrow> row list" where
  "split_last_row v l limit =
     (let va = v[l + 1 := v ! l];
          vb = va[l := (va ! l)[1 := word_of_int limit]]
      in vb[l + 1 := (vb ! (l + 1))[0 := word_of_int limit]])"

text \<open>The moves of \<open>upvec_setValue\<close> on the row indices \<open>f\<close> and \<open>l\<close>, after room for \<open>n\<close> rows has been
  made behind the last row. The result is the array and the new indices.\<close>

definition split_rows ::
    "row list \<Rightarrow> nat \<Rightarrow> nat \<Rightarrow> nat \<Rightarrow> bool \<Rightarrow> bool \<Rightarrow> int \<Rightarrow> int \<Rightarrow> row list \<times> nat \<times> nat" where
  "split_rows v rows f l splitFirstRow splitLastRow start limit =
     (let n = of_bool splitFirstRow + of_bool splitLastRow;
          cnt = rows - (l + 1);
          v1 = (if cnt > 0 then memmove_items v (l + 1 + n) (l + 1) cnt else v);
          v2 = (if splitFirstRow then split_first_row v1 f l start else v1);
          f2 = (if splitFirstRow then f + 1 else f);
          l2 = (if splitFirstRow then l + 1 else l);
          v3 = (if splitLastRow then split_last_row v2 l2 limit else v2)
      in (v3, f2, l2))"

text \<open>The final loop: the value goes into the column of every row from the first to the last. It is
  never entered with the last row before the first.\<close>

function set_loop :: "row list \<Rightarrow> nat \<Rightarrow> nat \<Rightarrow> nat \<Rightarrow> 32 word \<Rightarrow> 32 word \<Rightarrow> row list" where
  "set_loop v f l column val maskNot =
     (let v' = v[f := (v ! f)[column := ((v ! f) ! column AND maskNot) OR val]] in
      if f = l \<or> l < f then v' else set_loop v' (f + 1) l column val maskNot)"
  by pat_completeness auto
termination
  by (relation "measure (\<lambda>(v, f, l, column, val, maskNot). l - f)") auto

declare set_loop.simps [simp del]

text \<open>The part of \<open>upvec_setValue\<close> after the rows of the first and the last code point are found: it
  makes room and splits the rows where asked, then sets the values.\<close>

definition set_rows ::
    "(nat \<Rightarrow> bool) \<Rightarrow> (nat \<Rightarrow> row) \<Rightarrow> UPropsVectors \<Rightarrow> nat \<Rightarrow> nat \<Rightarrow> bool \<Rightarrow> bool \<Rightarrow> int \<Rightarrow> int \<Rightarrow> nat \<Rightarrow> 32 word
       \<Rightarrow> 32 word \<Rightarrow> UErrorCode \<Rightarrow> (UPropsVectors option \<times> UErrorCode) option" where
  "set_rows malloc junk pv firstRow lastRow splitFirstRow splitLastRow start limit col val mask' err =
     (let rows = pv_rows pv;
          needed = rows + (of_bool splitFirstRow + of_bool splitLastRow)
      in case (if splitFirstRow \<or> splitLastRow then grow_rows malloc junk pv needed else Some (Inr pv)) of
           None \<Rightarrow> None
         | Some (Inl e) \<Rightarrow> Some (Some pv, e)
         | Some (Inr pv') \<Rightarrow>
             (let (v, f, l) = (if splitFirstRow \<or> splitLastRow
                               then split_rows (pv_v pv') rows firstRow lastRow splitFirstRow splitLastRow start limit
                               else (pv_v pv', firstRow, lastRow))
              in Some (Some (pv'\<lparr>pv_v := set_loop v f l col val (NOT mask'), pv_rows := needed, pv_prevRow := l\<rparr>), err)))"

definition upvec_setValue ::
    "(nat \<Rightarrow> bool) \<Rightarrow> (nat \<Rightarrow> row) \<Rightarrow> UPropsVectors option \<Rightarrow> int \<Rightarrow> int \<Rightarrow> int \<Rightarrow> 32 word \<Rightarrow> 32 word \<Rightarrow> UErrorCode
       \<Rightarrow> (UPropsVectors option \<times> UErrorCode) option" where
  "upvec_setValue malloc junk pvo start end' column val0 mask' err =
     (if U_FAILURE err then Some (pvo, err)
      else case pvo of
        None \<Rightarrow> Some (None, U_ILLEGAL_ARGUMENT_ERROR)
      | Some pv \<Rightarrow>
          if start < 0 \<or> start > end' \<or> end' > UPVEC_MAX_CP \<or> column < 0 \<or> column \<ge> int (pv_columns pv) - 2
          then Some (Some pv, U_ILLEGAL_ARGUMENT_ERROR)
          else if pv_isCompacted pv then Some (Some pv, U_NO_WRITE_PERMISSION)
          else
            do {
              let limit = end' + 1;
              let col = nat column + 2;
              let val = val0 AND mask';
              (firstRow, pv1) \<leftarrow> priv_findRow pv start;
              (lastRow, pv2) \<leftarrow> priv_findRow pv1 end';
              let frow = pv_v pv2 ! firstRow;
              let lrow = pv_v pv2 ! lastRow;
              let splitFirstRow = (start \<noteq> row_start frow \<and> val \<noteq> frow ! col AND mask');
              let splitLastRow = (limit \<noteq> row_limit lrow \<and> val \<noteq> lrow ! col AND mask');
              set_rows malloc junk pv2 firstRow lastRow splitFirstRow splitLastRow start limit col val mask' err
            })"

text \<open>The getter remembers the row, so it returns the builder too.\<close>

definition upvec_getValue :: "UPropsVectors \<Rightarrow> int \<Rightarrow> int \<Rightarrow> (32 word \<times> UPropsVectors) option" where
  "upvec_getValue pv c column =
     (if pv_isCompacted pv \<or> c < 0 \<or> c > UPVEC_MAX_CP \<or> column < 0 \<or> column \<ge> int (pv_columns pv) - 2
      then Some (0, pv)
      else do { (row, pv') \<leftarrow> priv_findRow pv c; Some (pv_v pv' ! row ! (2 + nat column), pv') })"

text \<open>\<open>upvec_getRow\<close>: the range and the values of a row, NULL is \<open>None\<close>.\<close>

definition upvec_getRow :: "UPropsVectors \<Rightarrow> int \<Rightarrow> (int \<times> int \<times> 32 word list) option" where
  "upvec_getRow pv rowIndex =
     (if pv_isCompacted pv \<or> rowIndex < 0 \<or> rowIndex \<ge> int (pv_rows pv) then None
      else let row = pv_v pv ! nat rowIndex
           in Some (row_start row, row_limit row - 1, drop 2 row))"

section \<open>Rows that cover a range\<close>

text \<open>\<open>chain n a rs b\<close>: the rows have \<open>n\<close> columns and their ranges are non-empty and follow one another
  from \<open>a\<close> to \<open>b\<close>.\<close>

fun chain :: "nat \<Rightarrow> int \<Rightarrow> row list \<Rightarrow> int \<Rightarrow> bool" where
  "chain n a [] b \<longleftrightarrow> a = b"
| "chain n a (r # rs) b \<longleftrightarrow>
     row_start r = a \<and> a < row_limit r \<and> length r = n \<and> chain n (row_limit r) rs b"

text \<open>The row of a code point.\<close>

fun pick :: "row list \<Rightarrow> int \<Rightarrow> row" where
  "pick [] c = []"
| "pick (r # rs) c = (if c < row_limit r then r else pick rs c)"

lemma chain_append: "chain n a (xs @ ys) b \<longleftrightarrow> (\<exists>m. chain n a xs m \<and> chain n m ys b)"
  by (induction xs arbitrary: a) auto

lemma chain_le: "chain n a rs b \<Longrightarrow> a + int (length rs) \<le> b"
  by (induction rs arbitrary: a) fastforce+

lemma pick_append_left: "chain n a xs m \<Longrightarrow> c < m \<Longrightarrow> xs \<noteq> [] \<or> a \<le> c \<Longrightarrow> pick (xs @ ys) c = pick xs c"
  by (induction xs arbitrary: a) (auto dest: chain_le)

lemma pick_append_right: "chain n a xs m \<Longrightarrow> m \<le> c \<Longrightarrow> pick (xs @ ys) c = pick ys c"
proof (induction xs arbitrary: a)
  case (Cons r xs)
  then have "chain n (row_limit r) xs m" by simp
  with chain_le [OF this] Cons show ?case by simp
qed simp

lemma chain_nth:
  assumes "chain n a rs b" "i < length rs"
  shows "a \<le> row_start (rs ! i)" "row_start (rs ! i) < row_limit (rs ! i)" "row_limit (rs ! i) \<le> b"
    "length (rs ! i) = n"
  using assms
proof (induction rs arbitrary: a i)
  case (Cons r rs)
  { case 1 then show ?case using Cons.IH(1) [of "row_limit r" "i - 1"] by (cases i) auto }
  { case 2 then show ?case using Cons.IH(2) [of "row_limit r" "i - 1"] by (cases i) auto }
  { case 3 then show ?case using Cons.IH(3) [of "row_limit r" "i - 1"] chain_le [of n "row_limit r" rs b]
      by (cases i) auto }
  { case 4 then show ?case using Cons.IH(4) [of "row_limit r" "i - 1"] by (cases i) auto }
qed simp_all

lemma chain_split_at:
  assumes "chain n a rs b" "i < length rs"
  obtains m where "chain n a (take i rs) m" "row_start (rs ! i) = m" "chain n (row_limit (rs ! i)) (drop (Suc i) rs) b"
proof -
  have "chain n a (take i rs @ rs ! i # drop (Suc i) rs) b"
    using assms id_take_nth_drop [OF assms(2)] by simp
  then show ?thesis using that by (auto simp: chain_append)
qed

lemma chain_mono:
  assumes "chain n a rs b" "i < j" "j < length rs"
  shows "row_limit (rs ! i) \<le> row_start (rs ! j)"
proof -
  obtain m where "chain n (row_limit (rs ! i)) (drop (Suc i) rs) b"
    using chain_split_at [OF assms(1), of i] assms by auto
  from chain_nth(1) [OF this, of "j - Suc i"] assms show ?thesis by simp
qed

lemma pick_nth:
  assumes "chain n a rs b" "i < length rs" "row_start (rs ! i) \<le> c" "c < row_limit (rs ! i)"
  shows "pick rs c = rs ! i"
proof -
  obtain m where m: "chain n a (take i rs) m" "row_start (rs ! i) = m" using chain_split_at [OF assms(1,2)] by auto
  have "pick rs c = pick (take i rs @ rs ! i # drop (Suc i) rs) c" using id_take_nth_drop [OF assms(2)] by simp
  also have "\<dots> = pick (rs ! i # drop (Suc i) rs) c" using m assms(3) by (intro pick_append_right) auto
  finally show ?thesis using assms(4) by simp
qed

lemma chain_locate:
  "chain n a rs b \<Longrightarrow> a \<le> c \<Longrightarrow> c < b \<Longrightarrow> \<exists>i<length rs. row_start (rs ! i) \<le> c \<and> c < row_limit (rs ! i)"
proof (induction rs arbitrary: a)
  case (Cons r rs)
  show ?case
  proof (cases "c < row_limit r")
    case True
    then show ?thesis using Cons.prems by (intro exI [of _ 0]) auto
  next
    case False
    have "\<exists>i<length rs. row_start (rs ! i) \<le> c \<and> c < row_limit (rs ! i)"
      using Cons.prems False by (intro Cons.IH [of "row_limit r"]) auto
    then obtain i where "i < length rs" "row_start (rs ! i) \<le> c" "c < row_limit (rs ! i)" by blast
    then show ?thesis by (intro exI [of _ "Suc i"]) auto
  qed
qed simp

section \<open>The invariant\<close>

definition used_rows :: "UPropsVectors \<Rightarrow> row list" where
  "used_rows pv = take (pv_rows pv) (pv_v pv)"

text \<open>The limit on the columns: the byte count of \<open>UPVEC_MAX_ROWS\<close> rows of 481 columns, the start and the
  limit included, fits an \<open>int32_t\<close>, and that of 482 does not.\<close>

definition pv_ok :: "UPropsVectors \<Rightarrow> bool" where
  "pv_ok pv \<longleftrightarrow>
     \<not> pv_isCompacted pv \<and> 3 \<le> pv_columns pv \<and> pv_columns pv \<le> 481 \<and> pv_rows pv \<le> pv_maxRows pv \<and> length (pv_v pv) = pv_maxRows pv
     \<and> pv_maxRows pv \<in> {UPVEC_INITIAL_ROWS, UPVEC_MEDIUM_ROWS, UPVEC_MAX_ROWS}
     \<and> pv_prevRow pv < pv_rows pv
     \<and> chain (pv_columns pv) 0 (used_rows pv) (UPVEC_MAX_CP + 1)"

text \<open>The abstract content: a value for each code point and column.\<close>

definition pv_get :: "UPropsVectors \<Rightarrow> int \<Rightarrow> nat \<Rightarrow> 32 word" where
  "pv_get pv c col = pick (used_rows pv) c ! (2 + col)"

lemma pv_okD:
  assumes "pv_ok pv"
  shows "chain (pv_columns pv) 0 (used_rows pv) (UPVEC_MAX_CP + 1)" "length (used_rows pv) = pv_rows pv"
    "length (pv_v pv) = pv_maxRows pv" "pv_rows pv \<le> pv_maxRows pv" "pv_prevRow pv < pv_rows pv"
    "\<And>i. i < pv_rows pv \<Longrightarrow> pv_v pv ! i = used_rows pv ! i" "3 \<le> pv_columns pv" "\<not> pv_isCompacted pv" "pv_columns pv \<le> 481"
  using assms by (auto simp: pv_ok_def used_rows_def)

lemma pv_ok_prevRow: "pv_ok pv \<Longrightarrow> i < pv_rows pv \<Longrightarrow> pv_ok (pv\<lparr>pv_prevRow := i\<rparr>)"
  by (auto simp: pv_ok_def used_rows_def)

lemma prevRow_simps [simp]:
  "used_rows (pv\<lparr>pv_prevRow := i\<rparr>) = used_rows pv" "pv_get (pv\<lparr>pv_prevRow := i\<rparr>) = pv_get pv"
  by (auto simp: used_rows_def pv_get_def fun_eq_iff)

section \<open>The search\<close>

lemma near_loop_correct:
  assumes "chain n a rs b" "take (length rs) (pv_v pv) = rs" "i < length rs" "row_limit (rs ! i) \<le> c" "c < b"
  shows "\<exists>j<length rs. near_loop pv c i = Some j \<and> row_start (rs ! j) \<le> c \<and> c < row_limit (rs ! j)"
  using assms(3,4)
proof (induction "length rs - i" arbitrary: i)
  case (Suc d)
  have "Suc i < length rs"
  proof (rule ccontr)
    assume "\<not> Suc i < length rs"
    with Suc.prems(1) have "i = length rs - 1" "rs \<noteq> []" by auto
    then have "row_limit (rs ! i) = b"
      using chain_split_at [OF assms(1), of i] Suc.prems(1) by (auto elim: chain_split_at)
    with Suc.prems(2) assms(5) show False by simp
  qed
  then have len: "Suc i < length (pv_v pv)" and nth: "pv_v pv ! Suc i = rs ! Suc i"
    using assms(2) by (metis length_take min_less_iff_conj, metis nth_take)
  show ?case
  proof (cases "row_limit (rs ! Suc i) \<le> c")
    case True
    then show ?thesis
      using Suc.hyps(1) [of "Suc i"] Suc.hyps(2) \<open>Suc i < length rs\<close> len nth
      by (simp add: near_loop.simps [of pv c i])
  next
    case False
    have "row_start (rs ! Suc i) = row_limit (rs ! i)"
      using chain_split_at [OF assms(1), of i] Suc.prems(1) \<open>Suc i < length rs\<close>
      by (metis Cons_nth_drop_Suc chain.simps(2))
    with False Suc.prems \<open>Suc i < length rs\<close> len nth show ?thesis
      by (auto simp: near_loop.simps [of pv c i])
  qed
qed simp

lemma bsearch_loop_correct:
  assumes ch: "chain n a rs b" "take (length rs) (pv_v pv) = rs"
    and "s < l" "l \<le> length rs" "row_start (rs ! s) \<le> c" "l < length rs \<longrightarrow> c < row_start (rs ! l)"
      "l = length rs \<longrightarrow> c < b"
  shows "\<exists>j<length rs. bsearch_loop pv c s l = Some j \<and> row_start (rs ! j) \<le> c \<and> c < row_limit (rs ! j)"
  using assms(3-7)
proof (induction "l - s" arbitrary: s l rule: less_induct)
  case less
  show ?case
  proof (cases "s + 1 < l")
    case False
    then have l: "l = Suc s" using less.prems(1) by simp
    have "c < row_limit (rs ! s)"
    proof (cases "l < length rs")
      case True
      have "row_start (rs ! Suc s) = row_limit (rs ! s)"
        using chain_split_at [OF ch(1), of s] True l by (metis Cons_nth_drop_Suc Suc_lessD chain.simps(2))
      with less.prems(4) True l show ?thesis by simp
    next
      case False
      then have "length rs = Suc s" using l less.prems(2) by simp
      then have "row_limit (rs ! s) = b" using chain_split_at [OF ch(1), of s] by (auto elim: chain_split_at)
      with less.prems(2,5) False show ?thesis by simp
    qed
    moreover have "bsearch_loop pv c s l = Some s" by (simp add: l bsearch_loop.simps [of pv c s "Suc s"])
    ultimately show ?thesis using l less.prems by auto
  next
    case True
    define i where "i = (s + l) div 2"
    have i: "s < i" "i < l" "i < length rs" using True less.prems(2) by (auto simp: i_def)
    then have len: "i < length (pv_v pv)" and nth: "pv_v pv ! i = rs ! i"
      using ch(2) by (metis length_take min_less_iff_conj, metis nth_take)
    have eq: "bsearch_loop pv c s l =
        (if c < row_start (rs ! i) then bsearch_loop pv c s i
         else if c < row_limit (rs ! i) then Some i else bsearch_loop pv c i l)"
      using True len nth by (simp add: bsearch_loop.simps [of pv c s l] i_def Let_def)
    consider "c < row_start (rs ! i)" | "row_start (rs ! i) \<le> c" "c < row_limit (rs ! i)"
      | "row_limit (rs ! i) \<le> c" by linarith
    then show ?thesis
    proof cases
      case 1
      then show ?thesis using less.hyps [of i s] less.prems i by (simp add: eq)
    next
      case 2
      then show ?thesis using i by (auto simp: eq)
    next
      case 3
      then have "row_start (rs ! i) \<le> c" using chain_nth(2) [OF ch(1) i(3)] by simp
      then show ?thesis using 3 less.hyps [of l i] less.prems i by (simp add: eq)
    qed
  qed
qed

lemma findRow_correct:
  assumes ok: "pv_ok pv" and c: "0 \<le> c" "c \<le> UPVEC_MAX_CP"
  obtains i where "priv_findRow pv c = Some (i, pv\<lparr>pv_prevRow := i\<rparr>)" "i < pv_rows pv"
    "row_start (used_rows pv ! i) \<le> c" "c < row_limit (used_rows pv ! i)"
proof -
  let ?rs = "used_rows pv" let ?p = "pv_prevRow pv"
  note d = pv_okD [OF ok]
  have tk: "take (length ?rs) (pv_v pv) = ?rs" using d(2) by (simp add: used_rows_def)
  have at: "row_at pv i = Some (?rs ! i)" if "i < pv_rows pv" for i
    using that d by (simp add: row_at_def)
  have nxt: "Suc i < pv_rows pv \<and> row_start (?rs ! Suc i) = row_limit (?rs ! i)"
    if i: "i < pv_rows pv" and "row_limit (?rs ! i) \<le> c" for i
  proof -
    obtain m where m: "chain (pv_columns pv) (row_limit (?rs ! i)) (drop (Suc i) ?rs) (UPVEC_MAX_CP + 1)"
      using chain_split_at [OF d(1), of i] i d(2) by auto
    show ?thesis
    proof (cases "Suc i < pv_rows pv")
      case True
      with m d(2) show ?thesis by (metis Cons_nth_drop_Suc chain.simps(2))
    next
      case False
      with m d(2) that c show ?thesis by simp
    qed
  qed
  have bs: "\<exists>j<length ?rs. bsearch_loop pv c 0 (pv_rows pv) = Some j \<and> row_start (?rs ! j) \<le> c \<and> c < row_limit (?rs ! j)"
  proof (rule bsearch_loop_correct [OF d(1) tk])
    show "row_start (?rs ! 0) \<le> c" using d(1,2,5) c(1) by (cases ?rs) auto
  qed (use d c in auto)
  have p: "?p < pv_rows pv" by (rule d(5))
  have "\<exists>i<pv_rows pv. priv_findRow pv c = Some (i, pv\<lparr>pv_prevRow := i\<rparr>)
      \<and> row_start (?rs ! i) \<le> c \<and> c < row_limit (?rs ! i)"
  proof (cases "row_start (?rs ! ?p) \<le> c")
    case False
    then show ?thesis using bs at [OF p] at [of 0] d(2) p c(1) chain_nth(1) [OF d(1), of 0]
      using d(1) by (cases ?rs) (auto simp: priv_findRow_def Let_def split: if_splits)
  next
    case ge: True
    show ?thesis
    proof (cases "c < row_limit (?rs ! ?p)")
      case True
      then show ?thesis using at [OF p] ge p by (auto simp: priv_findRow_def Let_def)
    next
      case l0: False
      then have n1: "Suc ?p < pv_rows pv" "row_start (?rs ! Suc ?p) = row_limit (?rs ! ?p)" using nxt [OF p] by auto
      show ?thesis
      proof (cases "c < row_limit (?rs ! Suc ?p)")
        case True
        then show ?thesis using at [OF p] at [OF n1(1)] ge l0 n1 by (auto simp: priv_findRow_def Let_def)
      next
        case l1: False
        then have n2: "Suc (Suc ?p) < pv_rows pv" "row_start (?rs ! Suc (Suc ?p)) = row_limit (?rs ! Suc ?p)"
          using nxt [OF n1(1)] by auto
        have eq: "priv_findRow pv c =
            (if c < row_limit (?rs ! Suc (Suc ?p)) then Some (Suc (Suc ?p), pv\<lparr>pv_prevRow := Suc (Suc ?p)\<rparr>)
             else if c - row_limit (?rs ! Suc (Suc ?p)) < 10
             then map_option (\<lambda>i. (i, pv\<lparr>pv_prevRow := i\<rparr>)) (near_loop pv c (Suc (Suc ?p)))
             else map_option (\<lambda>i. (i, pv\<lparr>pv_prevRow := i\<rparr>)) (bsearch_loop pv c 0 (pv_rows pv)))"
          using at [OF p] at [OF n1(1)] at [OF n2(1)] ge l0 l1 by (simp add: priv_findRow_def Let_def)
        show ?thesis
        proof (cases "c < row_limit (?rs ! Suc (Suc ?p))")
          case True
          then show ?thesis unfolding eq using n2 l1 by auto
        next
          case False
          then have "\<exists>j<length ?rs. near_loop pv c (Suc (Suc ?p)) = Some j \<and> row_start (?rs ! j) \<le> c
              \<and> c < row_limit (?rs ! j)"
            using near_loop_correct [OF d(1) tk, of "Suc (Suc ?p)" c] n2 d(2) c by simp
          with bs False d(2) show ?thesis unfolding eq by auto
        qed
      qed
    qed
  qed
  then show ?thesis using that by blast
qed

section \<open>Splitting rows and setting values\<close>

lemma move_tail:
  "length P = p \<Longrightarrow> n \<le> length g \<Longrightarrow>
     memmove_items (P @ Q @ g) (p + n) p (length Q) = P @ take n (Q @ g) @ Q @ drop n g"
  by (simp add: memmove_items_def)

lemma move_tail_if:
  "length P = p \<Longrightarrow> n \<le> length g \<Longrightarrow> cnt = length Q \<Longrightarrow>
     (if cnt > 0 then memmove_items (P @ Q @ g) (p + n) p cnt else P @ Q @ g)
       = P @ take n (Q @ g) @ Q @ drop n g"
  using move_tail [of P p n g Q] by (cases Q) auto

text \<open>A row split at a code point.\<close>

definition split_row :: "row \<Rightarrow> int \<Rightarrow> row list" where
  "split_row r p = [r[1 := word_of_int p], r[0 := word_of_int p]]"

lemma split_first_step:
  assumes "length A = f" "l - f + 1 = length B + 1"
  shows "split_first_row (A @ r # B @ s # S @ T) f l p = A @ r[1 := word_of_int p] # r[0 := word_of_int p] # B @ S @ T"
proof -
  have "memmove_items (A @ r # B @ s # S @ T) (f + 1) f (l - f + 1) = A @ r # r # B @ S @ T"
    unfolding assms(2) using assms(1) by (simp add: memmove_items_def)
  then show ?thesis unfolding split_first_row_def Let_def using assms(1) by (simp add: nth_append list_update_append)
qed

lemma split_last_step:
  "length A = l \<Longrightarrow> split_last_row (A @ r # s # T) l p = A @ r[1 := word_of_int p] # r[0 := word_of_int p] # T"
  by (simp add: split_last_row_def Let_def nth_append list_update_append)

text \<open>What the moves leave in the array, for the used rows \<open>A @ M @ Q\<close> where \<open>M\<close> are the rows from the
  first to the last: the first row of \<open>M\<close> is split at \<open>start\<close> and the last one at \<open>limit\<close>, as asked.\<close>

definition split_first :: "bool \<Rightarrow> row list \<Rightarrow> int \<Rightarrow> row list \<times> row list" where
  "split_first sf M start = (if sf then ([(hd M)[1 := word_of_int start]], (hd M)[0 := word_of_int start] # tl M) else ([], M))"

definition split_last :: "bool \<Rightarrow> row list \<Rightarrow> int \<Rightarrow> row list \<times> row list" where
  "split_last sl M limit =
     (if sl then (butlast M @ [(last M)[1 := word_of_int limit]], [(last M)[0 := word_of_int limit]]) else (M, []))"

lemma split_rows_eq:
  assumes v: "v = A @ M @ Q @ g" and f: "f = length A" and l: "l + 1 = length A + length M" and "M \<noteq> []"
    and rows: "rows = length A + length M + length Q" and g: "of_bool sf + of_bool sl \<le> length g"
    and s1: "split_first sf M start = (H, M1)" and s2: "split_last sl M1 limit = (M2, Z)"
  shows "split_rows v rows f l sf sl start limit =
     (A @ H @ M2 @ Z @ Q @ drop (of_bool sf + of_bool sl) g, f + of_bool sf, l + of_bool sf)"
proof -
  let ?n = "of_bool sf + of_bool sl :: nat"
  define S where "S = take ?n (Q @ g)"
  have S: "length S = ?n" using g by (simp add: S_def)
  have v1: "(if rows - (l + 1) > 0 then memmove_items v (l + 1 + ?n) (l + 1) (rows - (l + 1)) else v)
      = (A @ M) @ S @ Q @ drop ?n g"
  proof -
    have "v = (A @ M) @ Q @ g" using v by simp
    then show ?thesis unfolding S_def by (simp only:) (rule move_tail_if; use l rows g in simp)
  qed
  obtain r B where M: "M = r # B" using \<open>M \<noteq> []\<close> by (cases M) auto
  let ?v1 = "(A @ M) @ S @ Q @ drop ?n g"
  define v2 where "v2 = (if sf then split_first_row ?v1 f l start else ?v1)"
  define l2 where "l2 = (if sf then l + 1 else l)"
  have H: "v2 = A @ H @ M1 @ (if sf then tl S else S) @ Q @ drop ?n g"
  proof (cases sf)
    case True
    then obtain s S' where S': "S = s # S'" using S by (cases S) auto
    have "l - f + 1 = length B + 1" using l f M by simp
    from split_first_step [OF f [symmetric] this, of r s S' "Q @ drop ?n g" start] True s1 show ?thesis
      by (auto simp: v2_def M S' split_first_def)
  qed (use s1 in \<open>simp add: v2_def M split_first_def\<close>)
  have M1: "M1 \<noteq> []" "length A + length H + length M1 = l2 + 1"
    using s1 l M by (auto simp: split_first_def l2_def split: if_splits)
  have step2: "(if sl then split_last_row v2 l2 limit else v2) = A @ H @ M2 @ Z @ Q @ drop ?n g"
  proof (cases sl)
    case True
    obtain s where s: "(if sf then tl S else S) = [s]"
      using S True by (cases S; cases sf) (auto simp: length_Suc_conv)
    have "v2 = A @ H @ (butlast M1 @ [last M1]) @ [s] @ Q @ drop ?n g" using H s M1(1) by simp
    then have v2: "v2 = (A @ H @ butlast M1) @ last M1 # s # (Q @ drop ?n g)" by simp
    have "length (A @ H @ butlast M1) = l2" using M1 by (cases M1) auto
    from split_last_step [OF this, of "last M1" s "Q @ drop ?n g" limit] show ?thesis
      using True s2 by (auto simp: split_last_def v2)
  next
    case False
    then have "(if sf then tl S else S) = []" using S by (cases sf; cases S) auto
    with False H s2 show ?thesis by (auto simp: split_last_def)
  qed
  have "split_rows v rows f l sf sl start limit =
      (if sl then split_last_row v2 l2 limit else v2, if sf then f + 1 else f, l2)"
    unfolding split_rows_def Let_def v1 by (simp only: v2_def l2_def)
  then show ?thesis unfolding step2 by (auto simp: l2_def)
qed

lemma set_loop_correct:
  "length A = f \<Longrightarrow> l + 1 = length A + length M \<Longrightarrow> M \<noteq> [] \<Longrightarrow>
     set_loop (A @ M @ T) f l col val nm
       = A @ map (\<lambda>r. r[col := (r ! col AND nm) OR val]) M @ T"
proof (induction M arbitrary: A f)
  case (Cons r M)
  show ?case
  proof (cases "M = []")
    case True
    with Cons.prems show ?thesis
      by (subst set_loop.simps) (simp add: Let_def nth_append list_update_append)
  next
    case False
    let ?r = "r[col := (r ! col AND nm) OR val]"
    have "f \<noteq> l" "\<not> l < f" using Cons.prems False by (auto simp: neq_Nil_conv)
    then have "set_loop (A @ (r # M) @ T) f l col val nm = set_loop ((A @ [?r]) @ M @ T) (f + 1) l col val nm"
      using Cons.prems by (subst set_loop.simps) (simp add: Let_def nth_append list_update_append)
    also have "\<dots> = (A @ [?r]) @ map (\<lambda>r. r[col := (r ! col AND nm) OR val]) M @ T"
      using Cons.prems False by (intro Cons.IH) simp_all
    finally show ?thesis by simp
  qed
qed simp

lemma word_small: "0 \<le> p \<Longrightarrow> p \<le> 0x110002 \<Longrightarrow> sint (word_of_int p :: 32 word) = p"
  by (simp add: signed_of_int signed_take_bit_int_eq_self)

lemma split_row_fields:
  assumes "3 \<le> length r" "0 \<le> p" "p \<le> 0x110002"
  shows "row_start (r[1 := word_of_int p]) = row_start r" "row_limit (r[1 := word_of_int p]) = p"
    "row_start (r[0 := word_of_int p]) = p" "row_limit (r[0 := word_of_int p]) = row_limit r"
    "2 \<le> j \<Longrightarrow> r[1 := w] ! j = r ! j" "2 \<le> j \<Longrightarrow> r[0 := w] ! j = r ! j"
proof -
  obtain x y z r' where "r = x # y # z # r'" using assms(1) by (auto simp: Suc_le_length_iff numeral_3_eq_3)
  then show "row_start (r[1 := word_of_int p]) = row_start r" "row_limit (r[1 := word_of_int p]) = p"
    "row_start (r[0 := word_of_int p]) = p" "row_limit (r[0 := word_of_int p]) = row_limit r"
    "2 \<le> j \<Longrightarrow> r[1 := w] ! j = r ! j" "2 \<le> j \<Longrightarrow> r[0 := w] ! j = r ! j"
    using assms by (auto simp: row_start_def row_limit_def word_small)
qed

text \<open>Splitting a row keeps the rows a chain and the values of every code point.\<close>

lemma split_chain:
  assumes "chain n a (A @ r # B) b" "row_start r < p" "p < row_limit r" "3 \<le> n" "0 \<le> p" "p \<le> 0x110002"
  shows "chain n a (A @ r[1 := word_of_int p] # r[0 := word_of_int p] # B) b"
proof -
  obtain m where m: "chain n a A m" "chain n m (r # B) b" using assms(1) by (auto simp: chain_append)
  then have "length r = n" by simp
  with m assms show ?thesis using split_row_fields [of r p] by (auto simp: chain_append)
qed

lemma split_pick:
  assumes "p < row_limit r" "3 \<le> length r" "0 \<le> p" "p \<le> 0x110002" "2 \<le> j"
  shows "pick (A @ r[1 := word_of_int p] # r[0 := word_of_int p] # B) c ! j = pick (A @ r # B) c ! j"
  using assms split_row_fields(2,4) [of r p] split_row_fields(5,6) [of r p j] by (induction A) auto

text \<open>Setting a column of consecutive rows changes the values of exactly their ranges.\<close>

lemma pick_map:
  "chain n a M m \<Longrightarrow> c < m \<Longrightarrow> a \<le> c \<Longrightarrow> (\<And>r. row_limit (u r) = row_limit r) \<Longrightarrow> pick (map u M) c = u (pick M c)"
proof (induction M arbitrary: a)
  case (Cons r M)
  then show ?case by (cases "c < row_limit r") auto
qed simp

lemma chain_map:
  "(\<And>r. row_limit (u r) = row_limit r) \<Longrightarrow> (\<And>r. row_start (u r) = row_start r) \<Longrightarrow> (\<And>r. length (u r) = length r)
     \<Longrightarrow> chain n a (map u M) m = chain n a M m"
  by (induction M arbitrary: a) auto

lemma set_rows_pick:
  assumes ch: "chain n a A m1" "chain n m1 M m2" "chain n m2 T b" and c: "a \<le> c" "c < b"
    and u: "\<And>r. row_limit (u r) = row_limit r" "\<And>r. row_start (u r) = row_start r" "\<And>r. length (u r) = length r"
  shows "pick (A @ map u M @ T) c = (if m1 \<le> c \<and> c < m2 then u (pick (A @ M @ T) c) else pick (A @ M @ T) c)"
proof -
  have cm: "chain n m1 (map u M) m2" using ch(2) u by (simp add: chain_map)
  consider "c < m1" | "m1 \<le> c" "c < m2" | "m2 \<le> c" "m1 \<le> c"
    using chain_le [OF ch(2)] by linarith
  then show ?thesis
  proof cases
    case 1
    then show ?thesis using c by (simp add: pick_append_left [OF ch(1)])
  next
    case 2
    then show ?thesis
      using pick_map [OF ch(2), of c u] u
      by (simp add: pick_append_right [OF ch(1)] pick_append_left [OF ch(2)] pick_append_left [OF cm])
  next
    case 3
    then show ?thesis
      by (simp add: pick_append_right [OF ch(1)] pick_append_right [OF ch(2)] pick_append_right [OF cm])
  qed
qed

lemma mask_idem:
  fixes x val mask' :: "32 word"
  assumes "val = x AND mask'"
  shows "(x AND NOT mask') OR val = x"
  by (rule bit_word_eqI) (auto simp: assms bit_simps)

text \<open>The row list of the builder around the rows to be set.\<close>

lemma chain_three:
  assumes "chain n a rs b" "f \<le> l" "l < length rs"
  defines "A \<equiv> take f rs" and "M \<equiv> take (l + 1 - f) (drop f rs)" and "Q \<equiv> drop (l + 1) rs"
  shows "rs = A @ M @ Q" "length A = f" "l + 1 = length A + length M" "M \<noteq> []" "hd M = rs ! f" "last M = rs ! l"
    "chain n a A (row_start (rs ! f))" "chain n (row_start (rs ! f)) M (row_limit (rs ! l))"
    "chain n (row_limit (rs ! l)) Q b"
proof -
  have len: "length A = f" "length M = l + 1 - f" using assms(2,3) by (simp_all add: A_def M_def)
  have "drop f rs = M @ Q"
    using append_take_drop_id [of "l + 1 - f" "drop f rs"] assms(2) by (simp add: M_def Q_def)
  then show rs: "rs = A @ M @ Q" by (metis A_def append_take_drop_id)
  show "length A = f" "l + 1 = length A + length M" "M \<noteq> []" using len assms(2) by auto
  then have "hd M = M ! 0" "last M = M ! (l - f)" using len assms(2) by (simp_all add: hd_conv_nth last_conv_nth)
  then show hd: "hd M = rs ! f" "last M = rs ! l" using assms(2,3) by (simp_all add: M_def)
  obtain m where m: "chain n a A m" "row_start (rs ! f) = m" using chain_split_at [OF assms(1), of f] assms(2,3)
    unfolding A_def by auto
  then show "chain n a A (row_start (rs ! f))" by simp
  show Q: "chain n (row_limit (rs ! l)) Q b"
    using chain_split_at [OF assms(1), of l] assms(3) unfolding Q_def by auto
  have "chain n a (A @ M @ Q) b" using assms(1) by (subst rs [symmetric])
  then obtain m1 m2 where "chain n a A m1" "chain n m1 M m2" "chain n m2 Q b"
    unfolding chain_append by blast
  moreover have "m1 = row_start (rs ! f)" using calculation(2) hd(1) \<open>M \<noteq> []\<close> by (cases M) auto
  moreover have "m2 = row_limit (rs ! l)"
  proof -
    have "chain n m1 (butlast M @ [last M]) m2" using calculation(2) \<open>M \<noteq> []\<close> by simp
    then show ?thesis using hd(2) by (auto simp: chain_append)
  qed
  ultimately show "chain n (row_start (rs ! f)) M (row_limit (rs ! l))" by simp
qed

text \<open>Both splits on the list of used rows: the first row at \<open>start\<close>, the last one at \<open>limit\<close>.\<close>

lemma first_split:
  assumes ch: "chain n 0 (A @ M @ Q) T" and M: "M \<noteq> []" and n: "3 \<le> n"
    and p: "start < row_limit (hd M)" "0 \<le> start" "start \<le> 0x110002" "start < limit" "row_start (last M) < limit"
    and sf: "sf \<longrightarrow> row_start (hd M) < start" and s1: "split_first sf M start = (H, M1)"
  shows "chain n 0 (A @ H @ M1 @ Q) T"
    and "\<And>c j. 2 \<le> j \<Longrightarrow> pick (A @ H @ M1 @ Q) c ! j = pick (A @ M @ Q) c ! j"
    and "M1 \<noteq> []" "length M1 = length M" "length H = of_bool sf"
    and "row_start (hd M1) = (if sf then start else row_start (hd M))"
    and "row_limit (last M1) = row_limit (last M)" "row_start (last M1) < limit"
proof -
  obtain r B where MB: "M = r # B" using M by (cases M) auto
  have len: "length r = n" using ch by (auto simp: MB chain_append)
  note fields = split_row_fields [of r start]
  show "chain n 0 (A @ H @ M1 @ Q) T"
    using split_chain [of n 0 A r "B @ Q" T start] ch p sf s1 n by (auto simp: split_first_def MB split: if_splits)
  show "pick (A @ H @ M1 @ Q) c ! j = pick (A @ M @ Q) c ! j" if "2 \<le> j" for c j
    using split_pick [of start r j A "B @ Q" c] that p s1 n len by (auto simp: split_first_def MB split: if_splits)
  show "M1 \<noteq> []" "length M1 = length M" "length H = of_bool sf"
    "row_start (hd M1) = (if sf then start else row_start (hd M))"
    "row_limit (last M1) = row_limit (last M)" "row_start (last M1) < limit"
    using s1 fields p n len by (auto simp: split_first_def MB split: if_splits)
qed

lemma second_split:
  assumes ch: "chain n 0 (A @ M @ Q) T" and M: "M \<noteq> []" and n: "3 \<le> n"
    and p: "row_start (last M) < limit" "0 \<le> limit" "limit \<le> 0x110002"
    and sl: "sl \<longrightarrow> limit < row_limit (last M)" and s2: "split_last sl M limit = (M2, Z)"
  shows "chain n 0 (A @ M2 @ Z @ Q) T"
    and "\<And>c j. 2 \<le> j \<Longrightarrow> pick (A @ M2 @ Z @ Q) c ! j = pick (A @ M @ Q) c ! j"
    and "M2 \<noteq> []" "length M2 = length M" "length Z = of_bool sl"
    and "row_start (hd M2) = row_start (hd M)" "row_limit (last M2) = (if sl then limit else row_limit (last M))"
proof -
  obtain B r where MB: "M = B @ [r]" using M by (cases M rule: rev_cases) auto
  have len: "length r = n" using ch by (auto simp: MB chain_append)
  note fields = split_row_fields [of r limit]
  show "chain n 0 (A @ M2 @ Z @ Q) T"
    using split_chain [of n 0 "A @ B" r Q T limit] ch p sl s2 n by (auto simp: split_last_def MB split: if_splits)
  show "pick (A @ M2 @ Z @ Q) c ! j = pick (A @ M @ Q) c ! j" if "2 \<le> j" for c j
    using split_pick [of limit r j "A @ B" Q c] that p s2 sl n len by (auto simp: split_last_def MB split: if_splits)
  show "M2 \<noteq> []" "length M2 = length M" "length Z = of_bool sl"
    "row_start (hd M2) = row_start (hd M)" "row_limit (last M2) = (if sl then limit else row_limit (last M))"
    using s2 fields p n len by (auto simp: split_last_def MB hd_append split: if_splits)
qed

lemma chain_ends:
  "chain n a M b \<Longrightarrow> M \<noteq> [] \<Longrightarrow> row_start (hd M) = a \<and> row_limit (last M) = b"
proof (induction M arbitrary: a)
  case (Cons r M)
  then show ?case by (cases M) auto
qed simp

text \<open>The effect of the whole operation on the used rows.\<close>

definition upd_value :: "32 word \<Rightarrow> 32 word \<Rightarrow> 32 word \<Rightarrow> 32 word" where
  "upd_value val0 mask' x = (x AND NOT mask') OR (val0 AND mask')"

lemma set_rows_result:
  assumes ch: "chain n 0 rs T" and fl: "f \<le> l" "l < length rs" and n: "3 \<le> n" and T: "T = UPVEC_MAX_CP + 1"
    and st: "row_start (rs ! f) \<le> start" "start < row_limit (rs ! f)" "0 \<le> start"
    and en: "row_start (rs ! l) < limit" "limit \<le> row_limit (rs ! l)" and le: "start < limit"
    and col: "2 \<le> col" "col < n"
    and sf: "sf \<longleftrightarrow> start \<noteq> row_start (rs ! f) \<and> val0 AND mask' \<noteq> rs ! f ! col AND mask'"
    and sl: "sl \<longleftrightarrow> limit \<noteq> row_limit (rs ! l) \<and> val0 AND mask' \<noteq> rs ! l ! col AND mask'"
    and A: "A = take f rs" and M: "M = take (l + 1 - f) (drop f rs)" and Q: "Q = drop (l + 1) rs"
    and s1: "split_first sf M start = (H, M1)" and s2: "split_last sl M1 limit = (M2, Z)"
    and u: "u = (\<lambda>r. r[col := (r ! col AND NOT mask') OR (val0 AND mask')])"
  shows "chain n 0 (A @ H @ map u M2 @ Z @ Q) T"
    and "\<And>c j. 0 \<le> c \<Longrightarrow> c < T \<Longrightarrow> 2 \<le> j \<Longrightarrow> j < n \<Longrightarrow>
           pick (A @ H @ map u M2 @ Z @ Q) c ! j =
             (if start \<le> c \<and> c < limit \<and> j = col then upd_value val0 mask' (pick rs c ! j) else pick rs c ! j)"
    and "M2 \<noteq> []" "length H = of_bool sf" "length Z = of_bool sl" "length A + length M2 = l + 1"
proof -
  note c3 = chain_three [OF ch fl, folded A M Q]
  have p: "start \<le> 0x110002" "limit \<le> 0x110002" "0 \<le> limit"
    using chain_nth(3) [OF ch fl(2)] en st(3) le T by auto
  have chM: "chain n 0 (A @ M @ Q) T" using ch c3(1) by simp
  have g1: "start < row_limit (hd M)" "row_start (last M) < limit" "sf \<longrightarrow> row_start (hd M) < start"
    using c3(5,6) st en sf by auto
  note f1 = first_split [OF chM c3(4) n g1(1) st(3) p(1) le g1(2,3) s1]
  have chM1: "chain n 0 ((A @ H) @ M1 @ Q) T" using f1(1) by simp
  have g2: "sl \<longrightarrow> limit < row_limit (last M1)" using f1(7) c3(6) en sl by auto
  note f2 = second_split [OF chM1 f1(3) n f1(8) p(3,2) g2 s2]
  obtain m1 m2 where m: "chain n 0 (A @ H) m1" "chain n m1 M2 m2" "chain n m2 (Z @ Q) T"
    using f2(1) unfolding chain_append by blast
  have m1: "m1 = (if sf then start else row_start (rs ! f))" and m2: "m2 = (if sl then limit else row_limit (rs ! l))"
    using chain_ends [OF m(2) f2(3)] f1(6,7) f2(6,7) c3(5,6) by auto
  have uf: "row_limit (u r) = row_limit r" "row_start (u r) = row_start r" "length (u r) = length r" for r
    using col by (simp_all add: u row_limit_def row_start_def)
  show "chain n 0 (A @ H @ map u M2 @ Z @ Q) T"
  proof -
    have "chain n m1 (map u M2) m2" using m(2) uf by (simp add: chain_map)
    with m show ?thesis by (metis append.assoc chain_append)
  qed
  show "M2 \<noteq> []" "length H = of_bool sf" "length Z = of_bool sl" "length A + length M2 = l + 1"
    using f1 f2 c3(3) by auto
  fix c j assume c: "0 \<le> c" "c < T" and j: "2 \<le> j" "j < n"
  let ?X = "(A @ H) @ M2 @ (Z @ Q)"
  have same: "pick ?X c ! i = pick rs c ! i" if "2 \<le> i" for i
    using f1(2) [OF that, of c] f2(2) [OF that, of c] c3(1) by simp
  obtain i where i: "i < length rs" "row_start (rs ! i) \<le> c" "c < row_limit (rs ! i)"
    using chain_locate [OF ch c] by blast
  have pi: "pick rs c = rs ! i" by (rule pick_nth [OF ch i])
  have X_len: "length (pick ?X c) = n"
  proof -
    have "chain n 0 ?X T" using f2(1) by simp
    then show ?thesis using chain_locate [OF _ c] pick_nth chain_nth(4) by metis
  qed
  have P: "pick (A @ H @ map u M2 @ Z @ Q) c = (if m1 \<le> c \<and> c < m2 then u (pick ?X c) else pick ?X c)"
    using set_rows_pick [OF m c uf] by simp
  show "pick (A @ H @ map u M2 @ Z @ Q) c ! j =
      (if start \<le> c \<and> c < limit \<and> j = col then upd_value val0 mask' (pick rs c ! j) else pick rs c ! j)"
  proof (cases "m1 \<le> c \<and> c < m2")
    case False
    then have "\<not> (start \<le> c \<and> c < limit)" using m1 m2 st en by (auto split: if_splits)
    with False P same [OF j(1)] show ?thesis by auto
  next
    case True
    have val: "u (pick ?X c) ! j = (if j = col then upd_value val0 mask' (pick rs c ! j) else pick rs c ! j)"
      using same [OF j(1)] X_len j col by (auto simp: u upd_value_def)
    have noop: "upd_value val0 mask' (pick rs c ! col) = pick rs c ! col" if "\<not> (start \<le> c \<and> c < limit)"
    proof -
      have "c < start \<or> limit \<le> c" using that by linarith
      then have "val0 AND mask' = pick rs c ! col AND mask'"
      proof
        assume "c < start"
        then have "\<not> sf" "start \<noteq> row_start (rs ! f)" "row_start (rs ! f) \<le> c" using True m1 by (auto split: if_splits)
        moreover have "pick rs c = rs ! f"
          using pick_nth [OF ch, of f c] fl st \<open>c < start\<close> calculation(3) by simp
        ultimately show ?thesis using sf by auto
      next
        assume "limit \<le> c"
        then have "\<not> sl" "limit \<noteq> row_limit (rs ! l)" "c < row_limit (rs ! l)" using True m2 by (auto split: if_splits)
        moreover have "pick rs c = rs ! l"
          using pick_nth [OF ch fl(2), of c] en \<open>limit \<le> c\<close> calculation(3) by simp
        ultimately show ?thesis using sl by auto
      qed
      then show ?thesis unfolding upd_value_def by (rule mask_idem)
    qed
    show ?thesis using P True val noop by auto
  qed
qed

lemma row_bytes_fits: "rows \<le> UPVEC_MAX_ROWS \<Longrightarrow> columns \<le> 481 \<Longrightarrow> row_bytes rows columns = Some (rows * columns * 4)"
  using mult_le_mono [of rows UPVEC_MAX_ROWS columns 481] by (simp add: row_bytes_def mult.commute)

lemma grow_rows_defined: "pv_ok pv \<Longrightarrow> grow_rows malloc junk pv needed \<noteq> None"
  by (auto simp: grow_rows_def Let_def row_bytes_fits dest: pv_okD(9))

lemma grow_rows_result:
  assumes ok: "pv_ok pv" and needed: "needed \<le> UPVEC_MAX_ROWS" "needed \<le> pv_rows pv + 2"
  shows "case grow_rows malloc junk pv needed of
     None \<Rightarrow> False
   | Some (Inl e) \<Rightarrow> e = U_MEMORY_ALLOCATION_ERROR \<and> \<not> (\<forall>n. malloc n)
   | Some (Inr pv') \<Rightarrow> \<exists>g. pv' = pv\<lparr>pv_v := used_rows pv @ g, pv_maxRows := pv_maxRows pv'\<rparr>
       \<and> pv_rows pv + length g = pv_maxRows pv' \<and> needed \<le> pv_maxRows pv'
       \<and> pv_maxRows pv' \<in> {UPVEC_INITIAL_ROWS, UPVEC_MEDIUM_ROWS, UPVEC_MAX_ROWS}"
proof (cases "needed > pv_maxRows pv")
  case False
  have "pv_v pv = used_rows pv @ drop (pv_rows pv) (pv_v pv)" by (simp add: used_rows_def)
  then show ?thesis using False ok
    by (auto simp: grow_rows_def pv_ok_def intro!: exI [of _ "drop (pv_rows pv) (pv_v pv)"])
next
  case True
  note d = pv_okD [OF ok]
  have m: "pv_maxRows pv \<in> {UPVEC_INITIAL_ROWS, UPVEC_MEDIUM_ROWS}" using ok True needed by (auto simp: pv_ok_def)
  define n where "n = (if pv_maxRows pv < UPVEC_MEDIUM_ROWS then UPVEC_MEDIUM_ROWS else UPVEC_MAX_ROWS)"
  have eq: "grow_rows malloc junk pv needed =
      Some (if \<not> malloc (n * pv_columns pv * 4) then Inl U_MEMORY_ALLOCATION_ERROR
            else Inr (pv\<lparr>pv_v := used_rows pv @ map junk [pv_rows pv..<n], pv_maxRows := n\<rparr>))"
    using True m d(9) by (auto simp: grow_rows_def row_bytes_fits n_def used_rows_def Let_def)
  have "needed \<le> n" "pv_rows pv \<le> n" "n \<in> {UPVEC_MEDIUM_ROWS, UPVEC_MAX_ROWS}"
    using True m needed d(4) by (auto simp: n_def)
  then show ?thesis unfolding eq by auto
qed

lemma grown:
  assumes ok: "pv_ok pv" and needed: "pv_rows pv + of_bool sf + of_bool sl \<le> UPVEC_MAX_ROWS"
      "n = pv_rows pv + (of_bool sf + of_bool sl)"
    and g: "(if sf \<or> sl then grow_rows malloc junk pv n else Some (Inr pv)) = Some (Inr pv')"
  obtains t m where "pv' = pv\<lparr>pv_v := used_rows pv @ t, pv_maxRows := m\<rparr>" "pv_rows pv + length t = m"
    "n \<le> m" "m \<in> {UPVEC_INITIAL_ROWS, UPVEC_MEDIUM_ROWS, UPVEC_MAX_ROWS}"
proof (cases "sf \<or> sl")
  case True
  then have "grow_rows malloc junk pv n = Some (Inr pv')" using g by simp
  moreover have "n \<le> UPVEC_MAX_ROWS" "n \<le> pv_rows pv + 2" using needed by auto
  ultimately show ?thesis using grow_rows_result [OF ok, of n malloc junk] that by auto
next
  case False
  then have "pv' = pv" using g by simp
  then show ?thesis using that [where t = "drop (pv_rows pv) (pv_v pv)" and m = "pv_maxRows pv"] pv_okD [OF ok] False needed ok
    by (auto simp: used_rows_def pv_ok_def)
qed

text \<open>The outcome of \<open>upvec_setValue\<close> on valid arguments.\<close>

definition set_outcome ::
    "(nat \<Rightarrow> bool) \<Rightarrow> UPropsVectors \<Rightarrow> int \<Rightarrow> int \<Rightarrow> int \<Rightarrow> 32 word \<Rightarrow> 32 word \<Rightarrow> UErrorCode \<Rightarrow> UPropsVectors \<Rightarrow> UErrorCode \<Rightarrow> bool" where
  "set_outcome malloc pv start end' column val0 mask' err pv' err' \<longleftrightarrow>
     pv_ok pv' \<and> pv_columns pv' = pv_columns pv \<and>
     (err' = err
        \<and> (\<forall>c col. 0 \<le> c \<and> c \<le> UPVEC_MAX_CP \<and> col < pv_columns pv - 2 \<longrightarrow>
             pv_get pv' c col =
               (if start \<le> c \<and> c \<le> end' \<and> int col = column then upd_value val0 mask' (pv_get pv c col)
                else pv_get pv c col))
      \<or> err' = U_MEMORY_ALLOCATION_ERROR \<and> \<not> (\<forall>n. malloc n) \<and> pv_get pv' = pv_get pv)"

lemma set_outcomeI:
  assumes ok: "pv_ok pv" and ch: "chain (pv_columns pv) 0 X (UPVEC_MAX_CP + 1)"
    and val: "\<And>c j. 0 \<le> c \<Longrightarrow> c < UPVEC_MAX_CP + 1 \<Longrightarrow> 2 \<le> j \<Longrightarrow> j < pv_columns pv \<Longrightarrow>
           pick X c ! j = (if start \<le> c \<and> c < end' + 1 \<and> j = nat column + 2
              then upd_value val0 mask' (pick (used_rows pv) c ! j) else pick (used_rows pv) c ! j)"
    and m: "length X + length g = m" "m \<in> {UPVEC_INITIAL_ROWS, UPVEC_MEDIUM_ROWS, UPVEC_MAX_ROWS}"
    and p: "p < length X" and col: "0 \<le> column"
    and pv': "pv' = pv\<lparr>pv_v := X @ g, pv_maxRows := m, pv_rows := length X, pv_prevRow := p\<rparr>"
  shows "set_outcome malloc pv start end' column val0 mask' err pv' err"
proof -
  have u: "used_rows pv' = X" by (simp add: pv' used_rows_def)
  have "pv_ok pv'" using ok ch m p by (auto simp: pv_ok_def u) (auto simp: pv')
  moreover have "pv_get pv' c j = (if start \<le> c \<and> c \<le> end' \<and> int j = column
      then upd_value val0 mask' (pv_get pv c j) else pv_get pv c j)"
    if "0 \<le> c" "c \<le> UPVEC_MAX_CP" "j < pv_columns pv - 2" for c j
    using val [of c "2 + j"] that col by (auto simp: pv_get_def u)
  moreover have "pv_columns pv' = pv_columns pv" by (simp add: pv')
  ultimately show ?thesis unfolding set_outcome_def by blast
qed

lemma setValue_correct:
  assumes ok: "pv_ok pv" and err: "\<not> U_FAILURE err"
    and arg: "0 \<le> start" "start \<le> end'" "end' \<le> UPVEC_MAX_CP" "0 \<le> column" "column < int (pv_columns pv) - 2"
  shows "\<exists>pv' err'. upvec_setValue malloc junk (Some pv) start end' column val0 mask' err = Some (Some pv', err')
           \<and> set_outcome malloc pv start end' column val0 mask' err pv' err'"
proof -
  note d = pv_okD [OF ok]
  let ?rs = "used_rows pv" let ?n = "pv_columns pv" let ?T = "UPVEC_MAX_CP + 1"
  obtain f where f: "priv_findRow pv start = Some (f, pv\<lparr>pv_prevRow := f\<rparr>)" "f < pv_rows pv"
      "row_start (?rs ! f) \<le> start" "start < row_limit (?rs ! f)"
    using findRow_correct [OF ok arg(1)] arg by auto
  have "pv_ok (pv\<lparr>pv_prevRow := f\<rparr>)" by (rule pv_ok_prevRow [OF ok f(2)])
  then obtain l where l: "priv_findRow (pv\<lparr>pv_prevRow := f\<rparr>) end' = Some (l, pv\<lparr>pv_prevRow := l\<rparr>)" "l < pv_rows pv"
      "row_start (?rs ! l) \<le> end'" "end' < row_limit (?rs ! l)"
    using findRow_correct [of "pv\<lparr>pv_prevRow := f\<rparr>" end'] arg by auto
  have fl: "f \<le> l"
  proof (rule ccontr)
    assume "\<not> f \<le> l"
    then have "row_limit (?rs ! l) \<le> row_start (?rs ! f)" using chain_mono [OF d(1), of l f] f(2) d(2) by simp
    with f(3) l(4) arg show False by simp
  qed
  define pv2 where "pv2 = pv\<lparr>pv_prevRow := l\<rparr>"
  have ok2: "pv_ok pv2" unfolding pv2_def by (rule pv_ok_prevRow [OF ok l(2)])
  define col where "col = nat column + 2"
  have col: "2 \<le> col" "col < ?n" using arg by (simp_all add: col_def)
  define sf where "sf \<longleftrightarrow> start \<noteq> row_start (?rs ! f) \<and> val0 AND mask' \<noteq> ?rs ! f ! col AND mask'"
  define sl where "sl \<longleftrightarrow> end' + 1 \<noteq> row_limit (?rs ! l) \<and> val0 AND mask' \<noteq> ?rs ! l ! col AND mask'"
  define A where "A = take f ?rs" define M where "M = take (l + 1 - f) (drop f ?rs)"
  define Q where "Q = drop (l + 1) ?rs"
  obtain H M1 where s1: "split_first sf M start = (H, M1)" by fastforce
  obtain M2 Z where s2: "split_last sl M1 (end' + 1) = (M2, Z)" by fastforce
  define u where "u = (\<lambda>r :: row. r[col := (r ! col AND NOT mask') OR (val0 AND mask')])"
  have ll: "l < length ?rs" using l(2) d(2) by simp
  note c3 = chain_three [OF d(1) fl ll, folded A_def M_def Q_def]
  have en: "row_start (?rs ! l) < end' + 1" "end' + 1 \<le> row_limit (?rs ! l)" "start < end' + 1" using l arg by auto
  note R = set_rows_result [OF d(1) fl ll d(7) refl f(3,4) arg(1) en col sf_def sl_def A_def M_def Q_def s1 s2 u_def]
  let ?X = "A @ H @ map u M2 @ Z @ Q" let ?k = "of_bool sf + of_bool sl :: nat"
  have lenX: "length ?X = pv_rows pv + ?k"
  proof -
    have "length A + length M + length Q = pv_rows pv" using c3(1) d(2) by (metis length_append add.assoc)
    then show ?thesis using R(4,5,6) c3(3) by simp
  qed
  have needed: "pv_rows pv + ?k \<le> UPVEC_MAX_ROWS" using chain_le [OF R(1)] lenX by simp
  define g where "g = (if sf \<or> sl then grow_rows malloc junk pv2 (pv_rows pv + ?k) else Some (Inr pv2))"
  have nth: "pv_v pv2 ! f = ?rs ! f" "pv_v pv2 ! l = ?rs ! l" using d(6) f(2) l(2) by (simp_all add: pv2_def)
  have body: "upvec_setValue malloc junk (Some pv) start end' column val0 mask' err =
      set_rows malloc junk pv2 f l sf sl start (end' + 1) col (val0 AND mask') mask' err"
    using err arg d(8) f(1) l(1) nth by (simp add: upvec_setValue_def Let_def col_def sf_def sl_def pv2_def)
  have rows2: "pv_rows pv2 = pv_rows pv" by (simp add: pv2_def)
  have "g \<noteq> None" using grow_rows_defined [OF ok2] by (simp add: g_def)
  then obtain g' where g': "g = Some g'" by blast
  show ?thesis
  proof (cases g')
    case (Inl e)
    then have "grow_rows malloc junk pv2 (pv_rows pv + ?k) = Some (Inl e)"
      using g' by (cases "sf \<or> sl") (simp_all only: g_def if_True if_False option.inject sum.distinct)
    moreover have "pv_rows pv + ?k \<le> pv_rows pv2 + 2" by (simp add: rows2)
    ultimately have "e = U_MEMORY_ALLOCATION_ERROR \<and> \<not> (\<forall>n. malloc n)"
      using grow_rows_result [OF ok2 needed, of malloc junk] by simp
    then show ?thesis unfolding body set_rows_def Let_def rows2 using Inl g' ok2
      by (simp add: g_def [symmetric]) (simp add: set_outcome_def pv2_def)
  next
    case (Inr pv3)
    obtain t m where t: "pv3 = pv2\<lparr>pv_v := ?rs @ t, pv_maxRows := m\<rparr>" "pv_rows pv + length t = m"
        "pv_rows pv + ?k \<le> m" "m \<in> {UPVEC_INITIAL_ROWS, UPVEC_MEDIUM_ROWS, UPVEC_MAX_ROWS}"
      by (rule grown [OF ok2 _ _ g' [unfolded g_def Inr]]) (use needed in \<open>simp_all add: pv2_def\<close>)
    have v3: "pv_v pv3 = A @ M @ Q @ t" using t(1) c3(1) by simp
    have sp: "(if sf \<or> sl then split_rows (pv_v pv3) (pv_rows pv) f l sf sl start (end' + 1) else (pv_v pv3, f, l))
        = (A @ H @ M2 @ Z @ Q @ drop ?k t, f + of_bool sf, l + of_bool sf)"
    proof (cases "sf \<or> sl")
      case True
      have "split_rows (pv_v pv3) (pv_rows pv) f l sf sl start (end' + 1)
          = (A @ H @ M2 @ Z @ Q @ drop ?k t, f + of_bool sf, l + of_bool sf)"
        by (rule split_rows_eq [OF v3 _ _ c3(4) _ _ s1 s2]) (use c3 t fl ll d(2) in \<open>auto simp: Q_def\<close>)
      with True show ?thesis by simp
    next
      case False
      then show ?thesis using s1 s2 v3 by (auto simp: split_first_def split_last_def)
    qed
    have sl: "set_loop (A @ H @ M2 @ Z @ Q @ drop ?k t) (f + of_bool sf) (l + of_bool sf) col (val0 AND mask') (NOT mask')
        = ?X @ drop ?k t"
      using set_loop_correct [of "A @ H" "f + of_bool sf" "l + of_bool sf" M2 "Z @ Q @ drop ?k t" col] R c3
      by (simp add: u_def)
    have eq: "upvec_setValue malloc junk (Some pv) start end' column val0 mask' err =
        Some (Some (pv3\<lparr>pv_v := ?X @ drop ?k t, pv_rows := length ?X, pv_prevRow := l + of_bool sf\<rparr>), err)"
      unfolding body set_rows_def Let_def rows2 g_def [symmetric] g' Inr option.case sum.case sp prod.case sl lenX by simp
    have "set_outcome malloc pv start end' column val0 mask' err
        (pv3\<lparr>pv_v := ?X @ drop ?k t, pv_rows := length ?X, pv_prevRow := l + of_bool sf\<rparr>) err"
      by (rule set_outcomeI [OF ok R(1) R(2) [unfolded col_def] _ t(4), where g = "drop ?k t" and p = "l + of_bool sf"])
        (use lenX t l(2) arg in \<open>auto simp: pv2_def\<close>)
    with eq show ?thesis by blast
  qed
qed


section \<open>Reading\<close>

lemma getValue_correct:
  assumes ok: "pv_ok pv" and c: "0 \<le> c" "c \<le> UPVEC_MAX_CP" "0 \<le> column" "column < int (pv_columns pv) - 2"
  shows "\<exists>pv'. upvec_getValue pv c column = Some (pv_get pv c (nat column), pv') \<and> pv_ok pv' \<and> pv_get pv' = pv_get pv"
proof -
  note d = pv_okD [OF ok]
  obtain i where i: "priv_findRow pv c = Some (i, pv\<lparr>pv_prevRow := i\<rparr>)" "i < pv_rows pv"
      "row_start (used_rows pv ! i) \<le> c" "c < row_limit (used_rows pv ! i)"
    using findRow_correct [OF ok c(1,2)] by auto
  have "pick (used_rows pv) c = used_rows pv ! i"
    using pick_nth [OF d(1) _ i(3,4)] i(2) d(2) by simp
  then show ?thesis
    using i c d(6) [OF i(2)] d(8) pv_ok_prevRow [OF ok i(2)]
    by (auto simp: upvec_getValue_def pv_get_def)
qed

section \<open>Opening\<close>

lemma open_correct:
  assumes "\<not> U_FAILURE err" "1 \<le> columns" "columns \<le> 479" and m: "\<And>n. malloc n"
  obtains pv where "upvec_open malloc junk columns err = Some (Some pv, err)" "pv_ok pv" "int (pv_columns pv) = columns + 2"
    "\<And>c j. 0 \<le> c \<Longrightarrow> c \<le> UPVEC_MAX_CP \<Longrightarrow> j < nat columns \<Longrightarrow> pv_get pv c j = 0"
proof -
  define n where "n = nat (columns + 2)"
  define R where "R a b = (word_of_int a :: 32 word) # word_of_int b # replicate (n - 2) 0" for a b
  let ?used = "[R 0 0x110000, R 0x110000 0x110001, R 0x110001 0x110002]"
  define pv where "pv = \<lparr>pv_v = ?used @ map junk [3..<UPVEC_INITIAL_ROWS], pv_columns = n,
      pv_maxRows = UPVEC_INITIAL_ROWS, pv_rows = 3, pv_prevRow = 0, pv_isCompacted = False\<rparr>"
  have n: "3 \<le> n" "n \<le> 481" "int n = columns + 2" using assms(2,3) by (auto simp: n_def)
  have sp: "special_rows n = [R 0x110000 0x110001, R 0x110001 0x110002]"
    by (simp add: special_rows_def R_def upto.simps)
  have eq: "upvec_open malloc junk columns err = Some (Some pv, err)"
    using assms n by (simp add: upvec_open_def row_bytes_def n_def [symmetric] pv_def Let_def sp R_def del: upt_rec_numeral)
  have f: "row_start (R a b) = a" "row_limit (R a b) = b" "length (R a b) = n"
    if "0 \<le> a" "a \<le> 0x110002" "0 \<le> b" "b \<le> 0x110002" for a b
    using that n by (simp_all add: R_def row_start_def row_limit_def word_small)
  have u: "used_rows pv = ?used" by (simp add: pv_def used_rows_def del: upt_rec_numeral)
  have "pv_ok pv" using n by (simp add: pv_ok_def u f) (simp add: pv_def del: upt_rec_numeral)
  moreover have "pv_get pv c j = 0" if "0 \<le> c" "c \<le> UPVEC_MAX_CP" "j < nat columns" for c j
  proof -
    have "pick (used_rows pv) c \<in> set ?used" using that by (simp add: u f)
    moreover have "R a b ! (2 + j) = 0" for a b using that n by (simp add: R_def)
    ultimately show ?thesis by (auto simp: pv_get_def)
  qed
  ultimately show ?thesis using that [OF eq] n by (simp add: pv_def del: upt_rec_numeral)
qed

section \<open>Properties\<close>

text \<open>C9: on valid arguments upvec_setValue always returns (no search or move leaves the array), keeps the
  row invariant, and either sets the masked bits of the column for exactly the code points of the
  range and changes no other value, or reports lack of memory and changes no value. The branch that
  reports an internal error is never taken. The invariant limits the builder to 479 value columns: up
  to there the byte count of the largest array fits an \<open>int32_t\<close>, beyond it the growth to
  \<open>UPVEC_MAX_ROWS\<close> rows overflows.\<close>

theorem upvec_setValue_correct:
  assumes "pv_ok pv" "\<not> U_FAILURE err"
    and "0 \<le> start" "start \<le> end'" "end' \<le> UPVEC_MAX_CP" "0 \<le> column" "column < int (pv_columns pv) - 2"
  shows "\<exists>pv' err'. upvec_setValue malloc junk (Some pv) start end' column val mask' err = Some (Some pv', err')
     \<and> pv_ok pv' \<and> pv_columns pv' = pv_columns pv
     \<and> (err' = err
          \<and> (\<forall>c col. 0 \<le> c \<and> c \<le> UPVEC_MAX_CP \<and> col < pv_columns pv - 2 \<longrightarrow>
               pv_get pv' c col =
                 (if start \<le> c \<and> c \<le> end' \<and> int col = column
                  then (pv_get pv c col AND NOT mask') OR (val AND mask') else pv_get pv c col))
        \<or> err' = U_MEMORY_ALLOCATION_ERROR \<and> \<not> (\<forall>n. malloc n) \<and> pv_get pv' = pv_get pv)"
  using setValue_correct [OF assms, of malloc junk val mask'] unfolding set_outcome_def upd_value_def by blast

text \<open>A builder with one value column whose three rows are those of a new one; the witness sets a
  range in its middle, which splits the first row twice.\<close>

definition pv_example :: UPropsVectors where
  "pv_example = \<lparr>pv_v = [[0, 0x110000, 0], [0x110000, 0x110001, 0], [0x110001, 0x110002, 0]] @ replicate 4093 [],
     pv_columns = 3, pv_maxRows = 4096, pv_rows = 3, pv_prevRow = 0, pv_isCompacted = False\<rparr>"

lemma pv_example_ok: "pv_ok pv_example"
  by (simp add: pv_example_def pv_ok_def used_rows_def row_start_def row_limit_def)

theorem upvec_setValue_correct_witness:
  "\<exists>pv' err'. upvec_setValue (\<lambda>_. False) (\<lambda>_. []) (Some pv_example) 0x41 0x5A 0 7 3 0 = Some (Some pv', err')
     \<and> pv_ok pv' \<and> pv_columns pv' = pv_columns pv_example
     \<and> (err' = 0
          \<and> (\<forall>c col. 0 \<le> c \<and> c \<le> UPVEC_MAX_CP \<and> col < pv_columns pv_example - 2 \<longrightarrow>
               pv_get pv' c col =
                 (if 0x41 \<le> c \<and> c \<le> 0x5A \<and> int col = 0
                  then (pv_get pv_example c col AND NOT 3) OR (7 AND 3) else pv_get pv_example c col))
        \<or> err' = U_MEMORY_ALLOCATION_ERROR \<and> \<not> (\<forall>n :: nat. False) \<and> pv_get pv' = pv_get pv_example)"
  by (rule upvec_setValue_correct [OF pv_example_ok]) (simp_all add: pv_example_def)

subsection \<open>Refinement of the map from code points to values\<close>

text \<open>A set request: first and last code point, column, value, mask; \<open>apply_set\<close> is what it means for
  the function the builder stands for.\<close>

type_synonym set_request = "int \<times> int \<times> int \<times> 32 word \<times> 32 word"

fun apply_set :: "set_request \<Rightarrow> (int \<Rightarrow> int \<Rightarrow> 32 word) \<Rightarrow> int \<Rightarrow> int \<Rightarrow> 32 word" where
  "apply_set (start, end', column, val, mask') f c col =
     (if start \<le> c \<and> c \<le> end' \<and> col = column then (f c col AND NOT mask') OR (val AND mask') else f c col)"

fun valid_set :: "int \<Rightarrow> set_request \<Rightarrow> bool" where
  "valid_set columns (start, end', column, val, mask') \<longleftrightarrow>
     0 \<le> start \<and> start \<le> end' \<and> end' \<le> UPVEC_MAX_CP \<and> 0 \<le> column \<and> column < columns"

text \<open>The requests sent one after the other to a builder.\<close>

fun set_all :: "(nat \<Rightarrow> bool) \<Rightarrow> (nat \<Rightarrow> row) \<Rightarrow> set_request list \<Rightarrow> UPropsVectors option \<times> UErrorCode
    \<Rightarrow> (UPropsVectors option \<times> UErrorCode) option" where
  "set_all malloc junk [] pe = Some pe"
| "set_all malloc junk ((start, end', column, val, mask') # qs) pe =
     do { pe' \<leftarrow> upvec_setValue malloc junk (fst pe) start end' column val mask' (snd pe); set_all malloc junk qs pe' }"

definition represents :: "int \<Rightarrow> UPropsVectors \<Rightarrow> (int \<Rightarrow> int \<Rightarrow> 32 word) \<Rightarrow> bool" where
  "represents columns pv f \<longleftrightarrow> pv_ok pv \<and> int (pv_columns pv) = columns + 2 \<and>
     (\<forall>c j. 0 \<le> c \<and> c \<le> UPVEC_MAX_CP \<and> int j < columns \<longrightarrow> pv_get pv c j = f c (int j))"

lemma setValue_represents:
  assumes rep: "represents columns pv f" and q: "valid_set columns (start, end', column, val, mask')" and m: "\<And>n. malloc n"
  shows "\<exists>pv'. upvec_setValue malloc junk (Some pv) start end' column val mask' U_ZERO_ERROR = Some (Some pv', U_ZERO_ERROR)
     \<and> represents columns pv' (apply_set (start, end', column, val, mask') f)"
proof -
  obtain pv' err' where s: "upvec_setValue malloc junk (Some pv) start end' column val mask' U_ZERO_ERROR = Some (Some pv', err')"
      "set_outcome malloc pv start end' column val mask' U_ZERO_ERROR pv' err'"
    using setValue_correct [of pv U_ZERO_ERROR start end' column malloc junk val mask'] rep q
    by (auto simp: represents_def)
  then have "err' = U_ZERO_ERROR" "represents columns pv' (apply_set (start, end', column, val, mask') f)"
    using m rep by (auto simp: set_outcome_def represents_def upd_value_def)
  with s(1) show ?thesis by blast
qed

lemma set_all_represents:
  assumes m: "\<And>n. malloc n"
  shows "represents columns pv f \<Longrightarrow> (\<And>q. q \<in> set qs \<Longrightarrow> valid_set columns q) \<Longrightarrow>
    \<exists>pv'. set_all malloc junk qs (Some pv, U_ZERO_ERROR) = Some (Some pv', U_ZERO_ERROR)
      \<and> represents columns pv' (fold apply_set qs f)"
proof (induction qs arbitrary: pv f)
  case (Cons q qs)
  obtain start end' column val mask' where q: "q = (start, end', column, val, mask')" by (cases q) auto
  have "valid_set columns (start, end', column, val, mask')" using Cons.prems(2) [of q] by (simp add: q)
  from setValue_represents [where malloc = malloc and junk = junk, OF Cons.prems(1) this m] obtain pv1 where
    pv1: "upvec_setValue malloc junk (Some pv) start end' column val mask' U_ZERO_ERROR = Some (Some pv1, U_ZERO_ERROR)"
      "represents columns pv1 (apply_set q f)"
    by (auto simp: q)
  from Cons.IH [OF pv1(2) Cons.prems(2)] pv1(1) show ?case by (auto simp: q simp del: apply_set.simps)
qed simp

text \<open>C10: the builder refines a function from code points and columns to 32-bit values: with memory,
  after upvec_open and any sequence of valid upvec_setValue calls, upvec_getValue returns for every
  code point and column the value that the same updates give on the constant zero function. This is
  for 1 to 479 value columns, so that no byte count of an array overflows an \<open>int32_t\<close>.\<close>

theorem upvec_refines_function:
  assumes "1 \<le> columns" "columns \<le> 479" and "\<And>n. malloc n" and "\<And>q. q \<in> set qs \<Longrightarrow> valid_set columns q"
    and "0 \<le> c" "c \<le> UPVEC_MAX_CP" "0 \<le> column" "column < columns"
  shows "\<exists>pv pv'. Option.bind (upvec_open malloc junk columns U_ZERO_ERROR) (set_all malloc junk qs) = Some (Some pv, U_ZERO_ERROR)
     \<and> upvec_getValue pv c column = Some (fold apply_set qs (\<lambda>_ _. 0) c column, pv')"
proof -
  obtain pv0 where pv0: "upvec_open malloc junk columns U_ZERO_ERROR = Some (Some pv0, U_ZERO_ERROR)" "pv_ok pv0"
      "int (pv_columns pv0) = columns + 2"
      "\<And>c j. 0 \<le> c \<Longrightarrow> c \<le> UPVEC_MAX_CP \<Longrightarrow> j < nat columns \<Longrightarrow> pv_get pv0 c j = 0"
    by (rule open_correct [of U_ZERO_ERROR columns malloc junk]) (use assms in auto)
  then have "represents columns pv0 (\<lambda>_ _. 0)" by (auto simp: represents_def)
  from set_all_represents [where malloc = malloc and junk = junk and qs = qs, OF assms(3) this assms(4)] obtain pv where
    pv: "set_all malloc junk qs (Some pv0, U_ZERO_ERROR) = Some (Some pv, U_ZERO_ERROR)"
      "represents columns pv (fold apply_set qs (\<lambda>_ _. 0))"
    by blast
  obtain pv' where "upvec_getValue pv c column = Some (pv_get pv c (nat column), pv')"
    using getValue_correct [of pv c column] pv(2) assms by (auto simp: represents_def)
  moreover have "pv_get pv c (nat column) = fold apply_set qs (\<lambda>_ _. 0) c column"
    using pv(2) assms by (auto simp: represents_def)
  ultimately show ?thesis using pv0(1) pv(1) by auto
qed

theorem upvec_refines_function_witness:
  "\<exists>pv pv'. Option.bind (upvec_open (\<lambda>_. True) (\<lambda>_. []) 2 U_ZERO_ERROR)
       (set_all (\<lambda>_. True) (\<lambda>_. []) [(0x30, 0x39, 0, 5, 0xFF), (0x35, 0x110001, 1, 9, 0xF)]) = Some (Some pv, U_ZERO_ERROR)
     \<and> upvec_getValue pv 0x36 1
       = Some (fold apply_set [(0x30, 0x39, 0, 5, 0xFF), (0x35, 0x110001, 1, 9, 0xF)] (\<lambda>_ _. 0) 0x36 1, pv')"
  by (rule upvec_refines_function) auto

end
