(* ===== verification/PropsCompact.thy ===== *)
theory PropsCompact
  imports PropsVec "HOL-Library.List_Lexorder"
begin

text \<open>
  \<open>Source/icu/propsvec.c\<close>: the compaction of a properties vectors builder. It sorts the rows, calls a handler for each
  of them, and overwrites the array with the distinct vectors of values. The last step works on the memory of the rows in
  use, one word after the other. The handler is an argument with its own state; it gets the values of the row and may report an
  error.
\<close>

section \<open>Model\<close>

fun compare_rows_loop :: "nat \<Rightarrow> row \<Rightarrow> row \<Rightarrow> nat \<Rightarrow> nat \<Rightarrow> int" where
  "compare_rows_loop columns left right i cnt =
     (if left ! i \<noteq> right ! i then (if left ! i < right ! i then - 1 else 1)
      else if cnt - 1 > 0 then compare_rows_loop columns left right (if i + 1 = columns then 0 else i + 1) (cnt - 1)
      else 0)"

declare compare_rows_loop.simps [simp del]

definition upvec_compareRows :: "(UPropsVectors, row) UComparator" where
  "upvec_compareRows pv left right = compare_rows_loop (pv_columns pv) left right 2 (pv_columns pv)"

text \<open>The arguments of a handler: its state, start, end, row index, values, number of values, and the error code.\<close>

type_synonym 'x UPVecCompactHandler = "'x \<Rightarrow> int \<Rightarrow> int \<Rightarrow> int \<Rightarrow> 32 word list \<Rightarrow> int \<Rightarrow> UErrorCode \<Rightarrow> 'x \<times> UErrorCode"

text \<open>The loop over the special values, from row \<open>i\<close> on for \<open>n\<close> rows.\<close>

fun special_loop :: "'x UPVecCompactHandler \<Rightarrow> nat \<Rightarrow> row list \<Rightarrow> nat \<Rightarrow> nat \<Rightarrow> int \<Rightarrow> 'x \<Rightarrow> UErrorCode \<Rightarrow> int \<times> 'x \<times> UErrorCode" where
  "special_loop handler valueColumns v i 0 cnt x err = (cnt, x, err)"
| "special_loop handler valueColumns v i (Suc n) cnt x err =
     (let row = v ! i;
          start = row_start row;
          cnt' = (if cnt < 0 \<or> drop 2 row \<noteq> drop 2 (v ! (i - 1)) then cnt + int valueColumns else cnt)
      in if start \<ge> UPVEC_FIRST_SPECIAL_CP then
           (let (x', err') = handler x start start cnt' (drop 2 row) (int valueColumns) err
            in if U_FAILURE err' then (cnt', x', err') else special_loop handler valueColumns v (i + 1) n cnt' x' err')
         else special_loop handler valueColumns v (i + 1) n cnt' x err)"

text \<open>The loop that moves the values to the front of the memory \<open>m\<close> and delivers the real values.\<close>

fun compact_loop :: "'x UPVecCompactHandler \<Rightarrow> nat \<Rightarrow> 32 word list \<Rightarrow> nat \<Rightarrow> nat \<Rightarrow> int \<Rightarrow> 'x \<Rightarrow> UErrorCode \<Rightarrow> 32 word list \<times> int \<times> 'x \<times> UErrorCode" where
  "compact_loop handler columns m i 0 cnt x err = (m, cnt, x, err)"
| "compact_loop handler columns m i (Suc n) cnt x err =
     (let valueColumns = columns - 2;
          row = i * columns;
          start = sint (m ! row);
          limit = sint (m ! (row + 1));
          (cnt', m') = (if cnt < 0 \<or> take valueColumns (drop (row + 2) m) \<noteq> take valueColumns (drop (nat cnt) m)
                        then let c = cnt + int valueColumns in (c, memmove_items m (nat c) (row + 2) valueColumns)
                        else (cnt, m))
      in if start < UPVEC_FIRST_SPECIAL_CP then
           (let (x', err') = handler x start (limit - 1) cnt' (take valueColumns (drop (nat cnt') m')) (int valueColumns) err
            in if U_FAILURE err' then (m', cnt', x', err') else compact_loop handler columns m' (i + 1) n cnt' x' err')
         else compact_loop handler columns m' (i + 1) n cnt' x err)"

text \<open>A block of memory seen as rows.\<close>

fun rows_of :: "nat \<Rightarrow> nat \<Rightarrow> 32 word list \<Rightarrow> row list" where
  "rows_of columns 0 m = []"
| "rows_of columns (Suc n) m = take columns m # rows_of columns n (drop columns m)"

definition upvec_compact ::
  "(nat \<Rightarrow> bool) \<Rightarrow> UPropsVectors \<Rightarrow> 'x UPVecCompactHandler option \<Rightarrow> 'x \<Rightarrow> UErrorCode \<Rightarrow> (UPropsVectors \<times> 'x \<times> UErrorCode) option" where
  "upvec_compact malloc pv handler0 x err =
     (if U_FAILURE err then Some (pv, x, err)
      else case handler0 of
        None \<Rightarrow> Some (pv, x, U_ILLEGAL_ARGUMENT_ERROR)
      | Some handler \<Rightarrow>
          if pv_isCompacted pv then Some (pv, x, err)
          else do {
            let pv1 = pv\<lparr>pv_isCompacted := True\<rparr>;
            let rows = pv_rows pv;
            let columns = pv_columns pv;
            let valueColumns = columns - 2;
            (v0, err0) \<leftarrow> uprv_sortArray malloc (Some (pv_v pv)) (int rows) (int columns * 4) (Some upvec_compareRows) pv1 False (Some err);
            let v = the v0;
            let err1 = the err0;
            let pv2 = pv1\<lparr>pv_v := v\<rparr>;
            if U_FAILURE err1 then Some (pv2, x, err1)
            else
              let (cnt, x2, err2) = special_loop handler valueColumns v 0 rows (- int valueColumns) x err1 in
              if U_FAILURE err2 then Some (pv2, x2, err2)
              else
                let (x3, err3) = handler x2 UPVEC_START_REAL_VALUES_CP UPVEC_START_REAL_VALUES_CP (cnt + int valueColumns)
                                   (drop 2 (v ! (rows - 1))) (int valueColumns) err2 in
                if U_FAILURE err3 then Some (pv2, x3, err3)
                else
                  let (m, cnt', x4, err4) = compact_loop handler columns (concat (take rows v)) 0 rows (- int valueColumns) x3 err3;
                      pv3 = pv2\<lparr>pv_v := rows_of columns rows m @ drop rows v\<rparr>
                  in if U_FAILURE err4 then Some (pv3, x4, err4)
                     else Some (pv3\<lparr>pv_rows := nat (cnt' div int valueColumns + 1)\<rparr>, x4, err4) })"

text \<open>The compacted array with the numbers of rows and columns, NULL is \<open>None\<close>.\<close>

definition upvec_getArray :: "UPropsVectors \<Rightarrow> (32 word list \<times> nat \<times> nat) option" where
  "upvec_getArray pv = (if \<not> pv_isCompacted pv then None else Some (concat (pv_v pv), pv_rows pv, pv_columns pv - 2))"

text \<open>The clone of the compacted array; the byte count is the product of \<open>int32_t\<close> values of \<open>row_bytes\<close>.\<close>

definition upvec_cloneArray ::
  "(nat \<Rightarrow> bool) \<Rightarrow> UPropsVectors \<Rightarrow> UErrorCode \<Rightarrow> ((32 word list \<times> nat \<times> nat) option \<times> UErrorCode) option" where
  "upvec_cloneArray malloc pv err =
     (if U_FAILURE err then Some (None, err)
      else if \<not> pv_isCompacted pv then Some (None, U_ILLEGAL_ARGUMENT_ERROR)
      else do {
        let valueColumns = pv_columns pv - 2;
        byteLength \<leftarrow> row_bytes (pv_rows pv) valueColumns;
        Some (if \<not> malloc byteLength then (None, U_MEMORY_ALLOCATION_ERROR)
              else (Some (take (pv_rows pv * valueColumns) (concat (pv_v pv)), pv_rows pv, valueColumns), err))
      })"

section \<open>The order of the rows\<close>

text \<open>The comparison looks at the values first, then at the range.\<close>

definition row_key :: "row \<Rightarrow> 32 word list" where
  "row_key r = drop 2 r @ take 2 r"

definition compare_lists :: "32 word list \<Rightarrow> 32 word list \<Rightarrow> int" where
  "compare_lists xs ys = (if xs < ys then - 1 else if xs = ys then 0 else 1)"

lemma compare_rows_loop_eq:
  "0 < cnt \<Longrightarrow> length xs = cnt \<Longrightarrow> length ys = cnt \<Longrightarrow> (\<And>k. k < cnt \<Longrightarrow> left ! ((i + k) mod columns) = xs ! k \<and> right ! ((i + k) mod columns) = ys ! k) \<Longrightarrow>
    i < columns \<Longrightarrow> compare_rows_loop columns left right i cnt = compare_lists xs ys"
proof (induction cnt arbitrary: i xs ys)
  case (Suc cnt)
  obtain x xs' y ys' where xy: "xs = x # xs'" "ys = y # ys'" using Suc.prems(2,3) by (cases xs; cases ys) auto
  have h: "left ! i = x" "right ! i = y" using Suc.prems(4) [of 0] Suc.prems(5) xy by simp_all
  let ?i = "if i + 1 = columns then 0 else i + 1"
  show ?case
  proof (cases "x = y \<and> 0 < cnt")
    case True
    have "left ! ((?i + k) mod columns) = xs' ! k \<and> right ! ((?i + k) mod columns) = ys' ! k" if "k < cnt" for k
    proof -
      have "(?i + k) mod columns = (i + Suc k) mod columns"
      proof (cases "i + 1 = columns")
        case True
        then have "i + Suc k = columns + k" by simp
        then have "(i + Suc k) mod columns = k mod columns" by (simp only: mod_add_self1)
        then show ?thesis unfolding if_P [OF True] add_0 by (rule sym)
      qed simp
      then show ?thesis using Suc.prems(4) [of "Suc k"] that xy by simp
    qed
    then have "compare_rows_loop columns left right ?i cnt = compare_lists xs' ys'" using Suc.prems xy True by (intro Suc.IH) auto
    then show ?thesis using True h xy by (simp add: compare_rows_loop.simps [of columns left right i] compare_lists_def)
  next
    case False
    then show ?thesis using h xy Suc.prems(2,3) by (auto simp: compare_rows_loop.simps [of columns left right i] compare_lists_def)
  qed
qed simp

definition rotated :: "nat \<Rightarrow> row \<Rightarrow> 32 word list" where
  "rotated columns r = map (\<lambda>k. r ! ((2 + k) mod columns)) [0..<columns]"

lemma compareRows_eq: "3 \<le> pv_columns pv \<Longrightarrow> upvec_compareRows pv l r = compare_lists (rotated (pv_columns pv) l) (rotated (pv_columns pv) r)"
  unfolding upvec_compareRows_def by (rule compare_rows_loop_eq) (simp_all add: rotated_def)

lemma rotated_key: "length r = columns \<Longrightarrow> 3 \<le> columns \<Longrightarrow> rotated columns r = row_key r"
proof (rule nth_equalityI)
  fix k assume a: "length r = columns" "3 \<le> columns" "k < length (rotated columns r)"
  have "(2 + k) mod columns = (if k < columns - 2 then 2 + k else k - (columns - 2))"
  proof (cases "k < columns - 2")
    case False
    then have "2 + k = columns + (k - (columns - 2))" "k - (columns - 2) < columns" using a by (simp_all add: rotated_def)
    then show ?thesis using False by (metis mod_add_self1 mod_less)
  qed simp
  then show "rotated columns r ! k = row_key r ! k" using a by (simp add: rotated_def row_key_def nth_append)
qed (simp add: rotated_def row_key_def)

lemma compare_lists_contract: "compare_lists x y < 0 \<longleftrightarrow> compare_lists y x > 0" "compare_lists x y \<le> 0 \<longleftrightarrow> x \<le> y"
  by (auto simp: compare_lists_def)

lemma compareRows_contract: "3 \<le> pv_columns pv \<Longrightarrow> comparator (upvec_compareRows pv)"
  by (rule comparator.intro) (auto simp: compareRows_eq compare_lists_contract)

text \<open>The sort of the builder's rows is the sort by their keys.\<close>

lemma key_inj: "inj_on row_key {r. length r = n}"
proof (rule inj_onI)
  fix r s assume a: "r \<in> {r. length r = n}" "s \<in> {r. length r = n}" "row_key r = row_key s"
  then have "drop 2 r = drop 2 s \<and> take 2 r = take 2 s" unfolding row_key_def by (intro append_eq_append_conv [THEN iffD1]) simp_all
  then show "r = s" using append_take_drop_id by metis
qed

lemma sort_rows:
  assumes pv: "pv_ok pv" and err: "\<not> U_FAILURE err" and mem: "pv_columns pv * 4 \<le> 200 \<or> malloc (pv_columns pv * 4) \<and> malloc (2 * (pv_columns pv * 4))"
  shows "uprv_sortArray malloc (Some (pv_v pv)) (int (pv_rows pv)) (int (pv_columns pv) * 4) (Some upvec_compareRows) (pv\<lparr>pv_isCompacted := True\<rparr>) False (Some err)
    = Some (Some (sort_key row_key (used_rows pv) @ drop (pv_rows pv) (pv_v pv)), Some err)"
proof -
  let ?pv = "pv\<lparr>pv_isCompacted := True\<rparr>" and ?n = "pv_rows pv" and ?c = "pv_columns pv"
  note ok = pv_okD [OF pv]
  have c: "comparator (upvec_compareRows ?pv)" using ok(7) by (intro compareRows_contract) simp
  have rows: "?n \<le> 2 ^ 30" using pv by (auto simp: pv_ok_def)
  obtain b where b: "uprv_sortArray malloc (Some (pv_v pv)) (int ?n) (int (?c * 4)) (Some upvec_compareRows) ?pv False (Some err) = Some (Some b, Some err)"
      "mset (take ?n b) = mset (take ?n (pv_v pv))" "drop ?n b = drop ?n (pv_v pv)" "sorted_wrt (\<lambda>x y. upvec_compareRows ?pv x y \<le> 0) (take ?n b)"
    using sortArray_correct [where cmp = upvec_compareRows and ctx = ?pv and a = "pv_v pv" and n = ?n and itemSize = "?c * 4" and malloc = malloc and sortStable = False and ec = err] c ok rows err mem by auto
  have len: "length r = ?c" if "r \<in> set (used_rows pv)" for r using that chain_nth(4) [OF ok(1)] by (metis in_set_conv_nth)
  have set_eq: "set (take ?n b) = set (used_rows pv)" using b(2) unfolding used_rows_def by (metis set_mset_mset)
  have "sorted_wrt (\<lambda>x y. row_key x \<le> row_key y) (take ?n b)"
    using b(4) by (rule sorted_wrt_mono_rel [rotated]) (simp add: compareRows_eq compare_lists_contract ok(7) rotated_key len set_eq)
  then have "sorted (map row_key (take ?n b))" by (simp add: sorted_map)
  moreover have "inj_on row_key (set (used_rows pv))" using len by (intro inj_on_subset [OF key_inj [of ?c]]) auto
  ultimately have "sort_key row_key (used_rows pv) = take ?n b" using b(2) by (intro sort_key_inj_key_eq) (simp_all add: used_rows_def)
  then have "b = sort_key row_key (used_rows pv) @ drop ?n (pv_v pv)" using b(3) append_take_drop_id [of ?n b] by simp
  then show ?thesis using b(1) by simp
qed

section \<open>Lists of vectors\<close>

lemma remdups_adj_snoc: "remdups_adj (xs @ [y]) = (if xs \<noteq> [] \<and> last xs = y then remdups_adj xs else remdups_adj xs @ [y])"
proof (cases xs rule: rev_cases)
  case (snoc ys x)
  then show ?thesis using remdups_adj_append_two [of ys x y] by simp
qed simp

lemma remdups_adj_step:
  assumes "i < length vs"
  shows "remdups_adj (take (Suc i) vs) = (if 0 < i \<and> vs ! (i - 1) = vs ! i then remdups_adj (take i vs) else remdups_adj (take i vs) @ [vs ! i])"
proof -
  have "take (Suc i) vs = take i vs @ [vs ! i]" using assms by (rule take_Suc_conv_app_nth)
  moreover have ne: "take i vs \<noteq> []" if "0 < i" using assms that by (cases vs) auto
  moreover have "last (take i vs) = vs ! (i - 1)" if "0 < i" using last_conv_nth [OF ne [OF that]] assms that by (simp add: min_def)
  ultimately show ?thesis unfolding remdups_adj_snoc by (cases "0 < i") (auto simp: remdups_adj_snoc)
qed

lemma concat_uniform:
  assumes "\<forall>r\<in>set xs. length r = k"
  shows "length (concat xs) = length xs * k" "i \<le> length xs \<Longrightarrow> drop (i * k) (concat xs) = concat (drop i xs)"
  using assms
proof (induction xs arbitrary: i)
  case (Cons r xs)
  { case 1 then show ?case using Cons.IH(1) by simp }
  { case 2 then show ?case using Cons.IH(2) [of "i - 1"] by (cases i) simp_all }
qed simp_all

lemma lex_prefix: "length xs = length ys \<Longrightarrow> xs @ a \<le> ys @ b \<Longrightarrow> xs \<le> ys" for xs ys :: "'a :: linorder list"
  by (induction xs ys rule: list_induct2) auto

lemma sorted_remdups_adj_distinct: "sorted xs \<Longrightarrow> distinct (remdups_adj xs)"
  by (induction xs rule: remdups_adj.induct) auto

definition index_in :: "'a list \<Rightarrow> 'a \<Rightarrow> nat" where
  "index_in us v = length (takeWhile (\<lambda>u. u \<noteq> v) us)"

lemma index_in_prefix: "distinct (ps @ v # qs) \<Longrightarrow> index_in (ps @ v # qs) v = length ps"
  by (induction ps) (auto simp: index_in_def)

text \<open>The position of the vector of row \<open>i\<close> is the number of changes before it.\<close>

lemma index_remdups_adj:
  assumes "distinct (remdups_adj vs)" "i < length vs"
  shows "Suc (index_in (remdups_adj vs) (vs ! i)) = length (remdups_adj (take (Suc i) vs))"
proof -
  let ?t = "take (Suc i) vs"
  have t: "?t \<noteq> []" "last ?t = vs ! i" using assms(2) by (auto simp: take_Suc_conv_app_nth)
  have vs: "vs = butlast ?t @ vs ! i # drop (Suc i) vs" using t by (metis append.assoc append_Cons append_Nil append_butlast_last_id append_take_drop_id)
  have bt: "butlast ?t @ [vs ! i] = ?t" using t by (metis append_butlast_last_id)
  have "remdups_adj vs = remdups_adj ?t @ tl (remdups_adj (vs ! i # drop (Suc i) vs))" using remdups_adj_append [of "butlast ?t" "vs ! i" "drop (Suc i) vs"] unfolding vs [symmetric] bt .
  moreover have "remdups_adj ?t = butlast (remdups_adj ?t) @ [vs ! i]" using t last_remdups_adj [of ?t] by (metis append_butlast_last_id remdups_adj_Nil_iff)
  ultimately have "remdups_adj vs = butlast (remdups_adj ?t) @ vs ! i # tl (remdups_adj (vs ! i # drop (Suc i) vs))" by (metis append.assoc append_Cons append_Nil)
  then have "index_in (remdups_adj vs) (vs ! i) = length (butlast (remdups_adj ?t))" using assms(1) by (metis index_in_prefix)
  then show ?thesis using t(1) by (simp add: Suc_leI Suc_diff_1)
qed

section \<open>The calls of the handler\<close>

type_synonym compact_call = "int \<times> int \<times> int \<times> 32 word list \<times> int"

fun deliver :: "'x UPVecCompactHandler \<Rightarrow> compact_call list \<Rightarrow> 'x \<Rightarrow> UErrorCode \<Rightarrow> 'x \<times> UErrorCode" where
  "deliver handler [] x err = (x, err)"
| "deliver handler ((start, end', k, vec, n) # calls) x err =
     (let (x', err') = handler x start end' k vec n err in if U_FAILURE err' then (x', err') else deliver handler calls x' err')"

text \<open>Rows of equal length, and the distinct vectors among the first of them.\<close>

definition vectors :: "row list \<Rightarrow> nat \<Rightarrow> 32 word list list" where
  "vectors S i = remdups_adj (take i (map (drop 2) S))"

lemma vectors_step:
  "i < length S \<Longrightarrow> vectors S (Suc i) = (if 0 < i \<and> drop 2 (S ! (i - 1)) = drop 2 (S ! i) then vectors S i else vectors S i @ [drop 2 (S ! i)])"
  using remdups_adj_step [of i "map (drop 2) S"] by (auto simp: vectors_def)

definition special_call :: "row list \<Rightarrow> nat \<Rightarrow> nat \<Rightarrow> compact_call" where
  "special_call S vc i = (row_start (S ! i), row_start (S ! i), int (vc * length (vectors S (Suc i))) - int vc, drop 2 (S ! i), int vc)"

definition real_call :: "row list \<Rightarrow> nat \<Rightarrow> nat \<Rightarrow> compact_call" where
  "real_call S vc i = (row_start (S ! i), row_limit (S ! i) - 1, int (vc * length (vectors S (Suc i))) - int vc, drop 2 (S ! i), int vc)"

abbreviation is_special :: "row list \<Rightarrow> nat \<Rightarrow> bool" where
  "is_special S i \<equiv> UPVEC_FIRST_SPECIAL_CP \<le> row_start (S ! i)"

lemma special_loop_correct:
  assumes "i + n = length S" "0 < vc" "\<not> U_FAILURE err" "cnt = int (vc * length (vectors S i)) - int vc"
  shows "\<exists>cnt'. special_loop h vc (S @ rest) i n cnt x err = (cnt', deliver h (map (special_call S vc) (filter (is_special S) [i..<length S])) x err)
    \<and> (\<not> U_FAILURE (snd (deliver h (map (special_call S vc) (filter (is_special S) [i..<length S])) x err)) \<longrightarrow> cnt' = int (vc * length (vectors S (length S))) - int vc)"
  using assms
proof (induction n arbitrary: i cnt x err)
  case (Suc n)
  then have i: "i < length S" "[i..<length S] = i # [Suc i..<length S]" by (simp_all add: upt_conv_Cons)
  define cnt' where "cnt' = (if cnt < 0 \<or> drop 2 ((S @ rest) ! i) \<noteq> drop 2 ((S @ rest) ! (i - 1)) then cnt + int vc else cnt)"
  have neg: "cnt < 0 \<longleftrightarrow> i = 0"
  proof -
    have "vectors S i = [] \<longleftrightarrow> i = 0" using i(1) by (auto simp: vectors_def)
    moreover have "int (vc * k) - int vc < 0 \<longleftrightarrow> k = 0" for k using Suc.prems(2) by (cases k) (simp_all add: not_less)
    ultimately show ?thesis using Suc.prems(4) by simp
  qed
  have c: "cnt' = int (vc * length (vectors S (Suc i))) - int vc"
    using neg i(1) Suc.prems(4) vectors_step [OF i(1)] by (auto simp: cnt'_def nth_append algebra_simps)
  have row: "(S @ rest) ! i = S ! i" using i(1) by (simp add: nth_append)
  have step: "special_loop h vc (S @ rest) i (Suc n) cnt x err = (if is_special S i then
      (let (x', err') = h x (row_start (S ! i)) (row_start (S ! i)) cnt' (drop 2 (S ! i)) (int vc) err
       in if U_FAILURE err' then (cnt', x', err') else special_loop h vc (S @ rest) (Suc i) n cnt' x' err')
      else special_loop h vc (S @ rest) (Suc i) n cnt' x err)"
    unfolding special_loop.simps unfolding Let_def cnt'_def row Suc_eq_plus1 ..
  show ?case
  proof (cases "is_special S i")
    case True
    obtain x' err' where h: "h x (row_start (S ! i)) (row_start (S ! i)) cnt' (drop 2 (S ! i)) (int vc) err = (x', err')" by fastforce
    show ?thesis
    proof (cases "U_FAILURE err'")
      case fail: True
      then show ?thesis using True h i(2) c by (simp add: step special_call_def del: special_loop.simps)
    next
      case False
      then show ?thesis using Suc.IH [of "Suc i" err' cnt' x'] Suc.prems(1,2) True h i(2) c
        by (simp add: step special_call_def del: special_loop.simps)
    qed
  next
    case False
    then show ?thesis using Suc.IH [of "Suc i" err cnt' x] Suc.prems(1-3) i(2) c by (simp add: step del: special_loop.simps)
  qed
qed simp

section \<open>The memory\<close>

text \<open>After \<open>i\<close> rows the distinct vectors stand at the front and the rows from \<open>i\<close> on are untouched.\<close>

definition compact_inv :: "row list \<Rightarrow> nat \<Rightarrow> nat \<Rightarrow> 32 word list \<Rightarrow> bool" where
  "compact_inv S columns i m \<longleftrightarrow> length m = length S * columns
     \<and> take ((columns - 2) * length (vectors S i)) m = concat (vectors S i) \<and> drop (i * columns) m = concat (drop i S)"

lemma vectors_props:
  assumes "\<forall>r\<in>set S. length r = columns"
  shows "\<forall>v\<in>set (vectors S i). length v = columns - 2" "length (vectors S i) \<le> i" "i \<le> length S \<Longrightarrow> 0 < i \<Longrightarrow> last (vectors S i) = drop 2 (S ! (i - 1)) \<and> vectors S i \<noteq> []"
proof -
  show "\<forall>v\<in>set (vectors S i). length v = columns - 2" using assms by (auto simp: vectors_def dest!: in_set_takeD)
  show "length (vectors S i) \<le> i" unfolding vectors_def by (rule order_trans [OF remdups_adj_length]) simp
  show "last (vectors S i) = drop 2 (S ! (i - 1)) \<and> vectors S i \<noteq> []" if "i \<le> length S" "0 < i"
  proof -
    have ne: "take i (map (drop 2) S) \<noteq> []" using that by auto
    then show ?thesis using that last_conv_nth [OF ne] by (simp add: vectors_def min_def)
  qed
qed

lemma compact_row:
  assumes inv: "compact_inv S columns i m" and S: "\<forall>r\<in>set S. length r = columns" "i < length S" "3 \<le> columns"
  shows "sint (m ! (i * columns)) = row_start (S ! i)" "sint (m ! (i * columns + 1)) = row_limit (S ! i)"
    "take (columns - 2) (drop (i * columns + 2) m) = drop 2 (S ! i)" "(i + 1) * columns \<le> length m" "drop ((i + 1) * columns) m = concat (drop (i + 1) S)"
proof -
  have len: "length (S ! i) = columns" using S by simp
  have d: "drop (i * columns) m = S ! i @ concat (drop (i + 1) S)" using inv S(2) by (simp add: compact_inv_def Cons_nth_drop_Suc [symmetric])
  have "Suc i * columns \<le> length S * columns" using S(2) by (intro mult_le_mono1) simp
  then show room: "(i + 1) * columns \<le> length m" using inv by (simp add: compact_inv_def)
  have nth: "m ! (i * columns + k) = S ! i ! k" if "k < columns" for k
  proof -
    have "m ! (i * columns + k) = drop (i * columns) m ! k" using room that by (intro nth_drop [symmetric]) simp
    then show ?thesis unfolding d using that len by (simp add: nth_append)
  qed
  show "sint (m ! (i * columns)) = row_start (S ! i)" "sint (m ! (i * columns + 1)) = row_limit (S ! i)"
    using nth [of 0] nth [of 1] S(3) by (simp_all add: row_start_def row_limit_def)
  have "drop (i * columns + 2) m = drop 2 (S ! i) @ concat (drop (i + 1) S)" using arg_cong [OF d, of "drop 2"] len S(3) by (simp add: add.commute)
  then show "take (columns - 2) (drop (i * columns + 2) m) = drop 2 (S ! i)" using len by simp
  show "drop ((i + 1) * columns) m = concat (drop (i + 1) S)" using arg_cong [OF d, of "drop columns"] len by (simp add: add.commute)
qed

lemma compact_last:
  assumes inv: "compact_inv S columns i m" and S: "\<forall>r\<in>set S. length r = columns" "i \<le> length S" "0 < i"
  shows "take (columns - 2) (drop ((columns - 2) * (length (vectors S i) - 1)) m) = drop 2 (S ! (i - 1))"
proof -
  let ?U = "vectors S i" and ?vc = "columns - 2"
  note vp = vectors_props [OF S(1), of i]
  have U: "?U = butlast ?U @ [drop 2 (S ! (i - 1))]" using vp(3) [OF S(2,3)] by (metis append_butlast_last_id)
  have "length (concat (butlast ?U)) = ?vc * (length ?U - 1)" using concat_uniform(1) [of "butlast ?U" ?vc] vp(1) by (simp add: in_set_butlastD)
  moreover have "concat ?U = concat (butlast ?U) @ drop 2 (S ! (i - 1))" using arg_cong [OF U, of concat] by simp
  ultimately have "drop (?vc * (length ?U - 1)) (concat ?U) = drop 2 (S ! (i - 1))" by simp
  moreover have "drop (?vc * (length ?U - 1)) (concat ?U) = take ?vc (drop (?vc * (length ?U - 1)) m)"
  proof -
    have "?vc * length ?U - ?vc * (length ?U - 1) = ?vc" using vp(3) [OF S(2,3)] by (cases ?U) simp_all
    moreover have "concat ?U = take (?vc * length ?U) m" using inv by (simp add: compact_inv_def)
    ultimately show ?thesis by (simp add: drop_take)
  qed
  ultimately show ?thesis by simp
qed

lemma compact_move:
  assumes inv: "compact_inv S columns i m" and S: "\<forall>r\<in>set S. length r = columns" "i < length S" "3 \<le> columns"
    and new: "vectors S (Suc i) = vectors S i @ [drop 2 (S ! i)]"
  shows "compact_inv S columns (Suc i) (memmove_items m ((columns - 2) * length (vectors S i)) (i * columns + 2) (columns - 2))"
proof -
  let ?U = "vectors S i" and ?vc = "columns - 2"
  let ?d = "?vc * length ?U"
  note row = compact_row [OF inv S]
  have "?vc * Suc (length ?U) \<le> columns * Suc i" using vectors_props(2) [OF S(1), of i] by (intro mult_le_mono) simp_all
  then have room: "?d + ?vc \<le> (i + 1) * columns" by (simp add: algebra_simps)
  have len: "length (drop 2 (S ! i)) = ?vc" using S by simp
  have m': "memmove_items m ?d (i * columns + 2) ?vc = take ?d m @ drop 2 (S ! i) @ drop (?d + ?vc) m" unfolding memmove_items_def row(3) ..
  have "take ?d m = concat ?U" using inv by (simp add: compact_inv_def)
  moreover have td: "length (take ?d m) = ?d" using room row(4) by simp
  moreover have "length (take ?d m @ drop 2 (S ! i)) = ?vc * length (vectors S (Suc i))" using td len by (simp add: new)
  ultimately have "take (?vc * length (vectors S (Suc i))) (memmove_items m ?d (i * columns + 2) ?vc) = concat (vectors S (Suc i))"
    unfolding m' append_assoc [symmetric] by (simp add: new)
  moreover have "drop (Suc i * columns) (memmove_items m ?d (i * columns + 2) ?vc) = concat (drop (Suc i) S)"
  proof -
    have "drop (Suc i * columns) (take ?d m @ drop 2 (S ! i) @ drop (?d + ?vc) m) = drop (Suc i * columns) m"
      using room td len by (simp add: drop_append)
    then show ?thesis using row(5) unfolding m' by simp
  qed
  moreover have "length (memmove_items m ?d (i * columns + 2) ?vc) = length S * columns" using inv room row(4) td len unfolding m' compact_inv_def by simp
  ultimately show ?thesis unfolding compact_inv_def by blast
qed

text \<open>The update of the counter and of the memory for one row.\<close>

lemma counter_nat: "nat (int (c * k) - int c) = c * (k - 1)"
proof (cases k)
  case (Suc j)
  then have "int (c * k) - int c = int (c * j)" by simp
  then show ?thesis using Suc by (simp only: nat_int diff_Suc_1)
qed simp

lemma compact_update:
  assumes inv: "compact_inv S columns i m" and S: "\<forall>r\<in>set S. length r = columns" "i < length S" "3 \<le> columns"
    and cnt: "cnt = int ((columns - 2) * length (vectors S i)) - int (columns - 2)"
  shows "\<exists>m'. (if cnt < 0 \<or> take (columns - 2) (drop (i * columns + 2) m) \<noteq> take (columns - 2) (drop (nat cnt) m)
        then let c = cnt + int (columns - 2) in (c, memmove_items m (nat c) (i * columns + 2) (columns - 2)) else (cnt, m))
      = (int ((columns - 2) * length (vectors S (Suc i))) - int (columns - 2), m')
    \<and> compact_inv S columns (Suc i) m' \<and> take (columns - 2) (drop (nat (int ((columns - 2) * length (vectors S (Suc i))) - int (columns - 2))) m') = drop 2 (S ! i)"
proof -
  let ?vc = "columns - 2"
  note row = compact_row [OF inv S]
  have vc: "0 < ?vc" using S(3) by simp
  note nat_cnt = counter_nat [of ?vc]
  have neg: "cnt < 0 \<longleftrightarrow> i = 0"
  proof -
    have "vectors S i = [] \<longleftrightarrow> i = 0" using S(2) by (auto simp: vectors_def)
    moreover have "int (?vc * k) - int ?vc < 0 \<longleftrightarrow> k = 0" for k using vc by (cases k) (simp_all add: not_less)
    ultimately show ?thesis using cnt by simp
  qed
  have last: "take ?vc (drop (nat cnt) m) = drop 2 (S ! (i - 1))" if "0 < i" using compact_last [OF inv S(1) _ that] S(2) unfolding cnt nat_cnt by simp
  have old: "take ?vc (drop (nat (int (?vc * length (vectors S (Suc i))) - int ?vc)) m') = drop 2 (S ! i)" if "compact_inv S columns (Suc i) m'" for m'
    using compact_last [OF that S(1)] S(2) unfolding nat_cnt by simp
  show ?thesis
  proof (cases "0 < i \<and> drop 2 (S ! (i - 1)) = drop 2 (S ! i)")
    case True
    then have v: "vectors S (Suc i) = vectors S i" using vectors_step [OF S(2)] by simp
    have "compact_inv S columns (Suc i) m" using inv row(5) unfolding compact_inv_def v by simp
    moreover have "\<not> (cnt < 0 \<or> take ?vc (drop (i * columns + 2) m) \<noteq> take ?vc (drop (nat cnt) m))" using True neg last row(3) by simp
    ultimately show ?thesis using old cnt v by (intro exI [of _ m]) simp
  next
    case False
    then have v: "vectors S (Suc i) = vectors S i @ [drop 2 (S ! i)]" using vectors_step [OF S(2)] by auto
    let ?m = "memmove_items m (?vc * length (vectors S i)) (i * columns + 2) ?vc"
    have inv': "compact_inv S columns (Suc i) ?m" by (rule compact_move [OF inv S v])
    have cond: "cnt < 0 \<or> take ?vc (drop (i * columns + 2) m) \<noteq> take ?vc (drop (nat cnt) m)" using False neg last row(3) by auto
    have c1: "cnt + int ?vc = int (?vc * length (vectors S (Suc i))) - int ?vc" using cnt v by (simp add: algebra_simps)
    have "cnt + int ?vc = int (?vc * length (vectors S i))" using cnt by simp
    then have c2: "nat (cnt + int ?vc) = ?vc * length (vectors S i)" by (simp only: nat_int)
    show ?thesis unfolding if_P [OF cond] Let_def c2 unfolding c1 using inv' old [OF inv'] by blast
  qed
qed

lemma compact_loop_correct:
  assumes "i + n = length S" "\<forall>r\<in>set S. length r = columns" "3 \<le> columns" "\<not> U_FAILURE err" "compact_inv S columns i m"
    "cnt = int ((columns - 2) * length (vectors S i)) - int (columns - 2)"
  shows "\<exists>m' cnt' j. compact_loop h columns m i n cnt x err = (m', cnt', deliver h (map (real_call S (columns - 2)) (filter (\<lambda>i. \<not> is_special S i) [i..<length S])) x err)
    \<and> compact_inv S columns j m' \<and> (\<not> U_FAILURE (snd (deliver h (map (real_call S (columns - 2)) (filter (\<lambda>i. \<not> is_special S i) [i..<length S])) x err)) \<longrightarrow>
      j = length S \<and> cnt' = int ((columns - 2) * length (vectors S (length S))) - int (columns - 2))"
  using assms
proof (induction n arbitrary: i cnt x err m)
  case (Suc n)
  then have i: "i < length S" "[i..<length S] = i # [Suc i..<length S]" by (simp_all add: upt_conv_Cons)
  let ?vc = "columns - 2" and ?c = "int ((columns - 2) * length (vectors S (Suc i))) - int (columns - 2)"
  note row = compact_row [OF Suc.prems(5,2) i(1) Suc.prems(3)]
  obtain m' where m': "(if cnt < 0 \<or> take ?vc (drop (i * columns + 2) m) \<noteq> take ?vc (drop (nat cnt) m)
        then let c = cnt + int ?vc in (c, memmove_items m (nat c) (i * columns + 2) ?vc) else (cnt, m)) = (?c, m')"
      "compact_inv S columns (Suc i) m'" "take ?vc (drop (nat ?c) m') = drop 2 (S ! i)"
    using compact_update [OF Suc.prems(5,2) i(1) Suc.prems(3,6)] by (elim exE conjE) (rule that)
  have step: "compact_loop h columns m i (Suc n) cnt x err = (if \<not> is_special S i then
      (let (x', err') = h x (row_start (S ! i)) (row_limit (S ! i) - 1) ?c (drop 2 (S ! i)) (int ?vc) err
       in if U_FAILURE err' then (m', ?c, x', err') else compact_loop h columns m' (Suc i) n ?c x' err')
      else compact_loop h columns m' (Suc i) n ?c x err)"
    unfolding compact_loop.simps(2) unfolding Let_def unfolding row(1,2) unfolding m'(1) [unfolded Let_def] unfolding split_conv unfolding m'(3) unfolding not_le Suc_eq_plus1 ..
  show ?case
  proof (cases "is_special S i")
    case False
    obtain x' err' where h: "h x (row_start (S ! i)) (row_limit (S ! i) - 1) ?c (drop 2 (S ! i)) (int ?vc) err = (x', err')" by fastforce
    show ?thesis
    proof (cases "U_FAILURE err'")
      case True
      then show ?thesis using False h i(2) m'(2) by (intro exI [of _ m'] exI [of _ ?c] exI [of _ "Suc i"]) (simp add: step real_call_def del: compact_loop.simps)
    next
      case ok: False
      have "compact_loop h columns m i (Suc n) cnt x err = compact_loop h columns m' (Suc i) n ?c x' err'" unfolding step h using False ok by simp
      moreover have "deliver h (map (real_call S ?vc) (filter (\<lambda>i. \<not> is_special S i) [i..<length S])) x err = deliver h (map (real_call S ?vc) (filter (\<lambda>i. \<not> is_special S i) [Suc i..<length S])) x' err'"
        using False ok h i(2) by (simp add: real_call_def)
      ultimately show ?thesis using Suc.IH [of "Suc i" err' m' ?c x'] Suc.prems(1-3) ok m'(2) by simp
    qed
  next
    case True
    then show ?thesis using Suc.IH [of "Suc i" err m' ?c x] Suc.prems(1-4) i(2) m'(2) by (simp add: step del: compact_loop.simps)
  qed
qed (auto simp: compact_inv_def)

section \<open>Compaction\<close>

text \<open>The distinct vectors of the builder in ascending order, and the calls of the handler in order: the special values, the start of
  the real values, and the real values.\<close>

definition distinct_vectors :: "UPropsVectors \<Rightarrow> 32 word list list" where
  "distinct_vectors pv = sorted_list_of_set (set (map (drop 2) (used_rows pv)))"

definition vector_at :: "UPropsVectors \<Rightarrow> row \<Rightarrow> int" where
  "vector_at pv r = int ((pv_columns pv - 2) * index_in (distinct_vectors pv) (drop 2 r))"

definition compact_calls :: "UPropsVectors \<Rightarrow> compact_call list" where
  "compact_calls pv =
     (let S = sort_key row_key (used_rows pv); vc = pv_columns pv - 2 in
      map (\<lambda>r. (row_start r, row_start r, vector_at pv r, drop 2 r, int vc)) (filter (\<lambda>r. UPVEC_FIRST_SPECIAL_CP \<le> row_start r) S)
      @ [(UPVEC_START_REAL_VALUES_CP, UPVEC_START_REAL_VALUES_CP, int (vc * length (distinct_vectors pv)), drop 2 (last S), int vc)]
      @ map (\<lambda>r. (row_start r, row_limit r - 1, vector_at pv r, drop 2 r, int vc)) (filter (\<lambda>r. row_start r < UPVEC_FIRST_SPECIAL_CP) S))"

lemma deliver_append_ok:
  "\<not> U_FAILURE err \<Longrightarrow> deliver h (cs @ ds) x err = (let (x', err') = deliver h cs x err in if U_FAILURE err' then (x', err') else deliver h ds x' err')"
  by (induction h cs x err rule: deliver.induct) (auto simp: Let_def split: prod.splits)

lemma filter_indices: "(\<And>i. i < length S \<Longrightarrow> g i = f (S ! i)) \<Longrightarrow> map g (filter (\<lambda>i. P (S ! i)) [0..<length S]) = map f (filter P S)"
proof -
  assume g: "\<And>i. i < length S \<Longrightarrow> g i = f (S ! i)"
  have "map f (filter P (map ((!) S) [0..<length S])) = map (\<lambda>i. f (S ! i)) (filter (\<lambda>i. P (S ! i)) [0..<length S])" by (simp add: filter_map comp_def)
  also have "\<dots> = map g (filter (\<lambda>i. P (S ! i)) [0..<length S])" using g by (intro map_cong) auto
  finally show ?thesis by (simp add: map_nth)
qed

lemma rows_of_concat: "length m = n * columns \<Longrightarrow> concat (rows_of columns n m) = m"
  by (induction n arbitrary: m) simp_all

lemma sorted_vectors:
  assumes "pv_ok pv"
  defines "S \<equiv> sort_key row_key (used_rows pv)"
  shows "\<forall>r\<in>set S. length r = pv_columns pv" "length S = pv_rows pv" "S \<noteq> []" "vectors S (length S) = distinct_vectors pv" "distinct (distinct_vectors pv)"
    and "\<And>i. i < length S \<Longrightarrow> int ((pv_columns pv - 2) * length (vectors S (Suc i))) - int (pv_columns pv - 2) = vector_at pv (S ! i)"
proof -
  note ok = pv_okD [OF assms(1)]
  have set_S: "set S = set (used_rows pv)" by (simp add: S_def)
  show len: "\<forall>r\<in>set S. length r = pv_columns pv" unfolding set_S using chain_nth(4) [OF ok(1)] by (metis in_set_conv_nth)
  show "length S = pv_rows pv" "S \<noteq> []" using ok(2,5) by (auto simp: S_def simp flip: length_0_conv)
  have "sorted_wrt (\<lambda>r s. row_key r \<le> row_key s) S" using sorted_sort_key [of row_key "used_rows pv"] unfolding S_def sorted_map by simp
  then have "sorted_wrt (\<lambda>r s. drop 2 r \<le> drop 2 s) S"
    by (rule sorted_wrt_mono_rel [rotated]) (use len in \<open>auto simp: row_key_def intro: lex_prefix [of "drop 2 _" "drop 2 _"]\<close>)
  then have so: "sorted (map (drop 2) S)" by (simp add: sorted_map)
  have v: "vectors S (length S) = remdups_adj (map (drop 2) S)" by (simp add: vectors_def)
  have d: "distinct (remdups_adj (map (drop 2) S))" by (rule sorted_remdups_adj_distinct [OF so])
  moreover have "sorted (remdups_adj (map (drop 2) S))" using so by (rule sorted_remdups_adj)
  ultimately have "sorted_list_of_set (set (remdups_adj (map (drop 2) S))) = remdups_adj (map (drop 2) S)" by (intro sorted_list_of_set.idem_if_sorted_distinct) simp_all
  then show eq: "vectors S (length S) = distinct_vectors pv" unfolding v distinct_vectors_def by (simp add: set_S)
  then show "distinct (distinct_vectors pv)" using d v by simp
  show "int ((pv_columns pv - 2) * length (vectors S (Suc i))) - int (pv_columns pv - 2) = vector_at pv (S ! i)" if "i < length S" for i
  proof -
    have "length (vectors S (Suc i)) = Suc (index_in (distinct_vectors pv) (drop 2 (S ! i)))"
      using index_remdups_adj [OF d, of i] that unfolding eq [symmetric] v by (simp add: vectors_def)
    then show ?thesis by (simp add: vector_at_def)
  qed
qed

lemma calls_cover:
  assumes "pv_ok pv" "0 \<le> c" "c < UPVEC_FIRST_SPECIAL_CP"
  shows "\<exists>start end' vec. (start, end', int ((pv_columns pv - 2) * index_in (distinct_vectors pv) vec), vec, int (pv_columns pv - 2)) \<in> set (compact_calls pv)
    \<and> start \<le> c \<and> c \<le> end' \<and> length vec = pv_columns pv - 2 \<and> (\<forall>col<pv_columns pv - 2. vec ! col = pv_get pv c col)"
proof -
  note ok = pv_okD [OF assms(1)]
  obtain i where i: "i < length (used_rows pv)" "row_start (used_rows pv ! i) \<le> c" "c < row_limit (used_rows pv ! i)"
    using chain_locate [OF ok(1) assms(2)] assms(3) by auto
  let ?r = "used_rows pv ! i"
  have "length ?r = pv_columns pv" using chain_nth(4) [OF ok(1) i(1)] .
  moreover have "pick (used_rows pv) c = ?r" by (rule pick_nth [OF ok(1) i])
  moreover have "(row_start ?r, row_limit ?r - 1, vector_at pv ?r, drop 2 ?r, int (pv_columns pv - 2)) \<in> set (compact_calls pv)"
    using i assms(3) by (auto simp: compact_calls_def Let_def)
  ultimately show ?thesis using i(2,3) ok(7)
    by (intro exI [of _ "row_start ?r"] exI [of _ "row_limit ?r - 1"] exI [of _ "drop 2 ?r"]) (auto simp: vector_at_def pv_get_def)
qed

text \<open>The calls by position are those of the specification.\<close>

lemma compact_calls_eq:
  assumes "pv_ok pv"
  defines "S \<equiv> sort_key row_key (used_rows pv)" and "vc \<equiv> pv_columns pv - 2"
  shows "compact_calls pv = map (special_call S vc) (filter (is_special S) [0..<length S])
    @ (UPVEC_START_REAL_VALUES_CP, UPVEC_START_REAL_VALUES_CP, int (vc * length (distinct_vectors pv)), drop 2 (last S), int vc)
    # map (real_call S vc) (filter (\<lambda>i. \<not> is_special S i) [0..<length S])"
proof -
  note at = sorted_vectors(6) [OF assms(1), folded S_def vc_def]
  have "map (special_call S vc) (filter (is_special S) [0..<length S])
      = map (\<lambda>r. (row_start r, row_start r, vector_at pv r, drop 2 r, int vc)) (filter (\<lambda>r. UPVEC_FIRST_SPECIAL_CP \<le> row_start r) S)"
    by (rule filter_indices) (simp only: special_call_def at)
  moreover have "map (real_call S vc) (filter (\<lambda>i. \<not> is_special S i) [0..<length S])
      = map (\<lambda>r. (row_start r, row_limit r - 1, vector_at pv r, drop 2 r, int vc)) (filter (\<lambda>r. \<not> UPVEC_FIRST_SPECIAL_CP \<le> row_start r) S)"
    by (rule filter_indices) (simp only: real_call_def at)
  ultimately show ?thesis unfolding compact_calls_def Let_def S_def vc_def by (simp add: not_le)
qed

text \<open>The array after the last loop.\<close>

lemma compacted_array:
  assumes inv: "compact_inv S columns (length S) m" and D: "vectors S (length S) = D" "D \<noteq> []" and c: "3 \<le> columns"
  shows "\<exists>rest. upvec_getArray (pv\<lparr>pv_isCompacted := True, pv_v := rows_of columns (length S) m @ tail, pv_columns := columns,
      pv_rows := nat ((int ((columns - 2) * length D) - int (columns - 2)) div int (columns - 2) + 1)\<rparr>) = Some (concat D @ rest, length D, columns - 2)"
proof -
  let ?vc = "columns - 2"
  have "int (?vc * length D) - int ?vc = int ?vc * (int (length D) - 1)" by (simp add: right_diff_distrib)
  moreover have "0 < ?vc" "0 < length D" using c D(2) by simp_all
  ultimately have "nat ((int (?vc * length D) - int ?vc) div int ?vc + 1) = length D" by simp
  moreover have "m = concat D @ drop (?vc * length D) m" using inv D(1) append_take_drop_id [of "?vc * length D" m] by (simp add: compact_inv_def)
  moreover have "concat (rows_of columns (length S) m) = m" using inv by (intro rows_of_concat) (simp add: compact_inv_def)
  ultimately show ?thesis by (intro exI [of _ "drop (?vc * length D) m @ concat tail"]) (simp add: upvec_getArray_def)
qed

text \<open>Compaction of a builder with memory for the sort: the handler gets the special code points, the start of the
  real values and the ranges of all code points, each with the index of its vector, until it reports an error; without
  one, the array holds the distinct vectors of the rows in ascending order. Every code point is in one of the ranges, with
  the values the builder had for it (\<open>calls_cover\<close>).\<close>

lemma compact_correct:
  assumes pv: "pv_ok pv" and err: "\<not> U_FAILURE err" and mem: "pv_columns pv * 4 \<le> 200 \<or> malloc (pv_columns pv * 4) \<and> malloc (2 * (pv_columns pv * 4))"
  shows "\<exists>pv'. upvec_compact malloc pv (Some h) x err = Some (pv', deliver h (compact_calls pv) x err) \<and> pv_isCompacted pv'
    \<and> (\<not> U_FAILURE (snd (deliver h (compact_calls pv) x err)) \<longrightarrow>
        (\<exists>rest. upvec_getArray pv' = Some (concat (distinct_vectors pv) @ rest, length (distinct_vectors pv), pv_columns pv - 2)))"
proof -
  define S vc rest D where "S = sort_key row_key (used_rows pv)" and "vc = pv_columns pv - 2" and "rest = drop (pv_rows pv) (pv_v pv)" and "D = distinct_vectors pv"
  define A B where "A = map (special_call S vc) (filter (is_special S) [0..<length S])" and "B = map (real_call S vc) (filter (\<lambda>i. \<not> is_special S i) [0..<length S])"
  note sv = sorted_vectors [OF pv, folded S_def vc_def D_def] and ok = pv_okD [OF pv]
  note calls = compact_calls_eq [OF pv, folded S_def vc_def D_def, folded A_def B_def]
  note sort = sort_rows [OF pv err mem, folded S_def rest_def]
  have c: "3 \<le> pv_columns pv" "0 < vc" using ok(7) by (simp_all add: vc_def)
  have zero: "- int vc = int (vc * length (vectors S 0)) - int vc" and n: "0 + length S = length S" by (simp_all add: vectors_def)
  have last: "(S @ rest) ! (length S - 1) = last S" using sv(3) by (simp add: nth_append last_conv_nth)
  obtain cnt where sp: "special_loop h vc (S @ rest) 0 (length S) (- int vc) x err = (cnt, deliver h A x err)"
      "\<not> U_FAILURE (snd (deliver h A x err)) \<longrightarrow> cnt = int (vc * length D) - int vc"
    using special_loop_correct [OF n c(2) err zero, of h rest x] unfolding sv(4) A_def by blast
  obtain x2 err2 where d2: "deliver h A x err = (x2, err2)" by fastforce
  obtain x3 err3 where d3: "h x2 UPVEC_START_REAL_VALUES_CP UPVEC_START_REAL_VALUES_CP (int (vc * length D)) (drop 2 (last S)) (int vc) err2 = (x3, err3)" by fastforce
  let ?pv2 = "pv\<lparr>pv_isCompacted := True, pv_v := S @ rest\<rparr>"
  consider (special) "U_FAILURE err2" | (start) "\<not> U_FAILURE err2" "U_FAILURE err3" | (real) "\<not> U_FAILURE err2" "\<not> U_FAILURE err3" by blast
  then show ?thesis
  proof cases
    case special
    then have "deliver h (compact_calls pv) x err = (x2, err2)" unfolding calls by (simp add: deliver_append_ok [OF err] d2)
    moreover have "upvec_compact malloc pv (Some h) x err = Some (?pv2, x2, err2)" using err ok(8) sort sp(1) special d2 sv(2) by (simp add: upvec_compact_def vc_def)
    ultimately show ?thesis using special by simp
  next
    case start
    then have cnt: "cnt + int vc = int (vc * length D)" using sp(2) d2 by simp
    have "deliver h (compact_calls pv) x err = (x3, err3)" unfolding calls using d3 start by (simp add: deliver_append_ok [OF err] d2)
    moreover have "upvec_compact malloc pv (Some h) x err = Some (?pv2, x3, err3)"
      using err ok(8) sort sp(1) start d2 d3 cnt last sv(2) by (simp add: upvec_compact_def vc_def)
    ultimately show ?thesis using start by simp
  next
    case real
    then have cnt: "cnt + int vc = int (vc * length D)" using sp(2) d2 by simp
    have all: "deliver h (compact_calls pv) x err = deliver h B x3 err3" unfolding calls using d3 real by (simp add: deliver_append_ok [OF err] d2)
    have "compact_inv S (pv_columns pv) 0 (concat S)" using concat_uniform(1) [OF sv(1)] by (simp add: compact_inv_def vectors_def)
    from compact_loop_correct [OF n sv(1) c(1) real(2) this, folded vc_def, OF zero, of h x3, folded B_def] obtain m cnt' j where
      cl: "compact_loop h (pv_columns pv) (concat S) 0 (length S) (- int vc) x3 err3 = (m, cnt', deliver h B x3 err3)"
        "\<not> U_FAILURE (snd (deliver h B x3 err3)) \<longrightarrow> j = length S \<and> cnt' = int (vc * length (vectors S (length S))) - int vc" "compact_inv S (pv_columns pv) j m" by blast
    obtain x4 err4 where d4: "deliver h B x3 err3 = (x4, err4)" by fastforce
    let ?pv3 = "pv\<lparr>pv_isCompacted := True, pv_v := rows_of (pv_columns pv) (length S) m @ rest\<rparr>"
    have run: "upvec_compact malloc pv (Some h) x err = Some (if U_FAILURE err4 then ?pv3 else ?pv3\<lparr>pv_rows := nat (cnt' div int vc + 1)\<rparr>, x4, err4)"
      using err ok(8) sort sp(1) real d2 d3 d4 cnt last cl(1) sv(2) by (simp add: upvec_compact_def vc_def Let_def)
    have "D \<noteq> []" using sv(3) sv(4) by (auto simp: vectors_def)
    then show ?thesis using run all d4 cl(2,3) compacted_array [OF _ sv(4) _ c(1), where m = m and pv = pv and tail = rest, folded vc_def] sv(4) c(2)
      by (cases "U_FAILURE err4") (auto simp: D_def, simp add: vc_def)
  qed
qed

text \<open>The clone of such an array is exactly the distinct vectors.\<close>

lemma clone_correct:
  assumes "upvec_getArray pv = Some (concat D @ rest, length D, vc)" "\<forall>d\<in>set D. length d = vc"
    and "length D * vc * 4 < 2 ^ 31" "malloc (length D * vc * 4)" "\<not> U_FAILURE err"
  shows "upvec_cloneArray malloc pv err = Some (Some (concat D, length D, vc), err)"
  using assms concat_uniform(1) [OF assms(2)]
  by (auto simp: upvec_cloneArray_def upvec_getArray_def row_bytes_def split: if_splits)

end
