(* ===== verification/Bignum.thy ===== *)
theory Bignum
  imports Prelude "HOL-Library.Monad_Syntax"
begin

text \<open>
  \<open>Source/WTF/wtf/dtoa/bignum.cc\<close>: the fixed-capacity big integers behind number parsing and
  printing. A number is an array of 128 chunks that hold 28-bit digits ("bigits"), the count of
  digits in use and an exponent that stands for that many low zero digits. The model keeps chunks
  and double chunks at 32 and 64 bits; lengths, positions and exponents are natural numbers.

  \<open>EnsureCapacity\<close> aborts the program when the capacity is exceeded, and an access outside the
  array has no meaning: both are \<open>None\<close>, as is a loop that does not end. The checks of \<open>ASSERT\<close> are
  compiled out of the program and are not part of the model.
\<close>

section \<open>Data\<close>

type_synonym Chunk = "32 word"
type_synonym DoubleChunk = "64 word"

abbreviation (input) kBigitSize :: nat where "kBigitSize \<equiv> 28"
abbreviation (input) kBigitCapacity :: nat where "kBigitCapacity \<equiv> 128"
abbreviation (input) kBigitMask :: "'a :: len word" where "kBigitMask \<equiv> 0xFFFFFFF"

record Bignum =
  bigits :: "Chunk list"
  used_digits :: nat
  exponent :: nat

definition Bignum_new :: Bignum where
  "Bignum_new = \<lparr>bigits = replicate kBigitCapacity 0, used_digits = 0, exponent = 0\<rparr>"

definition EnsureCapacity :: "nat \<Rightarrow> unit option" where
  "EnsureCapacity n = (if n > kBigitCapacity then None else Some ())"

definition BigitLength :: "Bignum \<Rightarrow> nat" where
  "BigitLength b = used_digits b + exponent b"

definition bget :: "'a list \<Rightarrow> nat \<Rightarrow> 'a option" where
  "bget xs i = (if i < length xs then Some (xs ! i) else None)"

definition bput :: "'a list \<Rightarrow> nat \<Rightarrow> 'a \<Rightarrow> 'a list option" where
  "bput xs i v = (if i < length xs then Some (xs[i := v]) else None)"

lemma unat_drop_bit_div: "unat (drop_bit n w) = unat w div 2 ^ n" for w :: "'a :: len word"
  by (simp only: unat_drop_bit_eq) (simp only: drop_bit_eq_div)

lemma unat_and_bigit: "unat (w AND kBigitMask) = unat w mod 2 ^ 28" for w :: "'a :: len word"
proof -
  have "kBigitMask = (mask 28 :: 'a word)" by (simp add: mask_eq_exp_minus_1)
  then show ?thesis by (simp only: take_bit_eq_mask [symmetric] unsigned_take_bit_eq) (simp only: take_bit_eq_mod)
qed

lemma unat_drop_bit_less: "w \<noteq> 0 \<Longrightarrow> unat (drop_bit 28 w) < unat w" for w :: "'a :: len word"
  unfolding unat_drop_bit_div by (rule div_less_dividend) (simp_all add: unat_gt_0)

section \<open>Zero, clamping, assignment\<close>

fun zero_range :: "Chunk list \<Rightarrow> nat \<Rightarrow> nat \<Rightarrow> Chunk list option" where
  "zero_range xs i 0 = Some xs"
| "zero_range xs i (Suc n) = do { xs' \<leftarrow> bput xs i 0; zero_range xs' (i + 1) n }"

definition Zero :: "Bignum \<Rightarrow> Bignum option" where
  "Zero b = do { xs \<leftarrow> zero_range (bigits b) 0 (used_digits b);
                 Some \<lparr>bigits = xs, used_digits = 0, exponent = 0\<rparr> }"

fun clamp_loop :: "Chunk list \<Rightarrow> nat \<Rightarrow> nat option" where
  "clamp_loop xs 0 = Some 0"
| "clamp_loop xs (Suc n) = do { d \<leftarrow> bget xs n; if d = 0 then clamp_loop xs n else Some (Suc n) }"

definition Clamp :: "Bignum \<Rightarrow> Bignum option" where
  "Clamp b = do { n \<leftarrow> clamp_loop (bigits b) (used_digits b);
                  Some (b\<lparr>used_digits := n, exponent := (if n = 0 then 0 else exponent b)\<rparr>) }"

definition IsClamped :: "Bignum \<Rightarrow> bool" where
  "IsClamped b \<longleftrightarrow> used_digits b = 0 \<or> bget (bigits b) (used_digits b - 1) \<noteq> Some 0"

definition AssignUInt16 :: "Bignum \<Rightarrow> 16 word \<Rightarrow> Bignum option" where
  "AssignUInt16 b value =
     do { b \<leftarrow> Zero b;
          if value = 0 then Some b
          else do { EnsureCapacity 1; xs \<leftarrow> bput (bigits b) 0 (ucast value);
                    Some (b\<lparr>bigits := xs, used_digits := 1\<rparr>) } }"

fun uint64_loop :: "Chunk list \<Rightarrow> 64 word \<Rightarrow> nat \<Rightarrow> nat \<Rightarrow> Chunk list option" where
  "uint64_loop xs value i 0 = Some xs"
| "uint64_loop xs value i (Suc n) =
     do { xs' \<leftarrow> bput xs i (ucast (value AND kBigitMask));
          uint64_loop xs' (drop_bit kBigitSize value) (i + 1) n }"

definition AssignUInt64 :: "Bignum \<Rightarrow> 64 word \<Rightarrow> Bignum option" where
  "AssignUInt64 b value =
     do { b \<leftarrow> Zero b;
          if value = 0 then Some b
          else do { let needed_bigits = 64 div kBigitSize + 1;
                    EnsureCapacity needed_bigits;
                    xs \<leftarrow> uint64_loop (bigits b) value 0 needed_bigits;
                    Clamp (b\<lparr>bigits := xs, used_digits := needed_bigits\<rparr>) } }"

fun copy_loop :: "Chunk list \<Rightarrow> Chunk list \<Rightarrow> nat \<Rightarrow> nat \<Rightarrow> Chunk list option" where
  "copy_loop xs ys i 0 = Some xs"
| "copy_loop xs ys i (Suc n) = do { v \<leftarrow> bget ys i; xs' \<leftarrow> bput xs i v; copy_loop xs' ys (i + 1) n }"

definition AssignBignum :: "Bignum \<Rightarrow> Bignum \<Rightarrow> Bignum option" where
  "AssignBignum b other =
     do { xs \<leftarrow> copy_loop (bigits b) (bigits other) 0 (used_digits other);
          xs' \<leftarrow> zero_range xs (used_digits other) (used_digits b - used_digits other);
          Some \<lparr>bigits = xs', used_digits = used_digits other, exponent = exponent other\<rparr> }"

section \<open>Addition, subtraction, shifts\<close>

fun move_up :: "Chunk list \<Rightarrow> nat \<Rightarrow> nat \<Rightarrow> Chunk list option" where
  "move_up xs z 0 = Some xs"
| "move_up xs z (Suc i) = do { v \<leftarrow> bget xs i; xs' \<leftarrow> bput xs (i + z) v; move_up xs' z i }"

definition Align :: "Bignum \<Rightarrow> Bignum \<Rightarrow> Bignum option" where
  "Align b other =
     (if exponent b > exponent other then
        do { let zero_digits = exponent b - exponent other;
             EnsureCapacity (used_digits b + zero_digits);
             xs \<leftarrow> move_up (bigits b) zero_digits (used_digits b);
             xs' \<leftarrow> zero_range xs 0 zero_digits;
             Some \<lparr>bigits = xs', used_digits = used_digits b + zero_digits, exponent = exponent b - zero_digits\<rparr> }
      else Some b)"

fun add_loop :: "Chunk list \<Rightarrow> Chunk list \<Rightarrow> nat \<Rightarrow> nat \<Rightarrow> nat \<Rightarrow> Chunk \<Rightarrow> (Chunk list \<times> nat \<times> Chunk) option" where
  "add_loop xs ys i 0 bigit_pos carry = Some (xs, bigit_pos, carry)"
| "add_loop xs ys i (Suc n) bigit_pos carry =
     do { x \<leftarrow> bget xs bigit_pos; y \<leftarrow> bget ys i;
          let sum = x + y + carry;
          xs' \<leftarrow> bput xs bigit_pos (sum AND kBigitMask);
          add_loop xs' ys (i + 1) n (bigit_pos + 1) (drop_bit kBigitSize sum) }"

text \<open>The loop that carries on: it ends, or runs off the array.\<close>

function carry_loop :: "Chunk list \<Rightarrow> nat \<Rightarrow> Chunk \<Rightarrow> (Chunk list \<times> nat) option" where
  "carry_loop xs bigit_pos carry =
     (if carry = 0 then Some (xs, bigit_pos)
      else if bigit_pos < length xs then
        let sum = xs ! bigit_pos + carry
        in carry_loop (xs[bigit_pos := sum AND kBigitMask]) (bigit_pos + 1) (drop_bit kBigitSize sum)
      else None)"
  by pat_completeness auto
termination by (relation "measure (\<lambda>(xs, bigit_pos, carry). length xs - bigit_pos)") auto

definition AddBignum :: "Bignum \<Rightarrow> Bignum \<Rightarrow> Bignum option" where
  "AddBignum b0 other =
     do { b \<leftarrow> Align b0 other;
          EnsureCapacity (1 + max (BigitLength b) (BigitLength other) - exponent b);
          (xs, pos, carry) \<leftarrow> add_loop (bigits b) (bigits other) 0 (used_digits other) (exponent other - exponent b) 0;
          (xs', pos') \<leftarrow> carry_loop xs pos carry;
          Some (b\<lparr>bigits := xs', used_digits := max pos' (used_digits b)\<rparr>) }"

definition AddUInt64 :: "Bignum \<Rightarrow> 64 word \<Rightarrow> Bignum option" where
  "AddUInt64 b operand =
     (if operand = 0 then Some b
      else do { other \<leftarrow> AssignUInt64 Bignum_new operand; AddBignum b other })"

fun sub_loop :: "Chunk list \<Rightarrow> Chunk list \<Rightarrow> nat \<Rightarrow> nat \<Rightarrow> nat \<Rightarrow> Chunk \<Rightarrow> (Chunk list \<times> Chunk) option" where
  "sub_loop xs ys i 0 offset borrow = Some (xs, borrow)"
| "sub_loop xs ys i (Suc n) offset borrow =
     do { x \<leftarrow> bget xs (i + offset); y \<leftarrow> bget ys i;
          let difference = x - y - borrow;
          xs' \<leftarrow> bput xs (i + offset) (difference AND kBigitMask);
          sub_loop xs' ys (i + 1) n offset (drop_bit 31 difference) }"

function borrow_loop :: "Chunk list \<Rightarrow> nat \<Rightarrow> Chunk \<Rightarrow> Chunk list option" where
  "borrow_loop xs pos borrow =
     (if borrow = 0 then Some xs
      else if pos < length xs then
        let difference = xs ! pos - borrow
        in borrow_loop (xs[pos := difference AND kBigitMask]) (pos + 1) (drop_bit 31 difference)
      else None)"
  by pat_completeness auto
termination by (relation "measure (\<lambda>(xs, pos, borrow). length xs - pos)") auto

declare carry_loop.simps [simp del] borrow_loop.simps [simp del]

definition SubtractBignum :: "Bignum \<Rightarrow> Bignum \<Rightarrow> Bignum option" where
  "SubtractBignum b0 other =
     do { b \<leftarrow> Align b0 other;
          let offset = exponent other - exponent b;
          (xs, borrow) \<leftarrow> sub_loop (bigits b) (bigits other) 0 (used_digits other) offset 0;
          xs' \<leftarrow> borrow_loop xs (used_digits other + offset) borrow;
          Clamp (b\<lparr>bigits := xs'\<rparr>) }"

fun shift_loop :: "Chunk list \<Rightarrow> nat \<Rightarrow> nat \<Rightarrow> nat \<Rightarrow> Chunk \<Rightarrow> (Chunk list \<times> Chunk) option" where
  "shift_loop xs shift_amount i 0 carry = Some (xs, carry)"
| "shift_loop xs shift_amount i (Suc n) carry =
     do { x \<leftarrow> bget xs i;
          let new_carry = drop_bit (kBigitSize - shift_amount) x;
          xs' \<leftarrow> bput xs i ((push_bit shift_amount x + carry) AND kBigitMask);
          shift_loop xs' shift_amount (i + 1) n new_carry }"

definition BigitsShiftLeft :: "Bignum \<Rightarrow> nat \<Rightarrow> Bignum option" where
  "BigitsShiftLeft b shift_amount =
     do { (xs, carry) \<leftarrow> shift_loop (bigits b) shift_amount 0 (used_digits b) 0;
          if carry \<noteq> 0 then
            do { xs' \<leftarrow> bput xs (used_digits b) carry; Some (b\<lparr>bigits := xs', used_digits := used_digits b + 1\<rparr>) }
          else Some (b\<lparr>bigits := xs\<rparr>) }"

definition ShiftLeft :: "Bignum \<Rightarrow> nat \<Rightarrow> Bignum option" where
  "ShiftLeft b shift_amount =
     (if used_digits b = 0 then Some b
      else do { let b' = b\<lparr>exponent := exponent b + shift_amount div kBigitSize\<rparr>;
                EnsureCapacity (used_digits b' + 1);
                BigitsShiftLeft b' (shift_amount mod kBigitSize) })"

section \<open>Multiplication\<close>

fun mul32_loop :: "Chunk list \<Rightarrow> 32 word \<Rightarrow> nat \<Rightarrow> nat \<Rightarrow> DoubleChunk \<Rightarrow> (Chunk list \<times> DoubleChunk) option" where
  "mul32_loop xs factor i 0 carry = Some (xs, carry)"
| "mul32_loop xs factor i (Suc n) carry =
     do { x \<leftarrow> bget xs i;
          let product = ucast factor * ucast x + carry;
          xs' \<leftarrow> bput xs i (ucast (product AND kBigitMask));
          mul32_loop xs' factor (i + 1) n (drop_bit kBigitSize product) }"

text \<open>The loop that appends the digits of the last carry.\<close>

function append_carry :: "Bignum \<Rightarrow> DoubleChunk \<Rightarrow> Bignum option" where
  "append_carry b carry =
     (if carry = 0 then Some b
      else do { EnsureCapacity (used_digits b + 1);
                xs \<leftarrow> bput (bigits b) (used_digits b) (ucast (carry AND kBigitMask));
                append_carry (b\<lparr>bigits := xs, used_digits := used_digits b + 1\<rparr>) (drop_bit kBigitSize carry) })"
  by pat_completeness auto
termination
  by (relation "measure (\<lambda>(b, carry). unat carry)") (auto simp del: drop_bit_eq_div simp: unat_drop_bit_less)

declare append_carry.simps [simp del]

definition MultiplyByUInt32 :: "Bignum \<Rightarrow> 32 word \<Rightarrow> Bignum option" where
  "MultiplyByUInt32 b factor =
     (if factor = 1 then Some b
      else if factor = 0 then Zero b
      else if used_digits b = 0 then Some b
      else do { (xs, carry) \<leftarrow> mul32_loop (bigits b) factor 0 (used_digits b) 0;
                append_carry (b\<lparr>bigits := xs\<rparr>) carry })"

fun mul64_loop :: "Chunk list \<Rightarrow> 64 word \<Rightarrow> 64 word \<Rightarrow> nat \<Rightarrow> nat \<Rightarrow> 64 word \<Rightarrow> (Chunk list \<times> 64 word) option" where
  "mul64_loop xs low high i 0 carry = Some (xs, carry)"
| "mul64_loop xs low high i (Suc n) carry =
     do { x \<leftarrow> bget xs i;
          let product_low = low * ucast x;
          let product_high = high * ucast x;
          let tmp = (carry AND kBigitMask) + product_low;
          xs' \<leftarrow> bput xs i (ucast (tmp AND kBigitMask));
          mul64_loop xs' low high (i + 1) n
            (drop_bit kBigitSize carry + drop_bit kBigitSize tmp + push_bit (32 - kBigitSize) product_high) }"

definition MultiplyByUInt64 :: "Bignum \<Rightarrow> 64 word \<Rightarrow> Bignum option" where
  "MultiplyByUInt64 b factor =
     (if factor = 1 then Some b
      else if factor = 0 then Zero b
      else do { let low = factor AND 0xFFFFFFFF;
                let high = drop_bit 32 factor;
                (xs, carry) \<leftarrow> mul64_loop (bigits b) low high 0 (used_digits b) 0;
                append_carry (b\<lparr>bigits := xs\<rparr>) carry })"

fun five27_loop :: "Bignum \<Rightarrow> nat \<Rightarrow> (Bignum \<times> nat) option" where
  "five27_loop b remaining_exponent =
     (if remaining_exponent \<ge> 27
      then do { b' \<leftarrow> MultiplyByUInt64 b 0x6765c793fa10079d; five27_loop b' (remaining_exponent - 27) }
      else Some (b, remaining_exponent))"

fun five13_loop :: "Bignum \<Rightarrow> nat \<Rightarrow> (Bignum \<times> nat) option" where
  "five13_loop b remaining_exponent =
     (if remaining_exponent \<ge> 13
      then do { b' \<leftarrow> MultiplyByUInt32 b 1220703125; five13_loop b' (remaining_exponent - 13) }
      else Some (b, remaining_exponent))"

declare five27_loop.simps [simp del] five13_loop.simps [simp del]

definition kFive1_to_12 :: "32 word list" where
  "kFive1_to_12 = [5, 25, 125, 625, 3125, 15625, 78125, 390625, 1953125, 9765625, 48828125, 244140625]"

definition MultiplyByPowerOfTen :: "Bignum \<Rightarrow> nat \<Rightarrow> Bignum option" where
  "MultiplyByPowerOfTen b e =
     (if e = 0 then Some b
      else if used_digits b = 0 then Some b
      else do { (b1, r1) \<leftarrow> five27_loop b e;
                (b2, r2) \<leftarrow> five13_loop b1 r1;
                b3 \<leftarrow> (if r2 > 0 then MultiplyByUInt32 b2 (kFive1_to_12 ! (r2 - 1)) else Some b2);
                ShiftLeft b3 e })"

section \<open>The value of an array of digits\<close>

abbreviation (input) radix :: nat where "radix \<equiv> 268435456"

fun bval :: "Chunk list \<Rightarrow> nat" where
  "bval [] = 0"
| "bval (x # xs) = unat x + radix * bval xs"

definition digits_ok :: "Chunk list \<Rightarrow> bool" where
  "digits_ok xs \<longleftrightarrow> (\<forall>x\<in>set xs. unat x < radix)"

lemma bval_append: "bval (xs @ ys) = bval xs + radix ^ length xs * bval ys"
  by (induction xs) (simp_all add: algebra_simps)

lemma bval_zeros [simp]: "bval (replicate n 0) = 0"
  by (induction n) simp_all

lemma bval_update:
  "i < length xs \<Longrightarrow> bval (xs[i := v]) + unat (xs ! i) * radix ^ i = bval xs + unat v * radix ^ i"
proof (induction xs arbitrary: i)
  case (Cons x xs)
  then show ?case
  proof (cases i)
    case (Suc j)
    have "radix * (bval (xs[j := v]) + unat (xs ! j) * radix ^ j) = radix * (bval xs + unat v * radix ^ j)"
      using Cons.IH [of j] Cons.prems Suc by simp
    then show ?thesis by (simp add: Suc algebra_simps)
  qed simp
qed simp

lemma bval_less: "digits_ok xs \<Longrightarrow> bval xs < radix ^ length xs"
proof (induction xs)
  case (Cons x xs)
  then have "unat x < radix" "Suc (bval xs) \<le> radix ^ length xs" by (auto simp: digits_ok_def)
  then have "radix * Suc (bval xs) \<le> radix * radix ^ length xs" "unat x < radix" by simp_all
  then show ?case by simp
qed simp

lemma digits_okD: "digits_ok xs \<Longrightarrow> i < length xs \<Longrightarrow> unat (xs ! i) < radix"
  by (auto simp: digits_ok_def)

lemma digits_ok_update: "digits_ok xs \<Longrightarrow> unat v < radix \<Longrightarrow> digits_ok (xs[i := v])"
  unfolding digits_ok_def by (metis insertE set_update_subset_insert subsetD)

lemma digits_ok_simps [simp]:
  "digits_ok []" "digits_ok (x # xs) \<longleftrightarrow> unat x < radix \<and> digits_ok xs"
  "digits_ok (xs @ ys) \<longleftrightarrow> digits_ok xs \<and> digits_ok ys" "digits_ok (replicate n 0)"
  by (auto simp: digits_ok_def)

lemma digits_ok_take: "digits_ok xs \<Longrightarrow> digits_ok (take n xs)" "digits_ok xs \<Longrightarrow> digits_ok (drop n xs)"
  by (auto simp: digits_ok_def dest: in_set_takeD in_set_dropD)

text \<open>Rewriting one digit: what it does to the value, with a carry (or a borrow) \<open>q\<close> that goes to the next
  position. All digit loops below are instances.\<close>

lemma digit_step:
  fixes q t :: int
  assumes "i < length xs" "int (unat v) + int radix * q = int (unat (xs ! i)) + t"
  shows "int (bval (xs[i := v])) + int radix ^ Suc i * q = int (bval xs) + t * int radix ^ i"
proof -
  have "int (bval (xs[i := v])) + int (unat (xs ! i)) * int radix ^ i = int (bval xs) + int (unat v) * int radix ^ i"
    using arg_cong [OF bval_update [OF assms(1), of v], of int] by simp
  moreover have "(int (unat v) + int radix * q) * int radix ^ i = (int (unat (xs ! i)) + t) * int radix ^ i"
    by (simp only: assms(2))
  ultimately show ?thesis by (simp add: algebra_simps)
qed

lemma bval_take_Suc: "i < length ys \<Longrightarrow> bval (take (Suc n) (drop i ys)) = unat (ys ! i) + radix * bval (take n (drop (Suc i) ys))"
  by (simp flip: Cons_nth_drop_Suc)

lemmas arr_simps = bget_def bput_def

lemma zero_range_eq: "i + n \<le> length xs \<Longrightarrow> zero_range xs i n = Some (take i xs @ replicate n 0 @ drop (i + n) xs)"
proof (induction n arbitrary: xs i)
  case (Suc n)
  then have "zero_range (xs[i := 0]) (i + 1) n
      = Some (take (i + 1) (xs[i := 0]) @ replicate n 0 @ drop (i + 1 + n) (xs[i := 0]))"
    by simp
  moreover have "take (i + 1) (xs[i := 0]) = take i xs @ [0]" using Suc.prems by (simp add: take_Suc_conv_app_nth)
  ultimately show ?case using Suc.prems by (simp add: bput_def)
qed (simp add: append_take_drop_id)

lemma move_up_eq: "n + z \<le> length xs \<Longrightarrow> move_up xs z n = Some (memmove_items xs z 0 n)"
proof (induction n arbitrary: xs)
  case (Suc n)
  have "memmove_items (xs[n + z := xs ! n]) z 0 n = memmove_items xs z 0 (Suc n)"
    using Suc.prems by (intro nth_equalityI) (auto simp: nth_memmove_items nth_list_update)
  with Suc show ?case by (simp add: arr_simps)
qed (simp add: memmove_items_def)

section \<open>The invariant\<close>

text \<open>Chunks beyond the digits in use are zero: the loops rely on it when they carry into them.\<close>

definition bn_raw :: "Bignum \<Rightarrow> bool" where
  "bn_raw b \<longleftrightarrow> length (bigits b) = kBigitCapacity \<and> digits_ok (bigits b) \<and> used_digits b \<le> kBigitCapacity
     \<and> (\<forall>j<kBigitCapacity. used_digits b \<le> j \<longrightarrow> bigits b ! j = 0)"

definition bn_ok :: "Bignum \<Rightarrow> bool" where
  "bn_ok b \<longleftrightarrow> bn_raw b \<and> IsClamped b \<and> (used_digits b = 0 \<longrightarrow> exponent b = 0)"

definition bnval :: "Bignum \<Rightarrow> nat" where
  "bnval b = bval (bigits b) * radix ^ exponent b"

lemma bn_rawD:
  assumes "bn_raw b"
  shows "length (bigits b) = 128" "digits_ok (bigits b)" "used_digits b \<le> 128"
    "\<And>j. j < 128 \<Longrightarrow> used_digits b \<le> j \<Longrightarrow> bigits b ! j = 0"
  using assms by (auto simp: bn_raw_def)

lemma bn_okD:
  assumes "bn_ok b"
  shows "bn_raw b" "length (bigits b) = 128" "digits_ok (bigits b)" "used_digits b \<le> 128"
    "\<And>j. j < 128 \<Longrightarrow> used_digits b \<le> j \<Longrightarrow> bigits b ! j = 0"
    "used_digits b = 0 \<Longrightarrow> exponent b = 0"
    "0 < used_digits b \<Longrightarrow> bigits b ! (used_digits b - 1) \<noteq> 0"
  using assms by (auto simp: bn_ok_def bn_raw_def IsClamped_def arr_simps split: if_splits)

lemma bn_okI:
  assumes "length (bigits b) = 128" "digits_ok (bigits b)" "used_digits b \<le> 128"
    "\<And>j. j < 128 \<Longrightarrow> used_digits b \<le> j \<Longrightarrow> bigits b ! j = 0"
    "used_digits b = 0 \<Longrightarrow> exponent b = 0"
    "0 < used_digits b \<Longrightarrow> bigits b ! (used_digits b - 1) \<noteq> 0"
  shows "bn_ok b"
  using assms by (auto simp: bn_ok_def bn_raw_def IsClamped_def arr_simps)

lemma raw_split: "bn_raw b \<Longrightarrow> bigits b = take (used_digits b) (bigits b) @ replicate (128 - used_digits b) 0"
  by (rule nth_equalityI) (auto simp: bn_raw_def nth_append)

lemma raw_bval: "bn_raw b \<Longrightarrow> bval (bigits b) = bval (take (used_digits b) (bigits b))"
  by (subst raw_split) (simp_all add: bval_append)

lemma raw_less: "bn_raw b \<Longrightarrow> bval (bigits b) < radix ^ used_digits b"
  using bval_less [of "take (used_digits b) (bigits b)"]
  by (simp add: raw_bval digits_ok_take bn_rawD min_absorb2)

lemma bval_ge:
  assumes "i < length xs" "xs ! i \<noteq> 0"
  shows "radix ^ i \<le> bval xs"
proof -
  have "bval xs = bval (take i xs) + radix ^ i * (unat (xs ! i) + radix * bval (drop (Suc i) xs))"
    using assms(1) by (subst id_take_nth_drop [OF assms(1)]) (simp add: bval_append)
  moreover have "1 \<le> unat (xs ! i)" using assms(2) by (simp add: Suc_le_eq unat_gt_0)
  ultimately show ?thesis by (simp add: trans_le_add2)
qed

lemma ok_ge: "bn_ok b \<Longrightarrow> 0 < used_digits b \<Longrightarrow> radix ^ (used_digits b - 1) \<le> bval (bigits b)"
  using bn_okD(2,4,7) [of b] by (intro bval_ge) auto

lemma bnval_bounds:
  assumes "bn_ok b"
  shows "bnval b < radix ^ BigitLength b" "0 < used_digits b \<Longrightarrow> radix ^ (BigitLength b - 1) \<le> bnval b"
    "bnval b = 0 \<longleftrightarrow> used_digits b = 0"
proof -
  note r = raw_less [OF bn_okD(1) [OF assms]]
  show "bnval b < radix ^ BigitLength b" using r by (simp add: bnval_def BigitLength_def power_add)
  have ge: "radix ^ (BigitLength b - 1) \<le> bnval b" if "0 < used_digits b"
  proof -
    have "BigitLength b - 1 = (used_digits b - 1) + exponent b" using that by (simp add: BigitLength_def)
    then show ?thesis using ok_ge [OF assms that] by (simp add: bnval_def power_add)
  qed
  then show "0 < used_digits b \<Longrightarrow> radix ^ (BigitLength b - 1) \<le> bnval b" .
  show "bnval b = 0 \<longleftrightarrow> used_digits b = 0"
  proof
    assume "bnval b = 0"
    with ge show "used_digits b = 0" by fastforce
  next
    assume "used_digits b = 0"
    then show "bnval b = 0" using r by (simp add: bnval_def)
  qed
qed

lemma new_ok [simp]: "bn_ok Bignum_new" "bnval Bignum_new = 0"
  by (auto simp: Bignum_new_def bnval_def intro!: bn_okI)

section \<open>Zero, clamping, assignment and alignment\<close>

lemma Zero_correct: "bn_raw b \<Longrightarrow> Zero b = Some Bignum_new"
proof -
  assume b: "bn_raw b"
  have "replicate (used_digits b) 0 @ drop (used_digits b) (bigits b) = replicate 128 (0 :: Chunk)"
    by (subst raw_split [OF b]) (use bn_rawD [OF b] in \<open>simp add: min_absorb2 flip: replicate_add\<close>)
  with bn_rawD [OF b] show ?thesis by (simp add: Zero_def zero_range_eq Bignum_new_def)
qed

lemma clamp_loop_correct:
  "n \<le> length xs \<Longrightarrow> \<exists>m\<le>n. clamp_loop xs n = Some m \<and> (\<forall>j<n. m \<le> j \<longrightarrow> xs ! j = 0) \<and> (0 < m \<longrightarrow> xs ! (m - 1) \<noteq> 0)"
proof (induction n)
  case (Suc n)
  show ?case
  proof (cases "xs ! n = 0")
    case True
    from Suc obtain m where "m \<le> n" "clamp_loop xs n = Some m" "\<forall>j<n. m \<le> j \<longrightarrow> xs ! j = 0" "0 < m \<longrightarrow> xs ! (m - 1) \<noteq> 0"
      by auto
    with True Suc.prems show ?thesis by (intro exI [of _ m]) (auto simp: arr_simps less_Suc_eq)
  next
    case False
    with Suc.prems show ?thesis by (auto simp: arr_simps)
  qed
qed simp

lemma Clamp_correct:
  assumes "bn_raw b"
  shows "\<exists>c. Clamp b = Some c \<and> bn_ok c \<and> bnval c = bnval b \<and> bigits c = bigits b
           \<and> used_digits c \<le> used_digits b \<and> (0 < used_digits c \<longrightarrow> exponent c = exponent b)"
proof -
  note d = bn_rawD [OF assms]
  from clamp_loop_correct [of "used_digits b" "bigits b"] d obtain m where
    m: "m \<le> used_digits b" "clamp_loop (bigits b) (used_digits b) = Some m"
      "\<forall>j<used_digits b. m \<le> j \<longrightarrow> bigits b ! j = 0" "0 < m \<longrightarrow> bigits b ! (m - 1) \<noteq> 0"
    by auto
  define c where "c = b\<lparr>used_digits := m, exponent := (if m = 0 then 0 else exponent b)\<rparr>"
  have "bn_ok c" using d m by (intro bn_okI) (auto simp: c_def not_le dest: leI)
  moreover have "bnval c = bnval b"
  proof (cases "m = 0")
    case True
    then have "bigits b = replicate 128 0" using d m by (intro nth_equalityI) (auto simp: not_le dest: leI)
    then show ?thesis using bval_zeros [of 128] by (simp only: c_def bnval_def) simp
  qed (simp add: c_def bnval_def)
  ultimately show ?thesis using m by (intro exI [of _ c]) (auto simp: Clamp_def c_def)
qed

lemma Align_correct:
  assumes ok: "bn_ok b"
  shows "if exponent other < exponent b \<and> 128 < BigitLength b - exponent other then Align b other = None
     else \<exists>c. Align b other = Some c \<and> bn_ok c \<and> bnval c = bnval b \<and> exponent c = min (exponent b) (exponent other)
            \<and> BigitLength c = BigitLength b"
proof (cases "exponent other < exponent b")
  case True
  note d = bn_okD [OF ok]
  define z where "z = exponent b - exponent other"
  have z: "0 < z" "exponent b - z = exponent other" "BigitLength b - exponent other = used_digits b + z"
    using True by (auto simp: z_def BigitLength_def)
  have u: "0 < used_digits b" using d(6) True by (cases "used_digits b") auto
  show ?thesis
  proof (cases "128 < used_digits b + z")
    case False
    define xs where "xs = replicate z 0 @ take (used_digits b) (bigits b) @ drop (used_digits b + z) (bigits b)"
    define c where "c = \<lparr>bigits = xs, used_digits = used_digits b + z, exponent = exponent other\<rparr>"
    have "zero_range (memmove_items (bigits b) z 0 (used_digits b)) 0 z = Some xs"
      using False d(2) by (subst zero_range_eq) (auto simp: memmove_items_def xs_def add.commute)
    then have eq: "Align b other = Some c"
      using True False d(2) z by (simp add: Align_def z_def [symmetric] Let_def EnsureCapacity_def move_up_eq c_def)
    have zeros: "drop (used_digits b + z) (bigits b) = replicate (128 - (used_digits b + z)) 0"
      using d(2,5) False by (intro nth_equalityI) auto
    have "bn_ok c"
    proof (rule bn_okI)
      show "bigits c ! (used_digits c - 1) \<noteq> 0" using d(2,7) False u by (simp add: c_def xs_def nth_append)
      show "bigits c ! j = 0" if "j < 128" "used_digits c \<le> j" for j
        using that False d(2) by (auto simp: c_def xs_def zeros nth_append)
    qed (use d False u in \<open>auto simp: c_def xs_def zeros digits_ok_take\<close>)
    moreover have "bnval c = bnval b"
    proof -
      have "bval xs = radix ^ z * bval (take (used_digits b) (bigits b))" by (simp add: xs_def zeros bval_append)
      then have "bval xs = radix ^ z * bval (bigits b)" using raw_bval [OF d(1)] by simp
      moreover have "exponent b = z + exponent other" using True by (simp add: z_def)
      ultimately show ?thesis by (simp add: bnval_def c_def power_add)
    qed
    ultimately show ?thesis using eq True False z by (auto simp: c_def BigitLength_def)
  qed (use True z in \<open>simp add: Align_def z_def [symmetric] Let_def EnsureCapacity_def\<close>)
qed (use ok in \<open>auto simp: Align_def\<close>)

end
