(* ===== verification/BignumArith.thy ===== *)
theory BignumArith
  imports Bignum
begin

text \<open>
  The arithmetic of the big integers (\<open>bignum.cc\<close>): each digit loop is related to the value of the
  array, and from that addition, subtraction, shifts and the multiplications compute the sum,
  difference and products of the values, keep the invariant, and abort exactly when the capacity of
  128 digits does not suffice.
\<close>

section \<open>Digits\<close>

declare of_nat_unat [simp del]

lemma unat_add3:
  fixes x y c :: Chunk
  assumes "unat x < radix" "unat y < radix" "unat c < radix"
  shows "unat (x + y + c) = unat x + unat y + unat c"
  using assms by (simp add: unat_word_ariths)

lemma digit_split: "int (unat (w AND kBigitMask)) + int radix * int (unat (drop_bit kBigitSize w)) = int (unat w)"
  for w :: "'a :: len word"
proof -
  have "unat (w AND kBigitMask) + radix * unat (drop_bit kBigitSize w) = unat w"
    by (simp add: unat_and_bigit unat_drop_bit_div)
  then show ?thesis by (simp flip: of_nat_mult of_nat_add)
qed

lemma and_bigit_less [simp]: "unat (w AND kBigitMask) < radix" for w :: "'a :: len word"
  by (simp add: unat_and_bigit)

lemma ucast_and_bigit [simp]: "unat (ucast (w AND kBigitMask) :: 32 word) = unat (w AND kBigitMask)" for w :: "64 word"
proof -
  have "unat (w AND kBigitMask) < 2 ^ 32" by (rule less_trans [OF and_bigit_less]) simp
  then show ?thesis by (simp add: unsigned_ucast_eq take_bit_nat_eq_self)
qed

lemma sub_digit:
  fixes x y b :: Chunk
  assumes "unat x < radix" "unat y + unat b \<le> radix"
  defines "d \<equiv> x - y - b"
  shows "int (unat (d AND kBigitMask)) - int radix * int (unat (drop_bit 31 d)) = int (unat x) - int (unat y) - int (unat b)"
    and "unat (drop_bit 31 d) \<le> 1"
proof -
  define t where "t = int (unat x) - int (unat y) - int (unat b)"
  have t: "- int radix \<le> t" "t < int radix" using assms(1,2) by (auto simp: t_def)
  have u: "int (unat d) = t mod 2 ^ 32"
    by (simp add: of_nat_unat d_def t_def uint_word_ariths mod_simps)
  have "int (unat d) = (if t < 0 then t + 2 ^ 32 else t)"
  proof (cases "t < 0")
    case True
    have "t mod 2 ^ 32 = (t + 2 ^ 32) mod 2 ^ 32" by simp
    also have "\<dots> = t + 2 ^ 32" using True t by (intro mod_pos_pos_trivial) auto
    finally show ?thesis using True u by simp
  next
    case False
    then show ?thesis unfolding u using t by (simp add: mod_pos_pos_trivial)
  qed
  then have d: "unat d = (if t < 0 then nat (t + 2 ^ 32) else nat t)" by (simp split: if_splits)
  have q: "unat (drop_bit 31 d) = (if t < 0 then 1 else 0)"
    unfolding unat_drop_bit_div d using t by (auto simp: nat_eq_iff intro!: div_nat_eqI)
  show "unat (drop_bit 31 d) \<le> 1" unfolding q by simp
  have "int (unat d mod radix) = (if t < 0 then t + int radix else t)"
  proof (cases "t < 0")
    case True
    then have "int (unat d) = (t + int radix) + int radix * 15" using d t by simp
    then have "int (unat d mod radix) = ((t + int radix) + int radix * 15) mod int radix" by (simp only: zmod_int)
    also have "\<dots> = (t + int radix) mod int radix" by (rule mod_mult_self2)
    also have "\<dots> = t + int radix" using True t by (intro mod_pos_pos_trivial) auto
    finally show ?thesis using True by simp
  qed (use d t in simp)
  then show "int (unat (d AND kBigitMask)) - int radix * int (unat (drop_bit 31 d)) = int (unat x) - int (unat y) - int (unat b)"
    unfolding q unat_and_bigit by (simp add: t_def split: if_splits)
qed

text \<open>An array that agrees with another from a position on.\<close>

definition same_from :: "nat \<Rightarrow> Chunk list \<Rightarrow> Chunk list \<Rightarrow> bool" where
  "same_from k xs ys \<longleftrightarrow> length ys = length xs \<and> (\<forall>j<length xs. k \<le> j \<longrightarrow> ys ! j = xs ! j)"

lemma same_from_refl [simp]: "same_from k xs xs"
  by (simp add: same_from_def)

lemma same_from_step: "same_from (Suc i + n) (xs[i := v]) ys \<Longrightarrow> same_from (i + Suc n) xs ys"
  by (auto simp: same_from_def)

section \<open>Addition\<close>

lemma add_loop_correct:
  "digits_ok xs \<Longrightarrow> digits_ok ys \<Longrightarrow> pos + n \<le> length xs \<Longrightarrow> i + n \<le> length ys \<Longrightarrow> unat carry \<le> 1 \<Longrightarrow>
     \<exists>xs' carry'. add_loop xs ys i n pos carry = Some (xs', pos + n, carry') \<and> digits_ok xs' \<and> unat carry' \<le> 1
       \<and> same_from (pos + n) xs xs'
       \<and> int (bval xs') + int radix ^ (pos + n) * int (unat carry')
           = int (bval xs) + int radix ^ pos * (int (bval (take n (drop i ys))) + int (unat carry))"
proof (induction n arbitrary: xs i pos carry)
  case (Suc n)
  define w where "w = xs ! pos + ys ! i + carry"
  have x: "pos < length xs" "unat (xs ! pos) < radix" and y: "i < length ys" "unat (ys ! i) < radix"
    using Suc.prems by (auto intro: digits_okD)
  have w: "unat w = unat (xs ! pos) + unat (ys ! i) + unat carry"
    unfolding w_def using x y Suc.prems(5) by (intro unat_add3) auto
  have c: "unat (drop_bit kBigitSize w) \<le> 1"
    unfolding unat_drop_bit_div w using x(2) y(2) Suc.prems(5) by (simp add: less_Suc_eq_le [symmetric] div_less_iff_less_mult)
  let ?xs = "xs[pos := w AND kBigitMask]"
  from Suc.IH [of ?xs "pos + 1" "i + 1" "drop_bit kBigitSize w"] Suc.prems c
  obtain xs' carry' where r: "add_loop ?xs ys (i + 1) n (pos + 1) (drop_bit kBigitSize w) = Some (xs', pos + 1 + n, carry')"
      "digits_ok xs'" "unat carry' \<le> 1" "same_from (pos + 1 + n) ?xs xs'"
      "int (bval xs') + int radix ^ (pos + 1 + n) * int (unat carry')
        = int (bval ?xs) + int radix ^ (pos + 1) * (int (bval (take n (drop (i + 1) ys))) + int (unat (drop_bit kBigitSize w)))"
    by (auto simp: digits_ok_update)
  have "int (bval ?xs) + int radix ^ Suc pos * int (unat (drop_bit kBigitSize w))
      = int (bval xs) + (int (unat (ys ! i)) + int (unat carry)) * int radix ^ pos"
    using digit_split [of w] w by (intro digit_step [OF x(1)]) simp
  moreover have "int (bval (take (Suc n) (drop i ys))) = int (unat (ys ! i)) + int radix * int (bval (take n (drop (Suc i) ys)))"
    using bval_take_Suc [OF y(1)] by simp
  ultimately have "int (bval xs') + int radix ^ (pos + Suc n) * int (unat carry')
      = int (bval xs) + int radix ^ pos * (int (bval (take (Suc n) (drop i ys))) + int (unat carry))"
    using r(5) by (simp add: algebra_simps)
  moreover have "same_from (pos + Suc n) xs xs'" using r(4) same_from_step [of pos n] by simp
  ultimately show ?case using x(1) y(1) r(1-3) by (simp add: arr_simps w_def [symmetric])
qed simp

lemma carry_loop_correct:
  "digits_ok xs \<Longrightarrow> unat carry \<le> 1 \<Longrightarrow> pos \<le> length xs \<Longrightarrow> bval xs + radix ^ pos * unat carry < radix ^ length xs \<Longrightarrow>
     \<exists>xs' pos'. carry_loop xs pos carry = Some (xs', pos') \<and> digits_ok xs' \<and> bval xs' = bval xs + radix ^ pos * unat carry
       \<and> pos \<le> pos' \<and> pos' \<le> length xs \<and> same_from pos' xs xs' \<and> (carry = 0 \<longrightarrow> pos' = pos \<and> xs' = xs)
       \<and> (carry \<noteq> 0 \<longrightarrow> pos < pos' \<and> xs' ! (pos' - 1) \<noteq> 0)"
proof (induction xs pos carry rule: carry_loop.induct)
  case (1 xs pos carry)
  show ?case
  proof (cases "carry = 0")
    case True
    with "1.prems" show ?thesis by (simp add: carry_loop.simps [of xs pos])
  next
    case False
    then have one: "1 \<le> unat carry" by (simp add: Suc_le_eq unat_gt_0)
    have "radix ^ pos * 1 \<le> radix ^ pos * unat carry" using one by (intro mult_le_mono) auto
    then have "radix ^ pos < radix ^ length xs" using "1.prems"(4) by linarith
    then have pos: "pos < length xs" by simp
    define w where "w = xs ! pos + carry"
    let ?xs = "xs[pos := w AND kBigitMask]"
    have x: "unat (xs ! pos) < radix" using "1.prems"(1) pos by (rule digits_okD)
    have w: "unat w = unat (xs ! pos) + unat carry" using x "1.prems"(2) by (simp add: w_def unat_word_ariths)
    have c: "unat (drop_bit kBigitSize w) \<le> 1"
      unfolding unat_drop_bit_div w using x "1.prems"(2) by (simp add: less_Suc_eq_le [symmetric] div_less_iff_less_mult)
    have "int (bval ?xs) + int radix ^ Suc pos * int (unat (drop_bit kBigitSize w))
        = int (bval xs) + int (unat carry) * int radix ^ pos"
      using digit_split [of w] w by (intro digit_step [OF pos]) simp
    then have "int (bval ?xs + radix ^ (pos + 1) * unat (drop_bit kBigitSize w)) = int (bval xs + radix ^ pos * unat carry)"
      by (simp add: algebra_simps)
    then have v: "bval ?xs + radix ^ (pos + 1) * unat (drop_bit kBigitSize w) = bval xs + radix ^ pos * unat carry"
      by (simp only: of_nat_eq_iff)
    have "bval ?xs + radix ^ (pos + 1) * unat (drop_bit kBigitSize w) < radix ^ length ?xs"
      unfolding v using "1.prems"(4) by simp
    from "1.IH" [OF False pos w_def _ c _ this] "1.prems" pos obtain xs' pos' where
      r: "carry_loop ?xs (pos + 1) (drop_bit kBigitSize w) = Some (xs', pos')" "digits_ok xs'"
        "bval xs' = bval ?xs + radix ^ (pos + 1) * unat (drop_bit kBigitSize w)" "pos + 1 \<le> pos'" "pos' \<le> length xs"
        "same_from pos' ?xs xs'" "drop_bit kBigitSize w = 0 \<longrightarrow> pos' = pos + 1 \<and> xs' = ?xs"
        "drop_bit kBigitSize w \<noteq> 0 \<longrightarrow> xs' ! (pos' - 1) \<noteq> 0"
      by (auto simp: digits_ok_update)
    have top: "xs' ! (pos' - 1) \<noteq> 0"
    proof (cases "drop_bit kBigitSize w = 0")
      case True
      then have "int (unat (w AND kBigitMask)) = int (unat w)" using digit_split [of w] by simp
      then have "w AND kBigitMask \<noteq> 0" using w one by auto
      with True r(7) pos show ?thesis by simp
    qed (use r(8) in simp)
    have "same_from pos' xs xs'" using r(4,6) by (auto simp: same_from_def)
    with r v top False pos show ?thesis
      by (intro exI [of _ xs'] exI [of _ pos']) (simp add: carry_loop.simps [of xs pos] w_def [symmetric] Let_def)
  qed
qed

lemma ok_by_value:
  assumes "bn_raw c" "used_digits c = 0 \<Longrightarrow> exponent c = 0"
    "0 < used_digits c \<Longrightarrow> radix ^ (used_digits c - 1) \<le> bval (bigits c)"
  shows "bn_ok c"
proof (rule bn_okI)
  note d = bn_rawD [OF assms(1)]
  assume u: "0 < used_digits c"
  show "bigits c ! (used_digits c - 1) \<noteq> 0"
  proof
    assume 0: "bigits c ! (used_digits c - 1) = 0"
    have "bn_raw (c\<lparr>used_digits := used_digits c - 1\<rparr>)"
      using d 0 by (auto simp: bn_raw_def) (metis Suc_pred leI le_less_Suc_eq u)
    from raw_less [OF this] assms(3) [OF u] show False by simp
  qed
qed (use bn_rawD [OF assms(1)] assms(2) in auto)

lemma rawI:
  "length (bigits b) = 128 \<Longrightarrow> digits_ok (bigits b) \<Longrightarrow> used_digits b \<le> 128 \<Longrightarrow>
     (\<And>j. j < 128 \<Longrightarrow> used_digits b \<le> j \<Longrightarrow> bigits b ! j = 0) \<Longrightarrow> bn_raw b"
  by (auto simp: bn_raw_def)

lemma add_aligned:
  assumes ok: "bn_ok a" "bn_ok b" and e: "exponent a \<le> exponent b"
    and cap: "1 + max (BigitLength a) (BigitLength b) - exponent a \<le> 128"
  shows "\<exists>c. do { (xs, pos, carry) \<leftarrow> add_loop (bigits a) (bigits b) 0 (used_digits b) (exponent b - exponent a) 0;
                 (xs', pos') \<leftarrow> carry_loop xs pos carry;
                 Some (a\<lparr>bigits := xs', used_digits := max pos' (used_digits a)\<rparr>) } = Some c
           \<and> bn_ok c \<and> bnval c = bnval a + bnval b"
proof -
  note da = bn_okD [OF ok(1)] and db = bn_okD [OF ok(2)]
  define p0 where "p0 = exponent b - exponent a"
  define p where "p = p0 + used_digits b"
  have pe: "p + exponent a = BigitLength b" "used_digits a + exponent a = BigitLength a"
    using e by (auto simp: p_def p0_def BigitLength_def)
  then have p: "p \<le> 127" "used_digits a \<le> 127" using cap by auto
  from add_loop_correct [OF da(3) db(3), of p0 "used_digits b" 0 0] da(2) db(2,4) p
  obtain xs c1 where x: "add_loop (bigits a) (bigits b) 0 (used_digits b) p0 0 = Some (xs, p, c1)" "digits_ok xs"
      "unat c1 \<le> 1" "same_from p (bigits a) xs"
      "int (bval xs) + int radix ^ p * int (unat c1) = int (bval (bigits a)) + int radix ^ p0 * int (bval (bigits b))"
    by (auto simp: p_def raw_bval [OF db(1)])
  have "int (bval xs + radix ^ p * unat c1) = int (bval (bigits a) + radix ^ p0 * bval (bigits b))" using x(5) by simp
  then have v: "bval xs + radix ^ p * unat c1 = bval (bigits a) + radix ^ p0 * bval (bigits b)" by (simp only: of_nat_eq_iff)
  have "bval (bigits a) < radix ^ 127"
    using raw_less [OF da(1)] p(2) power_increasing [of "used_digits a" 127 radix] by linarith
  moreover have "radix ^ p0 * bval (bigits b) < radix ^ 127"
  proof -
    have "radix ^ p0 * bval (bigits b) < radix ^ p0 * radix ^ used_digits b" using raw_less [OF db(1)] by simp
    also have "\<dots> = radix ^ p" by (simp only: p_def power_add)
    also have "\<dots> \<le> radix ^ 127" using p(1) by (intro power_increasing) auto
    finally show ?thesis .
  qed
  ultimately have fit: "bval xs + radix ^ p * unat c1 < radix ^ length xs"
    using x(4) da(2) v by (simp add: same_from_def)
  from carry_loop_correct [OF x(2,3) _ fit] x(4) da(2) p obtain ys p' where
    y: "carry_loop xs p c1 = Some (ys, p')" "digits_ok ys" "bval ys = bval xs + radix ^ p * unat c1" "p \<le> p'"
      "p' \<le> 128" "same_from p' xs ys" "c1 = 0 \<longrightarrow> p' = p \<and> ys = xs" "c1 \<noteq> 0 \<longrightarrow> p < p' \<and> ys ! (p' - 1) \<noteq> 0"
    by (auto simp: same_from_def)
  define c where "c = a\<lparr>bigits := ys, used_digits := max p' (used_digits a)\<rparr>"
  have len: "length ys = 128" "length xs = 128" using x(4) y(6) da(2) by (auto simp: same_from_def)
  have raw: "bn_raw c"
  proof (rule rawI)
    show "bigits c ! j = 0" if "j < 128" "used_digits c \<le> j" for j
      using that x(4) y(4,6) da(2,5) len by (auto simp: c_def same_from_def)
  qed (use len y p in \<open>auto simp: c_def\<close>)
  have ge: "bval (bigits a) \<le> bval ys" "radix ^ p0 * bval (bigits b) \<le> bval ys" using y(3) v by auto
  have "bn_ok c"
  proof (rule ok_by_value [OF raw])
    show "exponent c = 0" if "used_digits c = 0" using that da(6) by (simp add: c_def)
    assume u: "0 < used_digits c"
    consider "max p' (used_digits a) = used_digits a" | "used_digits a < p'" "c1 \<noteq> 0" | "used_digits a < p'" "c1 = 0" by linarith
    then show "radix ^ (used_digits c - 1) \<le> bval (bigits c)"
    proof cases
      case 1
      then show ?thesis using ok_ge [OF ok(1)] ge(1) u by (simp add: c_def)
    next
      case 2
      then show ?thesis using bval_ge [of "p' - 1" ys] y(5,8) len by (simp add: c_def max_def)
    next
      case 3
      then have "0 < used_digits b" using y(7) db(6) by (cases "used_digits b") (auto simp: p_def p0_def)
      moreover from this have "p' - 1 = p0 + (used_digits b - 1)" using 3 y(7) by (simp add: p_def)
      moreover have "radix ^ (p0 + (used_digits b - 1)) \<le> radix ^ p0 * bval (bigits b)"
        using ok_ge [OF ok(2)] calculation(1) by (simp only: power_add mult_le_mono2)
      ultimately have "radix ^ (p' - 1) \<le> radix ^ p0 * bval (bigits b)" by (simp only:)
      with ge(2) 3 show ?thesis by (simp add: c_def max_def)
    qed
  qed
  moreover have "bnval c = bnval a + bnval b"
    using y(3) v e by (simp add: bnval_def c_def p0_def algebra_simps flip: power_add)
  ultimately show ?thesis using x(1) y(1) unfolding p0_def [symmetric] by (auto simp: c_def)
qed

definition add_need :: "Bignum \<Rightarrow> Bignum \<Rightarrow> nat" where
  "add_need a b = 1 + max (BigitLength a) (BigitLength b) - min (exponent a) (exponent b)"

lemma AddBignum_correct:
  assumes ok: "bn_ok a" "bn_ok b"
  shows "if add_need a b \<le> 128 then \<exists>c. AddBignum a b = Some c \<and> bn_ok c \<and> bnval c = bnval a + bnval b
         else AddBignum a b = None"
proof (cases "exponent b < exponent a \<and> 128 < BigitLength a - exponent b")
  case True
  then have "Align a b = None" using Align_correct [OF ok(1), of b] by simp
  then show ?thesis using True by (auto simp: AddBignum_def add_need_def)
next
  case False
  then obtain a' where a': "Align a b = Some a'" "bn_ok a'" "bnval a' = bnval a"
      "exponent a' = min (exponent a) (exponent b)" "BigitLength a' = BigitLength a"
    using Align_correct [OF ok(1), of b] by (auto split: if_splits)
  have need: "1 + max (BigitLength a') (BigitLength b) - exponent a' = add_need a b"
    by (simp add: add_need_def a'(4,5))
  show ?thesis
  proof (cases "add_need a b \<le> 128")
    case True
    with add_aligned [OF a'(2) ok(2)] need a'(1,3,4) show ?thesis
      unfolding AddBignum_def by (simp add: EnsureCapacity_def Let_def case_prod_beta)
  next
    case False
    then show ?thesis using a'(1) need by (simp add: AddBignum_def EnsureCapacity_def)
  qed
qed

section \<open>Subtraction\<close>

lemma sub_loop_correct:
  "digits_ok xs \<Longrightarrow> digits_ok ys \<Longrightarrow> i + off + n \<le> length xs \<Longrightarrow> i + n \<le> length ys \<Longrightarrow> unat borrow \<le> 1 \<Longrightarrow>
     \<exists>xs' borrow'. sub_loop xs ys i n off borrow = Some (xs', borrow') \<and> digits_ok xs' \<and> unat borrow' \<le> 1
       \<and> same_from (i + off + n) xs xs'
       \<and> int (bval xs') - int radix ^ (i + off + n) * int (unat borrow')
           = int (bval xs) - int radix ^ (i + off) * (int (bval (take n (drop i ys))) + int (unat borrow))"
proof (induction n arbitrary: xs i borrow)
  case (Suc n)
  let ?p = "i + off"
  define w where "w = xs ! ?p - ys ! i - borrow"
  let ?xs = "xs[?p := w AND kBigitMask]" let ?b = "drop_bit 31 w"
  have x: "?p < length xs" "unat (xs ! ?p) < radix" and y: "i < length ys" "unat (ys ! i) < radix"
    using Suc.prems by (auto intro: digits_okD)
  have yb: "unat (ys ! i) + unat borrow \<le> radix" using y(2) Suc.prems(5) by linarith
  note w = sub_digit [OF x(2) yb, folded w_def]
  from Suc.IH [of ?xs "i + 1" ?b] Suc.prems w(2)
  obtain xs' borrow' where r: "sub_loop ?xs ys (i + 1) n off ?b = Some (xs', borrow')"
      "digits_ok xs'" "unat borrow' \<le> 1" "same_from (i + 1 + off + n) ?xs xs'"
      "int (bval xs') - int radix ^ (i + 1 + off + n) * int (unat borrow')
        = int (bval ?xs) - int radix ^ (i + 1 + off) * (int (bval (take n (drop (i + 1) ys))) + int (unat ?b))"
    by (auto simp: digits_ok_update)
  have "int (bval ?xs) + int radix ^ Suc ?p * (- int (unat ?b))
      = int (bval xs) + (- int (unat (ys ! i)) - int (unat borrow)) * int radix ^ ?p"
    using w(1) by (intro digit_step [OF x(1)]) simp
  moreover have "int (bval (take (Suc n) (drop i ys))) = int (unat (ys ! i)) + int radix * int (bval (take n (drop (Suc i) ys)))"
    using bval_take_Suc [OF y(1)] by simp
  ultimately have "int (bval xs') - int radix ^ (?p + Suc n) * int (unat borrow')
      = int (bval xs) - int radix ^ ?p * (int (bval (take (Suc n) (drop i ys))) + int (unat borrow))"
    using r(5) by (simp add: algebra_simps)
  moreover have "same_from (?p + Suc n) xs xs'" using r(4) same_from_step [of ?p n] by simp
  ultimately show ?case using x(1) y(1) r(1-3) by (simp add: arr_simps w_def [symmetric])
qed simp

lemma borrow_loop_correct:
  "digits_ok xs \<Longrightarrow> unat borrow \<le> 1 \<Longrightarrow> pos \<le> length xs \<Longrightarrow> radix ^ pos * unat borrow \<le> bval xs \<Longrightarrow>
     \<exists>xs'. borrow_loop xs pos borrow = Some xs' \<and> digits_ok xs' \<and> length xs' = length xs
       \<and> bval xs' = bval xs - radix ^ pos * unat borrow"
proof (induction xs pos borrow rule: borrow_loop.induct)
  case (1 xs pos borrow)
  show ?case
  proof (cases "borrow = 0")
    case True
    with "1.prems" show ?thesis by (simp add: borrow_loop.simps [of xs pos])
  next
    case False
    then have "1 \<le> unat borrow" by (simp add: Suc_le_eq unat_gt_0)
    then have b1: "unat borrow = 1" using "1.prems"(2) by simp
    have "radix ^ pos < radix ^ length xs" using bval_less [OF "1.prems"(1)] "1.prems"(4) unfolding b1 by linarith
    then have pos: "pos < length xs" by simp
    define w where "w = xs ! pos - borrow"
    let ?xs = "xs[pos := w AND kBigitMask]" let ?b = "drop_bit 31 w"
    have x: "unat (xs ! pos) < radix" using "1.prems"(1) pos by (rule digits_okD)
    have w: "int (unat (w AND kBigitMask)) - int radix * int (unat ?b) = int (unat (xs ! pos)) - int (unat borrow)" "unat ?b \<le> 1"
      using sub_digit [OF x, of 0 borrow] "1.prems"(2) by (simp_all add: w_def)
    have "int (bval ?xs) + int radix ^ Suc pos * (- int (unat ?b)) = int (bval xs) + (- int (unat borrow)) * int radix ^ pos"
      using w(1) by (intro digit_step [OF pos]) simp
    then have "int (bval ?xs + radix ^ pos * unat borrow) = int (bval xs + radix ^ (pos + 1) * unat ?b)"
      by (simp add: algebra_simps)
    then have v: "bval ?xs + radix ^ pos * unat borrow = bval xs + radix ^ (pos + 1) * unat ?b" by (simp only: of_nat_eq_iff)
    then have "radix ^ (pos + 1) * unat ?b \<le> bval ?xs" using "1.prems"(4) by linarith
    from "1.IH" [OF False pos w_def _ w(2) _ this] "1.prems" pos obtain xs' where
      r: "borrow_loop ?xs (pos + 1) ?b = Some xs'" "digits_ok xs'" "length xs' = length xs"
        "bval xs' = bval ?xs - radix ^ (pos + 1) * unat ?b"
      by (auto simp: digits_ok_update)
    then show ?thesis using v False pos
      by (intro exI [of _ xs']) (simp add: borrow_loop.simps [of xs pos] w_def [symmetric] Let_def)
  qed
qed

lemma raw_by_value:
  assumes "length (bigits c) = 128" "digits_ok (bigits c)" "used_digits c \<le> 128" "bval (bigits c) < radix ^ used_digits c"
  shows "bn_raw c"
proof (rule rawI)
  fix j assume "j < 128" "used_digits c \<le> j"
  show "bigits c ! j = 0"
  proof (rule ccontr)
    assume "bigits c ! j \<noteq> 0"
    then have "radix ^ j \<le> bval (bigits c)" using bval_ge [of j "bigits c"] \<open>j < 128\<close> assms(1) by simp
    moreover have "radix ^ used_digits c \<le> radix ^ j" using \<open>used_digits c \<le> j\<close> by (intro power_increasing) auto
    ultimately show False using assms(4) by linarith
  qed
qed (use assms in auto)

lemma sub_aligned:
  assumes ok: "bn_ok a" "bn_ok b" and e: "exponent a \<le> exponent b" and le: "bnval b \<le> bnval a"
  shows "\<exists>c. do { (xs, borrow) \<leftarrow> sub_loop (bigits a) (bigits b) 0 (used_digits b) (exponent b - exponent a) 0;
                 xs' \<leftarrow> borrow_loop xs (used_digits b + (exponent b - exponent a)) borrow;
                 Clamp (a\<lparr>bigits := xs'\<rparr>) } = Some c
           \<and> bn_ok c \<and> bnval c = bnval a - bnval b \<and> BigitLength c \<le> BigitLength a
           \<and> (0 < used_digits c \<longrightarrow> exponent c = exponent a)"
proof -
  note da = bn_okD [OF ok(1)] and db = bn_okD [OF ok(2)]
  define p0 where "p0 = exponent b - exponent a"
  have "bval (bigits b) * radix ^ (p0 + exponent a) \<le> bval (bigits a) * radix ^ exponent a"
    using le e by (simp add: bnval_def p0_def)
  then have le': "radix ^ p0 * bval (bigits b) \<le> bval (bigits a)" by (simp add: power_add algebra_simps)
  have p: "p0 + used_digits b \<le> 128"
  proof (cases "used_digits b = 0")
    case False
    have "radix ^ (p0 + (used_digits b - 1)) \<le> radix ^ p0 * bval (bigits b)"
      using ok_ge [OF ok(2)] False by (simp only: power_add mult_le_mono2)
    also have "\<dots> < radix ^ 128" using le' bval_less [OF da(3)] da(2) by simp
    finally have "p0 + (used_digits b - 1) < 128" by (simp only: power_strict_increasing_iff)
    with False show ?thesis by simp
  qed (use db(6) in \<open>simp add: p0_def\<close>)
  from sub_loop_correct [OF da(3) db(3), of 0 p0 "used_digits b" 0] da(2) db(2,4) p
  obtain xs br where x: "sub_loop (bigits a) (bigits b) 0 (used_digits b) p0 0 = Some (xs, br)" "digits_ok xs"
      "unat br \<le> 1" "same_from (p0 + used_digits b) (bigits a) xs"
      "int (bval xs) - int radix ^ (p0 + used_digits b) * int (unat br)
         = int (bval (bigits a)) - int radix ^ p0 * int (bval (bigits b))"
    by (auto simp: raw_bval [OF db(1)])
  have "int (bval xs + radix ^ p0 * bval (bigits b)) = int (bval (bigits a) + radix ^ (p0 + used_digits b) * unat br)"
    using x(5) by (simp add: algebra_simps)
  then have v: "bval xs + radix ^ p0 * bval (bigits b) = bval (bigits a) + radix ^ (p0 + used_digits b) * unat br"
    by (simp only: of_nat_eq_iff)
  then have "radix ^ (p0 + used_digits b) * unat br \<le> bval xs" using le' by linarith
  from borrow_loop_correct [OF x(2,3) _ this] x(4) da(2) p obtain ys where
    y: "borrow_loop xs (p0 + used_digits b) br = Some ys" "digits_ok ys" "length ys = 128"
      "bval ys = bval xs - radix ^ (p0 + used_digits b) * unat br"
    by (auto simp: same_from_def)
  have vy: "bval ys = bval (bigits a) - radix ^ p0 * bval (bigits b)" using y(4) v le' by linarith
  have "bn_raw (a\<lparr>bigits := ys\<rparr>)"
    by (rule raw_by_value) (use y da vy raw_less [OF da(1)] in auto)
  from Clamp_correct [OF this] obtain c where c: "Clamp (a\<lparr>bigits := ys\<rparr>) = Some c" "bn_ok c"
      "bnval c = bnval (a\<lparr>bigits := ys\<rparr>)" "used_digits c \<le> used_digits a" "0 < used_digits c \<longrightarrow> exponent c = exponent a"
    by auto
  have "bnval c = bnval a - bnval b"
    unfolding c(3) using vy e by (simp add: bnval_def p0_def diff_mult_distrib flip: power_add) (simp add: algebra_simps flip: power_add)
  moreover have "BigitLength c \<le> BigitLength a"
    using c(4,5) bn_okD(6) [OF c(2)] by (cases "used_digits c = 0") (auto simp: BigitLength_def)
  ultimately show ?thesis using x(1) y(1) c unfolding p0_def [symmetric] by (auto simp: add.commute)
qed

lemma SubtractBignum_correct:
  assumes ok: "bn_ok a" "bn_ok b" and le: "bnval b \<le> bnval a"
  shows "if exponent b < exponent a \<and> 128 < BigitLength a - exponent b then SubtractBignum a b = None
         else \<exists>c. SubtractBignum a b = Some c \<and> bn_ok c \<and> bnval c = bnval a - bnval b \<and> BigitLength c \<le> BigitLength a
                \<and> (0 < used_digits c \<longrightarrow> exponent c = min (exponent a) (exponent b))"
proof (cases "exponent b < exponent a \<and> 128 < BigitLength a - exponent b")
  case True
  then have "Align a b = None" using Align_correct [OF ok(1), of b] by simp
  then show ?thesis using True by (auto simp: SubtractBignum_def)
next
  case False
  then obtain a' where a': "Align a b = Some a'" "bn_ok a'" "bnval a' = bnval a"
      "exponent a' = min (exponent a) (exponent b)" "BigitLength a' = BigitLength a"
    using Align_correct [OF ok(1), of b] by (auto split: if_splits)
  from sub_aligned [OF a'(2) ok(2)] a' le show ?thesis
    unfolding SubtractBignum_def if_not_P [OF False] by (simp add: Let_def case_prod_beta)
qed

end
