(* ===== verification/BignumMul.thy ===== *)
theory BignumMul
  imports BignumArith
begin

text \<open>
  Multiplication of the big integers by machine words and by powers of ten, shifts, and the
  assignment of a 64-bit value (\<open>bignum.cc\<close>).
\<close>

section \<open>Scaling loops\<close>

text \<open>The first value of the digits that does not fit.\<close>

definition bn_limit :: nat where "bn_limit = radix ^ 128"

lemma bn_limit_pos [simp]: "0 < bn_limit"
  by (simp add: bn_limit_def)

lemma unat32: "unat w < 2 ^ 32" for w :: "32 word"
proof -
  have "unat w < 2 ^ LENGTH(32)" by (rule unsigned_less)
  then show ?thesis by simp
qed

lemma unat64: "unat w < 2 ^ 64" for w :: "64 word"
proof -
  have "unat w < 2 ^ LENGTH(64)" by (rule unsigned_less)
  then show ?thesis by simp
qed

lemma bval_limit: "digits_ok xs \<Longrightarrow> length xs = 128 \<Longrightarrow> bval xs < bn_limit"
  using bval_less [of xs] by (simp add: bn_limit_def)

text \<open>One step of a loop that multiplies the digits by \<open>f\<close> and passes a carry on.\<close>

lemma scale_step:
  fixes f c q c' :: nat
  assumes i: "i < length xs" and v: "unat v + radix * q = f * unat (xs ! i) + c"
    and IH: "int (bval zs) + int radix ^ (Suc i + n) * int c'
       = int (bval (xs[i := v])) + int radix ^ Suc i * (int q + (int f - 1) * int (bval (take n (drop (Suc i) (xs[i := v])))))"
  shows "int (bval zs) + int radix ^ (i + Suc n) * int c'
       = int (bval xs) + int radix ^ i * (int c + (int f - 1) * int (bval (take (Suc n) (drop i xs))))"
proof -
  have "int (unat v + radix * q) = int (f * unat (xs ! i) + c)" by (simp only: v)
  then have "int (bval (xs[i := v])) + int radix ^ Suc i * int q
      = int (bval xs) + ((int f - 1) * int (unat (xs ! i)) + int c) * int radix ^ i"
    by (intro digit_step [OF i]) (simp add: algebra_simps)
  moreover have "int (bval (take (Suc n) (drop i xs))) = int (unat (xs ! i)) + int radix * int (bval (take n (drop (Suc i) (xs[i := v]))))"
    using bval_take_Suc [OF i] by simp
  ultimately show ?thesis using IH by (simp add: algebra_simps)
qed

lemma scale_total:
  assumes raw: "bn_raw b"
    and v: "int (bval xs') + int radix ^ (0 + used_digits b) * int c'
       = int (bval (bigits b)) + int radix ^ 0 * (int 0 + (int f - 1) * int (bval (take (used_digits b) (drop 0 (bigits b)))))"
  shows "bval xs' + radix ^ used_digits b * c' = f * bval (bigits b)"
proof -
  have "int (bval xs' + radix ^ used_digits b * c') = int (f * bval (bigits b))"
    using v by (simp add: raw_bval [OF raw, symmetric] algebra_simps)
  then show ?thesis by (simp only: of_nat_eq_iff)
qed

lemma mul32_loop_correct:
  "digits_ok xs \<Longrightarrow> i + n \<le> length xs \<Longrightarrow> unat carry < 2 ^ 32 \<Longrightarrow>
     \<exists>xs' carry'. mul32_loop xs factor i n carry = Some (xs', carry') \<and> digits_ok xs' \<and> same_from (i + n) xs xs'
       \<and> unat carry' < 2 ^ 32
       \<and> int (bval xs') + int radix ^ (i + n) * int (unat carry')
           = int (bval xs) + int radix ^ i * (int (unat carry) + (int (unat factor) - 1) * int (bval (take n (drop i xs))))"
proof (induction n arbitrary: xs i carry)
  case (Suc n)
  define w where "w = ucast factor * ucast (xs ! i) + carry"
  let ?v = "ucast (w AND kBigitMask) :: Chunk" let ?xs = "xs[i := ?v]" let ?c = "drop_bit kBigitSize w"
  have x: "i < length xs" "unat (xs ! i) < radix" using Suc.prems by (auto intro: digits_okD)
  have f: "unat factor \<le> 2 ^ 32 - 1" using unat32 [of factor] by simp
  have "unat factor * unat (xs ! i) \<le> (2 ^ 32 - 1) * (radix - 1)" using x(2) f by (intro mult_le_mono) auto
  then have b: "unat factor * unat (xs ! i) + unat carry < 2 ^ 60" using Suc.prems(3) by simp
  then have w: "unat w = unat factor * unat (xs ! i) + unat carry"
    by (simp add: w_def unat_word_ariths unsigned_ucast_eq take_bit_nat_eq_self less_trans [OF unat32])
  have c: "unat ?c < 2 ^ 32" unfolding unat_drop_bit_div w using b by (simp add: div_less_iff_less_mult)
  have v: "unat ?v + radix * unat ?c = unat factor * unat (xs ! i) + unat carry"
    unfolding w [symmetric] by (simp add: unat_and_bigit unat_drop_bit_div)
  have "digits_ok ?xs" "Suc i + n \<le> length ?xs" using Suc.prems by (auto intro: digits_ok_update)
  from Suc.IH [OF this c] obtain xs' carry' where
    r: "mul32_loop ?xs factor (Suc i) n ?c = Some (xs', carry')" "digits_ok xs'" "same_from (Suc i + n) ?xs xs'" "unat carry' < 2 ^ 32"
      "int (bval xs') + int radix ^ (Suc i + n) * int (unat carry')
         = int (bval ?xs) + int radix ^ Suc i * (int (unat ?c) + (int (unat factor) - 1) * int (bval (take n (drop (Suc i) ?xs))))"
    by blast
  have "same_from (i + Suc n) xs xs'" by (rule same_from_step [OF r(3)])
  with scale_step [OF x(1) v r(5)] r(1,2,4) x(1) show ?case by (simp add: arr_simps w_def [symmetric])
qed simp

lemma append_carry_correct:
  "bn_raw b \<Longrightarrow>
     if bval (bigits b) + radix ^ used_digits b * unat carry < bn_limit
     then \<exists>c. append_carry b carry = Some c \<and> bn_raw c \<and> bval (bigits c) = bval (bigits b) + radix ^ used_digits b * unat carry
            \<and> exponent c = exponent b \<and> used_digits b \<le> used_digits c \<and> (carry = 0 \<longrightarrow> c = b)
            \<and> (carry \<noteq> 0 \<longrightarrow> used_digits b < used_digits c \<and> radix ^ (used_digits c - 1) \<le> bval (bigits c))
     else append_carry b carry = None"
proof (induction b carry rule: append_carry.induct)
  case (1 b carry)
  note d = bn_rawD [OF "1.prems"]
  show ?case
  proof (cases "carry = 0")
    case True
    then show ?thesis using "1.prems" bval_limit [OF d(2,1)] by (simp add: append_carry.simps [of b])
  next
    case False
    then have one: "1 \<le> unat carry" by (simp add: Suc_le_eq unat_gt_0)
    show ?thesis
    proof (cases "used_digits b < 128")
      case True
      define xs where "xs = (bigits b)[used_digits b := ucast (carry AND kBigitMask)]"
      define b' where "b' = b\<lparr>bigits := xs, used_digits := used_digits b + 1\<rparr>"
      have put: "bput (bigits b) (used_digits b) (ucast (carry AND kBigitMask)) = Some xs" using True d(1) by (simp add: bput_def xs_def)
      have ec: "EnsureCapacity (used_digits b + 1) = Some ()" using True by (simp add: EnsureCapacity_def)
      have raw': "bn_raw b'" using d True
        by (intro rawI) (auto simp: b'_def xs_def nth_list_update intro!: digits_ok_update)
      have "bigits b ! used_digits b = 0" using d(4) True by simp
      then have "int (bval xs) + int radix ^ Suc (used_digits b) * int (unat (drop_bit kBigitSize carry))
          = int (bval (bigits b)) + int (unat carry) * int radix ^ used_digits b"
        unfolding xs_def using True d(1) digit_split [of carry] by (intro digit_step) simp_all
      then have "int (bval xs + radix ^ (used_digits b + 1) * unat (drop_bit kBigitSize carry))
          = int (bval (bigits b) + radix ^ used_digits b * unat carry)" by (simp add: algebra_simps)
      then have v: "bval (bigits b') + radix ^ used_digits b' * unat (drop_bit kBigitSize carry)
          = bval (bigits b) + radix ^ used_digits b * unat carry" unfolding b'_def by (simp only: of_nat_eq_iff) simp
      have eq: "append_carry b carry = append_carry b' (drop_bit kBigitSize carry)"
        by (subst append_carry.simps) (simp only: False if_False ec put Option.bind.bind_lunit b'_def)
      note IH = "1.IH" [OF False ec put, folded b'_def, OF raw', unfolded v]
      have top: "radix ^ used_digits b \<le> bval (bigits b) + radix ^ used_digits b * unat carry"
        using one by (simp add: trans_le_add2)
      show ?thesis
      proof (cases "bval (bigits b) + radix ^ used_digits b * unat carry < bn_limit")
        case fit: True
        with IH obtain c where c: "append_carry b' (drop_bit kBigitSize carry) = Some c" "bn_raw c"
            "bval (bigits c) = bval (bigits b) + radix ^ used_digits b * unat carry"
            "exponent c = exponent b" "used_digits b' \<le> used_digits c" "drop_bit kBigitSize carry = 0 \<longrightarrow> c = b'"
            "drop_bit kBigitSize carry \<noteq> 0 \<longrightarrow> radix ^ (used_digits c - 1) \<le> bval (bigits c)"
          by (auto simp: b'_def)
        moreover have "radix ^ (used_digits c - 1) \<le> bval (bigits c)"
        proof (cases "drop_bit kBigitSize carry = 0")
          case True
          then have "used_digits c - 1 = used_digits b" using c(6) by (simp add: b'_def)
          then show ?thesis using top c(3) by (simp only:)
        qed (use c(7) in simp)
        ultimately show ?thesis unfolding eq using fit False by (auto simp: b'_def)
      next
        case False
        with IH show ?thesis unfolding eq by simp
      qed
    next
      case False
      then have u: "used_digits b = 128" using d(3) by simp
      have "\<not> bval (bigits b) + radix ^ used_digits b * unat carry < bn_limit" unfolding u bn_limit_def using one by (simp add: not_less trans_le_add2)
      with u \<open>carry \<noteq> 0\<close> show ?thesis by (simp add: append_carry.simps [of b] EnsureCapacity_def)
    qed
  qed
qed

text \<open>What a scaling loop followed by the digits of the last carry gives.\<close>

lemma scaled:
  fixes carry :: DoubleChunk
  assumes ok: "bn_ok b" and u: "0 < used_digits b" and f: "1 \<le> f" and xs: "digits_ok xs" "same_from (used_digits b) (bigits b) xs"
    and v: "bval xs + radix ^ used_digits b * unat carry = f * bval (bigits b)"
  shows "if f * bval (bigits b) < bn_limit
     then \<exists>c. append_carry (b\<lparr>bigits := xs\<rparr>) carry = Some c \<and> bn_ok c \<and> bval (bigits c) = f * bval (bigits b) \<and> exponent c = exponent b
     else append_carry (b\<lparr>bigits := xs\<rparr>) carry = None"
proof -
  note d = bn_okD [OF ok]
  have raw: "bn_raw (b\<lparr>bigits := xs\<rparr>)" using d xs by (intro rawI) (auto simp: same_from_def)
  have v': "bval (bigits (b\<lparr>bigits := xs\<rparr>)) + radix ^ used_digits (b\<lparr>bigits := xs\<rparr>) * unat carry = f * bval (bigits b)"
    using v by simp
  note ap = append_carry_correct [OF raw, of carry, unfolded v']
  show ?thesis
  proof (cases "f * bval (bigits b) < bn_limit")
    case True
    with ap obtain c where c: "append_carry (b\<lparr>bigits := xs\<rparr>) carry = Some c" "bn_raw c" "bval (bigits c) = f * bval (bigits b)"
        "exponent c = exponent b" "used_digits b \<le> used_digits c" "carry = 0 \<longrightarrow> c = b\<lparr>bigits := xs\<rparr>"
        "carry \<noteq> 0 \<longrightarrow> radix ^ (used_digits c - 1) \<le> bval (bigits c)"
      by (simp del: One_nat_def) metis
    have "bval (bigits b) \<le> bval (bigits c)" using f by (simp add: c(3))
    then have "radix ^ (used_digits c - 1) \<le> bval (bigits c)"
      using c(6,7) ok_ge [OF ok u] by (cases "carry = 0") auto
    then have "bn_ok c" using c(2,5) u by (intro ok_by_value) auto
    with c True show ?thesis by auto
  next
    case False
    with ap show ?thesis by simp
  qed
qed

lemma MultiplyByUInt32_correct:
  assumes ok: "bn_ok b"
  shows "if unat factor * bval (bigits b) < bn_limit
     then \<exists>c. MultiplyByUInt32 b factor = Some c \<and> bn_ok c \<and> bnval c = bnval b * unat factor
            \<and> (factor \<noteq> 0 \<longrightarrow> bval (bigits c) = unat factor * bval (bigits b) \<and> exponent c = exponent b)
     else MultiplyByUInt32 b factor = None"
proof -
  note d = bn_okD [OF ok]
  consider "factor = 1" | "factor = 0" | "factor \<noteq> 0" "factor \<noteq> 1" "used_digits b = 0"
    | "factor \<noteq> 0" "factor \<noteq> 1" "0 < used_digits b" by blast
  then show ?thesis
  proof cases
    case 1
    then show ?thesis using ok bval_limit [OF d(3,2)] by (simp add: MultiplyByUInt32_def)
  next
    case 2
    then show ?thesis using Zero_correct [OF d(1)] by (simp add: MultiplyByUInt32_def bn_limit_def)
  next
    case 3
    then have "bval (bigits b) = 0" using raw_less [OF d(1)] by simp
    then show ?thesis using 3 ok by (simp add: MultiplyByUInt32_def bnval_def)
  next
    case 4
    from mul32_loop_correct [OF d(3), of 0 "used_digits b" 0 factor] d(2,4) obtain xs carry where
      m: "mul32_loop (bigits b) factor 0 (used_digits b) 0 = Some (xs, carry)" "digits_ok xs" "same_from (used_digits b) (bigits b) xs"
        "int (bval xs) + int radix ^ (0 + used_digits b) * int (unat carry)
          = int (bval (bigits b)) + int radix ^ 0 * (int 0 + (int (unat factor) - 1) * int (bval (take (used_digits b) (drop 0 (bigits b)))))"
      by auto
    have f: "1 \<le> unat factor" using 4(1) by (simp add: Suc_le_eq unat_gt_0)
    note s = scaled [OF ok 4(3) f m(2,3) scale_total [OF d(1) m(4)]]
    show ?thesis
    proof (cases "unat factor * bval (bigits b) < bn_limit")
      case True
      with s m(1) 4 show ?thesis by (auto simp: MultiplyByUInt32_def bnval_def)
    next
      case False
      with s m(1) 4 show ?thesis by (auto simp: MultiplyByUInt32_def)
    qed
  qed
qed

section \<open>Multiplication by a 64-bit factor\<close>

text \<open>The new carry fits its 64 bits exactly: the largest value it can have is \<open>2^64 - 1\<close>.\<close>

lemma mul64_step:
  fixes low high carry :: "64 word" and x :: Chunk
  assumes "unat low < 2 ^ 32" "unat high < 2 ^ 32" "unat x < radix"
  defines "tmp \<equiv> (carry AND kBigitMask) + low * ucast x"
  shows "unat (ucast (tmp AND kBigitMask) :: Chunk)
      + radix * unat (drop_bit kBigitSize carry + drop_bit kBigitSize tmp + push_bit (32 - kBigitSize) (high * ucast x))
      = (unat low + 2 ^ 32 * unat high) * unat x + unat carry"
proof -
  have x: "unat (ucast x :: 64 word) = unat x"
    by (simp add: unsigned_ucast_eq take_bit_nat_eq_self less_trans [OF unat32])
  have l: "unat low * unat x \<le> (2 ^ 32 - 1) * (radix - 1)"
    using assms(1-3) by (intro mult_le_mono) simp_all
  have h: "unat high * unat x \<le> (2 ^ 32 - 1) * (radix - 1)"
    using assms(1-3) by (intro mult_le_mono) simp_all
  have pl: "unat (low * ucast x) = unat low * unat x" and ph: "unat (high * ucast x) = unat high * unat x"
    using l h x by (auto simp: unat_word_ariths)
  have m: "unat (carry AND kBigitMask) \<le> 268435455" using and_bigit_less [of carry] by linarith
  have t: "unat tmp = unat carry mod radix + unat low * unat x"
    unfolding tmp_def using l m pl by (simp add: unat_word_ariths unat_and_bigit)
  have ps: "unat (push_bit 4 (high * ucast x)) = unat high * unat x * 16"
    using h by (simp only: unsigned_push_bit_eq ph) (simp add: push_bit_eq_mult take_bit_nat_eq_self)
  have "unat carry div radix \<le> 68719476735"
    using unat64 [of carry] by (simp add: less_Suc_eq_le [symmetric] div_less_iff_less_mult del: less_Suc_eq_le)
  moreover have "unat tmp div radix \<le> 4294967280"
  proof -
    have "unat tmp \<le> 1152921500311879680" unfolding t using l m by (simp add: unat_and_bigit)
    then have "unat tmp div radix \<le> 1152921500311879680 div radix" by (rule div_le_mono)
    then show ?thesis by simp
  qed
  ultimately have "unat carry div radix + unat tmp div radix + unat high * unat x * 16 < 2 ^ 64" using h by simp
  then have q: "unat (drop_bit kBigitSize carry + drop_bit kBigitSize tmp + push_bit 4 (high * ucast x))
      = unat carry div radix + unat tmp div radix + unat high * unat x * 16"
    by (simp add: unat_word_ariths unat_drop_bit_div ps)
  have "unat tmp mod radix + radix * (unat carry div radix + unat tmp div radix + unat high * unat x * 16)
      = (unat tmp mod radix + radix * (unat tmp div radix)) + radix * (unat carry div radix) + 2 ^ 32 * unat high * unat x"
    by (simp add: algebra_simps)
  also have "\<dots> = (unat carry mod radix + radix * (unat carry div radix)) + unat low * unat x + 2 ^ 32 * unat high * unat x"
    by (simp add: t)
  also have "\<dots> = (unat low + 2 ^ 32 * unat high) * unat x + unat carry" by (simp add: algebra_simps)
  finally show ?thesis using q by (simp add: unat_and_bigit)
qed

lemma mul64_loop_correct:
  assumes f: "unat low < 2 ^ 32" "unat high < 2 ^ 32" "factor = unat low + 2 ^ 32 * unat high"
  shows "digits_ok xs \<Longrightarrow> i + n \<le> length xs \<Longrightarrow>
     \<exists>xs' carry'. mul64_loop xs low high i n carry = Some (xs', carry') \<and> digits_ok xs' \<and> same_from (i + n) xs xs'
       \<and> int (bval xs') + int radix ^ (i + n) * int (unat carry')
           = int (bval xs) + int radix ^ i * (int (unat carry) + (int factor - 1) * int (bval (take n (drop i xs))))"
proof (induction n arbitrary: xs i carry)
  case (Suc n)
  define tmp where "tmp = (carry AND kBigitMask) + low * ucast (xs ! i)"
  let ?v = "ucast (tmp AND kBigitMask) :: Chunk" let ?xs = "xs[i := ?v]"
  let ?c = "drop_bit kBigitSize carry + drop_bit kBigitSize tmp + push_bit (32 - kBigitSize) (high * ucast (xs ! i))"
  have x: "i < length xs" "unat (xs ! i) < radix" using Suc.prems by (auto intro: digits_okD)
  have v: "unat ?v + radix * unat ?c = factor * unat (xs ! i) + unat carry"
    using mul64_step [OF f(1,2) x(2), of carry] by (simp only: tmp_def f(3))
  have "digits_ok ?xs" "Suc i + n \<le> length ?xs" using Suc.prems by (auto intro: digits_ok_update)
  from Suc.IH [OF this, of ?c] obtain xs' carry' where
    r: "mul64_loop ?xs low high (Suc i) n ?c = Some (xs', carry')" "digits_ok xs'" "same_from (Suc i + n) ?xs xs'"
      "int (bval xs') + int radix ^ (Suc i + n) * int (unat carry')
         = int (bval ?xs) + int radix ^ Suc i * (int (unat ?c) + (int factor - 1) * int (bval (take n (drop (Suc i) ?xs))))"
    by blast
  have "same_from (i + Suc n) xs xs'" by (rule same_from_step [OF r(3)])
  with scale_step [OF x(1) v r(4)] r(1,2) x(1) show ?case by (simp add: arr_simps tmp_def [symmetric] Let_def)
qed simp

lemma split64: "unat (w AND 0xFFFFFFFF) + 2 ^ 32 * unat (drop_bit 32 w) = unat w" "unat (w AND 0xFFFFFFFF) < 2 ^ 32"
    "unat (drop_bit 32 w) < 2 ^ 32" for w :: "64 word"
proof -
  have "0xFFFFFFFF = (mask 32 :: 64 word)" by (simp add: mask_eq_exp_minus_1)
  then have l: "unat (w AND 0xFFFFFFFF) = unat w mod 2 ^ 32"
    by (simp only: take_bit_eq_mask [symmetric] unsigned_take_bit_eq) (simp only: take_bit_eq_mod)
  show "unat (w AND 0xFFFFFFFF) < 2 ^ 32" by (simp add: l)
  show "unat (w AND 0xFFFFFFFF) + 2 ^ 32 * unat (drop_bit 32 w) = unat w" by (simp add: l unat_drop_bit_div)
  show "unat (drop_bit 32 w) < 2 ^ 32" using unat64 [of w] by (simp add: unat_drop_bit_div div_less_iff_less_mult)
qed

lemma append_carry_0 [simp]: "append_carry b 0 = Some b"
  by (simp add: append_carry.simps)

lemma MultiplyByUInt64_correct:
  assumes ok: "bn_ok b"
  shows "if unat factor * bval (bigits b) < bn_limit
     then \<exists>c. MultiplyByUInt64 b factor = Some c \<and> bn_ok c \<and> bnval c = bnval b * unat factor
            \<and> (factor \<noteq> 0 \<longrightarrow> bval (bigits c) = unat factor * bval (bigits b) \<and> exponent c = exponent b)
     else MultiplyByUInt64 b factor = None"
proof -
  note d = bn_okD [OF ok]
  consider "factor = 1" | "factor = 0" | "factor \<noteq> 0" "factor \<noteq> 1" "used_digits b = 0"
    | "factor \<noteq> 0" "factor \<noteq> 1" "0 < used_digits b" by blast
  then show ?thesis
  proof cases
    case 1
    then show ?thesis using ok bval_limit [OF d(3,2)] by (simp add: MultiplyByUInt64_def)
  next
    case 2
    then show ?thesis using Zero_correct [OF d(1)] by (simp add: MultiplyByUInt64_def)
  next
    case 3
    then have "bval (bigits b) = 0" using raw_less [OF d(1)] by simp
    then show ?thesis using 3 ok by (simp add: MultiplyByUInt64_def bnval_def Let_def)
  next
    case 4
    note sp = split64 [of factor]
    from mul64_loop_correct [OF sp(2,3) sp(1) [symmetric] d(3), of 0 "used_digits b" 0] d(2,4) obtain xs carry where
      m: "mul64_loop (bigits b) (factor AND 0xFFFFFFFF) (drop_bit 32 factor) 0 (used_digits b) 0 = Some (xs, carry)"
        "digits_ok xs" "same_from (used_digits b) (bigits b) xs"
        "int (bval xs) + int radix ^ (0 + used_digits b) * int (unat carry)
          = int (bval (bigits b)) + int radix ^ 0 * (int 0 + (int (unat factor) - 1) * int (bval (take (used_digits b) (drop 0 (bigits b)))))"
      by auto
    have f: "1 \<le> unat factor" using 4(1) by (simp add: Suc_le_eq unat_gt_0)
    note s = scaled [OF ok 4(3) f m(2,3) scale_total [OF d(1) m(4)]]
    show ?thesis
    proof (cases "unat factor * bval (bigits b) < bn_limit")
      case True
      with s m(1) 4 show ?thesis by (auto simp: MultiplyByUInt64_def bnval_def Let_def)
    next
      case False
      with s m(1) 4 show ?thesis by (auto simp: MultiplyByUInt64_def Let_def)
    qed
  qed
qed

section \<open>Shifts\<close>

lemma shift_step:
  fixes x carry :: Chunk
  assumes "s < 28" "unat x < radix" "unat carry < 2 ^ s"
  shows "unat ((push_bit s x + carry) AND kBigitMask) + radix * unat (drop_bit (kBigitSize - s) x) = 2 ^ s * unat x + unat carry"
    and "unat (drop_bit (kBigitSize - s) x) < 2 ^ s"
proof -
  have "unat (push_bit s x) = (2 ^ s * unat x) mod 2 ^ 32"
    by (simp only: unsigned_push_bit_eq) (simp add: push_bit_eq_mult take_bit_eq_mod mult.commute)
  then have "unat (push_bit s x + carry) = (2 ^ s * unat x + unat carry) mod 2 ^ 32"
    by (simp add: unat_word_ariths mod_simps)
  then have e1: "unat (push_bit s x + carry) mod 2 ^ 28 = (2 ^ s * unat x + unat carry) mod radix"
    by (simp add: mod_mod_cancel)
  have e2: "(2 ^ s * unat x + unat carry) div radix = unat x div 2 ^ (28 - s)"
  proof -
    have "radix = 2 ^ s * 2 ^ (28 - s)" using assms(1) by (simp flip: power_add)
    then have "(2 ^ s * unat x + unat carry) div radix = ((2 ^ s * unat x + unat carry) div 2 ^ s) div 2 ^ (28 - s)"
      by (simp only: div_mult2_eq)
    also have "(2 ^ s * unat x + unat carry) div 2 ^ s = unat x" using assms(3) by simp
    finally show ?thesis .
  qed
  show "unat ((push_bit s x + carry) AND kBigitMask) + radix * unat (drop_bit (kBigitSize - s) x) = 2 ^ s * unat x + unat carry"
    unfolding unat_and_bigit unat_drop_bit_div by (simp only: e1 e2 [symmetric] mod_mult_div_eq)
  have "unat x < 2 ^ s * 2 ^ (28 - s)" using assms(1,2) by (simp flip: power_add)
  then show "unat (drop_bit (kBigitSize - s) x) < 2 ^ s" by (simp add: unat_drop_bit_div less_mult_imp_div_less)
qed

lemma shift_loop_correct:
  assumes s: "s < 28"
  shows "digits_ok xs \<Longrightarrow> i + n \<le> length xs \<Longrightarrow> unat carry < 2 ^ s \<Longrightarrow>
     \<exists>xs' carry'. shift_loop xs s i n carry = Some (xs', carry') \<and> digits_ok xs' \<and> same_from (i + n) xs xs' \<and> unat carry' < 2 ^ s
       \<and> int (bval xs') + int radix ^ (i + n) * int (unat carry')
           = int (bval xs) + int radix ^ i * (int (unat carry) + (int (2 ^ s) - 1) * int (bval (take n (drop i xs))))"
proof (induction n arbitrary: xs i carry)
  case (Suc n)
  let ?v = "(push_bit s (xs ! i) + carry) AND kBigitMask" let ?xs = "xs[i := ?v]" let ?c = "drop_bit (kBigitSize - s) (xs ! i)"
  have x: "i < length xs" "unat (xs ! i) < radix" using Suc.prems by (auto intro: digits_okD)
  note v = shift_step [OF s x(2) Suc.prems(3)]
  have "digits_ok ?xs" "Suc i + n \<le> length ?xs" using Suc.prems by (auto intro: digits_ok_update)
  from Suc.IH [OF this v(2)] obtain xs' carry' where
    r: "shift_loop ?xs s (Suc i) n ?c = Some (xs', carry')" "digits_ok xs'" "same_from (Suc i + n) ?xs xs'" "unat carry' < 2 ^ s"
      "int (bval xs') + int radix ^ (Suc i + n) * int (unat carry')
         = int (bval ?xs) + int radix ^ Suc i * (int (unat ?c) + (int (2 ^ s) - 1) * int (bval (take n (drop (Suc i) ?xs))))"
    by blast
  have "same_from (i + Suc n) xs xs'" by (rule same_from_step [OF r(3)])
  with scale_step [OF x(1) v(1) r(5)] r(1,2,4) x(1) show ?case by (simp add: arr_simps Let_def)
qed simp

lemma BigitsShiftLeft_correct:
  assumes ok: "bn_ok b" and u: "0 < used_digits b" "used_digits b < 128" and s: "s < 28"
  shows "\<exists>c. BigitsShiftLeft b s = Some c \<and> bn_ok c \<and> bval (bigits c) = 2 ^ s * bval (bigits b) \<and> exponent c = exponent b
           \<and> used_digits c \<le> used_digits b + 1"
proof -
  note d = bn_okD [OF ok]
  from shift_loop_correct [OF s d(3), of 0 "used_digits b" 0] d(2,4) obtain xs carry where
    m: "shift_loop (bigits b) s 0 (used_digits b) 0 = Some (xs, carry)" "digits_ok xs" "same_from (used_digits b) (bigits b) xs"
      "unat carry < 2 ^ s"
      "int (bval xs) + int radix ^ (0 + used_digits b) * int (unat carry)
        = int (bval (bigits b)) + int radix ^ 0 * (int 0 + (int (2 ^ s) - 1) * int (bval (take (used_digits b) (drop 0 (bigits b)))))"
    by auto
  note v = scale_total [OF d(1) m(5)]
  have len: "length xs = 128" and zero: "\<And>j. j < 128 \<Longrightarrow> used_digits b \<le> j \<Longrightarrow> xs ! j = 0"
    using m(3) d(2,5) by (auto simp: same_from_def)
  have le: "bval (bigits b) \<le> 2 ^ s * bval (bigits b)" by simp
  show ?thesis
  proof (cases "carry = 0")
    case True
    define c where "c = b\<lparr>bigits := xs\<rparr>"
    have "bn_raw c" using len zero m(2) u by (intro rawI) (auto simp: c_def)
    moreover have vc: "bval (bigits c) = 2 ^ s * bval (bigits b)" using v True by (simp add: c_def)
    ultimately have "bn_ok c" using order_trans [OF ok_ge [OF ok u(1)] le] u by (intro ok_by_value) (simp_all add: c_def)
    with True m(1) vc show ?thesis by (auto simp: BigitsShiftLeft_def c_def)
  next
    case False
    define ys where "ys = xs[used_digits b := carry]"
    define c where "c = b\<lparr>bigits := ys, used_digits := used_digits b + 1\<rparr>"
    have "(2 :: nat) ^ s < 2 ^ 28" using s by (rule power_strict_increasing) simp
    then have "unat carry < radix" using m(4) by simp
    then have "bn_ok c" using len zero m(2) u False
      by (intro bn_okI) (auto simp: c_def ys_def nth_list_update intro!: digits_ok_update)
    moreover have "bval ys + 0 = bval xs + unat carry * radix ^ used_digits b"
      using bval_update [of "used_digits b" xs carry] zero [of "used_digits b"] u len by (simp add: ys_def)
    then have "bval (bigits c) = 2 ^ s * bval (bigits b)" using v by (simp add: c_def mult.commute)
    ultimately show ?thesis using False m(1) u len by (auto simp: BigitsShiftLeft_def c_def ys_def bput_def)
  qed
qed

lemma ShiftLeft_correct:
  assumes ok: "bn_ok b" and u: "used_digits b < 128"
  shows "\<exists>c. ShiftLeft b s = Some c \<and> bn_ok c \<and> bnval c = bnval b * 2 ^ s"
proof (cases "used_digits b = 0")
  case True
  then show ?thesis using ok bnval_bounds(3) [OF ok] by (simp add: ShiftLeft_def)
next
  case False
  define b' where "b' = b\<lparr>exponent := exponent b + s div 28\<rparr>"
  have "bn_ok b'" using ok False by (simp add: b'_def bn_ok_def bn_raw_def IsClamped_def)
  from BigitsShiftLeft_correct [OF this, of "s mod 28"] False u obtain c where
    c: "BigitsShiftLeft b' (s mod 28) = Some c" "bn_ok c" "bval (bigits c) = 2 ^ (s mod 28) * bval (bigits b)"
      "exponent c = exponent b + s div 28"
    by (auto simp: b'_def)
  have "(2 :: nat) ^ s = 2 ^ (28 * (s div 28) + s mod 28)" by simp
  also have "\<dots> = 2 ^ (s mod 28) * radix ^ (s div 28)" by (simp only: power_add power_mult) simp
  finally have "(2 :: nat) ^ s = 2 ^ (s mod 28) * radix ^ (s div 28)" .
  then have "bnval c = bnval b * 2 ^ s" by (simp add: bnval_def c(3,4) power_add algebra_simps)
  with c False u show ?thesis by (auto simp: ShiftLeft_def Let_def EnsureCapacity_def b'_def)
qed

section \<open>Multiplication by a power of ten\<close>

lemma power_part:
  fixes b lim :: nat
  assumes "b * 5 ^ r < lim" "k \<le> r"
  shows "5 ^ k * b < lim" "5 ^ k * b * 5 ^ (r - k) = b * 5 ^ r"
proof -
  have "(5 :: nat) ^ r = 5 ^ (k + (r - k))" using assms(2) by simp
  then show e: "5 ^ k * b * 5 ^ (r - k) = b * 5 ^ r" by (simp only: power_add) simp
  have "5 ^ k * b * 1 \<le> 5 ^ k * b * 5 ^ (r - k)" by (rule mult_le_mono2) simp
  with e assms(1) show "5 ^ k * b < lim" by linarith
qed

lemma five27_loop_correct:
  "bn_ok b \<Longrightarrow> bval (bigits b) * 5 ^ r < bn_limit \<Longrightarrow>
     \<exists>c r'. five27_loop b r = Some (c, r') \<and> bn_ok c \<and> bval (bigits c) * 5 ^ r' = bval (bigits b) * 5 ^ r
       \<and> exponent c = exponent b \<and> r' < 27"
proof (induction b r rule: five27_loop.induct)
  case (1 b r)
  show ?case
  proof (cases "27 \<le> r")
    case True
    note p = power_part [OF "1.prems"(2) True]
    have "7450580596923828125 * bval (bigits b) < bn_limit" using p(1) by simp
    then obtain c where c: "MultiplyByUInt64 b 0x6765c793fa10079d = Some c" "bn_ok c"
        "bval (bigits c) = 7450580596923828125 * bval (bigits b)" "exponent c = exponent b"
      using MultiplyByUInt64_correct [OF "1.prems"(1), of "0x6765c793fa10079d"] by auto
    have e: "bval (bigits c) * 5 ^ (r - 27) = bval (bigits b) * 5 ^ r" using p(2) by (simp add: c(3))
    from "1.IH" [OF True c(1,2), unfolded e c(4), OF "1.prems"(2)] c(1) True show ?thesis
      by (simp add: five27_loop.simps [of b])
  qed (use "1.prems" in \<open>simp add: five27_loop.simps [of b]\<close>)
qed

lemma five13_loop_correct:
  "bn_ok b \<Longrightarrow> bval (bigits b) * 5 ^ r < bn_limit \<Longrightarrow>
     \<exists>c r'. five13_loop b r = Some (c, r') \<and> bn_ok c \<and> bval (bigits c) * 5 ^ r' = bval (bigits b) * 5 ^ r
       \<and> exponent c = exponent b \<and> r' < 13"
proof (induction b r rule: five13_loop.induct)
  case (1 b r)
  show ?case
  proof (cases "13 \<le> r")
    case True
    note p = power_part [OF "1.prems"(2) True]
    have "1220703125 * bval (bigits b) < bn_limit" using p(1) by simp
    then obtain c where c: "MultiplyByUInt32 b 1220703125 = Some c" "bn_ok c"
        "bval (bigits c) = 1220703125 * bval (bigits b)" "exponent c = exponent b"
      using MultiplyByUInt32_correct [OF "1.prems"(1), of 1220703125] by auto
    have e: "bval (bigits c) * 5 ^ (r - 13) = bval (bigits b) * 5 ^ r" using p(2) by (simp add: c(3))
    from "1.IH" [OF True c(1,2), unfolded e c(4), OF "1.prems"(2)] c(1) True show ?thesis
      by (simp add: five13_loop.simps [of b])
  qed (use "1.prems" in \<open>simp add: five13_loop.simps [of b]\<close>)
qed

lemma kFive1_to_12_nth: "0 < r \<Longrightarrow> r < 13 \<Longrightarrow> unat (kFive1_to_12 ! (r - 1)) = 5 ^ r"
proof -
  assume "0 < r" "r < 13"
  then have "r \<in> {1, 2, 3, 4, 5, 6, 7, 8, 9, 10, 11, 12}" by (auto simp: less_Suc_eq numeral_eq_Suc)
  then show ?thesis by (elim insertE) (simp_all add: kFive1_to_12_def)
qed

lemma used_less_127:
  assumes "bn_ok b" "bval (bigits b) < radix ^ 127"
  shows "used_digits b < 128"
proof (rule ccontr)
  assume "\<not> used_digits b < 128"
  then have "used_digits b = 128" using bn_okD(4) [OF assms(1)] by simp
  with ok_ge [OF assms(1)] assms(2) show False by simp
qed

lemma MultiplyByPowerOfTen_correct:
  assumes ok: "bn_ok b" and cap: "bval (bigits b) * 5 ^ e < radix ^ 127"
  shows "\<exists>c. MultiplyByPowerOfTen b e = Some c \<and> bn_ok c \<and> bnval c = bnval b * 10 ^ e"
proof (cases "e = 0 \<or> used_digits b = 0")
  case True
  then show ?thesis using ok bnval_bounds(3) [OF ok] by (auto simp: MultiplyByPowerOfTen_def)
next
  case False
  have lim: "radix ^ 127 \<le> bn_limit" by (simp add: bn_limit_def)
  have "bval (bigits b) * 5 ^ e < bn_limit" using cap lim by linarith
  from five27_loop_correct [OF ok this] obtain b1 r1 where
    1: "five27_loop b e = Some (b1, r1)" "bn_ok b1" "bval (bigits b1) * 5 ^ r1 = bval (bigits b) * 5 ^ e" "exponent b1 = exponent b"
    by auto
  have "bval (bigits b1) * 5 ^ r1 < bn_limit" using cap lim 1(3) by linarith
  from five13_loop_correct [OF 1(2) this] obtain b2 r2 where
    2: "five13_loop b1 r1 = Some (b2, r2)" "bn_ok b2" "bval (bigits b2) * 5 ^ r2 = bval (bigits b1) * 5 ^ r1"
      "exponent b2 = exponent b1" "r2 < 13"
    by auto
  have v2: "5 ^ r2 * bval (bigits b2) < bn_limit" using cap lim 1(3) 2(3) by (simp add: mult.commute)
  have "\<exists>b3. (if r2 > 0 then MultiplyByUInt32 b2 (kFive1_to_12 ! (r2 - 1)) else Some b2) = Some b3 \<and> bn_ok b3
      \<and> bval (bigits b3) = bval (bigits b) * 5 ^ e \<and> exponent b3 = exponent b"
  proof (cases "r2 = 0")
    case False
    then have f: "unat (kFive1_to_12 ! (r2 - 1)) = 5 ^ r2" using kFive1_to_12_nth 2(5) by simp
    then have "kFive1_to_12 ! (r2 - 1) \<noteq> 0" by (metis power_eq_0_iff unat_eq_0 zero_neq_numeral)
    with MultiplyByUInt32_correct [OF 2(2), of "kFive1_to_12 ! (r2 - 1)"] f v2 False 1(3,4) 2(3,4) show ?thesis
      by (auto simp: mult.commute)
  qed (use 1(3,4) 2 in auto)
  then obtain b3 where 3: "(if r2 > 0 then MultiplyByUInt32 b2 (kFive1_to_12 ! (r2 - 1)) else Some b2) = Some b3" "bn_ok b3"
      "bval (bigits b3) = bval (bigits b) * 5 ^ e" "exponent b3 = exponent b" by blast
  have "used_digits b3 < 128" by (rule used_less_127 [OF 3(2)]) (simp only: 3(3) cap)
  from ShiftLeft_correct [OF 3(2) this, of e] obtain c where c: "ShiftLeft b3 e = Some c" "bn_ok c" "bnval c = bnval b3 * 2 ^ e"
    by blast
  have "bnval b3 * 2 ^ e = bnval b * 10 ^ e"
  proof -
    have "(10 :: nat) ^ e = 5 ^ e * 2 ^ e" by (simp flip: power_mult_distrib)
    then show ?thesis by (simp add: bnval_def 3(3,4) algebra_simps)
  qed
  with c False 1(1) 2(1) 3(1) show ?thesis by (auto simp: MultiplyByPowerOfTen_def)
qed

section \<open>Assignment of machine integers\<close>

lemma uint64_loop_correct:
  "digits_ok xs \<Longrightarrow> i + n \<le> length xs \<Longrightarrow> (\<And>j. i \<le> j \<Longrightarrow> j < length xs \<Longrightarrow> xs ! j = 0) \<Longrightarrow>
     \<exists>xs'. uint64_loop xs w i n = Some xs' \<and> digits_ok xs' \<and> same_from (i + n) xs xs'
       \<and> bval xs' + radix ^ (i + n) * (unat w div radix ^ n) = bval xs + radix ^ i * unat w"
proof (induction n arbitrary: xs i w)
  case (Suc n)
  let ?v = "ucast (w AND kBigitMask) :: Chunk" let ?xs = "xs[i := ?v]"
  have "digits_ok ?xs" "Suc i + n \<le> length ?xs" using Suc.prems by (auto intro: digits_ok_update)
  moreover have "\<And>j. Suc i \<le> j \<Longrightarrow> j < length ?xs \<Longrightarrow> ?xs ! j = 0" using Suc.prems(3) by simp
  ultimately obtain xs' where r: "uint64_loop ?xs (drop_bit kBigitSize w) (Suc i) n = Some xs'" "digits_ok xs'" "same_from (Suc i + n) ?xs xs'"
      "bval xs' + radix ^ (Suc i + n) * (unat (drop_bit kBigitSize w) div radix ^ n) = bval ?xs + radix ^ Suc i * unat (drop_bit kBigitSize w)"
    using Suc.IH [of ?xs "Suc i" "drop_bit kBigitSize w"] by auto
  have i: "i < length xs" "xs ! i = 0" using Suc.prems by auto
  have "bval ?xs = bval xs + unat (w AND kBigitMask) * radix ^ i" using bval_update [OF i(1), of ?v] i(2) by simp
  moreover have "unat (w AND kBigitMask) + radix * unat (drop_bit kBigitSize w) = unat w"
    by (simp add: unat_and_bigit unat_drop_bit_div)
  then have "radix ^ i * (unat (w AND kBigitMask) + radix * unat (drop_bit kBigitSize w)) = radix ^ i * unat w" by (simp only:)
  moreover have "unat (drop_bit kBigitSize w) div radix ^ n = unat w div radix ^ Suc n"
    by (simp add: unat_drop_bit_div div_mult2_eq)
  ultimately have "bval xs' + radix ^ (i + Suc n) * (unat w div radix ^ Suc n) = bval xs + radix ^ i * unat w"
    using r(4) by (simp add: algebra_simps)
  moreover have "same_from (i + Suc n) xs xs'" by (rule same_from_step [OF r(3)])
  ultimately show ?case using r(1,2) i(1) by (simp add: bput_def)
qed simp

lemma AssignUInt64_correct:
  assumes "bn_raw b"
  shows "\<exists>c. AssignUInt64 b w = Some c \<and> bn_ok c \<and> bnval c = unat w \<and> exponent c = 0 \<and> used_digits c \<le> 3"
proof (cases "w = 0")
  case True
  then show ?thesis using Zero_correct [OF assms] by (simp add: AssignUInt64_def Bignum_new_def [symmetric])
      (simp add: Bignum_new_def)
next
  case False
  let ?z = "replicate 128 0 :: Chunk list"
  have "unat w div radix ^ 3 = 0" using unat64 [of w] by simp
  then obtain xs where xs: "uint64_loop ?z w 0 3 = Some xs" "digits_ok xs" "same_from 3 ?z xs" "bval xs = unat w"
    using uint64_loop_correct [of ?z 0 3 w] by auto
  define b' where "b' = Bignum_new\<lparr>bigits := xs, used_digits := 3\<rparr>"
  have "bn_raw b'" using xs by (intro rawI) (auto simp: b'_def same_from_def)
  from Clamp_correct [OF this] obtain c where c: "Clamp b' = Some c" "bn_ok c" "bnval c = bnval b'" "used_digits c \<le> 3"
      "0 < used_digits c \<longrightarrow> exponent c = 0"
    by (auto simp: b'_def Bignum_new_def)
  have "exponent c = 0" using c(5) bn_okD(6) [OF c(2)] by auto
  moreover have "AssignUInt64 b w = Some c"
    using False Zero_correct [OF assms] xs(1) c(1) by (simp add: AssignUInt64_def EnsureCapacity_def b'_def Let_def) (simp add: Bignum_new_def)
  ultimately show ?thesis using c xs(4) by (auto simp: b'_def bnval_def Bignum_new_def)
qed

lemma AssignUInt16_correct:
  assumes "bn_raw b"
  shows "\<exists>c. AssignUInt16 b w = Some c \<and> bn_ok c \<and> bnval c = unat w"
proof (cases "w = 0")
  case True
  then show ?thesis using Zero_correct [OF assms] by (simp add: AssignUInt16_def)
next
  case False
  define c where "c = Bignum_new\<lparr>bigits := (replicate 128 0)[0 := ucast w], used_digits := 1\<rparr>"
  have "unat w < 2 ^ LENGTH(16)" by (rule unsigned_less)
  then have w: "unat (ucast w :: Chunk) = unat w" "unat w < 65536" by (simp_all add: unsigned_ucast_eq take_bit_nat_eq_self)
  have "(ucast w :: Chunk) \<noteq> 0" using w(1) False by (metis unat_eq_0 unsigned_0)
  then have "bn_ok c" using w by (intro bn_okI) (auto simp: c_def Bignum_new_def nth_list_update intro!: digits_ok_update)
  moreover have "bnval c = unat w" using bval_update [of 0 "replicate 128 0" "ucast w"] w
    by (simp add: c_def bnval_def Bignum_new_def)
  moreover have "AssignUInt16 b w = Some c"
    using False Zero_correct [OF assms] by (simp add: AssignUInt16_def EnsureCapacity_def bput_def c_def) (simp add: Bignum_new_def)
  ultimately show ?thesis by blast
qed

lemma AddUInt64_correct:
  assumes ok: "bn_ok b" and cap: "BigitLength b < 128"
  shows "\<exists>c. AddUInt64 b w = Some c \<and> bn_ok c \<and> bnval c = bnval b + unat w"
proof (cases "w = 0")
  case True
  then show ?thesis using ok by (simp add: AddUInt64_def)
next
  case False
  from AssignUInt64_correct [OF bn_okD(1) [OF new_ok(1)]] obtain o' where
    o': "AssignUInt64 Bignum_new w = Some o'" "bn_ok o'" "bnval o' = unat w" "exponent o' = 0" "used_digits o' \<le> 3"
    by blast
  have "add_need b o' \<le> 128" using cap o'(4,5) by (auto simp: add_need_def BigitLength_def)
  with AddBignum_correct [OF ok o'(2)] o'(1,3) False show ?thesis by (auto simp: AddUInt64_def)
qed

end
