(* ===== verification/BignumCmp.thy ===== *)
theory BignumCmp
  imports BignumMul
begin

text \<open>
  Comparison and division of the big integers (\<open>bignum.cc\<close>): the two comparisons decide the order of
  the values, and \<open>DivideModuloIntBignum\<close> computes quotient and remainder.
\<close>

section \<open>Model\<close>

definition BigitAt :: "Bignum \<Rightarrow> nat \<Rightarrow> Chunk option" where
  "BigitAt b index =
     (if index \<ge> BigitLength b then Some 0
      else if index < exponent b then Some 0
      else bget (bigits b) (index - exponent b))"

text \<open>The loops count down; the argument is one above the index. Results are \<open>-1\<close>, \<open>0\<close> and \<open>1\<close>.\<close>

fun bn_compare_loop :: "Bignum \<Rightarrow> Bignum \<Rightarrow> nat \<Rightarrow> nat \<Rightarrow> int option" where
  "bn_compare_loop a b lo 0 = Some 0"
| "bn_compare_loop a b lo (Suc i) =
     (if i < lo then Some 0
      else do { bigit_a \<leftarrow> BigitAt a i; bigit_b \<leftarrow> BigitAt b i;
                if bigit_a < bigit_b then Some (- 1)
                else if bigit_a > bigit_b then Some 1
                else bn_compare_loop a b lo i })"

definition Compare :: "Bignum \<Rightarrow> Bignum \<Rightarrow> int option" where
  "Compare a b =
     (if BigitLength a < BigitLength b then Some (- 1)
      else if BigitLength a > BigitLength b then Some 1
      else bn_compare_loop a b (min (exponent a) (exponent b)) (BigitLength a))"

definition LessEqual :: "Bignum \<Rightarrow> Bignum \<Rightarrow> bool option" where
  "LessEqual a b = map_option (\<lambda>r. r \<le> 0) (Compare a b)"

fun plus_compare_loop :: "Bignum \<Rightarrow> Bignum \<Rightarrow> Bignum \<Rightarrow> nat \<Rightarrow> nat \<Rightarrow> Chunk \<Rightarrow> int option" where
  "plus_compare_loop a b c lo 0 borrow = Some (if borrow = 0 then 0 else - 1)"
| "plus_compare_loop a b c lo (Suc i) borrow =
     (if i < lo then Some (if borrow = 0 then 0 else - 1)
      else do { chunk_a \<leftarrow> BigitAt a i; chunk_b \<leftarrow> BigitAt b i; chunk_c \<leftarrow> BigitAt c i;
                let sum = chunk_a + chunk_b;
                if sum > chunk_c + borrow then Some 1
                else let borrow' = chunk_c + borrow - sum
                     in if borrow' > 1 then Some (- 1)
                        else plus_compare_loop a b c lo i (push_bit kBigitSize borrow') })"

function PlusCompare :: "Bignum \<Rightarrow> Bignum \<Rightarrow> Bignum \<Rightarrow> int option" where
  "PlusCompare a b c =
     (if BigitLength a < BigitLength b then PlusCompare b a c
      else if BigitLength a + 1 < BigitLength c then Some (- 1)
      else if BigitLength a > BigitLength c then Some 1
      else if exponent a \<ge> BigitLength b \<and> BigitLength a < BigitLength c then Some (- 1)
      else plus_compare_loop a b c (min (min (exponent a) (exponent b)) (exponent c)) (BigitLength c) 0)"
  by pat_completeness auto
termination by (relation "measure (\<lambda>(a, b, c). BigitLength b - BigitLength a)") auto

declare PlusCompare.simps [simp del]

fun subtract_n :: "Bignum \<Rightarrow> Bignum \<Rightarrow> nat \<Rightarrow> Bignum option" where
  "subtract_n b other 0 = Some b"
| "subtract_n b other (Suc n) = do { b' \<leftarrow> SubtractBignum b other; subtract_n b' other n }"

fun sub_times_loop :: "Chunk list \<Rightarrow> Chunk list \<Rightarrow> 64 word \<Rightarrow> nat \<Rightarrow> nat \<Rightarrow> nat \<Rightarrow> Chunk \<Rightarrow> (Chunk list \<times> Chunk) option" where
  "sub_times_loop xs ys factor i 0 exponent_diff borrow = Some (xs, borrow)"
| "sub_times_loop xs ys factor i (Suc n) exponent_diff borrow =
     do { y \<leftarrow> bget ys i;
          let product = factor * ucast y;
          let remove = ucast borrow + product;
          x \<leftarrow> bget xs (i + exponent_diff);
          let difference = x - ucast (remove AND kBigitMask);
          xs' \<leftarrow> bput xs (i + exponent_diff) (difference AND kBigitMask);
          sub_times_loop xs' ys factor (i + 1) n exponent_diff
            (ucast (ucast (drop_bit 31 difference) + drop_bit kBigitSize remove :: 64 word)) }"

text \<open>The second loop; the flag tells that it returned early.\<close>

fun sub_rest_loop :: "Chunk list \<Rightarrow> nat \<Rightarrow> nat \<Rightarrow> Chunk \<Rightarrow> (Chunk list \<times> bool) option" where
  "sub_rest_loop xs i 0 borrow = Some (xs, False)"
| "sub_rest_loop xs i (Suc n) borrow =
     (if borrow = 0 then Some (xs, True)
      else do { x \<leftarrow> bget xs i;
                let difference = x - borrow;
                xs' \<leftarrow> bput xs i (difference AND kBigitMask);
                sub_rest_loop xs' (i + 1) n (drop_bit 31 difference) })"

definition SubtractTimes :: "Bignum \<Rightarrow> Bignum \<Rightarrow> int \<Rightarrow> Bignum option" where
  "SubtractTimes b other factor =
     (if factor < 3 then subtract_n b other (nat factor)
      else do { let exponent_diff = exponent other - exponent b;
                (xs, borrow) \<leftarrow> sub_times_loop (bigits b) (bigits other) (word_of_int factor) 0 (used_digits other) exponent_diff 0;
                let i = used_digits other + exponent_diff;
                (xs', returned) \<leftarrow> sub_rest_loop xs i (used_digits b - i) borrow;
                if returned then Some (b\<lparr>bigits := xs'\<rparr>) else Clamp (b\<lparr>bigits := xs'\<rparr>) })"

text \<open>\<open>bigits_[used_digits_ - 1]\<close>; with no digits in use this is outside the array.\<close>

definition top_bigit :: "Bignum \<Rightarrow> Chunk option" where
  "top_bigit b = (if used_digits b = 0 then None else bget (bigits b) (used_digits b - 1))"

partial_function (option) reduce_loop :: "Bignum \<Rightarrow> Bignum \<Rightarrow> 16 word \<Rightarrow> (Bignum \<times> 16 word) option" where
  "reduce_loop b other result =
     (if BigitLength b > BigitLength other then
        do { top \<leftarrow> top_bigit b;
             b' \<leftarrow> SubtractTimes b other (uint top);
             reduce_loop b' other (result + ucast top) }
      else Some (b, result))"

declare reduce_loop.simps [code]

partial_function (option) subtract_loop :: "Bignum \<Rightarrow> Bignum \<Rightarrow> 16 word \<Rightarrow> (Bignum \<times> 16 word) option" where
  "subtract_loop b other result =
     do { le \<leftarrow> LessEqual other b;
          if le then do { b' \<leftarrow> SubtractBignum b other; subtract_loop b' other (result + 1) }
          else Some (b, result) }"

declare subtract_loop.simps [code]

definition DivideModuloIntBignum :: "Bignum \<Rightarrow> Bignum \<Rightarrow> (Bignum \<times> 16 word) option" where
  "DivideModuloIntBignum b0 other =
     (if BigitLength b0 < BigitLength other then Some (b0, 0)
      else do {
        b1 \<leftarrow> Align b0 other;
        (b, result) \<leftarrow> reduce_loop b1 other 0;
        this_bigit \<leftarrow> top_bigit b;
        other_bigit \<leftarrow> top_bigit other;
        if used_digits other = 1 then
          let quotient = this_bigit div other_bigit
          in do { c \<leftarrow> Clamp (b\<lparr>bigits := (bigits b)[used_digits b - 1 := this_bigit - other_bigit * quotient]\<rparr>);
                  Some (c, result + ucast quotient) }
        else do {
          let division_estimate = this_bigit div (other_bigit + 1);
          b2 \<leftarrow> SubtractTimes b other (uint division_estimate);
          let result2 = result + ucast division_estimate;
          if other_bigit * (division_estimate + 1) > this_bigit then Some (b2, result2)
          else subtract_loop b2 other result2 } })"

section \<open>Comparison\<close>

definition three_way :: "nat \<Rightarrow> nat \<Rightarrow> int" where
  "three_way x y = (if x < y then - 1 else if x > y then 1 else 0)"

lemma bnval_less_power: "bn_ok b \<Longrightarrow> BigitLength b \<le> n \<Longrightarrow> bnval b < radix ^ n"
  by (rule less_le_trans [OF bnval_bounds(1)]) (auto intro: power_increasing)

lemma BigitAt_correct:
  assumes ok: "bn_ok b"
  obtains x where "BigitAt b i = Some x" "unat x < radix" "bnval b div radix ^ i = unat x + radix * (bnval b div radix ^ Suc i)"
proof -
  note d = bn_okD [OF ok]
  have S: "bnval b div radix ^ Suc i = bnval b div radix ^ i div radix" by (simp only: power_Suc2 div_mult2_eq)
  have dm: "bnval b div radix ^ i = bnval b div radix ^ i mod radix + radix * (bnval b div radix ^ Suc i)"
    unfolding S by simp
  consider "BigitLength b \<le> i" | "i < BigitLength b" "i < exponent b" | "i < BigitLength b" "exponent b \<le> i" by linarith
  then show ?thesis
  proof cases
    case 1
    have "bnval b < radix ^ i" using ok 1 by (rule bnval_less_power)
    then have "bnval b div radix ^ i = 0" by simp
    then show ?thesis using that [of 0] 1 dm by (simp add: BigitAt_def)
  next
    case 2
    have "exponent b = (exponent b - Suc i) + Suc i" using 2 by simp
    then have "radix ^ exponent b = radix ^ (exponent b - Suc i) * radix ^ Suc i" by (metis power_add)
    then have "bnval b = (bval (bigits b) * radix ^ (exponent b - Suc i) * radix) * radix ^ i"
      by (simp add: bnval_def algebra_simps)
    then have "bnval b div radix ^ i mod radix = 0" by simp
    then show ?thesis using that [of 0] 2 dm by (simp add: BigitAt_def)
  next
    case 3
    define k where "k = i - exponent b"
    have k: "k < used_digits b" "i = k + exponent b" using 3 by (auto simp: k_def BigitLength_def)
    then have k': "k < length (bigits b)" using d by simp
    have "bval (bigits b) = bval (take k (bigits b)) + radix ^ k * (unat (bigits b ! k) + radix * bval (drop (Suc k) (bigits b)))"
      by (subst id_take_nth_drop [OF k']) (use k' in \<open>simp add: bval_append\<close>)
    moreover have "bval (take k (bigits b)) < radix ^ k"
      using bval_less [OF digits_ok_take(1) [OF d(3)], of k] k' by simp
    ultimately have "bval (bigits b) div radix ^ k = unat (bigits b ! k) + radix * bval (drop (Suc k) (bigits b))" by simp
    moreover have "bnval b div radix ^ i = bval (bigits b) div radix ^ k" by (simp add: bnval_def k(2) power_add)
    moreover have x: "unat (bigits b ! k) < radix" using d(3) k' by (rule digits_okD)
    ultimately have "bnval b div radix ^ i mod radix = unat (bigits b ! k)" by simp
    with dm x k' 3 show ?thesis using that [of "bigits b ! k"] by (simp add: BigitAt_def bget_def k_def)
  qed
qed

lemma exponent_dvd: "lo \<le> exponent b \<Longrightarrow> radix ^ lo dvd bnval b"
  by (simp add: bnval_def le_imp_power_dvd dvd_mult)

lemma div_lt_imp_lt: "(x :: nat) div k < y div k \<Longrightarrow> x < y"
  by (meson div_le_mono leD leI)

lemma bn_compare_loop_correct:
  assumes ok: "bn_ok a" "bn_ok b" and lo: "lo \<le> exponent a" "lo \<le> exponent b"
  shows "bnval a div radix ^ n = bnval b div radix ^ n \<Longrightarrow> bn_compare_loop a b lo n = Some (three_way (bnval a) (bnval b))"
proof (induction n)
  case 0
  then show ?case by (simp add: three_way_def)
next
  case (Suc i)
  show ?case
  proof (cases "i < lo")
    case True
    then have "radix ^ Suc i dvd radix ^ lo" by (intro le_imp_power_dvd) simp
    then have "radix ^ Suc i dvd bnval a" "radix ^ Suc i dvd bnval b"
      using exponent_dvd [OF lo(1)] exponent_dvd [OF lo(2)] dvd_trans by blast+
    then have "bnval a = bnval b" using Suc.prems by (metis dvd_div_mult_self)
    with True show ?thesis by (simp add: three_way_def)
  next
    case False
    obtain x where x: "BigitAt a i = Some x" "bnval a div radix ^ i = unat x + radix * (bnval a div radix ^ Suc i)"
      using BigitAt_correct [OF ok(1)] by blast
    obtain y where y: "BigitAt b i = Some y" "bnval b div radix ^ i = unat y + radix * (bnval b div radix ^ Suc i)"
      using BigitAt_correct [OF ok(2)] by blast
    consider "x < y" | "y < x" | "x = y" by fastforce
    then show ?thesis
    proof cases
      case 1
      then have "bnval a div radix ^ i < bnval b div radix ^ i" using x(2) y(2) Suc.prems by (simp add: word_less_nat_alt)
      then have "bnval a < bnval b" by (rule div_lt_imp_lt)
      with 1 False x(1) y(1) show ?thesis by (simp add: three_way_def)
    next
      case 2
      then have "bnval b div radix ^ i < bnval a div radix ^ i" using x(2) y(2) Suc.prems by (simp add: word_less_nat_alt)
      then have "bnval b < bnval a" by (rule div_lt_imp_lt)
      with 2 False x(1) y(1) show ?thesis by (auto simp: three_way_def)
    next
      case 3
      then have "bnval a div radix ^ i = bnval b div radix ^ i" using x(2) y(2) Suc.prems by simp
      from Suc.IH [OF this] 3 False x(1) y(1) show ?thesis by simp
    qed
  qed
qed

lemma shorter_less:
  assumes "bn_ok a" "bn_ok b" "BigitLength a < BigitLength b"
  shows "bnval a < bnval b"
proof -
  have "0 < used_digits b" using assms bn_okD(6) [OF assms(2)] by (cases "used_digits b") (auto simp: BigitLength_def)
  then have "radix ^ (BigitLength b - 1) \<le> bnval b" by (rule bnval_bounds(2) [OF assms(2)])
  moreover have "radix ^ BigitLength a \<le> radix ^ (BigitLength b - 1)" using assms(3) by (intro power_increasing) auto
  ultimately show ?thesis using bnval_bounds(1) [OF assms(1)] by linarith
qed

lemma Compare_correct:
  assumes "bn_ok a" "bn_ok b"
  shows "Compare a b = Some (three_way (bnval a) (bnval b))"
proof -
  consider "BigitLength a < BigitLength b" | "BigitLength b < BigitLength a" | "BigitLength a = BigitLength b" by linarith
  then show ?thesis
  proof cases
    case 3
    have "bnval a div radix ^ BigitLength a = bnval b div radix ^ BigitLength a"
      using bnval_bounds(1) [OF assms(1)] bnval_bounds(1) [OF assms(2)] 3 by simp
    from bn_compare_loop_correct [OF assms _ _ this] 3 show ?thesis by (simp add: Compare_def)
  qed (use shorter_less [OF assms] shorter_less [OF assms(2,1)] in \<open>auto simp: Compare_def three_way_def\<close>)
qed

section \<open>Comparison of a sum\<close>

text \<open>What the digits from a position on say about the sum.\<close>

lemma plus_prefix:
  fixes x y z k :: nat
  assumes k: "0 < k"
  shows "z div k < x div k + y div k \<Longrightarrow> z < x + y" "x div k + y div k + 1 < z div k \<Longrightarrow> x + y < z"
proof -
  have e: "v = k * (v div k) + v mod k" "v mod k < k" for v using k by simp_all
  show "z < x + y" if a: "z div k < x div k + y div k"
  proof -
    have "k * (z div k + 1) \<le> k * (x div k + y div k)" using a by (intro mult_le_mono) auto
    then have "k * (z div k) + k \<le> k * (x div k) + k * (y div k)" by (simp add: distrib_left)
    then show ?thesis using e(1) [of x] e(1) [of y] e(1) [of z] e(2) [of z] by linarith
  qed
  show "x + y < z" if a: "x div k + y div k + 1 < z div k"
  proof -
    have "k * (x div k + y div k + 2) \<le> k * (z div k)" using a by (intro mult_le_mono) auto
    then have "k * (x div k) + k * (y div k) + (k + k) \<le> k * (z div k)" by (simp add: distrib_left)
    then show ?thesis using e(1) [of x] e(1) [of y] e(1) [of z] e(2) [of x] e(2) [of y] by linarith
  qed
qed

lemma plus_digit:
  fixes A A' B B' C C' x y z d :: nat
  assumes "A = x + radix * A'" "B = y + radix * B'" "C = z + radix * C'" "C' = A' + B' + d"
  shows "z + radix * d < x + y \<Longrightarrow> C < A + B" "x + y \<le> z + radix * d \<Longrightarrow> C = A + B + (z + radix * d - (x + y))"
  using assms by simp_all

lemma plus_gap: "(C :: nat) = A + B + d \<Longrightarrow> 1 < d \<Longrightarrow> A + B + 1 < C"
  by simp

lemma plus_compare_loop_correct:
  assumes ok: "bn_ok a" "bn_ok b" "bn_ok c" and lo: "lo \<le> exponent a" "lo \<le> exponent b" "lo \<le> exponent c"
  shows "bnval c div radix ^ n = bnval a div radix ^ n + bnval b div radix ^ n + \<delta> \<Longrightarrow> \<delta> \<le> 1 \<Longrightarrow> unat borrow = radix * \<delta> \<Longrightarrow>
    plus_compare_loop a b c lo n borrow = Some (three_way (bnval a + bnval b) (bnval c))"
proof (induction n arbitrary: \<delta> borrow)
  case 0
  have "borrow = 0 \<longleftrightarrow> unat borrow = 0" by (simp only: unat_eq_0)
  then have "borrow = 0 \<longleftrightarrow> \<delta> = 0" using 0(3) by simp
  with 0(1) show ?case by (auto simp: three_way_def)
next
  case (Suc i)
  have "borrow = 0 \<longleftrightarrow> unat borrow = 0" by (simp only: unat_eq_0)
  then have b0: "borrow = 0 \<longleftrightarrow> \<delta> = 0" using Suc.prems(3) by simp
  show ?case
  proof (cases "i < lo")
    case True
    then have "radix ^ Suc i dvd radix ^ lo" by (intro le_imp_power_dvd) simp
    then have dv: "radix ^ Suc i dvd bnval a" "radix ^ Suc i dvd bnval b" "radix ^ Suc i dvd bnval c"
      using exponent_dvd [OF lo(1)] exponent_dvd [OF lo(2)] exponent_dvd [OF lo(3)] dvd_trans by blast+
    have "bnval c = radix ^ Suc i * (bnval c div radix ^ Suc i)" by (simp only: dvd_mult_div_cancel [OF dv(3)])
    also have "\<dots> = radix ^ Suc i * (bnval a div radix ^ Suc i + bnval b div radix ^ Suc i + \<delta>)" by (simp only: Suc.prems(1))
    also have "\<dots> = bnval a + bnval b + radix ^ Suc i * \<delta>" by (simp only: distrib_left dvd_mult_div_cancel [OF dv(1)] dvd_mult_div_cancel [OF dv(2)])
    finally show ?thesis using True b0 Suc.prems(2) by (auto simp: three_way_def)
  next
    case False
    obtain x where x: "BigitAt a i = Some x" "unat x < radix" "bnval a div radix ^ i = unat x + radix * (bnval a div radix ^ Suc i)"
      using BigitAt_correct [OF ok(1)] by blast
    obtain y where y: "BigitAt b i = Some y" "unat y < radix" "bnval b div radix ^ i = unat y + radix * (bnval b div radix ^ Suc i)"
      using BigitAt_correct [OF ok(2)] by blast
    obtain z where z: "BigitAt c i = Some z" "unat z < radix" "bnval c div radix ^ i = unat z + radix * (bnval c div radix ^ Suc i)"
      using BigitAt_correct [OF ok(3)] by blast
    have s: "unat (x + y) = unat x + unat y" and zb: "unat (z + borrow) = unat z + radix * \<delta>"
      using x(2) y(2) z(2) Suc.prems(2,3) by (simp_all add: unat_word_ariths)
    note D = plus_digit [OF x(3) y(3) z(3) Suc.prems(1)]
    have k: "0 < radix ^ i" by simp
    show ?thesis
    proof (cases "z + borrow < x + y")
      case True
      then have "unat z + radix * \<delta> < unat x + unat y" using s zb by (simp add: word_less_nat_alt)
      from plus_prefix(1) [OF k D(1) [OF this]] have "bnval c < bnval a + bnval b" .
      with True False x(1) y(1) z(1) show ?thesis by (auto simp: three_way_def)
    next
      case le: False
      then have le': "unat x + unat y \<le> unat z + radix * \<delta>" using s zb by (simp add: word_less_nat_alt)
      define b' where "b' = z + borrow - (x + y)"
      have b': "unat b' = unat z + radix * \<delta> - (unat x + unat y)"
        unfolding b'_def using le s zb by (simp add: unat_sub word_less_nat_alt word_le_nat_alt not_less)
      have eq: "bnval c div radix ^ i = bnval a div radix ^ i + bnval b div radix ^ i + unat b'"
        unfolding b' by (rule D(2) [OF le'])
      show ?thesis
      proof (cases "b' > 1")
        case True
        then have "1 < unat b'" by (simp add: word_less_nat_alt)
        from plus_prefix(2) [OF k plus_gap [OF eq this]] have "bnval a + bnval b < bnval c" .
        with True le False x(1) y(1) z(1) show ?thesis by (simp add: three_way_def Let_def b'_def [symmetric])
      next
        case small: False
        then have "unat b' \<le> 1" by (simp add: word_less_nat_alt not_less)
        moreover from this have "unat (push_bit 28 b') = radix * unat b'"
          by (simp only: unsigned_push_bit_eq) (simp add: push_bit_eq_mult take_bit_nat_eq_self)
        ultimately have "plus_compare_loop a b c lo i (push_bit kBigitSize b') = Some (three_way (bnval a + bnval b) (bnval c))"
          using Suc.IH [OF eq] by simp
        with small le False x(1) y(1) z(1) show ?thesis by (simp add: Let_def b'_def [symmetric])
      qed
    qed
  qed
qed

lemma long_positive: "bn_ok b \<Longrightarrow> 0 < BigitLength b \<Longrightarrow> 0 < used_digits b"
  using bn_okD(6) [of b] by (cases "used_digits b") (auto simp: BigitLength_def)

lemma PlusCompare_correct:
  "bn_ok a \<Longrightarrow> bn_ok b \<Longrightarrow> bn_ok c \<Longrightarrow> PlusCompare a b c = Some (three_way (bnval a + bnval b) (bnval c))"
proof (induction a b c rule: PlusCompare.induct)
  case (1 a b c)
  note ok = "1.prems"
  note va = bnval_bounds(1) [OF ok(1)] and vb = bnval_bounds(1) [OF ok(2)] and vc = bnval_bounds(1) [OF ok(3)]
  consider "BigitLength a < BigitLength b" | "BigitLength b \<le> BigitLength a" "BigitLength a + 1 < BigitLength c"
    | "BigitLength b \<le> BigitLength a" "BigitLength c < BigitLength a"
    | "BigitLength b \<le> exponent a" "BigitLength a + 1 = BigitLength c"
    | "BigitLength b \<le> BigitLength a" "\<not> BigitLength a + 1 < BigitLength c" "BigitLength a \<le> BigitLength c"
      "\<not> (BigitLength b \<le> exponent a \<and> BigitLength a < BigitLength c)" by linarith
  then show ?case
  proof cases
    case 1
    with "1.IH" ok show ?thesis by (simp add: PlusCompare.simps [of a] add.commute)
  next
    case 2
    have "bnval a + bnval b < radix ^ BigitLength a + radix ^ BigitLength a"
      using va vb power_increasing [OF 2(1), of radix] by linarith
    also have "\<dots> \<le> radix ^ (BigitLength a + 1)" by simp
    also have "\<dots> \<le> radix ^ (BigitLength c - 1)" using 2(2) by (intro power_increasing) auto
    also have "\<dots> \<le> bnval c" using 2(2) long_positive [OF ok(3)] by (intro bnval_bounds(2) [OF ok(3)]) simp
    finally show ?thesis using 2 by (simp add: PlusCompare.simps [of a] three_way_def)
  next
    case 3
    then show ?thesis using shorter_less [OF ok(3,1)] by (simp add: PlusCompare.simps [of a] three_way_def)
  next
    case 4
    obtain q where q: "bnval a = radix ^ exponent a * q" using exponent_dvd [of "exponent a" a] by (auto elim: dvdE)
    have q': "q < radix ^ used_digits a" using va by (simp add: q BigitLength_def power_add mult.commute)
    have "bnval b < radix ^ exponent a" using vb power_increasing [OF 4(1), of radix] by linarith
    then have "bnval a + bnval b < radix ^ exponent a * (q + 1)" by (simp add: q distrib_left)
    also have "\<dots> \<le> radix ^ exponent a * radix ^ used_digits a" using q' by (intro mult_le_mono) auto
    also have "\<dots> = radix ^ (BigitLength c - 1)" using 4(2) by (simp add: BigitLength_def add.commute flip: power_add)
    also have "\<dots> \<le> bnval c" using 4(2) long_positive [OF ok(3)] by (intro bnval_bounds(2) [OF ok(3)]) simp
    finally show ?thesis using 4 by (auto simp: PlusCompare.simps [of a] three_way_def BigitLength_def)
  next
    case 5
    have z: "bnval a div radix ^ BigitLength c = 0" "bnval b div radix ^ BigitLength c = 0" "bnval c div radix ^ BigitLength c = 0"
      using 5 ok by (auto intro!: div_less bnval_less_power)
    have "plus_compare_loop a b c (min (min (exponent a) (exponent b)) (exponent c)) (BigitLength c) 0
        = Some (three_way (bnval a + bnval b) (bnval c))"
      by (rule plus_compare_loop_correct [OF ok, where \<delta> = 0]) (use z in auto)
    with 5 show ?thesis by (auto simp: PlusCompare.simps [of a])
  qed
qed

section \<open>Subtraction of a multiple\<close>

lemma unat_ucast_32_64 [simp]: "unat (ucast w :: 64 word) = unat w" for w :: "32 word"
  by (simp add: unsigned_ucast_eq take_bit_nat_eq_self less_trans [OF unat32])

lemma sub_times_step:
  fixes factor :: "64 word" and x y borrow :: Chunk
  assumes "unat factor < radix" "unat x < radix" "unat y < radix" "unat borrow \<le> radix"
  defines "remove \<equiv> ucast borrow + factor * ucast y"
  defines "difference \<equiv> x - ucast (remove AND kBigitMask)"
  defines "borrow' \<equiv> (ucast (ucast (drop_bit 31 difference) + drop_bit kBigitSize remove :: 64 word) :: Chunk)"
  shows "int (unat (difference AND kBigitMask)) + int radix * (- int (unat borrow'))
      = int (unat x) + (- (int (unat factor) * int (unat y)) - int (unat borrow))"
    and "unat borrow' \<le> radix"
proof -
  have fy: "unat factor * unat y \<le> (radix - 1) * (radix - 1)" using assms(1,3) by (intro mult_le_mono) auto
  then have "unat (factor * ucast y) = unat factor * unat y" by (simp add: unat_word_ariths)
  then have r: "unat remove = unat borrow + unat factor * unat y"
    unfolding remove_def using fy assms(4) by (simp add: unat_word_ariths)
  have "unat remove \<le> radix + (radix - 1) * (radix - 1)" unfolding r using fy assms(4) by linarith
  then have "unat remove div radix \<le> (radix + (radix - 1) * (radix - 1)) div radix" by (rule div_le_mono)
  then have q: "unat remove div radix \<le> radix - 1" by simp
  have m: "unat (ucast (remove AND kBigitMask) :: Chunk) + unat (0 :: Chunk) \<le> radix"
    using and_bigit_less [of remove] by (simp del: and_bigit_less)
  note s = sub_digit [OF assms(2) m, simplified diff_zero, folded difference_def]
  have b: "unat borrow' = unat (drop_bit 31 difference) + unat remove div radix"
    using s(2) q unfolding borrow'_def
    by (simp add: unsigned_ucast_eq unat_word_ariths unat_drop_bit_div take_bit_nat_eq_self)
  show "unat borrow' \<le> radix" unfolding b using q s(2) by linarith
  have "unat remove mod radix + radix * (unat remove div radix) = unat remove" by (rule mod_mult_div_eq)
  then have "int (unat remove mod radix) + int radix * int (unat remove div radix) = int (unat remove)"
    by (simp only: of_nat_mult [symmetric] of_nat_add [symmetric])
  then show "int (unat (difference AND kBigitMask)) + int radix * (- int (unat borrow'))
      = int (unat x) + (- (int (unat factor) * int (unat y)) - int (unat borrow))"
    using s(1) unfolding b by (simp add: unat_and_bigit r algebra_simps)
qed

lemma sub_times_loop_correct:
  assumes f: "unat factor < radix"
  shows "digits_ok xs \<Longrightarrow> digits_ok ys \<Longrightarrow> i + off + n \<le> length xs \<Longrightarrow> i + n \<le> length ys \<Longrightarrow> unat borrow \<le> radix \<Longrightarrow>
     \<exists>xs' borrow'. sub_times_loop xs ys factor i n off borrow = Some (xs', borrow') \<and> digits_ok xs' \<and> unat borrow' \<le> radix
       \<and> same_from (i + off + n) xs xs'
       \<and> int (bval xs') - int radix ^ (i + off + n) * int (unat borrow')
           = int (bval xs) - int radix ^ (i + off) * (int (unat factor) * int (bval (take n (drop i ys))) + int (unat borrow))"
proof (induction n arbitrary: xs i borrow)
  case (Suc n)
  let ?p = "i + off"
  define remove where "remove = ucast borrow + factor * ucast (ys ! i)"
  define difference where "difference = xs ! ?p - ucast (remove AND kBigitMask)"
  define b' where "b' = (ucast (ucast (drop_bit 31 difference) + drop_bit kBigitSize remove :: 64 word) :: Chunk)"
  let ?xs = "xs[?p := difference AND kBigitMask]"
  have x: "?p < length xs" "unat (xs ! ?p) < radix" and y: "i < length ys" "unat (ys ! i) < radix"
    using Suc.prems by (auto intro: digits_okD)
  note st = sub_times_step [OF f x(2) y(2) Suc.prems(5), folded remove_def, folded difference_def, folded b'_def]
  have "digits_ok ?xs" "i + 1 + off + n \<le> length ?xs" "i + 1 + n \<le> length ys" using Suc.prems by (auto intro: digits_ok_update)
  from Suc.IH [OF this(1) Suc.prems(2) this(2,3) st(2)]
  obtain xs' borrow' where r: "sub_times_loop ?xs ys factor (i + 1) n off b' = Some (xs', borrow')"
      "digits_ok xs'" "unat borrow' \<le> radix" "same_from (i + 1 + off + n) ?xs xs'"
      "int (bval xs') - int radix ^ (i + 1 + off + n) * int (unat borrow')
        = int (bval ?xs) - int radix ^ (i + 1 + off) * (int (unat factor) * int (bval (take n (drop (i + 1) ys))) + int (unat b'))"
    by blast
  note ds = digit_step [OF x(1) st(1)]
  have "int (bval (take (Suc n) (drop i ys))) = int (unat (ys ! i)) + int radix * int (bval (take n (drop (Suc i) ys)))"
    using bval_take_Suc [OF y(1)] by simp
  with ds r(5) have "int (bval xs') - int radix ^ (?p + Suc n) * int (unat borrow')
      = int (bval xs) - int radix ^ ?p * (int (unat factor) * int (bval (take (Suc n) (drop i ys))) + int (unat borrow))"
    by (simp add: algebra_simps)
  moreover have "same_from (?p + Suc n) xs xs'" using r(4) same_from_step [of ?p n] by simp
  ultimately show ?case using x(1) y(1) r(1-3)
    by (simp add: arr_simps Let_def remove_def [symmetric]) (simp add: difference_def [symmetric] b'_def [symmetric])
qed simp

lemma bval_small_update:
  assumes "digits_ok xs" "bval xs < radix ^ m" "i < m" "i < length xs" "unat v < radix"
  shows "bval (xs[i := v]) < radix ^ m"
proof (cases "m \<le> length xs")
  case True
  have "bval xs = bval (take m xs) + radix ^ m * bval (drop m xs)"
    using bval_append [of "take m xs" "drop m xs"] True by simp
  then have "radix ^ m * bval (drop m xs) < radix ^ m * 1" using assms(2) by linarith
  then have 0: "bval (drop m xs) = 0" by (simp only: mult_less_cancel1) simp
  have "xs[i := v] = (take m xs)[i := v] @ drop m xs"
    using assms(3) by (metis append_take_drop_id drop_update_cancel take_update_swap)
  then have "bval (xs[i := v]) = bval ((take m xs)[i := v])" using 0 by (simp add: bval_append)
  also have "\<dots> < radix ^ length ((take m xs)[i := v])"
    using assms(1,5) by (intro bval_less digits_ok_update digits_ok_take)
  finally show ?thesis using True by simp
next
  case False
  have "bval (xs[i := v]) < radix ^ length (xs[i := v])" using assms(1,5) by (intro bval_less digits_ok_update)
  also have "\<dots> \<le> radix ^ m" using False by (intro power_increasing) auto
  finally show ?thesis .
qed

lemma sub_rest_loop_correct:
  "digits_ok xs \<Longrightarrow> unat borrow \<le> radix \<Longrightarrow> i + n \<le> length xs \<Longrightarrow> radix ^ i * unat borrow \<le> bval xs \<Longrightarrow> bval xs < radix ^ (i + n) \<Longrightarrow>
     \<exists>xs' ret. sub_rest_loop xs i n borrow = Some (xs', ret) \<and> digits_ok xs' \<and> length xs' = length xs
       \<and> bval xs' = bval xs - radix ^ i * unat borrow \<and> (ret \<longrightarrow> 0 < n \<and> xs' ! (i + n - 1) = xs ! (i + n - 1))"
proof (induction n arbitrary: xs i borrow)
  case 0
  have "unat borrow = 0"
  proof (rule ccontr)
    assume "unat borrow \<noteq> 0"
    then have "radix ^ i * 1 \<le> radix ^ i * unat borrow" by (intro mult_le_mono2) simp
    with 0 show False by simp
  qed
  with 0 show ?case by auto
next
  case (Suc n)
  show ?case
  proof (cases "borrow = 0")
    case True
    with Suc.prems show ?thesis by auto
  next
    case False
    define w where "w = xs ! i - borrow"
    let ?xs = "xs[i := w AND kBigitMask]" let ?b = "drop_bit 31 w"
    have i: "i < length xs" and x: "unat (xs ! i) < radix" using Suc.prems by (auto intro: digits_okD)
    have w: "int (unat (w AND kBigitMask)) - int radix * int (unat ?b) = int (unat (xs ! i)) - int (unat borrow)" "unat ?b \<le> 1"
      using sub_digit [OF x, of 0 borrow] Suc.prems(2) by (simp_all add: w_def)
    have "int (bval ?xs) + int radix ^ Suc i * (- int (unat ?b)) = int (bval xs) + (- int (unat borrow)) * int radix ^ i"
      using w(1) by (intro digit_step [OF i]) simp
    then have "int (bval ?xs + radix ^ i * unat borrow) = int (bval xs + radix ^ Suc i * unat ?b)"
      by (simp add: algebra_simps)
    then have v: "bval ?xs + radix ^ i * unat borrow = bval xs + radix ^ Suc i * unat ?b" by (simp only: of_nat_eq_iff)
    have "digits_ok ?xs" "Suc i + n \<le> length ?xs" "unat ?b \<le> radix" using Suc.prems w(2) by (auto intro: digits_ok_update)
    moreover have "radix ^ Suc i * unat ?b \<le> bval ?xs" using v Suc.prems(4) by linarith
    moreover have "bval ?xs < radix ^ (Suc i + n)"
      using bval_small_update [OF Suc.prems(1,5) _ i, of "w AND kBigitMask"] by simp
    ultimately obtain xs' ret where r: "sub_rest_loop ?xs (Suc i) n ?b = Some (xs', ret)" "digits_ok xs'" "length xs' = length xs"
        "bval xs' = bval ?xs - radix ^ Suc i * unat ?b" "ret \<longrightarrow> 0 < n \<and> xs' ! (Suc i + n - 1) = ?xs ! (Suc i + n - 1)"
      using Suc.IH [of ?xs ?b "Suc i"] by auto
    then show ?thesis using v False i by (auto simp: arr_simps w_def [symmetric] Let_def)
  qed
qed

lemma subtract_n_correct:
  "bn_ok a \<Longrightarrow> bn_ok b \<Longrightarrow> exponent a \<le> exponent b \<Longrightarrow> n * bnval b \<le> bnval a \<Longrightarrow>
     \<exists>c. subtract_n a b n = Some c \<and> bn_ok c \<and> bnval c = bnval a - n * bnval b \<and> exponent c \<le> exponent b"
proof (induction n arbitrary: a)
  case (Suc n)
  have "bnval b \<le> bnval a" using Suc.prems(4) by simp
  with SubtractBignum_correct [OF Suc.prems(1,2)] Suc.prems(3) obtain a' where
    a': "SubtractBignum a b = Some a'" "bn_ok a'" "bnval a' = bnval a - bnval b" "0 < used_digits a' \<longrightarrow> exponent a' = exponent a"
    by (auto simp: min_def split: if_splits)
  have "exponent a' \<le> exponent b" using a'(4) bn_okD(6) [OF a'(2)] Suc.prems(3) by (cases "used_digits a' = 0") auto
  from Suc.IH [OF a'(2) Suc.prems(2) this] a' Suc.prems(4) show ?case by auto
qed auto

lemma aligned_fits:
  assumes ok: "bn_ok a" "bn_ok b" and e: "exponent a \<le> exponent b" and le: "bnval b \<le> bnval a"
  shows "used_digits b + (exponent b - exponent a) \<le> used_digits a"
proof (rule ccontr)
  assume "\<not> ?thesis"
  then have "BigitLength a < BigitLength b" using e by (auto simp: BigitLength_def)
  with shorter_less [OF ok this] le show False by simp
qed

lemma SubtractTimes_correct:
  assumes ok: "bn_ok a" "bn_ok b" and e: "exponent a \<le> exponent b" and f: "f < radix" and le: "f * bnval b \<le> bnval a"
  shows "\<exists>c. SubtractTimes a b (int f) = Some c \<and> bn_ok c \<and> bnval c = bnval a - f * bnval b \<and> exponent c \<le> exponent b"
proof (cases "f < 3")
  case True
  with subtract_n_correct [OF ok e le] show ?thesis by (simp add: SubtractTimes_def)
next
  case False
  note da = bn_okD [OF ok(1)] and db = bn_okD [OF ok(2)]
  define p0 where "p0 = exponent b - exponent a"
  have "1 * bnval b \<le> f * bnval b" using False by (intro mult_le_mono1) simp
  then have "bnval b \<le> bnval a" using le by linarith
  from aligned_fits [OF ok e this] have fit: "used_digits b + p0 \<le> used_digits a" by (simp add: p0_def)
  have "f * bval (bigits b) * radix ^ (p0 + exponent a) \<le> bval (bigits a) * radix ^ exponent a"
    using le e by (simp add: bnval_def p0_def mult.assoc)
  then have le': "radix ^ p0 * (f * bval (bigits b)) \<le> bval (bigits a)" by (simp add: power_add algebra_simps)
  have w: "unat (word_of_int (int f) :: 64 word) = f" using f by (simp add: unsigned_of_nat take_bit_nat_eq_self)
  have "unat (word_of_int (int f) :: 64 word) < radix" using w f by simp
  from sub_times_loop_correct [OF this da(3) db(3), of 0 p0 "used_digits b" 0] da(2,4) db(2,4) fit w
  obtain xs br where x: "sub_times_loop (bigits a) (bigits b) (word_of_int (int f)) 0 (used_digits b) p0 0 = Some (xs, br)" "digits_ok xs"
      "unat br \<le> radix" "same_from (p0 + used_digits b) (bigits a) xs"
      "int (bval xs) - int radix ^ (p0 + used_digits b) * int (unat br)
         = int (bval (bigits a)) - int radix ^ p0 * (int f * int (bval (bigits b)))"
    by (auto simp: raw_bval [OF db(1)])
  let ?i = "used_digits b + p0" let ?n = "used_digits a - ?i"
  have "int (bval xs + radix ^ p0 * (f * bval (bigits b))) = int (bval (bigits a) + radix ^ ?i * unat br)"
    using x(5) by (simp add: algebra_simps)
  then have v: "bval xs + radix ^ p0 * (f * bval (bigits b)) = bval (bigits a) + radix ^ ?i * unat br" by (simp only: of_nat_eq_iff)
  have len: "length xs = 128" using x(4) da(2) by (simp add: same_from_def)
  have raw: "bn_raw (a\<lparr>bigits := xs\<rparr>)" using da x(2,4) len fit by (intro rawI) (auto simp: same_from_def)
  have "radix ^ ?i * unat br \<le> bval xs" "?i + ?n \<le> length xs" "bval xs < radix ^ (?i + ?n)"
    using v le' fit da(4) len raw_less [OF raw] by auto
  from sub_rest_loop_correct [OF x(2,3) this(2,1,3)] obtain ys ret where
    y: "sub_rest_loop xs ?i ?n br = Some (ys, ret)" "digits_ok ys" "length ys = 128"
      "bval ys = bval xs - radix ^ ?i * unat br" "ret \<longrightarrow> 0 < ?n \<and> ys ! (?i + ?n - 1) = xs ! (?i + ?n - 1)"
    using len by auto
  have vy: "bval ys = bval (bigits a) - radix ^ p0 * (f * bval (bigits b))" using y(4) v le' by linarith
  define c0 where "c0 = a\<lparr>bigits := ys\<rparr>"
  have rawc: "bn_raw c0" unfolding c0_def by (rule raw_by_value) (use y da vy raw_less [OF da(1)] in auto)
  have vc: "bnval c0 = bnval a - f * bnval b"
    using vy e by (simp add: bnval_def c0_def p0_def diff_mult_distrib flip: power_add) (simp add: algebra_simps flip: power_add)
  have eq: "SubtractTimes a b (int f) = (if ret then Some c0 else Clamp c0)"
    using x(1) y(1) False by (simp add: SubtractTimes_def p0_def [symmetric] c0_def)
  show ?thesis
  proof (cases ret)
    case True
    then have "ys ! (used_digits a - 1) = bigits a ! (used_digits a - 1)" "0 < used_digits a"
      using y(5) x(4) fit da(2,4) by (auto simp: same_from_def)
    then have "bn_ok c0" using da(7) rawc bn_rawD [OF rawc] by (intro bn_okI) (auto simp: c0_def)
    with True eq vc e show ?thesis by (simp add: c0_def)
  next
    case False
    from Clamp_correct [OF rawc] obtain c where c: "Clamp c0 = Some c" "bn_ok c" "bnval c = bnval c0" "0 < used_digits c \<longrightarrow> exponent c = exponent a"
      by (auto simp: c0_def)
    have "exponent c \<le> exponent b" using c(4) bn_okD(6) [OF c(2)] e by (cases "used_digits c = 0") auto
    with False eq vc c show ?thesis by simp
  qed
qed

section \<open>Division\<close>

lemma top_bigit_correct:
  assumes ok: "bn_ok b" and u: "0 < used_digits b"
  obtains t where "top_bigit b = Some t" "0 < unat t" "unat t < radix"
    "unat t * radix ^ (BigitLength b - 1) \<le> bnval b" "bnval b < (unat t + 1) * radix ^ (BigitLength b - 1)"
proof -
  note d = bn_okD [OF ok]
  define t where "t = bigits b ! (used_digits b - 1)"
  have t: "top_bigit b = Some t" "t \<noteq> 0" "unat t < radix"
    using u d(2,3,4,7) by (auto simp: top_bigit_def bget_def t_def intro!: digits_okD)
  let ?i = "BigitLength b - 1"
  obtain x where x: "BigitAt b ?i = Some x" "bnval b div radix ^ ?i = unat x + radix * (bnval b div radix ^ Suc ?i)"
    using BigitAt_correct [OF ok] by blast
  have "x = t" using x(1) u d(2,4) by (auto simp: BigitAt_def BigitLength_def bget_def t_def split: if_splits)
  moreover have "bnval b div radix ^ Suc ?i = 0"
    using bnval_bounds(1) [OF ok] u by (simp add: BigitLength_def flip: power_Suc)
  ultimately have q: "bnval b div radix ^ ?i = unat t" using x(2) by simp
  have "unat t * radix ^ ?i \<le> bnval b" unfolding q [symmetric] by (rule div_times_less_eq_dividend)
  moreover have "bnval b < (unat t + 1) * radix ^ ?i"
    using dividend_less_div_times [of "radix ^ ?i" "bnval b"] q by simp
  ultimately show ?thesis using that [OF t(1) _ t(3)] t(2) by (simp add: unat_gt_0)
qed

lemma single_digit:
  assumes "bn_ok b" "used_digits b = 1" "top_bigit b = Some t"
  shows "bnval b = unat t * radix ^ (BigitLength b - 1)"
proof -
  note d = bn_okD [OF assms(1)]
  have "t = bigits b ! 0" using assms(2,3) d(2) by (simp add: top_bigit_def bget_def)
  moreover have "take 1 (bigits b) = [bigits b ! 0]" using d(2) by (cases "bigits b") auto
  ultimately have "bval (bigits b) = unat t" using raw_bval [OF d(1)] assms(2) by simp
  then show ?thesis using assms(2) by (simp add: bnval_def BigitLength_def)
qed

text \<open>The state after the first loop: as long as the divisor, or shorter in the one case where that
  happens, a divisor of several digits whose first one is the greatest.\<close>

definition reduced :: "Bignum \<Rightarrow> Bignum \<Rightarrow> bool" where
  "reduced b other \<longleftrightarrow> bn_ok b \<and> 0 < bnval b \<and> exponent b \<le> exponent other
     \<and> (BigitLength b = BigitLength other
        \<or> BigitLength b < BigitLength other \<and> used_digits other \<noteq> 1 \<and> top_bigit other = Some kBigitMask)"

lemma reduce_step:
  assumes ok: "bn_ok b" "bn_ok other" "0 < used_digits other" and e: "exponent b \<le> exponent other"
    and L: "BigitLength other < BigitLength b" and t: "top_bigit b = Some t"
  obtains c where "SubtractTimes b other (uint t) = Some c" "bn_ok c" "bnval b = unat t * bnval other + bnval c" "0 < unat t" "0 < bnval c"
    "exponent c \<le> exponent other" "BigitLength other < BigitLength c \<or> reduced c other"
proof -
  let ?L = "BigitLength other" let ?O = "bnval other"
  have "0 < used_digits b" using L long_positive [OF ok(1)] by simp
  then obtain t' where t': "top_bigit b = Some t'" "0 < unat t'" "unat t' < radix" "unat t' * radix ^ (BigitLength b - 1) \<le> bnval b"
    using top_bigit_correct [OF ok(1)] by blast
  have tt: "0 < unat t" "unat t < radix" "unat t * radix ^ (BigitLength b - 1) \<le> bnval b" using t t' by auto
  have "radix ^ ?L \<le> radix ^ (BigitLength b - 1)" using L by (intro power_increasing) auto
  then have "unat t * radix ^ ?L \<le> unat t * radix ^ (BigitLength b - 1)" by (rule mult_le_mono2)
  then have a: "unat t * radix ^ ?L \<le> bnval b" using tt(3) by linarith
  have O: "?O < radix ^ ?L" by (rule bnval_bounds(1) [OF ok(2)])
  have gap: "unat t * ?O + (radix ^ ?L - ?O) \<le> bnval b"
  proof -
    have "1 * (radix ^ ?L - ?O) \<le> unat t * (radix ^ ?L - ?O)" using tt(1) by (intro mult_le_mono1) simp
    moreover have "unat t * (radix ^ ?L - ?O) = unat t * radix ^ ?L - unat t * ?O" by (rule diff_mult_distrib2)
    moreover have "unat t * ?O \<le> unat t * radix ^ ?L" using O by (intro mult_le_mono2) simp
    ultimately show ?thesis using a by linarith
  qed
  then have le: "unat t * ?O \<le> bnval b" by linarith
  from SubtractTimes_correct [OF ok(1,2) e tt(2) le] obtain c where
    c: "SubtractTimes b other (uint t) = Some c" "bn_ok c" "bnval c = bnval b - unat t * ?O" "exponent c \<le> exponent other"
    by (auto simp: of_nat_unat)
  have cg: "radix ^ ?L - ?O \<le> bnval c" using gap c(3) by linarith
  have pos: "0 < bnval c" using cg O by linarith
  have "?L < BigitLength c \<or> reduced c other"
  proof (cases "BigitLength c < ?L")
    case False
    then show ?thesis using c(2,4) pos by (auto simp: reduced_def)
  next
    case True
    obtain s where s: "top_bigit other = Some s" "unat s < radix" "?O < (unat s + 1) * radix ^ (?L - 1)"
      using top_bigit_correct [OF ok(2,3)] by blast
    have small: "bnval c < radix ^ (?L - 1)" using True by (intro bnval_less_power [OF c(2)]) simp
    have RL: "radix ^ ?L = radix * radix ^ (?L - 1)" using True by (cases ?L) auto
    have "268435455 * radix ^ (?L - 1) < (unat s + 1) * radix ^ (?L - 1)"
      using cg small s(3) unfolding RL distrib_right by linarith
    then have "268435455 < unat s + 1" by (simp only: mult_less_cancel2)
    then have us: "unat s = radix - 1" using s(2) by simp
    then have "s = kBigitMask" by (simp add: word_unat_eq_iff)
    moreover have "used_digits other \<noteq> 1"
    proof
      assume "used_digits other = 1"
      from single_digit [OF ok(2) this s(1)] us RL cg small show False by simp
    qed
    ultimately show ?thesis using True c(2,4) pos s(1) by (simp add: reduced_def)
  qed
  with that c pos le tt(1) show ?thesis by simp
qed

lemma reduce_loop_correct:
  assumes o: "bn_ok other" "0 < used_digits other"
  shows "bn_ok b \<Longrightarrow> exponent b \<le> exponent other \<Longrightarrow> BigitLength other < BigitLength b \<or> reduced b other \<Longrightarrow>
    \<exists>c k. reduce_loop b other r = Some (c, r + of_nat k) \<and> reduced c other \<and> bnval b = k * bnval other + bnval c"
proof (induction "bnval b" arbitrary: b r rule: less_induct)
  case less
  show ?case
  proof (cases "BigitLength other < BigitLength b")
    case True
    have "0 < used_digits b" using True long_positive [OF less.prems(1)] by simp
    then obtain t where t: "top_bigit b = Some t" using top_bigit_correct [OF less.prems(1)] by blast
    from reduce_step [OF less.prems(1) o less.prems(2) True t] obtain c1 where
      c1: "SubtractTimes b other (uint t) = Some c1" "bn_ok c1" "bnval b = unat t * bnval other + bnval c1" "0 < unat t"
        "exponent c1 \<le> exponent other" "BigitLength other < BigitLength c1 \<or> reduced c1 other"
      by blast
    have "0 < bnval other" using bnval_bounds(3) [OF o(1)] o(2) by simp
    then have "bnval c1 < bnval b" using c1(3,4) by simp
    from less.hyps [OF this c1(2,5,6), of "r + ucast t"] obtain c k where
      c: "reduce_loop c1 other (r + ucast t) = Some (c, r + ucast t + of_nat k)" "reduced c other" "bnval c1 = k * bnval other + bnval c"
      by blast
    have "bnval b = (unat t + k) * bnval other + bnval c" using c1(3) c(3) by (simp add: algebra_simps)
    moreover have "reduce_loop b other r = Some (c, r + of_nat (unat t + k))"
      using True t c1(1) c(1) by (subst reduce_loop.simps) (simp add: of_nat_unat add.assoc)
    ultimately show ?thesis using c(2) by blast
  next
    case False
    then have "reduce_loop b other r = Some (b, r + of_nat 0)" by (subst reduce_loop.simps) simp
    with False less.prems(3) show ?thesis by (intro exI [of _ b] exI [of _ 0]) auto
  qed
qed

lemma subtract_loop_correct:
  assumes o: "bn_ok other" "0 < used_digits other"
  shows "bn_ok b \<Longrightarrow> exponent b \<le> exponent other \<Longrightarrow>
    \<exists>c k. subtract_loop b other r = Some (c, r + of_nat k) \<and> bn_ok c \<and> bnval b = k * bnval other + bnval c \<and> bnval c < bnval other"
proof (induction "bnval b" arbitrary: b r rule: less_induct)
  case less
  have pos: "0 < bnval other" using bnval_bounds(3) [OF o(1)] o(2) by simp
  have cmp: "LessEqual other b = Some (bnval other \<le> bnval b)"
    using Compare_correct [OF o(1) less.prems(1)] by (auto simp: LessEqual_def three_way_def)
  show ?case
  proof (cases "bnval other \<le> bnval b")
    case True
    from subtract_n_correct [OF less.prems(1) o(1) less.prems(2), of 1] True obtain b' where
      b': "SubtractBignum b other = Some b'" "bn_ok b'" "bnval b' = bnval b - bnval other" "exponent b' \<le> exponent other"
      by (auto split: Option.bind_splits)
    have "bnval b' < bnval b" using b'(3) pos True by simp
    from less.hyps [OF this b'(2,4), of "r + 1"] obtain c k where
      c: "subtract_loop b' other (r + 1) = Some (c, r + 1 + of_nat k)" "bn_ok c" "bnval b' = k * bnval other + bnval c" "bnval c < bnval other"
      by blast
    have "bnval b = Suc k * bnval other + bnval c" using b'(3) c(3) True by simp
    moreover have "subtract_loop b other r = Some (c, r + of_nat (Suc k))"
      using cmp True b'(1) c(1) by (subst subtract_loop.simps) (simp add: add.assoc)
    ultimately show ?thesis using c(2,4) by blast
  next
    case False
    then have "subtract_loop b other r = Some (b, r + of_nat 0)" using cmp by (subst subtract_loop.simps) simp
    with False less.prems show ?thesis by (intro exI [of _ b] exI [of _ 0]) auto
  qed
qed

lemma divmod_unique:
  fixes a k n r :: nat
  assumes "a = k * n + r" "r < n"
  shows "a div n = k" "a mod n = r"
  using assms by simp_all

text \<open>The last digit of a one-digit divisor: the digits below the first one stay.\<close>

lemma single_step:
  assumes ok: "bn_ok b" "bn_ok other" and L: "BigitLength b = BigitLength other" "used_digits other = 1"
    and t: "top_bigit b = Some t" and s: "top_bigit other = Some s"
  obtains c where "Clamp (b\<lparr>bigits := (bigits b)[used_digits b - 1 := t - s * (t div s)]\<rparr>) = Some c" "bn_ok c"
    "bnval b = unat (t div s) * bnval other + bnval c" "bnval c < bnval other"
proof -
  note d = bn_okD [OF ok(1)]
  let ?u = "used_digits b - 1" let ?P = "radix ^ (BigitLength b - 1)"
  have u: "0 < used_digits b" using t by (auto simp: top_bigit_def split: if_splits)
  have tb: "bigits b ! ?u = t" "?u < length (bigits b)" using t u d(2,4) by (auto simp: top_bigit_def bget_def split: if_splits)
  have bt: "unat t < radix" "bnval b < (unat t + 1) * ?P" using top_bigit_correct [OF ok(1) u] t by auto
  have s0: "0 < unat s" using top_bigit_correct [OF ok(2)] L(2) s by auto
  define v where "v = t - s * (t div s)"
  have "t - s * (t div s) = t mod s" by (simp only: minus_mult_div_eq_mod)
  then have v: "unat v = unat t mod unat s" by (simp add: v_def unat_mod)
  define b' where "b' = b\<lparr>bigits := (bigits b)[?u := v]\<rparr>"
  have vr: "unat v < radix" unfolding v by (rule le_less_trans [OF mod_less_eq_dividend bt(1)])
  have raw: "bn_raw b'" using d u vr by (intro rawI) (auto simp: b'_def nth_list_update intro!: digits_ok_update)
  have "bval (bigits b') + unat t * radix ^ ?u = bval (bigits b) + unat v * radix ^ ?u"
    using bval_update [OF tb(2), of v] tb(1) by (simp add: b'_def)
  then have "(bval (bigits b') + unat t * radix ^ ?u) * radix ^ exponent b = (bval (bigits b) + unat v * radix ^ ?u) * radix ^ exponent b"
    by (simp only:)
  moreover have P: "?P = radix ^ ?u * radix ^ exponent b" using u by (simp add: BigitLength_def flip: power_add)
  ultimately have e: "bnval b' + unat t * ?P = bnval b + unat v * ?P" by (simp add: bnval_def b'_def distrib_right mult.assoc)
  have O: "bnval other = unat s * ?P" using single_digit [OF ok(2) L(2) s] L(1) by simp
  have "unat t = unat (t div s) * unat s + unat v" by (simp add: v unat_div)
  then have "unat t * ?P = (unat (t div s) * unat s + unat v) * ?P" by (simp only:)
  then have "unat t * ?P = unat (t div s) * bnval other + unat v * ?P" by (simp only: O distrib_right mult.assoc)
  then have b: "bnval b = unat (t div s) * bnval other + bnval b'" using e by linarith
  have "unat v + 1 \<le> unat s" using v s0 by (simp add: Suc_le_eq)
  then have "(unat v + 1) * ?P \<le> bnval other" unfolding O by (rule mult_le_mono1)
  then have lt: "bnval b' < bnval other" using e bt(2) by (simp add: distrib_right)
  from Clamp_correct [OF raw] b lt show ?thesis using that unfolding b'_def v_def by auto
qed

lemma estimate_le:
  assumes ok: "bn_ok b" "bn_ok other" "0 < used_digits other" "0 < used_digits b" and L: "BigitLength b = BigitLength other"
    and t: "top_bigit b = Some t" and s: "top_bigit other = Some s" and q: "q = unat t div (unat s + 1)"
  shows "q * bnval other \<le> bnval b" "unat t < unat s * (q + 1) \<Longrightarrow> bnval b < (q + 1) * bnval other"
proof -
  let ?P = "radix ^ (BigitLength b - 1)"
  have bt: "unat t * ?P \<le> bnval b" "bnval b < (unat t + 1) * ?P" using top_bigit_correct [OF ok(1,4)] t by auto
  have bs: "unat s * ?P \<le> bnval other" "bnval other < (unat s + 1) * ?P" using top_bigit_correct [OF ok(2,3)] s L by auto
  have "q * bnval other \<le> q * ((unat s + 1) * ?P)" using bs(2) by (intro mult_le_mono2) simp
  also have "\<dots> = (q * (unat s + 1)) * ?P" by (simp only: mult.assoc)
  also have "\<dots> \<le> unat t * ?P" unfolding q by (intro mult_le_mono1 div_times_less_eq_dividend)
  finally show "q * bnval other \<le> bnval b" using bt(1) by linarith
  assume "unat t < unat s * (q + 1)"
  then have "(unat t + 1) * ?P \<le> (unat s * (q + 1)) * ?P" by (intro mult_le_mono1) simp
  also have "\<dots> = (q + 1) * (unat s * ?P)" by (simp only: mult_ac)
  also have "\<dots> \<le> (q + 1) * bnval other" using bs(1) by (rule mult_le_mono2)
  finally show "bnval b < (q + 1) * bnval other" using bt(2) by linarith
qed

text \<open>The last part of the division for a divisor of several digits.\<close>

lemma estimate_step:
  assumes o: "bn_ok other" "0 < used_digits other" and b: "reduced b other"
    and t: "top_bigit b = Some t" and s: "top_bigit other = Some s"
  defines "q \<equiv> t div (s + 1)"
  shows "\<exists>c k. do { b2 \<leftarrow> SubtractTimes b other (uint q);
                  if s * (q + 1) > t then Some (b2, r + ucast q) else subtract_loop b2 other (r + ucast q) }
      = Some (c, r + of_nat k) \<and> bn_ok c \<and> bnval b = k * bnval other + bnval c \<and> bnval c < bnval other"
proof -
  have ok: "bn_ok b" "exponent b \<le> exponent other" and u: "0 < used_digits b"
    using b bnval_bounds(3) [of b] by (auto simp: reduced_def)
  have tr: "unat t < radix" using top_bigit_correct [OF ok(1) u] t by auto
  have sr: "0 < unat s" "unat s < radix" using top_bigit_correct [OF o] s by auto
  have s1: "unat (s + 1) = unat s + 1" using sr by (simp add: unat_word_ariths)
  have q: "unat q = unat t div (unat s + 1)" by (simp add: q_def unat_div s1)
  have qs: "unat q * (unat s + 1) \<le> unat t" unfolding q by (rule div_times_less_eq_dividend)
  have "unat q * 1 \<le> unat q * (unat s + 1)" by (rule mult_le_mono2) simp
  then have qr: "unat q < radix" using qs tr by linarith
  have prod: "unat (s * (q + 1)) = unat s * (unat q + 1)"
  proof -
    have "unat s * (unat q + 1) \<le> unat t + unat s" using qs by (simp add: algebra_simps)
    then have "unat s * (unat q + 1) < 2 ^ 32" using tr sr by simp
    moreover have "unat (q + 1) = unat q + 1" using qr by (simp add: unat_word_ariths)
    ultimately show ?thesis by (simp add: unat_word_ariths)
  qed
  have le: "unat q * bnval other \<le> bnval b" and lt: "unat t < unat s * (unat q + 1) \<Longrightarrow> bnval b < (unat q + 1) * bnval other"
  proof -
    have "unat q * bnval other \<le> bnval b \<and> (unat t < unat s * (unat q + 1) \<longrightarrow> bnval b < (unat q + 1) * bnval other)"
    proof (cases "BigitLength b = BigitLength other")
      case True
      then show ?thesis using estimate_le [OF ok(1) o u True t s q] by blast
    next
      case False
      then have L: "BigitLength b < BigitLength other" "unat s = 268435455" using b s by (auto simp: reduced_def)
      then have "unat q = 0" using q tr by simp
      with shorter_less [OF ok(1) o(1) L(1)] show ?thesis by simp
    qed
    then show "unat q * bnval other \<le> bnval b" "unat t < unat s * (unat q + 1) \<Longrightarrow> bnval b < (unat q + 1) * bnval other" by auto
  qed
  from SubtractTimes_correct [OF ok(1) o(1) ok(2) qr le] obtain b2 where
    b2: "SubtractTimes b other (uint q) = Some b2" "bn_ok b2" "bnval b2 = bnval b - unat q * bnval other" "exponent b2 \<le> exponent other"
    by (auto simp: of_nat_unat)
  have vb: "bnval b = unat q * bnval other + bnval b2" using b2(3) le by simp
  have uq: "ucast q = (of_nat (unat q) :: 16 word)" by (simp add: of_nat_unat)
  show ?thesis
  proof (cases "t < s * (q + 1)")
    case True
    then have "bnval b < (unat q + 1) * bnval other" using lt prod by (simp add: word_less_nat_alt)
    then have "bnval b2 < bnval other" using vb by (simp add: distrib_right)
    with True b2 vb uq show ?thesis by auto
  next
    case False
    from subtract_loop_correct [OF o b2(2,4), of "r + ucast q"] obtain c k where
      c: "subtract_loop b2 other (r + ucast q) = Some (c, r + ucast q + of_nat k)" "bn_ok c" "bnval b2 = k * bnval other + bnval c" "bnval c < bnval other"
      by blast
    have "bnval b = (unat q + k) * bnval other + bnval c" using vb c(3) by (simp add: distrib_right)
    moreover have "r + ucast q + of_nat k = r + of_nat (unat q + k)" by (simp add: uq)
    ultimately show ?thesis using False b2(1) c by (intro exI [of _ c] exI [of _ "unat q + k"]) simp
  qed
qed

lemma DivideModuloIntBignum_correct:
  assumes ok: "bn_ok b" "bn_ok other" and u: "0 < used_digits other"
    and cap: "BigitLength b < BigitLength other \<or> exponent b \<le> exponent other \<or> BigitLength b - exponent other \<le> 128"
  shows "\<exists>c. DivideModuloIntBignum b other = Some (c, of_nat (bnval b div bnval other)) \<and> bn_ok c \<and> bnval c = bnval b mod bnval other"
proof (cases "BigitLength b < BigitLength other")
  case True
  with shorter_less [OF ok True] ok(1) show ?thesis by (simp add: DivideModuloIntBignum_def)
next
  case False
  from Align_correct [OF ok(1), of other] cap False obtain b1 where
    b1: "Align b other = Some b1" "bn_ok b1" "bnval b1 = bnval b" "exponent b1 \<le> exponent other" "BigitLength b1 = BigitLength b"
    by (auto split: if_splits)
  have "0 < BigitLength other" using u by (simp add: BigitLength_def)
  then have "0 < used_digits b1" using False b1(5) long_positive [OF b1(2)] by simp
  then have "0 < bnval b1" using bnval_bounds(3) [OF b1(2)] by simp
  then have "BigitLength other < BigitLength b1 \<or> reduced b1 other" using False b1 by (auto simp: reduced_def)
  from reduce_loop_correct [OF ok(2) u b1(2,4) this, of 0] obtain b2 k where
    b2: "reduce_loop b1 other 0 = Some (b2, of_nat k)" "reduced b2 other" "bnval b = k * bnval other + bnval b2"
    using b1(3) by auto
  have ok2: "bn_ok b2" "0 < used_digits b2" using b2(2) bnval_bounds(3) [of b2] by (auto simp: reduced_def)
  obtain t where t: "top_bigit b2 = Some t" using top_bigit_correct [OF ok2] by blast
  obtain s where s: "top_bigit other = Some s" using top_bigit_correct [OF ok(2) u] by blast
  have "\<exists>c m. DivideModuloIntBignum b other = Some (c, of_nat k + of_nat m) \<and> bn_ok c \<and> bnval b2 = m * bnval other + bnval c \<and> bnval c < bnval other"
  proof (cases "used_digits other = 1")
    case True
    then have "BigitLength b2 = BigitLength other" using b2(2) by (auto simp: reduced_def)
    from single_step [OF ok2(1) ok(2) this True t s] obtain c where
      "Clamp (b2\<lparr>bigits := (bigits b2)[used_digits b2 - 1 := t - s * (t div s)]\<rparr>) = Some c" "bn_ok c"
      "bnval b2 = unat (t div s) * bnval other + bnval c" "bnval c < bnval other"
      by blast
    with True False b1(1) b2(1) t s show ?thesis
      by (intro exI [of _ c] exI [of _ "unat (t div s)"]) (simp add: DivideModuloIntBignum_def Let_def of_nat_unat)
  next
    case several: False
    from estimate_step [OF ok(2) u b2(2) t s, of "of_nat k"] several False b1(1) b2(1) t s show ?thesis
      by (simp add: DivideModuloIntBignum_def Let_def)
  qed
  then obtain c m where c: "DivideModuloIntBignum b other = Some (c, of_nat (k + m))" "bn_ok c" "bnval b2 = m * bnval other + bnval c" "bnval c < bnval other"
    by auto
  have "bnval b = (k + m) * bnval other + bnval c" using b2(3) c(3) by (simp add: distrib_right)
  from divmod_unique [OF this c(4)] c show ?thesis by auto
qed

end
