(* ===== verification/BignumPower.thy ===== *)
theory BignumPower
  imports BignumMul
begin

text \<open>
  Squares and powers of the big integers (\<open>bignum.cc\<close>): the column-wise ("Comba") square and the
  left-to-right exponentiation that starts in a 64-bit word.
\<close>

section \<open>Model\<close>

fun dup_loop :: "Chunk list \<Rightarrow> nat \<Rightarrow> nat \<Rightarrow> nat \<Rightarrow> Chunk list option" where
  "dup_loop xs copy_offset i 0 = Some xs"
| "dup_loop xs copy_offset i (Suc n) =
     do { v \<leftarrow> bget xs i; xs' \<leftarrow> bput xs (copy_offset + i) v; dup_loop xs' copy_offset (i + 1) n }"

text \<open>The sum of the sub-products of a column; the third number is the count of rounds.\<close>

fun column_loop :: "Chunk list \<Rightarrow> nat \<Rightarrow> nat \<Rightarrow> nat \<Rightarrow> nat \<Rightarrow> DoubleChunk \<Rightarrow> DoubleChunk option" where
  "column_loop xs copy_offset bigit_index1 bigit_index2 0 accumulator = Some accumulator"
| "column_loop xs copy_offset bigit_index1 bigit_index2 (Suc n) accumulator =
     do { chunk1 \<leftarrow> bget xs (copy_offset + bigit_index1);
          chunk2 \<leftarrow> bget xs (copy_offset + bigit_index2);
          column_loop xs copy_offset (bigit_index1 - 1) (bigit_index2 + 1) n (accumulator + ucast chunk1 * ucast chunk2) }"

fun square_low_loop :: "Chunk list \<Rightarrow> nat \<Rightarrow> nat \<Rightarrow> nat \<Rightarrow> DoubleChunk \<Rightarrow> (Chunk list \<times> DoubleChunk) option" where
  "square_low_loop xs copy_offset i 0 accumulator = Some (xs, accumulator)"
| "square_low_loop xs copy_offset i (Suc n) accumulator =
     do { acc \<leftarrow> column_loop xs copy_offset i 0 (i + 1) accumulator;
          xs' \<leftarrow> bput xs i (ucast acc AND kBigitMask);
          square_low_loop xs' copy_offset (i + 1) n (drop_bit kBigitSize acc) }"

fun square_high_loop :: "Chunk list \<Rightarrow> nat \<Rightarrow> nat \<Rightarrow> nat \<Rightarrow> DoubleChunk \<Rightarrow> (Chunk list \<times> DoubleChunk) option" where
  "square_high_loop xs used i 0 accumulator = Some (xs, accumulator)"
| "square_high_loop xs used i (Suc n) accumulator =
     do { let bigit_index1 = used - 1;
          let bigit_index2 = i - bigit_index1;
          acc \<leftarrow> column_loop xs used bigit_index1 bigit_index2 (used - bigit_index2) accumulator;
          xs' \<leftarrow> bput xs i (ucast acc AND kBigitMask);
          square_high_loop xs' used (i + 1) n (drop_bit kBigitSize acc) }"

text \<open>The test that guards \<open>UNIMPLEMENTED\<close> cannot hold after the capacity check before it.\<close>

definition Square :: "Bignum \<Rightarrow> Bignum option" where
  "Square b =
     do { let product_length = 2 * used_digits b;
          EnsureCapacity product_length;
          if 2 ^ (2 * (32 - kBigitSize)) \<le> used_digits b then None
          else do {
            xs \<leftarrow> dup_loop (bigits b) (used_digits b) 0 (used_digits b);
            (ys, acc) \<leftarrow> square_low_loop xs (used_digits b) 0 (used_digits b) 0;
            (zs, acc') \<leftarrow> square_high_loop ys (used_digits b) (used_digits b) (product_length - used_digits b) acc;
            Clamp (b\<lparr>bigits := zs, used_digits := product_length, exponent := 2 * exponent b\<rparr>) } }"

partial_function (option) strip_loop :: "16 word \<Rightarrow> nat \<Rightarrow> (16 word \<times> nat) option" where
  "strip_loop base shifts =
     (if base AND 1 = 0 then strip_loop (drop_bit 1 base) (shifts + 1) else Some (base, shifts))"

declare strip_loop.simps [code]

function bit_size_loop :: "nat \<Rightarrow> nat \<Rightarrow> nat" where
  "bit_size_loop tmp_base bit_size =
     (if tmp_base \<noteq> 0 then bit_size_loop (tmp_base div 2) (bit_size + 1) else bit_size)"
  by pat_completeness auto
termination by (relation "measure fst") auto

partial_function (option) mask_loop :: "nat \<Rightarrow> nat \<Rightarrow> nat option" where
  "mask_loop power_exponent m = (if power_exponent \<ge> m then mask_loop power_exponent (2 * m) else Some m)"

declare mask_loop.simps [code]

function power64_loop :: "16 word \<Rightarrow> nat \<Rightarrow> nat \<Rightarrow> nat \<Rightarrow> 64 word \<Rightarrow> bool \<Rightarrow> nat \<times> 64 word \<times> bool" where
  "power64_loop base bit_size power_exponent m this_value delayed =
     (if m \<noteq> 0 \<and> this_value \<le> 0xFFFFFFFF then
        let square = this_value * this_value;
            base_bits_mask = NOT (push_bit (64 - bit_size) 1 - 1);
            high_bits_zero = (square AND base_bits_mask = 0)
        in if power_exponent AND m \<noteq> 0
           then if high_bits_zero
                then power64_loop base bit_size power_exponent (m div 2) (square * ucast base) delayed
                else power64_loop base bit_size power_exponent (m div 2) square True
           else power64_loop base bit_size power_exponent (m div 2) square delayed
      else (m, this_value, delayed))"
  by pat_completeness auto
termination by (relation "measure (\<lambda>(base, bit_size, power_exponent, m, this_value, delayed). m)") auto

function power_loop :: "Bignum \<Rightarrow> 16 word \<Rightarrow> nat \<Rightarrow> nat \<Rightarrow> Bignum option" where
  "power_loop b base power_exponent m =
     (if m \<noteq> 0 then
        do { b1 \<leftarrow> Square b;
             b2 \<leftarrow> (if power_exponent AND m \<noteq> 0 then MultiplyByUInt32 b1 (ucast base) else Some b1);
             power_loop b2 base power_exponent (m div 2) }
      else Some b)"
  by pat_completeness auto
termination by (relation "measure (\<lambda>(b, base, power_exponent, m). m)") auto

declare bit_size_loop.simps [simp del] power64_loop.simps [simp del] power_loop.simps [simp del]

definition AssignPowerUInt16 :: "Bignum \<Rightarrow> 16 word \<Rightarrow> nat \<Rightarrow> Bignum option" where
  "AssignPowerUInt16 b0 base0 power_exponent =
     (if power_exponent = 0 then AssignUInt16 b0 1
      else do {
        b \<leftarrow> Zero b0;
        (base, shifts) \<leftarrow> strip_loop base0 0;
        let bit_size = bit_size_loop (unat base) 0;
        let final_size = bit_size * power_exponent;
        EnsureCapacity (final_size div kBigitSize + 2);
        m0 \<leftarrow> mask_loop power_exponent 1;
        let (m, this_value, delayed) = power64_loop base bit_size power_exponent (m0 div 4) (ucast base) False;
        b1 \<leftarrow> AssignUInt64 b this_value;
        b2 \<leftarrow> (if delayed then MultiplyByUInt32 b1 (ucast base) else Some b1);
        b3 \<leftarrow> power_loop b2 base power_exponent m;
        ShiftLeft b3 (shifts * power_exponent) })"

section \<open>The square\<close>

text \<open>The digits of the number, zero beyond their count, and the columns of the square.\<close>

definition dgt :: "Chunk list \<Rightarrow> nat \<Rightarrow> nat" where
  "dgt ds k = (if k < length ds then unat (ds ! k) else 0)"

definition col :: "Chunk list \<Rightarrow> nat \<Rightarrow> nat" where
  "col ds i = (\<Sum>k\<le>i. dgt ds k * dgt ds (i - k))"

lemma bval_sum: "bval ds = (\<Sum>k<length ds. dgt ds k * radix ^ k)"
proof (induction ds rule: rev_induct)
  case (snoc d ds)
  have "(\<Sum>k<length ds. dgt (ds @ [d]) k * radix ^ k) = (\<Sum>k<length ds. dgt ds k * radix ^ k)"
    by (intro sum.cong) (auto simp: dgt_def nth_append)
  with snoc show ?case by (simp add: bval_append dgt_def nth_append)
qed simp

lemma square_columns:
  assumes "ds \<noteq> []"
  shows "bval ds * bval ds = (\<Sum>i<2 * length ds. col ds i * radix ^ i)"
proof -
  let ?m = "length ds - 1"
  let ?d = "\<lambda>k. int (dgt ds k)"
  have up: "{..<length ds} = {..?m}" "{..<2 * length ds} = insert (2 * length ds - 1) {..?m + ?m}" using assms by (cases ds; auto)+
  have out: "col ds (2 * length ds - 1) = 0"
  proof -
    have "dgt ds k * dgt ds (2 * length ds - 1 - k) = 0" for k by (auto simp: dgt_def)
    then show ?thesis by (simp add: col_def)
  qed
  have "int (bval ds * bval ds) = (\<Sum>i\<le>?m. ?d i * int radix ^ i) * (\<Sum>j\<le>?m. ?d j * int radix ^ j)"
    by (simp add: bval_sum up(1))
  also have "\<dots> = (\<Sum>r\<le>?m + ?m. (\<Sum>k\<le>r. ?d k * ?d (r - k)) * int radix ^ r)"
    by (rule polynomial_product) (auto simp: dgt_def)
  also have "\<dots> = int (\<Sum>i\<le>?m + ?m. col ds i * radix ^ i)" by (simp add: col_def)
  also have "(\<Sum>i\<le>?m + ?m. col ds i * radix ^ i) = (\<Sum>i<2 * length ds. col ds i * radix ^ i)"
    unfolding up(2) using out assms by (subst sum.insert) (cases ds; auto)+
  finally show ?thesis by (simp only: of_nat_eq_iff)
qed

lemma dgt_less: "digits_ok ds \<Longrightarrow> dgt ds k \<le> radix - 1"
  using digits_okD [of ds k] by (auto simp: dgt_def)

lemma column_loop_correct:
  assumes ok: "digits_ok ds" and xs: "length ds + length ds \<le> length xs"
    and copy: "\<And>k. lo \<le> k \<Longrightarrow> k < length ds \<Longrightarrow> xs ! (length ds + k) = ds ! k"
  shows "n \<le> Suc i1 - lo \<Longrightarrow> i1 < length ds \<Longrightarrow> lo \<le> i2 \<Longrightarrow> i2 + n \<le> length ds \<Longrightarrow> unat acc + n * ((radix - 1) * (radix - 1)) < 2 ^ 64 \<Longrightarrow>
    \<exists>acc'. column_loop xs (length ds) i1 i2 n acc = Some acc' \<and> unat acc' = unat acc + (\<Sum>m<n. dgt ds (i1 - m) * dgt ds (i2 + m))"
proof (induction n arbitrary: i1 i2 acc)
  case (Suc n)
  have c: "xs ! (length ds + i1) = ds ! i1" "xs ! (length ds + i2) = ds ! i2" "length ds + i1 < length xs" "length ds + i2 < length xs"
    using Suc.prems xs copy by auto
  let ?w = "acc + ucast (ds ! i1) * ucast (ds ! i2)"
  have p: "dgt ds i1 * dgt ds i2 \<le> (radix - 1) * (radix - 1)" using dgt_less [OF ok] by (intro mult_le_mono)
  have d: "dgt ds i1 = unat (ds ! i1)" "dgt ds i2 = unat (ds ! i2)" using Suc.prems by (auto simp: dgt_def)
  have w: "unat ?w = unat acc + dgt ds i1 * dgt ds i2"
    using p Suc.prems(5) unfolding d by (simp add: unat_word_ariths unsigned_ucast_eq take_bit_nat_eq_self less_trans [OF unat32])
  have "n \<le> Suc (i1 - 1) - lo" "i1 - 1 < length ds" "lo \<le> i2 + 1" "i2 + 1 + n \<le> length ds"
    "unat ?w + n * ((radix - 1) * (radix - 1)) < 2 ^ 64" using Suc.prems p w by auto
  from Suc.IH [OF this] obtain acc' where a: "column_loop xs (length ds) (i1 - 1) (i2 + 1) n ?w = Some acc'"
      "unat acc' = unat ?w + (\<Sum>m<n. dgt ds (i1 - 1 - m) * dgt ds (i2 + 1 + m))"
    by blast
  have "(\<Sum>m<Suc n. dgt ds (i1 - m) * dgt ds (i2 + m)) = dgt ds i1 * dgt ds i2 + (\<Sum>m<n. dgt ds (i1 - 1 - m) * dgt ds (i2 + 1 + m))"
    by (subst sum.lessThan_Suc_shift) simp
  with a w c show ?case by (simp add: bget_def)
qed simp

lemma ucast_bigit: "unat ((ucast w :: Chunk) AND kBigitMask) = unat w mod radix" for w :: "64 word"
  by (simp add: unat_and_bigit unsigned_ucast_eq take_bit_eq_mod mod_mod_cancel)

lemma column_write:
  fixes acc acc1 :: "64 word"
  assumes ok: "digits_ok xs" "i < length xs" and inv: "bval (take i xs) + unat acc * radix ^ i = S"
    and a: "unat acc1 = unat acc + c" "unat acc \<le> n * radix" "c \<le> n * ((radix - 1) * (radix - 1))"
  defines "ys \<equiv> xs[i := ucast acc1 AND kBigitMask]"
  shows "digits_ok ys" "bval (take (Suc i) ys) + unat (drop_bit kBigitSize acc1) * radix ^ Suc i = S + c * radix ^ i"
    "unat (drop_bit kBigitSize acc1) \<le> n * radix"
proof -
  show "digits_ok ys" unfolding ys_def using ok(1) by (rule digits_ok_update) (simp add: ucast_bigit)
  have "unat acc1 \<le> n * radix * radix" using a by simp
  then have "unat acc1 div radix \<le> n * radix * radix div radix" by (rule div_le_mono)
  then show "unat (drop_bit kBigitSize acc1) \<le> n * radix" by (simp add: unat_drop_bit_div)
  have tk: "take (Suc i) ys = take i xs @ [ucast acc1 AND kBigitMask]"
    using ok(2) by (simp add: ys_def take_Suc_conv_app_nth)
  define r where "r = unat acc1 mod radix"
  define q where "q = unat acc1 div radix"
  have rq: "unat acc + c = r + radix * q" unfolding a(1) [symmetric] r_def q_def by simp
  have "bval (take (Suc i) ys) = bval (take i xs) + radix ^ i * r"
    using ok(2) tk by (simp add: bval_append ucast_bigit r_def)
  moreover have "unat (drop_bit kBigitSize acc1) = q" by (simp add: unat_drop_bit_div q_def)
  moreover have "radix ^ i * (unat acc + c) = radix ^ i * (r + radix * q)" by (simp only: rq)
  ultimately show "bval (take (Suc i) ys) + unat (drop_bit kBigitSize acc1) * radix ^ Suc i = S + c * radix ^ i"
    using inv by (simp add: algebra_simps)
qed

lemma low_column: "(\<Sum>m<i + 1. dgt ds (i - m) * dgt ds (0 + m)) = col ds i"
  unfolding col_def by (intro sum.cong) (auto simp: mult.commute)

lemma high_column:
  assumes "length ds \<le> i" "i < 2 * length ds"
  shows "(\<Sum>m<length ds - (i - (length ds - 1)). dgt ds (length ds - 1 - m) * dgt ds (i - (length ds - 1) + m)) = col ds i"
proof -
  let ?n = "length ds" let ?j = "i - (?n - 1)"
  have "col ds i = (\<Sum>k\<in>{?j..<?n}. dgt ds k * dgt ds (i - k))"
    unfolding col_def using assms by (intro sum.mono_neutral_right) (auto simp: dgt_def)
  also have "\<dots> = (\<Sum>m<?n - ?j. dgt ds (?j + m) * dgt ds (i - (?j + m)))"
    by (rule sum.reindex_bij_witness [of _ "\<lambda>m. ?j + m" "\<lambda>k. k - ?j"]) auto
  also have "\<dots> = (\<Sum>m<?n - ?j. dgt ds (?n - 1 - m) * dgt ds (?j + m))"
    using assms by (intro sum.cong) (auto simp: mult.commute)
  finally show ?thesis by simp
qed

lemma col_le: "digits_ok ds \<Longrightarrow> col ds i \<le> length ds * ((radix - 1) * (radix - 1))"
proof -
  assume ok: "digits_ok ds"
  have "col ds i = (\<Sum>k\<in>{..i} \<inter> {..<length ds}. dgt ds k * dgt ds (i - k))"
    unfolding col_def by (intro sum.mono_neutral_right) (auto simp: dgt_def)
  also have "\<dots> \<le> of_nat (card ({..i} \<inter> {..<length ds})) * ((radix - 1) * (radix - 1))"
    by (rule sum_bounded_above) (intro mult_le_mono dgt_less [OF ok])
  also have "\<dots> \<le> length ds * ((radix - 1) * (radix - 1))"
    using card_mono [of "{..<length ds}" "{..i} \<inter> {..<length ds}"] by (intro mult_le_mono1) auto
  finally show ?thesis .
qed

lemma acc_bound:
  assumes "n \<le> 64" "unat (acc :: 64 word) \<le> n * radix" "k \<le> n"
  shows "unat acc + k * ((radix - 1) * (radix - 1)) < 2 ^ 64"
proof -
  have "k * ((radix - 1) * (radix - 1)) \<le> 64 * ((radix - 1) * (radix - 1))" using assms by (intro mult_le_mono1) simp
  moreover have "n * radix \<le> 64 * radix" using assms by (intro mult_le_mono1) simp
  ultimately show ?thesis using assms(2) by simp
qed

lemma square_low_correct:
  assumes ok: "digits_ok ds" and n: "length ds \<le> 64"
  shows "digits_ok xs \<Longrightarrow> length ds + length ds \<le> length xs \<Longrightarrow> (\<And>k. k < length ds \<Longrightarrow> xs ! (length ds + k) = ds ! k) \<Longrightarrow>
    i + m \<le> length ds \<Longrightarrow> unat acc \<le> length ds * radix \<Longrightarrow>
    bval (take i xs) + unat acc * radix ^ i = (\<Sum>j<i. col ds j * radix ^ j) \<Longrightarrow>
    \<exists>ys acc'. square_low_loop xs (length ds) i m acc = Some (ys, acc') \<and> digits_ok ys \<and> length ys = length xs
      \<and> (\<forall>j<length xs. i + m \<le> j \<longrightarrow> ys ! j = xs ! j) \<and> unat acc' \<le> length ds * radix
      \<and> bval (take (i + m) ys) + unat acc' * radix ^ (i + m) = (\<Sum>j<i + m. col ds j * radix ^ j)"
proof (induction m arbitrary: xs i acc)
  case (Suc m)
  have "unat acc + (i + 1) * ((radix - 1) * (radix - 1)) < 2 ^ 64"
    using Suc.prems(4,5) by (intro acc_bound [OF n]) auto
  moreover have "\<And>k. 0 \<le> k \<Longrightarrow> k < length ds \<Longrightarrow> xs ! (length ds + k) = ds ! k" using Suc.prems(3) by simp
  ultimately obtain acc1 where a: "column_loop xs (length ds) i 0 (i + 1) acc = Some acc1" "unat acc1 = unat acc + col ds i"
    using column_loop_correct [where lo = 0 and n = "i + 1" and ?i1.0 = i and ?i2.0 = 0 and acc = acc, OF ok Suc.prems(2)]
      Suc.prems(4) low_column [where i = i and ds = ds] by auto
  have i: "i < length xs" using Suc.prems by simp
  define ys where "ys = xs[i := ucast acc1 AND kBigitMask]"
  note w = column_write [OF Suc.prems(1) i Suc.prems(6) a(2) Suc.prems(5) col_le [OF ok], folded ys_def]
  have "\<And>k. k < length ds \<Longrightarrow> ys ! (length ds + k) = ds ! k" using Suc.prems(3,4) by (simp add: ys_def)
  from Suc.IH [where i = "Suc i" and acc = "drop_bit kBigitSize acc1", OF w(1) _ this] w(2,3) Suc.prems(2,4) obtain zs acc' where
    z: "square_low_loop ys (length ds) (Suc i) m (drop_bit kBigitSize acc1) = Some (zs, acc')" "digits_ok zs" "length zs = length xs"
      "\<forall>j<length xs. Suc i + m \<le> j \<longrightarrow> zs ! j = ys ! j" "unat acc' \<le> length ds * radix"
      "bval (take (Suc i + m) zs) + unat acc' * radix ^ (Suc i + m) = (\<Sum>j<Suc i + m. col ds j * radix ^ j)"
    by (auto simp: ys_def)
  then show ?case using a(1) i by (simp add: bput_def ys_def [symmetric]) (simp add: ys_def)
qed auto

lemma square_high_correct:
  assumes ok: "digits_ok ds" and n: "length ds \<le> 64"
  shows "digits_ok xs \<Longrightarrow> length ds + length ds \<le> length xs \<Longrightarrow> (\<And>k. i - length ds \<le> k \<Longrightarrow> k < length ds \<Longrightarrow> xs ! (length ds + k) = ds ! k) \<Longrightarrow>
    length ds \<le> i \<Longrightarrow> i + m = 2 * length ds \<Longrightarrow> unat acc \<le> length ds * radix \<Longrightarrow>
    bval (take i xs) + unat acc * radix ^ i = (\<Sum>j<i. col ds j * radix ^ j) \<Longrightarrow>
    \<exists>ys acc'. square_high_loop xs (length ds) i m acc = Some (ys, acc') \<and> digits_ok ys \<and> length ys = length xs
      \<and> (\<forall>j<length xs. i + m \<le> j \<longrightarrow> ys ! j = xs ! j)
      \<and> bval (take (i + m) ys) + unat acc' * radix ^ (i + m) = (\<Sum>j<i + m. col ds j * radix ^ j)"
proof (induction m arbitrary: xs i acc)
  case (Suc m)
  let ?n = "length ds" let ?j = "i - (?n - 1)"
  have i: "?n \<le> i" "i < 2 * ?n" "i < length xs" using Suc.prems by auto
  have "unat acc + (?n - ?j) * ((radix - 1) * (radix - 1)) < 2 ^ 64"
    using Suc.prems(6) by (intro acc_bound [OF n]) auto
  note bound = this
  have "?n - ?j \<le> Suc (?n - 1) - (i - ?n)" "?n - 1 < ?n" "i - ?n \<le> ?j" "?j + (?n - ?j) \<le> ?n" using i(1,2) by auto
  from column_loop_correct [OF ok Suc.prems(2) Suc.prems(3) this bound] high_column [OF i(1,2)]
  obtain acc1 where a: "column_loop xs ?n (?n - 1) ?j (?n - ?j) acc = Some acc1" "unat acc1 = unat acc + col ds i"
    by auto
  define ys where "ys = xs[i := ucast acc1 AND kBigitMask]"
  note w = column_write [OF Suc.prems(1) i(3) Suc.prems(7) a(2) Suc.prems(6) col_le [OF ok], folded ys_def]
  have "\<And>k. Suc i - ?n \<le> k \<Longrightarrow> k < ?n \<Longrightarrow> ys ! (?n + k) = ds ! k" using Suc.prems(3) i(1) by (auto simp: ys_def nth_list_update)
  from Suc.IH [where i = "Suc i" and acc = "drop_bit kBigitSize acc1", OF w(1) _ this] w(2,3) Suc.prems(2,4,5) obtain zs acc' where
    z: "square_high_loop ys ?n (Suc i) m (drop_bit kBigitSize acc1) = Some (zs, acc')" "digits_ok zs" "length zs = length xs"
      "\<forall>j<length xs. Suc i + m \<le> j \<longrightarrow> zs ! j = ys ! j"
      "bval (take (Suc i + m) zs) + unat acc' * radix ^ (Suc i + m) = (\<Sum>j<Suc i + m. col ds j * radix ^ j)"
    by (auto simp: ys_def)
  then show ?case using a(1) i(3) by (simp add: bput_def ys_def [symmetric] Let_def) (simp add: ys_def)
qed auto

lemma dup_loop_eq:
  "i + n + off \<le> length xs \<Longrightarrow> i + n \<le> off \<Longrightarrow>
     dup_loop xs off i n = Some (take (off + i) xs @ take n (drop i xs) @ drop (off + i + n) xs)"
proof (induction n arbitrary: xs i)
  case (Suc n)
  let ?xs = "xs[off + i := xs ! i]"
  have "dup_loop ?xs off (i + 1) n = Some (take (off + (i + 1)) ?xs @ take n (drop (i + 1) ?xs) @ drop (off + (i + 1) + n) ?xs)"
    using Suc.prems by (intro Suc.IH) auto
  moreover have "take (off + (i + 1)) ?xs = take (off + i) xs @ [xs ! i]"
    using Suc.prems by (simp add: take_Suc_conv_app_nth)
  moreover have "take n (drop (i + 1) ?xs) = take n (drop (Suc i) xs)"
    using Suc.prems by (intro nth_equalityI) auto
  moreover have "take (Suc n) (drop i xs) = xs ! i # take n (drop (Suc i) xs)"
    using Suc.prems by (simp flip: Cons_nth_drop_Suc)
  ultimately show ?case using Suc.prems by (simp add: arr_simps)
qed simp

lemma Square_correct:
  assumes ok: "bn_ok b"
  shows "if used_digits b \<le> 64 then \<exists>c. Square b = Some c \<and> bn_ok c \<and> bnval c = bnval b * bnval b \<and> (exponent b = 0 \<longrightarrow> exponent c = 0)
         else Square b = None"
proof (cases "used_digits b \<le> 64")
  case False
  then show ?thesis by (simp add: Square_def EnsureCapacity_def)
next
  case True
  note d = bn_okD [OF ok]
  define n where "n = used_digits b"
  define ds where "ds = take n (bigits b)"
  have n: "length ds = n" "n \<le> 64" "digits_ok ds" using True d by (auto simp: ds_def n_def digits_ok_take)
  define xs where "xs = ds @ ds @ drop (n + n) (bigits b)"
  have dup: "dup_loop (bigits b) n 0 n = Some xs"
    using dup_loop_eq [of 0 n n "bigits b"] n(2) d(2) by (simp add: xs_def ds_def)
  have x: "digits_ok xs" "length xs = 128" "\<And>k. k < length ds \<Longrightarrow> xs ! (length ds + k) = ds ! k"
    using n d(2,3) by (auto simp: xs_def nth_append digits_ok_take)
  have "n + n \<le> 128" using n(2) by simp
  then obtain ys a1 where y: "square_low_loop xs n 0 n 0 = Some (ys, a1)" "digits_ok ys" "length ys = 128"
      "\<forall>j<128. n \<le> j \<longrightarrow> ys ! j = xs ! j" "unat a1 \<le> n * radix"
      "bval (take n ys) + unat a1 * radix ^ n = (\<Sum>j<n. col ds j * radix ^ j)"
    using square_low_correct [where i = 0 and m = n and acc = 0, OF n(3) _ x(1) _ x(3)] n x(2) by auto
  have "\<And>k. n - length ds \<le> k \<Longrightarrow> k < length ds \<Longrightarrow> ys ! (length ds + k) = ds ! k" using y(4) x(3) n by simp
  from square_high_correct [where i = n and m = n and acc = a1, OF n(3) _ y(2) _ this] y n \<open>n + n \<le> 128\<close> obtain zs a2 where
    z: "square_high_loop ys n n n a1 = Some (zs, a2)" "digits_ok zs" "length zs = 128" "\<forall>j<128. n + n \<le> j \<longrightarrow> zs ! j = ys ! j"
      "bval (take (n + n) zs) + unat a2 * radix ^ (n + n) = (\<Sum>j<n + n. col ds j * radix ^ j)"
    by auto
  have vd: "bval (bigits b) = bval ds" using raw_bval [OF d(1)] by (simp add: ds_def n_def)
  have sum: "(\<Sum>j<n + n. col ds j * radix ^ j) = bval ds * bval ds"
    using square_columns [of ds] n(1) by (cases "ds = []") (auto simp: mult_2)
  have lt: "bval ds * bval ds < radix ^ (n + n)"
    using bval_less [OF n(3)] n(1) by (simp add: power_add mult_strict_mono)
  define c0 where "c0 = b\<lparr>bigits := zs, used_digits := n + n, exponent := 2 * exponent b\<rparr>"
  have zero: "zs ! j = 0" if "j < 128" "n + n \<le> j" for j
  proof -
    have "\<not> j < n" "\<not> j - n < n" using that by auto
    then have "xs ! j = bigits b ! j" using that n(1) d(2) by (simp add: xs_def nth_append)
    then show ?thesis using that z(4) y(4) d(5) [of j] by (simp add: n_def)
  qed
  have raw: "bn_raw c0" using z(2,3) zero \<open>n + n \<le> 128\<close> by (intro rawI) (auto simp: c0_def)
  have "bval zs = bval ds * bval ds"
  proof -
    have "bval zs = bval (take (n + n) zs)" using raw_bval [OF raw] by (simp add: c0_def)
    moreover have "unat a2 = 0"
    proof (rule ccontr)
      assume "unat a2 \<noteq> 0"
      then have "1 * radix ^ (n + n) \<le> unat a2 * radix ^ (n + n)" by (intro mult_le_mono1) simp
      then show False using z(5) sum lt by linarith
    qed
    ultimately show ?thesis using z(5) sum by simp
  qed
  then have "bnval c0 = bnval b * bnval b" by (simp add: c0_def bnval_def vd power_add mult_2)
  moreover obtain c where "Clamp c0 = Some c" "bn_ok c" "bnval c = bnval c0" "0 < used_digits c \<longrightarrow> exponent c = exponent c0"
    using Clamp_correct [OF raw] by auto
  moreover have "Square b = Clamp c0"
    using n(2) dup y(1) z(1) by (simp add: Square_def EnsureCapacity_def n_def [symmetric] Let_def mult_2 c0_def)
  ultimately show ?thesis using True bn_okD(6) [of c] by (cases "used_digits c = 0") (auto simp: c0_def)
qed

section \<open>Powers\<close>

lemma and_1_word: "w AND 1 = 0 \<longleftrightarrow> even (unat w)" for w :: "16 word"
  by (simp add: and_one_eq even_iff_mod_2_eq_zero word_unat_eq_iff unat_mod)

lemma strip_loop_correct:
  "base \<noteq> 0 \<Longrightarrow> \<exists>base' k. strip_loop base shifts = Some (base', shifts + k) \<and> odd (unat base') \<and> unat base = unat base' * 2 ^ k"
proof (induction "unat base" arbitrary: base shifts rule: less_induct)
  case less
  show ?case
  proof (cases "even (unat base)")
    case True
    then obtain q where q: "unat base = 2 * q" by (elim evenE)
    have h: "unat (drop_bit 1 base) = q" using q by (simp only: unat_drop_bit_div) simp
    have "0 < unat base" using less.prems by (simp add: unat_gt_0)
    then have "unat (drop_bit 1 base) < unat base" "0 < unat (drop_bit 1 base)" using h q by auto
    from less.hyps [OF this(1), of "shifts + 1"] this(2) obtain base' k where
      r: "strip_loop (drop_bit 1 base) (shifts + 1) = Some (base', shifts + 1 + k)" "odd (unat base')"
        "unat (drop_bit 1 base) = unat base' * 2 ^ k"
      by (auto simp: unat_gt_0)
    have "unat base = unat base' * 2 ^ Suc k" using r(3) h q by simp
    moreover have "strip_loop base shifts = Some (base', shifts + Suc k)"
      using True r(1) by (subst strip_loop.simps) (simp add: and_1_word)
    ultimately show ?thesis using r(2) by blast
  next
    case False
    then have "strip_loop base shifts = Some (base, shifts + 0)" by (subst strip_loop.simps) (simp add: and_1_word)
    with False show ?thesis by (intro exI [of _ base] exI [of _ 0]) auto
  qed
qed

lemma bit_size_loop_correct: "bit_size_loop n k = k + bit_length n"
proof (induction n k rule: bit_size_loop.induct)
  case (1 n k)
  then show ?case by (subst bit_size_loop.simps, subst bit_length.simps) simp
qed

lemma mask_loop_correct:
  "2 ^ k \<le> e + 1 \<or> (\<exists>j. k = Suc j \<and> 2 ^ j \<le> e) \<Longrightarrow> 0 < e \<Longrightarrow> \<exists>j. mask_loop e (2 ^ k) = Some (2 ^ Suc j) \<and> 2 ^ j \<le> e \<and> e < 2 ^ Suc j"
proof (induction "Suc e - 2 ^ k" arbitrary: k rule: less_induct)
  case less
  show ?case
  proof (cases "2 ^ k \<le> e")
    case True
    have "Suc e - 2 ^ Suc k < Suc e - 2 ^ k" using True by (intro diff_less_mono2) auto
    from less.hyps [OF this] True less.prems(2) obtain j where "mask_loop e (2 ^ Suc k) = Some (2 ^ Suc j)" "2 ^ j \<le> e" "e < 2 ^ Suc j"
      by auto
    with True show ?thesis by (subst mask_loop.simps) auto
  next
    case False
    have "k \<noteq> 0" using False less.prems(2) by (cases k) auto
    then obtain j where j: "k = Suc j" by (cases k) auto
    have "2 ^ j \<le> e" using less.prems(1) False j by auto
    with False j show ?thesis by (subst mask_loop.simps) auto
  qed
qed

text \<open>The bit of the exponent under the mask, and the exponent read so far.\<close>

lemma and_mask_nat: "e AND 2 ^ k = 0 \<longleftrightarrow> even (e div 2 ^ k)" "0 < e AND 2 ^ k \<longleftrightarrow> odd (e div 2 ^ k)" for e :: nat
proof -
  show z: "e AND 2 ^ k = 0 \<longleftrightarrow> even (e div 2 ^ k)" by (metis bit_iff_odd bit_iff_and_push_bit_not_eq_0 push_bit_of_1)
  show "0 < e AND 2 ^ k \<longleftrightarrow> odd (e div 2 ^ k)" using z by (simp only: neq0_conv [symmetric])
qed

lemma exponent_step: "e div 2 ^ k = 2 * (e div 2 ^ Suc k) + of_bool (odd (e div 2 ^ k))" for e k :: nat
proof -
  have "e div 2 ^ Suc k = e div 2 ^ k div 2" by (simp only: power_Suc2 div_mult2_eq)
  then show ?thesis by (simp add: of_bool_def)
qed

lemma half_mask: "(2 :: nat) ^ k div 2 = (if k = 0 then 0 else 2 ^ (k - 1))"
  by (cases k) auto

text \<open>The mask while \<open>k\<close> bits of the exponent are still to be read.\<close>

definition msk :: "nat \<Rightarrow> nat" where
  "msk k = (case k of 0 \<Rightarrow> 0 | Suc j \<Rightarrow> 2 ^ j)"

lemma msk_simps [simp]: "msk 0 = 0" "msk (Suc j) = 2 ^ j" "(2 :: nat) ^ j div 2 = msk j" "2 ^ Suc j div 4 = msk j"
  by (cases j; simp add: msk_def)+

lemma high_bits_zero: "n \<le> 64 \<Longrightarrow> w AND NOT (push_bit n 1 - 1) = 0 \<longleftrightarrow> unat w < 2 ^ n" for w :: "64 word"
proof -
  assume "n \<le> 64"
  have "push_bit n 1 - 1 = (mask n :: 64 word)" by (simp add: mask_eq_exp_minus_1 push_bit_of_1)
  moreover have "w AND NOT (mask n) = 0 \<longleftrightarrow> w = take_bit n w" by (auto simp: bit_eq_iff bit_simps)
  ultimately have "w AND NOT (push_bit n 1 - 1) = 0 \<longleftrightarrow> w = take_bit n w" by simp
  also have "\<dots> \<longleftrightarrow> unat w = unat w mod 2 ^ n"
    by (metis unsigned_take_bit_eq take_bit_eq_mod unsigned_word_eqI)
  also have "\<dots> \<longleftrightarrow> unat w < 2 ^ n" by (metis mod_less mod_less_divisor zero_less_numeral zero_less_power)
  finally show ?thesis .
qed

lemma power64_loop_correct:
  assumes base: "unat base < 2 ^ bs" "1 \<le> bs" "bs \<le> 16"
  shows "unat v = unat base ^ (e div 2 ^ k) \<Longrightarrow>
    \<exists>k' v' d. power64_loop base bs e (msk k) v False = (msk k', v', d) \<and> k' \<le> k
      \<and> unat v' * (if d then unat base else 1) = unat base ^ (e div 2 ^ k')"
proof (induction k arbitrary: v)
  case 0
  then show ?case by (intro exI [of _ 0] exI [of _ v] exI [of _ False]) (simp add: power64_loop.simps [of base bs e 0])
next
  case (Suc j)
  show ?case
  proof (cases "v \<le> 0xFFFFFFFF")
    case False
    with Suc.prems show ?thesis
      by (intro exI [of _ "Suc j"] exI [of _ v] exI [of _ False]) (simp add: power64_loop.simps [of base bs e "2 ^ j"])
  next
    case True
    then have v32: "unat v \<le> 2 ^ 32 - 1" by (simp add: word_le_nat_alt)
    have "unat v * unat v \<le> (2 ^ 32 - 1) * (2 ^ 32 - 1)" using v32 by (intro mult_le_mono)
    then have sq: "unat (v * v) = unat v * unat v" by (simp add: unat_word_ariths)
    have sqe: "unat (v * v) = unat base ^ (2 * (e div 2 ^ Suc j))" unfolding sq Suc.prems by (simp add: mult_2 power_add)
    have zb: "v * v AND NOT (push_bit (64 - bs) 1 - 1) = 0 \<longleftrightarrow> unat (v * v) < 2 ^ (64 - bs)" by (rule high_bits_zero) simp
    have step: "power64_loop base bs e (2 ^ j) v False =
        (if odd (e div 2 ^ j)
         then if unat (v * v) < 2 ^ (64 - bs) then power64_loop base bs e (msk j) (v * v * ucast base) False
              else power64_loop base bs e (msk j) (v * v) True
         else power64_loop base bs e (msk j) (v * v) False)"
      using True by (subst power64_loop.simps) (simp add: Let_def and_mask_nat zb [unfolded push_bit_of_1])
    show ?thesis
    proof (cases "odd (e div 2 ^ j)")
      case False
      have "e div 2 ^ j = 2 * (e div 2 ^ Suc j)" using exponent_step [of e j] False by simp
      then have "unat (v * v) = unat base ^ (e div 2 ^ j)" unfolding sqe by (simp only:)
      from Suc.IH [OF this] obtain k' v' d where "power64_loop base bs e (msk j) (v * v) False = (msk k', v', d)" "k' \<le> j"
          "unat v' * (if d then unat base else 1) = unat base ^ (e div 2 ^ k')" by blast
      then show ?thesis using step False by (intro exI [of _ k'] exI [of _ v'] exI [of _ d]) simp
    next
      case odd: True
      have ej: "e div 2 ^ j = Suc (2 * (e div 2 ^ Suc j))" using exponent_step [of e j] odd by simp
      have prod: "unat (v * v) * unat base = unat base ^ (e div 2 ^ j)" unfolding sqe ej by simp
      have "unat base < 2 ^ LENGTH(16)" by (rule unsigned_less)
      then have ub: "unat (ucast base :: 64 word) = unat base" by (simp add: unsigned_ucast_eq take_bit_nat_eq_self)
      show ?thesis
      proof (cases "unat (v * v) < 2 ^ (64 - bs)")
        case True
        have "unat (v * v) * unat base < 2 ^ (64 - bs) * 2 ^ bs" using True base(1) by (rule mult_strict_mono) auto
        also have "\<dots> = 2 ^ 64" using base(3) by (simp flip: power_add)
        finally have lt: "unat (v * v) * unat base < 2 ^ 64" .
        have "unat (v * v * ucast base) = unat (v * v) * unat (ucast base :: 64 word)"
        proof -
          have "unat (v * v * ucast base) = (unat (v * v) * unat (ucast base :: 64 word)) mod 2 ^ LENGTH(64)"
            by (rule unat_word_ariths(2))
          then show ?thesis using lt ub by simp
        qed
        then have "unat (v * v * ucast base) = unat base ^ (e div 2 ^ j)" using prod ub by simp
        from Suc.IH [OF this] obtain k' v' d where "power64_loop base bs e (msk j) (v * v * ucast base) False = (msk k', v', d)"
            "k' \<le> j" "unat v' * (if d then unat base else 1) = unat base ^ (e div 2 ^ k')" by blast
        then show ?thesis using step odd True by (intro exI [of _ k'] exI [of _ v'] exI [of _ d]) simp
      next
        case False
        have "(2 :: nat) ^ 48 \<le> 2 ^ (64 - bs)" using base(3) by (intro power_increasing) auto
        then have "\<not> v * v \<le> 0xFFFFFFFF" using False by (simp add: word_le_nat_alt not_le)
        then have "power64_loop base bs e (msk j) (v * v) True = (msk j, v * v, True)" by (subst power64_loop.simps) simp
        with step odd False prod show ?thesis by (intro exI [of _ j] exI [of _ "v * v"] exI [of _ True]) simp
      qed
    qed
  qed
qed

lemma used_le_64:
  assumes ok: "bn_ok b" "exponent b = 0" and v: "bnval b \<le> 2 ^ p" "2 * p < 3556"
  shows "used_digits b \<le> 64"
proof (cases "used_digits b = 0")
  case False
  have "(2 :: nat) ^ (28 * (used_digits b - 1)) = radix ^ (used_digits b - 1)" by (simp add: power_mult)
  also have "\<dots> \<le> bnval b" using bnval_bounds(2) [OF ok(1)] False ok(2) by (simp add: BigitLength_def)
  also have "\<dots> \<le> 2 ^ p" by (rule v(1))
  finally have "28 * (used_digits b - 1) \<le> p" by (simp only: power_increasing_iff one_less_numeral_iff semiring_norm)
  with v(2) show ?thesis by linarith
qed simp

lemma power_le: "B \<le> 2 ^ bs \<Longrightarrow> B ^ n \<le> 2 ^ (bs * n)" for B :: nat
  by (simp add: power_mono power_mult)

lemma two_power_limit: "p < 3556 \<Longrightarrow> (2 :: nat) ^ p < radix ^ 127"
proof -
  assume "p < 3556"
  then have "(2 :: nat) ^ p < 2 ^ (28 * 127)" by (intro power_strict_increasing) auto
  also have "\<dots> = radix ^ 127" by (simp only: power_mult) simp
  finally show ?thesis .
qed

lemma power_loop_correct:
  assumes base: "unat base < 2 ^ bs" "0 < unat base" and cap: "bs * e < 3556"
  shows "bn_ok b \<Longrightarrow> exponent b = 0 \<Longrightarrow> bnval b = unat base ^ (e div 2 ^ k) \<Longrightarrow>
    \<exists>c. power_loop b base e (msk k) = Some c \<and> bn_ok c \<and> bnval c = unat base ^ e \<and> exponent c = 0"
proof (induction k arbitrary: b)
  case 0
  then show ?case by (simp add: power_loop.simps [of b])
next
  case (Suc j)
  have be: "unat base ^ n \<le> 2 ^ (bs * n)" for n using base(1) by (intro power_le) simp
  have "2 * (bs * (e div 2 ^ Suc j)) < 3556"
  proof -
    have "e div 2 ^ Suc j = e div 2 ^ j div 2" by (simp only: power_Suc2 div_mult2_eq)
    then have "2 * (e div 2 ^ Suc j) \<le> e" using div_le_dividend [of e "2 ^ j"] by linarith
    then have "bs * (2 * (e div 2 ^ Suc j)) \<le> bs * e" by (rule mult_le_mono2)
    then show ?thesis using cap by linarith
  qed
  then have "used_digits b \<le> 64" using Suc.prems be by (intro used_le_64) auto
  with Square_correct [OF Suc.prems(1)] Suc.prems(2) obtain b1 where
    b1: "Square b = Some b1" "bn_ok b1" "bnval b1 = bnval b * bnval b" "exponent b1 = 0"
    by auto
  have v1: "bnval b1 = unat base ^ (2 * (e div 2 ^ Suc j))" unfolding b1(3) Suc.prems(3) by (simp add: mult_2 power_add)
  have ub: "unat (ucast base :: 32 word) = unat base"
  proof -
    have "unat base < 2 ^ LENGTH(16)" by (rule unsigned_less)
    then show ?thesis by (simp add: unsigned_ucast_eq take_bit_nat_eq_self)
  qed
  have "\<exists>b2. (if odd (e div 2 ^ j) then MultiplyByUInt32 b1 (ucast base) else Some b1) = Some b2 \<and> bn_ok b2 \<and> exponent b2 = 0
      \<and> bnval b2 = unat base ^ (e div 2 ^ j)"
  proof (cases "odd (e div 2 ^ j)")
    case False
    then show ?thesis using exponent_step [of e j] v1 b1 by simp
  next
    case True
    have ej: "e div 2 ^ j = Suc (2 * (e div 2 ^ Suc j))" using exponent_step [of e j] True by simp
    have vb: "bval (bigits b1) = bnval b1" using b1(4) by (simp add: bnval_def)
    have p: "unat (ucast base :: 32 word) * bval (bigits b1) = unat base ^ (e div 2 ^ j)" unfolding vb v1 ub ej by simp
    have "bs * (e div 2 ^ j) \<le> bs * e" by (intro mult_le_mono2) simp
    then have "unat base ^ (e div 2 ^ j) < radix ^ 127"
      using be [of "e div 2 ^ j"] two_power_limit [of "bs * (e div 2 ^ j)"] cap by linarith
    then have "unat (ucast base :: 32 word) * bval (bigits b1) < bn_limit" unfolding p by (simp add: bn_limit_def)
    moreover have "(ucast base :: 32 word) \<noteq> 0" using ub base(2) by (metis less_numeral_extra(3) unat_eq_0)
    ultimately show ?thesis using MultiplyByUInt32_correct [OF b1(2), of "ucast base"] True p b1(4) by (auto simp: bnval_def)
  qed
  then obtain b2 where b2: "(if odd (e div 2 ^ j) then MultiplyByUInt32 b1 (ucast base) else Some b1) = Some b2" "bn_ok b2"
      "exponent b2 = 0" "bnval b2 = unat base ^ (e div 2 ^ j)" by blast
  have "power_loop b base e (2 ^ j) = power_loop b2 base e (msk j)"
    using b1(1) b2(1) by (subst power_loop.simps) (simp add: and_mask_nat)
  with Suc.IH [OF b2(2-4)] show ?case by simp
qed

lemma AssignPowerUInt16_correct:
  assumes raw: "bn_raw b" and base: "base \<noteq> 0" and cap: "bit_length (unat base) * e < 3556"
  shows "\<exists>c. AssignPowerUInt16 b base e = Some c \<and> bn_ok c \<and> bnval c = unat base ^ e"
proof (cases "e = 0")
  case True
  then show ?thesis using AssignUInt16_correct [OF raw, of 1] by (simp add: AssignPowerUInt16_def)
next
  case False
  obtain o' s where st: "strip_loop base 0 = Some (o', s)" "odd (unat o')" "unat base = unat o' * 2 ^ s"
    using strip_loop_correct [OF base, of 0] by auto
  define bs where "bs = bit_length (unat o')"
  have o: "0 < unat o'" "unat o' < 2 ^ bs" using st(2) bit_length_less by (auto simp: bs_def odd_pos)
  have "unat o' < 2 ^ LENGTH(16)" by (rule unsigned_less)
  then have bs: "1 \<le> bs" "bs \<le> 16" using bit_length_le [of "unat o'" 16] o by (auto simp: bs_def bit_length.simps [of "unat o'"])
  have "unat o' \<le> unat base" unfolding st(3) by simp
  then have "unat o' < 2 ^ bit_length (unat base)" using bit_length_less [of "unat base"] by linarith
  then have "bs \<le> bit_length (unat base)" unfolding bs_def by (rule bit_length_le)
  then have "bs * e \<le> bit_length (unat base) * e" by (rule mult_le_mono1)
  then have cap': "bs * e < 3556" using cap by linarith
  then have "bs * e div 28 < 127" by (simp add: div_less_iff_less_mult)
  then have ec: "EnsureCapacity (bs * e div kBigitSize + 2) = Some ()" by (simp add: EnsureCapacity_def)
  obtain j where j: "mask_loop e 1 = Some (2 ^ Suc j)" "2 ^ j \<le> e" "e < 2 ^ Suc j"
    using mask_loop_correct [of 0 e] False by auto
  have ej: "e div 2 ^ j = 1" using j(2,3) by (intro div_nat_eqI) auto
  have "unat (ucast o' :: 64 word) = unat o'"
    using \<open>unat o' < 2 ^ LENGTH(16)\<close> by (simp add: unsigned_ucast_eq take_bit_nat_eq_self)
  then have "unat (ucast o' :: 64 word) = unat o' ^ (e div 2 ^ j)" by (simp add: ej)
  from power64_loop_correct [OF o(2) bs this] obtain k v d where
    pw: "power64_loop o' bs e (msk j) (ucast o') False = (msk k, v, d)" "k \<le> j"
      "unat v * (if d then unat o' else 1) = unat o' ^ (e div 2 ^ k)"
    by blast
  obtain b1 where b1: "AssignUInt64 Bignum_new v = Some b1" "bn_ok b1" "bnval b1 = unat v" "exponent b1 = 0"
    using AssignUInt64_correct [OF bn_okD(1) [OF new_ok(1)], of v] by blast
  have uo: "unat (ucast o' :: 32 word) = unat o'"
    using \<open>unat o' < 2 ^ LENGTH(16)\<close> by (simp add: unsigned_ucast_eq take_bit_nat_eq_self)
  have "\<exists>b2. (if d then MultiplyByUInt32 b1 (ucast o') else Some b1) = Some b2 \<and> bn_ok b2 \<and> exponent b2 = 0
      \<and> bnval b2 = unat o' ^ (e div 2 ^ k)"
  proof (cases d)
    case True
    have "bs * (e div 2 ^ k) \<le> bs * e" by (intro mult_le_mono2) simp
    then have "unat o' ^ (e div 2 ^ k) < radix ^ 127"
      using power_le [of "unat o'" bs "e div 2 ^ k"] o(2) two_power_limit [of "bs * (e div 2 ^ k)"] cap' by linarith
    moreover have p: "unat (ucast o' :: 32 word) * bval (bigits b1) = unat o' ^ (e div 2 ^ k)"
      using pw(3) True b1(3,4) by (simp add: uo bnval_def mult.commute)
    ultimately have "unat (ucast o' :: 32 word) * bval (bigits b1) < bn_limit" by (simp add: bn_limit_def)
    moreover have "(ucast o' :: 32 word) \<noteq> 0" using uo o(1) by (metis less_numeral_extra(3) unat_eq_0)
    ultimately show ?thesis using MultiplyByUInt32_correct [OF b1(2), of "ucast o'"] True p b1(4) by (auto simp: bnval_def)
  qed (use b1 pw(3) in auto)
  then obtain b2 where b2: "(if d then MultiplyByUInt32 b1 (ucast o') else Some b1) = Some b2" "bn_ok b2" "exponent b2 = 0"
      "bnval b2 = unat o' ^ (e div 2 ^ k)" by blast
  obtain b3 where b3: "power_loop b2 o' e (msk k) = Some b3" "bn_ok b3" "bnval b3 = unat o' ^ e" "exponent b3 = 0"
    using power_loop_correct [OF o(2,1) cap' b2(2-4)] by blast
  have "unat o' ^ e < radix ^ 127" using power_le [of "unat o'" bs e] o(2) two_power_limit [OF cap'] by linarith
  then have "used_digits b3 < 128" using b3(3,4) by (intro used_less_127 [OF b3(2)]) (simp add: bnval_def)
  from ShiftLeft_correct [OF b3(2) this, of "s * e"] obtain c where
    c: "ShiftLeft b3 (s * e) = Some c" "bn_ok c" "bnval c = bnval b3 * 2 ^ (s * e)" by blast
  have "bnval c = unat base ^ e" unfolding c(3) b3(3) st(3) by (simp add: power_mult_distrib power_mult)
  moreover have "AssignPowerUInt16 b base e = Some c"
    using False Zero_correct [OF raw] st(1) ec j(1) pw(1) b1(1) b2(1) b3(1) c(1)
    by (simp add: AssignPowerUInt16_def Let_def bit_size_loop_correct bs_def [symmetric] del: power_Suc)
  ultimately show ?thesis using c(2) by blast
qed

end
