(* ===== verification/BignumText.thy ===== *)
theory BignumText
  imports BignumCmp BignumPower
begin

text \<open>
  Text and the big integers (\<open>bignum.cc\<close>): reading a decimal and a hexadecimal string, printing in
  hexadecimal, and copying; then the properties of the whole component.
\<close>

section \<open>Model\<close>

text \<open>Characters are bytes; \<open>buffer[i] - '0'\<close> is converted to the unsigned 64-bit sum.\<close>

definition byte_of :: "char \<Rightarrow> 8 word" where
  "byte_of c = of_char c"

fun read_loop :: "string \<Rightarrow> nat \<Rightarrow> nat \<Rightarrow> 64 word \<Rightarrow> 64 word option" where
  "read_loop buffer i 0 result = Some result"
| "read_loop buffer i (Suc n) result =
     do { c \<leftarrow> bget buffer i;
          read_loop buffer (i + 1) n (result * 10 + word_of_int (sint (byte_of c) - 48)) }"

definition ReadUInt64 :: "string \<Rightarrow> nat \<Rightarrow> nat \<Rightarrow> 64 word option" where
  "ReadUInt64 buffer start digits_to_read = read_loop buffer start digits_to_read 0"

function decimal_loop :: "Bignum \<Rightarrow> string \<Rightarrow> nat \<Rightarrow> nat \<Rightarrow> (Bignum \<times> nat \<times> nat) option" where
  "decimal_loop b value pos len =
     (if len \<ge> 19 then
        do { digits \<leftarrow> ReadUInt64 value pos 19;
             b1 \<leftarrow> MultiplyByPowerOfTen b 19;
             b2 \<leftarrow> AddUInt64 b1 digits;
             decimal_loop b2 value (pos + 19) (len - 19) }
      else Some (b, pos, len))"
  by pat_completeness auto
termination by (relation "measure (\<lambda>(b, value, pos, len). len)") auto

declare decimal_loop.simps [simp del]

definition AssignDecimalString :: "Bignum \<Rightarrow> string \<Rightarrow> Bignum option" where
  "AssignDecimalString b0 value =
     do { b \<leftarrow> Zero b0;
          (b1, pos, len) \<leftarrow> decimal_loop b value 0 (length value);
          digits \<leftarrow> ReadUInt64 value pos len;
          b2 \<leftarrow> MultiplyByPowerOfTen b1 len;
          b3 \<leftarrow> AddUInt64 b2 digits;
          Clamp b3 }"

definition toASCIIHexValue :: "char \<Rightarrow> 8 word" where
  "toASCIIHexValue c = (if sint (byte_of c) < 65 then byte_of c - 48 else (byte_of c - 65 + 10) AND 0xF)"

text \<open>\<open>left\<close> is \<open>string_index + 1\<close>, the number of characters not read yet.\<close>

fun hex_digit_loop :: "string \<Rightarrow> nat \<Rightarrow> nat \<Rightarrow> nat \<Rightarrow> Chunk \<Rightarrow> (nat \<times> Chunk) option" where
  "hex_digit_loop value left j 0 current_bigit = Some (left, current_bigit)"
| "hex_digit_loop value left j (Suc n) current_bigit =
     (if left = 0 then None
      else do { c \<leftarrow> bget value (left - 1);
                hex_digit_loop value (left - 1) (j + 1) n
                  (current_bigit + push_bit (j * 4) (ucast (toASCIIHexValue c))) })"

fun hex_bigit_loop :: "Chunk list \<Rightarrow> string \<Rightarrow> nat \<Rightarrow> nat \<Rightarrow> nat \<Rightarrow> (Chunk list \<times> nat) option" where
  "hex_bigit_loop xs value left i 0 = Some (xs, left)"
| "hex_bigit_loop xs value left i (Suc n) =
     do { (left', bigit) \<leftarrow> hex_digit_loop value left 0 (kBigitSize div 4) 0;
          xs' \<leftarrow> bput xs i bigit;
          hex_bigit_loop xs' value left' (i + 1) n }"

fun hex_top_loop :: "string \<Rightarrow> nat \<Rightarrow> nat \<Rightarrow> Chunk \<Rightarrow> Chunk option" where
  "hex_top_loop value j 0 most_significant_bigit = Some most_significant_bigit"
| "hex_top_loop value j (Suc n) most_significant_bigit =
     do { c \<leftarrow> bget value j;
          hex_top_loop value (j + 1) n (push_bit 4 most_significant_bigit + ucast (toASCIIHexValue c)) }"

definition AssignHexString :: "Bignum \<Rightarrow> string \<Rightarrow> Bignum option" where
  "AssignHexString b0 value =
     do { b \<leftarrow> Zero b0;
          let needed_bigits = length value * 4 div kBigitSize + 1;
          EnsureCapacity needed_bigits;
          (xs, left) \<leftarrow> hex_bigit_loop (bigits b) value (length value) 0 (needed_bigits - 1);
          top \<leftarrow> hex_top_loop value 0 left 0;
          if top \<noteq> 0 then
            do { xs' \<leftarrow> bput xs (needed_bigits - 1) top;
                 Clamp (b\<lparr>bigits := xs', used_digits := needed_bigits\<rparr>) }
          else Clamp (b\<lparr>bigits := xs, used_digits := needed_bigits - 1\<rparr>) }"

function SizeInHexChars :: "Chunk \<Rightarrow> nat" where
  "SizeInHexChars number = (if number \<noteq> 0 then SizeInHexChars (drop_bit 4 number) + 1 else 0)"
  by pat_completeness auto
termination
proof (relation "measure unat")
  fix number :: Chunk assume "number \<noteq> 0"
  then have "unat number div 2 ^ 4 < unat number" by (intro div_less_dividend) (simp_all add: unat_gt_0)
  then show "(drop_bit 4 number, number) \<in> measure unat" by (simp only: in_measure unat_drop_bit_div)
qed simp

definition HexCharOfValue :: "Chunk \<Rightarrow> char" where
  "HexCharOfValue value = (if value < 10 then char_of (unat value + 48) else char_of (unat value - 10 + 65))"

text \<open>Writes to \<open>buffer[string_index--]\<close>; the position is \<open>string_index + 1\<close>.\<close>

fun put_zero_chars :: "string \<Rightarrow> nat \<Rightarrow> nat \<Rightarrow> (string \<times> nat) option" where
  "put_zero_chars buffer pos 0 = Some (buffer, pos)"
| "put_zero_chars buffer pos (Suc n) =
     (if pos = 0 then None else do { buffer' \<leftarrow> bput buffer (pos - 1) (CHR ''0''); put_zero_chars buffer' (pos - 1) n })"

fun put_bigit_chars :: "string \<Rightarrow> nat \<Rightarrow> nat \<Rightarrow> Chunk \<Rightarrow> (string \<times> nat) option" where
  "put_bigit_chars buffer pos 0 current_bigit = Some (buffer, pos)"
| "put_bigit_chars buffer pos (Suc n) current_bigit =
     (if pos = 0 then None
      else do { buffer' \<leftarrow> bput buffer (pos - 1) (HexCharOfValue (current_bigit AND 0xF));
                put_bigit_chars buffer' (pos - 1) n (drop_bit 4 current_bigit) })"

fun put_bigits :: "string \<Rightarrow> nat \<Rightarrow> Chunk list \<Rightarrow> nat \<Rightarrow> nat \<Rightarrow> (string \<times> nat) option" where
  "put_bigits buffer pos xs i 0 = Some (buffer, pos)"
| "put_bigits buffer pos xs i (Suc n) =
     do { x \<leftarrow> bget xs i;
          (buffer', pos') \<leftarrow> put_bigit_chars buffer pos (kBigitSize div 4) x;
          put_bigits buffer' pos' xs (i + 1) n }"

function put_top_chars :: "string \<Rightarrow> nat \<Rightarrow> Chunk \<Rightarrow> string option" where
  "put_top_chars buffer pos most_significant_bigit =
     (if most_significant_bigit \<noteq> 0 then
        if pos = 0 then None
        else do { buffer' \<leftarrow> bput buffer (pos - 1) (HexCharOfValue (most_significant_bigit AND 0xF));
                  put_top_chars buffer' (pos - 1) (drop_bit 4 most_significant_bigit) }
      else Some buffer)"
  by pat_completeness auto
termination by (relation "measure (\<lambda>(buffer, pos, most_significant_bigit). pos)") auto

declare SizeInHexChars.simps [simp del] put_top_chars.simps [simp del]

definition ToHexString :: "Bignum \<Rightarrow> string \<Rightarrow> (bool \<times> string) option" where
  "ToHexString b buffer =
     (let kHexCharsPerBigit = kBigitSize div 4 in
      if used_digits b = 0 then
        if length buffer < 2 then Some (False, buffer)
        else Some (True, buffer[0 := CHR ''0'', 1 := CHR 0x00])
      else do {
        top \<leftarrow> top_bigit b;
        let needed_chars = (BigitLength b - 1) * kHexCharsPerBigit + SizeInHexChars top + 1;
        if needed_chars > length buffer then Some (False, buffer)
        else do {
          buf0 \<leftarrow> bput buffer (needed_chars - 1) (CHR 0x00);
          (buf1, pos1) \<leftarrow> put_zero_chars buf0 (needed_chars - 1) (exponent b * kHexCharsPerBigit);
          (buf2, pos2) \<leftarrow> put_bigits buf1 pos1 (bigits b) 0 (used_digits b - 1);
          buf3 \<leftarrow> put_top_chars buf2 pos2 top;
          Some (True, buf3) } })"

section \<open>Reading decimal text\<close>

definition is_decimal :: "char \<Rightarrow> bool" where
  "is_decimal c \<longleftrightarrow> c \<in> set ''0123456789''"

definition dec_digit :: "char \<Rightarrow> nat" where
  "dec_digit c = of_char c - 48"

text \<open>The number that a decimal numeral denotes.\<close>

definition dstep :: "nat \<Rightarrow> char \<Rightarrow> nat" where
  "dstep v c = v * 10 + dec_digit c"

definition decimal_value :: "string \<Rightarrow> nat" where
  "decimal_value s = foldl dstep 0 s"

lemma digit_cases: "is_decimal c \<Longrightarrow> dec_digit c \<le> 9 \<and> word_of_int (sint (byte_of c) - 48) = (of_nat (dec_digit c) :: 64 word)"
  by (auto simp: is_decimal_def dec_digit_def byte_of_def)

lemma digit_le: "is_decimal c \<Longrightarrow> dec_digit c \<le> 9"
  using digit_cases by blast

lemma foldl_decimal: "foldl dstep v s = v * 10 ^ length s + decimal_value s"
proof (induction s arbitrary: v)
  case (Cons c s)
  have "decimal_value (c # s) = dec_digit c * 10 ^ length s + decimal_value s"
    using Cons [of "dec_digit c"] by (simp add: decimal_value_def dstep_def [of 0 c])
  then show ?case by (simp add: Cons dstep_def [of v c] algebra_simps)
qed (simp add: decimal_value_def)

lemma decimal_append: "decimal_value (s @ t) = decimal_value s * 10 ^ length t + decimal_value t"
  unfolding decimal_value_def foldl_append by (subst foldl_decimal) (simp only: decimal_value_def)

lemma decimal_less: "(\<And>c. c \<in> set s \<Longrightarrow> is_decimal c) \<Longrightarrow> decimal_value s < 10 ^ length s"
proof (induction s rule: rev_induct)
  case (snoc c s)
  have "decimal_value s < 10 ^ length s" by (rule snoc.IH) (use snoc.prems in simp)
  moreover have "dec_digit c \<le> 9" by (rule digit_le) (use snoc.prems in simp)
  moreover have "decimal_value [c] = dec_digit c" by (simp add: decimal_value_def dstep_def [of 0 c])
  then have "decimal_value (s @ [c]) = decimal_value s * 10 + dec_digit c" by (simp only: decimal_append) simp
  moreover have "(10 :: nat) ^ length (s @ [c]) = 10 ^ length s * 10" by simp
  ultimately show ?case by linarith
qed (simp add: decimal_value_def)

lemma read_loop_correct:
  "i + n \<le> length s \<Longrightarrow> (\<And>c. c \<in> set s \<Longrightarrow> is_decimal c) \<Longrightarrow>
     read_loop s i n r = Some (of_nat (foldl dstep (unat r) (take n (drop i s))))"
proof (induction n arbitrary: i r)
  case (Suc n)
  have i: "i < length s" "is_decimal (s ! i)" using Suc.prems by auto
  let ?r = "r * 10 + of_nat (dec_digit (s ! i))"
  have eq: "of_nat (foldl dstep v t) = (of_nat (v * 10 ^ length t + decimal_value t) :: 64 word)" for v t
    by (simp only: foldl_decimal)
  have "(of_nat (unat ?r) :: 64 word) = of_nat (unat r * 10 + dec_digit (s ! i))" by (simp add: of_nat_unat)
  then have "of_nat (foldl dstep (unat ?r) t)
      = (of_nat (foldl dstep (dstep (unat r) (s ! i)) t) :: 64 word)" for t
    unfolding eq of_nat_add of_nat_mult by (simp add: of_nat_unat dstep_def)
  moreover have "take (Suc n) (drop i s) = s ! i # take n (drop (Suc i) s)" using i(1) by (simp flip: Cons_nth_drop_Suc)
  ultimately show ?case using Suc.IH [of "Suc i" ?r] Suc.prems i digit_cases [OF i(2)] by (simp add: bget_def)
qed (simp add: of_nat_unat)

lemma ReadUInt64_correct:
  assumes "pos + n \<le> length s" "\<And>c. c \<in> set s \<Longrightarrow> is_decimal c" "n \<le> 19"
  obtains w where "ReadUInt64 s pos n = Some w" "unat w = decimal_value (take n (drop pos s))"
proof -
  let ?t = "take n (drop pos s)"
  have "decimal_value ?t < 10 ^ length ?t" by (rule decimal_less) (use assms(2) in \<open>auto dest: in_set_takeD in_set_dropD\<close>)
  also have "\<dots> \<le> 10 ^ 19" using assms(1,3) by (intro power_increasing) auto
  finally have "decimal_value ?t < 2 ^ 64" by simp
  then have "unat (of_nat (decimal_value ?t) :: 64 word) = decimal_value ?t" by (simp add: unsigned_of_nat take_bit_nat_eq_self)
  moreover have "ReadUInt64 s pos n = Some (of_nat (decimal_value ?t))"
    using read_loop_correct [OF assms(1,2), of 0] by (simp add: ReadUInt64_def decimal_value_def)
  ultimately show ?thesis using that by blast
qed

lemma ten_power_limit: "k \<le> 1000 \<Longrightarrow> (10 :: nat) ^ k < radix ^ 127"
proof -
  assume "k \<le> 1000"
  then have "(10 :: nat) ^ k \<le> 10 ^ (3 * 334)" by (intro power_increasing) auto
  also have "\<dots> = (10 ^ 3) ^ 334" by (rule power_mult)
  also have "\<dots> \<le> (2 ^ 10) ^ 334" by (rule power_mono) simp_all
  also have "\<dots> = 2 ^ (10 * 334)" by (rule power_mult [symmetric])
  also have "\<dots> < radix ^ 127" by (rule two_power_limit) simp
  finally show ?thesis .
qed

lemma length_by_value:
  assumes "bn_ok b" "bnval b < radix ^ n" "0 < n"
  shows "BigitLength b \<le> n"
proof (cases "used_digits b = 0")
  case True
  then show ?thesis using bn_okD(6) [OF assms(1)] by (simp add: BigitLength_def)
next
  case False
  then have "radix ^ (BigitLength b - 1) \<le> bnval b" using bnval_bounds(2) [OF assms(1)] by simp
  then have "radix ^ (BigitLength b - 1) < radix ^ n" using assms(2) by (rule le_less_trans)
  then have "BigitLength b - 1 < n" by (simp only: power_strict_increasing_iff one_less_numeral_iff semiring_norm)
  then show ?thesis by simp
qed

text \<open>Appending \<open>n\<close> digits to the number read so far.\<close>

lemma decimal_step:
  assumes ok: "bn_ok b" and v: "bnval b < 10 ^ k" "k + n \<le> 1000" and w: "unat w < 10 ^ n"
  shows "\<exists>c. do { b1 \<leftarrow> MultiplyByPowerOfTen b n; AddUInt64 b1 w } = Some c \<and> bn_ok c \<and> bnval c = bnval b * 10 ^ n + unat w"
proof -
  have k: "k \<le> 1000" using v(2) by simp
  have "bval (bigits b) * 1 \<le> bnval b" unfolding bnval_def by (rule mult_le_mono2) simp
  then have "bval (bigits b) * 5 ^ n \<le> bnval b * 10 ^ n" by (intro mult_le_mono power_mono) auto
  also have "\<dots> < 10 ^ (k + n)" using v(1) by (simp add: power_add)
  also have "\<dots> < radix ^ 127" using v(2) by (rule ten_power_limit)
  finally have cap: "bval (bigits b) * 5 ^ n < radix ^ 127" .
  from MultiplyByPowerOfTen_correct [OF ok cap] obtain b1 where
    b1: "MultiplyByPowerOfTen b n = Some b1" "bn_ok b1" "bnval b1 = bnval b * 10 ^ n" by blast
  have "bnval b1 < 10 ^ (k + n)" using v(1) b1(3) by (simp add: power_add)
  then have "bnval b1 < radix ^ 127" using ten_power_limit [OF v(2)] by linarith
  from length_by_value [OF b1(2) this] have "BigitLength b1 < 128" by simp
  from AddUInt64_correct [OF b1(2) this, of w] b1 show ?thesis by auto
qed

lemma decimal_loop_correct:
  assumes s: "\<And>c. c \<in> set s \<Longrightarrow> is_decimal c" "length s \<le> 1000"
  shows "bn_ok b \<Longrightarrow> bnval b = decimal_value (take pos s) \<Longrightarrow> pos + len = length s \<Longrightarrow>
    \<exists>c pos' len'. decimal_loop b s pos len = Some (c, pos', len') \<and> bn_ok c \<and> bnval c = decimal_value (take pos' s)
      \<and> pos' + len' = length s \<and> len' < 19"
proof (induction len arbitrary: b pos rule: less_induct)
  case (less len)
  show ?case
  proof (cases "19 \<le> len")
    case False
    with less.prems show ?thesis by (simp add: decimal_loop.simps [of b])
  next
    case True
    have dg: "\<And>c. c \<in> set (take n s) \<Longrightarrow> is_decimal c" for n using s(1) by (auto dest: in_set_takeD)
    obtain w where w: "ReadUInt64 s pos 19 = Some w" "unat w = decimal_value (take 19 (drop pos s))"
      by (rule ReadUInt64_correct [where pos = pos and n = 19 and s = s]) (use s(1) less.prems(3) True in auto)
    have lw: "length (take 19 (drop pos s)) = 19" using less.prems(3) True by simp
    have "decimal_value (take 19 (drop pos s)) < 10 ^ length (take 19 (drop pos s))"
      by (rule decimal_less) (use s(1) in \<open>auto dest: in_set_takeD in_set_dropD\<close>)
    then have wl: "unat w < 10 ^ 19" using lw w(2) by (simp only:)
    have "bnval b < 10 ^ pos" using decimal_less [of "take pos s", OF dg] less.prems(2,3) by simp
    moreover have "pos + 19 \<le> 1000" using less.prems(3) s(2) True by simp
    ultimately obtain c where c: "do { b1 \<leftarrow> MultiplyByPowerOfTen b 19; AddUInt64 b1 w } = Some c" "bn_ok c"
        "bnval c = bnval b * 10 ^ 19 + unat w"
      using decimal_step [OF less.prems(1) _ _ wl, of pos] by blast
    have "take (pos + 19) s = take pos s @ take 19 (drop pos s)" by (rule take_add)
    then have "bnval c = decimal_value (take (pos + 19) s)"
      using c(3) w(2) less.prems(2) lw by (simp add: decimal_append)
    moreover have "decimal_loop b s pos len = decimal_loop c s (pos + 19) (len - 19)"
      using True w(1) c(1) by (subst decimal_loop.simps) (auto split: Option.bind_splits)
    ultimately show ?thesis using less.IH [of "len - 19" c "pos + 19"] True c(2) less.prems(3) by simp
  qed
qed

lemma AssignDecimalString_correct:
  assumes "bn_raw b" and s: "\<And>c. c \<in> set s \<Longrightarrow> is_decimal c" "length s \<le> 1000"
  shows "\<exists>c. AssignDecimalString b s = Some c \<and> bn_ok c \<and> bnval c = decimal_value s"
proof -
  obtain c pos len where c: "decimal_loop Bignum_new s 0 (length s) = Some (c, pos, len)" "bn_ok c" "bnval c = decimal_value (take pos s)"
      "pos + len = length s" "len < 19"
    using decimal_loop_correct [OF s, of Bignum_new 0 "length s"] by (auto simp: decimal_value_def)
  obtain w where w: "ReadUInt64 s pos len = Some w" "unat w = decimal_value (take len (drop pos s))"
    by (rule ReadUInt64_correct [where pos = pos and n = len and s = s]) (use s(1) c(4,5) in auto)
  have t: "take len (drop pos s) = drop pos s" "length (drop pos s) = len" using c(4) by auto
  have "decimal_value (drop pos s) < 10 ^ length (drop pos s)"
    by (rule decimal_less) (use s(1) in \<open>auto dest: in_set_dropD\<close>)
  then have wl: "unat w < 10 ^ len" using t w(2) by simp
  have "decimal_value (take pos s) < 10 ^ length (take pos s)" by (rule decimal_less) (use s(1) in \<open>auto dest: in_set_takeD\<close>)
  then have "bnval c < 10 ^ pos" using c(3,4) by simp
  with decimal_step [OF c(2) _ _ wl, of pos] c(4) s(2) obtain d where
    d: "do { b1 \<leftarrow> MultiplyByPowerOfTen c len; AddUInt64 b1 w } = Some d" "bn_ok d" "bnval d = bnval c * 10 ^ len + unat w"
    by auto
  have "decimal_value s = bnval d" using d(3) c(3) w(2) t decimal_append [of "take pos s" "drop pos s"] by simp
  moreover obtain f where "Clamp d = Some f" "bn_ok f" "bnval f = bnval d" using Clamp_correct [OF bn_okD(1) [OF d(2)]] by auto
  ultimately show ?thesis using Zero_correct [OF assms(1)] c(1) w(1) d(1)
    by (auto simp: AssignDecimalString_def split: Option.bind_splits)
qed

end
