(* ===== verification/BignumHex.thy ===== *)
theory BignumHex
  imports BignumText
begin

text \<open>
  The hexadecimal reader and printer of the big integers: \<open>AssignHexString\<close> gives the number its
  text denotes, \<open>ToHexString\<close> writes the digits of the number, and one undoes the other.
\<close>

section \<open>Hexadecimal numerals\<close>

definition is_hex :: "char \<Rightarrow> bool" where
  "is_hex c \<longleftrightarrow> c \<in> set ''0123456789ABCDEFabcdef''"

definition hex_digit :: "char \<Rightarrow> nat" where
  "hex_digit c = unat (toASCIIHexValue c)"

definition hstep :: "nat \<Rightarrow> char \<Rightarrow> nat" where
  "hstep v c = v * 16 + hex_digit c"

definition hex_value :: "string \<Rightarrow> nat" where
  "hex_value s = foldl hstep 0 s"

text \<open>The same from the least significant digit.\<close>

fun hexr :: "string \<Rightarrow> nat" where
  "hexr [] = 0"
| "hexr (c # cs) = hex_digit c + 16 * hexr cs"

lemma hexr_append: "hexr (xs @ ys) = hexr xs + 16 ^ length xs * hexr ys"
  by (induction xs) (auto simp: algebra_simps)

lemma hexr_zeros: "hexr (replicate n (CHR ''0'')) = 0"
  by (induction n) (simp_all add: hex_digit_def toASCIIHexValue_def byte_of_def)

lemma foldl_hstep: "foldl hstep v s = v * 16 ^ length s + hexr (rev s)"
  by (induction s arbitrary: v) (simp_all add: hexr_append hstep_def algebra_simps)

lemma hex_value_rev: "hex_value s = hexr (rev s)"
  by (simp add: hex_value_def foldl_hstep)

lemma hex_value_append: "hex_value (s @ t) = hex_value s * 16 ^ length t + hex_value t"
  by (simp add: hex_value_rev hexr_append)

lemma is_hex_digit: "is_hex c \<Longrightarrow> hex_digit c < 16"
  by (auto simp: is_hex_def hex_digit_def toASCIIHexValue_def byte_of_def)

lemma hexr_less: "(\<And>c. c \<in> set s \<Longrightarrow> is_hex c) \<Longrightarrow> hexr s < 16 ^ length s"
proof (induction s)
  case (Cons c s)
  then have "hex_digit c < 16" "hexr s < 16 ^ length s" using is_hex_digit by auto
  then show ?case by simp
qed simp

lemma hex_value_less: "(\<And>c. c \<in> set s \<Longrightarrow> is_hex c) \<Longrightarrow> hex_value s < 16 ^ length s"
  using hexr_less [of "rev s"] by (simp add: hex_value_rev)

section \<open>Reading\<close>

lemma ucast_hex_digit: "ucast (toASCIIHexValue c) = (of_nat (hex_digit c) :: Chunk)"
  unfolding hex_digit_def by (simp add: of_nat_unat)

lemma push_nibble: "push_bit (j * 4) (of_nat v :: Chunk) = of_nat (v * 16 ^ j)"
  by (simp add: push_bit_eq_mult mult.commute [of j] power_mult)

lemma hex_digit_loop_eq:
  "n \<le> left \<Longrightarrow> left \<le> length s \<Longrightarrow> hex_digit_loop s left j n acc
     = Some (left - n, acc + of_nat (16 ^ j * hex_value (take n (drop (left - n) s))))"
proof (induction n arbitrary: left j acc)
  case (Suc n)
  define t where "t = take n (drop (left - Suc n) s)"
  have "take (Suc n) (drop (left - Suc n) s) = t @ [s ! (left - 1)]"
    using Suc.prems by (simp add: t_def take_Suc_conv_app_nth)
  then have v: "hex_value (take (Suc n) (drop (left - Suc n) s)) = hex_value t * 16 + hex_digit (s ! (left - 1))"
    by (simp add: hex_value_append) (simp add: hex_value_def hstep_def)
  have "hex_digit_loop s (left - 1) (j + 1) n a = Some (left - Suc n, a + of_nat (16 ^ (j + 1) * hex_value t))" for a
    using Suc.IH [of "left - 1" "j + 1" a] Suc.prems by (simp add: t_def)
  then show ?case using Suc.prems unfolding v
    by (simp add: bget_def ucast_hex_digit push_nibble algebra_simps)
qed (simp add: hex_value_def)

text \<open>The digits of the number, seven characters each from the end of the text.\<close>

definition hex_chunk :: "string \<Rightarrow> nat \<Rightarrow> Chunk" where
  "hex_chunk s i = of_nat (hex_value (take 7 (drop (length s - 7 * Suc i) s)))"

lemma hex_chunk_unat:
  assumes "\<And>c. c \<in> set s \<Longrightarrow> is_hex c"
  shows "unat (hex_chunk s i) = hex_value (take 7 (drop (length s - 7 * Suc i) s))" "unat (hex_chunk s i) < radix"
proof -
  let ?t = "take 7 (drop (length s - 7 * Suc i) s)"
  have "hex_value ?t < 16 ^ length ?t" by (rule hex_value_less) (use assms in \<open>auto dest: in_set_takeD in_set_dropD\<close>)
  also have "\<dots> \<le> 16 ^ 7" by (intro power_increasing) auto
  finally have t: "hex_value ?t < radix" by simp
  then show "unat (hex_chunk s i) = hex_value ?t"
    by (simp add: hex_chunk_def unsigned_of_nat take_bit_nat_eq_self)
  then show "unat (hex_chunk s i) < radix" using t by (simp only:)
qed

lemma hex_bigit_loop_eq:
  "7 * (i + n) \<le> length s \<Longrightarrow> i + n \<le> length xs \<Longrightarrow> hex_bigit_loop xs s (length s - 7 * i) i n
     = Some (take i xs @ map (hex_chunk s) [i..<i + n] @ drop (i + n) xs, length s - 7 * (i + n))"
proof (induction n arbitrary: i xs)
  case (Suc n)
  have "hex_digit_loop s (length s - 7 * i) 0 7 0 = Some (length s - 7 * Suc i, hex_chunk s i)"
    using Suc.prems by (subst hex_digit_loop_eq) (auto simp: hex_chunk_def add.commute)
  moreover have "[i..<i + Suc n] = i # [Suc i..<Suc i + n]" by (simp add: upt_conv_Cons del: upt_Suc)
  ultimately show ?case using Suc.IH [of "Suc i" "xs[i := hex_chunk s i]"] Suc.prems
    by (simp add: bput_def take_Suc_conv_app_nth del: upt_Suc)
qed simp

lemma hex_chunks_value:
  assumes "\<And>c. c \<in> set s \<Longrightarrow> is_hex c"
  shows "7 * n \<le> length s \<Longrightarrow>
    bval (map (hex_chunk s) [0..<n]) + radix ^ n * hex_value (take (length s - 7 * n) s) = hex_value s"
proof (induction n)
  case (Suc n)
  let ?p = "length s - 7 * Suc n"
  have "take (length s - 7 * n) s = take ?p s @ take 7 (drop ?p s)"
    using Suc.prems take_add [of ?p 7 s] by simp
  then have "hex_value (take (length s - 7 * n) s) = hex_value (take ?p s) * radix + unat (hex_chunk s n)"
    using Suc.prems hex_chunk_unat(1) [where s = s and i = n, OF assms] by (simp add: hex_value_append)
  then have "hex_value s = bval (map (hex_chunk s) [0..<n])
      + radix ^ n * (hex_value (take ?p s) * radix + unat (hex_chunk s n))"
    using Suc by simp
  then show ?case by (simp add: bval_append algebra_simps)
qed simp

lemma hex_top_loop_eq:
  "j + n \<le> length s \<Longrightarrow> hex_top_loop s j n acc = Some (acc * 16 ^ n + of_nat (hex_value (take n (drop j s))))"
proof (induction n arbitrary: j acc)
  case (Suc n)
  have "take (Suc n) (drop j s) = [s ! j] @ take n (drop (Suc j) s)" using Suc.prems by (simp flip: Cons_nth_drop_Suc)
  moreover have "length (take n (drop (Suc j) s)) = n" using Suc.prems by simp
  moreover have "hex_value [s ! j] = hex_digit (s ! j)" by (simp add: hex_value_def hstep_def)
  ultimately have "hex_value (take (Suc n) (drop j s)) = hex_digit (s ! j) * 16 ^ n + hex_value (take n (drop (Suc j) s))"
    by (simp only: hex_value_append)
  moreover have "push_bit 4 acc = acc * 16" for acc :: Chunk by (simp add: push_bit_eq_mult)
  ultimately show ?case using Suc.IH [of "Suc j"] Suc.prems
    by (simp add: bget_def ucast_hex_digit algebra_simps)
qed (simp add: hex_value_def)

text \<open>The array after the loops: \<open>k\<close> full digits and possibly a top digit.\<close>

lemma hex_array:
  assumes xs: "xs = ds @ replicate (128 - length ds) 0" and ds: "digits_ok ds" "length ds \<le> 128" 
  shows "\<exists>c. Clamp (Bignum_new\<lparr>bigits := xs, used_digits := length ds\<rparr>) = Some c \<and> bn_ok c \<and> bnval c = bval ds"
proof -
  let ?b = "Bignum_new\<lparr>bigits := xs, used_digits := length ds\<rparr>"
  have "bn_raw ?b" using assms by (auto simp: bn_raw_def Bignum_new_def nth_append)
  moreover have "bnval ?b = bval ds" using xs by (simp add: bnval_def bval_append Bignum_new_def)
  ultimately show ?thesis using Clamp_correct [of ?b] by auto
qed

lemma AssignHexString_correct:
  assumes b: "bn_raw b" and s: "\<And>c. c \<in> set s \<Longrightarrow> is_hex c" "length s div 7 < 128"
  shows "\<exists>c. AssignHexString b s = Some c \<and> bn_ok c \<and> bnval c = hex_value s"
proof -
  define k where "k = length s div 7"
  define ds where "ds = map (hex_chunk s) [0..<k]"
  define t where "t = take (length s - 7 * k) s"
  define top :: Chunk where "top = of_nat (hex_value t)"
  let ?xs = "ds @ replicate (128 - k) 0"
  have k: "length s * 4 div 28 = k" "7 * k \<le> length s" "k < 128" "length s - 7 * k < 7" using s(2) by (auto simp: k_def)
  have loops: "hex_bigit_loop (bigits Bignum_new) s (length s) 0 k = Some (?xs, length s - 7 * k)"
    "hex_top_loop s 0 (length s - 7 * k) 0 = Some top"
    using hex_bigit_loop_eq [of 0 k s "bigits Bignum_new"] hex_top_loop_eq [of 0 "length s - 7 * k" s 0] k
    by (simp_all add: ds_def t_def top_def Bignum_new_def)
  have "hex_value t < 16 ^ length t" by (rule hex_value_less) (use s(1) in \<open>auto simp: t_def dest: in_set_takeD\<close>)
  also have "\<dots> \<le> 16 ^ 6" using k(4) by (intro power_increasing) (auto simp: t_def)
  finally have "unat top = hex_value t" "unat top < radix" by (simp_all add: top_def unsigned_of_nat take_bit_nat_eq_self)
  note top = this
  have ok: "digits_ok ds" "length ds = k" using hex_chunk_unat(2) [OF s(1)] by (auto simp: ds_def digits_ok_def)
  have v: "bval ds + radix ^ k * unat top = hex_value s"
    using hex_chunks_value [OF s(1) k(2)] top(1) by (simp only: ds_def t_def)
  note defs = AssignHexString_def Zero_correct [OF b] EnsureCapacity_def loops k(1)
  show ?thesis
  proof (cases "top = 0")
    case True
    with v have "bval ds = hex_value s" by simp
    with hex_array [of ?xs ds] ok k True show ?thesis by (simp add: defs)
  next
    case False
    have "bput ?xs k top = Some ((ds @ [top]) @ replicate (128 - length (ds @ [top])) 0)"
      using ok(2) k(3) by (cases "128 - k") (auto simp: bput_def list_update_append Suc_diff_Suc)
    moreover have "digits_ok (ds @ [top])" using ok(1) top(2) by simp
    moreover have "bval (ds @ [top]) = hex_value s" using v ok(2) by (simp add: bval_append)
    ultimately show ?thesis using hex_array [OF refl, of "ds @ [top]"] ok(2) k(3) False by (simp add: defs)
  qed
qed

section \<open>Printing\<close>

text \<open>The buffer after the characters \<open>cs\<close> were written downwards from position \<open>pos\<close>.\<close>

definition write_down :: "string \<Rightarrow> nat \<Rightarrow> string \<Rightarrow> string" where
  "write_down buffer pos cs = take (pos - length cs) buffer @ rev cs @ drop pos buffer"

lemma write_down_Nil: "write_down buffer pos [] = buffer"
  by (simp add: write_down_def)

lemma write_down_Cons:
  assumes "length cs < pos" "pos \<le> length buffer"
  shows "write_down (buffer[pos - 1 := c]) (pos - 1) cs = write_down buffer pos (c # cs)"
proof -
  have "drop (pos - 1) (buffer[pos - 1 := c]) = c # drop pos buffer"
    using assms by (simp add: drop_update_swap upd_conv_take_nth_drop)
  moreover have "take (pos - 1 - length cs) (buffer[pos - 1 := c]) = take (pos - Suc (length cs)) buffer"
    using assms by simp
  ultimately show ?thesis by (simp add: write_down_def)
qed

lemma length_write_down:
  "length cs \<le> pos \<Longrightarrow> pos \<le> length buffer \<Longrightarrow> length (write_down buffer pos cs) = length buffer"
  by (simp add: write_down_def)

lemma write_down_append:
  assumes "length cs + length ds \<le> pos" "pos \<le> length buffer"
  shows "write_down (write_down buffer pos cs) (pos - length cs) ds = write_down buffer pos (cs @ ds)"
  using assms by (simp add: write_down_def)

lemma put_zero_chars_eq:
  "n \<le> pos \<Longrightarrow> pos \<le> length buffer \<Longrightarrow>
     put_zero_chars buffer pos n = Some (write_down buffer pos (replicate n (CHR ''0'')), pos - n)"
  by (induction n arbitrary: buffer pos) (auto simp: bput_def write_down_Nil write_down_Cons [simplified])

text \<open>The lowest \<open>n\<close> hexadecimal digits of a chunk, lowest first.\<close>

fun hex_digits :: "nat \<Rightarrow> Chunk \<Rightarrow> string" where
  "hex_digits 0 x = []"
| "hex_digits (Suc n) x = HexCharOfValue (x AND 0xF) # hex_digits n (drop_bit 4 x)"

lemma length_hex_digits [simp]: "length (hex_digits n x) = n"
  by (induction n arbitrary: x) simp_all

lemma hex_char_correct:
  assumes "unat v < 16"
  shows "hex_digit (HexCharOfValue v) = unat v" "is_hex (HexCharOfValue v)" "HexCharOfValue v \<noteq> CHR 0x00"
    "unat v \<noteq> 0 \<longleftrightarrow> HexCharOfValue v \<noteq> CHR ''0''"
proof -
  define n where "n = unat v"
  have v: "v = of_nat n" by (simp add: n_def of_nat_unat)
  have "n < 16" using assms by (simp add: n_def)
  then have "n \<in> {0, 1, 2, 3, 4, 5, 6, 7, 8, 9, 10, 11, 12, 13, 14, 15}" by (auto simp: numeral_eq_Suc less_Suc_eq)
  then have "hex_digit (HexCharOfValue v) = unat v \<and> is_hex (HexCharOfValue v) \<and> HexCharOfValue v \<noteq> CHR 0x00
      \<and> (unat v \<noteq> 0 \<longleftrightarrow> HexCharOfValue v \<noteq> CHR ''0'')"
    unfolding v
    by (elim insertE emptyE) (simp_all add: hex_digit_def HexCharOfValue_def is_hex_def toASCIIHexValue_def byte_of_def char_of_def bit_0)
  then show "hex_digit (HexCharOfValue v) = unat v" "is_hex (HexCharOfValue v)" "HexCharOfValue v \<noteq> CHR 0x00"
    "unat v \<noteq> 0 \<longleftrightarrow> HexCharOfValue v \<noteq> CHR ''0''" by simp_all
qed

lemma low_nibble: "unat (x AND 0xF) = unat x mod 16" for x :: Chunk
proof -
  have "0xF = (mask 4 :: Chunk)" by (simp add: mask_eq_exp_minus_1)
  then have "x AND 0xF = take_bit 4 x" by (simp only: take_bit_eq_mask)
  then show ?thesis by (simp only: unsigned_take_bit_eq) (simp add: take_bit_eq_mod)
qed

lemma nibble_char:
  "hex_digit (HexCharOfValue (x AND 0xF)) = unat x mod 16" "is_hex (HexCharOfValue (x AND 0xF))"
  using hex_char_correct [of "x AND 0xF"] by (simp_all add: low_nibble)

lemma hexr_hex_digits: "hexr (hex_digits n x) = unat x mod 16 ^ n"
proof (induction n arbitrary: x)
  case (Suc n)
  have "unat x mod 16 ^ Suc n = unat x mod 16 + 16 * (unat x div 16 mod 16 ^ n)"
    using mod_mult2_eq [of "unat x" 16 "16 ^ n"] by simp
  moreover have "unat (drop_bit 4 x) = unat x div 16" by (simp only: unat_drop_bit_div) simp
  ultimately show ?case using Suc by (simp add: nibble_char)
qed simp

lemma hex_digits_hex: "c \<in> set (hex_digits n x) \<Longrightarrow> is_hex c"
  by (induction n arbitrary: x) (auto simp: nibble_char)

lemma put_bigit_chars_eq:
  "n \<le> pos \<Longrightarrow> pos \<le> length buffer \<Longrightarrow>
     put_bigit_chars buffer pos n x = Some (write_down buffer pos (hex_digits n x), pos - n)"
  by (induction n arbitrary: buffer pos x) (auto simp: bput_def write_down_Nil write_down_Cons [simplified])

definition bigit_text :: "Chunk list \<Rightarrow> string" where
  "bigit_text xs = concat (map (hex_digits 7) xs)"

lemma bigit_text_simps [simp]: "bigit_text [] = []" "bigit_text (x # xs) = hex_digits 7 x @ bigit_text xs"
  by (simp_all add: bigit_text_def)

lemma length_bigit_text [simp]: "length (bigit_text xs) = 7 * length xs"
  by (induction xs) simp_all

lemma hexr_bigit_text: "digits_ok xs \<Longrightarrow> hexr (bigit_text xs) = bval xs"
  by (induction xs) (simp_all add: hexr_append hexr_hex_digits)

lemma put_bigits_eq:
  "7 * n \<le> pos \<Longrightarrow> pos \<le> length buffer \<Longrightarrow> i + n \<le> length xs \<Longrightarrow>
     put_bigits buffer pos xs i n = Some (write_down buffer pos (bigit_text (take n (drop i xs))), pos - 7 * n)"
proof (induction n arbitrary: buffer pos i)
  case (Suc n)
  have "take (Suc n) (drop i xs) = xs ! i # take n (drop (Suc i) xs)" using Suc.prems by (simp flip: Cons_nth_drop_Suc)
  moreover have "put_bigit_chars buffer pos 7 (xs ! i) = Some (write_down buffer pos (hex_digits 7 (xs ! i)), pos - 7)"
    using Suc.prems by (intro put_bigit_chars_eq) auto
  moreover have "write_down (write_down buffer pos (hex_digits 7 (xs ! i))) (pos - 7) (bigit_text (take n (drop (Suc i) xs)))
      = write_down buffer pos (hex_digits 7 (xs ! i) @ bigit_text (take n (drop (Suc i) xs)))"
    using Suc.prems by (subst write_down_append [symmetric]) simp_all
  moreover have "length (write_down buffer pos (hex_digits 7 (xs ! i))) = length buffer"
    using Suc.prems by (intro length_write_down) simp_all
  ultimately show ?case using Suc.IH [of "pos - 7" "write_down buffer pos (hex_digits 7 (xs ! i))" "Suc i"] Suc.prems
    by (simp add: bget_def)
qed (simp add: write_down_Nil)

lemma put_top_chars_eq:
  "SizeInHexChars x \<le> pos \<Longrightarrow> pos \<le> length buffer \<Longrightarrow>
     put_top_chars buffer pos x = Some (write_down buffer pos (hex_digits (SizeInHexChars x) x))"
proof (induction x arbitrary: buffer pos rule: SizeInHexChars.induct)
  case (1 x)
  show ?case
  proof (cases "x = 0")
    case True
    then show ?thesis by (simp add: put_top_chars.simps SizeInHexChars.simps write_down_Nil)
  next
    case False
    let ?b = "buffer[pos - 1 := HexCharOfValue (x AND 0xF)]" and ?n = "SizeInHexChars (drop_bit 4 x)"
    have n: "SizeInHexChars x = Suc ?n" using False by (subst SizeInHexChars.simps) simp
    then have "put_top_chars ?b (pos - 1) (drop_bit 4 x) = Some (write_down ?b (pos - 1) (hex_digits ?n (drop_bit 4 x)))"
      using "1.prems" False by (intro "1.IH") auto
    with False n "1.prems" show ?thesis by (subst put_top_chars.simps) (auto simp: bput_def write_down_Cons [simplified])
  qed
qed

lemma SizeInHexChars_bound: "unat x < 16 ^ SizeInHexChars x \<and> (x \<noteq> 0 \<longrightarrow> 16 ^ SizeInHexChars x \<le> 16 * unat x)"
proof (induction x rule: SizeInHexChars.induct)
  case (1 x)
  have d: "unat (drop_bit 4 x) = unat x div 16" by (simp only: unat_drop_bit_div) simp
  show ?case
  proof (cases "x = 0")
    case True then show ?thesis by (simp add: SizeInHexChars.simps)
  next
    case False
    then have n: "SizeInHexChars x = Suc (SizeInHexChars (drop_bit 4 x))" by (subst SizeInHexChars.simps) simp
    have "0 < unat x" using False by (simp add: unat_gt_0)
    moreover have "drop_bit 4 x = 0 \<longleftrightarrow> unat x div 16 = 0" using d by (metis unat_eq_zero)
    ultimately show ?thesis using 1 [OF False] d n by (cases "drop_bit 4 x = 0") (auto simp: SizeInHexChars.simps [of 0])
  qed
qed

text \<open>The text of a number: no leading zero, and the single character 0 for zero.\<close>

definition hex_text :: "Bignum \<Rightarrow> string" where
  "hex_text b =
     (if used_digits b = 0 then ''0''
      else let top = bigits b ! (used_digits b - 1)
           in rev (replicate (7 * exponent b) (CHR ''0'') @ bigit_text (take (used_digits b - 1) (bigits b))
                   @ hex_digits (SizeInHexChars top) top))"

lemma hex_text_size:
  assumes "bn_ok b" "0 < used_digits b"
  shows "length (hex_text b) = (BigitLength b - 1) * 7 + SizeInHexChars (bigits b ! (used_digits b - 1))"
  using assms(2) bn_okD(2,4) [OF assms(1)] by (simp add: hex_text_def Let_def BigitLength_def algebra_simps)

lemma ToHexString_eq:
  assumes ok: "bn_ok b"
  shows "ToHexString b buffer =
    Some (if length buffer < length (hex_text b) + 1 then (False, buffer)
          else (True, hex_text b @ CHR 0x00 # drop (length (hex_text b) + 1) buffer))"
proof (cases "used_digits b = 0")
  case True
  have "buffer[0 := CHR ''0'', 1 := CHR 0x00] = CHR ''0'' # CHR 0x00 # drop 2 buffer" if "2 \<le> length buffer"
    using that by (cases buffer; cases "tl buffer") auto
  with True show ?thesis by (simp add: ToHexString_def hex_text_def numeral_2_eq_2)
next
  case False
  note d = bn_okD [OF ok]
  define top where "top = bigits b ! (used_digits b - 1)"
  define n where "n = length (hex_text b)"
  let ?zs = "replicate (exponent b * 7) (CHR ''0'')" and ?bs = "bigit_text (take (used_digits b - 1) (bigits b))"
    and ?ts = "hex_digits (SizeInHexChars top) top"
  let ?b0 = "buffer[n := CHR 0x00]"
  have top: "top_bigit b = Some top" using False d(2,4) by (simp add: top_bigit_def bget_def top_def)
  have n: "(BigitLength b - 1) * 7 + SizeInHexChars top = n" using hex_text_size [OF ok] False by (simp add: n_def top_def)
  have sum: "n = exponent b * 7 + 7 * (used_digits b - 1) + SizeInHexChars top"
    using False unfolding n [symmetric] by (simp add: BigitLength_def algebra_simps)
  have bl: "length ?bs = 7 * (used_digits b - 1)" using d(2,4) by simp
  have tx: "rev (?zs @ ?bs @ ?ts) = hex_text b" using False by (simp add: hex_text_def Let_def top_def mult.commute)
  show ?thesis
  proof (cases "length buffer < n + 1")
    case True
    with False top n show ?thesis by (simp add: ToHexString_def n_def)
  next
    case fits: False
    let ?b1 = "write_down ?b0 n ?zs"
    have "put_zero_chars ?b0 n (exponent b * 7) = Some (?b1, n - exponent b * 7)"
      using fits sum by (intro put_zero_chars_eq) auto
    moreover have "put_bigits ?b1 (n - exponent b * 7) (bigits b) 0 (used_digits b - 1)
        = Some (write_down ?b0 n (?zs @ ?bs), n - exponent b * 7 - 7 * (used_digits b - 1))"
      using fits sum d(2,4) bl
        put_bigits_eq [of "used_digits b - 1" "n - exponent b * 7" ?b1 0 "bigits b"]
        write_down_append [of ?zs ?bs n ?b0] length_write_down [of ?zs n ?b0] by simp
    moreover have "put_top_chars (write_down ?b0 n (?zs @ ?bs)) (n - exponent b * 7 - 7 * (used_digits b - 1)) top
        = Some (write_down ?b0 n ((?zs @ ?bs) @ ?ts))"
      using fits sum bl put_top_chars_eq [of top "n - exponent b * 7 - 7 * (used_digits b - 1)" "write_down ?b0 n (?zs @ ?bs)"]
        write_down_append [of "?zs @ ?bs" ?ts n ?b0] length_write_down [of "?zs @ ?bs" n ?b0] by simp
    moreover have "write_down ?b0 n ((?zs @ ?bs) @ ?ts) = hex_text b @ CHR 0x00 # drop (n + 1) buffer"
      using fits sum bl tx by (simp add: write_down_def Cons_nth_drop_Suc [symmetric])
    ultimately show ?thesis using False fits top n
      by (simp add: ToHexString_def bput_def n_def [symmetric])
  qed
qed

lemma hex_text_value: "bn_ok b \<Longrightarrow> hex_value (hex_text b) = bnval b"
proof (cases "used_digits b = 0")
  case True
  assume "bn_ok b"
  then have "bval (bigits b) = 0" using raw_bval [OF bn_okD(1)] True by fastforce
  then show ?thesis using True
    by (simp add: hex_text_def bnval_def hex_value_def hstep_def hex_digit_def toASCIIHexValue_def byte_of_def)
next
  case False
  assume ok: "bn_ok b"
  note d = bn_okD [OF ok]
  let ?u = "used_digits b - 1"
  define top where "top = bigits b ! ?u"
  have "take (used_digits b) (bigits b) = take ?u (bigits b) @ [top]"
    using False d(2,4) take_Suc_conv_app_nth [of ?u "bigits b"] by (simp add: top_def)
  then have v: "bval (bigits b) = bval (take ?u (bigits b)) + radix ^ ?u * unat top"
    using raw_bval [OF d(1)] d(2,4) False by (simp add: bval_append)
  have "hexr (hex_digits (SizeInHexChars top) top) = unat top"
    using SizeInHexChars_bound [of top] by (simp add: hexr_hex_digits)
  moreover have "hexr (bigit_text (take ?u (bigits b))) = bval (take ?u (bigits b))"
    using d(3) by (intro hexr_bigit_text digits_ok_take)
  moreover have "(16 :: nat) ^ (7 * k) = radix ^ k" for k by (simp add: power_mult)
  ultimately have "hex_value (hex_text b) = radix ^ exponent b * (bval (take ?u (bigits b)) + radix ^ ?u * unat top)"
    using False d(2,4) by (simp add: hex_text_def hex_value_rev hexr_append hexr_zeros Let_def top_def)
  then show ?thesis using v by (simp add: bnval_def)
qed

lemma hex_text_chars:
  assumes "bn_ok b" "c \<in> set (hex_text b)"
  shows "is_hex c"
proof -
  have "c = CHR ''0'' \<or> (\<exists>n x. c \<in> set (hex_digits n x))"
    using assms(2) by (auto simp: hex_text_def Let_def bigit_text_def split: if_splits)
  moreover have "is_hex (CHR ''0'')" by (simp add: is_hex_def)
  ultimately show ?thesis using hex_digits_hex by blast
qed

lemma hex_not_nul: "is_hex c \<Longrightarrow> c \<noteq> CHR 0x00"
  by (auto simp: is_hex_def)

lemma hex_text_length:
  assumes "bn_ok b" "0 < used_digits b"
  shows "length (hex_text b) \<le> 7 * BigitLength b" "16 ^ (length (hex_text b) - 1) \<le> bnval b"
proof -
  note d = bn_okD [OF assms(1)]
  obtain t where t: "top_bigit b = Some t" "0 < unat t" "unat t < radix" "unat t * radix ^ (BigitLength b - 1) \<le> bnval b"
    using top_bigit_correct [OF assms] by blast
  have top: "bigits b ! (used_digits b - 1) = t" using t(1) assms(2) d(2,4) by (simp add: top_bigit_def bget_def split: if_splits)
  have s: "unat t < 16 ^ SizeInHexChars t" "16 ^ SizeInHexChars t \<le> 16 * unat t"
    using SizeInHexChars_bound [of t] t(2) by auto
  have "(16 :: nat) ^ SizeInHexChars t < 16 ^ 8" using s(2) t(3) by simp
  then have "SizeInHexChars t \<le> 7" by (simp only: power_strict_increasing_iff one_less_numeral_iff semiring_norm)
  moreover have L: "0 < BigitLength b" using assms(2) by (simp add: BigitLength_def)
  ultimately show "length (hex_text b) \<le> 7 * BigitLength b" unfolding hex_text_size [OF assms] top by simp
  have n: "0 < SizeInHexChars t" using s(1) t(2) by (cases "SizeInHexChars t") auto
  then have "16 * 16 ^ (SizeInHexChars t - 1) = (16 :: nat) ^ SizeInHexChars t" by (cases "SizeInHexChars t") simp_all
  then have "(16 :: nat) ^ (SizeInHexChars t - 1) \<le> unat t" using s(2) by linarith
  moreover have "length (hex_text b) - 1 = 7 * (BigitLength b - 1) + (SizeInHexChars t - 1)"
    unfolding hex_text_size [OF assms] top using n by simp
  then have "(16 :: nat) ^ (length (hex_text b) - 1) = radix ^ (BigitLength b - 1) * 16 ^ (SizeInHexChars t - 1)"
    by (simp add: power_add power_mult)
  ultimately have "(16 :: nat) ^ (length (hex_text b) - 1) \<le> radix ^ (BigitLength b - 1) * unat t" by simp
  then show "16 ^ (length (hex_text b) - 1) \<le> bnval b" using t(4) by (simp add: mult.commute)
qed

end
