(* ===== verification/BignumProps.thy ===== *)
theory BignumProps
  imports BignumHex
begin

text \<open>
  The properties of the big integers as a component: what every operation computes, when the fixed
  capacity is exceeded, that the invariant is kept along any sequence of operations, and the
  contract (a locale) that the digit generators rely on.
\<close>

section \<open>Copying and the small inline operations\<close>

definition Times10 :: "Bignum \<Rightarrow> Bignum option" where
  "Times10 b = MultiplyByUInt32 b 10"

definition Equal :: "Bignum \<Rightarrow> Bignum \<Rightarrow> bool option" where
  "Equal a b = do { r \<leftarrow> Compare a b; Some (r = 0) }"

definition Less :: "Bignum \<Rightarrow> Bignum \<Rightarrow> bool option" where
  "Less a b = do { r \<leftarrow> Compare a b; Some (r < 0) }"

lemma copy_loop_eq:
  "i + n \<le> length xs \<Longrightarrow> i + n \<le> length ys \<Longrightarrow>
     copy_loop xs ys i n = Some (take i xs @ take n (drop i ys) @ drop (i + n) xs)"
proof (induction n arbitrary: i xs)
  case (Suc n)
  have "take (Suc n) (drop i ys) = ys ! i # take n (drop (Suc i) ys)" using Suc.prems by (simp flip: Cons_nth_drop_Suc)
  with Suc.IH [of "Suc i" "xs[i := ys ! i]"] Suc.prems show ?case
    by (simp add: arr_simps take_Suc_conv_app_nth)
qed simp

lemma AssignBignum_correct:
  assumes b: "bn_raw b" and o: "bn_ok other"
  shows "AssignBignum b other = Some other"
proof -
  let ?u = "used_digits other" and ?n = "used_digits b"
  note d = bn_rawD [OF b] and e = bn_okD [OF o]
  let ?xs = "take ?u (bigits other) @ drop ?u (bigits b)"
  let ?ys = "take ?u ?xs @ replicate (?n - ?u) 0 @ drop (?u + (?n - ?u)) ?xs"
  have "copy_loop (bigits b) (bigits other) 0 ?u = Some ?xs"
    using copy_loop_eq [of 0 ?u "bigits b" "bigits other"] d(1) e(2,4) by simp
  moreover have "zero_range ?xs ?u (?n - ?u) = Some ?ys" using d(1,3) e(2,4) by (intro zero_range_eq) auto
  moreover have "?ys = bigits other"
  proof (rule nth_equalityI)
    fix j assume "j < length ?ys"
    then have j: "j < 128" using d(1,3) e(2,4) by simp
    show "?ys ! j = bigits other ! j"
      using j d(1,3) d(4) [of j] e(2,4) e(5) [of j] by (cases "j < ?u"; cases "j < ?n") (auto simp: nth_append min_def)
  qed (use d(1,3) e(2,4) in simp)
  ultimately show ?thesis by (simp add: AssignBignum_def)
qed

lemma Times10_correct:
  assumes "bn_ok b" "bnval b * 10 < bn_limit"
  shows "\<exists>c. Times10 b = Some c \<and> bn_ok c \<and> bnval c = bnval b * 10"
proof -
  have "bval (bigits b) * 1 \<le> bnval b" unfolding bnval_def by (rule mult_le_mono2) simp
  then have "unat (10 :: 32 word) * bval (bigits b) < bn_limit" using assms(2) by simp
  then show ?thesis using MultiplyByUInt32_correct [OF assms(1), of 10] by (auto simp: Times10_def)
qed

lemma compare_values:
  assumes "bn_ok a" "bn_ok b"
  shows "LessEqual a b = Some (bnval a \<le> bnval b)" "Less a b = Some (bnval a < bnval b)"
    "Equal a b = Some (bnval a = bnval b)"
  using Compare_correct [OF assms] by (auto simp: LessEqual_def Less_def Equal_def three_way_def)

section \<open>The contract of the digit generators\<close>

text \<open>
  The generators of \<open>bignum-dtoa.cc\<close> see numbers only through these operations. A number is good when
  its invariant holds and its value is below the capacity.
\<close>

locale digit_numbers =
  fixes good :: "'n \<Rightarrow> bool" and val :: "'n \<Rightarrow> nat" and lim :: nat
    and divide :: "'n \<Rightarrow> 'n \<Rightarrow> ('n \<times> 16 word) option" and times10 :: "'n \<Rightarrow> 'n option"
    and compare :: "'n \<Rightarrow> 'n \<Rightarrow> int option" and plus_compare :: "'n \<Rightarrow> 'n \<Rightarrow> 'n \<Rightarrow> int option"
  assumes divide_law: "good n \<Longrightarrow> good d \<Longrightarrow> 0 < val d \<Longrightarrow>
      \<exists>r. divide n d = Some (r, of_nat (val n div val d)) \<and> good r \<and> val r = val n mod val d"
    and times10_law: "good n \<Longrightarrow> val n * 10 < lim \<Longrightarrow> \<exists>c. times10 n = Some c \<and> good c \<and> val c = val n * 10"
    and compare_law: "good a \<Longrightarrow> good b \<Longrightarrow> compare a b = Some (three_way (val a) (val b))"
    and plus_compare_law: "good a \<Longrightarrow> good b \<Longrightarrow> good c \<Longrightarrow> plus_compare a b c = Some (three_way (val a + val b) (val c))"
begin

lemma first_digit:
  assumes "good n" "good d" "val n < 10 * val d"
  obtains r q where "divide n d = Some (r, of_nat q)" "good r" "q \<le> 9" "val n = q * val d + val r" "val r < val d"
    "q = val n div val d"
proof -
  have d: "0 < val d" using assms(3) by simp
  obtain r where r: "divide n d = Some (r, of_nat (val n div val d))" "good r" "val r = val n mod val d"
    using divide_law [OF assms(1,2) d] by blast
  have "val n div val d < 10" using assms(3) by (simp add: less_mult_imp_div_less)
  then have q: "val n div val d \<le> 9" by simp
  have n: "val n = (val n div val d) * val d + val r" unfolding r(3) by (rule div_mult_mod_eq [symmetric])
  have l: "val r < val d" unfolding r(3) using d by (rule mod_less_divisor)
  show ?thesis by (rule that [OF r(1,2) q n l refl])
qed

lemma next_digit:
  assumes "good n" "good d" "val n < 10 * val d" "10 * val d < lim"
  obtains r q n' where "divide n d = Some (r, of_nat q)" "good r" "q \<le> 9" "val n = q * val d + val r" "val r < val d"
    "times10 r = Some n'" "good n'" "val n' = 10 * val r" "val n' < 10 * val d"
proof -
  obtain r q where r: "divide n d = Some (r, of_nat q)" "good r" "q \<le> 9" "val n = q * val d + val r" "val r < val d"
    "q = val n div val d" by (rule first_digit [OF assms(1-3)])
  have "val r * 10 < lim" using r(5) assms(4) by simp
  with times10_law [OF r(2)] obtain n' where n': "times10 r = Some n'" "good n'" "val n' = 10 * val r" by auto
  show ?thesis by (rule that [OF r(1-5) n']) (use n'(3) r(5) in simp)
qed

lemma half_test:
  assumes "good r" "good d"
  obtains s where "plus_compare r r d = Some s" "0 \<le> s \<longleftrightarrow> val d \<le> 2 * val r" "s < 0 \<longleftrightarrow> 2 * val r < val d" "0 < s \<longleftrightarrow> val d < 2 * val r"
  by (rule that [OF plus_compare_law [OF assms(1,1,2)]]) (auto simp: three_way_def split: if_splits)

end

definition bn_good :: "Bignum \<Rightarrow> bool" where
  "bn_good b \<longleftrightarrow> bn_ok b \<and> bnval b < bn_limit"

lemma good_length: "bn_good b \<Longrightarrow> BigitLength b \<le> 128"
  using length_by_value [of b 128] by (simp add: bn_good_def bn_limit_def)

interpretation bn: digit_numbers bn_good bnval bn_limit DivideModuloIntBignum Times10 Compare PlusCompare
proof
  fix n d assume g: "bn_good n" "bn_good d" and d: "0 < bnval d"
  have ok: "bn_ok n" "bn_ok d" using g by (simp_all add: bn_good_def)
  have u: "0 < used_digits d" using d bnval_bounds(3) [OF ok(2)] by simp
  have "BigitLength n - exponent d \<le> 128" using good_length [OF g(1)] by simp
  then obtain r where r: "DivideModuloIntBignum n d = Some (r, of_nat (bnval n div bnval d))" "bn_ok r" "bnval r = bnval n mod bnval d"
    using DivideModuloIntBignum_correct [OF ok u] by blast
  moreover have "bnval r < bn_limit" using r(3) g(1) mod_less_eq_dividend [of "bnval n" "bnval d"] unfolding bn_good_def by linarith
  ultimately show "\<exists>r. DivideModuloIntBignum n d = Some (r, of_nat (bnval n div bnval d)) \<and> bn_good r \<and> bnval r = bnval n mod bnval d"
    by (simp add: bn_good_def)
next
  fix n assume "bn_good n" "bnval n * 10 < bn_limit"
  then show "\<exists>c. Times10 n = Some c \<and> bn_good c \<and> bnval c = bnval n * 10"
    using Times10_correct [of n] by (auto simp: bn_good_def)
next
  fix a b assume "bn_good a" "bn_good b"
  then show "Compare a b = Some (three_way (bnval a) (bnval b))" by (simp add: bn_good_def Compare_correct)
next
  fix a b c assume "bn_good a" "bn_good b" "bn_good c"
  then show "PlusCompare a b c = Some (three_way (bnval a + bnval b) (bnval c))" by (simp add: bn_good_def PlusCompare_correct)
qed

section \<open>Properties\<close>

text \<open>A one-digit number, for the concrete instances below.\<close>

definition one_digit :: "nat \<Rightarrow> Bignum" where
  "one_digit n = Bignum_new\<lparr>bigits := of_nat n # replicate 127 0, used_digits := 1\<rparr>"

lemma one_digit_ok:
  assumes "0 < n" "n < radix"
  shows "bn_ok (one_digit n)" "bnval (one_digit n) = n" "exponent (one_digit n) = 0" "used_digits (one_digit n) = 1"
    "BigitLength (one_digit n) = 1"
proof -
  have u: "unat (of_nat n :: Chunk) = n" using assms(2) by (simp add: unsigned_of_nat take_bit_nat_eq_self)
  then have "(of_nat n :: Chunk) \<noteq> 0" using assms(1) by auto
  then show "bn_ok (one_digit n)" using assms(2) u
    by (intro bn_okI) (auto simp: one_digit_def Bignum_new_def nth_Cons split: nat.splits)
  show "bnval (one_digit n) = n" "exponent (one_digit n) = 0" "used_digits (one_digit n) = 1" "BigitLength (one_digit n) = 1"
    using u by (simp_all add: one_digit_def Bignum_new_def bnval_def BigitLength_def)
qed

lemmas five_ok = one_digit_ok [of 5, simplified]
lemmas seven_ok = one_digit_ok [of 7, simplified]

text \<open>C26: \<open>AddBignum\<close> on two well-formed numbers either gives a well-formed number whose value is the
  sum, or stops the program; it stops exactly when the aligned result with its carry digit would need
  more than 128 digits.\<close>

theorem bignum_add:
  assumes "bn_ok a" "bn_ok b"
  shows "if 1 + max (BigitLength a) (BigitLength b) - min (exponent a) (exponent b) \<le> kBigitCapacity
         then \<exists>c. AddBignum a b = Some c \<and> bn_ok c \<and> bnval c = bnval a + bnval b
         else AddBignum a b = None"
  using AddBignum_correct [OF assms] by (simp add: add_need_def)

theorem bignum_add_witness: "\<exists>c. AddBignum (one_digit 5) (one_digit 7) = Some c \<and> bn_ok c \<and> bnval c = 12"
  using bignum_add [OF five_ok(1) seven_ok(1)] five_ok seven_ok by simp

text \<open>C27: multiplying by any 64-bit factor in the split 32-bit halves of \<open>MultiplyByUInt64\<close> loses no
  carry: the result is the exact product, and the program stops exactly when the digits of the product
  do not fit into the 128 chunks.\<close>

theorem bignum_multiply:
  assumes "bn_ok b"
  shows "if unat factor * bval (bigits b) < radix ^ kBigitCapacity
         then \<exists>c. MultiplyByUInt64 b factor = Some c \<and> bn_ok c \<and> bnval c = bnval b * unat factor
         else MultiplyByUInt64 b factor = None"
  using MultiplyByUInt64_correct [OF assms, of factor] unfolding bn_limit_def by (auto split: if_splits)

theorem bignum_multiply_witness:
  "if unat (0xFFFFFFFFFFFFFFFF :: 64 word) * bval (bigits (one_digit 7)) < radix ^ kBigitCapacity
   then \<exists>c. MultiplyByUInt64 (one_digit 7) 0xFFFFFFFFFFFFFFFF = Some c \<and> bn_ok c
            \<and> bnval c = bnval (one_digit 7) * unat (0xFFFFFFFFFFFFFFFF :: 64 word)
   else MultiplyByUInt64 (one_digit 7) 0xFFFFFFFFFFFFFFFF = None"
  by (rule bignum_multiply [OF seven_ok(1)])

text \<open>C29: the digit-wise comparisons, which stop early and never build the sum, agree with the order of
  the integers: \<open>Compare\<close> is the sign of \<open>a - b\<close> and \<open>PlusCompare\<close> the sign of \<open>a + b - c\<close>, whatever
  the exponents and lengths of the operands.\<close>

theorem bignum_compare:
  assumes "bn_ok a" "bn_ok b" "bn_ok c"
  shows "Compare a b = Some (sgn (int (bnval a) - int (bnval b)))
       \<and> PlusCompare a b c = Some (sgn (int (bnval a) + int (bnval b) - int (bnval c)))"
  using Compare_correct [OF assms(1,2)] PlusCompare_correct [OF assms] by (auto simp: three_way_def sgn_if)

theorem bignum_compare_witness:
  "Compare (one_digit 5) (one_digit 7) = Some (- 1) \<and> PlusCompare (one_digit 5) (one_digit 7) (one_digit 7) = Some 1"
  using bignum_compare [OF five_ok(1) seven_ok(1) seven_ok(1)] five_ok seven_ok by simp

text \<open>C17: \<open>DivideModuloIntBignum\<close> ends and is exact for every well-formed dividend and every well-formed
  non-zero divisor that fit the capacity: it leaves the remainder in the dividend and returns the
  quotient modulo \<open>2^16\<close>, the width of its result type. Both correction loops end although the first
  one may leave a number with fewer digits than the divisor.\<close>

theorem bignum_divide:
  assumes "bn_ok b" "bn_ok other" "0 < bnval other" "BigitLength b \<le> kBigitCapacity"
  shows "\<exists>c. DivideModuloIntBignum b other = Some (c, of_nat (bnval b div bnval other)) \<and> bn_ok c
           \<and> bnval c = bnval b mod bnval other"
proof (rule DivideModuloIntBignum_correct [OF assms(1,2)])
  show "0 < used_digits other" using bnval_bounds(3) [OF assms(2)] assms(3) by simp
  show "BigitLength b < BigitLength other \<or> exponent b \<le> exponent other \<or> BigitLength b - exponent other \<le> 128"
    using assms(4) by linarith
qed

theorem bignum_divide_witness:
  "\<exists>c. DivideModuloIntBignum (one_digit 7) (one_digit 5) = Some (c, 1) \<and> bn_ok c \<and> bnval c = 2"
  using bignum_divide [OF seven_ok(1) five_ok(1)] five_ok seven_ok by simp

text \<open>C28: \<open>AssignPowerUInt16\<close>, which strips the factors of two of the base, squares a 64-bit value as
  long as it cannot overflow, goes on with big squarings and multiplications and shifts at the end,
  gives \<open>base ^ exponent\<close>, whatever number the object held before.\<close>

theorem bignum_power:
  assumes "bn_raw b" "base \<noteq> 0" "bit_length (unat base) * e < 3556"
  shows "\<exists>c. AssignPowerUInt16 b base e = Some c \<and> bn_ok c \<and> bnval c = unat base ^ e"
  by (rule AssignPowerUInt16_correct [OF assms])

theorem bignum_power_witness: "\<exists>c. AssignPowerUInt16 (one_digit 5) 10 324 = Some c \<and> bn_ok c \<and> bnval c = unat (10 :: 16 word) ^ 324"
  by (rule bignum_power) (simp_all add: five_ok bn_okD bit_length.simps)

text \<open>C39: a string of at most 1000 decimal digits is read as the number it denotes: the chunks of 19
  digits, the multiplications by powers of ten and the additions never exceed the capacity.\<close>

theorem bignum_decimal:
  assumes "bn_raw b" "\<forall>c\<in>set s. is_decimal c" "length s \<le> 1000"
  shows "\<exists>c. AssignDecimalString b s = Some c \<and> bn_ok c \<and> bnval c = decimal_value s"
  by (rule AssignDecimalString_correct) (use assms in auto)

theorem bignum_decimal_witness:
  "\<exists>c. AssignDecimalString (one_digit 5) ''12345678901234567890123'' = Some c \<and> bn_ok c
     \<and> bnval c = decimal_value ''12345678901234567890123''"
  by (rule bignum_decimal) (simp_all add: five_ok bn_okD is_decimal_def)

text \<open>C40: For a number of fewer than 128 bigits, \<open>ToHexString\<close> writes the number into any buffer that holds the text and its terminating NUL
  and reports failure and writes nothing otherwise; the text is as short as the value allows, the rest of
  the buffer is unchanged, and \<open>AssignHexString\<close> reads the text back to the same value. A number that uses all 128 bigits can have
  896 hexadecimal digits, for which \<open>AssignHexString\<close> asks for 129 bigits and aborts.\<close>

theorem bignum_hex_roundtrip:
  assumes "bn_ok b" "BigitLength b < kBigitCapacity" "bn_raw b'"
  shows "\<exists>text. 16 ^ (length text - 1) \<le> max 1 (bnval b) \<and> text \<noteq> []
     \<and> ToHexString b buffer =
         Some (if length buffer < length text + 1 then (False, buffer)
               else (True, text @ CHR 0x00 # drop (length text + 1) buffer))
     \<and> (\<exists>c. AssignHexString b' text = Some c \<and> bn_ok c \<and> bnval c = bnval b)"
proof (rule exI [of _ "hex_text b"], intro conjI)
  have len: "length (hex_text b) \<le> 7 * max 1 (BigitLength b)" and lo: "16 ^ (length (hex_text b) - 1) \<le> max 1 (bnval b)"
    using hex_text_length [OF assms(1)] by (cases "used_digits b = 0"; simp add: hex_text_def)+
  show "16 ^ (length (hex_text b) - 1) \<le> max 1 (bnval b)" by (rule lo)
  show "hex_text b \<noteq> []"
    using hex_text_length(1) [OF assms(1)] hex_text_value [OF assms(1)] bnval_bounds(3) [OF assms(1)]
    by (cases "used_digits b = 0") (auto simp: hex_text_def [of b] hex_value_def)
  show "ToHexString b buffer =
         Some (if length buffer < length (hex_text b) + 1 then (False, buffer)
               else (True, hex_text b @ CHR 0x00 # drop (length (hex_text b) + 1) buffer))"
    by (rule ToHexString_eq [OF assms(1)])
  have "length (hex_text b) div 7 < 128" using len assms(2) by (auto simp: max_def split: if_splits)
  then show "\<exists>c. AssignHexString b' (hex_text b) = Some c \<and> bn_ok c \<and> bnval c = bnval b"
    using AssignHexString_correct [where s = "hex_text b", OF assms(3) hex_text_chars [OF assms(1)]] hex_text_value [OF assms(1)] by simp
qed

theorem bignum_hex_roundtrip_witness:
  "\<exists>text. 16 ^ (length text - 1) \<le> max 1 (bnval (one_digit 5)) \<and> text \<noteq> []
     \<and> ToHexString (one_digit 5) (replicate 9 (CHR ''x'')) =
         Some (if length (replicate 9 (CHR ''x'')) < length text + 1 then (False, replicate 9 (CHR ''x''))
               else (True, text @ CHR 0x00 # drop (length text + 1) (replicate 9 (CHR ''x''))))
     \<and> (\<exists>c. AssignHexString (one_digit 7) text = Some c \<and> bn_ok c \<and> bnval c = bnval (one_digit 5))"
  by (rule bignum_hex_roundtrip) (simp_all add: five_ok seven_ok bn_okD)

end
