(* ===== verification/Ieee.thy ===== *)
theory Ieee
  imports Prelude "HOL-Library.Monad_Syntax" Complex_Main
begin

text \<open>
  The floating-point views of the number conversions: \<open>dtoa/diy-fp.h\<close> and \<open>diy-fp.cc\<close> (a 64-bit
  significand with a binary exponent) and \<open>dtoa/ieee.h\<close> (the fields of doubles and floats, read from
  their bits). A double is its 64-bit pattern; \<open>BitCast\<close> is the identity on patterns. Exponents are
  C ints that stay far from their bounds and are exact integers here. A loop that need not end is an
  option that is \<open>None\<close> then.
\<close>

section \<open>DiyFp\<close>

record DiyFp =
  diy_f :: "64 word"
  diy_e :: int

definition DiyFp_new :: "64 word \<Rightarrow> int \<Rightarrow> DiyFp" where
  "DiyFp_new significand exponent = \<lparr>diy_f = significand, diy_e = exponent\<rparr>"

definition DiyFp_Subtract :: "DiyFp \<Rightarrow> DiyFp \<Rightarrow> DiyFp" where
  "DiyFp_Subtract this other = this\<lparr>diy_f := diy_f this - diy_f other\<rparr>"

definition DiyFp_Minus :: "DiyFp \<Rightarrow> DiyFp \<Rightarrow> DiyFp" where
  "DiyFp_Minus a b = DiyFp_Subtract a b"

definition DiyFp_Multiply :: "DiyFp \<Rightarrow> DiyFp \<Rightarrow> DiyFp" where
  "DiyFp_Multiply this other =
     (let kM32 = 0xFFFFFFFF;
          a = drop_bit 32 (diy_f this);
          b = diy_f this AND kM32;
          c = drop_bit 32 (diy_f other);
          d = diy_f other AND kM32;
          ac = a * c;
          bc = b * c;
          ad = a * d;
          bd = b * d;
          tmp = drop_bit 32 bd + (ad AND kM32) + (bc AND kM32);
          tmp' = tmp + push_bit 31 1;
          result_f = ac + drop_bit 32 ad + drop_bit 32 bc + drop_bit 32 tmp'
      in \<lparr>diy_f = result_f, diy_e = diy_e this + diy_e other + 64\<rparr>)"

definition DiyFp_Times :: "DiyFp \<Rightarrow> DiyFp \<Rightarrow> DiyFp" where
  "DiyFp_Times a b = DiyFp_Multiply a b"

partial_function (option) normalize10_loop :: "64 word \<Rightarrow> int \<Rightarrow> (64 word \<times> int) option" where
  "normalize10_loop significand exponent =
     (if significand AND 0xFFC0000000000000 = 0
      then normalize10_loop (push_bit 10 significand) (exponent - 10) else Some (significand, exponent))"

declare normalize10_loop.simps [code]

partial_function (option) normalize1_loop :: "64 word \<Rightarrow> int \<Rightarrow> (64 word \<times> int) option" where
  "normalize1_loop significand exponent =
     (if significand AND 0x8000000000000000 = 0
      then normalize1_loop (push_bit 1 significand) (exponent - 1) else Some (significand, exponent))"

declare normalize1_loop.simps [code]

definition DiyFp_Normalize :: "DiyFp \<Rightarrow> DiyFp option" where
  "DiyFp_Normalize this =
     do { (significand, exponent) \<leftarrow> normalize10_loop (diy_f this) (diy_e this);
          (significand', exponent') \<leftarrow> normalize1_loop significand exponent;
          Some \<lparr>diy_f = significand', diy_e = exponent'\<rparr> }"

section \<open>Double\<close>

abbreviation (input) dSignMask :: "64 word" where "dSignMask \<equiv> 0x8000000000000000"
abbreviation (input) dExponentMask :: "64 word" where "dExponentMask \<equiv> 0x7FF0000000000000"
abbreviation (input) dSignificandMask :: "64 word" where "dSignificandMask \<equiv> 0x000FFFFFFFFFFFFF"
abbreviation (input) dHiddenBit :: "64 word" where "dHiddenBit \<equiv> 0x0010000000000000"
abbreviation (input) dPhysicalSignificandSize :: nat where "dPhysicalSignificandSize \<equiv> 52"
abbreviation (input) dExponentBias :: int where "dExponentBias \<equiv> 1075"
abbreviation (input) dDenormalExponent :: int where "dDenormalExponent \<equiv> - 1074"
abbreviation (input) dMaxExponent :: int where "dMaxExponent \<equiv> 972"
abbreviation (input) dInfinity :: "64 word" where "dInfinity \<equiv> 0x7FF0000000000000"

definition Double_IsDenormal :: "64 word \<Rightarrow> bool" where
  "Double_IsDenormal d64 \<longleftrightarrow> d64 AND dExponentMask = 0"

definition Double_IsSpecial :: "64 word \<Rightarrow> bool" where
  "Double_IsSpecial d64 \<longleftrightarrow> d64 AND dExponentMask = dExponentMask"

definition Double_IsNan :: "64 word \<Rightarrow> bool" where
  "Double_IsNan d64 \<longleftrightarrow> d64 AND dExponentMask = dExponentMask \<and> d64 AND dSignificandMask \<noteq> 0"

definition Double_IsInfinite :: "64 word \<Rightarrow> bool" where
  "Double_IsInfinite d64 \<longleftrightarrow> d64 AND dExponentMask = dExponentMask \<and> d64 AND dSignificandMask = 0"

definition Double_Sign :: "64 word \<Rightarrow> int" where
  "Double_Sign d64 = (if d64 AND dSignMask = 0 then 1 else - 1)"

definition Double_Exponent :: "64 word \<Rightarrow> int" where
  "Double_Exponent d64 =
     (if Double_IsDenormal d64 then dDenormalExponent
      else let biased_e = uint (drop_bit dPhysicalSignificandSize (d64 AND dExponentMask)) in biased_e - dExponentBias)"

definition Double_Significand :: "64 word \<Rightarrow> 64 word" where
  "Double_Significand d64 =
     (let significand = d64 AND dSignificandMask
      in if \<not> Double_IsDenormal d64 then significand + dHiddenBit else significand)"

definition Double_LowerBoundaryIsCloser :: "64 word \<Rightarrow> bool" where
  "Double_LowerBoundaryIsCloser d64 \<longleftrightarrow> d64 AND dSignificandMask = 0 \<and> Double_Exponent d64 \<noteq> dDenormalExponent"

definition Double_AsDiyFp :: "64 word \<Rightarrow> DiyFp" where
  "Double_AsDiyFp d64 = DiyFp_new (Double_Significand d64) (Double_Exponent d64)"

partial_function (option) hidden_bit_loop :: "64 word \<Rightarrow> int \<Rightarrow> (64 word \<times> int) option" where
  "hidden_bit_loop f e =
     (if f AND dHiddenBit = 0 then hidden_bit_loop (push_bit 1 f) (e - 1) else Some (f, e))"

declare hidden_bit_loop.simps [code]

definition Double_AsNormalizedDiyFp :: "64 word \<Rightarrow> DiyFp option" where
  "Double_AsNormalizedDiyFp d64 =
     do { (f, e) \<leftarrow> hidden_bit_loop (Double_Significand d64) (Double_Exponent d64);
          Some (DiyFp_new (push_bit 11 f) (e - 11)) }"

definition Double_NextDouble :: "64 word \<Rightarrow> 64 word" where
  "Double_NextDouble d64 =
     (if d64 = dInfinity then dInfinity
      else if Double_Sign d64 < 0 \<and> Double_Significand d64 = 0 then 0
      else if Double_Sign d64 < 0 then d64 - 1 else d64 + 1)"

definition Double_PreviousDouble :: "64 word \<Rightarrow> 64 word" where
  "Double_PreviousDouble d64 =
     (if d64 = (dInfinity OR dSignMask) then (dInfinity OR dSignMask)
      else if Double_Sign d64 < 0 then d64 + 1
      else if Double_Significand d64 = 0 then dSignMask else d64 - 1)"

definition Double_UpperBoundary :: "64 word \<Rightarrow> DiyFp" where
  "Double_UpperBoundary d64 = DiyFp_new (Double_Significand d64 * 2 + 1) (Double_Exponent d64 - 1)"

definition Double_NormalizedBoundaries :: "64 word \<Rightarrow> (DiyFp \<times> DiyFp) option" where
  "Double_NormalizedBoundaries d64 =
     (let v = Double_AsDiyFp d64 in
      do { m_plus \<leftarrow> DiyFp_Normalize (DiyFp_new (push_bit 1 (diy_f v) + 1) (diy_e v - 1));
           let m_minus = (if Double_LowerBoundaryIsCloser d64
                          then DiyFp_new (push_bit 2 (diy_f v) - 1) (diy_e v - 2)
                          else DiyFp_new (push_bit 1 (diy_f v) - 1) (diy_e v - 1));
           Some (\<lparr>diy_f = push_bit (nat (diy_e m_minus - diy_e m_plus)) (diy_f m_minus), diy_e = diy_e m_plus\<rparr>, m_plus) })"

definition Double_SignificandSizeForOrderOfMagnitude :: "int \<Rightarrow> int" where
  "Double_SignificandSizeForOrderOfMagnitude order =
     (if order \<ge> dDenormalExponent + 53 then 53
      else if order \<le> dDenormalExponent then 0 else order - dDenormalExponent)"

function shrink_loop :: "64 word \<Rightarrow> int \<Rightarrow> 64 word \<times> int" where
  "shrink_loop significand exponent =
     (if significand > dHiddenBit + dSignificandMask
      then shrink_loop (drop_bit 1 significand) (exponent + 1) else (significand, exponent))"
  by pat_completeness auto
termination
proof (relation "measure (unat \<circ> fst)")
  fix significand :: "64 word" and exponent :: int
  assume "significand > dHiddenBit + dSignificandMask"
  then have "unat significand > 1" by (auto simp: word_less_nat_alt)
  then show "((drop_bit 1 significand, exponent + 1), significand, exponent) \<in> measure (unat \<circ> fst)"
    by (simp add: drop_bit_eq_div unat_div)
qed simp

function grow_loop :: "64 word \<Rightarrow> int \<Rightarrow> 64 word \<times> int" where
  "grow_loop significand exponent =
     (if exponent > dDenormalExponent \<and> significand AND dHiddenBit = 0
      then grow_loop (push_bit 1 significand) (exponent - 1) else (significand, exponent))"
  by pat_completeness auto
termination by (relation "measure (\<lambda>(s, e). nat (e + 1074))") auto

declare shrink_loop.simps [simp del] grow_loop.simps [simp del]

definition Double_DiyFpToUint64 :: "DiyFp \<Rightarrow> 64 word" where
  "Double_DiyFpToUint64 diy_fp =
     (let (significand, exponent) = shrink_loop (diy_f diy_fp) (diy_e diy_fp) in
      if exponent \<ge> dMaxExponent then dInfinity
      else if exponent < dDenormalExponent then 0
      else let (significand', exponent') = grow_loop significand exponent;
               biased_exponent = (if exponent' = dDenormalExponent \<and> significand' AND dHiddenBit = 0 then 0
                                  else word_of_int (exponent' + dExponentBias))
           in (significand' AND dSignificandMask) OR push_bit dPhysicalSignificandSize biased_exponent)"

section \<open>Single\<close>

abbreviation (input) sSignificandMask :: "32 word" where "sSignificandMask \<equiv> 0x007FFFFF"
abbreviation (input) sExponentMask :: "32 word" where "sExponentMask \<equiv> 0x7F800000"
abbreviation (input) sHiddenBit :: "32 word" where "sHiddenBit \<equiv> 0x00800000"
abbreviation (input) sExponentBias :: int where "sExponentBias \<equiv> 150"
abbreviation (input) sDenormalExponent :: int where "sDenormalExponent \<equiv> - 149"

definition Single_IsDenormal :: "32 word \<Rightarrow> bool" where
  "Single_IsDenormal d32 \<longleftrightarrow> d32 AND sExponentMask = 0"

definition Single_IsSpecial :: "32 word \<Rightarrow> bool" where
  "Single_IsSpecial d32 \<longleftrightarrow> d32 AND sExponentMask = sExponentMask"

definition Single_IsNan :: "32 word \<Rightarrow> bool" where
  "Single_IsNan d32 \<longleftrightarrow> d32 AND sExponentMask = sExponentMask \<and> d32 AND sSignificandMask \<noteq> 0"

definition Single_IsInfinite :: "32 word \<Rightarrow> bool" where
  "Single_IsInfinite d32 \<longleftrightarrow> d32 AND sExponentMask = sExponentMask \<and> d32 AND sSignificandMask = 0"

definition Single_Sign :: "32 word \<Rightarrow> int" where
  "Single_Sign d32 = (if d32 AND 0x80000000 = 0 then 1 else - 1)"

definition Single_Exponent :: "32 word \<Rightarrow> int" where
  "Single_Exponent d32 =
     (if Single_IsDenormal d32 then sDenormalExponent
      else let biased_e = uint (drop_bit 23 (d32 AND sExponentMask)) in biased_e - sExponentBias)"

definition Single_Significand :: "32 word \<Rightarrow> 32 word" where
  "Single_Significand d32 =
     (let significand = d32 AND sSignificandMask
      in if \<not> Single_IsDenormal d32 then significand + sHiddenBit else significand)"

definition Single_LowerBoundaryIsCloser :: "32 word \<Rightarrow> bool" where
  "Single_LowerBoundaryIsCloser d32 \<longleftrightarrow> d32 AND sSignificandMask = 0 \<and> Single_Exponent d32 \<noteq> sDenormalExponent"

definition Single_AsDiyFp :: "32 word \<Rightarrow> DiyFp" where
  "Single_AsDiyFp d32 = DiyFp_new (ucast (Single_Significand d32)) (Single_Exponent d32)"

definition Single_UpperBoundary :: "32 word \<Rightarrow> DiyFp" where
  "Single_UpperBoundary d32 = DiyFp_new (ucast (Single_Significand d32 * 2 + 1)) (Single_Exponent d32 - 1)"

definition Single_NormalizedBoundaries :: "32 word \<Rightarrow> (DiyFp \<times> DiyFp) option" where
  "Single_NormalizedBoundaries d32 =
     (let v = Single_AsDiyFp d32 in
      do { m_plus \<leftarrow> DiyFp_Normalize (DiyFp_new (push_bit 1 (diy_f v) + 1) (diy_e v - 1));
           let m_minus = (if Single_LowerBoundaryIsCloser d32
                          then DiyFp_new (push_bit 2 (diy_f v) - 1) (diy_e v - 2)
                          else DiyFp_new (push_bit 1 (diy_f v) - 1) (diy_e v - 1));
           Some (\<lparr>diy_f = push_bit (nat (diy_e m_minus - diy_e m_plus)) (diy_f m_minus), diy_e = diy_e m_plus\<rparr>, m_plus) })"

text \<open>The conversion \<open>static_cast<float>\<close> of a double that is not special: the nearest float, the even
  significand in the middle, and infinity when the exponent is too big.\<close>

definition round_even :: "nat \<Rightarrow> nat \<Rightarrow> nat" where
  "round_even s k =
     (let q = s div 2 ^ k; r = s mod 2 ^ k
      in if 2 * r > 2 ^ k \<or> 2 * r = 2 ^ k \<and> odd q then q + 1 else q)"

definition double_to_float :: "64 word \<Rightarrow> 32 word" where
  "double_to_float d64 =
     (let s = unat (Double_Significand d64); e = Double_Exponent d64;
          k = max (int (bit_length s) - 24) (sDenormalExponent - e);
          m = (if k \<le> 0 then s * 2 ^ nat (- k) else round_even s (nat k));
          (m', e') = (if m = 2 ^ 24 then (2 ^ 23, e + k + 1) else (m, e + k));
          sign = (if Double_Sign d64 < 0 then 0x80000000 else 0)
      in if s = 0 then sign
         else if e' + sExponentBias \<ge> 255 then sign + 0x7F800000
         else sign + of_nat (m' mod 2 ^ 23) + (if m' < 2 ^ 23 then 0 else push_bit 23 (word_of_int (e' + sExponentBias))))"

section \<open>The fields of a double\<close>

definition bexp :: "64 word \<Rightarrow> nat" where
  "bexp d64 = unat d64 div 2 ^ 52 mod 2 ^ 11"

lemma unat_significand_bits: "unat (d64 AND dSignificandMask) = unat d64 mod 2 ^ 52"
proof -
  have "dSignificandMask = mask 52" by (simp add: mask_eq_exp_minus_1)
  then have "d64 AND dSignificandMask = take_bit 52 d64" by (simp only: take_bit_eq_mask)
  then show ?thesis by (simp only: unsigned_take_bit_eq) (simp add: take_bit_eq_mod)
qed

lemma exponent_bits: "d64 AND dExponentMask = push_bit 52 (take_bit 11 (drop_bit 52 d64))"
proof -
  have "dExponentMask = push_bit 52 (mask 11)" by (simp add: mask_eq_exp_minus_1 push_bit_eq_mult)
  then have "d64 AND dExponentMask = d64 AND push_bit 52 (mask 11)" by (rule arg_cong)
  also have "\<dots> = push_bit 52 (take_bit 11 (drop_bit 52 d64))" by (rule bit_word_eqI) (auto simp: bit_simps)
  finally show ?thesis .
qed

lemma unat_biased: "unat (take_bit 11 (drop_bit 52 d64)) = bexp d64" for d64 :: "64 word"
  by (simp only: bexp_def unsigned_take_bit_eq unat_drop_bit_eq) (simp only: take_bit_eq_mod drop_bit_eq_div)

lemma bexp_less: "bexp d64 < 2 ^ 11"
  by (simp add: bexp_def)

lemma biased_exponent: "drop_bit 52 (d64 AND dExponentMask) = take_bit 11 (drop_bit 52 d64)"
  unfolding exponent_bits by (rule bit_word_eqI) (auto simp: bit_simps)

lemma unat_exponent_bits: "unat (d64 AND dExponentMask) = 2 ^ 52 * bexp d64"
proof -
  have "bexp d64 * 2 ^ 52 < 2 ^ 64" using bexp_less [of d64] by simp
  moreover have "unat (push_bit 52 (take_bit 11 (drop_bit 52 d64))) = take_bit 64 (push_bit 52 (bexp d64))"
    by (simp only: unsigned_push_bit_eq unat_biased) simp
  ultimately show ?thesis unfolding exponent_bits by (simp add: push_bit_eq_mult take_bit_nat_eq_self)
qed

lemma IsDenormal_iff: "Double_IsDenormal d64 \<longleftrightarrow> bexp d64 = 0"
  using unat_exponent_bits [of d64] unfolding Double_IsDenormal_def by (metis mult_eq_0_iff power_eq_0_iff unat_eq_zero zero_neq_numeral)

lemma IsSpecial_iff: "Double_IsSpecial d64 \<longleftrightarrow> bexp d64 = 2047"
proof -
  have "d64 AND dExponentMask = dExponentMask \<longleftrightarrow> unat (d64 AND dExponentMask) = 2 ^ 52 * 2047"
    by (simp add: word_unat_eq_iff)
  then show ?thesis unfolding Double_IsSpecial_def unat_exponent_bits by simp
qed

lemma Double_Exponent_eq: "Double_Exponent d64 = (if bexp d64 = 0 then - 1074 else int (bexp d64) - 1075)"
proof -
  have "uint (take_bit 11 (drop_bit 52 d64)) = int (bexp d64)" unfolding unat_biased [symmetric] by (rule uint_nat)
  then show ?thesis by (simp only: Double_Exponent_def IsDenormal_iff biased_exponent Let_def)
qed

lemma unat_Significand:
  "unat (Double_Significand d64) = unat d64 mod 2 ^ 52 + (if bexp d64 = 0 then 0 else 2 ^ 52)"
proof -
  let ?s = "d64 AND dSignificandMask"
  have s: "unat ?s = unat d64 mod 2 ^ 52" by (rule unat_significand_bits)
  have "unat ?s < 2 ^ 52" unfolding s by (rule mod_less_divisor) simp
  moreover have "unat dHiddenBit = 2 ^ 52" by simp
  ultimately have "unat ?s + unat dHiddenBit < 2 ^ LENGTH(64)" by simp
  then have "unat (?s + dHiddenBit) = unat ?s + unat dHiddenBit" by (rule unat_add_lem [THEN iffD1])
  then have "unat (?s + dHiddenBit) = unat d64 mod 2 ^ 52 + 2 ^ 52" using s by simp
  then show ?thesis using s by (auto simp: Double_Significand_def IsDenormal_iff)
qed

lemma Significand_bounds:
  "unat (Double_Significand d64) < 2 ^ 53"
  "Double_Exponent d64 \<noteq> - 1074 \<Longrightarrow> 2 ^ 52 \<le> unat (Double_Significand d64)"
  "\<not> Double_IsSpecial d64 \<Longrightarrow> - 1074 \<le> Double_Exponent d64 \<and> Double_Exponent d64 \<le> 971"
proof -
  have "unat d64 mod 2 ^ 52 < 2 ^ 52" by simp
  then show "unat (Double_Significand d64) < 2 ^ 53" unfolding unat_Significand by (auto split: if_splits)
  show "2 ^ 52 \<le> unat (Double_Significand d64)" if "Double_Exponent d64 \<noteq> - 1074"
    using that by (simp add: unat_Significand Double_Exponent_eq split: if_splits)
  show "- 1074 \<le> Double_Exponent d64 \<and> Double_Exponent d64 \<le> 971" if "\<not> Double_IsSpecial d64"
    using that bexp_less [of d64] by (auto simp: Double_Exponent_eq IsSpecial_iff)
qed

lemma LowerBoundaryIsCloser_iff:
  "Double_LowerBoundaryIsCloser d64 \<longleftrightarrow> unat d64 mod 2 ^ 52 = 0 \<and> 2 \<le> bexp d64"
  using unat_significand_bits [of d64] unat_eq_zero [of "d64 AND dSignificandMask"]
  by (auto simp: Double_LowerBoundaryIsCloser_def Double_Exponent_eq)

section \<open>The product of two DiyFp\<close>

lemma unat_half:
  "unat (drop_bit 32 w) = unat w div 2 ^ 32" "unat (w AND 0xFFFFFFFF) = unat w mod 2 ^ 32" for w :: "64 word"
proof -
  show "unat (drop_bit 32 w) = unat w div 2 ^ 32" by (simp only: unat_drop_bit_eq) (simp only: drop_bit_eq_div)
  have "0xFFFFFFFF = (mask 32 :: 64 word)" by (simp add: mask_eq_exp_minus_1)
  then have "w AND 0xFFFFFFFF = take_bit 32 w" by (simp only: take_bit_eq_mask)
  then show "unat (w AND 0xFFFFFFFF) = unat w mod 2 ^ 32" by (simp only: unsigned_take_bit_eq) (simp only: take_bit_eq_mod)
qed

lemma unat64_less: "unat w < 2 ^ 64" for w :: "64 word"
  using unsigned_less [of w] by simp

lemma halves_less: "unat w div 2 ^ 32 < 2 ^ 32" "unat w mod 2 ^ 32 < 2 ^ 32" for w :: "64 word"
proof -
  have "unat w < 2 ^ 32 * 2 ^ 32" using unsigned_less [of w] by simp
  then show "unat w div 2 ^ 32 < 2 ^ 32" by (rule less_mult_imp_div_less)
qed simp

lemma unat_mult_exact: "unat x < 2 ^ 32 \<Longrightarrow> unat y < 2 ^ 32 \<Longrightarrow> unat (x * y) = unat x * unat y" for x y :: "64 word"
proof -
  assume a: "unat x < 2 ^ 32" "unat y < 2 ^ 32"
  have "unat x * unat y \<le> (2 ^ 32 - 1) * (2 ^ 32 - 1)" using a by (intro mult_le_mono) auto
  then have "unat x * unat y < 2 ^ LENGTH(64)" by simp
  then show ?thesis by (rule unat_mult_lem [THEN iffD1])
qed

lemma unat_add_exact: "unat x + unat y < 2 ^ 64 \<Longrightarrow> unat (x + y) = unat x + unat y" for x y :: "64 word"
  by (rule unat_add_lem [THEN iffD1]) simp

text \<open>The schoolbook product with the middle column split at 32 bits; \<open>h\<close> is half a unit.\<close>

lemma schoolbook:
  fixes a b c d r :: nat
  assumes "0 < r" "(a * r + b) * (c * r + d) = p"
  shows "(p + h * r) div (r * r)
    = a * c + a * d div r + b * c div r + (b * d div r + a * d mod r + b * c mod r + h) div r"
proof -
  let ?m = "a * d mod r + b * c mod r + h"
  have ad: "a * d = r * (a * d div r) + a * d mod r" "b * c = r * (b * c div r) + b * c mod r" by simp_all
  have "p + h * r = r * r * (a * c) + r * (a * d) + r * (b * c) + b * d + h * r" using assms(2) by (simp add: algebra_simps)
  also have "\<dots> = r * r * (a * c + a * d div r + b * c div r) + (r * ?m + b * d)"
    by (subst ad(1), subst ad(2)) (simp only: distrib_left distrib_right mult_ac add_ac)
  finally have "(p + h * r) div (r * r) = a * c + a * d div r + b * c div r + (r * ?m + b * d) div (r * r)"
    using assms(1) by simp
  moreover have "(r * ?m + b * d) div (r * r) = (b * d div r + ?m) div r"
    using assms(1) by (simp add: div_mult2_eq add.commute)
  ultimately show ?thesis by (simp only: add.assoc)
qed

lemma Multiply_exact:
  "unat (diy_f (DiyFp_Multiply x y)) = (unat (diy_f x) * unat (diy_f y) + 2 ^ 63) div 2 ^ 64"
proof -
  define a b c d where "a = drop_bit 32 (diy_f x)" and "b = diy_f x AND 0xFFFFFFFF"
    and "c = drop_bit 32 (diy_f y)" and "d = diy_f y AND 0xFFFFFFFF"
  let ?R = "2 ^ 32 :: nat"
  have less: "unat a < 2 ^ 32" "unat b < 2 ^ 32" "unat c < 2 ^ 32" "unat d < 2 ^ 32"
    using halves_less [of "diy_f x"] halves_less [of "diy_f y"] by (simp_all only: a_def b_def c_def d_def unat_half)
  have p: "(unat a * ?R + unat b) * (unat c * ?R + unat d) = unat (diy_f x) * unat (diy_f y)"
    by (simp only: a_def b_def c_def d_def unat_half div_mult_mod_eq)
  define t where "t = drop_bit 32 (b * d) + (a * d AND 0xFFFFFFFF) + (b * c AND 0xFFFFFFFF) + push_bit 31 1"
  have parts: "unat (b * d) div ?R < ?R" "unat (a * d) mod ?R < ?R" "unat (b * c) mod ?R < ?R" by (rule halves_less)+
  have one: "unat (push_bit 31 1 :: 64 word) = 2 ^ 31" by simp
  have t: "unat t = unat b * unat d div ?R + unat a * unat d mod ?R + unat b * unat c mod ?R + 2 ^ 31"
    using parts less unfolding t_def
    by (subst unat_add_exact; (subst unat_add_exact)?; (subst unat_add_exact)?) (simp_all add: unat_half unat_mult_exact one)
  let ?p = "unat (diy_f x) * unat (diy_f y)"
  have sum: "(?p + 2 ^ 63) div 2 ^ 64 = unat a * unat c + unat a * unat d div ?R + unat b * unat c div ?R + unat t div ?R"
    using schoolbook [OF _ p, of "2 ^ 31"] t by simp
  have "?p \<le> (2 ^ 64 - 1) * (2 ^ 64 - 1)" using unat64_less [of "diy_f x"] unat64_less [of "diy_f y"] by (intro mult_le_mono) auto
  then have "(?p + 2 ^ 63) div 2 ^ 64 < 2 ^ 64" by (intro less_mult_imp_div_less) simp
  then have lt: "unat a * unat c + unat a * unat d div ?R + unat b * unat c div ?R + unat t div ?R < 2 ^ 64" using sum by simp
  have "diy_f (DiyFp_Multiply x y) = a * c + drop_bit 32 (a * d) + drop_bit 32 (b * c) + drop_bit 32 t"
    by (simp only: DiyFp_Multiply_def Let_def a_def b_def c_def d_def t_def DiyFp.simps)
  also have "unat \<dots> = unat a * unat c + unat a * unat d div ?R + unat b * unat c div ?R + unat t div ?R"
    using lt less by (subst unat_add_exact; (subst unat_add_exact)?; (subst unat_add_exact)?) (simp_all add: unat_half unat_mult_exact)
  finally show ?thesis using sum by simp
qed

section \<open>Properties\<close>

text \<open>C32: \<open>DiyFp::Multiply\<close>, which emulates a 128-bit product with four 64-bit ones, returns the upper
  64 bits of the exact product rounded to nearest (halves up), adds the exponents and 64, and no
  intermediate sum wraps: the result differs from the exact product by at most half a unit.\<close>

theorem diyfp_multiply:
  "unat (diy_f (DiyFp_Multiply x y)) = (unat (diy_f x) * unat (diy_f y) + 2 ^ 63) div 2 ^ 64
   \<and> diy_e (DiyFp_Multiply x y) = diy_e x + diy_e y + 64
   \<and> \<bar>int (unat (diy_f (DiyFp_Multiply x y))) * 2 ^ 64 - int (unat (diy_f x)) * int (unat (diy_f y))\<bar> \<le> 2 ^ 63"
proof (intro conjI)
  show m: "unat (diy_f (DiyFp_Multiply x y)) = (unat (diy_f x) * unat (diy_f y) + 2 ^ 63) div 2 ^ 64"
    by (rule Multiply_exact)
  show "diy_e (DiyFp_Multiply x y) = diy_e x + diy_e y + 64" by (simp add: DiyFp_Multiply_def Let_def)
  define p where "p = int (unat (diy_f x) * unat (diy_f y))"
  have "int (unat (diy_f (DiyFp_Multiply x y))) = (p + 2 ^ 63) div 2 ^ 64" unfolding m p_def by (simp add: zdiv_int)
  then have "\<bar>int (unat (diy_f (DiyFp_Multiply x y))) * 2 ^ 64 - p\<bar> \<le> 2 ^ 63"
    using div_mult_mod_eq [of "p + 2 ^ 63" "2 ^ 64"] pos_mod_bound [of "2 ^ 64" "p + 2 ^ 63"] pos_mod_sign [of "2 ^ 64" "p + 2 ^ 63"]
    by (auto simp: abs_le_iff)
  then show "\<bar>int (unat (diy_f (DiyFp_Multiply x y))) * 2 ^ 64 - int (unat (diy_f x)) * int (unat (diy_f y))\<bar> \<le> 2 ^ 63"
    by (simp add: p_def)
qed

lemma significand_fields: "Double_Significand d64 AND dSignificandMask = d64 AND dSignificandMask"
proof -
  have "unat (Double_Significand d64) mod 2 ^ 52 = unat d64 mod 2 ^ 52" by (simp add: unat_Significand)
  then show ?thesis by (simp only: word_unat_eq_iff unat_significand_bits)
qed

lemma hidden_bit_iff: "unat w < 2 ^ 53 \<Longrightarrow> w AND dHiddenBit = 0 \<longleftrightarrow> unat w < 2 ^ 52"
proof -
  assume w: "unat w < 2 ^ 53"
  have "dHiddenBit = push_bit 52 1" by (simp add: push_bit_eq_mult)
  then have "w AND dHiddenBit = 0 \<longleftrightarrow> \<not> bit w 52"
    by (simp only: and_exp_eq_0_iff_not_bit push_bit_of_1)
  also have "bit w 52 \<longleftrightarrow> odd (unat w div 2 ^ 52)" by (simp add: bit_iff_odd [of w 52] word_arith_nat_div unat_div odd_iff_mod_2_eq_one flip: bit_unsigned_iff)
  finally have iff: "w AND dHiddenBit = 0 \<longleftrightarrow> even (unat w div 2 ^ 52)" by simp
  have "unat w div 2 ^ 52 < 2" using w by (intro less_mult_imp_div_less) simp
  then have "even (unat w div 2 ^ 52) \<longleftrightarrow> unat w div 2 ^ 52 = 0" by (cases "unat w div 2 ^ 52 = 0") (auto simp: less_2_cases_iff)
  then show ?thesis using iff by (simp add: div_eq_0_iff)
qed

lemma sign_split: "d64 AND dSignMask = 0 \<Longrightarrow> (d64 AND dSignificandMask) OR (d64 AND dExponentMask) = d64"
proof -
  assume s: "d64 AND dSignMask = 0"
  have "(d64 AND dSignificandMask) OR (d64 AND dExponentMask) = ((d64 AND dSignificandMask) OR (d64 AND dExponentMask)) OR (d64 AND dSignMask)"
    by (simp add: s)
  also have "\<dots> = d64 AND ((dSignificandMask OR dExponentMask) OR dSignMask)" by (simp only: bit.conj_disj_distrib)
  also have "(dSignificandMask OR dExponentMask) OR dSignMask = - 1" by simp
  finally show ?thesis by simp
qed

text \<open>Converting a non-negative double that is not special to a \<open>DiyFp\<close> and back by
  \<open>DiyFpToUint64\<close> gives the same bits, denormals and zero included.\<close>

theorem double_diyfp_roundtrip:
  assumes "Double_Sign d64 > 0" "\<not> Double_IsSpecial d64"
  shows "Double_DiyFpToUint64 (Double_AsDiyFp d64) = d64"
proof -
  let ?s = "Double_Significand d64" and ?e = "Double_Exponent d64"
  note b = Significand_bounds [of d64]
  have "\<not> ?s > dHiddenBit + dSignificandMask" using b(1) by (simp add: word_less_nat_alt)
  then have shrink: "shrink_loop ?s ?e = (?s, ?e)" by (simp add: shrink_loop.simps)
  have hb: "?s AND dHiddenBit = 0 \<longleftrightarrow> bexp d64 = 0"
    using hidden_bit_iff [OF b(1)] by (auto simp: unat_Significand)
  have grow: "grow_loop ?s ?e = (?s, ?e)" using hb by (simp add: grow_loop.simps Double_Exponent_eq)
  have tb: "(take_bit 11 (drop_bit 52 d64) :: 64 word) = of_nat (bexp d64)"
    unfolding unat_biased [symmetric] by (simp add: of_nat_unat)
  have biased: "(if ?e = dDenormalExponent \<and> ?s AND dHiddenBit = 0 then 0 else word_of_int (?e + dExponentBias))
      = (take_bit 11 (drop_bit 52 d64) :: 64 word)"
    unfolding tb using hb by (auto simp: Double_Exponent_eq)
  have "d64 AND dSignMask = 0" using assms(1) by (auto simp: Double_Sign_def split: if_splits)
  then show ?thesis using b(3) [OF assms(2)] sign_split
    by (simp add: Double_DiyFpToUint64_def Double_AsDiyFp_def DiyFp_new_def shrink grow biased significand_fields exponent_bits [symmetric] del: and_numerals)
qed

theorem double_diyfp_roundtrip_witness: "Double_DiyFpToUint64 (Double_AsDiyFp 0x400921FB54442D18) = 0x400921FB54442D18"
  by (rule double_diyfp_roundtrip) (simp_all add: Double_Sign_def Double_IsSpecial_def)

end
