(* ===== verification/BignumDtoa.thy ===== *)
theory BignumDtoa
  imports BignumProps Ieee
begin

text \<open>
  \<open>Source/WTF/wtf/dtoa/bignum-dtoa.cc\<close>: the exact conversion of a double to decimal digits with big
  integers, in the modes shortest (for doubles and floats), fixed and precision. A double is its bit
  pattern. The output buffer is the list of its characters; a write outside it is \<open>None\<close>, as is an
  abort of the big integers and a loop that does not end. The out parameters \<open>length\<close> and
  \<open>decimal_point\<close> are results.
\<close>

section \<open>Model\<close>

datatype BignumDtoaMode =
  BIGNUM_DTOA_SHORTEST | BIGNUM_DTOA_SHORTEST_SINGLE | BIGNUM_DTOA_FIXED | BIGNUM_DTOA_PRECISION

partial_function (option) NormalizedExponent :: "64 word \<Rightarrow> int \<Rightarrow> int option" where
  "NormalizedExponent significand expnt =
     (if significand AND dHiddenBit = 0 then NormalizedExponent (push_bit 1 significand) (expnt - 1)
      else Some expnt)"

declare NormalizedExponent.simps [code]

text \<open>
  The estimate is computed in double arithmetic. A double of the order that occurs here is an integer
  of 53 bits times a power of two, and \<open>fl53\<close> rounds an exact integer to 53 significant bits (nearest,
  even significand in the middle), whatever the unit: the product is counted in units of \<open>2^-54\<close>, the
  difference in units of \<open>2^-86\<close>. The two constants are the doubles nearest to 0.30102999566398114 and
  1e-10.
\<close>

definition fl53 :: "int \<Rightarrow> int" where
  "fl53 x = (let a = nat \<bar>x\<bar>; k = bit_length a - 53 in sgn x * int (round_even a k * 2 ^ k))"

definition k1Log10 :: int where "k1Log10 = 5422874305198590"

definition kEpsilon :: int where "kEpsilon = 7737125245533627"

definition EstimatePower :: "int \<Rightarrow> int" where
  "EstimatePower expnt =
     (let product = fl53 ((expnt + 53 - 1) * k1Log10);
          difference = fl53 (product * 2 ^ 32 - kEpsilon)
      in - ((- difference) div 2 ^ 86))"

definition succ_char :: "char \<Rightarrow> char" where
  "succ_char c = char_of ((of_char c :: nat) + 1)"

definition digit_char :: "16 word \<Rightarrow> char" where
  "digit_char digit = char_of (unat digit + 48)"

definition increment_at :: "string \<Rightarrow> nat \<Rightarrow> string option" where
  "increment_at buffer i = do { c \<leftarrow> bget buffer i; bput buffer i (succ_char c) }"

text \<open>\<open>same\<close> tells that \<open>delta_plus\<close> points to the object of \<open>delta_minus\<close>.\<close>

partial_function (option) shortest_loop ::
  "bool \<Rightarrow> bool \<Rightarrow> Bignum \<Rightarrow> Bignum \<Rightarrow> Bignum \<Rightarrow> Bignum \<Rightarrow> string \<Rightarrow> nat \<Rightarrow> (string \<times> nat) option" where
  "shortest_loop is_even same denominator numerator0 delta_minus delta_plus0 buffer0 len0 =
     do { (numerator, digit) \<leftarrow> DivideModuloIntBignum numerator0 denominator;
          buffer \<leftarrow> bput buffer0 len0 (digit_char digit);
          let len = len0 + 1;
          let delta_plus = (if same then delta_minus else delta_plus0);
          in_delta_room_minus \<leftarrow> (if is_even then LessEqual numerator delta_minus else Less numerator delta_minus);
          c \<leftarrow> PlusCompare numerator delta_plus denominator;
          let in_delta_room_plus = (if is_even then c \<ge> 0 else c > 0);
          if \<not> in_delta_room_minus \<and> \<not> in_delta_room_plus then
            do { numerator' \<leftarrow> Times10 numerator;
                 delta_minus' \<leftarrow> Times10 delta_minus;
                 delta_plus' \<leftarrow> (if same then Some delta_plus0 else Times10 delta_plus0);
                 shortest_loop is_even same denominator numerator' delta_minus' delta_plus' buffer len }
          else if in_delta_room_minus \<and> in_delta_room_plus then
            do { cmp \<leftarrow> PlusCompare numerator numerator denominator;
                 if cmp < 0 then Some (buffer, len)
                 else if cmp > 0 then do { buffer' \<leftarrow> increment_at buffer (len - 1); Some (buffer', len) }
                 else do { last \<leftarrow> bget buffer (len - 1);
                           if even ((of_char last :: int) - 48) then Some (buffer, len)
                           else do { buffer' \<leftarrow> increment_at buffer (len - 1); Some (buffer', len) } } }
          else if in_delta_room_minus then Some (buffer, len)
          else do { buffer' \<leftarrow> increment_at buffer (len - 1); Some (buffer', len) } }"

declare shortest_loop.simps [code]

definition GenerateShortestDigits ::
  "Bignum \<Rightarrow> Bignum \<Rightarrow> Bignum \<Rightarrow> Bignum \<Rightarrow> bool \<Rightarrow> string \<Rightarrow> (string \<times> nat) option" where
  "GenerateShortestDigits numerator denominator delta_minus delta_plus is_even buffer =
     do { same \<leftarrow> Equal delta_minus delta_plus;
          shortest_loop is_even same denominator numerator delta_minus delta_plus buffer 0 }"

fun counted_loop :: "string \<Rightarrow> Bignum \<Rightarrow> Bignum \<Rightarrow> nat \<Rightarrow> nat \<Rightarrow> (string \<times> Bignum) option" where
  "counted_loop buffer numerator denominator i 0 = Some (buffer, numerator)"
| "counted_loop buffer numerator denominator i (Suc n) =
     do { (remainder, digit) \<leftarrow> DivideModuloIntBignum numerator denominator;
          buffer' \<leftarrow> bput buffer i (digit_char digit);
          numerator' \<leftarrow> Times10 remainder;
          counted_loop buffer' numerator' denominator (i + 1) n }"

fun carry_digits :: "string \<Rightarrow> nat \<Rightarrow> string option" where
  "carry_digits buffer 0 = Some buffer"
| "carry_digits buffer (Suc i) =
     do { c \<leftarrow> bget buffer (Suc i);
          if c \<noteq> CHR '':'' then Some buffer
          else do { buffer1 \<leftarrow> bput buffer (Suc i) (CHR ''0'');
                    buffer2 \<leftarrow> increment_at buffer1 i;
                    carry_digits buffer2 i } }"

definition GenerateCountedDigits ::
  "int \<Rightarrow> int \<Rightarrow> Bignum \<Rightarrow> Bignum \<Rightarrow> string \<Rightarrow> (string \<times> nat \<times> int) option" where
  "GenerateCountedDigits cnt decimal_point numerator0 denominator buffer0 =
     (if cnt < 1 then None
      else do {
        let n = nat cnt;
        (buffer1, numerator1) \<leftarrow> counted_loop buffer0 numerator0 denominator 0 (n - 1);
        (remainder, digit0) \<leftarrow> DivideModuloIntBignum numerator1 denominator;
        c \<leftarrow> PlusCompare remainder remainder denominator;
        let digit = (if c \<ge> 0 then digit0 + 1 else digit0);
        buffer2 \<leftarrow> bput buffer1 (n - 1) (digit_char digit);
        buffer3 \<leftarrow> carry_digits buffer2 (n - 1);
        first \<leftarrow> bget buffer3 0;
        if first = CHR '':'' then do { buffer4 \<leftarrow> bput buffer3 0 (CHR ''1''); Some (buffer4, n, decimal_point + 1) }
        else Some (buffer3, n, decimal_point) })"

definition BignumToFixed ::
  "int \<Rightarrow> int \<Rightarrow> Bignum \<Rightarrow> Bignum \<Rightarrow> string \<Rightarrow> (string \<times> nat \<times> int) option" where
  "BignumToFixed requested_digits decimal_point numerator denominator buffer =
     (if - decimal_point > requested_digits then Some (buffer, 0, - requested_digits)
      else if - decimal_point = requested_digits then
        do { denominator' \<leftarrow> Times10 denominator;
             c \<leftarrow> PlusCompare numerator numerator denominator';
             if c \<ge> 0 then do { buffer' \<leftarrow> bput buffer 0 (CHR ''1''); Some (buffer', 1, decimal_point + 1) }
             else Some (buffer, 0, decimal_point) }
      else GenerateCountedDigits (decimal_point + requested_digits) decimal_point numerator denominator buffer)"

text \<open>The four big integers that the start routines fill: numerator, denominator, delta minus and delta plus.\<close>

type_synonym start_values = "Bignum \<times> Bignum \<times> Bignum \<times> Bignum"

definition InitialScaledStartValuesPositiveExponent ::
  "64 word \<Rightarrow> int \<Rightarrow> int \<Rightarrow> bool \<Rightarrow> start_values \<Rightarrow> start_values option" where
  "InitialScaledStartValuesPositiveExponent significand expnt estimated_power need_boundary_deltas values =
     (case values of (numerator0, denominator0, delta_minus0, delta_plus0) \<Rightarrow>
      do { n1 \<leftarrow> AssignUInt64 numerator0 significand;
           numerator \<leftarrow> ShiftLeft n1 (nat expnt);
           denominator \<leftarrow> AssignPowerUInt16 denominator0 10 (nat estimated_power);
           if need_boundary_deltas then
             do { denominator' \<leftarrow> ShiftLeft denominator 1;
                  numerator' \<leftarrow> ShiftLeft numerator 1;
                  p1 \<leftarrow> AssignUInt16 delta_plus0 1;
                  delta_plus \<leftarrow> ShiftLeft p1 (nat expnt);
                  m1 \<leftarrow> AssignUInt16 delta_minus0 1;
                  delta_minus \<leftarrow> ShiftLeft m1 (nat expnt);
                  Some (numerator', denominator', delta_minus, delta_plus) }
           else Some (numerator, denominator, delta_minus0, delta_plus0) })"

definition InitialScaledStartValuesNegativeExponentPositivePower ::
  "64 word \<Rightarrow> int \<Rightarrow> int \<Rightarrow> bool \<Rightarrow> start_values \<Rightarrow> start_values option" where
  "InitialScaledStartValuesNegativeExponentPositivePower significand expnt estimated_power need_boundary_deltas values =
     (case values of (numerator0, denominator0, delta_minus0, delta_plus0) \<Rightarrow>
      do { numerator \<leftarrow> AssignUInt64 numerator0 significand;
           d1 \<leftarrow> AssignPowerUInt16 denominator0 10 (nat estimated_power);
           denominator \<leftarrow> ShiftLeft d1 (nat (- expnt));
           if need_boundary_deltas then
             do { denominator' \<leftarrow> ShiftLeft denominator 1;
                  numerator' \<leftarrow> ShiftLeft numerator 1;
                  delta_plus \<leftarrow> AssignUInt16 delta_plus0 1;
                  delta_minus \<leftarrow> AssignUInt16 delta_minus0 1;
                  Some (numerator', denominator', delta_minus, delta_plus) }
           else Some (numerator, denominator, delta_minus0, delta_plus0) })"

text \<open>Here \<open>power_ten\<close> points to the numerator.\<close>

definition InitialScaledStartValuesNegativeExponentNegativePower ::
  "64 word \<Rightarrow> int \<Rightarrow> int \<Rightarrow> bool \<Rightarrow> start_values \<Rightarrow> start_values option" where
  "InitialScaledStartValuesNegativeExponentNegativePower significand expnt estimated_power need_boundary_deltas values =
     (case values of (numerator0, denominator0, delta_minus0, delta_plus0) \<Rightarrow>
      do { power_ten \<leftarrow> AssignPowerUInt16 numerator0 10 (nat (- estimated_power));
           (delta_plus, delta_minus) \<leftarrow>
             (if need_boundary_deltas then
                do { p \<leftarrow> AssignBignum delta_plus0 power_ten;
                     m \<leftarrow> AssignBignum delta_minus0 power_ten;
                     Some (p, m) }
              else Some (delta_plus0, delta_minus0));
           numerator \<leftarrow> MultiplyByUInt64 power_ten significand;
           d1 \<leftarrow> AssignUInt16 denominator0 1;
           denominator \<leftarrow> ShiftLeft d1 (nat (- expnt));
           if need_boundary_deltas then
             do { numerator' \<leftarrow> ShiftLeft numerator 1;
                  denominator' \<leftarrow> ShiftLeft denominator 1;
                  Some (numerator', denominator', delta_minus, delta_plus) }
           else Some (numerator, denominator, delta_minus, delta_plus) })"

definition InitialScaledStartValues ::
  "64 word \<Rightarrow> int \<Rightarrow> bool \<Rightarrow> int \<Rightarrow> bool \<Rightarrow> start_values \<Rightarrow> start_values option" where
  "InitialScaledStartValues significand expnt lower_boundary_is_closer estimated_power need_boundary_deltas values =
     do { (numerator, denominator, delta_minus, delta_plus) \<leftarrow>
            (if expnt \<ge> 0 then
               InitialScaledStartValuesPositiveExponent significand expnt estimated_power need_boundary_deltas values
             else if estimated_power \<ge> 0 then
               InitialScaledStartValuesNegativeExponentPositivePower significand expnt estimated_power need_boundary_deltas values
             else
               InitialScaledStartValuesNegativeExponentNegativePower significand expnt estimated_power need_boundary_deltas values);
          if need_boundary_deltas \<and> lower_boundary_is_closer then
            do { denominator' \<leftarrow> ShiftLeft denominator 1;
                 numerator' \<leftarrow> ShiftLeft numerator 1;
                 delta_plus' \<leftarrow> ShiftLeft delta_plus 1;
                 Some (numerator', denominator', delta_minus, delta_plus') }
          else Some (numerator, denominator, delta_minus, delta_plus) }"

definition FixupMultiply10 :: "int \<Rightarrow> bool \<Rightarrow> start_values \<Rightarrow> (int \<times> start_values) option" where
  "FixupMultiply10 estimated_power is_even values =
     (case values of (numerator, denominator, delta_minus, delta_plus) \<Rightarrow>
      do { c \<leftarrow> PlusCompare numerator delta_plus denominator;
           let in_range = (if is_even then c \<ge> 0 else c > 0);
           if in_range then Some (estimated_power + 1, numerator, denominator, delta_minus, delta_plus)
           else do {
             numerator' \<leftarrow> Times10 numerator;
             eq \<leftarrow> Equal delta_minus delta_plus;
             if eq then
               do { delta_minus' \<leftarrow> Times10 delta_minus;
                    delta_plus' \<leftarrow> AssignBignum delta_plus delta_minus';
                    Some (estimated_power, numerator', denominator, delta_minus', delta_plus') }
             else
               do { delta_minus' \<leftarrow> Times10 delta_minus;
                    delta_plus' \<leftarrow> Times10 delta_plus;
                    Some (estimated_power, numerator', denominator, delta_minus', delta_plus') } } })"

definition BignumDtoa ::
  "64 word \<Rightarrow> BignumDtoaMode \<Rightarrow> int \<Rightarrow> string \<Rightarrow> (string \<times> nat \<times> int) option" where
  "BignumDtoa v mode requested_digits buffer =
     (let (significand, expnt, lower_boundary_is_closer) =
            (if mode = BIGNUM_DTOA_SHORTEST_SINGLE then
               let f = double_to_float v
               in (ucast (Single_Significand f), Single_Exponent f, Single_LowerBoundaryIsCloser f)
             else (Double_Significand v, Double_Exponent v, Double_LowerBoundaryIsCloser v));
          need_boundary_deltas = (mode = BIGNUM_DTOA_SHORTEST \<or> mode = BIGNUM_DTOA_SHORTEST_SINGLE);
          is_even = (significand AND 1 = 0)
      in do {
        normalized_expnt \<leftarrow> NormalizedExponent significand expnt;
        let estimated_power = EstimatePower normalized_expnt;
        if mode = BIGNUM_DTOA_FIXED \<and> - estimated_power - 1 > requested_digits then
          do { buffer' \<leftarrow> bput buffer 0 (CHR 0x00); Some (buffer', 0, - requested_digits) }
        else do {
          values \<leftarrow> InitialScaledStartValues significand expnt lower_boundary_is_closer estimated_power
                      need_boundary_deltas (Bignum_new, Bignum_new, Bignum_new, Bignum_new);
          (decimal_point, numerator, denominator, delta_minus, delta_plus) \<leftarrow> FixupMultiply10 estimated_power is_even values;
          (buffer', len, decimal_point') \<leftarrow>
            (case mode of
               BIGNUM_DTOA_FIXED \<Rightarrow> BignumToFixed requested_digits decimal_point numerator denominator buffer
             | BIGNUM_DTOA_PRECISION \<Rightarrow> GenerateCountedDigits requested_digits decimal_point numerator denominator buffer
             | _ \<Rightarrow> do { (b, n) \<leftarrow> GenerateShortestDigits numerator denominator delta_minus delta_plus is_even buffer;
                         Some (b, n, decimal_point) });
          buffer'' \<leftarrow> bput buffer' len (CHR 0x00);
          Some (buffer'', len, decimal_point') } })"

end
