(* ===== verification/DtoaEstimate.thy ===== *)
theory DtoaEstimate
  imports BignumDtoa
begin

text \<open>
  The decimal exponent that \<open>EstimatePower\<close> guesses in rounded double arithmetic, against the exact
  order of magnitude of the double: the estimate is the exponent of the number or one too low.
\<close>

section \<open>Rounding to 53 bits\<close>

lemma round_even_error: "2 * \<bar>int (round_even a k * 2 ^ k) - int a\<bar> \<le> 2 ^ k"
proof -
  define q r where "q = a div 2 ^ k" and "r = a mod 2 ^ k"
  have "a = q * 2 ^ k + r" unfolding q_def r_def by (rule div_mult_mod_eq [symmetric])
  then have a: "int a = int q * 2 ^ k + int r" by simp
  have r: "r < 2 ^ k" by (simp add: r_def)
  show ?thesis
  proof (cases "2 * r > 2 ^ k \<or> 2 * r = 2 ^ k \<and> odd q")
    case True
    then have "round_even a k = q + 1" by (simp add: round_even_def q_def r_def Let_def)
    then have "int (round_even a k * 2 ^ k) - int a = 2 ^ k - int r" using a by (simp add: algebra_simps)
    moreover have "int (2 ^ k) \<le> int (2 * r)" "int r < int (2 ^ k)" using True r by (auto simp only: of_nat_le_iff of_nat_less_iff)
    ultimately show ?thesis by simp
  next
    case False
    then have "round_even a k = q" by (simp add: round_even_def q_def r_def Let_def)
    then have "int (round_even a k * 2 ^ k) - int a = - int r" using a by simp
    moreover have "int (2 * r) \<le> int (2 ^ k)" using False by (simp only: of_nat_le_iff) linarith
    ultimately show ?thesis by simp
  qed
qed

lemma fl53_error: "\<bar>fl53 x - x\<bar> * 2 ^ 53 \<le> \<bar>x\<bar>"
proof (cases "x = 0")
  case True
  then show ?thesis by (simp add: fl53_def)
next
  case False
  define a k where "a = nat \<bar>x\<bar>" and "k = bit_length a - 53"
  have a: "0 < a" "int a = \<bar>x\<bar>" using False by (auto simp: a_def)
  have "fl53 x = sgn x * int (round_even a k * 2 ^ k)" by (simp add: fl53_def a_def k_def Let_def)
  moreover have "x = sgn x * int a" using a(2) by (simp add: mult.commute abs_mult_sgn)
  ultimately have "fl53 x - x = sgn x * (int (round_even a k * 2 ^ k) - int a)" by (simp add: right_diff_distrib)
  then have e: "\<bar>fl53 x - x\<bar> = \<bar>int (round_even a k * 2 ^ k) - int a\<bar>" using False by (simp add: abs_mult abs_sgn_eq)
  show ?thesis
  proof (cases "k = 0")
    case True
    then show ?thesis unfolding e by (simp add: round_even_def)
  next
    case False
    then have "2 ^ (k + 52) \<le> a" using bit_length_ge [OF a(1)] by (simp add: k_def)
    then have "int (2 ^ (k + 52)) \<le> int a" by (simp only: of_nat_le_iff)
    then have "2 ^ k * 2 ^ 52 \<le> \<bar>x\<bar>" unfolding a(2) by (simp add: power_add)
    then show ?thesis using round_even_error [of a k] unfolding e by simp
  qed
qed

lemma fl53_close: "\<bar>x\<bar> < 2 ^ (53 + j) \<Longrightarrow> \<bar>fl53 x - x\<bar> < 2 ^ j"
proof -
  assume "\<bar>x\<bar> < 2 ^ (53 + j)"
  then have "\<bar>fl53 x - x\<bar> * 2 ^ 53 < 2 ^ j * 2 ^ 53" using fl53_error [of x] by (simp add: power_add)
  then show ?thesis by (rule mult_right_less_imp_less) simp
qed

section \<open>The estimate\<close>

text \<open>The estimate as an exact inequality: \<open>m\<close> is the binary order of the number.\<close>

lemma estimate_bounds:
  assumes m: "- 1100 \<le> m" "m \<le> 1100" and k: "k = EstimatePower (m - 52)"
  shows "(k - 1) * 2 ^ 54 < m * k1Log10" "m * k1Log10 < k * 2 ^ 54 + 2 ^ 22"
proof -
  let ?P = "m * k1Log10"
  define p where "p = fl53 ?P"
  define d where "d = fl53 (p * 2 ^ 32 - kEpsilon)"
  have P: "\<bar>?P\<bar> < 2 ^ (53 + 10)" using m by (auto simp: k1Log10_def abs_less_iff)
  have p: "\<bar>p - ?P\<bar> < 2 ^ 10" unfolding p_def by (rule fl53_close [OF P])
  then have "\<bar>p * 2 ^ 32 - kEpsilon\<bar> < 2 ^ (53 + 43)" using P unfolding kEpsilon_def abs_less_iff by simp
  from fl53_close [OF this] have d: "\<bar>d - (p * 2 ^ 32 - kEpsilon)\<bar> < 2 ^ 43" by (simp add: d_def)
  have "k = - ((- d) div 2 ^ 86)" by (simp add: k EstimatePower_def p_def d_def Let_def)
  then have kd: "(k - 1) * 2 ^ 86 < d" "d \<le> k * 2 ^ 86"
    using div_mult_mod_eq [of "- d" "2 ^ 86"] pos_mod_bound [of "2 ^ 86" "- d"] pos_mod_sign [of "2 ^ 86" "- d"]
    by (auto simp: left_diff_distrib)
  have "(k - 1) * 2 ^ 86 < ?P * 2 ^ 32" using kd(1) d p unfolding abs_less_iff kEpsilon_def by simp
  then show "(k - 1) * 2 ^ 54 < ?P" by simp
  have "?P * 2 ^ 32 < k * 2 ^ 86 + 2 ^ 54" using kd(2) d p unfolding abs_less_iff kEpsilon_def by simp
  then show "?P < k * 2 ^ 54 + 2 ^ 22" by simp
qed

text \<open>Two convergents of the decimal logarithm of two; no fraction with a denominator up to 1165 lies
  strictly between them.\<close>

lemma log10_2_bounds: "205 / 681 \<le> log 10 2" "log 10 2 \<le> 146 / 485"
proof -
  have "(10 :: real) ^ 205 \<le> 2 ^ 681" by simp
  then have "log 10 (10 ^ 205) \<le> log 10 (2 ^ 681)" by (subst log_le_cancel_iff) simp_all
  moreover have "log 10 (10 ^ 205) = (205 :: real)" "log 10 (2 ^ 681) = 681 * log 10 (2 :: real)"
    by (subst log_nat_power; simp)+
  ultimately have "205 \<le> 681 * log 10 (2 :: real)" by (simp only:)
  then show "205 / 681 \<le> log 10 2" by simp
  have "(2 :: real) ^ 485 \<le> 10 ^ 146" by simp
  then have "log 10 (2 ^ 485) \<le> log 10 (10 ^ 146)" by (subst log_le_cancel_iff) simp_all
  moreover have "log 10 (10 ^ 146) = (146 :: real)" "log 10 (2 ^ 485) = 485 * log 10 (2 :: real)"
    by (subst log_nat_power; simp)+
  ultimately have "485 * log 10 (2 :: real) \<le> 146" by (simp only:)
  then show "log 10 2 \<le> 146 / 485" by simp
qed

lemma no_fraction_between:
  fixes a n :: int
  assumes "n \<le> 1165" "485 * a < 146 * n"
  shows "681 * a \<le> 205 * n"
proof (rule ccontr)
  assume "\<not> 681 * a \<le> 205 * n"
  then have "1 \<le> 681 * a - 205 * n" "1 \<le> 146 * n - 485 * a" using assms(2) by linarith+
  then have "485 * 1 + 681 * 1 \<le> 485 * (681 * a - 205 * n) + 681 * (146 * n - 485 * a)"
    by (intro add_mono mult_left_mono) simp_all
  then show False using assms(1) by simp
qed

lemma powers_compare:
  "(10 :: real) powi j \<le> 2 powi m \<longleftrightarrow> of_int j \<le> of_int m * log 10 2"
  "(2 :: real) powi m \<le> 10 powi j \<longleftrightarrow> of_int m * log 10 2 \<le> of_int j"
proof -
  have "(2 :: real) powi m = 2 powr of_int m" by (simp add: powr_real_of_int')
  also have "\<dots> = (10 powr log 10 2) powr of_int m" by simp
  also have "\<dots> = 10 powr (of_int m * log 10 2)" by (simp only: powr_powr mult.commute)
  finally have two: "(2 :: real) powi m = 10 powr (of_int m * log 10 2)" .
  have ten: "(10 :: real) powi j = 10 powr of_int j" by (simp add: powr_real_of_int')
  show "(10 :: real) powi j \<le> 2 powi m \<longleftrightarrow> of_int j \<le> of_int m * log 10 2"
    "(2 :: real) powi m \<le> 10 powi j \<longleftrightarrow> of_int m * log 10 2 \<le> of_int j"
    unfolding two ten by simp_all
qed

lemma EstimatePower_correct:
  assumes m: "- 1100 \<le> m" "m \<le> 1100" and k: "k = EstimatePower (m - 52)"
  shows "(10 :: real) powi (k - 1) \<le> 2 powi m" "(2 :: real) powi (m + 1) \<le> 10 powi (k + 1)"
proof -
  have b: "(k - 1) * 18014398509481984 < m * 5422874305198590" "m * 5422874305198590 < k * 18014398509481984 + 4194304"
    using estimate_bounds [OF assms] by (simp_all only: k1Log10_def power_numeral Num.pow.simps Num.sqr.simps) simp_all
  note l = log10_2_bounds
  have "of_int (k - 1) \<le> of_int m * log 10 2"
  proof (cases "0 \<le> m")
    case True
    have "681 * (k - 1) \<le> 205 * m" by (rule no_fraction_between) (use m b(1) True in linarith)+
    then have "real_of_int (k - 1) \<le> of_int m * (205 / 681)" by simp
    also have "\<dots> \<le> of_int m * log 10 2" using l(1) True by (intro mult_left_mono) auto
    finally show ?thesis .
  next
    case False
    have "485 * (1 - k) \<ge> 146 * (- m)"
    proof (rule ccontr)
      assume "\<not> 485 * (1 - k) \<ge> 146 * (- m)"
      then have "681 * (1 - k) \<le> 205 * (- m)" using m by (intro no_fraction_between) auto
      then have "681 * ((k - 1) * 18014398509481984) \<ge> 205 * 18014398509481984 * m" by simp
      then show False using b(1) False by simp
    qed
    then have "real_of_int (k - 1) \<le> of_int m * (146 / 485)" by simp
    also have "\<dots> \<le> of_int m * log 10 2" using l(2) False by (intro mult_left_mono_neg) auto
    finally show ?thesis .
  qed
  then show "(10 :: real) powi (k - 1) \<le> 2 powi m" by (simp only: powers_compare)
  have "of_int (m + 1) * log 10 2 \<le> of_int (k + 1)"
  proof (cases "0 \<le> m + 1")
    case True
    then have "of_int (m + 1) * log 10 2 \<le> of_int (m + 1) * (146 / 485)" using l(2) by (intro mult_left_mono) auto
    also have "146 * (m + 1) \<le> 485 * (k + 1)" using b(2) m by (simp add: algebra_simps)
    then have "of_int (m + 1) * (146 / 485) \<le> real_of_int (k + 1)" by simp
    finally show ?thesis .
  next
    case False
    then have "of_int (m + 1) * log 10 2 \<le> of_int (m + 1) * (205 / 681)" using l(1) by (intro mult_left_mono_neg) auto
    also have "205 * (m + 1) \<le> 681 * (k + 1)" using b(2) m by (simp add: algebra_simps)
    then have "of_int (m + 1) * (205 / 681) \<le> real_of_int (k + 1)" by simp
    finally show ?thesis .
  qed
  then show "(2 :: real) powi (m + 1) \<le> 10 powi (k + 1)" by (simp only: powers_compare)
qed

section \<open>Property\<close>

text \<open>For every exponent that a normalized double can have, the estimate computed with two rounded
  double operations and a ceiling is right or one too low: with \<open>2^52 \<le> f < 2^53\<close> and
  \<open>k = EstimatePower(e)\<close>, the number \<open>f * 2^e\<close> and its upper boundary lie between \<open>10^(k-1)\<close> and
  \<open>10^(k+1)\<close>.\<close>

theorem estimate_power:
  assumes "- 1126 \<le> e" "e \<le> 971"
  shows "(10 :: real) powi (EstimatePower e - 1) \<le> 2 ^ 52 * 2 powi e \<and> 2 ^ 53 * 2 powi e \<le> (10 :: real) powi (EstimatePower e + 1)"
proof -
  have "(2 :: real) powi (e + 52) = 2 ^ 52 * 2 powi e" "(2 :: real) powi (e + 52 + 1) = 2 ^ 53 * 2 powi e"
    by (simp_all add: power_int_add)
  then show ?thesis using EstimatePower_correct [of "e + 52", OF _ _ refl] assms by simp
qed

theorem estimate_power_witness:
  "(10 :: real) powi (EstimatePower (- 52) - 1) \<le> 2 ^ 52 * 2 powi (- 52) \<and> 2 ^ 53 * 2 powi (- 52) \<le> (10 :: real) powi (EstimatePower (- 52) + 1)"
  by (rule estimate_power) simp_all

end
