(* ===== verification/DtoaStart.thy ===== *)
theory DtoaStart
  imports DtoaEstimate
begin

text \<open>
  The start values of the digit generation: numerator, denominator and boundary distances as exact
  ratios, for every double and every estimate in range, within the capacity of the big integers.
\<close>

section \<open>Operations by value\<close>

definition bn_is :: "Bignum \<Rightarrow> nat \<Rightarrow> bool" where
  "bn_is b x \<longleftrightarrow> bn_ok b \<and> bnval b = x"

lemma two_3500: "(x :: nat) < 2 ^ 3500 \<Longrightarrow> x < radix ^ 127"
proof -
  assume "x < 2 ^ 3500"
  also have "(2 :: nat) ^ 3500 < radix ^ 127" by (rule two_power_limit) simp
  finally show ?thesis .
qed

lemma below_limit: "x < radix ^ 127 \<Longrightarrow> x < bn_limit"
proof -
  assume "x < radix ^ 127"
  also have "\<dots> \<le> bn_limit" unfolding bn_limit_def by (rule power_increasing) simp_all
  finally show ?thesis .
qed

lemma bn_is_raw: "bn_is b x \<Longrightarrow> bn_raw b"
  by (simp add: bn_is_def bn_okD(1))

lemma bn_is_new: "bn_is Bignum_new 0" "bn_raw Bignum_new"
  by (simp_all add: bn_is_def bn_okD(1))

lemma bn_is_good: "bn_is b x \<Longrightarrow> x < 2 ^ 3500 \<Longrightarrow> bn_good b"
  using below_limit [OF two_3500] by (auto simp: bn_is_def bn_good_def)

lemma shift_is:
  assumes "bn_is b x" "x < 2 ^ 3500"
  obtains c where "ShiftLeft b k = Some c" "bn_is c (x * 2 ^ k)"
proof -
  have ok: "bn_ok b" "bnval b < radix ^ 127" using assms two_3500 by (auto simp: bn_is_def)
  then have "BigitLength b \<le> 127" by (intro length_by_value) simp_all
  then have "used_digits b < 128" by (simp add: BigitLength_def)
  from ShiftLeft_correct [OF ok(1) this, of k] that assms(1) show ?thesis by (auto simp: bn_is_def)
qed

lemma power10_is:
  assumes "bn_raw b" "k \<le> 400"
  obtains c where "AssignPowerUInt16 b 10 k = Some c" "bn_is c (10 ^ k)"
proof -
  have "bit_length 10 = 4" by (simp add: bit_length.simps)
  then have "bit_length (unat (10 :: 16 word)) * k < 3556" using assms(2) by simp
  from AssignPowerUInt16_correct [OF assms(1) _ this] that show ?thesis by (auto simp: bn_is_def)
qed

lemma assign_is:
  assumes "bn_raw b"
  obtains c d where "AssignUInt64 b w = Some c" "bn_is c (unat w)" "AssignUInt16 b 1 = Some d" "bn_is d 1"
  using AssignUInt64_correct [OF assms, of w] AssignUInt16_correct [OF assms, of 1] that by (auto simp: bn_is_def)

lemma mul64_is:
  assumes "bn_is b x" "x * unat w < 2 ^ 3500"
  obtains c where "MultiplyByUInt64 b w = Some c" "bn_is c (x * unat w)"
proof -
  have "bval (bigits b) * 1 \<le> bnval b" unfolding bnval_def by (rule mult_le_mono2) simp
  then have "unat w * bval (bigits b) \<le> x * unat w" using assms(1) by (simp add: bn_is_def mult.commute)
  then have "unat w * bval (bigits b) < bn_limit" using below_limit [OF two_3500 [OF assms(2)]] by linarith
  with MultiplyByUInt64_correct [of b w] assms(1) that show ?thesis by (auto simp: bn_is_def)
qed

lemma ten_power_bits: "k \<le> n \<Longrightarrow> (10 :: nat) ^ k < 2 ^ (4 * n + 1)"
proof -
  assume "k \<le> n"
  then have "(10 :: nat) ^ k \<le> 10 ^ n" by (intro power_increasing) simp_all
  also have "\<dots> \<le> 16 ^ n" by (intro power_mono) simp_all
  also have "\<dots> = 2 ^ (4 * n)" by (simp add: power_mult)
  also have "\<dots> < 2 ^ (4 * n + 1)" by simp
  finally show ?thesis .
qed

text \<open>Sizes: everything that occurs has at most 2800 bits.\<close>

definition small :: "nat \<Rightarrow> bool" where
  "small x \<longleftrightarrow> x < 2 ^ 2800"

lemma smallI: "x < 2 ^ k \<Longrightarrow> k \<le> 2800 \<Longrightarrow> small x"
  unfolding small_def by (erule less_le_trans) (rule power_increasing, simp_all)

lemma small_3500: "small x \<Longrightarrow> x * 2 ^ k < 2 ^ 3500" if "k \<le> 700"
proof -
  assume "small x"
  then have "x * 2 ^ k < 2 ^ 2800 * 2 ^ k" unfolding small_def by (intro mult_strict_right_mono) simp_all
  also have "\<dots> = 2 ^ (2800 + k)" by (rule power_add [symmetric])
  also have "\<dots> \<le> 2 ^ 3500" using that by (intro power_increasing) simp_all
  finally show ?thesis .
qed

lemma mult_less_bits: "x < 2 ^ a \<Longrightarrow> y < 2 ^ b \<Longrightarrow> x * y < (2 :: nat) ^ (a + b)"
  unfolding power_add by (rule mult_strict_mono) simp_all

section \<open>The start values\<close>

definition start_num :: "nat \<Rightarrow> int \<Rightarrow> int \<Rightarrow> nat" where
  "start_num s e ep = s * 2 ^ nat e * 10 ^ nat (- ep)"

definition start_den :: "int \<Rightarrow> int \<Rightarrow> nat" where
  "start_den e ep = 10 ^ nat ep * 2 ^ nat (- e)"

definition start_delta :: "int \<Rightarrow> int \<Rightarrow> nat" where
  "start_delta e ep = 2 ^ nat e * 10 ^ nat (- ep)"

lemma start_small:
  assumes "s < 2 ^ 53" "- 1100 \<le> e" "e \<le> 1000" "- 400 \<le> ep" "ep \<le> 400"
  shows "start_num s e ep < 2 ^ 2660" "start_den e ep < 2 ^ 2710" "start_delta e ep < 2 ^ 2610"
proof -
  have p: "(2 :: nat) ^ nat e < 2 ^ 1001" "(2 :: nat) ^ nat (- e) < 2 ^ 1101"
    using assms(2,3) by (intro power_strict_increasing; simp)+
  have t: "(10 :: nat) ^ nat (- ep) < 2 ^ 1601" "(10 :: nat) ^ nat ep < 2 ^ 1601"
    using ten_power_bits [of _ 400] assms(4,5) by simp_all
  have "start_num s e ep < 2 ^ (53 + 1001 + 1601)"
    unfolding start_num_def using assms(1) p t by (intro mult_less_bits) simp_all
  then show "start_num s e ep < 2 ^ 2660" by (rule less_le_trans) (rule power_increasing, simp_all)
  have "start_den e ep < 2 ^ (1601 + 1101)" unfolding start_den_def using p t by (intro mult_less_bits) simp_all
  then show "start_den e ep < 2 ^ 2710" by (rule less_le_trans) (rule power_increasing, simp_all)
  have "start_delta e ep < 2 ^ (1001 + 1601)" unfolding start_delta_def using p t by (intro mult_less_bits) simp_all
  then show "start_delta e ep < 2 ^ 2610" by (rule less_le_trans) (rule power_increasing, simp_all)
qed

lemma bits_3500: "(x :: nat) < 2 ^ k \<Longrightarrow> k \<le> 3500 \<Longrightarrow> x < 2 ^ 3500"
  by (erule less_le_trans) (rule power_increasing, simp_all)

lemma twice_bits: "(x :: nat) < 2 ^ k \<Longrightarrow> 2 * x < 2 ^ Suc k"
  by simp

text \<open>Doubling a number, which the start routines do to introduce a common denominator.\<close>

lemma double_is:
  assumes "bn_is b x" "x < 2 ^ k" "k \<le> 3400"
  obtains c where "ShiftLeft b 1 = Some c" "bn_is c (2 * x)"
  using shift_is [OF assms(1) bits_3500 [OF assms(2)], of 1] assms(3) that by (auto simp: mult.commute)

definition start_ok :: "bool \<Rightarrow> bool \<Rightarrow> nat \<Rightarrow> int \<Rightarrow> int \<Rightarrow> start_values \<Rightarrow> bool" where
  "start_ok need closer s e ep v \<longleftrightarrow>
     (case v of (n, d, dm, dp) \<Rightarrow>
        let q = (if need then if closer then 4 else 2 else 1)
        in bn_is n (q * start_num s e ep) \<and> bn_is d (q * start_den e ep)
           \<and> bn_is dm (if need then start_delta e ep else 0)
           \<and> bn_is dp (if need then if closer then 2 * start_delta e ep else start_delta e ep else 0))"

lemma PositiveExponent_correct:
  assumes s: "unat w = s" "s < 2 ^ 53" and e: "0 \<le> e" "e \<le> 1000" and ep: "0 \<le> ep" "ep \<le> 400"
  shows "\<exists>v. InitialScaledStartValuesPositiveExponent w e ep need (Bignum_new, Bignum_new, Bignum_new, Bignum_new) = Some v
           \<and> start_ok need False s e ep v"
proof -
  have b: "start_num s e ep < 2 ^ 2660" "start_den e ep < 2 ^ 2710" using start_small [of s e ep] s e ep by simp_all
  have k: "nat ep \<le> 400" using ep(2) by simp
  have simps: "start_num s e ep = s * 2 ^ nat e" "start_den e ep = 10 ^ nat ep" "start_delta e ep = 2 ^ nat e"
    using e(1) ep(1) by (simp_all add: start_num_def start_den_def start_delta_def)
  obtain n1 p1 where n1: "AssignUInt64 Bignum_new w = Some n1" "bn_is n1 s" "AssignUInt16 Bignum_new 1 = Some p1" "bn_is p1 1"
    using assign_is [OF bn_is_new(2), of w] s(1) by auto
  obtain n where n: "ShiftLeft n1 (nat e) = Some n" "bn_is n (start_num s e ep)"
    using shift_is [OF n1(2) bits_3500 [OF s(2)], of "nat e"] unfolding simps by auto
  obtain d where d: "AssignPowerUInt16 Bignum_new 10 (nat ep) = Some d" "bn_is d (start_den e ep)"
    using power10_is [OF bn_is_new(2) k] unfolding simps by auto
  obtain p where p: "ShiftLeft p1 (nat e) = Some p" "bn_is p (start_delta e ep)"
    using shift_is [OF n1(4), of "nat e"] unfolding simps by auto
  obtain n' where n': "ShiftLeft n 1 = Some n'" "bn_is n' (2 * start_num s e ep)" using double_is [OF n(2) b(1)] by auto
  obtain d' where d': "ShiftLeft d 1 = Some d'" "bn_is d' (2 * start_den e ep)" using double_is [OF d(2) b(2)] by auto
  show ?thesis using n1 n d p n' d' bn_is_new(1)
    by (auto simp: InitialScaledStartValuesPositiveExponent_def start_ok_def)
qed

lemma NegativeExponentPositivePower_correct:
  assumes s: "unat w = s" "s < 2 ^ 53" and e: "e < 0" "- 1100 \<le> e" and ep: "0 \<le> ep" "ep \<le> 400"
  shows "\<exists>v. InitialScaledStartValuesNegativeExponentPositivePower w e ep need (Bignum_new, Bignum_new, Bignum_new, Bignum_new) = Some v
           \<and> start_ok need False s e ep v"
proof -
  have b: "start_num s e ep < 2 ^ 2660" "start_den e ep < 2 ^ 2710" using start_small [of s e ep] s e ep by simp_all
  have k: "nat ep \<le> 400" using ep(2) by simp
  have simps: "start_num s e ep = s" "start_den e ep = 10 ^ nat ep * 2 ^ nat (- e)" "start_delta e ep = 1"
    using e(1) ep(1) by (simp_all add: start_num_def start_den_def start_delta_def)
  obtain n p where n: "AssignUInt64 Bignum_new w = Some n" "bn_is n (start_num s e ep)"
      and p: "AssignUInt16 Bignum_new 1 = Some p" "bn_is p (start_delta e ep)"
    using assign_is [OF bn_is_new(2), of w] s(1) unfolding simps by auto
  obtain d1 where d1: "AssignPowerUInt16 Bignum_new 10 (nat ep) = Some d1" "bn_is d1 (10 ^ nat ep)"
    using power10_is [OF bn_is_new(2) k] by auto
  have "(10 :: nat) ^ nat ep < 2 ^ 3500" using bits_3500 [OF ten_power_bits [of "nat ep" 400]] ep(2) by simp
  from shift_is [OF d1(2) this, of "nat (- e)"] obtain d where d: "ShiftLeft d1 (nat (- e)) = Some d" "bn_is d (start_den e ep)"
    unfolding simps by auto
  obtain n' where n': "ShiftLeft n 1 = Some n'" "bn_is n' (2 * start_num s e ep)" using double_is [OF n(2) b(1)] by auto
  obtain d' where d': "ShiftLeft d 1 = Some d'" "bn_is d' (2 * start_den e ep)" using double_is [OF d(2) b(2)] by auto
  show ?thesis using n p d1 d n' d' bn_is_new(1)
    by (auto simp: InitialScaledStartValuesNegativeExponentPositivePower_def start_ok_def)
qed

lemma NegativeExponentNegativePower_correct:
  assumes s: "unat w = s" "s < 2 ^ 53" and e: "e < 0" "- 1100 \<le> e" and ep: "ep < 0" "- 400 \<le> ep"
  shows "\<exists>v. InitialScaledStartValuesNegativeExponentNegativePower w e ep need (Bignum_new, Bignum_new, Bignum_new, Bignum_new) = Some v
           \<and> start_ok need False s e ep v"
proof -
  have b: "start_num s e ep < 2 ^ 2660" "start_den e ep < 2 ^ 2710" using start_small [of s e ep] s e ep by simp_all
  have k: "nat (- ep) \<le> 400" using ep(2) by simp
  have simps: "start_num s e ep = 10 ^ nat (- ep) * s" "start_den e ep = 2 ^ nat (- e)" "start_delta e ep = 10 ^ nat (- ep)"
    using e(1) ep(1) by (simp_all add: start_num_def start_den_def start_delta_def)
  obtain t where t: "AssignPowerUInt16 Bignum_new 10 (nat (- ep)) = Some t" "bn_is t (start_delta e ep)"
    using power10_is [OF bn_is_new(2) k] unfolding simps by auto
  have copy: "AssignBignum Bignum_new t = Some t" using t(2) by (intro AssignBignum_correct bn_is_new(2)) (simp add: bn_is_def)
  obtain n where n: "MultiplyByUInt64 t w = Some n" "bn_is n (start_num s e ep)"
    using mul64_is [OF t(2), of w] bits_3500 [OF b(1)] s(1) unfolding simps by auto
  obtain d1 where d1: "AssignUInt16 Bignum_new 1 = Some d1" "bn_is d1 1"
    using assign_is [OF bn_is_new(2)] by blast
  obtain d where d: "ShiftLeft d1 (nat (- e)) = Some d" "bn_is d (start_den e ep)"
    using shift_is [OF d1(2), of "nat (- e)"] unfolding simps by auto
  obtain n' where n': "ShiftLeft n 1 = Some n'" "bn_is n' (2 * start_num s e ep)" using double_is [OF n(2) b(1)] by auto
  obtain d' where d': "ShiftLeft d 1 = Some d'" "bn_is d' (2 * start_den e ep)" using double_is [OF d(2) b(2)] by auto
  show ?thesis using t copy n d1 d n' d' bn_is_new(1)
    by (auto simp: InitialScaledStartValuesNegativeExponentNegativePower_def start_ok_def)
qed

lemma InitialScaledStartValues_correct:
  assumes s: "unat w = s" "s < 2 ^ 53" and e: "- 1100 \<le> e" "e \<le> 1000" and ep: "- 400 \<le> ep" "ep \<le> 400" "0 \<le> e \<Longrightarrow> 0 \<le> ep"
  shows "\<exists>v. InitialScaledStartValues w e closer ep need (Bignum_new, Bignum_new, Bignum_new, Bignum_new) = Some v
           \<and> start_ok need closer s e ep v"
proof -
  let ?new = "(Bignum_new, Bignum_new, Bignum_new, Bignum_new)"
  have "\<exists>v. (if e \<ge> 0 then InitialScaledStartValuesPositiveExponent w e ep need ?new
             else if ep \<ge> 0 then InitialScaledStartValuesNegativeExponentPositivePower w e ep need ?new
             else InitialScaledStartValuesNegativeExponentNegativePower w e ep need ?new) = Some v \<and> start_ok need False s e ep v"
    using PositiveExponent_correct [OF s, of e ep need] NegativeExponentPositivePower_correct [OF s, of e ep need]
      NegativeExponentNegativePower_correct [OF s, of e ep need] e ep by auto
  then obtain n d dm dp where v: "(if e \<ge> 0 then InitialScaledStartValuesPositiveExponent w e ep need ?new
             else if ep \<ge> 0 then InitialScaledStartValuesNegativeExponentPositivePower w e ep need ?new
             else InitialScaledStartValuesNegativeExponentNegativePower w e ep need ?new) = Some (n, d, dm, dp)"
      "start_ok need False s e ep (n, d, dm, dp)" by auto
  show ?thesis
  proof (cases "need \<and> closer")
    case False
    then show ?thesis using v by (auto simp: InitialScaledStartValues_def start_ok_def)
  next
    case True
    note b = start_small [OF s(2) e ep(1,2)]
    have i: "bn_is n (2 * start_num s e ep)" "bn_is d (2 * start_den e ep)" "bn_is dm (start_delta e ep)" "bn_is dp (start_delta e ep)"
      using v(2) True by (simp_all add: start_ok_def)
    note two = twice_bits [OF b(1)] twice_bits [OF b(2)]
    obtain n' where n': "ShiftLeft n 1 = Some n'" "bn_is n' (4 * start_num s e ep)" using double_is [OF i(1) two(1)] by auto
    obtain d' where d': "ShiftLeft d 1 = Some d'" "bn_is d' (4 * start_den e ep)" using double_is [OF i(2) two(2)] by auto
    obtain p' where p': "ShiftLeft dp 1 = Some p'" "bn_is p' (2 * start_delta e ep)" using double_is [OF i(4) b(3)] by auto
    show ?thesis using v(1) i(3) True n' d' p' by (auto simp: InitialScaledStartValues_def start_ok_def)
  qed
qed

end
