(* ===== verification/DtoaDigits.thy ===== *)
theory DtoaDigits
  imports DtoaStart
begin

text \<open>
  The counted digit generator of \<open>bignum-dtoa.cc\<close>: it writes the digits of numerator/denominator and
  rounds half up, carrying through nines.
\<close>

section \<open>Digit characters\<close>

lemma le_10_cases:
  "q \<le> 10 \<Longrightarrow> q = 0 \<or> q = 1 \<or> q = 2 \<or> q = 3 \<or> q = 4 \<or> q = 5 \<or> q = 6 \<or> q = 7 \<or> q = 8 \<or> q = 9 \<or> q = (10 :: nat)"
  by (auto simp: numeral_eq_Suc le_Suc_eq)

lemma digit_char_cases:
  assumes "q \<le> 10"
  shows "digit_char (of_nat q) = ''0123456789:'' ! q"
proof -
  note le_10_cases [OF assms]
  then show ?thesis by (elim disjE) (simp_all add: digit_char_def char_of_def bit_0 numeral_2_eq_2 flip: numeral_2_eq_2)
qed

lemma digit_char_value:
  assumes "q \<le> 10"
  shows "dec_digit (digit_char (of_nat q)) = q" "is_decimal (digit_char (of_nat q)) \<longleftrightarrow> q \<le> 9"
    "digit_char (of_nat q) = CHR '':'' \<longleftrightarrow> q = 10"
proof -
  note le_10_cases [OF assms]
  then have "dec_digit (digit_char (of_nat q)) = q \<and> (is_decimal (digit_char (of_nat q)) \<longleftrightarrow> q \<le> 9)
      \<and> (digit_char (of_nat q) = CHR '':'' \<longleftrightarrow> q = 10)"
    unfolding digit_char_cases [OF assms]
    by (elim disjE) (simp_all add: dec_digit_def is_decimal_def numeral_eq_Suc)
  then show "dec_digit (digit_char (of_nat q)) = q" "is_decimal (digit_char (of_nat q)) \<longleftrightarrow> q \<le> 9"
    "digit_char (of_nat q) = CHR '':'' \<longleftrightarrow> q = 10" by blast+
qed

lemma decimal_char: "is_decimal c \<Longrightarrow> dec_digit c \<le> 9 \<and> c = digit_char (of_nat (dec_digit c))"
  by (auto simp: is_decimal_def dec_digit_def digit_char_def char_of_def bit_0)

lemma digit_char_of_nat: "q \<le> 10 \<Longrightarrow> digit_char (of_nat q) = char_of (q + 48)"
proof -
  assume "q \<le> 10"
  then have "unat (of_nat q :: 16 word) = q" by (simp add: unsigned_of_nat take_bit_nat_eq_self)
  then show ?thesis by (simp only: digit_char_def)
qed

lemma succ_digit_char: "q \<le> 9 \<Longrightarrow> succ_char (digit_char (of_nat q)) = digit_char (of_nat (q + 1))"
proof -
  assume q: "q \<le> 9"
  then have "of_char (char_of (q + 48 :: nat)) = q + (48 :: nat)" by (simp add: of_char_of take_bit_eq_mod)
  moreover have "digit_char (of_nat q) = char_of (q + 48)" "digit_char (of_nat (q + 1)) = char_of (q + 48 + 1)"
    using q digit_char_of_nat [of q] digit_char_of_nat [of "q + 1"] by simp_all
  ultimately show ?thesis by (simp only: succ_char_def)
qed

lemma decimal_value_Cons: "decimal_value (c # s) = dec_digit c * 10 ^ length s + decimal_value s"
  using decimal_append [of "[c]" s] by (simp add: decimal_value_def dstep_def)

lemma decimal_value_snoc: "decimal_value (s @ [c]) = decimal_value s * 10 + dec_digit c"
  using decimal_append [of s "[c]"] by (simp add: decimal_value_def dstep_def)

lemma decimal_value_zeros: "decimal_value (replicate n (CHR ''0'')) = 0"
  by (induction n) (simp_all add: decimal_value_Cons dec_digit_def, simp add: decimal_value_def)

section \<open>Generating digits\<close>

lemma counted_loop_correct:
  assumes d: "bn_good d" "10 * bnval d < bn_limit"
  shows "bn_good n \<Longrightarrow> bnval n < 10 * bnval d \<Longrightarrow> i + k \<le> length buf \<Longrightarrow>
    \<exists>ds n'. counted_loop buf n d i k = Some (take i buf @ ds @ drop (i + k) buf, n') \<and> length ds = k \<and> (\<forall>c\<in>set ds. is_decimal c)
      \<and> bn_good n' \<and> bnval n' < 10 * bnval d \<and> bnval n * 10 ^ k = decimal_value ds * 10 * bnval d + bnval n'"
proof (induction k arbitrary: buf n i)
  case 0
  then show ?case by (auto simp: decimal_value_def)
next
  case (Suc k)
  obtain r q n1 where s: "DivideModuloIntBignum n d = Some (r, of_nat q)" "bn_good r" "q \<le> 9" "bnval n = q * bnval d + bnval r"
      "bnval r < bnval d" "Times10 r = Some n1" "bn_good n1" "bnval n1 = 10 * bnval r" "bnval n1 < 10 * bnval d"
    by (rule bn.next_digit [OF Suc.prems(1) d(1) Suc.prems(2) d(2)])
  let ?c = "digit_char (of_nat q)" and ?buf = "buf[i := digit_char (of_nat q)]"
  have "Suc i + k \<le> length ?buf" using Suc.prems(3) by simp
  from Suc.IH [OF s(7,9) this] obtain ds n' where ds: "counted_loop ?buf n1 d (Suc i) k = Some (take (Suc i) ?buf @ ds @ drop (Suc i + k) ?buf, n')"
      "length ds = k" "\<forall>c\<in>set ds. is_decimal c" "bn_good n'" "bnval n' < 10 * bnval d"
      "bnval n1 * 10 ^ k = decimal_value ds * 10 * bnval d + bnval n'" by blast
  have "take (Suc i) ?buf @ ds @ drop (Suc i + k) ?buf = take i buf @ (?c # ds) @ drop (i + Suc k) buf"
    using Suc.prems(3) by (simp add: take_Suc_conv_app_nth)
  then have "counted_loop buf n d i (Suc k) = Some (take i buf @ (?c # ds) @ drop (i + Suc k) buf, n')"
    using s(1,6) ds(1) Suc.prems(3) by (simp add: bput_def)
  moreover have "bnval n * 10 ^ Suc k = (q * 10 ^ k) * 10 * bnval d + bnval n1 * 10 ^ k"
    unfolding s(4,8) by (simp add: algebra_simps)
  then have "bnval n * 10 ^ Suc k = decimal_value (?c # ds) * 10 * bnval d + bnval n'"
    using ds(2,6) digit_char_value(1) [of q] s(3) by (simp add: decimal_value_Cons algebra_simps)
  ultimately show ?case using ds(2-5) digit_char_value(2) [of q] s(3)
    by (intro exI [of _ "?c # ds"] exI [of _ n']) simp
qed

section \<open>The carry\<close>

lemma carry_digits_correct:
  assumes "\<forall>c\<in>set as. is_decimal c" "q \<le> 10"
  shows "\<exists>b t. carry_digits (as @ digit_char (of_nat q) # rest) (length as) = Some (b # t @ rest) \<and> length t = length as
    \<and> (\<forall>c\<in>set t. is_decimal c) \<and> decimal_value (b # t) = decimal_value (as @ [digit_char (of_nat q)])
    \<and> (is_decimal b \<or> b = CHR '':'' \<and> t = replicate (length as) (CHR ''0''))"
  using assms
proof (induction as arbitrary: q rest rule: rev_induct)
  case Nil
  then show ?case using digit_char_value [of q] by (cases "q = 10") (auto simp: decimal_value_def)
next
  case (snoc a as)
  let ?c = "digit_char (of_nat q)"
  have a: "dec_digit a \<le> 9" "a = digit_char (of_nat (dec_digit a))" using decimal_char [of a] snoc.prems(1) by auto
  show ?case
  proof (cases "q = 10")
    case False
    then have "?c \<noteq> CHR '':''" "is_decimal ?c" using digit_char_value [OF snoc.prems(2)] snoc.prems(2) by auto
    then have "carry_digits ((as @ [a]) @ ?c # rest) (length (as @ [a])) = Some (as @ [a, ?c] @ rest)"
      by (simp add: bget_def nth_append)
    moreover obtain b t where bt: "as @ [a, ?c] = b # t" by (cases "as @ [a, ?c]") auto
    moreover have "\<forall>c\<in>set (b # t). is_decimal c" unfolding bt [symmetric] using snoc.prems(1) \<open>is_decimal ?c\<close> by auto
    moreover have "length t = length (as @ [a])" using arg_cong [OF bt, of length] by simp
    moreover have "decimal_value (b # t) = decimal_value ((as @ [a]) @ [?c])" by (simp flip: bt)
    moreover have "as @ [a, ?c] @ rest = b # t @ rest" using arg_cong [OF bt, of "\<lambda>x. x @ rest"] by simp
    ultimately show ?thesis by auto
  next
    case True
    let ?a = "digit_char (of_nat (dec_digit a + 1))" and ?z = "CHR ''0''"
    have c: "?c = CHR '':''" using digit_char_value(3) [of q] True by simp
    have "succ_char a = ?a" using succ_digit_char [OF a(1)] a(2) by simp
    then have "carry_digits ((as @ [a]) @ ?c # rest) (length (as @ [a])) = carry_digits (as @ ?a # ?z # rest) (length as)"
      using c by (simp add: arr_simps increment_at_def nth_append list_update_append)
    moreover obtain b t where bt: "carry_digits (as @ ?a # ?z # rest) (length as) = Some (b # t @ ?z # rest)" "length t = length as"
        "\<forall>c\<in>set t. is_decimal c" "decimal_value (b # t) = decimal_value (as @ [?a])"
        "is_decimal b \<or> b = CHR '':'' \<and> t = replicate (length as) ?z"
      using snoc.IH [of "dec_digit a + 1" "?z # rest"] snoc.prems(1) a(1) by auto
    moreover have "is_decimal ?z" by (simp add: is_decimal_def)
    moreover have "decimal_value (b # t @ [?z]) = decimal_value ((as @ [a]) @ [?c])"
      using bt(4) digit_char_value(1) [of "dec_digit a + 1"] digit_char_value(1) [of q] a(1) True decimal_value_snoc [of "b # t" ?z]
      by (simp only: append_Cons [symmetric] decimal_value_snoc) (simp add: decimal_value_snoc dec_digit_def [of "CHR ''0''"])
    moreover have "t = replicate (length as) ?z \<Longrightarrow> t @ [?z] = replicate (length (as @ [a])) ?z" by (simp add: replicate_append_same)
    ultimately show ?thesis by (intro exI [of _ b] exI [of _ "t @ [?z]"]) auto
  qed
qed

section \<open>Counted digits\<close>

text \<open>The number that \<open>count\<close> digits of numerator/denominator denote after rounding half up.\<close>

definition rounded_digits :: "nat \<Rightarrow> nat \<Rightarrow> nat \<Rightarrow> nat" where
  "rounded_digits n d cnt = (2 * (n * 10 ^ (cnt - 1)) + d) div (2 * d)"

lemma rounded_digits_step:
  assumes "n * 10 ^ (cnt - 1) = x * d + r" "r < d"
  shows "rounded_digits n d cnt = x + (if d \<le> 2 * r then 1 else 0)"
proof -
  have "2 * (n * 10 ^ (cnt - 1)) + d = x * (2 * d) + (2 * r + d)" unfolding assms(1) by (simp add: algebra_simps)
  moreover have "(x * (2 * d) + (2 * r + d)) div (2 * d) = x + (2 * r + d) div (2 * d)" using assms(2) by simp
  moreover have "(2 * r + d) div (2 * d) = (if d \<le> 2 * r then 1 else 0)"
    using assms(2) div_nat_eqI [of "2 * d" 1 "2 * r + d"] by auto
  ultimately show ?thesis unfolding rounded_digits_def by (simp only:)
qed

lemma GenerateCountedDigits_correct:
  assumes n: "bn_good n" "bnval n < 10 * bnval d" and d: "bn_good d" "10 * bnval d < bn_limit"
    and cnt: "1 \<le> cnt" "cnt \<le> length buf"
  shows "\<exists>ds carry. GenerateCountedDigits (int cnt) dp n d buf = Some (ds @ drop cnt buf, cnt, dp + of_bool carry)
    \<and> length ds = cnt \<and> (\<forall>c\<in>set ds. is_decimal c)
    \<and> rounded_digits (bnval n) (bnval d) cnt = decimal_value ds * (if carry then 10 else 1)
    \<and> (carry \<longrightarrow> decimal_value ds = 10 ^ (cnt - 1))"
proof -
  let ?D = "bnval d"
  obtain as n1 where as: "counted_loop buf n d 0 (cnt - 1) = Some (as @ drop (cnt - 1) buf, n1)" "length as = cnt - 1"
      "\<forall>c\<in>set as. is_decimal c" "bn_good n1" "bnval n1 < 10 * ?D" "bnval n * 10 ^ (cnt - 1) = decimal_value as * 10 * ?D + bnval n1"
    using counted_loop_correct [OF d n, of 0 "cnt - 1" buf] le_trans [OF diff_le_self cnt(2)] by auto
  obtain r q where r: "DivideModuloIntBignum n1 d = Some (r, of_nat q)" "bn_good r" "q \<le> 9" "bnval n1 = q * ?D + bnval r" "bnval r < ?D"
      "q = bnval n1 div ?D" by (rule bn.first_digit [OF as(4) d(1) as(5)])
  obtain c where c: "PlusCompare r r d = Some c" "0 \<le> c \<longleftrightarrow> ?D \<le> 2 * bnval r" by (rule bn.half_test [OF r(2) d(1)])
  define q' where "q' = (if ?D \<le> 2 * bnval r then q + 1 else q)"
  have q': "q' \<le> 10" "(if c \<ge> 0 then of_nat q + 1 else of_nat q) = (of_nat q' :: 16 word)"
    using r(3) c(2) by (auto simp: q'_def)
  obtain b t where bt: "carry_digits (as @ digit_char (of_nat q') # drop cnt buf) (cnt - 1) = Some (b # t @ drop cnt buf)" "length t = cnt - 1"
      "\<forall>c\<in>set t. is_decimal c" "decimal_value (b # t) = decimal_value (as @ [digit_char (of_nat q')])"
      "is_decimal b \<or> b = CHR '':'' \<and> t = replicate (cnt - 1) (CHR ''0'')"
    using carry_digits_correct [OF as(3) q'(1), of "drop cnt buf"] as(2) by auto
  have put: "bput (as @ drop (cnt - 1) buf) (cnt - 1) x = Some (as @ x # drop cnt buf)" for x
    using as(2) cnt by (auto simp: bput_def list_update_append Cons_nth_drop_Suc [symmetric] split: nat.split)
  have "bnval n * 10 ^ (cnt - 1) = (decimal_value as * 10 + q) * ?D + bnval r" using as(6) r(4) by (simp add: algebra_simps)
  from rounded_digits_step [OF this r(5)] have "rounded_digits (bnval n) ?D cnt = decimal_value as * 10 + q'" by (simp add: q'_def)
  then have val: "rounded_digits (bnval n) ?D cnt = decimal_value (b # t)"
    using bt(4) digit_char_value(1) [OF q'(1)] by (simp add: decimal_value_snoc)
  have run: "GenerateCountedDigits (int cnt) dp n d buf =
      (if b = CHR '':'' then Some (CHR ''1'' # t @ drop cnt buf, cnt, dp + 1) else Some (b # t @ drop cnt buf, cnt, dp))"
    using cnt(1) as(1) r(1) c(1) q'(2) put bt(1) by (simp add: GenerateCountedDigits_def bget_def bput_def)
  show ?thesis
  proof (cases "b = CHR '':''")
    case True
    then have t: "t = replicate (cnt - 1) (CHR ''0'')" using bt(5) by (auto simp: is_decimal_def)
    have "decimal_value (CHR ''1'' # t) = 10 ^ (cnt - 1)" "decimal_value (b # t) = 10 * 10 ^ (cnt - 1)"
      unfolding t True by (simp_all add: decimal_value_Cons decimal_value_zeros dec_digit_def)
    moreover have "is_decimal (CHR ''1'')" by (simp add: is_decimal_def)
    ultimately show ?thesis using run True val bt(2,3) cnt(1) by (intro exI [of _ "CHR ''1'' # t"] exI [of _ True]) simp
  next
    case False
    then show ?thesis using run val bt(2,3,5) cnt(1) by (intro exI [of _ "b # t"] exI [of _ False]) auto
  qed
qed

end
