(* ===== verification/DtoaRound.thy ===== *)
theory DtoaRound
  imports DtoaDigits
begin

text \<open>
  The exact conversion in the modes with a requested number of digits: from the bits of the double,
  through the estimate, the start values and the fix-up, to digits that are the double rounded half up
  at the requested position.
\<close>

section \<open>The value of a double and its decimal order\<close>

definition dval :: "64 word \<Rightarrow> real" where
  "dval v = real (unat (Double_Significand v)) * 2 powi Double_Exponent v"

text \<open>A double the conversion accepts: positive (the sign bit is not looked at) and finite.\<close>

definition finite_positive :: "64 word \<Rightarrow> bool" where
  "finite_positive v \<longleftrightarrow> \<not> Double_IsSpecial v \<and> Double_Significand v \<noteq> 0"

lemma NormalizedExponent_correct:
  "0 < unat s \<Longrightarrow> unat s < 2 ^ 53 \<Longrightarrow>
     \<exists>k. NormalizedExponent s e = Some (e - int k) \<and> 2 ^ 52 \<le> unat s * 2 ^ k \<and> unat s * 2 ^ k < 2 ^ 53"
proof (induction "2 ^ 53 - unat s" arbitrary: s e rule: less_induct)
  case less
  show ?case
  proof (cases "unat s < 2 ^ 52")
    case False
    then have "s AND dHiddenBit \<noteq> 0" using hidden_bit_iff [OF less.prems(2)] by blast
    then have "NormalizedExponent s e = Some (e - int 0)" by (simp add: NormalizedExponent.simps)
    then show ?thesis using False less.prems(2) by (intro exI [of _ 0]) simp
  next
    case True
    let ?s = "push_bit 1 s"
    have u: "unat ?s = 2 * unat s" using True by (simp add: push_bit_eq_mult unat_word_ariths)
    have "2 ^ 53 - unat ?s < 2 ^ 53 - unat s" "0 < unat ?s" "unat ?s < 2 ^ 53" using u True less.prems(1) by simp_all
    from less.hyps [OF this, of "e - 1"] obtain k where k: "NormalizedExponent ?s (e - 1) = Some (e - 1 - int k)"
      "2 ^ 52 \<le> unat ?s * 2 ^ k" "unat ?s * 2 ^ k < 2 ^ 53" by blast
    have "s AND dHiddenBit = 0" using hidden_bit_iff [OF less.prems(2)] True by blast
    then have "NormalizedExponent s e = Some (e - int (Suc k))" using k(1) by (subst NormalizedExponent.simps) simp
    moreover have "unat ?s * 2 ^ k = unat s * 2 ^ Suc k" using u by simp
    ultimately show ?thesis using k(2,3) by (intro exI [of _ "Suc k"]) (simp only:)
  qed
qed

text \<open>What the estimate gives for the double itself; \<open>m\<close> is its binary order.\<close>

lemma estimate_double:
  assumes v: "finite_positive v"
  obtains ne ep where "NormalizedExponent (Double_Significand v) (Double_Exponent v) = Some ne" "ep = EstimatePower ne"
    "10 powi (ep - 1) \<le> dval v" "(real (unat (Double_Significand v)) + 1) * 2 powi Double_Exponent v \<le> 10 powi (ep + 1)"
    "- 400 \<le> ep" "ep \<le> 400" "0 \<le> Double_Exponent v \<Longrightarrow> 0 \<le> ep"
proof -
  define s e where "s = unat (Double_Significand v)" and "e = Double_Exponent v"
  have s: "0 < s" "s < 2 ^ 53" "e \<noteq> - 1074 \<Longrightarrow> 2 ^ 52 \<le> s" and e: "- 1074 \<le> e" "e \<le> 971"
    using v Significand_bounds [of v] by (auto simp: finite_positive_def s_def e_def unat_gt_0)
  obtain k where k: "NormalizedExponent (Double_Significand v) e = Some (e - int k)" "2 ^ 52 \<le> s * 2 ^ k" "s * 2 ^ k < 2 ^ 53"
    using NormalizedExponent_correct [of "Double_Significand v" e] s(1,2) unfolding s_def by auto
  have "1 * 2 ^ k \<le> s * 2 ^ k" using s(1) by (intro mult_le_mono1) simp
  then have "(2 :: nat) ^ k < 2 ^ 53" using k(3) by linarith
  then have k53: "k < 53" by (simp only: power_strict_increasing_iff one_less_numeral_iff semiring_norm)
  define m ep where "m = e - int k + 52" and "ep = EstimatePower (e - int k)"
  have m: "- 1100 \<le> m" "m \<le> 1100" using e k53 unfolding m_def by linarith+
  have ep: "ep = EstimatePower (m - 52)" by (simp add: m_def ep_def)
  note est = EstimatePower_correct [OF m ep]
  have pm: "2 powi m = 2 ^ 52 * (2 powi e / 2 ^ k :: real)" "2 powi (m + 1) = 2 ^ 53 * (2 powi e / 2 ^ k :: real)"
    by (simp_all add: m_def power_int_add power_int_diff)
  have "(2 :: real) ^ 52 \<le> real s * 2 ^ k" using k(2) by (simp only: of_nat_le_iff [symmetric, where 'a = real] of_nat_power of_nat_mult of_nat_numeral)
  then have lo: "2 powi m \<le> real s * 2 powi e" unfolding pm by (simp add: field_simps)
  have "(s + 1) * 2 ^ k \<le> 2 ^ 53"
  proof -
    have p: "(2 :: nat) ^ (53 - k) * 2 ^ k = 2 ^ 53" using k53 by (simp flip: power_add)
    have "s * 2 ^ k < 2 ^ (53 - k) * 2 ^ k" unfolding p by (rule k(3))
    then have "s < 2 ^ (53 - k)" by (rule mult_right_less_imp_less) simp
    then have "(s + 1) * 2 ^ k \<le> 2 ^ (53 - k) * 2 ^ k" by (intro mult_le_mono1) simp
    then show ?thesis unfolding p .
  qed
  then have "(real s + 1) * 2 ^ k \<le> 2 ^ 53" by (metis (mono_tags, opaque_lifting) of_nat_1 of_nat_add of_nat_le_iff of_nat_mult of_nat_numeral of_nat_power)
  then have "(real s + 1) * 2 ^ k * (2 powi e / 2 ^ k) \<le> 2 ^ 53 * (2 powi e / 2 ^ k)" by (intro mult_right_mono) simp_all
  then have hi: "(real s + 1) * 2 powi e \<le> 2 powi (m + 1)" unfolding pm by simp
  have l: "of_int (ep - 1) \<le> of_int m * log 10 (2 :: real)" "of_int (m + 1) * log 10 (2 :: real) \<le> of_int (ep + 1)"
    using est unfolding powers_compare .
  show ?thesis
  proof (rule that [OF _ ep_def])
    show "NormalizedExponent (Double_Significand v) (Double_Exponent v) = Some (e - int k)" using k(1) by (simp add: e_def)
    show "10 powi (ep - 1) \<le> dval v" using est(1) lo by (simp add: dval_def s_def e_def)
    show "(real (unat (Double_Significand v)) + 1) * 2 powi Double_Exponent v \<le> 10 powi (ep + 1)"
      using est(2) hi by (simp add: s_def e_def)
    have g: "\<bar>of_int j * log 10 2\<bar> \<le> real_of_int \<bar>j\<bar> * (146 / 485)" for j
    proof -
      have "\<bar>log 10 (2 :: real)\<bar> \<le> 146 / 485" using log10_2_bounds by simp
      then show ?thesis unfolding abs_mult of_int_abs by (rule mult_left_mono) simp
    qed
    show "- 400 \<le> ep" "ep \<le> 400" using l g [of m] g [of "m + 1"] m by (auto simp: abs_le_iff abs_if split: if_splits)
    assume "0 \<le> Double_Exponent v"
    then have "2 ^ 52 \<le> s" "e \<ge> 0" using s(3) by (simp_all add: e_def)
    have "k = 0"
    proof (rule ccontr)
      assume "k \<noteq> 0"
      then have "(2 :: nat) ^ 1 \<le> 2 ^ k" by (intro power_increasing) simp_all
      then have "2 ^ 52 * 2 ^ 1 \<le> s * 2 ^ k" using \<open>2 ^ 52 \<le> s\<close> by (intro mult_le_mono)
      then show False using k(3) by simp
    qed
    then have "52 \<le> m" using \<open>e \<ge> 0\<close> by (simp add: m_def)
    then have "real_of_int (m + 1) * (205 / 681) \<le> of_int (m + 1) * log 10 2" using log10_2_bounds(1) by (intro mult_left_mono) auto
    then show "0 \<le> ep" using l(2) \<open>52 \<le> m\<close> by simp
  qed
qed

section \<open>From the start values to a ratio between one and ten\<close>

lemma powi_nat: "(x :: real) powi e = x ^ nat e / x ^ nat (- e)" if "x \<noteq> 0"
  using that by (cases "0 \<le> e") (simp_all add: power_int_def field_simps)

lemma start_ratio: "real (start_num s e ep) * 10 powi ep = real s * 2 powi e * real (start_den e ep)"
proof -
  have p: "(10 :: real) powi ep = 10 ^ nat ep / 10 ^ nat (- ep)" "(2 :: real) powi e = 2 ^ nat e / 2 ^ nat (- e)"
    by (rule powi_nat; simp)+
  show ?thesis unfolding p start_num_def start_den_def by simp
qed

lemma start_den_pos: "0 < start_den e ep"
  by (simp add: start_den_def)

text \<open>A power of ten never has an odd significand, so the two comparisons of the fix-up agree when there
  are no boundaries.\<close>

lemma five_power_gap: "\<not> (2 ^ 52 \<le> (5 :: nat) ^ n \<and> (5 :: nat) ^ n < 2 ^ 53)"
proof (cases "n \<le> 22")
  case True
  then have "(5 :: nat) ^ n \<le> 5 ^ 22" by (intro power_increasing) simp_all
  then show ?thesis by simp
next
  case False
  then have "(5 :: nat) ^ 23 \<le> 5 ^ n" by (intro power_increasing) simp_all
  then show ?thesis by simp
qed

lemma two_power_mod_5: "(2 :: nat) ^ n mod 5 \<noteq> 0"
proof (induction n)
  case (Suc n)
  define x where "x = (2 :: nat) ^ n"
  have "x mod 5 \<noteq> 0 \<Longrightarrow> (2 * x) mod 5 \<noteq> 0" by presburger
  then show ?case using Suc by (simp add: x_def)
qed simp

lemma odd_part_unique:
  assumes "odd (a :: nat)" "odd b" "a * 2 ^ i = b * 2 ^ j"
  shows "a = b"
  using assms
proof (induction i arbitrary: j)
  case 0
  then show ?case by (cases j) auto
next
  case (Suc i)
  then show ?case by (cases j) auto
qed

lemma power_of_ten_even:
  assumes s: "odd s" "s < 2 ^ 53" "e \<noteq> - 1074 \<Longrightarrow> 2 ^ 52 \<le> s" and e: "0 \<le> e \<Longrightarrow> 0 \<le> ep"
  shows "start_num s e ep \<noteq> start_den e ep"
proof
  assume eq: "start_num s e ep = start_den e ep"
  consider "0 \<le> e" | "e < 0" "0 \<le> ep" | "e < 0" "ep < 0" by linarith
  then show False
  proof cases
    case 1
    have "(10 :: nat) ^ nat ep = (5 * 2) ^ nat ep" by simp
    also have "\<dots> = 5 ^ nat ep * 2 ^ nat ep" by (rule power_mult_distrib)
    finally have "s * 2 ^ nat e = 5 ^ nat ep * 2 ^ nat ep"
      using eq e 1 by (simp add: start_num_def start_den_def)
    then have "s = 5 ^ nat ep" by (rule odd_part_unique [OF s(1), rotated]) simp
    then show False using five_power_gap [of "nat ep"] s(2,3) 1 by simp
  next
    case 2
    then obtain k where "nat (- e) = Suc k" by (cases "nat (- e)") auto
    then have "s = 2 * (10 ^ nat ep * 2 ^ k)" using eq 2 by (simp add: start_num_def start_den_def)
    then show False using s(1) by simp
  next
    case 3
    then obtain k where "nat (- ep) = Suc k" by (cases "nat (- ep)") auto
    then have "s * (10 * 10 ^ k) = 2 ^ nat (- e)" using eq 3 by (simp add: start_num_def start_den_def)
    then have "2 ^ nat (- e) = 5 * (2 * s * 10 ^ k)" by simp
    then show False using two_power_mod_5 [of "nat (- e)"] by simp
  qed
qed

text \<open>Numerator and denominator after the fix-up: their ratio is the double scaled into [1, 10).\<close>

definition scaled :: "real \<Rightarrow> int \<Rightarrow> Bignum \<Rightarrow> Bignum \<Rightarrow> bool" where
  "scaled x point n d \<longleftrightarrow> bn_good n \<and> bn_good d \<and> bnval d \<le> bnval n \<and> bnval n < 10 * bnval d \<and> 10 * bnval d < bn_limit
     \<and> real (bnval n) * 10 powi (point - 1) = x * real (bnval d)"

lemma bits_limit: "(x :: nat) < 2 ^ k \<Longrightarrow> k \<le> 3400 \<Longrightarrow> 10 * x < bn_limit" "(x :: nat) < 2 ^ k \<Longrightarrow> k \<le> 3400 \<Longrightarrow> x < bn_limit"
proof -
  assume x: "x < 2 ^ k" "k \<le> 3400"
  have "10 * x < 2 ^ 4 * 2 ^ k" using x(1) by simp
  also have "\<dots> = 2 ^ (4 + k)" by (rule power_add [symmetric])
  finally have "10 * x < 2 ^ 3500" by (rule bits_3500) (use x(2) in simp)
  then show "10 * x < bn_limit" by (intro below_limit two_3500)
  then show "x < bn_limit" by simp
qed

lemma FixupMultiply10_plain:
  assumes v: "start_ok False closer s e ep (n, d, dm, dp)"
    and b: "s < 2 ^ 53" "- 1100 \<le> e" "e \<le> 1000" "- 400 \<le> ep" "ep \<le> 400"
    and x: "10 powi (ep - 1) \<le> real s * 2 powi e" "real s * 2 powi e < 10 powi (ep + 1)"
    and odd: "\<not> is_even \<Longrightarrow> start_num s e ep \<noteq> start_den e ep"
  shows "\<exists>point n' dm' dp'. FixupMultiply10 ep is_even (n, d, dm, dp) = Some (point, n', d, dm', dp')
    \<and> scaled (real s * 2 powi e) point n' d"
proof -
  let ?x = "real s * 2 powi e" and ?N = "start_num s e ep" and ?D = "start_den e ep"
  have i: "bn_is n ?N" "bn_is d ?D" "bn_is dm 0" "bn_is dp 0" using v by (simp_all add: start_ok_def)
  note sm = start_small [OF b]
  have lim: "?N * 10 < bn_limit" "10 * ?D < bn_limit" "?N < bn_limit" "?D < bn_limit"
    using bits_limit(1) [OF sm(1)] bits_limit(1) [OF sm(2)] bits_limit(2) [OF sm(1)] bits_limit(2) [OF sm(2)] by (simp_all add: mult.commute)
  have good: "bn_good n" "bn_good d" "bn_good dm" "bn_good dp" using i lim by (auto simp: bn_good_def bn_is_def)
  have val: "bnval n = ?N" "bnval d = ?D" "bnval dm = 0" "bnval dp = 0" using i by (simp_all add: bn_is_def)
  have ratio: "real ?N * 10 powi ep = ?x * real ?D" by (rule start_ratio)
  have D: "0 < real ?D" using start_den_pos by simp
  have cmp: "PlusCompare n dp d = Some (three_way ?N ?D)"
    using bn.plus_compare_law [OF good(1,4,2)] val by simp
  have rng: "(if is_even then three_way ?N ?D \<ge> 0 else three_way ?N ?D > 0) \<longleftrightarrow> ?D \<le> ?N"
    using odd by (auto simp: three_way_def)
  show ?thesis
  proof (cases "?D \<le> ?N")
    case True
    have "real ?N * 10 powi ep < 10 powi (ep + 1) * real ?D" unfolding ratio using x(2) D by (rule mult_strict_right_mono)
    then have "real ?N * 10 powi ep < (10 * real ?D) * 10 powi ep" by (simp add: power_int_add mult_ac)
    then have "real ?N < 10 * real ?D" by (rule mult_right_less_imp_less) simp
    then have "real ?N < real (10 * ?D)" by simp
    then have "?N < 10 * ?D" by (simp only: of_nat_less_iff)
    then have "scaled ?x (ep + 1) n d" using good True lim ratio val by (simp add: scaled_def)
    then show ?thesis using cmp rng True by (auto simp: FixupMultiply10_def)
  next
    case False
    obtain n' where n': "Times10 n = Some n'" "bn_good n'" "bnval n' = ?N * 10" using bn.times10_law [OF good(1)] val lim by auto
    obtain dm' where dm': "Times10 dm = Some dm'" "bn_good dm'" "bnval dm' = 0" using bn.times10_law [OF good(3)] val by auto
    have eq: "Equal dm dp = Some True" "AssignBignum dp dm' = Some dm'"
      using compare_values(3) [of dm dp] good dm'(2) val by (auto simp: bn_good_def intro!: AssignBignum_correct bn_okD)
    have "10 powi (ep - 1) * real ?D \<le> real ?N * 10 powi ep" unfolding ratio using x(1) D by (intro mult_right_mono) auto
    then have "real ?D * 10 powi ep \<le> (10 * real ?N) * 10 powi ep" by (simp add: power_int_diff field_simps)
    then have "real ?D \<le> 10 * real ?N" by (rule mult_right_le_imp_le) simp
    then have "real ?D \<le> real (10 * ?N)" by simp
    then have "?D \<le> ?N * 10" by (simp only: of_nat_le_iff mult.commute)
    moreover have "real (?N * 10) * 10 powi (ep - 1) = ?x * real ?D" using ratio by (simp add: power_int_diff)
    ultimately have "scaled ?x ep n' d" using good n' lim val False by (simp add: scaled_def)
    then show ?thesis using cmp rng False n'(1) dm'(1) eq by (auto simp: FixupMultiply10_def)
  qed
qed

lemma and_1_even: "w AND 1 = 0 \<longleftrightarrow> even (unat w)" for w :: "64 word"
  by (simp add: and_one_eq even_iff_mod_2_eq_zero word_unat_eq_iff unat_mod)

text \<open>The common prefix of the modes with a requested number of digits.\<close>

lemma scaled_double:
  assumes v: "finite_positive v"
  obtains ne ep vals point n d dm dp where
    "NormalizedExponent (Double_Significand v) (Double_Exponent v) = Some ne" "ep = EstimatePower ne" "dval v < 10 powi (ep + 1)"
    "InitialScaledStartValues (Double_Significand v) (Double_Exponent v) (Double_LowerBoundaryIsCloser v) ep False
       (Bignum_new, Bignum_new, Bignum_new, Bignum_new) = Some vals"
    "FixupMultiply10 ep (Double_Significand v AND 1 = 0) vals = Some (point, n, d, dm, dp)" "scaled (dval v) point n d"
proof -
  define w s e where "w = Double_Significand v" and "s = unat w" and "e = Double_Exponent v"
  note sb = Significand_bounds [of v, folded w_def e_def s_def]
  have ns: "\<not> Double_IsSpecial v" using v by (simp add: finite_positive_def)
  obtain ne ep where ep: "NormalizedExponent w e = Some ne" "ep = EstimatePower ne" "10 powi (ep - 1) \<le> dval v"
      "(real s + 1) * 2 powi e \<le> 10 powi (ep + 1)" "- 400 \<le> ep" "ep \<le> 400" "0 \<le> e \<Longrightarrow> 0 \<le> ep"
    using estimate_double [OF v] unfolding w_def s_def e_def by metis
  have e: "- 1100 \<le> e" "e \<le> 1000" using sb(3) [OF ns] by simp_all
  have x: "dval v = real s * 2 powi e" by (simp add: dval_def s_def w_def e_def)
  have "dval v < (real s + 1) * 2 powi e" unfolding x by (intro mult_strict_right_mono) simp_all
  then have hi: "dval v < 10 powi (ep + 1)" using ep(4) by simp
  obtain n0 d dm0 dp0 where st: "InitialScaledStartValues w e (Double_LowerBoundaryIsCloser v) ep False
       (Bignum_new, Bignum_new, Bignum_new, Bignum_new) = Some (n0, d, dm0, dp0)" "start_ok False (Double_LowerBoundaryIsCloser v) s e ep (n0, d, dm0, dp0)"
    using InitialScaledStartValues_correct [where w = w and s = s and e = e and ep = ep and closer = "Double_LowerBoundaryIsCloser v" and need = False,
        OF s_def [symmetric] sb(1) e ep(5,6,7)] by (metis prod_cases4)
  have "odd s" if "w AND 1 \<noteq> 0"
    using that and_1_even [of w] by (simp add: s_def)
  then have "start_num s e ep \<noteq> start_den e ep" if "\<not> w AND 1 = 0"
    using power_of_ten_even [of s e ep, OF _ sb(1,2) ep(7)] that by blast
  from FixupMultiply10_plain [OF st(2) sb(1) e ep(5,6) _ _ this] ep(3) hi obtain point n dm dp where
    "FixupMultiply10 ep (w AND 1 = 0) (n0, d, dm0, dp0) = Some (point, n, d, dm, dp)" "scaled (dval v) point n d" unfolding x by blast
  with that ep(1,2) hi st(1) show ?thesis unfolding w_def e_def by blast
qed

section \<open>The digits\<close>

lemma scaled_bounds:
  assumes "scaled x p n d"
  shows "10 powi (p - 1) \<le> x" "x < 10 powi p" "real (bnval n) * 10 ^ k / real (bnval d) = x * 10 powi (int k + 1 - p)"
proof -
  let ?N = "real (bnval n)" and ?D = "real (bnval d)"
  have a: "?D \<le> ?N" "?N < 10 * ?D" "?N * 10 powi (p - 1) = x * ?D" using assms by (simp_all add: scaled_def)
  then have D: "0 < ?D" by linarith
  have x: "x = ?N / ?D * 10 powi (p - 1)" using a(3) D by (simp add: field_simps)
  have one: "1 \<le> ?N / ?D" "?N / ?D < 10" using a D by (simp_all add: field_simps)
  show "10 powi (p - 1) \<le> x" unfolding x using mult_right_mono [OF one(1), of "10 powi (p - 1)"] by simp
  have "?N / ?D * 10 powi (p - 1) < 10 * 10 powi (p - 1)" using one(2) by (intro mult_strict_right_mono) simp_all
  also have "(10 :: real) * 10 powi (p - 1) = 10 powi p" by (simp add: power_int_diff)
  finally show "x < 10 powi p" unfolding x .
  show "?N * 10 ^ k / ?D = x * 10 powi (int k + 1 - p)" unfolding x by (simp add: power_int_diff power_int_add)
qed

lemma rounded_floor:
  assumes "0 < d"
  shows "int (rounded_digits n d (Suc k)) = \<lfloor>real n * 10 ^ k / real d + 1 / 2\<rfloor>"
proof -
  have "real n * 10 ^ k / real d + 1 / 2 = real (2 * (n * 10 ^ k) + d) / real (2 * d)" using assms by (simp add: field_simps)
  then show ?thesis unfolding rounded_digits_def by (simp only: floor_divide_of_nat_eq diff_Suc_1)
qed

lemma counted_digits:
  assumes sc: "scaled x p n d" and cnt: "1 \<le> cnt" "cnt \<le> length buf"
  shows "\<exists>ds point. GenerateCountedDigits (int cnt) p n d buf = Some (ds @ drop cnt buf, cnt, point) \<and> length ds = cnt
    \<and> (\<forall>c\<in>set ds. is_decimal c) \<and> 10 ^ (cnt - 1) \<le> decimal_value ds \<and> p \<le> point
    \<and> real (decimal_value ds) * 10 powi (point - int cnt) = of_int \<lfloor>x * 10 powi (int cnt - p) + 1 / 2\<rfloor> * 10 powi (p - int cnt)"
proof -
  have g: "bn_good n" "bnval n < 10 * bnval d" "bn_good d" "10 * bnval d < bn_limit" "bnval d \<le> bnval n"
    using sc by (auto simp: scaled_def)
  then have D: "0 < bnval d" by simp
  obtain ds carry where ds: "GenerateCountedDigits (int cnt) p n d buf = Some (ds @ drop cnt buf, cnt, p + of_bool carry)"
      "length ds = cnt" "\<forall>c\<in>set ds. is_decimal c"
      "rounded_digits (bnval n) (bnval d) cnt = decimal_value ds * (if carry then 10 else 1)" "carry \<longrightarrow> decimal_value ds = 10 ^ (cnt - 1)"
    using GenerateCountedDigits_correct [OF g(1-4) cnt] by blast
  obtain k where k: "cnt = Suc k" using cnt(1) by (cases cnt) auto
  have fl: "int (rounded_digits (bnval n) (bnval d) cnt) = \<lfloor>x * 10 powi (int cnt - p) + 1 / 2\<rfloor>"
    using rounded_floor [OF D, of "bnval n" k] scaled_bounds(3) [OF sc, of k] by (simp add: k add.commute)
  have "10 powi (int cnt - 1) \<le> x * 10 powi (int cnt - p)"
    using mult_right_mono [OF scaled_bounds(1) [OF sc], of "10 powi (int cnt - p)"] by (simp flip: power_int_add)
  then have "10 ^ (cnt - 1) \<le> x * 10 powi (int cnt - p) + 1 / 2" by (simp add: k power_int_def)
  then have "int (10 ^ (cnt - 1)) \<le> int (rounded_digits (bnval n) (bnval d) cnt)" unfolding fl by (simp add: le_floor_iff)
  then have "10 ^ (cnt - 1) \<le> decimal_value ds" using ds(4,5) by (cases carry) (simp_all only: of_nat_le_iff if_True if_False simp_thms order.refl mult_1_right)
  moreover have "real (decimal_value ds) * 10 powi (p + of_bool carry - int cnt) = real (rounded_digits (bnval n) (bnval d) cnt) * 10 powi (p - int cnt)"
    unfolding ds(4) by (cases carry) (simp_all add: power_int_add power_int_diff)
  moreover have "real (rounded_digits (bnval n) (bnval d) cnt) = of_int \<lfloor>x * 10 powi (int cnt - p) + 1 / 2\<rfloor>"
    using fl by (metis of_int_of_nat_eq)
  ultimately show ?thesis using ds(1-3) by (intro exI [of _ ds] exI [of _ "p + of_bool carry"]) simp
qed

lemma finish_buffer: "length ds < length buf \<Longrightarrow> bput (ds @ drop (length ds) buf) (length ds) z = Some (ds @ z # drop (length ds + 1) buf)"
  by (simp add: bput_def list_update_append Cons_nth_drop_Suc [symmetric] split: nat.split)

lemma precision_exact:
  assumes "finite_positive v" "1 \<le> cnt" "cnt < length buf"
  shows "\<exists>p ds point. 10 powi (p - 1) \<le> dval v \<and> dval v < 10 powi p
    \<and> BignumDtoa v BIGNUM_DTOA_PRECISION (int cnt) buf = Some (ds @ CHR 0x00 # drop (cnt + 1) buf, cnt, point)
    \<and> length ds = cnt \<and> (\<forall>c\<in>set ds. is_decimal c) \<and> 10 ^ (cnt - 1) \<le> decimal_value ds
    \<and> real (decimal_value ds) * 10 powi (point - int cnt)
        = of_int \<lfloor>dval v * 10 powi (int cnt - p) + 1 / 2\<rfloor> * 10 powi (p - int cnt)"
proof -
  obtain ne ep vals p n d dm dp where s: "NormalizedExponent (Double_Significand v) (Double_Exponent v) = Some ne" "ep = EstimatePower ne"
    "dval v < 10 powi (ep + 1)" "InitialScaledStartValues (Double_Significand v) (Double_Exponent v) (Double_LowerBoundaryIsCloser v) ep False
       (Bignum_new, Bignum_new, Bignum_new, Bignum_new) = Some vals"
    "FixupMultiply10 ep (Double_Significand v AND 1 = 0) vals = Some (p, n, d, dm, dp)" "scaled (dval v) p n d"
    by (rule scaled_double [OF assms(1)])
  obtain ds point where ds: "GenerateCountedDigits (int cnt) p n d buf = Some (ds @ drop cnt buf, cnt, point)" "length ds = cnt"
      "\<forall>c\<in>set ds. is_decimal c" "10 ^ (cnt - 1) \<le> decimal_value ds"
      "real (decimal_value ds) * 10 powi (point - int cnt) = of_int \<lfloor>dval v * 10 powi (int cnt - p) + 1 / 2\<rfloor> * 10 powi (p - int cnt)"
    using counted_digits [OF s(6) assms(2)] assms(3) by (meson less_imp_le)
  have "BignumDtoa v BIGNUM_DTOA_PRECISION (int cnt) buf = Some (ds @ CHR 0x00 # drop (cnt + 1) buf, cnt, point)"
    using s(1,4,5) ds(1) finish_buffer [of ds buf] ds(2) assms(3) by (simp add: BignumDtoa_def s(2))
  then show ?thesis using scaled_bounds(1,2) [OF s(6)] ds(2-5) by blast
qed

section \<open>Properties\<close>

text \<open>C14: in precision mode the conversion of a positive finite double returns exactly the requested
  number of decimal digits, the first of them not zero, followed by NUL: they are the exact value of the
  double rounded half up at that digit. No step exceeds the big integers and every loop ends, for all
  doubles including denormals.\<close>

theorem dtoa_precision:
  assumes "finite_positive v" "1 \<le> cnt" "cnt < length buf"
  shows "\<exists>p ds point. 10 powi (p - 1) \<le> dval v \<and> dval v < 10 powi p
    \<and> BignumDtoa v BIGNUM_DTOA_PRECISION (int cnt) buf = Some (ds @ CHR 0x00 # drop (cnt + 1) buf, cnt, point)
    \<and> length ds = cnt \<and> (\<forall>c\<in>set ds. is_decimal c) \<and> 10 ^ (cnt - 1) \<le> decimal_value ds
    \<and> real (decimal_value ds) * 10 powi (point - int cnt)
        = of_int \<lfloor>dval v * 10 powi (int cnt - p) + 1 / 2\<rfloor> * 10 powi (p - int cnt)"
  using assms by (rule precision_exact)

lemma pi_finite: "finite_positive 0x400921FB54442D18"
  by (simp add: finite_positive_def Double_IsSpecial_def Double_Significand_def Double_IsDenormal_def)

theorem dtoa_precision_witness:
  "\<exists>p ds point. 10 powi (p - 1) \<le> dval 0x400921FB54442D18 \<and> dval 0x400921FB54442D18 < 10 powi p
    \<and> BignumDtoa 0x400921FB54442D18 BIGNUM_DTOA_PRECISION (int 5) (replicate 9 (CHR ''x''))
        = Some (ds @ CHR 0x00 # drop (5 + 1) (replicate 9 (CHR ''x'')), 5, point)
    \<and> length ds = 5 \<and> (\<forall>c\<in>set ds. is_decimal c) \<and> 10 ^ (5 - 1) \<le> decimal_value ds
    \<and> real (decimal_value ds) * 10 powi (point - int 5)
        = of_int \<lfloor>dval 0x400921FB54442D18 * 10 powi (int 5 - p) + 1 / 2\<rfloor> * 10 powi (p - int 5)"
  by (rule dtoa_precision [OF pi_finite]) simp_all

text \<open>Numbers too small for the requested position round to zero.\<close>

lemma rounds_to_zero:
  fixes x :: real
  assumes "x < 10 powi j" "j \<le> - rd - 1" "0 \<le> x"
  shows "\<lfloor>x * 10 powi rd + 1 / 2\<rfloor> = 0"
proof -
  have "(10 :: real) powi j \<le> 10 powi (- rd - 1)" using assms(2) by (intro power_int_increasing) simp_all
  then have "x < 10 powi (- rd - 1)" using assms(1) by simp
  then have "x * 10 powi rd < 10 powi (- rd - 1) * 10 powi rd" by (intro mult_strict_right_mono) simp_all
  also have "\<dots> = 1 / 10" by (simp add: power_int_diff power_int_minus field_simps)
  finally have "x * 10 powi rd < 1 / 10" .
  moreover have "0 \<le> x * 10 powi rd" using assms(3) by simp
  ultimately show ?thesis by (simp add: floor_eq_iff)
qed

lemma BignumToFixed_correct:
  assumes sc: "scaled x p n d" and room: "1 \<le> length buf" "p + rd \<le> int (length buf)"
  shows "\<exists>ds point. BignumToFixed rd p n d buf = Some (ds @ drop (length ds) buf, length ds, point) \<and> length ds \<le> nat (max 1 (p + rd))
    \<and> (\<forall>c\<in>set ds. is_decimal c) \<and> (ds \<noteq> [] \<longrightarrow> 10 ^ (length ds - 1) \<le> decimal_value ds) \<and> (ds = [] \<longrightarrow> point = - rd)
    \<and> - rd \<le> point - int (length ds)
    \<and> real (decimal_value ds) * 10 powi (point - int (length ds)) = of_int \<lfloor>x * 10 powi rd + 1 / 2\<rfloor> * 10 powi (- rd)"
proof -
  note sb = scaled_bounds [OF sc]
  have x0: "0 \<le> x" using sb(1) zero_le_power_int [of "10 :: real" "p - 1"] by linarith
  have dv0: "decimal_value [] = 0" by (simp add: decimal_value_def)
  consider "- p > rd" | "- p = rd" | "1 \<le> p + rd" by linarith
  then show ?thesis
  proof cases
    case 1
    then have "\<lfloor>x * 10 powi rd + 1 / 2\<rfloor> = 0" using rounds_to_zero [OF sb(2)] x0 by simp
    then show ?thesis using 1 dv0 by (intro exI [of _ "[]"] exI [of _ "- rd"]) (simp add: BignumToFixed_def)
  next
    case 2
    let ?N = "real (bnval n)" and ?D = "real (bnval d)"
    have g: "bn_good n" "bn_good d" "10 * bnval d < bn_limit" "bnval d \<le> bnval n" "bnval n < 10 * bnval d" using sc by (auto simp: scaled_def)
    then have D: "0 < ?D" by simp
    obtain d' where d': "Times10 d = Some d'" "bn_good d'" "bnval d' = 10 * bnval d" using bn.times10_law [OF g(2)] g(3) by auto
    obtain c where c: "PlusCompare n n d' = Some c" "0 \<le> c \<longleftrightarrow> 10 * bnval d \<le> 2 * bnval n"
      using bn.half_test [OF g(1) d'(2)] d'(3) by metis
    have "?N / ?D = x * 10 powi (1 - p)" using sb(3) [of 0] by simp
    moreover have "1 - p = rd + 1" using 2 by simp
    ultimately have "?N / ?D = x * 10 powi rd * 10" by (simp add: power_int_add)
    then have xr: "x * 10 powi rd = ?N / (10 * ?D)" by simp
    have x1: "0 \<le> x * 10 powi rd" "x * 10 powi rd < 1" using xr g(5) D x0 by simp_all
    show ?thesis
    proof (cases "10 * bnval d \<le> 2 * bnval n")
      case True
      then have "real (10 * bnval d) \<le> real (2 * bnval n)" by (simp only: of_nat_le_iff)
      then have "1 / 2 \<le> x * 10 powi rd" unfolding xr using D by (simp add: field_simps)
      then have "\<lfloor>x * 10 powi rd + 1 / 2\<rfloor> = 1" using x1 by (simp add: floor_eq_iff)
      moreover have "decimal_value ''1'' = 1" "is_decimal (CHR ''1'')" by (simp_all add: decimal_value_Cons dv0 dec_digit_def is_decimal_def)
      moreover have "BignumToFixed rd p n d buf = Some (''1'' @ drop 1 buf, 1, p + 1)"
        using 2 d'(1) c True room(1) by (cases buf) (simp_all add: BignumToFixed_def bput_def)
      moreover have "p = - rd" using 2 by simp
      ultimately show ?thesis by (intro exI [of _ "''1''"] exI [of _ "p + 1"]) simp
    next
      case False
      then have "real (2 * bnval n) < real (10 * bnval d)" by (simp only: of_nat_less_iff not_le)
      then have "x * 10 powi rd < 1 / 2" unfolding xr using D by (simp add: field_simps)
      then have "\<lfloor>x * 10 powi rd + 1 / 2\<rfloor> = 0" using x1 by (simp add: floor_eq_iff)
      then show ?thesis using 2 dv0 d'(1) c False by (intro exI [of _ "[]"] exI [of _ p]) (simp add: BignumToFixed_def)
    qed
  next
    case 3
    obtain cnt where c: "int cnt = p + rd" using 3 by (metis int_nat_eq zero_le_one order_trans)
    have cnt: "1 \<le> cnt" "cnt \<le> length buf" "int cnt = p + rd" "cnt \<le> nat (max 1 (p + rd))" using 3 room(2) c by linarith+
    have "BignumToFixed rd p n d buf = GenerateCountedDigits (int cnt) p n d buf" using 3 cnt(3) by (simp add: BignumToFixed_def)
    moreover have eqs: "int cnt - p = rd" "p - int cnt = - rd" using cnt(3) by simp_all
    moreover obtain ds point where "GenerateCountedDigits (int cnt) p n d buf = Some (ds @ drop cnt buf, cnt, point)" "length ds = cnt"
        "\<forall>c\<in>set ds. is_decimal c" "10 ^ (cnt - 1) \<le> decimal_value ds" "p \<le> point" "real (decimal_value ds) * 10 powi (point - int cnt) = of_int \<lfloor>x * 10 powi (int cnt - p) + 1 / 2\<rfloor> * 10 powi (p - int cnt)"
      using counted_digits [OF sc cnt(1,2)] by metis
    moreover from this have "- rd \<le> point - int cnt" using cnt(3) by linarith
    moreover have "ds \<noteq> []" using calculation(5) cnt(1) by auto
    ultimately show ?thesis by (intro exI [of _ ds] exI [of _ point]) (simp add: cnt(4) eqs)
  qed
qed

lemma fixed_exact:
  assumes "finite_positive v" "dval v < 10 powi p" "p + rd < int (length buf)" "1 < length buf"
  shows "\<exists>ds point. BignumDtoa v BIGNUM_DTOA_FIXED rd buf = Some (ds @ CHR 0x00 # drop (length ds + 1) buf, length ds, point)
    \<and> (\<forall>c\<in>set ds. is_decimal c) \<and> (ds \<noteq> [] \<longrightarrow> 10 ^ (length ds - 1) \<le> decimal_value ds) \<and> (ds = [] \<longrightarrow> point = - rd)
    \<and> - rd \<le> point - int (length ds)
    \<and> real (decimal_value ds) * 10 powi (point - int (length ds)) = of_int \<lfloor>dval v * 10 powi rd + 1 / 2\<rfloor> * 10 powi (- rd)"
proof -
  obtain ne ep vals q n d dm dp where s: "NormalizedExponent (Double_Significand v) (Double_Exponent v) = Some ne" "ep = EstimatePower ne"
    "dval v < 10 powi (ep + 1)" "InitialScaledStartValues (Double_Significand v) (Double_Exponent v) (Double_LowerBoundaryIsCloser v) ep False
       (Bignum_new, Bignum_new, Bignum_new, Bignum_new) = Some vals"
    "FixupMultiply10 ep (Double_Significand v AND 1 = 0) vals = Some (q, n, d, dm, dp)" "scaled (dval v) q n d"
    by (rule scaled_double [OF assms(1)])
  have x0: "0 \<le> dval v" unfolding dval_def by (intro mult_nonneg_nonneg of_nat_0_le_iff zero_le_power_int) simp
  have "(10 :: real) powi (q - 1) < 10 powi p" using scaled_bounds(1) [OF s(6)] assms(2) by simp
  then have "q - 1 < p" by (meson not_le power_int_increasing one_le_numeral)
  then have room: "1 \<le> length buf" "q + rd \<le> int (length buf)" using assms(3,4) by linarith+
  show ?thesis
  proof (cases "- ep - 1 > rd")
    case True
    then have "\<lfloor>dval v * 10 powi rd + 1 / 2\<rfloor> = 0" using rounds_to_zero [OF s(3) _ x0] by simp
    moreover have "BignumDtoa v BIGNUM_DTOA_FIXED rd buf = Some (CHR 0x00 # drop 1 buf, 0, - rd)"
      using s(1) True assms(4) by (cases buf) (simp_all add: BignumDtoa_def s(2) bput_def)
    ultimately show ?thesis by (intro exI [of _ "[]"] exI [of _ "- rd"]) (simp add: decimal_value_def)
  next
    case False
    obtain ds point where ds: "BignumToFixed rd q n d buf = Some (ds @ drop (length ds) buf, length ds, point)" "length ds \<le> nat (max 1 (q + rd))"
        "\<forall>c\<in>set ds. is_decimal c" "ds \<noteq> [] \<longrightarrow> 10 ^ (length ds - 1) \<le> decimal_value ds" "ds = [] \<longrightarrow> point = - rd" "- rd \<le> point - int (length ds)"
        "real (decimal_value ds) * 10 powi (point - int (length ds)) = of_int \<lfloor>dval v * 10 powi rd + 1 / 2\<rfloor> * 10 powi (- rd)"
      using BignumToFixed_correct [OF s(6) room] by blast
    have "length ds < length buf" using ds(2) \<open>q - 1 < p\<close> assms(3,4) by linarith
    then have "BignumDtoa v BIGNUM_DTOA_FIXED rd buf = Some (ds @ CHR 0x00 # drop (length ds + 1) buf, length ds, point)"
      using s(1,4,5) ds(1) finish_buffer [of ds buf] False by (simp add: BignumDtoa_def s(2))
    then show ?thesis using ds(3-7) by blast
  qed
qed

text \<open>C15: in fixed mode the conversion returns the exact value of a positive finite double rounded half up to the
  requested number of digits after the decimal point, as a digit string (empty for zero) with the position
  of the point; a number below \<open>10^p\<close> needs a buffer of more than one character and of
  more than \<open>p\<close> and the requested digits together.\<close>

theorem dtoa_fixed:
  assumes "finite_positive v" "dval v < 10 powi p" "p + rd < int (length buf)" "1 < length buf"
  shows "\<exists>ds point. BignumDtoa v BIGNUM_DTOA_FIXED rd buf = Some (ds @ CHR 0x00 # drop (length ds + 1) buf, length ds, point)
    \<and> (\<forall>c\<in>set ds. is_decimal c)
    \<and> real (decimal_value ds) * 10 powi (point - int (length ds)) = of_int \<lfloor>dval v * 10 powi rd + 1 / 2\<rfloor> * 10 powi (- rd)"
  using fixed_exact [OF assms] by blast

lemma pi_less: "dval 0x400921FB54442D18 < 10 powi 1"
  by (simp add: dval_def Double_Significand_def Double_IsDenormal_def Double_Exponent_def power_int_def power_one_over)

theorem dtoa_fixed_witness:
  "\<exists>ds point. BignumDtoa 0x400921FB54442D18 BIGNUM_DTOA_FIXED 2 (replicate 9 (CHR ''x''))
       = Some (ds @ CHR 0x00 # drop (length ds + 1) (replicate 9 (CHR ''x'')), length ds, point)
    \<and> (\<forall>c\<in>set ds. is_decimal c)
    \<and> real (decimal_value ds) * 10 powi (point - int (length ds))
        = of_int \<lfloor>dval 0x400921FB54442D18 * 10 powi 2 + 1 / 2\<rfloor> * 10 powi (- 2)"
  by (rule dtoa_fixed [OF pi_finite pi_less]) simp_all

end
