(* ===== verification/FixedDtoa.thy ===== *)
theory FixedDtoa
  imports DtoaRound
begin

text \<open>
  \<open>Source/WTF/wtf/dtoa/fixed-dtoa.cc\<close>: the fast conversion of a double to a fixed number of digits after
  the decimal point, with 64-bit and 128-bit integers. As in the exact conversion the buffer is the list
  of its characters and a write outside it is \<open>None\<close>; so is a shift by a count that is negative or not
  below the width. An \<open>int\<close> that is cast from a wider integer is a 32-bit word.
\<close>

section \<open>Model\<close>

definition shl64 :: "64 word \<Rightarrow> int \<Rightarrow> 64 word option" where
  "shl64 w k = (if 0 \<le> k \<and> k < 64 then Some (push_bit (nat k) w) else None)"

definition shr64 :: "64 word \<Rightarrow> int \<Rightarrow> 64 word option" where
  "shr64 w k = (if 0 \<le> k \<and> k < 64 then Some (drop_bit (nat k) w) else None)"

record UInt128 =
  high_bits :: "64 word"
  low_bits :: "64 word"

abbreviation (input) kMask32 :: "64 word" where "kMask32 \<equiv> 0xFFFFFFFF"

definition UInt128_new :: "64 word \<Rightarrow> 64 word \<Rightarrow> UInt128" where
  "UInt128_new high low = \<lparr>high_bits = high, low_bits = low\<rparr>"

definition UInt128_Multiply :: "UInt128 \<Rightarrow> 32 word \<Rightarrow> UInt128" where
  "UInt128_Multiply u multiplicand =
     (let m = ucast multiplicand;
          accumulator1 = (low_bits u AND kMask32) * m;
          part1 = ucast (accumulator1 AND kMask32) :: 32 word;
          accumulator2 = drop_bit 32 accumulator1 + drop_bit 32 (low_bits u) * m;
          low = push_bit 32 accumulator2 + ucast part1;
          accumulator3 = drop_bit 32 accumulator2 + (high_bits u AND kMask32) * m;
          part2 = ucast (accumulator3 AND kMask32) :: 32 word;
          accumulator4 = drop_bit 32 accumulator3 + drop_bit 32 (high_bits u) * m;
          high = push_bit 32 accumulator4 + ucast part2
      in \<lparr>high_bits = high, low_bits = low\<rparr>)"

definition UInt128_Shift :: "UInt128 \<Rightarrow> int \<Rightarrow> UInt128 option" where
  "UInt128_Shift u shift_amount =
     (if shift_amount = 0 then Some u
      else if shift_amount = - 64 then Some \<lparr>high_bits = low_bits u, low_bits = 0\<rparr>
      else if shift_amount = 64 then Some \<lparr>high_bits = 0, low_bits = high_bits u\<rparr>
      else if shift_amount \<le> 0 then
        do { h \<leftarrow> shl64 (high_bits u) (- shift_amount);
             l \<leftarrow> shr64 (low_bits u) (64 + shift_amount);
             low \<leftarrow> shl64 (low_bits u) (- shift_amount);
             Some \<lparr>high_bits = h + l, low_bits = low\<rparr> }
      else
        do { l \<leftarrow> shr64 (low_bits u) shift_amount;
             h \<leftarrow> shl64 (high_bits u) (64 - shift_amount);
             high \<leftarrow> shr64 (high_bits u) shift_amount;
             Some \<lparr>high_bits = high, low_bits = l + h\<rparr> })"

definition UInt128_DivModPowerOf2 :: "UInt128 \<Rightarrow> int \<Rightarrow> (UInt128 \<times> 32 word) option" where
  "UInt128_DivModPowerOf2 u pow2 =
     (if pow2 \<ge> 64 then
        do { q \<leftarrow> shr64 (high_bits u) (pow2 - 64);
             let result = (ucast q :: 32 word);
             back \<leftarrow> shl64 (scast result) (pow2 - 64);
             Some (u\<lparr>high_bits := high_bits u - back\<rparr>, result) }
      else
        do { part_low \<leftarrow> shr64 (low_bits u) pow2;
             part_high \<leftarrow> shl64 (high_bits u) (64 - pow2);
             let result = (ucast (part_low + part_high) :: 32 word);
             back \<leftarrow> shl64 part_low pow2;
             Some (\<lparr>high_bits = 0, low_bits = low_bits u - back\<rparr>, result) })"

definition UInt128_IsZero :: "UInt128 \<Rightarrow> bool" where
  "UInt128_IsZero u \<longleftrightarrow> high_bits u = 0 \<and> low_bits u = 0"

definition UInt128_BitAt :: "UInt128 \<Rightarrow> int \<Rightarrow> 32 word option" where
  "UInt128_BitAt u position =
     (if position \<ge> 64 then do { w \<leftarrow> shr64 (high_bits u) (position - 64); Some (ucast w AND 1) }
      else do { w \<leftarrow> shr64 (low_bits u) position; Some (ucast w AND 1) })"

text \<open>A digit as a character.\<close>

definition digit32_char :: "32 word \<Rightarrow> char" where
  "digit32_char digit = char_of (unat digit + 48)"

fun fixed_length_loop :: "32 word \<Rightarrow> nat \<Rightarrow> string \<Rightarrow> nat \<Rightarrow> string option" where
  "fixed_length_loop number 0 buffer len = Some buffer"
| "fixed_length_loop number (Suc i) buffer len =
     do { buffer' \<leftarrow> bput buffer (len + i) (digit32_char (number mod 10));
          fixed_length_loop (number div 10) i buffer' len }"

definition FillDigits32FixedLength :: "32 word \<Rightarrow> nat \<Rightarrow> string \<Rightarrow> nat \<Rightarrow> (string \<times> nat) option" where
  "FillDigits32FixedLength number requested_length buffer len =
     do { buffer' \<leftarrow> fixed_length_loop number requested_length buffer len; Some (buffer', len + requested_length) }"

function reverse_digits_loop :: "32 word \<Rightarrow> string \<Rightarrow> nat \<Rightarrow> nat \<Rightarrow> (string \<times> nat) option" where
  "reverse_digits_loop number buffer len number_length =
     (if number \<noteq> 0 then
        do { buffer' \<leftarrow> bput buffer (len + number_length) (digit32_char (number mod 10));
             reverse_digits_loop (number div 10) buffer' len (number_length + 1) }
      else Some (buffer, number_length))"
  by pat_completeness auto
termination
  by (relation "measure (\<lambda>(number, _). unat number)") (auto simp: unat_div unat_gt_0)

function exchange_loop :: "string \<Rightarrow> int \<Rightarrow> int \<Rightarrow> string option" where
  "exchange_loop buffer i j =
     (if i < j then
        do { tmp \<leftarrow> bget buffer (nat i);
             y \<leftarrow> bget buffer (nat j);
             buffer1 \<leftarrow> bput buffer (nat i) y;
             buffer2 \<leftarrow> bput buffer1 (nat j) tmp;
             exchange_loop buffer2 (i + 1) (j - 1) }
      else Some buffer)"
  by pat_completeness auto
termination
  by (relation "measure (\<lambda>(_, i, j). nat (j - i))") auto

declare reverse_digits_loop.simps [simp del] exchange_loop.simps [simp del]

definition FillDigits32 :: "32 word \<Rightarrow> string \<Rightarrow> nat \<Rightarrow> (string \<times> nat) option" where
  "FillDigits32 number buffer len =
     do { (buffer1, number_length) \<leftarrow> reverse_digits_loop number buffer len 0;
          buffer2 \<leftarrow> exchange_loop buffer1 (int len) (int len + int number_length - 1);
          Some (buffer2, len + number_length) }"

abbreviation (input) kTen7 :: "64 word" where "kTen7 \<equiv> 10000000"

definition FillDigits64FixedLength :: "64 word \<Rightarrow> string \<Rightarrow> nat \<Rightarrow> (string \<times> nat) option" where
  "FillDigits64FixedLength number buffer len =
     (let part2 = ucast (number mod kTen7);
          number' = number div kTen7;
          part1 = ucast (number' mod kTen7);
          part0 = ucast (number' div kTen7)
      in do { (buffer1, len1) \<leftarrow> FillDigits32FixedLength part0 3 buffer len;
              (buffer2, len2) \<leftarrow> FillDigits32FixedLength part1 7 buffer1 len1;
              FillDigits32FixedLength part2 7 buffer2 len2 })"

definition FillDigits64 :: "64 word \<Rightarrow> string \<Rightarrow> nat \<Rightarrow> (string \<times> nat) option" where
  "FillDigits64 number buffer len =
     (let part2 = ucast (number mod kTen7);
          number' = number div kTen7;
          part1 = ucast (number' mod kTen7);
          part0 = ucast (number' div kTen7)
      in if part0 \<noteq> 0 then
           do { (buffer1, len1) \<leftarrow> FillDigits32 part0 buffer len;
                (buffer2, len2) \<leftarrow> FillDigits32FixedLength part1 7 buffer1 len1;
                FillDigits32FixedLength part2 7 buffer2 len2 }
         else if part1 \<noteq> 0 then
           do { (buffer1, len1) \<leftarrow> FillDigits32 part1 buffer len;
                FillDigits32FixedLength part2 7 buffer1 len1 }
         else FillDigits32 part2 buffer len)"

text \<open>The flag of the loop tells that the routine has returned from inside it.\<close>

fun round_up_loop :: "string \<Rightarrow> nat \<Rightarrow> (bool \<times> string) option" where
  "round_up_loop buffer 0 = Some (False, buffer)"
| "round_up_loop buffer (Suc i) =
     do { c \<leftarrow> bget buffer (Suc i);
          if c \<noteq> CHR '':'' then Some (True, buffer)
          else do { buffer1 \<leftarrow> bput buffer (Suc i) (CHR ''0'');
                    buffer2 \<leftarrow> increment_at buffer1 i;
                    round_up_loop buffer2 i } }"

definition RoundUp :: "string \<Rightarrow> nat \<Rightarrow> int \<Rightarrow> (string \<times> nat \<times> int) option" where
  "RoundUp buffer len decimal_point =
     (if len = 0 then do { buffer' \<leftarrow> bput buffer 0 (CHR ''1''); Some (buffer', 1, 1) }
      else do {
        buffer1 \<leftarrow> increment_at buffer (len - 1);
        (returned, buffer2) \<leftarrow> round_up_loop buffer1 (len - 1);
        if returned then Some (buffer2, len, decimal_point)
        else do {
          first \<leftarrow> bget buffer2 0;
          if first = CHR '':'' then do { buffer3 \<leftarrow> bput buffer2 0 (CHR ''1''); Some (buffer3, len, decimal_point + 1) }
          else Some (buffer2, len, decimal_point) } })"

text \<open>The loop over the digits after the point, with 64 bits and with 128 bits; the last argument
  is the number of rounds left.\<close>

fun fractionals64_loop :: "64 word \<Rightarrow> int \<Rightarrow> string \<Rightarrow> nat \<Rightarrow> nat \<Rightarrow> (64 word \<times> int \<times> string \<times> nat) option" where
  "fractionals64_loop fractionals point buffer len 0 = Some (fractionals, point, buffer, len)"
| "fractionals64_loop fractionals point buffer len (Suc n) =
     (if fractionals = 0 then Some (fractionals, point, buffer, len)
      else do {
        let fractionals1 = fractionals * 5;
        let point1 = point - 1;
        q \<leftarrow> shr64 fractionals1 point1;
        let digit = (ucast q :: 32 word);
        buffer1 \<leftarrow> bput buffer len (digit32_char digit);
        back \<leftarrow> shl64 (scast digit) point1;
        fractionals64_loop (fractionals1 - back) point1 buffer1 (len + 1) n })"

fun fractionals128_loop :: "UInt128 \<Rightarrow> int \<Rightarrow> string \<Rightarrow> nat \<Rightarrow> nat \<Rightarrow> (UInt128 \<times> int \<times> string \<times> nat) option" where
  "fractionals128_loop fractionals point buffer len 0 = Some (fractionals, point, buffer, len)"
| "fractionals128_loop fractionals point buffer len (Suc n) =
     (if UInt128_IsZero fractionals then Some (fractionals, point, buffer, len)
      else do {
        let fractionals1 = UInt128_Multiply fractionals 5;
        let point1 = point - 1;
        (fractionals2, digit) \<leftarrow> UInt128_DivModPowerOf2 fractionals1 point1;
        buffer1 \<leftarrow> bput buffer len (digit32_char digit);
        fractionals128_loop fractionals2 point1 buffer1 (len + 1) n })"

definition FillFractionals ::
  "64 word \<Rightarrow> int \<Rightarrow> int \<Rightarrow> string \<Rightarrow> nat \<Rightarrow> int \<Rightarrow> (string \<times> nat \<times> int) option" where
  "FillFractionals fractionals expnt fractional_count buffer len decimal_point =
     (if - expnt \<le> 64 then
        do { (rest, point, buffer1, len1) \<leftarrow> fractionals64_loop fractionals (- expnt) buffer len (nat fractional_count);
             if rest \<noteq> 0 then
               do { w \<leftarrow> shr64 rest (point - 1);
                    if w AND 1 = 1 then RoundUp buffer1 len1 decimal_point else Some (buffer1, len1, decimal_point) }
             else Some (buffer1, len1, decimal_point) }
      else
        do { fractionals128 \<leftarrow> UInt128_Shift (UInt128_new fractionals 0) (- expnt - 64);
             (rest, point, buffer1, len1) \<leftarrow> fractionals128_loop fractionals128 128 buffer len (nat fractional_count);
             b \<leftarrow> UInt128_BitAt rest (point - 1);
             if b = 1 then RoundUp buffer1 len1 decimal_point else Some (buffer1, len1, decimal_point) })"

fun trailing_loop :: "string \<Rightarrow> nat \<Rightarrow> nat option" where
  "trailing_loop buffer 0 = Some 0"
| "trailing_loop buffer (Suc len) =
     do { c \<leftarrow> bget buffer len; if c = CHR ''0'' then trailing_loop buffer len else Some (Suc len) }"

function leading_loop :: "string \<Rightarrow> nat \<Rightarrow> nat \<Rightarrow> nat option" where
  "leading_loop buffer first_non_zero len =
     (if first_non_zero < len then
        do { c \<leftarrow> bget buffer first_non_zero;
             if c = CHR ''0'' then leading_loop buffer (first_non_zero + 1) len else Some first_non_zero }
      else Some first_non_zero)"
  by pat_completeness auto
termination
  by (relation "measure (\<lambda>(_, i, len). len - i)") auto

declare leading_loop.simps [simp del]

fun move_down_loop :: "string \<Rightarrow> nat \<Rightarrow> nat \<Rightarrow> nat \<Rightarrow> string option" where
  "move_down_loop buffer first_non_zero i 0 = Some buffer"
| "move_down_loop buffer first_non_zero i (Suc n) =
     do { c \<leftarrow> bget buffer i;
          buffer' \<leftarrow> bput buffer (i - first_non_zero) c;
          move_down_loop buffer' first_non_zero (i + 1) n }"

definition TrimZeros :: "string \<Rightarrow> nat \<Rightarrow> int \<Rightarrow> (string \<times> nat \<times> int) option" where
  "TrimZeros buffer len0 decimal_point =
     do { len \<leftarrow> trailing_loop buffer len0;
          first_non_zero \<leftarrow> leading_loop buffer 0 len;
          if first_non_zero \<noteq> 0 then
            do { buffer' \<leftarrow> move_down_loop buffer first_non_zero first_non_zero (len - first_non_zero);
                 Some (buffer', len - first_non_zero, decimal_point - int first_non_zero) }
          else Some (buffer, len, decimal_point) }"

abbreviation (input) kDoubleSignificandSize :: int where "kDoubleSignificandSize \<equiv> 53"
abbreviation (input) kFive17 :: "64 word" where "kFive17 \<equiv> 0xB1A2BC2EC5"
abbreviation (input) kMaxUInt32 :: "64 word" where "kMaxUInt32 \<equiv> 0xFFFFFFFF"

text \<open>The result \<open>Some (False, \<dots>)\<close> is a call that returns false; then the out parameters, passed
  in as \<open>len0\<close> and \<open>decimal_point0\<close>, are unchanged.\<close>

definition FastFixedDtoa :: "64 word \<Rightarrow> int \<Rightarrow> string \<Rightarrow> nat \<Rightarrow> int \<Rightarrow> (bool \<times> string \<times> nat \<times> int) option" where
  "FastFixedDtoa v fractional_count buffer len0 decimal_point0 =
     (let significand = Double_Significand v; expnt = Double_Exponent v
      in if expnt > 20 then Some (False, buffer, len0, decimal_point0)
         else if fractional_count > 20 then Some (False, buffer, len0, decimal_point0)
         else do {
           (buffer1, len1, decimal_point1) \<leftarrow>
             (if expnt + kDoubleSignificandSize > 64 then
                do { (quotient, remainder) \<leftarrow>
                       (if expnt > 17 then
                          do { dividend \<leftarrow> shl64 significand (expnt - 17);
                               r \<leftarrow> shl64 (dividend mod kFive17) 17;
                               Some (ucast (dividend div kFive17) :: 32 word, r) }
                        else
                          do { divisor \<leftarrow> shl64 kFive17 (17 - expnt);
                               r \<leftarrow> shl64 (significand mod divisor) expnt;
                               Some (ucast (significand div divisor), r) });
                     (b1, n1) \<leftarrow> FillDigits32 quotient buffer 0;
                     (b2, n2) \<leftarrow> FillDigits64FixedLength remainder b1 n1;
                     Some (b2, n2, int n2) }
              else if expnt \<ge> 0 then
                do { number \<leftarrow> shl64 significand expnt;
                     (b1, n1) \<leftarrow> FillDigits64 number buffer 0;
                     Some (b1, n1, int n1) }
              else if expnt > - kDoubleSignificandSize then
                do { integrals \<leftarrow> shr64 significand (- expnt);
                     back \<leftarrow> shl64 integrals (- expnt);
                     (b1, n1) \<leftarrow> (if integrals > kMaxUInt32 then FillDigits64 integrals buffer 0
                                  else FillDigits32 (ucast integrals) buffer 0);
                     FillFractionals (significand - back) expnt fractional_count b1 n1 (int n1) }
              else if expnt < - 128 then
                do { b1 \<leftarrow> bput buffer 0 (CHR 0x00); Some (b1, 0, - fractional_count) }
              else FillFractionals significand expnt fractional_count buffer 0 0);
           (buffer2, len2, decimal_point2) \<leftarrow> TrimZeros buffer1 len1 decimal_point1;
           buffer3 \<leftarrow> bput buffer2 len2 (CHR 0x00);
           if len2 = 0 then Some (True, buffer3, len2, - fractional_count)
           else Some (True, buffer3, len2, decimal_point2) })"

end
