(* ===== verification/FastDtoa.thy ===== *)
theory FastDtoa
  imports CachedPowers
begin

text \<open>
  \<open>Source/WTF/wtf/dtoa/fast-dtoa.cc\<close>: the conversions that are tried first (Grisu3), shortest and with a
  given precision. They compute with 64-bit significands and their errors, and refuse when the digits may
  be wrong. Results are as in \<open>FixedDtoa\<close>: \<open>None\<close> is a write outside the buffer, an undefined shift or
  division, or a loop that does not end; the flag is the returned bool.
\<close>

section \<open>Model\<close>

abbreviation (input) kMinimalTargetExponent :: int where "kMinimalTargetExponent \<equiv> - 60"
abbreviation (input) kMaximalTargetExponent :: int where "kMaximalTargetExponent \<equiv> - 32"
abbreviation (input) kSignificandSize :: int where "kSignificandSize \<equiv> 64"

definition div32 :: "32 word \<Rightarrow> 32 word \<Rightarrow> 32 word option" where
  "div32 a b = (if b = 0 then None else Some (a div b))"

definition decrement_at :: "string \<Rightarrow> nat \<Rightarrow> string option" where
  "decrement_at buffer i = do { c \<leftarrow> bget buffer i; bput buffer i (char_of ((of_char c :: int) - 1)) }"

partial_function (option) weed_loop ::
  "string \<Rightarrow> nat \<Rightarrow> 64 word \<Rightarrow> 64 word \<Rightarrow> 64 word \<Rightarrow> 64 word \<Rightarrow> (string \<times> 64 word) option" where
  "weed_loop buffer len small_distance unsafe_interval ten_kappa rest =
     (if rest < small_distance \<and> unsafe_interval - rest \<ge> ten_kappa
         \<and> (rest + ten_kappa < small_distance \<or> small_distance - rest \<ge> rest + ten_kappa - small_distance) then
        do { buffer' \<leftarrow> decrement_at buffer (len - 1);
             weed_loop buffer' len small_distance unsafe_interval ten_kappa (rest + ten_kappa) }
      else Some (buffer, rest))"

declare weed_loop.simps [code]

definition RoundWeed ::
  "string \<Rightarrow> nat \<Rightarrow> 64 word \<Rightarrow> 64 word \<Rightarrow> 64 word \<Rightarrow> 64 word \<Rightarrow> 64 word \<Rightarrow> (bool \<times> string) option" where
  "RoundWeed buffer0 len distance_too_high_w unsafe_interval rest0 ten_kappa unit =
     (let small_distance = distance_too_high_w - unit;
          big_distance = distance_too_high_w + unit
      in do { (buffer, rest) \<leftarrow> weed_loop buffer0 len small_distance unsafe_interval ten_kappa rest0;
              if rest < big_distance \<and> unsafe_interval - rest \<ge> ten_kappa
                 \<and> (rest + ten_kappa < big_distance \<or> big_distance - rest > rest + ten_kappa - big_distance)
              then Some (False, buffer)
              else Some (2 * unit \<le> rest \<and> rest \<le> unsafe_interval - 4 * unit, buffer) })"

text \<open>The loop over nines is the one of \<open>GenerateCountedDigits\<close>, statement by statement.\<close>

definition RoundWeedCounted ::
  "string \<Rightarrow> nat \<Rightarrow> 64 word \<Rightarrow> 64 word \<Rightarrow> 64 word \<Rightarrow> int \<Rightarrow> (bool \<times> string \<times> int) option" where
  "RoundWeedCounted buffer len rest ten_kappa unit kappa =
     (if unit \<ge> ten_kappa then Some (False, buffer, kappa)
      else if ten_kappa - unit \<le> unit then Some (False, buffer, kappa)
      else if ten_kappa - rest > rest \<and> ten_kappa - 2 * rest \<ge> 2 * unit then Some (True, buffer, kappa)
      else if rest > unit \<and> ten_kappa - (rest - unit) \<le> rest - unit then
        do { buffer1 \<leftarrow> increment_at buffer (len - 1);
             buffer2 \<leftarrow> carry_digits buffer1 (len - 1);
             first \<leftarrow> bget buffer2 0;
             if first = CHR '':'' then do { buffer3 \<leftarrow> bput buffer2 0 (CHR ''1''); Some (True, buffer3, kappa + 1) }
             else Some (True, buffer2, kappa) }
      else Some (False, buffer, kappa))"

definition kSmallPowersOfTen :: "32 word list" where
  "kSmallPowersOfTen = [0, 1, 10, 100, 1000, 10000, 100000, 1000000, 10000000, 100000000, 1000000000]"

definition BiggestPowerTen :: "32 word \<Rightarrow> int \<Rightarrow> (32 word \<times> int) option" where
  "BiggestPowerTen number number_bits =
     (let guess0 = (number_bits + 1) * 1233 div 2 ^ 12;
          guess1 = guess0 + 1
      in if guess1 < 0 then None
         else do { p \<leftarrow> bget kSmallPowersOfTen (nat guess1);
                   let guess = (if number < p then guess1 - 1 else guess1);
                   if guess < 0 then None
                   else do { p' \<leftarrow> bget kSmallPowersOfTen (nat guess); Some (p', guess) } })"

text \<open>The digits before the point. The last argument is \<open>kappa\<close>; \<open>Inl\<close> is a return from inside the
  loop, with the flag, the buffer, its length and \<open>kappa\<close>; \<open>Inr\<close> is the state when the loop ends.\<close>

fun integrals_loop ::
  "64 word \<Rightarrow> 64 word \<Rightarrow> int \<Rightarrow> 64 word \<Rightarrow> 32 word \<Rightarrow> 32 word \<Rightarrow> string \<Rightarrow> nat \<Rightarrow> nat
     \<Rightarrow> ((bool \<times> string \<times> nat \<times> int) + (string \<times> nat)) option" where
  "integrals_loop distance unsafe_interval shift fractionals integrals divisor buffer len 0 = Some (Inr (buffer, len))"
| "integrals_loop distance unsafe_interval shift fractionals integrals divisor buffer len (Suc kappa) =
     do { digit \<leftarrow> div32 integrals divisor;
          buffer1 \<leftarrow> bput buffer len (digit32_char digit);
          let len1 = len + 1;
          let integrals1 = integrals mod divisor;
          s \<leftarrow> shl64 (ucast integrals1) shift;
          let rest = s + fractionals;
          if rest < unsafe_interval then
            do { ten_kappa \<leftarrow> shl64 (ucast divisor) shift;
                 (result, buffer2) \<leftarrow> RoundWeed buffer1 len1 distance unsafe_interval rest ten_kappa 1;
                 Some (Inl (result, buffer2, len1, int kappa)) }
          else integrals_loop distance unsafe_interval shift fractionals integrals1 (divisor div 10) buffer1 len1 kappa }"

partial_function (option) fractionals_loop ::
  "64 word \<Rightarrow> 64 word \<Rightarrow> int \<Rightarrow> 64 word \<Rightarrow> 64 word \<Rightarrow> 64 word \<Rightarrow> string \<Rightarrow> nat \<Rightarrow> int \<Rightarrow> (bool \<times> string \<times> nat \<times> int) option" where
  "fractionals_loop distance one_f shift fractionals unit unsafe_interval buffer len kappa =
     do { let fractionals1 = fractionals * 10;
          let unit1 = unit * 10;
          let unsafe_interval1 = unsafe_interval * 10;
          q \<leftarrow> shr64 fractionals1 shift;
          buffer1 \<leftarrow> bput buffer len (digit32_char (ucast q));
          let len1 = len + 1;
          let fractionals2 = (fractionals1 AND (one_f - 1));
          let kappa1 = kappa - 1;
          if fractionals2 < unsafe_interval1 then
            do { (result, buffer2) \<leftarrow> RoundWeed buffer1 len1 (distance * unit1) unsafe_interval1 fractionals2 one_f unit1;
                 Some (result, buffer2, len1, kappa1) }
          else fractionals_loop distance one_f shift fractionals2 unit1 unsafe_interval1 buffer1 len1 kappa1 }"

declare fractionals_loop.simps [code]

definition DigitGen :: "DiyFp \<Rightarrow> DiyFp \<Rightarrow> DiyFp \<Rightarrow> string \<Rightarrow> (bool \<times> string \<times> nat \<times> int) option" where
  "DigitGen low w high buffer =
     (let unit = 1;
          too_low = DiyFp_new (diy_f low - unit) (diy_e low);
          too_high = DiyFp_new (diy_f high + unit) (diy_e high);
          unsafe_interval = DiyFp_Minus too_high too_low;
          distance = diy_f (DiyFp_Minus too_high w);
          shift = - diy_e w
      in do {
        one_f \<leftarrow> shl64 1 shift;
        i \<leftarrow> shr64 (diy_f too_high) shift;
        let integrals = (ucast i :: 32 word);
        let fractionals = (diy_f too_high AND (one_f - 1));
        (divisor, kappa) \<leftarrow> BiggestPowerTen integrals (kSignificandSize - shift);
        r \<leftarrow> integrals_loop distance (diy_f unsafe_interval) shift fractionals integrals divisor buffer 0 (nat kappa);
        case r of
          Inl result \<Rightarrow> Some result
        | Inr (buffer1, len1) \<Rightarrow>
            fractionals_loop distance one_f shift fractionals unit (diy_f unsafe_interval) buffer1 len1 0 })"

text \<open>The counted loops: the rounds left are \<open>kappa\<close> in the first one, and the requested digits decide
  when they stop.\<close>

fun counted_integrals_loop ::
  "int \<Rightarrow> 32 word \<Rightarrow> 32 word \<Rightarrow> string \<Rightarrow> nat \<Rightarrow> nat \<Rightarrow> (int \<times> 32 word \<times> 32 word \<times> string \<times> nat \<times> int) option" where
  "counted_integrals_loop requested_digits integrals divisor buffer len 0 = Some (requested_digits, integrals, divisor, buffer, len, 0)"
| "counted_integrals_loop requested_digits integrals divisor buffer len (Suc kappa) =
     do { digit \<leftarrow> div32 integrals divisor;
          buffer1 \<leftarrow> bput buffer len (digit32_char digit);
          if requested_digits - 1 = 0 then Some (requested_digits - 1, integrals mod divisor, divisor, buffer1, len + 1, int kappa)
          else counted_integrals_loop (requested_digits - 1) (integrals mod divisor) (divisor div 10) buffer1 (len + 1) kappa }"

fun counted_fractionals_loop ::
  "64 word \<Rightarrow> int \<Rightarrow> 64 word \<Rightarrow> 64 word \<Rightarrow> string \<Rightarrow> nat \<Rightarrow> int \<Rightarrow> nat \<Rightarrow> (64 word \<times> 64 word \<times> string \<times> nat \<times> int \<times> nat) option" where
  "counted_fractionals_loop one_f shift fractionals w_error buffer len kappa 0 = Some (fractionals, w_error, buffer, len, kappa, 0)"
| "counted_fractionals_loop one_f shift fractionals w_error buffer len kappa (Suc n) =
     (if fractionals > w_error then
        do { let fractionals1 = fractionals * 10;
             let w_error1 = w_error * 10;
             q \<leftarrow> shr64 fractionals1 shift;
             buffer1 \<leftarrow> bput buffer len (digit32_char (ucast q));
             counted_fractionals_loop one_f shift (fractionals1 AND (one_f - 1)) w_error1 buffer1 (len + 1) (kappa - 1) n }
      else Some (fractionals, w_error, buffer, len, kappa, Suc n))"

definition DigitGenCounted :: "DiyFp \<Rightarrow> int \<Rightarrow> string \<Rightarrow> (bool \<times> string \<times> nat \<times> int) option" where
  "DigitGenCounted w requested_digits0 buffer =
     (let w_error = 1; shift = - diy_e w
      in do {
        one_f \<leftarrow> shl64 1 shift;
        i \<leftarrow> shr64 (diy_f w) shift;
        let integrals0 = (ucast i :: 32 word);
        let fractionals = (diy_f w AND (one_f - 1));
        (divisor0, kappa0) \<leftarrow> BiggestPowerTen integrals0 (kSignificandSize - shift);
        (requested_digits, integrals, divisor, buffer1, len1, kappa1) \<leftarrow>
          counted_integrals_loop requested_digits0 integrals0 divisor0 buffer 0 (nat kappa0);
        if requested_digits = 0 then
          do { s \<leftarrow> shl64 (ucast integrals) shift;
               ten_kappa \<leftarrow> shl64 (ucast divisor) shift;
               (result, buffer2, kappa2) \<leftarrow> RoundWeedCounted buffer1 len1 (s + fractionals) ten_kappa w_error kappa1;
               Some (result, buffer2, len1, kappa2) }
        else do {
          (fractionals', w_error', buffer2, len2, kappa2, left) \<leftarrow>
            counted_fractionals_loop one_f shift fractionals w_error buffer1 len1 kappa1 (nat requested_digits);
          if requested_digits < 0 \<or> left \<noteq> 0 then Some (False, buffer2, len2, kappa2)
          else do {
            (result, buffer3, kappa3) \<leftarrow> RoundWeedCounted buffer2 len2 fractionals' one_f w_error' kappa2;
            Some (result, buffer3, len2, kappa3) } } })"

datatype FastDtoaMode = FAST_DTOA_SHORTEST | FAST_DTOA_SHORTEST_SINGLE | FAST_DTOA_PRECISION

definition Grisu3 :: "64 word \<Rightarrow> FastDtoaMode \<Rightarrow> string \<Rightarrow> (bool \<times> string \<times> nat \<times> int) option" where
  "Grisu3 v mode buffer =
     do { w \<leftarrow> Double_AsNormalizedDiyFp v;
          (boundary_minus, boundary_plus) \<leftarrow>
            (if mode = FAST_DTOA_SHORTEST then Double_NormalizedBoundaries v
             else Single_NormalizedBoundaries (double_to_float v));
          let ten_mk_minimal_binary_exponent = kMinimalTargetExponent - (diy_e w + kSignificandSize);
          let ten_mk_maximal_binary_exponent = kMaximalTargetExponent - (diy_e w + kSignificandSize);
          (ten_mk, mk) \<leftarrow> GetCachedPowerForBinaryExponentRange ten_mk_minimal_binary_exponent ten_mk_maximal_binary_exponent;
          let scaled_w = DiyFp_Times w ten_mk;
          let scaled_boundary_minus = DiyFp_Times boundary_minus ten_mk;
          let scaled_boundary_plus = DiyFp_Times boundary_plus ten_mk;
          (result, buffer', len, kappa) \<leftarrow> DigitGen scaled_boundary_minus scaled_w scaled_boundary_plus buffer;
          Some (result, buffer', len, - mk + kappa) }"

definition Grisu3Counted :: "64 word \<Rightarrow> int \<Rightarrow> string \<Rightarrow> (bool \<times> string \<times> nat \<times> int) option" where
  "Grisu3Counted v requested_digits buffer =
     do { w \<leftarrow> Double_AsNormalizedDiyFp v;
          let ten_mk_minimal_binary_exponent = kMinimalTargetExponent - (diy_e w + kSignificandSize);
          let ten_mk_maximal_binary_exponent = kMaximalTargetExponent - (diy_e w + kSignificandSize);
          (ten_mk, mk) \<leftarrow> GetCachedPowerForBinaryExponentRange ten_mk_minimal_binary_exponent ten_mk_maximal_binary_exponent;
          let scaled_w = DiyFp_Times w ten_mk;
          (result, buffer', len, kappa) \<leftarrow> DigitGenCounted scaled_w requested_digits buffer;
          Some (result, buffer', len, - mk + kappa) }"

text \<open>The out parameter \<open>decimal_point\<close> is passed in, since a failure leaves it alone.\<close>

definition FastDtoa :: "64 word \<Rightarrow> FastDtoaMode \<Rightarrow> int \<Rightarrow> string \<Rightarrow> int \<Rightarrow> (bool \<times> string \<times> nat \<times> int) option" where
  "FastDtoa v mode requested_digits buffer decimal_point0 =
     do { (result, buffer1, len, decimal_exp) \<leftarrow>
            (case mode of
               FAST_DTOA_PRECISION \<Rightarrow> Grisu3Counted v requested_digits buffer
             | _ \<Rightarrow> Grisu3 v mode buffer);
          if result then do { buffer2 \<leftarrow> bput buffer1 len (CHR 0x00); Some (True, buffer2, len, int len + decimal_exp) }
          else Some (False, buffer1, len, decimal_point0) }"

end
