(* ===== verification/DoubleConversion.thy ===== *)
theory DoubleConversion
  imports FastDtoa FixedDtoa BignumDtoa
begin

text \<open>
  \<open>Source/WTF/wtf/dtoa/double-conversion.cc\<close> with the string builder of \<open>utils.h\<close>, and \<open>Source/WTF/wtf/dtoa.cpp\<close>:
  the dispatch between the conversions and the formatting of their digits. Results are options; \<open>None\<close> is an
  access outside an array (the assertions of the sources are not compiled into the product). A character
  pointer is the list of the characters from there to the end of its array. The contents of arrays and
  variables that the code does not initialize are arguments of the operations (\<open>Uninit\<close>).
\<close>

section \<open>String builder\<close>

record StringBuilder =
  sb_buffer :: string
  sb_position :: int

definition StringBuilder_new :: "string \<Rightarrow> StringBuilder" where
  "StringBuilder_new buffer = \<lparr>sb_buffer = buffer, sb_position = 0\<rparr>"

definition AddCharacter :: "StringBuilder \<Rightarrow> char \<Rightarrow> StringBuilder option" where
  "AddCharacter b c =
     (if sb_position b < 0 then None
      else do { buffer \<leftarrow> bput (sb_buffer b) (nat (sb_position b)) c;
                Some (b\<lparr>sb_buffer := buffer, sb_position := sb_position b + 1\<rparr>) })"

text \<open>The \<open>memmove\<close> reads \<open>n\<close> characters of \<open>s\<close>.\<close>

definition AddSubstring :: "StringBuilder \<Rightarrow> string \<Rightarrow> int \<Rightarrow> StringBuilder option" where
  "AddSubstring b s n =
     (if sb_position b < 0 \<or> n < 0 \<or> nat n > length s \<or> sb_position b + n > int (length (sb_buffer b)) then None
      else Some (b\<lparr>sb_buffer := take (nat (sb_position b)) (sb_buffer b) @ take (nat n) s @ drop (nat (sb_position b + n)) (sb_buffer b),
                   sb_position := sb_position b + n\<rparr>))"

text \<open>A literal string is the list of its characters before the NUL.\<close>

definition AddString :: "StringBuilder \<Rightarrow> string \<Rightarrow> StringBuilder option" where
  "AddString b s = AddSubstring b s (int (length s))"

fun padding_loop :: "StringBuilder \<Rightarrow> char \<Rightarrow> nat \<Rightarrow> StringBuilder option" where
  "padding_loop b c 0 = Some b"
| "padding_loop b c (Suc n) = do { b' \<leftarrow> AddCharacter b c; padding_loop b' c n }"

definition AddPadding :: "StringBuilder \<Rightarrow> char \<Rightarrow> int \<Rightarrow> StringBuilder option" where
  "AddPadding b c n = padding_loop b c (nat n)"

definition RemoveCharacters :: "StringBuilder \<Rightarrow> nat \<Rightarrow> nat \<Rightarrow> StringBuilder option" where
  "RemoveCharacters b start end' =
     (if sb_position b < int end' \<or> int (length (sb_buffer b)) < sb_position b \<or> end' < start then None
      else let n = nat (sb_position b) - end' in
        Some (b\<lparr>sb_buffer := take start (sb_buffer b) @ take n (drop end' (sb_buffer b)) @ drop (start + n) (sb_buffer b),
                sb_position := sb_position b - int (end' - start)\<rparr>))"

definition Finalize :: "StringBuilder \<Rightarrow> StringBuilder option" where
  "Finalize b =
     (if sb_position b < 0 then None
      else do { buffer \<leftarrow> bput (sb_buffer b) (nat (sb_position b)) (CHR 0x00); Some (b\<lparr>sb_buffer := buffer, sb_position := - 1\<rparr>) })"

section \<open>Converter\<close>

abbreviation (input) EMIT_POSITIVE_EXPONENT_SIGN :: int where "EMIT_POSITIVE_EXPONENT_SIGN \<equiv> 1"
abbreviation (input) EMIT_TRAILING_DECIMAL_POINT :: int where "EMIT_TRAILING_DECIMAL_POINT \<equiv> 2"
abbreviation (input) EMIT_TRAILING_ZERO_AFTER_POINT :: int where "EMIT_TRAILING_ZERO_AFTER_POINT \<equiv> 4"
abbreviation (input) UNIQUE_ZERO :: int where "UNIQUE_ZERO \<equiv> 8"
abbreviation (input) kMaxFixedDigitsBeforePoint :: int where "kMaxFixedDigitsBeforePoint \<equiv> 60"
abbreviation (input) kMaxFixedDigitsAfterPoint :: int where "kMaxFixedDigitsAfterPoint \<equiv> 60"
abbreviation (input) kMaxExponentialDigits :: int where "kMaxExponentialDigits \<equiv> 120"
abbreviation (input) kMinPrecisionDigits :: int where "kMinPrecisionDigits \<equiv> 1"
abbreviation (input) kMaxPrecisionDigits :: int where "kMaxPrecisionDigits \<equiv> 120"
abbreviation (input) kBase10MaximalLength :: int where "kBase10MaximalLength \<equiv> 17"

datatype DtoaMode = SHORTEST | SHORTEST_SINGLE | FIXED | PRECISION

record DoubleToStringConverter =
  flags :: int
  infinity_symbol :: "string option"
  nan_symbol :: "string option"
  exponent_character :: char
  decimal_in_shortest_low :: int
  decimal_in_shortest_high :: int
  max_leading_padding_zeroes_in_precision_mode :: int
  max_trailing_padding_zeroes_in_precision_mode :: int

definition EcmaScriptConverter :: DoubleToStringConverter where
  "EcmaScriptConverter =
     \<lparr>flags = UNIQUE_ZERO OR EMIT_POSITIVE_EXPONENT_SIGN, infinity_symbol = Some ''Infinity'', nan_symbol = Some ''NaN'',
      exponent_character = CHR ''e'', decimal_in_shortest_low = - 6, decimal_in_shortest_high = 21,
      max_leading_padding_zeroes_in_precision_mode = 6, max_trailing_padding_zeroes_in_precision_mode = 0\<rparr>"

definition has_flag :: "DoubleToStringConverter \<Rightarrow> int \<Rightarrow> bool" where
  "has_flag this flag \<longleftrightarrow> flags this AND flag \<noteq> 0"

text \<open>Comparisons of doubles that are not NaN, on the bit patterns.\<close>

definition double_key :: "64 word \<Rightarrow> int" where
  "double_key v = (if v AND dSignMask = 0 then uint v else - uint (v AND NOT dSignMask))"

definition HandleSpecialValues :: "DoubleToStringConverter \<Rightarrow> 64 word \<Rightarrow> StringBuilder \<Rightarrow> (bool \<times> StringBuilder) option" where
  "HandleSpecialValues this value b =
     (if Double_IsInfinite value then
        (case infinity_symbol this of
           None \<Rightarrow> Some (False, b)
         | Some symbol \<Rightarrow> do { b1 \<leftarrow> (if double_key value < 0 then AddCharacter b (CHR ''-'') else Some b);
                               b2 \<leftarrow> AddString b1 symbol; Some (True, b2) })
      else if Double_IsNan value then
        (case nan_symbol this of
           None \<Rightarrow> Some (False, b)
         | Some symbol \<Rightarrow> do { b1 \<leftarrow> AddString b symbol; Some (True, b1) })
      else Some (False, b))"

fun exponent_loop :: "nat \<Rightarrow> string \<Rightarrow> nat \<Rightarrow> (string \<times> nat) option" where
  "exponent_loop expnt buffer first_char_pos =
     (if expnt > 0 then
        if first_char_pos = 0 then None
        else do { buffer' \<leftarrow> bput buffer (first_char_pos - 1) (char_of (expnt mod 10 + 48));
                  exponent_loop (expnt div 10) buffer' (first_char_pos - 1) }
      else Some (buffer, first_char_pos))"

declare exponent_loop.simps [simp del]

record Uninit =
  u_chars :: "nat \<Rightarrow> char"
  u_length :: nat
  u_point :: int

definition uninit_array :: "Uninit \<Rightarrow> int \<Rightarrow> string" where
  "uninit_array u n = map (u_chars u) [0..<nat n]"

definition CreateExponentialRepresentation ::
  "DoubleToStringConverter \<Rightarrow> string \<Rightarrow> int \<Rightarrow> int \<Rightarrow> Uninit \<Rightarrow> StringBuilder \<Rightarrow> StringBuilder option" where
  "CreateExponentialRepresentation this decimal_digits len expnt0 u b =
     do { c \<leftarrow> bget decimal_digits 0;
          b1 \<leftarrow> AddCharacter b c;
          b2 \<leftarrow> (if len \<noteq> 1 then do { b' \<leftarrow> AddCharacter b1 (CHR ''.''); AddSubstring b' (drop 1 decimal_digits) (len - 1) } else Some b1);
          b3 \<leftarrow> AddCharacter b2 (exponent_character this);
          (b4, expnt) \<leftarrow> (if expnt0 < 0 then do { b' \<leftarrow> AddCharacter b3 (CHR ''-''); Some (b', - expnt0) }
                          else if has_flag this EMIT_POSITIVE_EXPONENT_SIGN then do { b' \<leftarrow> AddCharacter b3 (CHR ''+''); Some (b', expnt0) }
                          else Some (b3, expnt0));
          if expnt = 0 then AddCharacter b4 (CHR ''0'')
          else do { buffer \<leftarrow> bput (uninit_array u 6) 5 (CHR 0x00);
                    (buffer', first_char_pos) \<leftarrow> exponent_loop (nat expnt) buffer 5;
                    AddSubstring b4 (drop first_char_pos buffer') (5 - int first_char_pos) } }"

definition CreateDecimalRepresentation ::
  "DoubleToStringConverter \<Rightarrow> string \<Rightarrow> int \<Rightarrow> int \<Rightarrow> int \<Rightarrow> StringBuilder \<Rightarrow> StringBuilder option" where
  "CreateDecimalRepresentation this decimal_digits len decimal_point digits_after_point b =
     do { b1 \<leftarrow>
            (if decimal_point \<le> 0 then
               do { b' \<leftarrow> AddCharacter b (CHR ''0'');
                    if digits_after_point > 0 then
                      do { b1 \<leftarrow> AddCharacter b' (CHR ''.'');
                           b2 \<leftarrow> AddPadding b1 (CHR ''0'') (- decimal_point);
                           b3 \<leftarrow> AddSubstring b2 decimal_digits len;
                           AddPadding b3 (CHR ''0'') (digits_after_point - (- decimal_point) - len) }
                    else Some b' }
             else if decimal_point \<ge> len then
               do { b1 \<leftarrow> AddSubstring b decimal_digits len;
                    b2 \<leftarrow> AddPadding b1 (CHR ''0'') (decimal_point - len);
                    if digits_after_point > 0 then do { b3 \<leftarrow> AddCharacter b2 (CHR ''.''); AddPadding b3 (CHR ''0'') digits_after_point }
                    else Some b2 }
             else
               do { b1 \<leftarrow> AddSubstring b decimal_digits decimal_point;
                    b2 \<leftarrow> AddCharacter b1 (CHR ''.'');
                    b3 \<leftarrow> AddSubstring b2 (drop (nat decimal_point) decimal_digits) (len - decimal_point);
                    AddPadding b3 (CHR ''0'') (digits_after_point - (len - decimal_point)) });
          if digits_after_point = 0 then
            do { b2 \<leftarrow> (if has_flag this EMIT_TRAILING_DECIMAL_POINT then AddCharacter b1 (CHR ''.'') else Some b1);
                 if has_flag this EMIT_TRAILING_ZERO_AFTER_POINT then AddCharacter b2 (CHR ''0'') else Some b2 }
          else Some b1 }"

section \<open>Dispatch\<close>

definition DtoaToBignumDtoaMode :: "DtoaMode \<Rightarrow> BignumDtoaMode" where
  "DtoaToBignumDtoaMode dtoa_mode =
     (case dtoa_mode of SHORTEST \<Rightarrow> BIGNUM_DTOA_SHORTEST | SHORTEST_SINGLE \<Rightarrow> BIGNUM_DTOA_SHORTEST_SINGLE
      | FIXED \<Rightarrow> BIGNUM_DTOA_FIXED | PRECISION \<Rightarrow> BIGNUM_DTOA_PRECISION)"

text \<open>The result is the sign, the buffer, the length and the point; \<open>len0\<close> and \<open>point0\<close> are what the caller's
  variables hold before.\<close>

definition DoubleToAscii :: "64 word \<Rightarrow> DtoaMode \<Rightarrow> int \<Rightarrow> string \<Rightarrow> nat \<Rightarrow> int \<Rightarrow> (bool \<times> string \<times> nat \<times> int) option" where
  "DoubleToAscii v0 mode requested_digits buffer len0 point0 =
     (let sign = (Double_Sign v0 < 0);
          v = (if sign then v0 XOR dSignMask else v0)
      in if mode = PRECISION \<and> requested_digits = 0 then
           do { buffer1 \<leftarrow> bput buffer 0 (CHR 0x00); Some (sign, buffer1, 0, point0) }
         else if double_key v = 0 then
           do { buffer1 \<leftarrow> bput buffer 0 (CHR ''0''); buffer2 \<leftarrow> bput buffer1 1 (CHR 0x00); Some (sign, buffer2, 1, 1) }
         else do {
           (fast_worked, buffer1, len1, point1) \<leftarrow>
             (case mode of
                SHORTEST \<Rightarrow> FastDtoa v FAST_DTOA_SHORTEST 0 buffer point0
              | SHORTEST_SINGLE \<Rightarrow> FastDtoa v FAST_DTOA_SHORTEST_SINGLE 0 buffer point0
              | FIXED \<Rightarrow> FastFixedDtoa v requested_digits buffer len0 point0
              | PRECISION \<Rightarrow> FastDtoa v FAST_DTOA_PRECISION requested_digits buffer point0);
           if fast_worked then Some (sign, buffer1, len1, point1)
           else do {
             (buffer2, len2, point2) \<leftarrow> BignumDtoa v (DtoaToBignumDtoaMode mode) requested_digits buffer1;
             buffer3 \<leftarrow> bput buffer2 len2 (CHR 0x00);
             Some (sign, buffer3, len2, point2) } })"

definition add_sign :: "DoubleToStringConverter \<Rightarrow> bool \<Rightarrow> 64 word \<Rightarrow> StringBuilder \<Rightarrow> StringBuilder option" where
  "add_sign this sign value b =
     (if sign \<and> (double_key value \<noteq> 0 \<or> \<not> has_flag this UNIQUE_ZERO) then AddCharacter b (CHR ''-'') else Some b)"

section \<open>The conversions to text\<close>

definition ToShortestIeeeNumber ::
  "DoubleToStringConverter \<Rightarrow> 64 word \<Rightarrow> DtoaMode \<Rightarrow> Uninit \<Rightarrow> StringBuilder \<Rightarrow> (bool \<times> StringBuilder) option" where
  "ToShortestIeeeNumber this value mode u b =
     (if Double_IsSpecial value then HandleSpecialValues this value b
      else do {
        (sign, decimal_rep, decimal_rep_length, decimal_point) \<leftarrow>
          DoubleToAscii value mode 0 (uninit_array u (kBase10MaximalLength + 1)) (u_length u) (u_point u);
        b1 \<leftarrow> add_sign this sign value b;
        let expnt = decimal_point - 1;
        b2 \<leftarrow> (if decimal_in_shortest_low this \<le> expnt \<and> expnt < decimal_in_shortest_high this
               then CreateDecimalRepresentation this decimal_rep (int decimal_rep_length) decimal_point
                      (max 0 (int decimal_rep_length - decimal_point)) b1
               else CreateExponentialRepresentation this decimal_rep (int decimal_rep_length) expnt u b1);
        Some (True, b2) })"

definition ToShortest :: "DoubleToStringConverter \<Rightarrow> 64 word \<Rightarrow> Uninit \<Rightarrow> StringBuilder \<Rightarrow> (bool \<times> StringBuilder) option" where
  "ToShortest this value u b = ToShortestIeeeNumber this value SHORTEST u b"

definition ToShortestSingle :: "DoubleToStringConverter \<Rightarrow> 64 word \<Rightarrow> Uninit \<Rightarrow> StringBuilder \<Rightarrow> (bool \<times> StringBuilder) option" where
  "ToShortestSingle this value u b = ToShortestIeeeNumber this value SHORTEST_SINGLE u b"

abbreviation (input) kFirstNonFixed :: "64 word" where "kFirstNonFixed \<equiv> 0x4C63E9E4E4C2F344"

definition ToFixed :: "DoubleToStringConverter \<Rightarrow> 64 word \<Rightarrow> int \<Rightarrow> Uninit \<Rightarrow> StringBuilder \<Rightarrow> (bool \<times> StringBuilder) option" where
  "ToFixed this value requested_digits u b =
     (if Double_IsSpecial value then HandleSpecialValues this value b
      else if requested_digits > kMaxFixedDigitsAfterPoint then Some (False, b)
      else if double_key value \<ge> double_key kFirstNonFixed \<or> double_key value \<le> - double_key kFirstNonFixed then Some (False, b)
      else do {
        (sign, decimal_rep, decimal_rep_length, decimal_point) \<leftarrow>
          DoubleToAscii value FIXED requested_digits
            (uninit_array u (kMaxFixedDigitsBeforePoint + kMaxFixedDigitsAfterPoint + 1)) (u_length u) (u_point u);
        b1 \<leftarrow> add_sign this sign value b;
        b2 \<leftarrow> CreateDecimalRepresentation this decimal_rep (int decimal_rep_length) decimal_point requested_digits b1;
        Some (True, b2) })"

text \<open>The loops that fill the digits with zeros up to a given length.\<close>

fun fill_zeros :: "string \<Rightarrow> nat \<Rightarrow> nat \<Rightarrow> string option" where
  "fill_zeros buffer i 0 = Some buffer"
| "fill_zeros buffer i (Suc n) = do { buffer' \<leftarrow> bput buffer i (CHR ''0''); fill_zeros buffer' (i + 1) n }"

definition ToExponential :: "DoubleToStringConverter \<Rightarrow> 64 word \<Rightarrow> int \<Rightarrow> Uninit \<Rightarrow> StringBuilder \<Rightarrow> (bool \<times> StringBuilder) option" where
  "ToExponential this value requested_digits u b =
     (if Double_IsSpecial value then HandleSpecialValues this value b
      else if requested_digits < - 1 then Some (False, b)
      else if requested_digits > kMaxExponentialDigits then Some (False, b)
      else do {
        let rep = uninit_array u (kMaxExponentialDigits + 2);
        (sign, decimal_rep, decimal_rep_length, decimal_point) \<leftarrow>
          (if requested_digits = - 1 then
             do { (sign, rep1, len1, point1) \<leftarrow> DoubleToAscii value SHORTEST 0 rep (u_length u) (u_point u); Some (sign, rep1, int len1, point1) }
           else do { (sign, rep1, len1, point1) \<leftarrow> DoubleToAscii value PRECISION (requested_digits + 1) rep (u_length u) (u_point u);
                     rep2 \<leftarrow> fill_zeros rep1 len1 (nat (requested_digits + 1) - len1);
                     Some (sign, rep2, requested_digits + 1, point1) });
        b1 \<leftarrow> add_sign this sign value b;
        b2 \<leftarrow> CreateExponentialRepresentation this decimal_rep decimal_rep_length (decimal_point - 1) u b1;
        Some (True, b2) })"

definition ToPrecision :: "DoubleToStringConverter \<Rightarrow> 64 word \<Rightarrow> int \<Rightarrow> Uninit \<Rightarrow> StringBuilder \<Rightarrow> (bool \<times> StringBuilder) option" where
  "ToPrecision this value precision u b =
     (if Double_IsSpecial value then HandleSpecialValues this value b
      else if precision < kMinPrecisionDigits \<or> precision > kMaxPrecisionDigits then Some (False, b)
      else do {
        (sign, decimal_rep, decimal_rep_length, decimal_point) \<leftarrow>
          DoubleToAscii value PRECISION precision (uninit_array u (kMaxPrecisionDigits + 1)) (u_length u) (u_point u);
        b1 \<leftarrow> add_sign this sign value b;
        let expnt = decimal_point - 1;
        let extra_zero = (if has_flag this EMIT_TRAILING_ZERO_AFTER_POINT then 1 else 0);
        b2 \<leftarrow> (if - decimal_point + 1 > max_leading_padding_zeroes_in_precision_mode this
                  \<or> decimal_point - precision + extra_zero > max_trailing_padding_zeroes_in_precision_mode this
               then do { rep \<leftarrow> fill_zeros decimal_rep decimal_rep_length (nat precision - decimal_rep_length);
                         CreateExponentialRepresentation this rep precision expnt u b1 }
               else CreateDecimalRepresentation this decimal_rep (int decimal_rep_length) decimal_point (max 0 (precision - decimal_point)) b1);
        Some (True, b2) })"

section \<open>Interface of WTF\<close>

definition numberToString :: "64 word \<Rightarrow> Uninit \<Rightarrow> string \<Rightarrow> string option" where
  "numberToString d u buffer =
     do { (_, builder) \<leftarrow> ToShortest EcmaScriptConverter d u (StringBuilder_new buffer);
          b \<leftarrow> Finalize builder; Some (sb_buffer b) }"

definition find_char :: "char \<Rightarrow> string \<Rightarrow> nat \<Rightarrow> nat \<Rightarrow> nat" where
  "find_char c buffer i len = i + length (takeWhile (\<lambda>x. x \<noteq> c) (take (len - i) (drop i buffer)))"

fun strip_loop_zeros :: "string \<Rightarrow> nat \<Rightarrow> nat \<Rightarrow> nat" where
  "strip_loop_zeros buffer low 0 = 0"
| "strip_loop_zeros buffer low (Suc n) = (if Suc n > low then if buffer ! n \<noteq> CHR ''0'' then Suc n else strip_loop_zeros buffer low n else Suc n)"

definition truncateTrailingZeros :: "StringBuilder \<Rightarrow> StringBuilder option" where
  "truncateTrailingZeros builder =
     (let buffer = sb_buffer builder;
          len = nat (sb_position builder);
          decimalPointPosition = find_char (CHR ''.'') buffer 0 len
      in if decimalPointPosition = len then Some builder
         else let pastMantissa = find_char (CHR ''e'') buffer (decimalPointPosition + 1) len;
                  truncatedLength = strip_loop_zeros buffer (decimalPointPosition + 1) pastMantissa
              in if truncatedLength = pastMantissa then Some builder
                 else RemoveCharacters builder
                        (if truncatedLength = decimalPointPosition + 1 then decimalPointPosition else truncatedLength) pastMantissa)"

definition numberToFixedPrecisionString :: "64 word \<Rightarrow> 32 word \<Rightarrow> Uninit \<Rightarrow> string \<Rightarrow> bool \<Rightarrow> string option" where
  "numberToFixedPrecisionString d significantFigures u buffer shouldTruncateTrailingZeros =
     do { (_, builder) \<leftarrow> ToPrecision EcmaScriptConverter d (sint significantFigures) u (StringBuilder_new buffer);
          builder' \<leftarrow> (if shouldTruncateTrailingZeros then truncateTrailingZeros builder else Some builder);
          b \<leftarrow> Finalize builder'; Some (sb_buffer b) }"

definition numberToFixedWidthString :: "64 word \<Rightarrow> 32 word \<Rightarrow> Uninit \<Rightarrow> string \<Rightarrow> string option" where
  "numberToFixedWidthString d decimalPlaces u buffer =
     do { (_, builder) \<leftarrow> ToFixed EcmaScriptConverter d (sint decimalPlaces) u (StringBuilder_new buffer);
          b \<leftarrow> Finalize builder; Some (sb_buffer b) }"

end
