(* ===== verification/FixedDigits.thy ===== *)
theory FixedDigits
  imports FixedDtoa
begin

text \<open>
  The digit writers of \<open>fixed-dtoa.cc\<close>: 32-bit and 64-bit numbers as decimal text, rounding up,
  trimming of zeros, and the loop over the digits after the point as one locale for both widths.
\<close>

section \<open>Digits of a number\<close>

lemma digit32_char_of_nat: "q \<le> 10 \<Longrightarrow> digit32_char (of_nat q) = digit_char (of_nat q)"
proof -
  assume q: "q \<le> 10"
  then have "unat (of_nat q :: 32 word) = q" by (simp add: unsigned_of_nat take_bit_nat_eq_self)
  then show ?thesis unfolding digit32_char_def digit_char_of_nat [OF q] by (simp only:)
qed

definition all_decimal :: "string \<Rightarrow> bool" where
  "all_decimal s \<longleftrightarrow> (\<forall>c\<in>set s. is_decimal c)"

lemma all_decimal_simps [simp]:
  "all_decimal []" "all_decimal (c # s) \<longleftrightarrow> is_decimal c \<and> all_decimal s" "all_decimal (s @ t) \<longleftrightarrow> all_decimal s \<and> all_decimal t"
  "all_decimal (rev s) = all_decimal s"
  by (auto simp: all_decimal_def)

lemma decimal_value_Nil [simp]: "decimal_value [] = 0"
  by (simp add: decimal_value_def)

lemma decimal_value_append: "decimal_value (s @ t) = decimal_value s * 10 ^ length t + decimal_value t"
  by (induction t rule: rev_induct) (simp_all add: decimal_value_snoc algebra_simps flip: append_assoc)

lemma last_digit:
  "is_decimal (digit_char (of_nat (n mod 10)))" "dec_digit (digit_char (of_nat (n mod 10))) = n mod 10"
proof -
  have "n mod 10 \<le> 10" "n mod 10 \<le> 9" using mod_less_divisor [of 10 n] by linarith+
  then show "is_decimal (digit_char (of_nat (n mod 10)))" "dec_digit (digit_char (of_nat (n mod 10))) = n mod 10"
    using digit_char_value by simp_all
qed

lemma last_digit32: "digit32_char (w mod 10) = digit_char (of_nat (unat w mod 10))"
proof -
  have "unat w mod 10 \<le> 10" using mod_less_divisor [of 10 "unat w"] by linarith
  moreover have "w mod 10 = of_nat (unat w mod 10)" by (simp add: word_arith_nat_mod)
  ultimately show ?thesis by (metis digit32_char_of_nat)
qed

primrec fixed_digits :: "nat \<Rightarrow> nat \<Rightarrow> string" where
  "fixed_digits 0 n = []"
| "fixed_digits (Suc r) n = fixed_digits r (n div 10) @ [digit_char (of_nat (n mod 10))]"

lemma fixed_digits_all: "length (fixed_digits r n) = r \<and> all_decimal (fixed_digits r n) \<and> decimal_value (fixed_digits r n) = n mod 10 ^ r"
proof (induction r arbitrary: n)
  case (Suc r)
  have "(n div 10) mod 10 ^ r * 10 + n mod 10 = n mod 10 ^ Suc r" by (simp add: mod_mult2_eq mult.commute)
  then show ?case using Suc last_digit by (simp add: decimal_value_snoc)
qed simp

lemmas fixed_digits_props = fixed_digits_all [THEN conjunct1] fixed_digits_all [THEN conjunct2, THEN conjunct1]
  fixed_digits_all [THEN conjunct2, THEN conjunct2]

lemma fixed_length_loop_correct:
  "r \<le> length rest \<Longrightarrow> fixed_length_loop w r (ds @ rest) (length ds) = Some (ds @ fixed_digits r (unat w) @ drop r rest)"
proof (induction r arbitrary: w rest)
  case (Suc r)
  let ?c = "digit_char (of_nat (unat w mod 10))"
  have "bput (ds @ rest) (length ds + r) ?c = Some (ds @ rest[r := ?c])" using Suc.prems by (simp add: bput_def list_update_append)
  moreover have "drop r (rest[r := ?c]) = ?c # drop (Suc r) rest" using Suc.prems by (simp add: Cons_nth_drop_Suc [symmetric])
  moreover have "unat (w div 10) = unat w div 10" by (simp add: unat_div)
  ultimately show ?case using Suc.IH [of "rest[r := ?c]" "w div 10"] Suc.prems by (simp add: last_digit32)
qed simp

section \<open>Numbers without leading zeros\<close>

fun decimal_text :: "nat \<Rightarrow> string" where
  "decimal_text n = (if n = 0 then [] else decimal_text (n div 10) @ [digit_char (of_nat (n mod 10))])"

declare decimal_text.simps [simp del]

lemma decimal_text_props: "all_decimal (decimal_text n)" "decimal_value (decimal_text n) = n"
proof (induction n rule: decimal_text.induct)
  case (1 n)
  show "all_decimal (decimal_text n)" using 1(1) last_digit(1) [of n] by (subst decimal_text.simps) simp
  show "decimal_value (decimal_text n) = n" using 1(2) last_digit(2) [of n] by (subst decimal_text.simps) (simp add: decimal_value_snoc)
qed

lemma decimal_text_length: "n < 10 ^ k \<Longrightarrow> length (decimal_text n) \<le> k"
proof (induction k arbitrary: n)
  case (Suc k)
  then have "n div 10 < 10 ^ k" by (intro less_mult_imp_div_less) (simp add: mult.commute)
  with Suc.IH show ?case by (subst decimal_text.simps) simp
qed (simp add: decimal_text.simps)

lemma reverse_digits_loop_correct:
  "length (decimal_text (unat w)) \<le> length rest \<Longrightarrow>
   reverse_digits_loop w (ds @ xs @ rest) (length ds) (length xs) =
     Some (ds @ xs @ rev (decimal_text (unat w)) @ drop (length (decimal_text (unat w))) rest, length xs + length (decimal_text (unat w)))"
proof (induction "unat w" arbitrary: w xs rest rule: less_induct)
  case less
  show ?case
  proof (cases "w = 0")
    case True
    then show ?thesis by (simp add: decimal_text.simps reverse_digits_loop.simps)
  next
    case False
    let ?c = "digit_char (of_nat (unat w mod 10))" and ?t = "decimal_text (unat w div 10)"
    have t: "decimal_text (unat w) = ?t @ [?c]" using False by (subst decimal_text.simps) (simp add: unat_eq_zero)
    have u: "unat (w div 10) = unat w div 10" by (simp add: unat_div)
    have lt: "unat (w div 10) < unat w" using False u by (simp add: unat_gt_0)
    obtain z rest' where rest: "rest = z # rest'" using less.prems t by (cases rest) auto
    have put: "bput (ds @ xs @ rest) (length ds + length xs) ?c = Some (ds @ (xs @ [?c]) @ rest')"
      by (simp add: bput_def rest list_update_append)
    have "reverse_digits_loop (w div 10) (ds @ (xs @ [?c]) @ rest') (length ds) (length (xs @ [?c])) =
        Some (ds @ (xs @ [?c]) @ rev ?t @ drop (length ?t) rest', length (xs @ [?c]) + length ?t)"
      using less.hyps [OF lt, of rest' "xs @ [?c]"] less.prems rest by (simp add: u t)
    then show ?thesis using False put by (subst reverse_digits_loop.simps) (simp add: last_digit32 t rest)
  qed
qed

lemma exchange_loop_correct:
  "exchange_loop (ds @ xs @ rest) (int (length ds)) (int (length ds) + int (length xs) - 1) = Some (ds @ rev xs @ rest)"
proof (induction "length xs" arbitrary: ds xs rest rule: less_induct)
  case less
  consider "length xs \<le> 1" | a ys b where "xs = a # ys @ [b]"
    by (cases xs) (auto, metis append_butlast_last_id)
  then show ?case
  proof cases
    case 1
    then have "rev xs = xs" by (cases xs) auto
    then show ?thesis using 1 by (subst exchange_loop.simps) simp
  next
    case 2
    let ?i = "int (length ds)" and ?j = "int (length ds) + int (length xs) - 1"
    have j: "nat ?j = length ds + length ys + 1" "?i < ?j" using 2 by simp_all
    have "exchange_loop ((ds @ [b]) @ ys @ a # rest) (int (length (ds @ [b]))) (int (length (ds @ [b])) + int (length ys) - 1) = Some ((ds @ [b]) @ rev ys @ a # rest)"
      by (rule less.hyps) (simp add: 2)
    moreover have "(ds @ xs @ rest)[length ds := b, length ds + length ys + 1 := a] = (ds @ [b]) @ ys @ a # rest"
      by (simp add: 2 list_update_append)
    ultimately show ?thesis using j 2
      by (subst exchange_loop.simps) (simp add: bget_def bput_def nth_append algebra_simps)
  qed
qed

text \<open>A writer appends a text to the digits in the buffer.\<close>

definition writes :: "(string \<Rightarrow> nat \<Rightarrow> (string \<times> nat) option) \<Rightarrow> string \<Rightarrow> bool" where
  "writes f t \<longleftrightarrow> (\<forall>ds rest. length t \<le> length rest \<longrightarrow>
     f (ds @ rest) (length ds) = Some ((ds @ t) @ drop (length t) rest, length (ds @ t)))"

lemma writesD: "writes f t \<Longrightarrow> length t \<le> length rest \<Longrightarrow> f (ds @ rest) (length ds) = Some ((ds @ t) @ drop (length t) rest, length (ds @ t))"
  by (simp add: writes_def)

lemma writes_bind:
  assumes "writes f s" "writes g t"
  shows "writes (\<lambda>b n. do { (b1, n1) \<leftarrow> f b n; g b1 n1 }) (s @ t)"
  unfolding writes_def
proof (intro allI impI)
  fix ds rest assume len: "length (s @ t) \<le> length (rest :: string)"
  have "f (ds @ rest) (length ds) = Some ((ds @ s) @ drop (length s) rest, length (ds @ s))" using len by (intro writesD [OF assms(1)]) simp
  moreover have "g ((ds @ s) @ drop (length s) rest) (length (ds @ s)) = Some (((ds @ s) @ t) @ drop (length t) (drop (length s) rest), length ((ds @ s) @ t))"
    using len by (intro writesD [OF assms(2)]) simp
  ultimately show "do { (b1, n1) \<leftarrow> f (ds @ rest) (length ds); g b1 n1 } = Some ((ds @ s @ t) @ drop (length (s @ t)) rest, length (ds @ s @ t))"
    by (simp add: add.commute)
qed

lemma FillDigits32_writes: "writes (FillDigits32 w) (decimal_text (unat w))"
  unfolding writes_def FillDigits32_def
  using reverse_digits_loop_correct [of w _ _ "[]"] exchange_loop_correct [of _ "rev (decimal_text (unat w))"] by simp

lemma FillDigits32FixedLength_writes: "writes (FillDigits32FixedLength w r) (fixed_digits r (unat w))"
  unfolding writes_def FillDigits32FixedLength_def by (simp add: fixed_length_loop_correct fixed_digits_props)

lemma parts_of_7:
  fixes w :: "64 word"
  shows "unat (ucast (w mod kTen7) :: 32 word) = unat w mod 10 ^ 7"
    "unat (ucast (w div kTen7 mod kTen7) :: 32 word) = unat w div 10 ^ 7 mod 10 ^ 7"
    "unat (ucast (w div kTen7 div kTen7) :: 32 word) = unat w div 10 ^ 14"
proof -
  have cast: "unat x < 2 ^ 32 \<Longrightarrow> unat (ucast x :: 32 word) = unat x" for x :: "64 word"
    by (simp add: unsigned_ucast_eq take_bit_nat_eq_self)
  have u: "unat (w mod kTen7) = unat w mod 10 ^ 7" "unat (w div kTen7 mod kTen7) = unat w div 10 ^ 7 mod 10 ^ 7"
    "unat (w div kTen7 div kTen7) = unat w div 10 ^ 14"
    by (simp_all add: unat_mod unat_div div_mult2_eq [symmetric])
  have "x mod 10 ^ 7 < 2 ^ 32" for x :: nat by (rule less_trans [OF mod_less_divisor]) simp_all
  then have "unat w mod 10 ^ 7 < 2 ^ 32" "unat w div 10 ^ 7 mod 10 ^ 7 < 2 ^ 32" by blast+
  moreover have "unat w div 10 ^ 14 < 2 ^ 32" using unat64_less [of w] by (intro less_mult_imp_div_less) simp
  ultimately show "unat (ucast (w mod kTen7) :: 32 word) = unat w mod 10 ^ 7"
    "unat (ucast (w div kTen7 mod kTen7) :: 32 word) = unat w div 10 ^ 7 mod 10 ^ 7"
    "unat (ucast (w div kTen7 div kTen7) :: 32 word) = unat w div 10 ^ 14"
    using cast u by metis+
qed

lemma parts_sum: "n div 10 ^ 14 * 10 ^ 14 + n div 10 ^ 7 mod 10 ^ 7 * 10 ^ 7 + n mod 10 ^ 7 = (n :: nat)"
proof -
  have "n div 10 ^ 7 div 10 ^ 7 = n div 10 ^ 14" by (simp add: div_mult2_eq [symmetric])
  then have "n div 10 ^ 14 * 10 ^ 7 + n div 10 ^ 7 mod 10 ^ 7 = n div 10 ^ 7" using div_mult_mod_eq [of "n div 10 ^ 7" "10 ^ 7"] by metis
  then have "(n div 10 ^ 14 * 10 ^ 7 + n div 10 ^ 7 mod 10 ^ 7) * 10 ^ 7 + n mod 10 ^ 7 = n" using div_mult_mod_eq [of n "10 ^ 7"] by metis
  moreover have "(x * 10 ^ 7 + y) * 10 ^ 7 + z = x * 10 ^ 14 + y * 10 ^ 7 + (z :: nat)" for x y z by simp
  ultimately show ?thesis by metis
qed

lemma FillDigits64FixedLength_writes:
  assumes "unat w < 10 ^ 17"
  shows "\<exists>t. writes (FillDigits64FixedLength w) t \<and> all_decimal t \<and> decimal_value t = unat w \<and> length t = 17"
proof -
  let ?a = "fixed_digits 3 (unat w div 10 ^ 14)" and ?b = "fixed_digits 7 (unat w div 10 ^ 7 mod 10 ^ 7)" and ?c = "fixed_digits 7 (unat w mod 10 ^ 7)"
  have "writes (FillDigits64FixedLength w) (?a @ ?b @ ?c)"
    unfolding FillDigits64FixedLength_def Let_def
    using writes_bind [OF FillDigits32FixedLength_writes [of "ucast (w div kTen7 div kTen7)" 3]
        writes_bind [OF FillDigits32FixedLength_writes [of "ucast (w div kTen7 mod kTen7)" 7] FillDigits32FixedLength_writes [of "ucast (w mod kTen7)" 7]]]
    unfolding parts_of_7(2,3) unfolding parts_of_7(1) .
  moreover have "unat w div 10 ^ 14 < 10 ^ 3" using assms by (intro less_mult_imp_div_less) simp
  then have "decimal_value (?a @ ?b @ ?c) = unat w" using parts_sum [of "unat w"]
    by (simp add: decimal_value_append fixed_digits_props del: power_numeral)
  ultimately show ?thesis by (intro exI [of _ "?a @ ?b @ ?c"]) (simp add: fixed_digits_props)
qed

lemma FillDigits64_writes: "\<exists>t. writes (FillDigits64 w) t \<and> all_decimal t \<and> decimal_value t = unat w \<and> length t \<le> 20"
proof -
  let ?p0 = "unat w div 10 ^ 14" and ?p1 = "unat w div 10 ^ 7 mod 10 ^ 7" and ?p2 = "unat w mod 10 ^ 7"
  let ?b = "fixed_digits 7 ?p1" and ?c = "fixed_digits 7 ?p2"
  note w7 = FillDigits32FixedLength_writes [of "ucast (w div kTen7 mod kTen7)" 7] FillDigits32FixedLength_writes [of "ucast (w mod kTen7)" 7]
  have "?p0 < 10 ^ 6" using unat64_less [of w] by (intro less_mult_imp_div_less) simp
  then have len: "length (decimal_text ?p0) \<le> 6" "length (decimal_text ?p1) \<le> 7" "length (decimal_text ?p2) \<le> 7"
    by (intro decimal_text_length; simp)+
  have zero: "ucast x = (0 :: 32 word) \<longleftrightarrow> unat (ucast x :: 32 word) = 0" for x :: "64 word" by (simp add: unat_eq_zero)
  consider "?p0 \<noteq> 0" | "?p0 = 0" "?p1 \<noteq> 0" | "?p0 = 0" "?p1 = 0" by blast
  then show ?thesis
  proof cases
    case 1
    have "writes (FillDigits64 w) (decimal_text ?p0 @ ?b @ ?c)"
      using writes_bind [OF FillDigits32_writes [of "ucast (w div kTen7 div kTen7)"] writes_bind [OF w7]] 1
      unfolding FillDigits64_def Let_def zero parts_of_7(2,3) unfolding parts_of_7(1) by simp
    moreover have "decimal_value (decimal_text ?p0 @ ?b @ ?c) = unat w" using parts_sum [of "unat w"]
      by (simp add: decimal_value_append fixed_digits_props decimal_text_props del: power_numeral)
    ultimately show ?thesis using len by (intro exI [of _ "decimal_text ?p0 @ ?b @ ?c"]) (simp add: fixed_digits_props decimal_text_props)
  next
    case 2
    have "writes (FillDigits64 w) (decimal_text ?p1 @ ?c)"
      using writes_bind [OF FillDigits32_writes [of "ucast (w div kTen7 mod kTen7)"] w7(2)] 2
      unfolding FillDigits64_def Let_def zero parts_of_7(2,3) unfolding parts_of_7(1) by simp
    moreover have "decimal_value (decimal_text ?p1 @ ?c) = unat w" using parts_sum [of "unat w"] 2(1)
      by (simp add: decimal_value_append fixed_digits_props decimal_text_props del: power_numeral)
    ultimately show ?thesis using len by (intro exI [of _ "decimal_text ?p1 @ ?c"]) (simp add: fixed_digits_props decimal_text_props)
  next
    case 3
    have "writes (FillDigits64 w) (decimal_text ?p2)"
      using FillDigits32_writes [of "ucast (w mod kTen7)"] 3 unfolding FillDigits64_def Let_def zero parts_of_7(2,3) unfolding parts_of_7(1) by simp
    moreover have "?p2 = unat w" using parts_sum [of "unat w"] 3 by simp
    ultimately show ?thesis using len by (intro exI [of _ "decimal_text ?p2"]) (simp add: decimal_text_props)
  qed
qed

section \<open>Rounding up\<close>

lemma round_up_loop_correct:
  "carry_digits buf i = Some buf' \<Longrightarrow> \<exists>r. round_up_loop buf i = Some (r, buf') \<and> (r \<longrightarrow> i \<noteq> 0 \<and> buf' ! 0 = buf ! 0)"
proof (induction i arbitrary: buf)
  case (Suc i)
  show ?case
  proof (cases "bget buf (Suc i) = Some (CHR '':'')")
    case True
    then obtain b1 b2 where b: "bput buf (Suc i) (CHR ''0'') = Some b1" "increment_at b1 i = Some b2" "carry_digits b2 i = Some buf'"
      using Suc.prems by (auto split: bind_splits)
    then obtain r where r: "round_up_loop b2 i = Some (r, buf')" "r \<longrightarrow> i \<noteq> 0 \<and> buf' ! 0 = b2 ! 0" using Suc.IH by blast
    have "i \<noteq> 0 \<Longrightarrow> b2 ! 0 = buf ! 0" using b(1,2) by (auto simp: bput_def bget_def increment_at_def split: if_splits)
    then show ?thesis using True b r by auto
  next
    case False
    then show ?thesis using Suc.prems by (auto split: bind_splits if_splits)
  qed
qed (auto intro: exI [of _ False])

lemma RoundUp_correct:
  assumes ds: "all_decimal ds" and len: "ds = [] \<Longrightarrow> dp = 0" and rest: "1 \<le> length (ds @ rest)"
  shows "\<exists>ds' dp'. RoundUp (ds @ rest) (length ds) dp = Some (ds' @ drop (length ds') (ds @ rest), length ds', dp')
    \<and> all_decimal ds' \<and> length ds' = max 1 (length ds)
    \<and> real (decimal_value ds') * 10 powi (dp' - int (length ds')) = real (decimal_value ds + 1) * 10 powi (dp - int (length ds))"
proof (cases ds rule: rev_cases)
  case Nil
  then obtain z zs where "rest = z # zs" using rest by (cases rest) auto
  then show ?thesis using Nil len
    by (intro exI [of _ "''1''"] exI [of _ 1]) (simp add: RoundUp_def bput_def is_decimal_def decimal_value_Cons dec_digit_def)
next
  case (snoc as a)
  have a: "dec_digit a \<le> 9" "a = digit_char (of_nat (dec_digit a))" "all_decimal as" using decimal_char [of a] ds snoc by auto
  let ?q = "dec_digit a + 1"
  have inc: "increment_at (ds @ rest) (length as) = Some (as @ digit_char (of_nat ?q) # rest)"
    using succ_digit_char [OF a(1)] a(2) snoc by (simp add: increment_at_def bget_def bput_def nth_append list_update_append)
  obtain b t where bt: "carry_digits (as @ digit_char (of_nat ?q) # rest) (length as) = Some (b # t @ rest)" "length t = length as"
      "\<forall>c\<in>set t. is_decimal c" "decimal_value (b # t) = decimal_value (as @ [digit_char (of_nat ?q)])"
      "is_decimal b \<or> b = CHR '':'' \<and> t = replicate (length as) (CHR ''0'')"
    using carry_digits_correct [of as ?q rest] a by (auto simp: all_decimal_def)
  have val: "decimal_value (b # t) = decimal_value ds + 1"
    using bt(4) digit_char_value(1) [of ?q] a(1) snoc by (simp add: decimal_value_snoc)
  obtain r where r: "round_up_loop (as @ digit_char (of_nat ?q) # rest) (length as) = Some (r, b # t @ rest)"
      "r \<longrightarrow> as \<noteq> [] \<and> b = hd as" using round_up_loop_correct [OF bt(1)] by (auto simp: nth_append hd_conv_nth split: if_splits)
  have "r \<Longrightarrow> b \<noteq> CHR '':''" using r(2) a(3) by (cases as) (auto simp: is_decimal_def)
  then have run: "RoundUp (ds @ rest) (length ds) dp =
      (if b = CHR '':'' then Some (CHR ''1'' # t @ rest, length ds, dp + 1) else Some (b # t @ rest, length ds, dp))"
    using inc r(1) snoc by (auto simp: RoundUp_def bget_def bput_def)
  have dr: "drop (length ds) (ds @ rest) = rest" "length ds = Suc (length t)" using bt(2) snoc by simp_all
  show ?thesis
  proof (cases "b = CHR '':''")
    case True
    then have t: "t = replicate (length as) (CHR ''0'')" using bt(5) by (auto simp: is_decimal_def)
    have v: "decimal_value (CHR ''1'' # t) = 10 ^ length as" "decimal_value ds + 1 = 10 * 10 ^ length as"
      using val unfolding t True by (simp_all add: decimal_value_Cons decimal_value_zeros dec_digit_def)
    have "real (10 ^ length as) * 10 powi (dp + 1 - int (length ds)) = real (10 * 10 ^ length as) * 10 powi (dp - int (length ds))"
      by (simp add: power_int_diff power_int_add)
    then show ?thesis using run True bt(3) dr unfolding v
      by (intro exI [of _ "CHR ''1'' # t"] exI [of _ "dp + 1"]) (auto simp: v all_decimal_def is_decimal_def)
  next
    case False
    then show ?thesis using run val bt(3,5) dr
      by (intro exI [of _ "b # t"] exI [of _ dp]) (auto simp: all_decimal_def)
  qed
qed

section \<open>Trimming zeros\<close>

lemma trailing_loop_correct:
  "\<exists>ds' z. trailing_loop (ds @ rest) (length ds) = Some (length ds') \<and> ds = ds' @ replicate z (CHR ''0'') \<and> (ds' \<noteq> [] \<longrightarrow> last ds' \<noteq> CHR ''0'')"
proof (induction ds arbitrary: rest rule: rev_induct)
  case (snoc c ds)
  show ?case
  proof (cases "c = CHR ''0''")
    case True
    obtain ds' z where "trailing_loop (ds @ c # rest) (length ds) = Some (length ds')" "ds = ds' @ replicate z (CHR ''0'')" "ds' \<noteq> [] \<longrightarrow> last ds' \<noteq> CHR ''0''"
      using snoc.IH by blast
    moreover have "trailing_loop ((ds @ [c]) @ rest) (length (ds @ [c])) = trailing_loop (ds @ c # rest) (length ds)"
      using True by (simp add: bget_def nth_append)
    ultimately show ?thesis using True by (intro exI [of _ ds'] exI [of _ "Suc z"]) (simp add: replicate_append_same)
  next
    case False
    then show ?thesis by (intro exI [of _ "ds @ [c]"] exI [of _ 0]) (simp add: bget_def nth_append)
  qed
qed simp

lemma leading_loop_correct:
  "\<exists>ds' z. leading_loop (xs @ ds @ rest) (length xs) (length (xs @ ds)) = Some (length xs + z) \<and> ds = replicate z (CHR ''0'') @ ds'
     \<and> (ds' \<noteq> [] \<longrightarrow> hd ds' \<noteq> CHR ''0'')"
proof (induction ds arbitrary: xs)
  case (Cons c ds)
  show ?case
  proof (cases "c = CHR ''0''")
    case True
    obtain ds' z where r: "leading_loop ((xs @ [c]) @ ds @ rest) (length (xs @ [c])) (length ((xs @ [c]) @ ds)) = Some (length (xs @ [c]) + z)"
        "ds = replicate z (CHR ''0'') @ ds'" "ds' \<noteq> [] \<longrightarrow> hd ds' \<noteq> CHR ''0''"
      using Cons.IH by blast
    then show ?thesis using True by (intro exI [of _ ds'] exI [of _ "Suc z"], subst leading_loop.simps) (simp add: bget_def nth_append)
  next
    case False
    then show ?thesis by (intro exI [of _ "c # ds"] exI [of _ 0], subst leading_loop.simps) (simp add: bget_def nth_append)
  qed
qed (simp add: leading_loop.simps)

lemma move_down_loop_correct:
  "length gap = z \<Longrightarrow> \<exists>gap'. move_down_loop (xs @ gap @ ds @ rest) z (length xs + z) (length ds) = Some (xs @ ds @ gap' @ rest) \<and> length gap' = z"
proof (induction ds arbitrary: xs gap)
  case (Cons c ds)
  show ?case
  proof (cases gap)
    case Nil
    then have "move_down_loop (xs @ gap @ (c # ds) @ rest) z (length xs + z) (length (c # ds)) = move_down_loop ((xs @ [c]) @ [] @ ds @ rest) z (length (xs @ [c]) + z) (length ds)"
      using Cons.prems by (simp add: bget_def bput_def nth_append list_update_append)
    then show ?thesis using Cons.IH [of "[]" "xs @ [c]"] Cons.prems Nil by simp
  next
    case (Cons g gap0)
    have i: "length xs + z = length (xs @ gap)" using Cons.prems by simp
    have "bget (xs @ gap @ (c # ds) @ rest) (length xs + z) = Some c" unfolding i by (simp add: bget_def nth_append)
    moreover have "bput (xs @ gap @ (c # ds) @ rest) (length xs + z - z) c = Some ((xs @ [c]) @ (gap0 @ [c]) @ ds @ rest)"
      using Cons by (simp add: bput_def list_update_append)
    ultimately have "move_down_loop (xs @ gap @ (c # ds) @ rest) z (length xs + z) (length (c # ds)) =
        move_down_loop ((xs @ [c]) @ (gap0 @ [c]) @ ds @ rest) z (length (xs @ [c]) + z) (length ds)" by simp
    then show ?thesis using Cons.IH [of "gap0 @ [c]" "xs @ [c]"] Cons.prems Cons by simp
  qed
qed simp

lemma TrimZeros_correct:
  assumes "all_decimal ds"
  shows "\<exists>ds' dp' buf. TrimZeros (ds @ rest) (length ds) dp = Some (ds' @ buf, length ds', dp') \<and> length (ds' @ buf) = length (ds @ rest) \<and> length ds' \<le> length ds
    \<and> all_decimal ds' \<and> (ds' \<noteq> [] \<longrightarrow> hd ds' \<noteq> CHR ''0'' \<and> last ds' \<noteq> CHR ''0'')
    \<and> real (decimal_value ds') * 10 powi (dp' - int (length ds')) = real (decimal_value ds) * 10 powi (dp - int (length ds))"
proof -
  obtain ds1 z where t: "trailing_loop (ds @ rest) (length ds) = Some (length ds1)" "ds = ds1 @ replicate z (CHR ''0'')" "ds1 \<noteq> [] \<longrightarrow> last ds1 \<noteq> CHR ''0''"
    using trailing_loop_correct by blast
  let ?rest = "replicate z (CHR ''0'') @ rest"
  obtain ds2 y where l: "leading_loop (ds1 @ ?rest) 0 (length ds1) = Some y" "ds1 = replicate y (CHR ''0'') @ ds2" "ds2 \<noteq> [] \<longrightarrow> hd ds2 \<noteq> CHR ''0''"
    using leading_loop_correct [of "[]" ds1 ?rest, unfolded append_Nil list.size(3) add_0] by blast
  obtain gap where g: "move_down_loop (replicate y (CHR ''0'') @ ds2 @ ?rest) y y (length ds2) = Some (ds2 @ gap @ ?rest)" "length gap = y"
    using move_down_loop_correct [of "replicate y (CHR ''0'')" y "[]" ds2 ?rest] by auto
  have "ds2 \<noteq> [] \<longrightarrow> last ds2 \<noteq> CHR ''0''" using t(3) l(2) by auto
  moreover have "all_decimal ds2" using assms t(2) l(2) by simp
  moreover have "decimal_value ds = decimal_value ds2 * 10 ^ z"
    unfolding t(2) l(2) by (simp add: decimal_value_append decimal_value_zeros)
  then have "real (decimal_value ds2) * 10 powi (dp - int y - int (length ds2)) = real (decimal_value ds) * 10 powi (dp - int (length ds))"
    unfolding t(2) l(2) by (simp add: power_int_diff power_int_add)
  moreover have "ds @ rest = replicate y (CHR ''0'') @ ds2 @ ?rest" by (simp add: t(2) l(2))
  moreover have "length ds2 \<le> length ds" by (simp add: t(2) l(2))
  ultimately show ?thesis using t(1) l g
    by (intro exI [of _ ds2], intro exI [of _ "dp - int y"], intro exI [of _ "gap @ ?rest"]) (cases "y = 0"; simp add: TrimZeros_def)
qed

end
