(* ===== verification/FixedFraction.thy ===== *)
theory FixedFraction
  imports FixedDigits
begin

text \<open>
  The digits after the point in \<open>fixed-dtoa.cc\<close>: the loops on 64-bit and 128-bit fixed-point numbers
  share a contract, the locale \<open>fraction_loop\<close>, and both are shown to keep it without overflow.
\<close>

section \<open>The contract of the loop\<close>

text \<open>The state stands for the natural number \<open>val s\<close> with the binary point at bit \<open>p\<close>. A round multiplies
  by five, moves the point down by one, and splits off the integer part as the next digit.\<close>

locale fraction_loop =
  fixes val :: "'s \<Rightarrow> nat" and inv :: "'s \<Rightarrow> nat \<Rightarrow> nat \<Rightarrow> bool"
    and loop :: "'s \<Rightarrow> int \<Rightarrow> string \<Rightarrow> nat \<Rightarrow> nat \<Rightarrow> ('s \<times> int \<times> string \<times> nat) option"
  assumes below: "inv s p n \<Longrightarrow> val s < 2 ^ p"
    and stop: "n = 0 \<or> val s = 0 \<Longrightarrow> loop s pt b len n = Some (s, pt, b, len)"
    and round: "inv s p (Suc n) \<Longrightarrow> val s \<noteq> 0 \<Longrightarrow>
      \<exists>s'. inv s' (p - 1) n \<and> val s' = 5 * val s mod 2 ^ (p - 1)
        \<and> (\<forall>b len. loop s (int p) b len (Suc n) =
             do { b' \<leftarrow> bput b len (digit_char (of_nat (5 * val s div 2 ^ (p - 1)))); loop s' (int (p - 1)) b' (len + 1) n })"
begin

lemma point_positive: "inv s p n \<Longrightarrow> val s \<noteq> 0 \<Longrightarrow> 1 \<le> p"
  using below [of s p n] by (cases p) auto

lemma next_digit: "inv s p n \<Longrightarrow> val s \<noteq> 0 \<Longrightarrow> 5 * val s div 2 ^ (p - 1) \<le> 9"
proof -
  assume i: "inv s p n" "val s \<noteq> 0"
  then obtain k where k: "p = Suc k" using point_positive by (metis Suc_le_D One_nat_def)
  then have "5 * val s < 10 * 2 ^ (p - 1)" using below [OF i(1)] by simp
  then have "5 * val s div 2 ^ (p - 1) < 10" by (rule less_mult_imp_div_less)
  then show ?thesis by simp
qed

lemma digits:
  "inv s p n \<Longrightarrow> n \<le> length rest \<Longrightarrow>
   \<exists>xs s'. loop s (int p) (ds @ rest) (length ds) n = Some (s', int (p - length xs), (ds @ xs) @ drop (length xs) rest, length (ds @ xs))
     \<and> all_decimal xs \<and> length xs \<le> n \<and> length xs \<le> p \<and> inv s' (p - length xs) (n - length xs)
     \<and> val s * 5 ^ length xs = decimal_value xs * 2 ^ (p - length xs) + val s' \<and> (length xs = n \<or> val s' = 0)"
proof (induction n arbitrary: s p ds rest)
  case 0
  then show ?case using stop [of 0] by (intro exI [of _ "[]"] exI [of _ s]) simp
next
  case (Suc n)
  show ?case
  proof (cases "val s = 0")
    case True
    then show ?thesis using stop [of "Suc n" s] Suc.prems(1) by (intro exI [of _ "[]"] exI [of _ s]) simp
  next
    case False
    let ?q = "5 * val s div 2 ^ (p - 1)"
    let ?c = "digit_char (of_nat ?q)"
    have q: "?q \<le> 9" "1 \<le> p" using next_digit point_positive Suc.prems(1) False by blast+
    obtain s1 where s1: "inv s1 (p - 1) n" "val s1 = 5 * val s mod 2 ^ (p - 1)"
        "\<And>b len. loop s (int p) b len (Suc n) = do { b' \<leftarrow> bput b len ?c; loop s1 (int (p - 1)) b' (len + 1) n }"
      using round [OF Suc.prems(1) False] by blast
    obtain z rest' where rest: "rest = z # rest'" using Suc.prems(2) by (cases rest) auto
    obtain xs s' where xs: "loop s1 (int (p - 1)) ((ds @ [?c]) @ rest') (length (ds @ [?c])) n
          = Some (s', int (p - 1 - length xs), ((ds @ [?c]) @ xs) @ drop (length xs) rest', length ((ds @ [?c]) @ xs))"
        "all_decimal xs" "length xs \<le> n" "length xs \<le> p - 1" "inv s' (p - 1 - length xs) (n - length xs)"
        "val s1 * 5 ^ length xs = decimal_value xs * 2 ^ (p - 1 - length xs) + val s'" "length xs = n \<or> val s' = 0"
      using Suc.IH [OF s1(1), of rest' "ds @ [?c]"] Suc.prems(2) rest by auto
    have "bput (ds @ rest) (length ds) ?c = Some ((ds @ [?c]) @ rest')" by (simp add: bput_def rest list_update_append)
    then have run: "loop s (int p) (ds @ rest) (length ds) (Suc n) = Some (s', int (p - length (?c # xs)), (ds @ ?c # xs) @ drop (length (?c # xs)) rest, length (ds @ ?c # xs))"
      using s1(3) xs(1) rest by simp
    have pw: "(2 :: nat) ^ (p - 1) = 2 ^ (p - 1 - length xs) * 2 ^ length xs" using xs(4) by (simp flip: power_add)
    have "5 * val s = ?q * 2 ^ (p - 1) + val s1" unfolding s1(2) by (rule div_mult_mod_eq [symmetric])
    then have "val s * 5 ^ length (?c # xs) = (?q * 2 ^ (p - 1) + val s1) * 5 ^ length xs" by (simp add: mult_ac)
    also have "\<dots> = ?q * (5 ^ length xs * 2 ^ length xs) * 2 ^ (p - 1 - length xs) + val s1 * 5 ^ length xs"
      unfolding pw by (simp add: algebra_simps)
    also have "(5 :: nat) ^ length xs * 2 ^ length xs = 10 ^ length xs" by (simp flip: power_mult_distrib)
    finally have "val s * 5 ^ length (?c # xs) = decimal_value (?c # xs) * 2 ^ (p - length (?c # xs)) + val s'"
      using xs(6) digit_char_value(1) [of ?q] q by (simp add: decimal_value_Cons algebra_simps)
    moreover have "is_decimal ?c" using digit_char_value(2) [of ?q] q by simp
    ultimately show ?thesis using run xs(2-5,7) q(2) by (intro exI [of _ "?c # xs"] exI [of _ s']) (simp; linarith)
  qed
qed

end

section \<open>Words\<close>

lemma unat_push: "unat w * 2 ^ k < 2 ^ 64 \<Longrightarrow> unat (push_bit k w) = unat w * 2 ^ k" for w :: "64 word"
  by (simp only: unsigned_push_bit_eq) (simp add: take_bit_nat_eq_self push_bit_eq_mult)

lemma unat_drop: "unat (drop_bit k w) = unat w div 2 ^ k" for w :: "64 word"
  by (simp only: unat_drop_bit_eq) (simp only: drop_bit_eq_div)

lemma unat_of_small: "q < 2 ^ 32 \<Longrightarrow> unat (of_nat q :: 32 word) = q" "q < 2 ^ 32 \<Longrightarrow> unat (of_nat q :: 64 word) = q"
  by (simp_all add: unsigned_of_nat take_bit_nat_eq_self)

lemma scast_digit: "q \<le> 9 \<Longrightarrow> scast (of_nat q :: 32 word) = (of_nat q :: 64 word)"
  by (auto simp: numeral_eq_Suc le_Suc_eq)

lemma ucast_digit: "unat w = q \<Longrightarrow> q \<le> 9 \<Longrightarrow> (ucast w :: 32 word) = of_nat q" for w :: "64 word"
  by (auto simp: unsigned_ucast_eq word_unat_eq_iff unsigned_of_nat)

text \<open>Splitting off the digit above bit \<open>k\<close>.\<close>

lemma split_digit:
  fixes w :: "64 word"
  assumes "k < 64" "unat w div 2 ^ k \<le> 9"
  shows "shr64 w (int k) = Some (drop_bit k w)" "(ucast (drop_bit k w) :: 32 word) = of_nat (unat w div 2 ^ k)"
    "shl64 (scast (ucast (drop_bit k w) :: 32 word)) (int k) = Some (push_bit k (of_nat (unat w div 2 ^ k)))"
    "unat (w - push_bit k (of_nat (unat w div 2 ^ k))) = unat w mod 2 ^ k"
proof -
  let ?q = "unat w div 2 ^ k"
  show "shr64 w (int k) = Some (drop_bit k w)" using assms(1) by (simp add: shr64_def)
  show u: "(ucast (drop_bit k w) :: 32 word) = of_nat ?q" using ucast_digit [OF unat_drop assms(2)] .
  show "shl64 (scast (ucast (drop_bit k w) :: 32 word)) (int k) = Some (push_bit k (of_nat ?q))"
    unfolding u scast_digit [OF assms(2)] using assms(1) by (simp add: shl64_def)
  have q: "unat (of_nat ?q :: 64 word) = ?q" using assms(2) by (intro unat_of_small) simp
  have le: "?q * 2 ^ k \<le> unat w" by simp
  then have b: "unat (push_bit k (of_nat ?q) :: 64 word) = ?q * 2 ^ k"
    using unat_push [of "of_nat ?q" k] unat64_less [of w] unfolding q by linarith
  then have "push_bit k (of_nat ?q) \<le> w" using le by (simp add: word_le_nat_alt)
  then show "unat (w - push_bit k (of_nat ?q)) = unat w mod 2 ^ k"
    using b by (simp add: unat_sub minus_div_mult_eq_mod)
qed

section \<open>The 64-bit loop\<close>

text \<open>Why the product by five does not overflow: with the point at most at bit 61 the number has 61 bits,
  and before that three multiplications have room.\<close>

definition inv64 :: "64 word \<Rightarrow> nat \<Rightarrow> nat \<Rightarrow> bool" where
  "inv64 f p n \<longleftrightarrow> unat f < 2 ^ p \<and> p \<le> 64 \<and> (61 < p \<longrightarrow> unat f * 5 ^ (p - 61) < 2 ^ 63)"

lemma headroom:
  assumes "(x :: nat) < 2 ^ p" "b < p \<Longrightarrow> x * 5 ^ (p - b) < 2 ^ (b + 2)"
  shows "5 * x < 2 ^ (b + 3)" "b < p - 1 \<Longrightarrow> y \<le> 5 * x \<Longrightarrow> y * 5 ^ (p - 1 - b) < 2 ^ (b + 2)"
proof -
  show "5 * x < 2 ^ (b + 3)"
  proof (cases "b < p")
    case True
    have "(5 :: nat) ^ 1 \<le> 5 ^ (p - b)" using True by (intro power_increasing) simp_all
    then have "x * 5 \<le> x * 5 ^ (p - b)" by simp
    then have "5 * x < 2 ^ (b + 2)" using assms(2) [OF True] by linarith
    then show ?thesis by (simp add: power_add)
  next
    case False
    then have "(2 :: nat) ^ p \<le> 2 ^ b" by (intro power_increasing) simp_all
    then have "x < 2 ^ b" using assms(1) by linarith
    then show ?thesis by (simp add: power_add)
  qed
  assume b: "b < p - 1" and y: "y \<le> 5 * x"
  have "y * 5 ^ (p - 1 - b) \<le> 5 * x * 5 ^ (p - 1 - b)" using y by (rule mult_le_mono1)
  also have "\<dots> = x * 5 ^ Suc (p - 1 - b)" by simp
  also have "Suc (p - 1 - b) = p - b" using b by simp
  finally have "y * 5 ^ (p - 1 - b) \<le> x * 5 ^ (p - b)" .
  moreover have "b < p" using b by simp
  ultimately show "y * 5 ^ (p - 1 - b) < 2 ^ (b + 2)" using assms(2) by linarith
qed

lemma digit_bound: "x < 2 ^ p \<Longrightarrow> 1 \<le> p \<Longrightarrow> 5 * x div 2 ^ (p - 1) \<le> (9 :: nat)"
proof -
  assume "x < 2 ^ p" "1 \<le> p"
  then have "5 * x < 10 * 2 ^ (p - 1)" by (cases p) simp_all
  then have "5 * x div 2 ^ (p - 1) < 10" by (rule less_mult_imp_div_less)
  then show ?thesis by simp
qed

lemma unat_times5: "5 * unat w < 2 ^ 64 \<Longrightarrow> unat (w * 5) = 5 * unat w" for w :: "64 word"
  by (simp add: unat_word_ariths mult.commute)

lemma round64:
  assumes i: "inv64 s p (Suc n)" and nz: "unat s \<noteq> 0"
  shows "\<exists>s'. inv64 s' (p - 1) n \<and> unat s' = 5 * unat s mod 2 ^ (p - 1)
        \<and> (\<forall>b len. fractionals64_loop s (int p) b len (Suc n) =
             do { b' \<leftarrow> bput b len (digit_char (of_nat (5 * unat s div 2 ^ (p - 1)))); fractionals64_loop s' (int (p - 1)) b' (len + 1) n })"
proof -
  let ?q = "5 * unat s div 2 ^ (p - 1)"
  have hd: "unat s < 2 ^ p" "61 < p \<Longrightarrow> unat s * 5 ^ (p - 61) < 2 ^ (61 + 2)" and p64: "p \<le> 64" using i by (simp_all add: inv64_def)
  have "p \<noteq> 0" using hd(1) nz by (cases p) simp_all
  then have p: "1 \<le> p" "p - 1 < 64" "int p - 1 = int (p - 1)" using p64 by simp_all
  note room = headroom [OF hd]
  have u: "unat (s * 5) = 5 * unat s" using room(1) by (intro unat_times5) simp
  have q: "?q \<le> 9" by (rule digit_bound [OF hd(1) p(1)])
  define s' where "s' = s * 5 - push_bit (p - 1) (of_nat ?q)"
  note sp = split_digit [OF p(2), of "s * 5", unfolded u, OF q]
  have v: "unat s' = 5 * unat s mod 2 ^ (p - 1)" unfolding s'_def by (rule sp(4))
  then have "unat s' \<le> 5 * unat s" "unat s' < 2 ^ (p - 1)" by simp_all
  then have "inv64 s' (p - 1) n" using room(2) p64 unfolding inv64_def by auto
  moreover have "s \<noteq> 0" using nz by auto
  then have "fractionals64_loop s (int p) b len (Suc n) =
      do { b' \<leftarrow> bput b len (digit_char (of_nat ?q)); fractionals64_loop s' (int (p - 1)) b' (len + 1) n }" for b len
    using sp(1,2,3) digit32_char_of_nat [of ?q] q
    by (simp only: fractionals64_loop.simps if_False Let_def p(3) bind.simps s'_def)
  ultimately show ?thesis using v by blast
qed

interpretation f64: fraction_loop unat inv64 fractionals64_loop
proof
  show "unat s < 2 ^ p" if "inv64 s p n" for s p n using that by (simp add: inv64_def)
  show "fractionals64_loop s pt b len n = Some (s, pt, b, len)" if "n = 0 \<or> unat s = 0" for s pt b len n
    using that by (cases n) (auto simp: unat_eq_zero)
qed (rule round64)

section \<open>128-bit numbers\<close>

definition value128 :: "UInt128 \<Rightarrow> nat" where
  "value128 u = unat (high_bits u) * 2 ^ 64 + unat (low_bits u)"

lemma columns:
  fixes a0 a1 a2 a3 m B c1 c2 c3 c4 :: nat
  assumes d: "c1 = a0 * m" "c2 = c1 div B + a1 * m" "c3 = c2 div B + a2 * m" "c4 = c3 div B + a3 * m"
  shows "(((a3 * B + a2) * B + a1) * B + a0) * m =
    c4 div B * (B * B * B * B) + (((c4 mod B * B + c3 mod B) * B + c2 mod B) * B + c1 mod B)"
proof -
  have e: "c1 = c1 div B * B + c1 mod B" "c2 = c2 div B * B + c2 mod B" "c3 = c3 div B * B + c3 mod B" "c4 = c4 div B * B + c4 mod B" by simp_all
  have "(((a3 * B + a2) * B + a1) * B + a0) * m = ((a3 * m * B + a2 * m) * B + a1 * m) * B + a0 * m" by (simp add: algebra_simps)
  also have "\<dots> = ((a3 * m * B + a2 * m) * B + (c1 div B + a1 * m)) * B + c1 mod B" using e(1) unfolding d(1) by (simp add: algebra_simps)
  also have "\<dots> = ((a3 * m * B + (c2 div B + a2 * m)) * B + c2 mod B) * B + c1 mod B" using e(2) unfolding d(2) [symmetric] by (simp add: algebra_simps)
  also have "\<dots> = (((c3 div B + a3 * m) * B + c3 mod B) * B + c2 mod B) * B + c1 mod B" using e(3) unfolding d(3) [symmetric] by (simp add: algebra_simps)
  also have "\<dots> = (((c4 div B * B + c4 mod B) * B + c3 mod B) * B + c2 mod B) * B + c1 mod B" unfolding d(4) [symmetric] using e(4) by simp
  also have "\<dots> = c4 div B * (B * B * B * B) + (((c4 mod B * B + c3 mod B) * B + c2 mod B) * B + c1 mod B)" by (simp only: distrib_right mult.assoc add.assoc)
  finally show ?thesis .
qed

lemma digit_below: "x < P \<Longrightarrow> y < B \<Longrightarrow> x * B + y < P * (B :: nat)"
proof -
  assume "x < P" "y < B"
  then have "(x + 1) * B \<le> P * B" by (intro mult_le_mono1) simp
  then show ?thesis using \<open>y < B\<close> by simp
qed

lemma low_half_cast: "unat (ucast (ucast (w AND kMask32) :: 32 word) :: 64 word) = unat w mod 2 ^ 32" for w :: "64 word"
proof -
  let ?x = "w AND kMask32"
  have "unat ?x < 2 ^ 32" unfolding unat_half(2) by simp
  then have "unat (ucast ?x :: 32 word) = unat ?x" by (simp only: unsigned_ucast_eq) (simp add: take_bit_nat_eq_self)
  moreover from this \<open>unat ?x < 2 ^ 32\<close> have "unat (ucast (ucast ?x :: 32 word) :: 64 word) = unat ?x"
    by (simp only: unsigned_ucast_eq [of "ucast ?x :: 32 word"]) (simp add: take_bit_nat_eq_self)
  ultimately show ?thesis unfolding unat_half(2) by simp
qed

lemma shifted_half: "unat (push_bit 32 w) = unat w mod 2 ^ 32 * 2 ^ 32" for w :: "64 word"
proof -
  have "unat (push_bit 32 w) = take_bit 64 (push_bit 32 (unat w))" by (simp only: unsigned_push_bit_eq) simp
  also have "\<dots> = unat w * 2 ^ 32 mod (2 ^ 32 * 2 ^ 32)" by (simp add: take_bit_eq_mod push_bit_eq_mult)
  also have "\<dots> = unat w mod 2 ^ 32 * 2 ^ 32" by (rule mod_mult_mult2)
  finally show ?thesis .
qed

lemma column_exact:
  fixes x y m :: "64 word"
  assumes "unat x < 2 ^ 32" "unat y < 2 ^ 32" "unat m < 2 ^ 32"
  shows "unat (y + x * m) = unat y + unat x * unat m"
proof -
  have xm: "unat (x * m) = unat x * unat m" by (rule unat_mult_exact [OF assms(1,3)])
  have "unat x * unat m \<le> (2 ^ 32 - 1) * (2 ^ 32 - 1)" using assms(1,3) by (intro mult_le_mono) simp_all
  then have "unat y + unat (x * m) < 2 ^ 64" unfolding xm using assms(2) by simp
  then show ?thesis unfolding xm [symmetric] by (rule unat_add_exact)
qed

lemma join_halves: "unat (push_bit 32 x + ucast (ucast (y AND kMask32) :: 32 word)) = unat x mod 2 ^ 32 * 2 ^ 32 + unat y mod 2 ^ 32" for x y :: "64 word"
proof -
  have "unat x mod 2 ^ 32 \<le> 2 ^ 32 - 1" "unat y mod 2 ^ 32 < 2 ^ 32" using mod_less_divisor [of "2 ^ 32" "unat x"] by simp_all
  then have "unat (push_bit 32 x) + unat (ucast (ucast (y AND kMask32) :: 32 word) :: 64 word) < 2 ^ 64"
    unfolding shifted_half low_half_cast by simp
  from unat_add_exact [OF this] show ?thesis by (simp only: shifted_half low_half_cast)
qed

text \<open>The product by columns of 32 bits is exact modulo \<open>2^128\<close>.\<close>

lemma UInt128_Multiply_correct: "value128 (UInt128_Multiply u m) = value128 u * unat m mod 2 ^ 128"
proof -
  let ?B = "2 ^ 32 :: nat" and ?m = "ucast m :: 64 word" and ?l = "low_bits u" and ?h = "high_bits u"
  have "unat m < 2 ^ 32" using unsigned_less [of m] by simp
  then have m: "unat ?m = unat m" "unat m < ?B" by (simp_all add: unsigned_ucast_eq take_bit_nat_eq_self)
  define a0 a1 a2 a3 where "a0 = unat ?l mod ?B" and "a1 = unat ?l div ?B" and "a2 = unat ?h mod ?B" and "a3 = unat ?h div ?B"
  define w1 w2 w3 w4 where "w1 = (?l AND kMask32) * ?m" and "w2 = drop_bit 32 w1 + drop_bit 32 ?l * ?m"
    and "w3 = drop_bit 32 w2 + (?h AND kMask32) * ?m" and "w4 = drop_bit 32 w3 + drop_bit 32 ?h * ?m"
  have half: "unat (drop_bit 32 w) < ?B" "unat (w AND kMask32) < ?B" for w :: "64 word" using halves_less [of w] by (simp_all only: unat_half)
  have mB: "unat ?m < ?B" using m by simp
  have c: "unat w1 = a0 * unat m" "unat w2 = unat w1 div ?B + a1 * unat m" "unat w3 = unat w2 div ?B + a2 * unat m" "unat w4 = unat w3 div ?B + a3 * unat m"
    using unat_mult_exact [OF half(2) mB] column_exact [OF half(1) half(1) mB] column_exact [OF half(2) half(1) mB]
    unfolding w1_def w2_def w3_def w4_def a0_def a1_def a2_def a3_def unat_half m(1) by simp_all
  have prod: "UInt128_Multiply u m = \<lparr>high_bits = push_bit 32 w4 + ucast (ucast (w3 AND kMask32) :: 32 word),
      low_bits = push_bit 32 w2 + ucast (ucast (w1 AND kMask32) :: 32 word)\<rparr>"
    unfolding UInt128_Multiply_def w1_def w2_def w3_def w4_def by (simp only: Let_def)
  define r where "r = ((unat w4 mod ?B * ?B + unat w3 mod ?B) * ?B + unat w2 mod ?B) * ?B + unat w1 mod ?B"
  have v: "value128 (UInt128_Multiply u m) = r"
    unfolding prod value128_def r_def by (simp only: UInt128.simps join_halves) (simp add: algebra_simps)
  have "value128 u = (((a3 * ?B + a2) * ?B + a1) * ?B + a0)"
  proof -
    have "unat ?h = a3 * ?B + a2" "unat ?l = a1 * ?B + a0" unfolding a0_def a1_def a2_def a3_def by (simp_all only: div_mult_mod_eq)
    then show ?thesis unfolding value128_def by simp
  qed
  then have "value128 u * unat m = unat w4 div ?B * (?B * ?B * ?B * ?B) + r" unfolding r_def using columns [OF c] by (simp only:)
  moreover have "r < ?B * ?B * ?B * ?B" unfolding r_def by (intro digit_below mod_less_divisor) simp_all
  moreover have "?B * ?B * ?B * ?B = 2 ^ 128" by simp
  ultimately show ?thesis unfolding v by (simp only: mod_mult_self3 mod_less)
qed

section \<open>The 128-bit loop\<close>

definition inv128 :: "UInt128 \<Rightarrow> nat \<Rightarrow> nat \<Rightarrow> bool" where
  "inv128 u p n \<longleftrightarrow> value128 u < 2 ^ p \<and> p \<le> 128 \<and> 64 + n < p \<and> (125 < p \<longrightarrow> value128 u * 5 ^ (p - 125) < 2 ^ 127)"

lemma value128_zero: "value128 u = 0 \<longleftrightarrow> UInt128_IsZero u"
  by (auto simp: value128_def UInt128_IsZero_def unat_eq_zero)

lemma value128_high: "value128 u div 2 ^ (64 + k) = unat (high_bits u) div 2 ^ k"
proof -
  have "value128 u div 2 ^ 64 = unat (high_bits u)" using unat64_less [of "low_bits u"] by (simp add: value128_def)
  then show ?thesis by (simp only: power_add div_mult2_eq)
qed

lemma value128_mod: "value128 u mod 2 ^ (64 + k) = unat (high_bits u) mod 2 ^ k * 2 ^ 64 + unat (low_bits u)"
proof -
  have "value128 u mod 2 ^ 64 = unat (low_bits u)" "value128 u div 2 ^ 64 = unat (high_bits u)" using unat64_less [of "low_bits u"] by (simp_all add: value128_def)
  then show ?thesis using mod_mult2_eq [of "value128 u" "2 ^ 64" "2 ^ k"] by (simp only: power_add mult.commute)
qed

lemma DivModPowerOf2_correct:
  assumes "k < 64" "value128 u div 2 ^ (64 + k) \<le> 9"
  shows "\<exists>u'. UInt128_DivModPowerOf2 u (int (64 + k)) = Some (u', of_nat (value128 u div 2 ^ (64 + k))) \<and> value128 u' = value128 u mod 2 ^ (64 + k)"
proof -
  have q: "unat (high_bits u) div 2 ^ k \<le> 9" using assms(2) unfolding value128_high .
  note sp = split_digit [OF assms(1) q]
  have i: "int (64 + k) - 64 = int k" by simp
  let ?u = "u\<lparr>high_bits := high_bits u - push_bit k (of_nat (unat (high_bits u) div 2 ^ k))\<rparr>"
  have "UInt128_DivModPowerOf2 u (int (64 + k)) = Some (?u, of_nat (unat (high_bits u) div 2 ^ k))"
    unfolding UInt128_DivModPowerOf2_def i using sp(1-3) by (simp add: Let_def)
  moreover have "value128 ?u = value128 u mod 2 ^ (64 + k)"
    unfolding value128_mod unfolding value128_def using sp(4) by simp
  ultimately show ?thesis unfolding value128_high by blast
qed

lemma round128:
  assumes i: "inv128 u p (Suc n)" and nz: "value128 u \<noteq> 0"
  shows "\<exists>u'. inv128 u' (p - 1) n \<and> value128 u' = 5 * value128 u mod 2 ^ (p - 1)
        \<and> (\<forall>b len. fractionals128_loop u (int p) b len (Suc n) =
             do { b' \<leftarrow> bput b len (digit_char (of_nat (5 * value128 u div 2 ^ (p - 1)))); fractionals128_loop u' (int (p - 1)) b' (len + 1) n })"
proof -
  let ?q = "5 * value128 u div 2 ^ (p - 1)" and ?u5 = "UInt128_Multiply u 5"
  have hd: "value128 u < 2 ^ p" "125 < p \<Longrightarrow> value128 u * 5 ^ (p - 125) < 2 ^ (125 + 2)" and p': "p \<le> 128" "64 + Suc n < p"
    using i by (simp_all add: inv128_def)
  then have p128: "p \<le> 128" "64 + n < p - 1" by linarith+
  define k where "k = p - 65"
  have k: "p - 1 = 64 + k" "k < 64" using p' unfolding k_def by linarith+
  have p: "1 \<le> p" "int p - 1 = int (64 + k)" using k by simp_all
  note room = headroom [OF hd]
  have "unat (5 :: 32 word) = 5" by simp
  then have u: "value128 ?u5 = 5 * value128 u" using room(1) UInt128_Multiply_correct [of u 5] by (simp add: mult.commute)
  have q: "?q \<le> 9" by (rule digit_bound [OF hd(1) p(1)])
  obtain u' where u': "UInt128_DivModPowerOf2 ?u5 (int (64 + k)) = Some (u', of_nat ?q)" "value128 u' = 5 * value128 u mod 2 ^ (p - 1)"
    using DivModPowerOf2_correct [OF k(2), of ?u5] q unfolding u k(1) by blast
  then have "value128 u' \<le> 5 * value128 u" "value128 u' < 2 ^ (p - 1)" by simp_all
  then have "inv128 u' (p - 1) n" using room(2) p128 unfolding inv128_def by auto
  moreover have "\<not> UInt128_IsZero u" using nz by (simp add: value128_zero)
  then have "fractionals128_loop u (int p) b len (Suc n) =
      do { b' \<leftarrow> bput b len (digit_char (of_nat ?q)); fractionals128_loop u' (int (p - 1)) b' (len + 1) n }" for b len
    using u'(1) digit32_char_of_nat [of ?q] q unfolding k(1)
    by (simp only: fractionals128_loop.simps if_False Let_def p(2) bind.simps prod.case)
  ultimately show ?thesis using u'(2) by blast
qed

interpretation f128: fraction_loop value128 inv128 fractionals128_loop
proof
  show "value128 s < 2 ^ p" if "inv128 s p n" for s p n using that by (simp add: inv128_def)
  show "fractionals128_loop s pt b len n = Some (s, pt, b, len)" if "n = 0 \<or> value128 s = 0" for s pt b len n
    using that by (cases n) (auto simp: value128_zero)
qed (rule round128)

section \<open>The start and the end of the loops\<close>

lemma Shift_correct:
  assumes "1 \<le> j" "j \<le> 64"
  shows "\<exists>u. UInt128_Shift (UInt128_new f 0) (int j) = Some u \<and> value128 u = unat f * 2 ^ (64 - j)"
proof (cases "j = 64")
  case True
  then show ?thesis by (simp add: UInt128_Shift_def UInt128_new_def value128_def)
next
  case False
  then have j: "1 \<le> j" "j < 64" using assms by simp_all
  have n: "nat (64 - int j) = 64 - j" by simp
  have "UInt128_Shift (UInt128_new f 0) (int j) = Some \<lparr>high_bits = drop_bit j f, low_bits = push_bit (64 - j) f\<rparr>"
    using j by (simp add: UInt128_Shift_def UInt128_new_def shr64_def shl64_def nat_diff_distrib')
  moreover have "unat (push_bit (64 - j) f) = unat f mod 2 ^ j * 2 ^ (64 - j)"
  proof -
    have "unat (push_bit (64 - j) f) = take_bit 64 (push_bit (64 - j) (unat f))" by (simp only: unsigned_push_bit_eq) simp
    also have "\<dots> = unat f * 2 ^ (64 - j) mod 2 ^ (j + (64 - j))" using j by (simp add: take_bit_eq_mod push_bit_eq_mult)
    also have "\<dots> = unat f mod 2 ^ j * 2 ^ (64 - j)" unfolding power_add by (rule mod_mult_mult2)
    finally show ?thesis .
  qed
  then have "value128 \<lparr>high_bits = drop_bit j f, low_bits = push_bit (64 - j) f\<rparr> = unat f * 2 ^ (64 - j)"
  proof -
    have "(2 :: nat) ^ 64 = 2 ^ j * 2 ^ (64 - j)" using j by (simp flip: power_add)
    then have "unat f div 2 ^ j * 2 ^ 64 + unat f mod 2 ^ j * 2 ^ (64 - j) = (unat f div 2 ^ j * 2 ^ j + unat f mod 2 ^ j) * 2 ^ (64 - j)"
      by (simp only: distrib_right mult.assoc)
    then show ?thesis unfolding value128_def UInt128.simps \<open>unat (push_bit (64 - j) f) = unat f mod 2 ^ j * 2 ^ (64 - j)\<close> unat_drop
      by (simp only: div_mult_mod_eq)
  qed
  ultimately show ?thesis by blast
qed

lemma top_bit: "x < 2 ^ Suc k \<Longrightarrow> x div 2 ^ k = of_bool (2 ^ k \<le> x)" for x :: nat
proof -
  assume "x < 2 ^ Suc k"
  then have "x div 2 ^ k < 2" by (intro less_mult_imp_div_less) simp
  moreover have "x div 2 ^ k = 0 \<longleftrightarrow> x < 2 ^ k" by (simp add: div_eq_0_iff)
  ultimately show ?thesis by (auto simp: less_2_cases_iff)
qed

lemma word_and_1: "unat w = of_bool b \<Longrightarrow> (w AND 1 = 1) = b" "unat w = of_bool b \<Longrightarrow> (ucast w AND 1 = (1 :: 32 word)) = b" for w :: "64 word"
proof -
  assume "unat w = of_bool b"
  then have "w = of_bool b" by (cases b) (simp_all add: word_unat_eq_iff)
  then show "(w AND 1 = 1) = b" "(ucast w AND 1 = (1 :: 32 word)) = b" by (cases b; simp)+
qed

lemma half64: "unat f < 2 ^ Suc k \<Longrightarrow> k < 64 \<Longrightarrow> \<exists>w. shr64 f (int k) = Some w \<and> (w AND 1 = 1 \<longleftrightarrow> 2 ^ k \<le> unat f)"
  using word_and_1(1) [of "drop_bit k f" "2 ^ k \<le> unat f"] top_bit [of "unat f" k] by (simp add: shr64_def unat_drop)

lemma half128:
  assumes "value128 u < 2 ^ Suc (64 + k)" "k < 64"
  shows "\<exists>b. UInt128_BitAt u (int (64 + k)) = Some b \<and> (b = 1 \<longleftrightarrow> 2 ^ (64 + k) \<le> value128 u)"
proof -
  have "unat (drop_bit k (high_bits u)) = of_bool (2 ^ (64 + k) \<le> value128 u)"
    unfolding unat_drop value128_high [symmetric] by (rule top_bit [OF assms(1)])
  from word_and_1(2) [OF this] show ?thesis using assms(2) by (simp add: UInt128_BitAt_def shr64_def)
qed

end
