(* ===== verification/FixedProps.thy ===== *)
theory FixedProps
  imports FixedFraction
begin

text \<open>
  \<open>FastFixedDtoa\<close> rounds the exact value of the double half up at the requested digit, without overflow
  in its 64-bit and 128-bit arithmetic.
\<close>

section \<open>Rounding after the last digit\<close>

definition rounded_at :: "real \<Rightarrow> nat \<Rightarrow> real" where
  "rounded_at x n = of_int \<lfloor>x * 10 ^ n + 1 / 2\<rfloor> / 10 ^ n"

lemma rounded_at_nat: "rounded_at (real k) n = real k"
proof -
  have "real k * 10 ^ n + 1 / 2 = of_int (int (k * 10 ^ n)) + 1 / 2" by simp
  moreover have "\<lfloor>of_int (int (k * 10 ^ n)) + 1 / 2 :: real\<rfloor> = int (k * 10 ^ n)" by (simp add: floor_eq_iff)
  ultimately show ?thesis unfolding rounded_at_def by (simp only:) simp
qed

lemma rounded_at_digits:
  fixes I X D R P k n :: nat
  assumes eq: "X * 5 ^ k = D * 2 ^ (P - k) + R" and R: "R < 2 ^ (P - k)" and k: "k \<le> P" "k \<le> n" and stop: "k = n \<or> R = 0"
  shows "rounded_at (real I + real X / 2 ^ P) n = real (I * 10 ^ k + D + of_bool (2 ^ (P - k) \<le> 2 * R)) / 10 ^ k"
proof -
  let ?Z = "I * 10 ^ k + D" and ?r = "real R / 2 ^ (P - k)"
  have p: "(2 :: real) ^ P = 2 ^ (P - k) * 2 ^ k" using k(1) by (simp flip: power_add)
  have ten: "(10 :: real) ^ k = 5 ^ k * 2 ^ k" by (simp flip: power_mult_distrib)
  have "real X * 5 ^ k = real D * 2 ^ (P - k) + real R" using arg_cong [OF eq, of real] by simp
  then have "real X / 2 ^ P * 10 ^ k = real D + ?r" unfolding p ten by (simp add: field_simps)
  then have x: "(real I + real X / 2 ^ P) * 10 ^ k = real ?Z + ?r" by (simp add: distrib_right)
  have "real R < 2 ^ (P - k)" using R by (simp only: of_nat_less_iff [symmetric, where 'a = real] of_nat_power of_nat_numeral)
  then have r: "0 \<le> ?r" "?r < 1" by simp_all
  have "real (2 ^ (P - k)) \<le> real (2 * R) \<longleftrightarrow> 2 ^ (P - k) \<le> 2 * R" by (simp only: of_nat_le_iff)
  then have up: "1 / 2 \<le> ?r \<longleftrightarrow> 2 ^ (P - k) \<le> 2 * R" by (simp add: field_simps)
  show ?thesis
  proof (cases "k = n")
    case True
    have "\<lfloor>real ?Z + y + 1 / 2\<rfloor> = int (?Z + of_bool (1 / 2 \<le> y))" if "0 \<le> y" "y < 1" for y
      using that by (cases "1 / 2 \<le> y") (auto simp: floor_eq_iff)
    then have "\<lfloor>real ?Z + ?r + 1 / 2\<rfloor> = int (?Z + of_bool (2 ^ (P - k) \<le> 2 * R))" using r unfolding up [symmetric] by blast
    then show ?thesis unfolding rounded_at_def True [symmetric] x by simp
  next
    case False
    then have R0: "R = 0" "\<not> 2 ^ (P - k) \<le> 2 * R" using stop by simp_all
    have n: "(10 :: real) ^ n = 10 ^ k * 10 ^ (n - k)" using k(2) by (simp flip: power_add)
    have "(real I + real X / 2 ^ P) * 10 ^ n = real (?Z * 10 ^ (n - k))" unfolding n mult.assoc [symmetric] x using R0(1) by simp
    then have "(real I + real X / 2 ^ P) * 10 ^ n + 1 / 2 = of_int (int (?Z * 10 ^ (n - k))) + 1 / 2" by simp
    moreover have "\<lfloor>of_int (int (?Z * 10 ^ (n - k))) + 1 / 2 :: real\<rfloor> = int (?Z * 10 ^ (n - k))" by (simp add: floor_eq_iff)
    ultimately have "rounded_at (real I + real X / 2 ^ P) n = real (?Z * 10 ^ (n - k)) / 10 ^ n" unfolding rounded_at_def by (simp only: of_int_of_nat_eq)
    then show ?thesis using R0 unfolding n by simp
  qed
qed

text \<open>A buffer that holds the digits \<open>ds\<close> of the number \<open>y\<close> with the point after \<open>dp\<close> digits.\<close>

definition holds :: "real \<Rightarrow> string \<Rightarrow> int \<Rightarrow> bool" where
  "holds y ds dp \<longleftrightarrow> all_decimal ds \<and> real (decimal_value ds) * 10 powi (dp - int (length ds)) = y"

lemma round_or_not:
  assumes ds: "all_decimal ds" and xs: "all_decimal xs" and len: "1 \<le> length (ds @ xs @ rest)"
  shows "\<exists>ds' dp'. (if up then RoundUp (ds @ xs @ rest) (length (ds @ xs)) (int (length ds)) else Some (ds @ xs @ rest, length (ds @ xs), int (length ds)))
      = Some (ds' @ drop (length ds') (ds @ xs @ rest), length ds', dp') \<and> length ds' \<le> max 1 (length (ds @ xs)) \<and> length (ds @ xs) \<le> length ds'
    \<and> holds (real (decimal_value ds * 10 ^ length xs + decimal_value xs + of_bool up) / 10 ^ length xs) ds' dp'"
proof -
  have e: "10 powi (int (length ds) - int (length (ds @ xs))) = 1 / (10 :: real) ^ length xs"
    by (simp add: power_int_minus field_simps)
  have v: "decimal_value (ds @ xs) = decimal_value ds * 10 ^ length xs + decimal_value xs" by (rule decimal_value_append)
  show ?thesis
  proof (cases up)
    case True
    obtain ds' dp' where "RoundUp ((ds @ xs) @ rest) (length (ds @ xs)) (int (length ds)) = Some (ds' @ drop (length ds') ((ds @ xs) @ rest), length ds', dp')"
        "all_decimal ds'" "length ds' = max 1 (length (ds @ xs))"
        "real (decimal_value ds') * 10 powi (dp' - int (length ds')) = real (decimal_value (ds @ xs) + 1) * 10 powi (int (length ds) - int (length (ds @ xs)))"
      using RoundUp_correct [of "ds @ xs" "int (length ds)" rest] ds xs len by auto
    then show ?thesis using True unfolding e v holds_def by (intro exI [of _ ds'] exI [of _ dp']) simp
  next
    case False
    then show ?thesis using ds xs e v unfolding holds_def
      by (intro exI [of _ "ds @ xs"] exI [of _ "int (length ds)"]) simp
  qed
qed

lemma finish_fractionals:
  fixes X R P n :: nat
  assumes ds: "all_decimal ds" and xs: "all_decimal xs" "length xs \<le> n" "length xs \<le> P" and rest: "n + 1 \<le> length rest"
    and eq: "X * 5 ^ length xs = decimal_value xs * 2 ^ (P - length xs) + R" and R: "R < 2 ^ (P - length xs)" and stop: "length xs = n \<or> R = 0"
    and run: "r = (if 2 ^ (P - length xs) \<le> 2 * R then RoundUp (ds @ xs @ drop (length xs) rest) (length (ds @ xs)) (int (length ds))
                   else Some (ds @ xs @ drop (length xs) rest, length (ds @ xs), int (length ds)))"
  shows "\<exists>ds' dp'. r = Some (ds' @ drop (length ds') (ds @ rest), length ds', dp') \<and> length ds' \<le> max 1 (length ds + n)
    \<and> holds (rounded_at (real (decimal_value ds) + real X / 2 ^ P) n) ds' dp'"
proof -
  let ?up = "2 ^ (P - length xs) \<le> 2 * R"
  have "1 \<le> length (ds @ xs @ drop (length xs) rest)" using rest xs(2) by simp
  from round_or_not [OF ds xs(1) this, of ?up] obtain ds' dp' where r:
      "r = Some (ds' @ drop (length ds') (ds @ xs @ drop (length xs) rest), length ds', dp')"
      "length ds' \<le> max 1 (length (ds @ xs))" "length (ds @ xs) \<le> length ds'"
      "holds (real (decimal_value ds * 10 ^ length xs + decimal_value xs + of_bool ?up) / 10 ^ length xs) ds' dp'"
    unfolding run by blast
  have "drop (length ds') (ds @ xs @ drop (length xs) rest) = drop (length ds') (ds @ rest)" using r(3) by simp
  moreover have "length ds' \<le> max 1 (length ds + n)" using r(2) xs(2) by simp
  ultimately show ?thesis using r(1,4) unfolding rounded_at_digits [OF eq R xs(3,2) stop] by metis
qed

lemma FillFractionals64:
  assumes f: "unat F < 2 ^ 53" "unat F < 2 ^ p" and p: "p \<le> 64" and ds: "all_decimal ds" and rest: "n + 1 \<le> length rest"
  shows "\<exists>ds' dp'. FillFractionals F (- int p) (int n) (ds @ rest) (length ds) (int (length ds)) = Some (ds' @ drop (length ds') (ds @ rest), length ds', dp')
    \<and> length ds' \<le> max 1 (length ds + n) \<and> holds (rounded_at (real (decimal_value ds) + real (unat F) / 2 ^ p) n) ds' dp'"
proof -
  have "unat F * 5 ^ (p - 61) < 2 ^ 63"
  proof -
    have "(5 :: nat) ^ (p - 61) \<le> 5 ^ 3" using p by (intro power_increasing) simp_all
    then have "unat F * 5 ^ (p - 61) \<le> unat F * 5 ^ 3" by (rule mult_le_mono2)
    also have "\<dots> < 2 ^ 53 * 5 ^ 3" using f(1) by simp
    finally show ?thesis by simp
  qed
  then have "inv64 F p n" using f(2) p by (simp add: inv64_def)
  from f64.digits [OF this, of rest ds] rest obtain xs F' where l:
      "fractionals64_loop F (int p) (ds @ rest) (length ds) n = Some (F', int (p - length xs), (ds @ xs) @ drop (length xs) rest, length (ds @ xs))"
      "all_decimal xs" "length xs \<le> n" "length xs \<le> p" "inv64 F' (p - length xs) (n - length xs)"
      "unat F * 5 ^ length xs = decimal_value xs * 2 ^ (p - length xs) + unat F'" "length xs = n \<or> unat F' = 0" by auto
  let ?P = "p - length xs" and ?up = "2 ^ (p - length xs) \<le> 2 * unat F'"
  note below = f64.below [OF l(5)]
  have test: "(if F' \<noteq> 0 then do { w \<leftarrow> shr64 F' (int ?P - 1); if w AND 1 = 1 then g else h } else h) = (if ?up then g else h)" for g h :: "(string \<times> nat \<times> int) option"
  proof (cases "unat F' = 0")
    case False
    then have "?P \<noteq> 0" using below by (cases ?P) auto
    then obtain k where k: "?P = Suc k" by (cases ?P) auto
    then have "k < 64" using p by simp
    with half64 [of F' k] below k obtain w where "shr64 F' (int k) = Some w" "w AND 1 = 1 \<longleftrightarrow> 2 ^ k \<le> unat F'" by auto
    then show ?thesis using False k by (auto simp: unat_eq_zero)
  qed (simp add: unat_eq_zero)
  have "FillFractionals F (- int p) (int n) (ds @ rest) (length ds) (int (length ds)) =
      (if ?up then RoundUp (ds @ xs @ drop (length xs) rest) (length (ds @ xs)) (int (length ds)) else Some (ds @ xs @ drop (length xs) rest, length (ds @ xs), int (length ds)))"
    unfolding test [symmetric] using l(1) p unfolding length_append append_assoc by (simp add: FillFractionals_def)
  then show ?thesis by (rule finish_fractionals [OF ds l(2-4) rest l(6) below l(7)])
qed

lemma FillFractionals128:
  assumes f: "unat F < 2 ^ 53" and p: "64 < p" "p \<le> 128" and n: "n \<le> 20" and ds: "all_decimal ds" and rest: "n + 1 \<le> length rest"
  shows "\<exists>ds' dp'. FillFractionals F (- int p) (int n) (ds @ rest) (length ds) (int (length ds)) = Some (ds' @ drop (length ds') (ds @ rest), length ds', dp')
    \<and> length ds' \<le> max 1 (length ds + n) \<and> holds (rounded_at (real (decimal_value ds) + real (unat F) / 2 ^ p) n) ds' dp'"
proof -
  have j: "1 \<le> p - 64" "p - 64 \<le> 64" "int (p - 64) = int p - 64" "64 - (p - 64) = 128 - p" using p by linarith+
  obtain u where u: "UInt128_Shift (UInt128_new F 0) (int p - 64) = Some u" "value128 u = unat F * 2 ^ (128 - p)"
    using Shift_correct [OF j(1,2), of F] unfolding j(3,4) by blast
  have "value128 u < 2 ^ 116"
  proof -
    have "(2 :: nat) ^ (128 - p) \<le> 2 ^ 63" using p by (intro power_increasing) simp_all
    then have "unat F * 2 ^ (128 - p) \<le> unat F * 2 ^ 63" by (rule mult_le_mono2)
    also have "\<dots> < 2 ^ 53 * 2 ^ 63" using f by simp
    finally show ?thesis unfolding u(2) by simp
  qed
  then have "inv128 u 128 n" using n by (simp add: inv128_def)
  from f128.digits [OF this, of rest ds] rest obtain xs u' where l:
      "fractionals128_loop u 128 (ds @ rest) (length ds) n = Some (u', int (128 - length xs), (ds @ xs) @ drop (length xs) rest, length (ds @ xs))"
      "all_decimal xs" "length xs \<le> n" "length xs \<le> 128" "inv128 u' (128 - length xs) (n - length xs)"
      "value128 u * 5 ^ length xs = decimal_value xs * 2 ^ (128 - length xs) + value128 u'" "length xs = n \<or> value128 u' = 0" by auto
  let ?up = "2 ^ (128 - length xs) \<le> 2 * value128 u'"
  note below = f128.below [OF l(5)]
  define k where "k = 63 - length xs"
  have k: "128 - length xs = Suc (64 + k)" "k < 64" "127 - int (length xs) = 64 + int k" using l(3) n unfolding k_def by linarith+
  obtain b where b: "UInt128_BitAt u' (int (64 + k)) = Some b" "b = 1 \<longleftrightarrow> 2 ^ (64 + k) \<le> value128 u'"
    using half128 [OF _ k(2), of u'] below unfolding k(1) by blast
  have up: "?up \<longleftrightarrow> b = 1" unfolding b(2) k(1) power_Suc by simp
  have "FillFractionals F (- int p) (int n) (ds @ rest) (length ds) (int (length ds)) =
      (if ?up then RoundUp (ds @ xs @ drop (length xs) rest) (length (ds @ xs)) (int (length ds)) else Some (ds @ xs @ drop (length xs) rest, length (ds @ xs), int (length ds)))"
    unfolding up using l(1,3,4) p u(1) b(1) by (simp add: FillFractionals_def k(3))
  from finish_fractionals [OF ds l(2-4) rest l(6) below l(7) this] have
    "\<exists>ds' dp'. FillFractionals F (- int p) (int n) (ds @ rest) (length ds) (int (length ds)) = Some (ds' @ drop (length ds') (ds @ rest), length ds', dp')
      \<and> length ds' \<le> max 1 (length ds + n) \<and> holds (rounded_at (real (decimal_value ds) + real (value128 u) / 2 ^ 128) n) ds' dp'" .
  moreover have "real (value128 u) / 2 ^ 128 = real (unat F) / 2 ^ p"
  proof -
    have pw: "(2 :: real) ^ 128 = 2 ^ p * 2 ^ (128 - p)" using p(2) by (simp only: power_add [symmetric] le_add_diff_inverse)
    show ?thesis unfolding u(2) pw by simp
  qed
  ultimately show ?thesis by (simp only:)
qed

lemma FillFractionals_correct:
  assumes f: "unat F < 2 ^ 53" "unat F < 2 ^ p" and p: "p \<le> 128" and n: "n \<le> 20" and ds: "all_decimal ds" and rest: "n + 1 \<le> length rest"
  shows "\<exists>ds' dp'. FillFractionals F (- int p) (int n) (ds @ rest) (length ds) (int (length ds)) = Some (ds' @ drop (length ds') (ds @ rest), length ds', dp')
    \<and> length ds' \<le> max 1 (length ds + n) \<and> holds (rounded_at (real (decimal_value ds) + real (unat F) / 2 ^ p) n) ds' dp'"
  using FillFractionals64 [OF f _ ds rest] FillFractionals128 [OF f(1) _ p n ds rest] by (cases "p \<le> 64") simp_all

section \<open>The cases of the exponent\<close>

text \<open>What the branch for an exponent computes before the zeros are trimmed.\<close>

definition branch_ok :: "64 word \<Rightarrow> nat \<Rightarrow> string \<Rightarrow> (string \<times> nat \<times> int) option \<Rightarrow> bool" where
  "branch_ok v n buf r \<longleftrightarrow> (\<exists>ds dp rest. r = Some (ds @ rest, length ds, dp) \<and> length (ds @ rest) = length buf \<and> length ds < length buf
     \<and> holds (rounded_at (dval v) n) ds dp)"

lemma branch_okI:
  "r = Some (ds @ rest, length ds, dp) \<Longrightarrow> length (ds @ rest) = length buf \<Longrightarrow> length ds < length buf \<Longrightarrow> holds (rounded_at (dval v) n) ds dp \<Longrightarrow> branch_ok v n buf r"
  unfolding branch_ok_def by blast

lemma writes_branch:
  assumes "writes f t" "all_decimal t" "dval v = real (decimal_value t)" "length t < length buf"
  shows "branch_ok v n buf (do { (b, k) \<leftarrow> f buf 0; Some (b, k, int k) })"
  using writesD [OF assms(1), of buf "[]"] assms(2-4)
  by (intro branch_okI [of _ t "drop (length t) buf" "int (length t)"]) (simp_all add: holds_def rounded_at_nat)

lemma dval_nonneg: "0 \<le> e \<Longrightarrow> Double_Exponent v = e \<Longrightarrow> dval v = real (unat (Double_Significand v) * 2 ^ nat e)"
  by (simp add: dval_def power_int_def)

text \<open>Division by \<open>10^17\<close>, split into the powers of five and two.\<close>

lemma shl64_exact: "0 \<le> k \<Longrightarrow> k < 64 \<Longrightarrow> unat w * 2 ^ nat k < 2 ^ 64 \<Longrightarrow> \<exists>x. shl64 w k = Some x \<and> unat x = unat w * 2 ^ nat k"
  using unat_push [of w "nat k"] by (simp add: shl64_def)

lemma quotient32: "unat x < 10 ^ 5 \<Longrightarrow> unat (ucast x :: 32 word) = unat x" for x :: "64 word"
  by (simp only: unsigned_ucast_eq) (simp add: take_bit_nat_eq_self)

lemma five_17: "unat kFive17 = 5 ^ 17"
  by simp

lemma divide_large:
  assumes s: "unat w < 2 ^ 53" and e: "17 < e" "e \<le> 20"
  shows "\<exists>q r. do { dividend \<leftarrow> shl64 w (e - 17); r \<leftarrow> shl64 (dividend mod kFive17) 17; Some (ucast (dividend div kFive17) :: 32 word, r) } = Some (q, r)
      \<and> unat r < 10 ^ 17 \<and> unat q * 10 ^ 17 + unat r = unat w * 2 ^ nat e \<and> unat q < 10 ^ 5"
proof -
  have p: "(2 :: nat) ^ nat (e - 17) \<le> 2 ^ 3" using e by (intro power_increasing) simp_all
  have "unat w * 2 ^ nat (e - 17) \<le> unat w * 2 ^ 3" by (rule mult_le_mono2 [OF p])
  also have "\<dots> < 2 ^ 56" using s by simp
  finally have b: "unat w * 2 ^ nat (e - 17) < 2 ^ 56" .
  obtain d where d: "shl64 w (e - 17) = Some d" "unat d = unat w * 2 ^ nat (e - 17)" using shl64_exact [of "e - 17" w] e b by auto
  have m: "unat (d mod kFive17) = unat d mod 5 ^ 17" "unat (d div kFive17) = unat d div 5 ^ 17" by (simp_all add: unat_mod unat_div)
  have mb: "unat d mod 5 ^ 17 < 5 ^ 17" by (rule mod_less_divisor) simp
  have "unat (d mod kFive17) * 2 ^ nat 17 < 2 ^ 64" unfolding m using mb by simp
  from shl64_exact [OF _ _ this] obtain r where r: "shl64 (d mod kFive17) 17 = Some r" "unat r = unat d mod 5 ^ 17 * 2 ^ 17"
    unfolding m by auto
  have q: "unat d div 5 ^ 17 < 10 ^ 5" using b unfolding d(2) by (intro less_mult_imp_div_less) simp
  have rb: "unat r < 5 ^ 17 * 2 ^ 17" unfolding r(2) using mb by (intro mult_strict_right_mono) simp_all
  have "nat e = nat (e - 17) + 17" using e by simp
  then have "unat w * 2 ^ nat e = unat d * 2 ^ 17" unfolding d(2) by (simp only: power_add mult.assoc)
  then have "unat w * 2 ^ nat e = (unat d div 5 ^ 17 * 5 ^ 17 + unat d mod 5 ^ 17) * 2 ^ 17" by (simp only: div_mult_mod_eq)
  moreover have "(x * 5 ^ 17 + y) * 2 ^ 17 = x * 10 ^ 17 + y * (2 :: nat) ^ 17" for x y by simp
  ultimately have "unat d div 5 ^ 17 * 10 ^ 17 + unat r = unat w * 2 ^ nat e" unfolding r(2) by metis
  then show ?thesis using rb d(1) r(1) quotient32 [of "d div kFive17"] q unfolding m by (intro exI conjI) (simp, simp_all)
qed

lemma divide_middle:
  assumes s: "unat w < 2 ^ 53" and e: "11 < e" "e \<le> 17"
  shows "\<exists>q r. do { divisor \<leftarrow> shl64 kFive17 (17 - e); r \<leftarrow> shl64 (w mod divisor) e; Some (ucast (w div divisor) :: 32 word, r) } = Some (q, r)
      \<and> unat r < 10 ^ 17 \<and> unat q * 10 ^ 17 + unat r = unat w * 2 ^ nat e \<and> unat q < 10 ^ 5"
proof -
  have "(2 :: nat) ^ nat (17 - e) \<le> 2 ^ 5" using e by (intro power_increasing) simp_all
  then have p: "(2 :: nat) ^ nat (17 - e) \<le> 2 ^ 5" "(1 :: nat) \<le> 2 ^ nat (17 - e)" by simp_all
  define D where "D = (5 :: nat) ^ 17 * 2 ^ nat (17 - e)"
  have "D \<le> 5 ^ 17 * 2 ^ 5" "5 ^ 17 * 1 \<le> D" unfolding D_def using p by (intro mult_le_mono2; simp)+
  then have D: "D < 2 ^ 64" "5 ^ 17 \<le> D" "0 < D" by simp_all
  obtain d where d: "shl64 kFive17 (17 - e) = Some d" "unat d = D" using shl64_exact [of "17 - e" kFive17] e D(1) unfolding five_17 D_def by auto
  have m: "unat (w mod d) = unat w mod D" "unat (w div d) = unat w div D" by (simp_all add: unat_mod unat_div d(2))
  have De: "D * 2 ^ nat e = 10 ^ 17"
  proof -
    have "nat (17 - e) + nat e = 17" using e by simp
    then have "D * 2 ^ nat e = 5 ^ 17 * 2 ^ 17" unfolding D_def mult.assoc power_add [symmetric] by (simp only:)
    then show ?thesis by simp
  qed
  have mb: "unat w mod D * 2 ^ nat e < 10 ^ 17" unfolding De [symmetric] using D(3) by (intro mult_strict_right_mono mod_less_divisor) simp_all
  then obtain r where r: "shl64 (w mod d) e = Some r" "unat r = unat w mod D * 2 ^ nat e" using shl64_exact [of e "w mod d"] e unfolding m by auto
  have "unat w div D \<le> unat w div 5 ^ 17" by (rule div_le_mono2) (use D(2) in simp_all)
  also have "\<dots> < 10 ^ 5" using s by (intro less_mult_imp_div_less) simp
  finally have q: "unat w div D < 10 ^ 5" .
  have "unat w div D * 10 ^ 17 + unat r = (unat w div D * D + unat w mod D) * 2 ^ nat e" unfolding r(2) De [symmetric] by (simp only: distrib_right mult.assoc)
  then have "unat w div D * 10 ^ 17 + unat r = unat w * 2 ^ nat e" by (simp only: div_mult_mod_eq)
  then show ?thesis using d(1) r mb quotient32 [of "w div d"] q unfolding m by (intro exI conjI) (simp, simp_all)
qed

lemma branch_large:
  assumes e: "Double_Exponent v = e" "11 < e" "e \<le> 20" and buf: "23 \<le> length buf"
  shows "branch_ok v n buf
    (do { (quotient, remainder) \<leftarrow>
            (if e > 17 then
               do { dividend \<leftarrow> shl64 (Double_Significand v) (e - 17);
                    r \<leftarrow> shl64 (dividend mod kFive17) 17;
                    Some (ucast (dividend div kFive17) :: 32 word, r) }
             else
               do { divisor \<leftarrow> shl64 kFive17 (17 - e);
                    r \<leftarrow> shl64 (Double_Significand v mod divisor) e;
                    Some (ucast (Double_Significand v div divisor), r) });
          (b1, n1) \<leftarrow> FillDigits32 quotient buf 0;
          (b2, n2) \<leftarrow> FillDigits64FixedLength remainder b1 n1;
          Some (b2, n2, int n2) })"
    (is "branch_ok v n buf (do { (quotient, remainder) \<leftarrow> ?div; _ quotient remainder })")
proof -
  note s = Significand_bounds(1) [of v]
  obtain q r where qr: "?div = Some (q, r)" "unat r < 10 ^ 17" "unat q * 10 ^ 17 + unat r = unat (Double_Significand v) * 2 ^ nat e" "unat q < 10 ^ 5"
  proof (cases "17 < e")
    case True
    then show ?thesis using divide_large [OF s True e(3)] that by auto
  next
    case False
    then show ?thesis using divide_middle [OF s e(2)] that by auto
  qed
  obtain t where t: "writes (FillDigits64FixedLength r) t" "all_decimal t" "decimal_value t = unat r" "length t = 17"
    using FillDigits64FixedLength_writes [OF qr(2)] by blast
  note w = writes_bind [OF FillDigits32_writes [of q] t(1)]
  have "dval v = real (decimal_value (decimal_text (unat q) @ t))"
    using qr(3) t(3,4) dval_nonneg [OF _ e(1)] e(2) by (simp add: decimal_value_append decimal_text_props)
  moreover have "length (decimal_text (unat q) @ t) < length buf" using decimal_text_length [OF qr(4)] t(4) buf by simp
  ultimately have "branch_ok v n buf (do { (b, k) \<leftarrow> (do { (b1, n1) \<leftarrow> FillDigits32 q buf 0; FillDigits64FixedLength r b1 n1 }); Some (b, k, int k) })"
    using t(2) by (intro writes_branch [OF w]) (simp_all add: decimal_text_props)
  then show ?thesis unfolding qr(1) by (simp add: split_def)
qed

lemma branch_integer:
  assumes e: "Double_Exponent v = e" "0 \<le> e" "e \<le> 11" and buf: "23 \<le> length buf"
  shows "branch_ok v n buf (do { number \<leftarrow> shl64 (Double_Significand v) e; (b1, n1) \<leftarrow> FillDigits64 number buf 0; Some (b1, n1, int n1) })"
proof -
  let ?s = "unat (Double_Significand v)"
  have "(2 :: nat) ^ nat e \<le> 2 ^ 11" using e by (intro power_increasing) simp_all
  then have "?s * 2 ^ nat e \<le> ?s * 2 ^ 11" by (rule mult_le_mono2)
  also have "\<dots> < 2 ^ 53 * 2 ^ 11" using Significand_bounds(1) [of v] by simp
  finally obtain w where w: "shl64 (Double_Significand v) e = Some w" "unat w = ?s * 2 ^ nat e" using shl64_exact [of e] e by auto
  obtain t where t: "writes (FillDigits64 w) t" "all_decimal t" "decimal_value t = unat w" "length t \<le> 20" using FillDigits64_writes by blast
  have "branch_ok v n buf (do { (b, k) \<leftarrow> FillDigits64 w buf 0; Some (b, k, int k) })"
    using t dval_nonneg [OF e(2,1)] w(2) buf by (intro writes_branch [OF t(1)]) simp_all
  then show ?thesis by (simp add: w(1))
qed

lemma dval_neg: "Double_Exponent v = - int p \<Longrightarrow> dval v = real (unat (Double_Significand v)) / 2 ^ p"
  by (simp add: dval_def power_int_minus field_simps)

lemma branch_fraction:
  assumes e: "Double_Exponent v = - int p" "1 \<le> p" "p < 53" and n: "n \<le> 20" and buf: "23 + n \<le> length buf"
  shows "branch_ok v n buf
    (do { integrals \<leftarrow> shr64 (Double_Significand v) (int p);
          back \<leftarrow> shl64 integrals (int p);
          (b1, n1) \<leftarrow> (if integrals > kMaxUInt32 then FillDigits64 integrals buf 0 else FillDigits32 (ucast integrals) buf 0);
          FillFractionals (Double_Significand v - back) (- int p) (int n) b1 n1 (int n1) })"
proof -
  let ?w = "Double_Significand v"
  let ?I = "drop_bit p ?w"
  have I: "unat ?I = unat ?w div 2 ^ p" by (rule unat_drop)
  have le: "unat ?I * 2 ^ p \<le> unat ?w" unfolding I by simp
  have "unat ?w < 2 ^ 64" by (rule unat64_less)
  with le have b: "unat (push_bit p ?I) = unat ?I * 2 ^ p" by (intro unat_push) simp
  have "push_bit p ?I \<le> ?w" using le b by (simp add: word_le_nat_alt)
  then have F: "unat (?w - push_bit p ?I) = unat ?w mod 2 ^ p" using b I by (simp add: unat_sub minus_div_mult_eq_mod)
  have f: "unat (?w - push_bit p ?I) < 2 ^ 53" "unat (?w - push_bit p ?I) < 2 ^ p"
    unfolding F using Significand_bounds(1) [of v] by (auto intro: le_less_trans [OF mod_less_eq_dividend])
  have "\<exists>t. writes (\<lambda>b k. if ?I > kMaxUInt32 then FillDigits64 ?I b k else FillDigits32 (ucast ?I) b k) t \<and> all_decimal t \<and> decimal_value t = unat ?I \<and> length t \<le> 20"
  proof (cases "?I > kMaxUInt32")
    case True
    then show ?thesis using FillDigits64_writes [of ?I] by (simp only: if_True)
  next
    case False
    then have "unat ?I < 2 ^ 32" by (simp add: word_less_nat_alt)
    then have c: "unat (ucast ?I :: 32 word) = unat ?I" by (simp only: unsigned_ucast_eq) (simp add: take_bit_nat_eq_self)
    have "length (decimal_text (unat ?I)) \<le> 20" using \<open>unat ?I < 2 ^ 32\<close> by (intro decimal_text_length) simp
    then show ?thesis using False FillDigits32_writes [of "ucast ?I"] decimal_text_props [of "unat ?I"] unfolding c by (simp only: if_False) blast
  qed
  then obtain t where t: "writes (\<lambda>b k. if ?I > kMaxUInt32 then FillDigits64 ?I b k else FillDigits32 (ucast ?I) b k) t"
      "all_decimal t" "decimal_value t = unat ?I" "length t \<le> 20" by blast
  have w: "(if ?I > kMaxUInt32 then FillDigits64 ?I buf 0 else FillDigits32 (ucast ?I) buf 0) = Some (t @ drop (length t) buf, length t)"
    using writesD [OF t(1), of buf "[]", unfolded append_Nil list.size(3)] t(4) buf by linarith
  have "n + 1 \<le> length (drop (length t) buf)" using t(4) buf by simp
  from FillFractionals_correct [OF f _ n t(2) this] e(3) obtain ds dp where r:
    "FillFractionals (?w - push_bit p ?I) (- int p) (int n) (t @ drop (length t) buf) (length t) (int (length t)) = Some (ds @ drop (length ds) (t @ drop (length t) buf), length ds, dp)"
    "length ds \<le> max 1 (length t + n)" "holds (rounded_at (real (unat ?I) + real (unat (?w - push_bit p ?I)) / 2 ^ p) n) ds dp"
    unfolding t(3) by auto
  have "real (unat ?w) = real (unat ?I * 2 ^ p + unat (?w - push_bit p ?I))" unfolding F I by (simp only: div_mult_mod_eq)
  then have "dval v = real (unat ?I) + real (unat (?w - push_bit p ?I)) / 2 ^ p" unfolding dval_neg [OF e(1)] by (simp add: field_simps)
  then have "branch_ok v n buf (Some (ds @ drop (length ds) (t @ drop (length t) buf), length ds, dp))"
    using r(2,3) t(4) buf by (intro branch_okI [OF refl]) simp_all
  then show ?thesis using e w r(1) by (simp add: shr64_def shl64_def)
qed

lemma tiny_rounds_to_zero: "0 \<le> x \<Longrightarrow> x \<le> 1 / 2 ^ 76 \<Longrightarrow> n \<le> 20 \<Longrightarrow> rounded_at x n = 0"
proof -
  assume x: "0 \<le> x" "x \<le> 1 / 2 ^ 76" and n: "n \<le> 20"
  have "(10 :: real) ^ n \<le> 10 ^ 20" using n by (intro power_increasing) simp_all
  then have "x * 10 ^ n \<le> x * 10 ^ 20" by (rule mult_left_mono [OF _ x(1)])
  also have "\<dots> < 1 / 2" using x(2) by simp
  finally have "x * 10 ^ n < 1 / 2" .
  moreover have "0 \<le> x * 10 ^ n" using x(1) by simp
  ultimately have "\<lfloor>x * 10 ^ n + 1 / 2\<rfloor> = 0" by (simp add: floor_eq_iff)
  then show ?thesis by (simp add: rounded_at_def)
qed

lemma dval_ge0: "0 \<le> dval v"
  unfolding dval_def by (intro mult_nonneg_nonneg of_nat_0_le_iff zero_le_power_int) simp

lemma branch_tiny:
  assumes e: "Double_Exponent v < - 128" and n: "n \<le> 20" and buf: "1 \<le> length buf"
  shows "branch_ok v n buf (do { b1 \<leftarrow> bput buf 0 (CHR 0x00); Some (b1, 0, - int n) })"
proof -
  have "2 powi Double_Exponent v \<le> (2 :: real) powi (- 129)" using e by (intro power_int_increasing) simp_all
  moreover have "real (unat (Double_Significand v)) \<le> 2 ^ 53"
    using Significand_bounds(1) [of v] by (metis less_imp_le of_nat_le_iff of_nat_numeral of_nat_power)
  ultimately have "dval v \<le> 2 ^ 53 * 2 powi (- 129)" unfolding dval_def by (intro mult_mono) simp_all
  also have "\<dots> = 1 / 2 ^ 76" by (simp add: power_int_def power_one_over)
  finally have "rounded_at (dval v) n = 0" using n dval_ge0 by (intro tiny_rounds_to_zero)
  then show ?thesis using buf by (intro branch_okI [of _ "[]" "buf[0 := CHR 0x00]" "- int n"]) (auto simp: bput_def holds_def)
qed

lemma branch_small:
  assumes e: "Double_Exponent v = - int p" "53 \<le> p" "p \<le> 128" and n: "n \<le> 20" and buf: "23 + n \<le> length buf"
  shows "branch_ok v n buf (FillFractionals (Double_Significand v) (- int p) (int n) buf 0 0)"
proof -
  have "(2 :: nat) ^ 53 \<le> 2 ^ p" using e(2) by (intro power_increasing) simp_all
  then have f: "unat (Double_Significand v) < 2 ^ 53" "unat (Double_Significand v) < 2 ^ p" using Significand_bounds(1) [of v] by linarith+
  have "n + 1 \<le> length buf" using buf by simp
  from FillFractionals_correct [OF f e(3) n _ this, of "[]"] obtain ds dp where r:
    "FillFractionals (Double_Significand v) (- int p) (int n) buf 0 0 = Some (ds @ drop (length ds) buf, length ds, dp)"
    "length ds \<le> max 1 n" "holds (rounded_at (dval v) n) ds dp" unfolding dval_neg [OF e(1)] by auto
  then show ?thesis using buf by (intro branch_okI [OF r(1)]) simp_all
qed

lemma finish_fixed:
  assumes "branch_ok v n buf r"
  shows "\<exists>ds point tail. do { (buffer1, len1, decimal_point1) \<leftarrow> r;
        (buffer2, len2, decimal_point2) \<leftarrow> TrimZeros buffer1 len1 decimal_point1;
        buffer3 \<leftarrow> bput buffer2 len2 (CHR 0x00);
        if len2 = 0 then Some (True, buffer3, len2, - int n) else Some (True, buffer3, len2, decimal_point2) }
      = Some (True, ds @ CHR 0x00 # tail, length ds, point)
    \<and> length (ds @ CHR 0x00 # tail) = length buf \<and> all_decimal ds \<and> (ds \<noteq> [] \<longrightarrow> hd ds \<noteq> CHR ''0'' \<and> last ds \<noteq> CHR ''0'')
    \<and> (ds = [] \<longrightarrow> point = - int n) \<and> real (decimal_value ds) * 10 powi (point - int (length ds)) = rounded_at (dval v) n"
proof -
  obtain xs dp rest where b: "r = Some (xs @ rest, length xs, dp)" "length (xs @ rest) = length buf" "length xs < length buf" "holds (rounded_at (dval v) n) xs dp"
    using assms unfolding branch_ok_def by blast
  obtain ds dp' tl where t: "TrimZeros (xs @ rest) (length xs) dp = Some (ds @ tl, length ds, dp')" "length (ds @ tl) = length (xs @ rest)"
      "all_decimal ds" "ds \<noteq> [] \<longrightarrow> hd ds \<noteq> CHR ''0'' \<and> last ds \<noteq> CHR ''0''" "real (decimal_value ds) * 10 powi (dp' - int (length ds)) = real (decimal_value xs) * 10 powi (dp - int (length xs))" "length ds \<le> length xs"
    using TrimZeros_correct [of xs rest dp] b(4) unfolding holds_def by blast
  obtain z tail where tl: "tl = z # tail" using t(2,6) b(2,3) by (cases tl) auto
  have "bput (ds @ tl) (length ds) (CHR 0x00) = Some (ds @ CHR 0x00 # tail)" by (simp add: bput_def tl list_update_append)
  then show ?thesis using b t tl unfolding holds_def
    by (intro exI [of _ ds], intro exI [of _ "if ds = [] then - int n else dp'"], intro exI [of _ tail]) auto
qed

lemma fixed_result:
  assumes buf: "23 + n \<le> length buf"
  shows "if Double_Exponent v > 20 \<or> n > 20 then FastFixedDtoa v (int n) buf len0 point0 = Some (False, buf, len0, point0)
    else \<exists>ds point tail. FastFixedDtoa v (int n) buf len0 point0 = Some (True, ds @ CHR 0x00 # tail, length ds, point)
      \<and> length (ds @ CHR 0x00 # tail) = length buf \<and> all_decimal ds \<and> (ds \<noteq> [] \<longrightarrow> hd ds \<noteq> CHR ''0'' \<and> last ds \<noteq> CHR ''0'')
      \<and> (ds = [] \<longrightarrow> point = - int n) \<and> real (decimal_value ds) * 10 powi (point - int (length ds)) = rounded_at (dval v) n"
proof (cases "Double_Exponent v > 20 \<or> n > 20")
  case True
  then have "20 < Double_Exponent v \<or> 20 < int n" by auto
  then have "FastFixedDtoa v (int n) buf len0 point0 = Some (False, buf, len0, point0)"
    unfolding FastFixedDtoa_def Let_def by (cases "20 < Double_Exponent v") simp_all
  then show ?thesis using True by (simp only: if_True)
next
  case False
  define e where "e = Double_Exponent v"
  have e: "Double_Exponent v = e" "\<not> e > 20" "\<not> int n > 20" "n \<le> 20" "e \<le> 20" and bl: "23 \<le> length buf" "1 \<le> length buf"
    using False buf by (auto simp: e_def)
  have neg: "e = - int (nat (- e))" if "e < 0" using that by simp
  note large = branch_large [OF e(1) _ e(5) bl(1), of n] and integer = branch_integer [OF e(1) _ _ bl(1), of n]
  have fraction: "branch_ok v n buf
    (do { integrals \<leftarrow> shr64 (Double_Significand v) (- e);
          back \<leftarrow> shl64 integrals (- e);
          (b1, n1) \<leftarrow> (if integrals > kMaxUInt32 then FillDigits64 integrals buf 0 else FillDigits32 (ucast integrals) buf 0);
          FillFractionals (Double_Significand v - back) e (int n) b1 n1 (int n1) })" if "e < 0" "- 53 < e"
    using branch_fraction [of v "nat (- e)" n buf] e(1,4) buf that by simp
  have small: "branch_ok v n buf (FillFractionals (Double_Significand v) e (int n) buf 0 0)" if "e \<le> - 53" "- 128 \<le> e"
    using branch_small [of v "nat (- e)" n buf] e(1,4) buf that by simp
  have tiny: "branch_ok v n buf (do { b1 \<leftarrow> bput buf 0 (CHR 0x00); Some (b1, 0, - int n) })" if "e < - 128"
    using branch_tiny [of v n buf] e(1,4) bl(2) that by simp
  have if_ok: "branch_ok v n buf (if A then x else y)" if "A \<Longrightarrow> branch_ok v n buf x" "\<not> A \<Longrightarrow> branch_ok v n buf y" for A x y
    using that by simp
  have "\<exists>r. branch_ok v n buf r \<and> FastFixedDtoa v (int n) buf len0 point0 = do { (buffer1, len1, decimal_point1) \<leftarrow> r;
        (buffer2, len2, decimal_point2) \<leftarrow> TrimZeros buffer1 len1 decimal_point1;
        buffer3 \<leftarrow> bput buffer2 len2 (CHR 0x00);
        if len2 = 0 then Some (True, buffer3, len2, - int n) else Some (True, buffer3, len2, decimal_point2) }"
    unfolding FastFixedDtoa_def e(1) Let_def if_not_P [OF e(2)] if_not_P [OF e(3)]
    by (rule exI, rule conjI [OF _ refl]) (intro if_ok large integer fraction tiny small; simp)
  then obtain r where r: "branch_ok v n buf r" "FastFixedDtoa v (int n) buf len0 point0 = do { (buffer1, len1, decimal_point1) \<leftarrow> r;
        (buffer2, len2, decimal_point2) \<leftarrow> TrimZeros buffer1 len1 decimal_point1;
        buffer3 \<leftarrow> bput buffer2 len2 (CHR 0x00);
        if len2 = 0 then Some (True, buffer3, len2, - int n) else Some (True, buffer3, len2, decimal_point2) }" by (elim exE conjE)
  show ?thesis using finish_fixed [OF r(1), folded r(2)] False by (simp only: if_False)
qed

section \<open>Property\<close>

text \<open>C16: the fast conversion to a fixed number of digits refuses exactly the doubles with an exponent above
  20 and more than 20 digits, and then leaves buffer and results alone. For all other doubles, zero and
  denormals included, it returns the value of the double rounded half up at the requested digit: a digit
  string without zeros at either end, terminated by NUL, with the position of the point (minus the
  requested number of digits when the string is empty). A buffer of 23 characters and one for each
  requested digit is enough, and no 64-bit or 128-bit operation overflows.\<close>

theorem fast_fixed_dtoa:
  assumes "23 + n \<le> length buf"
  shows "if Double_Exponent v > 20 \<or> n > 20 then FastFixedDtoa v (int n) buf len0 point0 = Some (False, buf, len0, point0)
    else \<exists>ds point tail. FastFixedDtoa v (int n) buf len0 point0 = Some (True, ds @ CHR 0x00 # tail, length ds, point)
      \<and> length (ds @ CHR 0x00 # tail) = length buf \<and> (\<forall>c\<in>set ds. is_decimal c)
      \<and> (ds \<noteq> [] \<longrightarrow> hd ds \<noteq> CHR ''0'' \<and> last ds \<noteq> CHR ''0'') \<and> (ds = [] \<longrightarrow> point = - int n)
      \<and> real (decimal_value ds) * 10 powi (point - int (length ds)) = of_int \<lfloor>dval v * 10 ^ n + 1 / 2\<rfloor> / 10 ^ n"
  using fixed_result [OF assms, of v len0 point0] unfolding all_decimal_def rounded_at_def .

theorem fast_fixed_dtoa_witness:
  "\<exists>ds point tail. FastFixedDtoa 0x400921FB54442D18 (int 2) (replicate 25 (CHR ''x'')) 0 0 = Some (True, ds @ CHR 0x00 # tail, length ds, point)
      \<and> length (ds @ CHR 0x00 # tail) = 25 \<and> (\<forall>c\<in>set ds. is_decimal c)
      \<and> (ds \<noteq> [] \<longrightarrow> hd ds \<noteq> CHR ''0'' \<and> last ds \<noteq> CHR ''0'') \<and> (ds = [] \<longrightarrow> point = - int 2)
      \<and> real (decimal_value ds) * 10 powi (point - int (length ds)) = of_int \<lfloor>dval 0x400921FB54442D18 * 10 ^ 2 + 1 / 2\<rfloor> / 10 ^ 2"
proof -
  have "Double_Exponent 0x400921FB54442D18 = - 51" by (simp add: Double_Exponent_def Double_IsDenormal_def)
  then show ?thesis using fast_fixed_dtoa [of 2 "replicate 25 (CHR ''x'')" "0x400921FB54442D18" 0 0] by simp
qed

end
