(* ===== verification/ConversionText.thy ===== *)
theory ConversionText
  imports DoubleConversion FixedProps
begin

text \<open>
  The formatting of digits (\<open>double-conversion.cc\<close>): every formatting step appends a text to the builder, or
  fails when the text does not fit; and what the texts mean.
\<close>

section \<open>Appending\<close>

definition sb_ok :: "StringBuilder \<Rightarrow> bool" where
  "sb_ok b \<longleftrightarrow> 0 \<le> sb_position b \<and> sb_position b \<le> int (length (sb_buffer b))"

fun add_text :: "StringBuilder \<Rightarrow> string \<Rightarrow> StringBuilder option" where
  "add_text b [] = Some b"
| "add_text b (c # s) = do { b' \<leftarrow> AddCharacter b c; add_text b' s }"

lemma add_text_append: "add_text b (s @ t) = do { b' \<leftarrow> add_text b s; add_text b' t }"
  by (induction s arbitrary: b) (auto split: bind_splits)

lemma AddCharacter_ok: "sb_ok b \<Longrightarrow> AddCharacter b c = Some b' \<Longrightarrow> sb_ok b'"
  by (auto simp: AddCharacter_def bput_def sb_ok_def split: if_splits)

lemma add_text_ok: "sb_ok b \<Longrightarrow> add_text b s = Some b' \<Longrightarrow> sb_ok b'"
  by (induction s arbitrary: b) (auto split: bind_splits dest: AddCharacter_ok)

text \<open>A step that appends \<open>t\<close> after a step that appends \<open>s\<close> appends both.\<close>

lemma text_step:
  assumes "sb_ok b" "r = add_text b s" "\<And>b'. sb_ok b' \<Longrightarrow> f b' = add_text b' t"
  shows "(r \<bind> f) = add_text b (s @ t)"
proof (cases "add_text b s")
  case (Some b')
  then show ?thesis using assms add_text_ok [OF assms(1) Some] by (simp add: add_text_append)
qed (simp add: add_text_append assms(2))

text \<open>What appending does to the buffer.\<close>

lemma add_text_eq:
  assumes "sb_ok b"
  shows "add_text b s = (if sb_position b + int (length s) \<le> int (length (sb_buffer b))
    then Some (b\<lparr>sb_buffer := take (nat (sb_position b)) (sb_buffer b) @ s @ drop (nat (sb_position b) + length s) (sb_buffer b),
                 sb_position := sb_position b + int (length s)\<rparr>) else None)"
  using assms
proof (induction s arbitrary: b)
  case Nil
  then show ?case by (simp add: sb_ok_def)
next
  case (Cons c s)
  define p where "p = nat (sb_position b)"
  have p: "sb_position b = int p" "p \<le> length (sb_buffer b)" using Cons.prems by (auto simp: sb_ok_def p_def)
  show ?case
  proof (cases "p < length (sb_buffer b)")
    case False
    then show ?thesis using p by (simp add: AddCharacter_def bput_def)
  next
    case True
    let ?b = "b\<lparr>sb_buffer := (sb_buffer b)[p := c], sb_position := int p + 1\<rparr>"
    have add: "AddCharacter b c = Some ?b" using True p by (simp add: AddCharacter_def bput_def)
    have "take (Suc p) ((sb_buffer b)[p := c]) = take p (sb_buffer b) @ [c]" using True by (simp add: take_Suc_conv_app_nth)
    moreover have "nat (1 + int p) = Suc p" by simp
    ultimately show ?thesis using Cons.IH [OF AddCharacter_ok [OF Cons.prems add]] p add by (simp add: nat_add_distrib add.commute)
  qed
qed

lemma AddSubstring_text:
  assumes "sb_ok b" "n = int k" "k \<le> length s"
  shows "AddSubstring b s n = add_text b (take k s)"
  using assms unfolding add_text_eq [OF assms(1)] by (auto simp: AddSubstring_def sb_ok_def nat_add_distrib)

lemma AddString_text: "sb_ok b \<Longrightarrow> AddString b s = add_text b s"
  using AddSubstring_text [of b "int (length s)" "length s" s] by (simp add: AddString_def)

lemma AddCharacter_text: "AddCharacter b c = add_text b [c]"
  by (cases "AddCharacter b c") simp_all

lemma AddPadding_text: "AddPadding b c n = add_text b (replicate (nat n) c)"
proof -
  have "padding_loop b c k = add_text b (replicate k c)" for k by (induction k arbitrary: b) simp_all
  then show ?thesis by (simp add: AddPadding_def)
qed

lemma Some_text: "Some b = add_text b []"
  by simp


definition appends :: "(StringBuilder \<Rightarrow> StringBuilder option) \<Rightarrow> string \<Rightarrow> bool" where
  "appends f t \<longleftrightarrow> (\<forall>b. sb_ok b \<longrightarrow> f b = add_text b t)"

named_theorems text_intros

lemma appends_character [text_intros]: "appends (\<lambda>b. AddCharacter b c) [c]"
  unfolding appends_def using AddCharacter_text by blast

lemma appends_substring: "n = int k \<Longrightarrow> k \<le> length s \<Longrightarrow> appends (\<lambda>b. AddSubstring b s n) (take k s)"
  unfolding appends_def using AddSubstring_text by blast

lemma appends_string [text_intros]: "appends (\<lambda>b. AddString b s) s"
  unfolding appends_def using AddString_text by blast

lemma appends_padding [text_intros]: "appends (\<lambda>b. AddPadding b c n) (replicate (nat n) c)"
  unfolding appends_def using AddPadding_text by blast

lemma appends_nothing [text_intros]: "appends Some []"
  unfolding appends_def by simp

lemma appends_step [text_intros]: "appends f s \<Longrightarrow> appends g t \<Longrightarrow> appends (\<lambda>b. f b \<bind> g) (s @ t)"
  unfolding appends_def using text_step by blast

lemma appends_if [text_intros]: "(P \<Longrightarrow> appends f s) \<Longrightarrow> (\<not> P \<Longrightarrow> appends g t) \<Longrightarrow> appends (\<lambda>b. if P then f b else g b) (if P then s else t)"
  by simp

lemma appends_cong: "appends f s \<Longrightarrow> s = t \<Longrightarrow> appends f t"
  by simp

section \<open>Decimal notation\<close>

abbreviation zeros :: "int \<Rightarrow> string" where
  "zeros n \<equiv> replicate (nat n) (CHR ''0'')"

definition decimal_notation :: "string \<Rightarrow> int \<Rightarrow> int \<Rightarrow> string" where
  "decimal_notation ds point after =
     (if point \<le> 0 then ''0'' @ (if after > 0 then ''.'' @ zeros (- point) @ ds @ zeros (after + point - int (length ds)) else [])
      else if point \<ge> int (length ds) then ds @ zeros (point - int (length ds)) @ (if after > 0 then ''.'' @ zeros after else [])
      else take (nat point) ds @ ''.'' @ drop (nat point) ds @ zeros (after - (int (length ds) - point)))"

lemma CreateDecimalRepresentation_text:
  assumes flags: "\<not> has_flag this EMIT_TRAILING_DECIMAL_POINT" "\<not> has_flag this EMIT_TRAILING_ZERO_AFTER_POINT"
  shows "appends (CreateDecimalRepresentation this (ds @ rest) (int (length ds)) point after) (decimal_notation ds point after)"
proof -
  have sub: "appends (\<lambda>b. AddSubstring b (ds @ rest) (int (length ds))) ds"
    using appends_substring [of "int (length ds)" "length ds" "ds @ rest"] by simp
  have s1: "appends (\<lambda>b. AddSubstring b (ds @ rest) point) (take (nat point) ds)"
    "appends (\<lambda>b. AddSubstring b (drop (nat point) (ds @ rest)) (int (length ds) - point)) (drop (nat point) ds)"
    if "\<not> point \<le> 0" "\<not> int (length ds) \<le> point"
    using that appends_substring [of point "nat point" "ds @ rest"]
      appends_substring [of "int (length ds) - point" "length ds - nat point" "drop (nat point) (ds @ rest)"] by simp_all
  show ?thesis
    unfolding CreateDecimalRepresentation_def
    by (rule appends_cong, (rule text_intros sub s1 | assumption)+) (use flags in \<open>simp add: decimal_notation_def\<close>)
qed

section \<open>Exponential notation\<close>

fun decimal_of :: "nat \<Rightarrow> string" where
  "decimal_of n = (if n < 10 then [char_of (n + 48)] else decimal_of (n div 10) @ [char_of (n mod 10 + 48)])"

declare decimal_of.simps [simp del]

definition exponential_notation :: "DoubleToStringConverter \<Rightarrow> string \<Rightarrow> int \<Rightarrow> string" where
  "exponential_notation this ds expnt =
     hd ds # (if length ds \<noteq> 1 then CHR ''.'' # tl ds else []) @ exponent_character this
       # (if expnt < 0 then ''-'' else if has_flag this EMIT_POSITIVE_EXPONENT_SIGN then ''+'' else []) @ decimal_of (nat \<bar>expnt\<bar>)"

lemma exponent_loop_correct:
  "0 < e \<Longrightarrow> e < 10 ^ pos \<Longrightarrow> pos \<le> length pre \<Longrightarrow>
    \<exists>pre' pos'. exponent_loop e (pre @ suf) pos = Some (pre' @ decimal_of e @ drop pos pre @ suf, pos') \<and> length pre' = pos' \<and> pos' + length (decimal_of e) = pos"
proof (induction e arbitrary: pos pre suf rule: less_induct)
  case (less e)
  obtain p where p: "pos = Suc p" using less.prems(1,2) by (cases pos) auto
  let ?c = "char_of (e mod 10 + 48) :: char"
  have put: "bput (pre @ suf) p ?c = Some (pre[p := ?c] @ suf)" using less.prems(3) p by (simp add: bput_def list_update_append)
  have dr: "drop p (pre[p := ?c]) = ?c # drop (Suc p) pre" using less.prems(3) p by (simp add: Cons_nth_drop_Suc [symmetric])
  show ?case
  proof (cases "e < 10")
    case True
    then have "exponent_loop e (pre @ suf) pos = Some (pre[p := ?c] @ suf, p)"
      using less.prems(1) put p by (simp add: exponent_loop.simps [of e] exponent_loop.simps [of 0])
    moreover have "pre[p := ?c] @ suf = take p pre @ [?c] @ drop pos pre @ suf"
      using dr p less.prems(3) by (metis append.assoc append_Cons append_Nil append_take_drop_id take_update_cancel order.refl)
    moreover have "decimal_of e = [?c]" using True by (simp add: decimal_of.simps)
    ultimately show ?thesis using p less.prems(3) by (intro exI [of _ "take p pre"] exI [of _ p]) simp
  next
    case False
    have "e div 10 < e" "0 < e div 10" "e div 10 < 10 ^ p" "p \<le> length (pre[p := ?c])" using False less.prems p by auto
    from less.IH [OF this, of suf] obtain pre' pos' where
      r: "exponent_loop (e div 10) (pre[p := ?c] @ suf) p = Some (pre' @ decimal_of (e div 10) @ drop p (pre[p := ?c]) @ suf, pos')"
        "length pre' = pos'" "pos' + length (decimal_of (e div 10)) = p" by blast
    have "decimal_of e = decimal_of (e div 10) @ [?c]" using False by (simp add: decimal_of.simps [of e])
    then show ?thesis using r put p less.prems(1) unfolding dr by (intro exI [of _ pre'] exI [of _ pos']) (simp add: exponent_loop.simps [of e])
  qed
qed

lemma CreateExponentialRepresentation_text:
  assumes ds: "ds \<noteq> []" and e: "\<bar>expnt\<bar> < 10 ^ 5"
  shows "appends (CreateExponentialRepresentation this (ds @ rest) (int (length ds)) expnt u) (exponential_notation this ds expnt)"
proof -
  have c: "bget (ds @ rest) 0 = Some (hd ds)" using ds by (cases ds) (simp_all add: bget_def)
  have tl: "appends (\<lambda>b. AddSubstring b (drop 1 (ds @ rest)) (int (length ds) - 1)) (tl ds)"
    using appends_substring [of "int (length ds) - 1" "length ds - 1" "drop 1 (ds @ rest)"] ds by (cases ds) simp_all
  define tail where "tail = (\<lambda>b (n :: int). if n = 0 then AddCharacter b (CHR ''0'')
      else do { buffer \<leftarrow> bput (uninit_array u 6) 5 (CHR 0x00);
                (buffer', first_char_pos) \<leftarrow> exponent_loop (nat n) buffer 5;
                AddSubstring b (drop first_char_pos buffer') (5 - int first_char_pos) })"
  have t: "appends (\<lambda>b. tail b n) (decimal_of (nat n))" if n: "0 \<le> n" "n < 10 ^ 5" for n
  proof (cases "n = 0")
    case True
    have "decimal_of 0 = ''0''" using digit_char_of_nat [of 0] digit_char_cases [of 0] by (simp add: decimal_of.simps)
    then show ?thesis using True appends_character [of "CHR ''0''"] by (simp add: tail_def)
  next
    case False
    have six: "length (uninit_array u 6) = 6" by (simp add: uninit_array_def)
    obtain pre where pre: "bput (uninit_array u 6) 5 (CHR 0x00) = Some (pre @ [CHR 0x00])" "length pre = 5"
    proof -
      have "(uninit_array u 6)[5 := CHR 0x00] = take 5 (uninit_array u 6) @ [CHR 0x00]" using six by (simp add: upd_conv_take_nth_drop)
      then show thesis using six that [of "take 5 (uninit_array u 6)"] by (simp add: bput_def)
    qed
    obtain pre' pos' where r: "exponent_loop (nat n) (pre @ [CHR 0x00]) 5 = Some (pre' @ decimal_of (nat n) @ drop 5 pre @ [CHR 0x00], pos')"
        "length pre' = pos'" "pos' + length (decimal_of (nat n)) = 5"
      using exponent_loop_correct [of "nat n" 5 pre "[CHR 0x00]"] n False pre(2) by (auto simp: nat_less_iff)
    have "appends (\<lambda>b. AddSubstring b (drop pos' (pre' @ decimal_of (nat n) @ drop 5 pre @ [CHR 0x00])) (5 - int pos')) (decimal_of (nat n))"
      using appends_substring [of "5 - int pos'" "length (decimal_of (nat n))" "decimal_of (nat n) @ drop 5 pre @ [CHR 0x00]"] r(2,3) by simp
    then show ?thesis using False pre(1) r(1) by (simp add: tail_def)
  qed
  have sg: "appends (\<lambda>b3. (if expnt < 0 then do { b' \<leftarrow> AddCharacter b3 (CHR ''-''); Some (b', - expnt) }
        else if has_flag this EMIT_POSITIVE_EXPONENT_SIGN then do { b' \<leftarrow> AddCharacter b3 (CHR ''+''); Some (b', expnt) }
        else Some (b3, expnt)) \<bind> (\<lambda>(b4, n). tail b4 n))
      ((if expnt < 0 then ''-'' else if has_flag this EMIT_POSITIVE_EXPONENT_SIGN then ''+'' else []) @ decimal_of (nat \<bar>expnt\<bar>))"
  proof -
    have "appends (\<lambda>b3. (if expnt < 0 then AddCharacter b3 (CHR ''-'') else if has_flag this EMIT_POSITIVE_EXPONENT_SIGN then AddCharacter b3 (CHR ''+'') else Some b3)
        \<bind> (\<lambda>b4. tail b4 \<bar>expnt\<bar>))
      ((if expnt < 0 then ''-'' else if has_flag this EMIT_POSITIVE_EXPONENT_SIGN then ''+'' else []) @ decimal_of (nat \<bar>expnt\<bar>))"
      by (intro text_intros t) (use e in simp_all)
    then show ?thesis by (cases "expnt < 0"; cases "has_flag this EMIT_POSITIVE_EXPONENT_SIGN") (simp_all add: bind_assoc)
  qed
  have "appends (\<lambda>b. AddCharacter b (hd ds) \<bind> (\<lambda>b1. (if int (length ds) \<noteq> 1 then AddCharacter b1 (CHR ''.'') \<bind>
        (\<lambda>b'. AddSubstring b' (drop 1 (ds @ rest)) (int (length ds) - 1)) else Some b1) \<bind> (\<lambda>b2. AddCharacter b2 (exponent_character this) \<bind>
        (\<lambda>b3. (if expnt < 0 then do { b' \<leftarrow> AddCharacter b3 (CHR ''-''); Some (b', - expnt) }
          else if has_flag this EMIT_POSITIVE_EXPONENT_SIGN then do { b' \<leftarrow> AddCharacter b3 (CHR ''+''); Some (b', expnt) }
          else Some (b3, expnt)) \<bind> (\<lambda>(b4, n). tail b4 n))))) (exponential_notation this ds expnt)"
    by (rule appends_cong, (rule text_intros tl sg)+) (simp add: exponential_notation_def)
  then show ?thesis unfolding CreateExponentialRepresentation_def c bind.simps tail_def by simp
qed

end
