(* ===== verification/CachedTable.thy ===== *)
theory CachedTable
  imports CachedPowers DtoaEstimate
begin

text \<open>
  The table of \<open>cached-powers.cc\<close> against the exact powers of ten: every entry is evaluated.
\<close>

section \<open>The table\<close>

text \<open>Every significand is normalized and within half a unit of the power of ten. The inequality is
  multiplied out to integers and divided by the powers of two, so that a power of five \<open>x\<close> remains.\<close>

definition entry_ok :: "CachedPower \<Rightarrow> int \<Rightarrow> bool" where
  "entry_ok c x \<longleftrightarrow>
     (let f = uint (significand c); p = nat (binary_exponent c - decimal_exponent c); n = nat (decimal_exponent c - binary_exponent c)
      in 2 ^ 63 \<le> f \<and> (if decimal_exponent c < 0 then 2 * \<bar>f * 2 ^ p * x - 2 ^ n\<bar> \<le> x * 2 ^ p else 2 * \<bar>f * 2 ^ p - x * 2 ^ n\<bar> \<le> 2 ^ p))"

text \<open>Neighbouring entries differ by eight decimal orders.\<close>

fun rows_ok :: "CachedPower list \<Rightarrow> int \<Rightarrow> bool" where
  "rows_ok [] x = True"
| "rows_ok (c # cs) x = (entry_ok c x \<and> rows_ok cs (x * 390625))"

lemma table_negative: "rows_ok (rev (take 44 kCachedPowers)) 625"
  by (simp add: kCachedPowers_def CachedPower.make_def entry_ok_def)

lemma table_positive: "rows_ok (drop 44 kCachedPowers) 625"
  by (simp add: kCachedPowers_def CachedPower.make_def entry_ok_def)

lemma table_decimal: "map decimal_exponent kCachedPowers = map (\<lambda>i. - 348 + 8 * int i) [0..<87]"
  by (simp add: kCachedPowers_def CachedPower.make_def upt_rec)

lemma table_length: "length kCachedPowers = 87"
  using arg_cong [OF table_decimal, of length] by simp

end
