(* ===== verification/CachedProps.thy ===== *)
theory CachedProps
  imports CachedTable
begin

text \<open>
  The choice of a cached power by binary exponent in rounded double arithmetic: the entry exists, has the
  right order, and is within half a unit of the exact power of ten.
\<close>

section \<open>Entries\<close>

lemma rows_ok_nth: "rows_ok cs x \<Longrightarrow> i < length cs \<Longrightarrow> entry_ok (cs ! i) (x * 390625 ^ i)"
proof (induction cs x arbitrary: i rule: rows_ok.induct)
  case (2 c cs x)
  then show ?case by (cases i) (simp_all add: mult_ac)
qed simp

lemma entry_five: "i < 87 \<Longrightarrow> entry_ok (kCachedPowers ! i) (5 ^ nat \<bar>- 348 + 8 * int i\<bar>)"
proof -
  assume i: "i < 87"
  have five: "(625 :: int) * 390625 ^ j = 5 ^ (8 * j + 4)" for j by (simp add: power_add power_mult)
  show ?thesis
  proof (cases "i < 44")
    case True
    have "rev (take 44 kCachedPowers) ! (43 - i) = kCachedPowers ! i" using True by (simp add: rev_nth table_length)
    moreover have "nat \<bar>- 348 + 8 * int i\<bar> = 8 * (43 - i) + 4" using True by (simp add: nat_eq_iff)
    ultimately show ?thesis using rows_ok_nth [OF table_negative, of "43 - i"] True unfolding five by (simp add: table_length)
  next
    case False
    then have "drop 44 kCachedPowers ! (i - 44) = kCachedPowers ! i" by (simp add: table_length)
    moreover have "nat \<bar>- 348 + 8 * int i\<bar> = 8 * (i - 44) + 4" using False by (simp add: nat_eq_iff)
    ultimately show ?thesis using rows_ok_nth [OF table_positive, of "i - 44"] False i unfolding five by (simp add: table_length)
  qed
qed

lemma entry_decimal: "i < 87 \<Longrightarrow> decimal_exponent (kCachedPowers ! i) = - 348 + 8 * int i"
  using arg_cong [OF table_decimal, of "\<lambda>xs. xs ! i"] by (simp add: table_length)

definition approximates :: "DiyFp \<Rightarrow> int \<Rightarrow> bool" where
  "approximates c d \<longleftrightarrow> 2 ^ 63 \<le> unat (diy_f c) \<and> \<bar>real (unat (diy_f c)) * 2 powi diy_e c - 10 powi d\<bar> \<le> 2 powi diy_e c / 2"

lemma entry_approximates:
  assumes i: "i < 87" and c: "c = kCachedPowers ! i"
  shows "approximates (DiyFp_new (significand c) (binary_exponent c)) (decimal_exponent c)"
proof -
  define f e d where "f = uint (significand c)" and "e = binary_exponent c" and "d = decimal_exponent c"
  have fr: "real (unat (significand c)) = of_int f" unfolding f_def by (metis of_int_of_nat_eq uint_nat)
  have d: "d = - 348 + 8 * int i" using entry_decimal [OF i] c by (simp add: d_def)
  note ok = entry_five [OF i, folded c d, unfolded entry_ok_def Let_def, folded f_def e_def d_def]
  define p n where "p = nat (e - d)" and "n = nat (d - e)"
  have scale: "(2 :: real) powi e = 2 powi d * (2 ^ p / 2 ^ n)"
  proof -
    have "(2 :: real) powi (e - d) = 2 ^ p / 2 ^ n" unfolding p_def n_def using powi_nat [of 2 "e - d"] by simp
    then show ?thesis using power_int_add [of "2 :: real" d "e - d"] by simp
  qed
  have ten: "(10 :: real) powi d = 2 powi d * 5 powi d" by (simp flip: power_int_mult_distrib)
  have ok': "2 ^ 63 \<le> f" "if d < 0 then 2 * \<bar>f * 2 ^ p * 5 ^ nat \<bar>d\<bar> - 2 ^ n\<bar> \<le> 5 ^ nat \<bar>d\<bar> * 2 ^ p else 2 * \<bar>f * 2 ^ p - 5 ^ nat \<bar>d\<bar> * 2 ^ n\<bar> \<le> 2 ^ p"
    using ok unfolding p_def n_def by (rule conjunct1, rule conjunct2)
  have "\<bar>of_int f * 2 powi e - 10 powi d\<bar> \<le> 2 powi e / (2 :: real)"
  proof (cases "d < 0")
    case True
    define X :: real where "X = 5 ^ nat \<bar>d\<bar>"
    have X: "0 < X" "5 powi d = 1 / X" using True by (simp_all add: X_def power_int_def power_one_over inverse_eq_divide)
    let ?K = "2 powi d / (2 ^ n * X)"
    have "real_of_int (2 * \<bar>f * 2 ^ p * 5 ^ nat \<bar>d\<bar> - 2 ^ n\<bar>) \<le> of_int (5 ^ nat \<bar>d\<bar> * 2 ^ p)" using ok'(2) True by (simp only: of_int_le_iff if_True)
    then have b: "\<bar>of_int f * 2 ^ p * X - 2 ^ n\<bar> \<le> X * 2 ^ p / 2" by (simp add: X_def)
    have K: "0 < ?K" using X(1) by simp
    have "of_int f * 2 powi e - 10 powi d = (of_int f * 2 ^ p * X - 2 ^ n) * ?K" unfolding scale ten X(2) using X(1) by (simp add: field_simps)
    then have "\<bar>of_int f * 2 powi e - 10 powi d\<bar> = \<bar>of_int f * 2 ^ p * X - 2 ^ n\<bar> * ?K" using K by (simp only: abs_mult abs_of_pos)
    also have "\<dots> \<le> X * 2 ^ p / 2 * ?K" using b K by (intro mult_right_mono) simp_all
    also have "\<dots> = 2 powi e / 2" unfolding scale using X(1) by (simp add: field_simps)
    finally show ?thesis .
  next
    case False
    define X :: real where "X = 5 ^ nat \<bar>d\<bar>"
    have X: "5 powi d = X" using False by (simp add: X_def power_int_def)
    let ?K = "2 powi d / 2 ^ n :: real"
    have "real_of_int (2 * \<bar>f * 2 ^ p - 5 ^ nat \<bar>d\<bar> * 2 ^ n\<bar>) \<le> of_int (2 ^ p)" using ok'(2) False by (simp only: of_int_le_iff if_False)
    then have b: "\<bar>of_int f * 2 ^ p - X * 2 ^ n\<bar> \<le> 2 ^ p / 2" by (simp add: X_def)
    have K: "0 < ?K" by simp
    have "of_int f * 2 powi e - 10 powi d = (of_int f * 2 ^ p - X * 2 ^ n) * ?K" unfolding scale ten X by (simp add: field_simps)
    then have "\<bar>of_int f * 2 powi e - 10 powi d\<bar> = \<bar>of_int f * 2 ^ p - X * 2 ^ n\<bar> * ?K" using K by (simp only: abs_mult abs_of_pos)
    also have "\<dots> \<le> 2 ^ p / 2 * ?K" using b K by (intro mult_right_mono) simp_all
    also have "\<dots> = 2 powi e / 2" unfolding scale by (simp add: field_simps)
    finally show ?thesis .
  qed
  moreover have "int (2 ^ 63) \<le> int (unat (significand c))" using ok'(1) unfolding f_def uint_nat by simp
  then have "2 ^ 63 \<le> unat (significand c)" by (simp only: of_nat_le_iff)
  ultimately show ?thesis unfolding approximates_def DiyFp_new_def DiyFp.simps fr e_def d_def by blast
qed

section \<open>The look-up\<close>

text \<open>The decimal order that is computed for the binary order \<open>m\<close>.\<close>

lemma ceil_bounds:
  assumes m: "- 1100 \<le> m" "m \<le> 1100" and k: "k = - ((- fl53 (m * k1Log10)) div 2 ^ 54)"
  shows "(k - 1) * 2 ^ 54 < m * k1Log10 + 2 ^ 10" "m * k1Log10 < k * 2 ^ 54 + 2 ^ 10"
proof -
  let ?P = "m * k1Log10"
  define p where "p = fl53 ?P"
  have P: "\<bar>?P\<bar> < 2 ^ (53 + 10)" using m by (auto simp: k1Log10_def abs_less_iff)
  have p: "\<bar>p - ?P\<bar> < 2 ^ 10" unfolding p_def by (rule fl53_close [OF P])
  have "(k - 1) * 2 ^ 54 < p" "p \<le> k * 2 ^ 54"
    using div_mult_mod_eq [of "- p" "2 ^ 54"] pos_mod_bound [of "2 ^ 54" "- p"] pos_mod_sign [of "2 ^ 54" "- p"]
    unfolding k p_def by (auto simp: left_diff_distrib)
  then show "(k - 1) * 2 ^ 54 < ?P + 2 ^ 10" "?P < k * 2 ^ 54 + 2 ^ 10" using p unfolding abs_less_iff by linarith+
qed

lemma ceil_log:
  assumes m: "- 1100 \<le> m" "m \<le> 1100" and k: "k = - ((- fl53 (m * k1Log10)) div 2 ^ 54)"
  shows "(2 :: real) powi m \<le> 10 powi k" "(10 :: real) powi (k - 1) \<le> 2 powi (m + 1)"
proof -
  have b: "(k - 1) * 18014398509481984 < m * 5422874305198590 + 1024" "m * 5422874305198590 < k * 18014398509481984 + 1024"
    using ceil_bounds [OF m k] by (simp_all only: k1Log10_def power_numeral Num.pow.simps Num.sqr.simps) simp_all
  note l = log10_2_bounds
  have "of_int m * log 10 2 \<le> real_of_int k"
  proof (cases "0 < m")
    case True
    have "146 * m \<le> 485 * k"
    proof (rule ccontr)
      assume "\<not> 146 * m \<le> 485 * k"
      then have "681 * k \<le> 205 * m" using m by (intro no_fraction_between) auto
      then show False using b(2) True by (simp add: algebra_simps)
    qed
    have "of_int m * log 10 2 \<le> of_int m * (146 / 485)" using l(2) True by (intro mult_left_mono) auto
    also have "\<dots> \<le> real_of_int k" using \<open>146 * m \<le> 485 * k\<close> by simp
    finally show ?thesis .
  next
    case False
    have "205 * m \<le> 681 * k"
    proof (cases "m = 0")
      case True
      then show ?thesis using b(2) by simp
    next
      case m0: False
      have "485 * (- k) < 146 * (- m)" using b(2) False m0 by (simp add: algebra_simps)
      then have "681 * (- k) \<le> 205 * (- m)" using m by (intro no_fraction_between) auto
      then show ?thesis by simp
    qed
    have "of_int m * log 10 2 \<le> of_int m * (205 / 681)" using l(1) False by (intro mult_left_mono_neg) auto
    also have "\<dots> \<le> real_of_int k" using \<open>205 * m \<le> 681 * k\<close> by simp
    finally show ?thesis .
  qed
  then show "(2 :: real) powi m \<le> 10 powi k" by (simp only: powers_compare)
  have "real_of_int (k - 1) \<le> of_int (m + 1) * log 10 2"
  proof (cases "0 \<le> m + 1")
    case True
    have "681 * (k - 1) \<le> 205 * (m + 1)" using b(1) m True by (simp add: algebra_simps)
    then have "real_of_int (k - 1) \<le> of_int (m + 1) * (205 / 681)" by simp
    also have "\<dots> \<le> of_int (m + 1) * log 10 2" using l(1) True by (intro mult_left_mono) auto
    finally show ?thesis .
  next
    case False
    have "485 * (k - 1) \<le> 146 * (m + 1)" using b(1) m False by (simp add: algebra_simps)
    then have "real_of_int (k - 1) \<le> of_int (m + 1) * (146 / 485)" by simp
    also have "\<dots> \<le> of_int (m + 1) * log 10 2" using l(2) False by (intro mult_left_mono_neg) auto
    finally show ?thesis .
  qed
  then show "(10 :: real) powi (k - 1) \<le> 2 powi (m + 1)" by (simp only: powers_compare)
qed

lemma approximates_order:
  assumes "approximates c d"
  shows "(10 :: real) powi d < 2 powi (diy_e c + 64)" "2 powi (diy_e c + 62) < (10 :: real) powi d"
proof -
  let ?f = "real (unat (diy_f c))" and ?u = "2 powi diy_e c :: real"
  have u: "0 < ?u" by simp
  have "\<bar>?f * ?u - 10 powi d\<bar> \<le> ?u / 2" using assms by (simp only: approximates_def)
  then have a: "10 powi d \<le> (?f + 1 / 2) * ?u" "(?f - 1 / 2) * ?u \<le> 10 powi d" unfolding abs_le_iff distrib_right left_diff_distrib by linarith+
  have f: "2 ^ 63 \<le> ?f" "?f \<le> 2 ^ 64 - 1"
  proof -
    have "real (2 ^ 63) \<le> ?f" using assms unfolding approximates_def of_nat_le_iff by blast
    then show "2 ^ 63 \<le> ?f" by simp
    have "real (unat (diy_f c) + 1) \<le> real (2 ^ 64)" using unat64_less [of "diy_f c"] unfolding of_nat_le_iff by linarith
    then show "?f \<le> 2 ^ 64 - 1" by simp
  qed
  have "(?f + 1 / 2) * ?u < 2 ^ 64 * ?u" using f(2) u by (intro mult_strict_right_mono) simp_all
  then have "10 powi d < 2 ^ 64 * ?u" using a(1) by linarith
  then show "(10 :: real) powi d < 2 powi (diy_e c + 64)" by (simp add: power_int_add)
  have "2 ^ 62 * ?u < (?f - 1 / 2) * ?u" using f(1) u by (intro mult_strict_right_mono) simp_all
  then have "2 ^ 62 * ?u < 10 powi d" using a(2) by linarith
  then show "2 powi (diy_e c + 62) < (10 :: real) powi d" by (simp add: power_int_add)
qed

lemma power_int_less_cancel: "(x :: real) powi a < x powi b \<Longrightarrow> 1 < x \<Longrightarrow> a < b"
  by (meson less_imp_le not_less power_int_increasing linorder_not_less)

lemma lookup_binary:
  assumes e: "- 1137 \<le> e" "e \<le> 960"
  shows "\<exists>c d. GetCachedPowerForBinaryExponentRange (- 60 - (e + 64)) (- 32 - (e + 64)) = Some (c, d)
    \<and> approximates c d \<and> - 60 \<le> e + diy_e c + 64 \<and> e + diy_e c + 64 \<le> - 32 \<and> - 348 \<le> d \<and> d \<le> 340"
proof -
  define m where "m = - 61 - e"
  define k where "k = - ((- fl53 (m * k1Log10)) div 2 ^ 54)"
  have m: "- 1100 \<le> m" "m \<le> 1100" "- 60 - (e + 64) + 64 - 1 = m" using e by (simp_all add: m_def)
  have kb: "- 347 \<le> k" "k \<le> 340" using ceil_bounds [OF m(1,2) k_def] e by (simp_all add: k1Log10_def m_def algebra_simps)
  define i where "i = nat ((347 + k) div 8 + 1)"
  have i: "i < 87" "int i = (347 + k) div 8 + 1" using kb by (auto simp: i_def)
  let ?c = "kCachedPowers ! i"
  let ?p = "DiyFp_new (significand ?c) (binary_exponent ?c)"
  have "c_div (348 + k - 1) 8 = (347 + k) div 8" using kb by (auto simp: c_div_def sgn_if)
  then have "power_at (c_div (348 + k - 1) 8 + 1) = Some ?c" using i kb by (simp add: power_at_def bget_def table_length i_def)
  then have run: "GetCachedPowerForBinaryExponentRange (- 60 - (e + 64)) (- 32 - (e + 64)) = Some (?p, decimal_exponent ?c)"
    unfolding GetCachedPowerForBinaryExponentRange_def Let_def m(3) k_def [symmetric] by simp
  note ap = entry_approximates [OF i(1) refl]
  have d: "decimal_exponent ?c = - 348 + 8 * ((347 + k) div 8 + 1)" unfolding entry_decimal [OF i(1)] i(2) ..
  then have dk: "k \<le> decimal_exponent ?c" "decimal_exponent ?c \<le> k + 7" by presburger+
  have pe: "diy_e ?p = binary_exponent ?c" by (simp add: DiyFp_new_def)
  note ord = approximates_order [OF ap]
  have "(2 :: real) powi m \<le> 10 powi k" by (rule ceil_log [OF m(1,2) k_def])
  also have "(10 :: real) powi k \<le> 10 powi decimal_exponent ?c" using dk(1) by (intro power_int_increasing) simp_all
  also have "\<dots> < 2 powi (diy_e ?p + 64)" by (rule ord)
  finally have lo: "m < diy_e ?p + 64" by (rule power_int_less_cancel) simp
  have "(2 :: real) powi (diy_e ?p + 62) < 10 powi decimal_exponent ?c" by (rule ord)
  also have "\<dots> \<le> 10 powi (k - 1 + 8)" using dk(2) by (intro power_int_increasing) simp_all
  also have "\<dots> = 10 powi (k - 1) * 10 powi 8" by (rule power_int_add) simp
  also have "\<dots> \<le> 2 powi (m + 1) * 2 powi 27" by (intro mult_mono ceil_log [OF m(1,2) k_def]) simp_all
  also have "\<dots> = 2 powi (m + 28)" using power_int_add [of "2 :: real" "m + 1" 27] by (simp add: add.commute)
  finally have hi: "diy_e ?p + 62 < m + 28" by (rule power_int_less_cancel) simp
  show ?thesis using run ap lo hi d kb e unfolding m_def by (intro exI [of _ ?p] exI [of _ "decimal_exponent ?c"]) auto
qed

end
