(* ===== verification/GrisuScale.thy ===== *)
theory GrisuScale
  imports CachedProps FastDtoa FixedProps
begin

text \<open>
  The scaling step of \<open>fast-dtoa.cc\<close>: a normalized double times a cached power is the exact scaled value
  with an error below one unit, and \<open>BiggestPowerTen\<close> finds its first digit.
\<close>

section \<open>Normalization\<close>

lemma hidden_bit_loop_correct:
  "0 < unat s \<Longrightarrow> unat s < 2 ^ 53 \<Longrightarrow>
     \<exists>k f. hidden_bit_loop s e = Some (f, e - int k) \<and> unat f = unat s * 2 ^ k \<and> 2 ^ 52 \<le> unat f \<and> unat f < 2 ^ 53"
proof (induction "2 ^ 53 - unat s" arbitrary: s e rule: less_induct)
  case less
  show ?case
  proof (cases "unat s < 2 ^ 52")
    case False
    then have "s AND dHiddenBit \<noteq> 0" using hidden_bit_iff [OF less.prems(2)] by blast
    then have "hidden_bit_loop s e = Some (s, e - int 0)" by (simp add: hidden_bit_loop.simps)
    then show ?thesis using False less.prems(2) by (intro exI [of _ 0] exI [of _ s]) simp
  next
    case True
    let ?s = "push_bit 1 s"
    have u: "unat ?s = 2 * unat s" using True by (simp add: push_bit_eq_mult unat_word_ariths)
    have "2 ^ 53 - unat ?s < 2 ^ 53 - unat s" "0 < unat ?s" "unat ?s < 2 ^ 53" using u True less.prems(1) by simp_all
    from less.hyps [OF this, of "e - 1"] obtain k f where k: "hidden_bit_loop ?s (e - 1) = Some (f, e - 1 - int k)" "unat f = unat ?s * 2 ^ k"
      "2 ^ 52 \<le> unat f" "unat f < 2 ^ 53" by blast
    have "s AND dHiddenBit = 0" using hidden_bit_iff [OF less.prems(2)] True by blast
    then have "hidden_bit_loop s e = Some (f, e - int (Suc k))" using k(1) by (subst hidden_bit_loop.simps) simp
    moreover have "unat f = unat s * 2 ^ Suc k" using k(2) u by simp
    ultimately show ?thesis using k(3,4) by blast
  qed
qed

definition diy_val :: "DiyFp \<Rightarrow> real" where
  "diy_val x = real (unat (diy_f x)) * 2 powi diy_e x"

lemma normalized_double:
  assumes v: "finite_positive v"
  shows "\<exists>w k. Double_AsNormalizedDiyFp v = Some w \<and> 2 ^ 63 \<le> unat (diy_f w) \<and> diy_val w = dval v \<and> - 1137 \<le> diy_e w \<and> diy_e w \<le> 960
    \<and> diy_e w = Double_Exponent v - int k - 11 \<and> unat (diy_f w) = unat (Double_Significand v) * 2 ^ (k + 11)"
proof -
  let ?s = "Double_Significand v" and ?e = "Double_Exponent v"
  have s: "0 < unat ?s" "unat ?s < 2 ^ 53" "?e \<noteq> - 1074 \<Longrightarrow> 2 ^ 52 \<le> unat ?s" and e: "- 1074 \<le> ?e" "?e \<le> 971"
    using v Significand_bounds [of v] by (auto simp: finite_positive_def unat_gt_0)
  obtain k f where f: "hidden_bit_loop ?s ?e = Some (f, ?e - int k)" "unat f = unat ?s * 2 ^ k" "2 ^ 52 \<le> unat f" "unat f < 2 ^ 53"
    using hidden_bit_loop_correct [OF s(1,2), of ?e] by blast
  have "1 * 2 ^ k \<le> unat ?s * 2 ^ k" using s(1) by (intro mult_le_mono1) simp
  then have "(2 :: nat) ^ k < 2 ^ 53" using f(2,4) by linarith
  then have k: "k < 53" by (simp only: power_strict_increasing_iff one_less_numeral_iff semiring_norm)
  have "unat f * 2 ^ 11 < 2 ^ 64" using f(4) by simp
  then have p: "unat (push_bit 11 f) = unat f * 2 ^ 11" by (rule unat_push)
  let ?w = "DiyFp_new (push_bit 11 f) (?e - int k - 11)"
  have "Double_AsNormalizedDiyFp v = Some ?w" by (simp add: Double_AsNormalizedDiyFp_def f(1))
  moreover have "2 ^ 63 \<le> unat (diy_f ?w)" using f(3) p by (simp add: DiyFp_new_def)
  moreover have fw: "unat (diy_f ?w) = unat ?s * 2 ^ (k + 11)" "diy_e ?w = ?e - int k - 11" using p f(2) by (simp_all add: DiyFp_new_def power_add)
  moreover have "diy_val ?w = dval v"
  proof -
    have "?e = int (k + 11) + (?e - int k - 11)" by simp
    then have "(2 :: real) powi ?e = 2 ^ (k + 11) * 2 powi (?e - int k - 11)" using power_int_add [of "2 :: real" "int (k + 11)" "?e - int k - 11"] by (metis power_int_of_nat zero_neq_numeral)
    then show ?thesis unfolding diy_val_def dval_def fw by simp
  qed
  moreover have "?e = - 1074 \<or> k = 0"
  proof (rule ccontr)
    assume "\<not> (?e = - 1074 \<or> k = 0)"
    then have "2 ^ 52 \<le> unat ?s" "2 ^ 1 \<le> (2 :: nat) ^ k" using s(3) by (simp, intro power_increasing) simp_all
    then have "2 ^ 52 * 2 ^ 1 \<le> unat ?s * 2 ^ k" by (rule mult_le_mono)
    then show False using f(2,4) by simp
  qed
  then have "- 1137 \<le> diy_e ?w" "diy_e ?w \<le> 960" using e k fw(2) by auto
  ultimately show ?thesis by blast
qed

section \<open>Multiplication by a cached power\<close>

lemma Times_fields: "diy_e (DiyFp_Times x c) = diy_e x + diy_e c + 64"
  by (simp add: DiyFp_Times_def DiyFp_Multiply_def Let_def)

lemma scaled_error:
  assumes c: "approximates c d"
  shows "\<bar>real (unat (diy_f (DiyFp_Times x c))) - diy_val x * 10 powi d / 2 powi diy_e (DiyFp_Times x c)\<bar> < 1"
proof -
  define xf cf where "xf = unat (diy_f x)" and "cf = unat (diy_f c)"
  define P where "P = real xf * real cf / 2 ^ 64"
  define f where "f = (xf * cf + 2 ^ 63) div 2 ^ 64"
  have fx: "unat (diy_f (DiyFp_Times x c)) = f" unfolding DiyFp_Times_def Multiply_exact f_def xf_def cf_def ..
  have "(xf * cf + 2 ^ 63) mod 2 ^ 64 < 2 ^ 64" by simp
  then have "f * 2 ^ 64 \<le> xf * cf + 2 ^ 63" "xf * cf + 2 ^ 63 < f * 2 ^ 64 + 2 ^ 64" unfolding f_def
    using div_mult_mod_eq [of "xf * cf + 2 ^ 63" "2 ^ 64"] by linarith+
  then have "real (f * 2 ^ 64) \<le> real (xf * cf + 2 ^ 63)" "real (xf * cf + 2 ^ 63) < real (f * 2 ^ 64 + 2 ^ 64)" by (simp_all only: of_nat_le_iff of_nat_less_iff)
  then have r: "\<bar>real f - P\<bar> \<le> 1 / 2" unfolding P_def by (auto simp: abs_le_iff field_simps)
  let ?u = "2 powi diy_e c :: real" and ?E = "2 powi diy_e (DiyFp_Times x c) :: real"
  have E: "?E = 2 powi diy_e x * ?u * 2 ^ 64" unfolding Times_fields by (simp add: power_int_add)
  have "diy_val x * 10 powi d / ?E = real xf * (10 powi d / ?u) / 2 ^ 64" unfolding E diy_val_def xf_def by (simp add: field_simps)
  moreover have "\<bar>real cf - 10 powi d / ?u\<bar> \<le> 1 / 2"
  proof -
    have "\<bar>real cf * ?u - 10 powi d\<bar> \<le> ?u / 2" using c by (simp only: approximates_def cf_def)
    then show ?thesis by (auto simp: abs_le_iff field_simps)
  qed
  then have "\<bar>P - real xf * (10 powi d / ?u) / 2 ^ 64\<bar> \<le> real xf / 2 ^ 64 * (1 / 2)"
  proof -
    have "P - real xf * (10 powi d / ?u) / 2 ^ 64 = real xf / 2 ^ 64 * (real cf - 10 powi d / ?u)" unfolding P_def by (simp add: field_simps)
    then have "\<bar>P - real xf * (10 powi d / ?u) / 2 ^ 64\<bar> = real xf / 2 ^ 64 * \<bar>real cf - 10 powi d / ?u\<bar>"
      by (simp only: abs_mult [of "real xf / 2 ^ 64"] abs_of_nonneg [of "real xf / 2 ^ 64"] divide_nonneg_nonneg of_nat_0_le_iff zero_le_power zero_le_numeral)
    also have "\<dots> \<le> real xf / 2 ^ 64 * (1 / 2)" by (rule mult_left_mono) (fact, simp)
    finally show ?thesis .
  qed
  moreover have "real xf < 2 ^ 64" using unat64_less [of "diy_f x"] unfolding xf_def by (metis of_nat_less_iff of_nat_numeral of_nat_power)
  then have "real xf / 2 ^ 64 * (1 / 2) < 1 / 2" by simp
  ultimately show ?thesis unfolding fx using r by linarith
qed

lemma scaled_large: "2 ^ 63 \<le> unat (diy_f x) \<Longrightarrow> 2 ^ 63 \<le> unat (diy_f c) \<Longrightarrow> 2 ^ 62 \<le> unat (diy_f (DiyFp_Times x c))"
proof -
  assume "2 ^ 63 \<le> unat (diy_f x)" "2 ^ 63 \<le> unat (diy_f c)"
  then have "2 ^ 63 * 2 ^ 63 \<le> unat (diy_f x) * unat (diy_f c)" by (rule mult_le_mono)
  then have "2 ^ 62 * 2 ^ 64 \<le> unat (diy_f x) * unat (diy_f c) + 2 ^ 63" by simp
  then have "2 ^ 62 \<le> (unat (diy_f x) * unat (diy_f c) + 2 ^ 63) div 2 ^ 64" by (subst less_eq_div_iff_mult_less_eq) simp_all
  then show ?thesis unfolding DiyFp_Times_def Multiply_exact .
qed

section \<open>The first digit\<close>

lemma small_power: "j \<le> 9 \<Longrightarrow> bget kSmallPowersOfTen (Suc j) = Some (of_nat (10 ^ j)) \<and> unat (of_nat (10 ^ j) :: 32 word) = 10 ^ j"
proof -
  assume "j \<le> 9"
  then have "j \<in> set [0..<10]" unfolding set_upt by simp
  moreover have "\<forall>j\<in>set [0..<10]. bget kSmallPowersOfTen (Suc j) = Some (of_nat (10 ^ j)) \<and> unat (of_nat (10 ^ j) :: 32 word) = 10 ^ j"
    by (simp add: upt_rec kSmallPowersOfTen_def bget_def)
  ultimately show ?thesis by blast
qed

lemma guess_table:
  assumes "4 \<le> nb" "nb \<le> 32"
  shows "\<exists>j. (int nb + 1) * 1233 div 2 ^ 12 = int j \<and> 1 \<le> j \<and> j \<le> 9 \<and> (10 :: nat) ^ (j - 1) \<le> 2 ^ (nb - 2) \<and> (2 :: nat) ^ nb \<le> 10 ^ (j + 1)"
proof -
  have "nb \<in> set [4..<33]" using assms unfolding set_upt by simp
  moreover have "\<forall>nb\<in>set [4..<33]. (let j = nat ((int nb + 1) * 1233 div 2 ^ 12) in (int nb + 1) * 1233 div 2 ^ 12 = int j \<and> 1 \<le> j \<and> j \<le> 9 \<and> (10 :: nat) ^ (j - 1) \<le> 2 ^ (nb - 2) \<and> (2 :: nat) ^ nb \<le> 10 ^ (j + 1))"
    by (simp add: upt_rec)
  ultimately show ?thesis unfolding Let_def by blast
qed

lemma BiggestPowerTen_correct:
  assumes nb: "4 \<le> nb" "nb \<le> 32" and n: "unat number < 2 ^ nb" "2 ^ (nb - 2) \<le> unat number"
  shows "\<exists>k. BiggestPowerTen number (int nb) = Some (of_nat (10 ^ k), int (Suc k)) \<and> 10 ^ k \<le> unat number \<and> unat number < 10 ^ Suc k \<and> k \<le> 9"
proof -
  obtain j where j: "(int nb + 1) * 1233 div 2 ^ 12 = int j" "1 \<le> j" "j \<le> 9" "(10 :: nat) ^ (j - 1) \<le> 2 ^ (nb - 2)" "(2 :: nat) ^ nb \<le> 10 ^ (j + 1)"
    using guess_table [OF nb] by blast
  note t = small_power [OF j(3)]
  have i: "nat (int j + 1) = Suc j" "\<And>k. nat (1 + int k) = Suc k" by simp_all
  show ?thesis
  proof (cases "unat number < 10 ^ j")
    case True
    obtain k where k: "j = Suc k" using j(2) by (cases j) auto
    have "k \<le> 9" using j(3) k by simp
    note t' = small_power [OF this]
    have "number < of_nat (10 ^ j)" using True t by (simp only: word_less_nat_alt)
    then have "BiggestPowerTen number (int nb) = Some (of_nat (10 ^ k), int (Suc k))"
      using t t' unfolding BiggestPowerTen_def Let_def j(1) i(1) by (simp add: k i(2))
    moreover have "10 ^ k \<le> unat number" using j(4) n(2) k by simp
    ultimately show ?thesis using True k \<open>k \<le> 9\<close> by blast
  next
    case False
    then have "\<not> number < of_nat (10 ^ j)" using t by (simp only: word_less_nat_alt not_False_eq_True)
    then have "BiggestPowerTen number (int nb) = Some (of_nat (10 ^ j), int (Suc j))"
      using t unfolding BiggestPowerTen_def Let_def j(1) i(1) by (simp add: i(2) add.commute [of "int j" 1])
    moreover have "unat number < 10 ^ Suc j" using n(1) j(5) by simp
    ultimately show ?thesis using False j(3) by (intro exI [of _ j]) simp
  qed
qed


lemma leading_power:
  fixes f :: "64 word"
  assumes f: "2 ^ 62 \<le> unat f" and q: "32 \<le> q" "q \<le> 60" and N: "N = unat f div 2 ^ q" and I: "I = (ucast (drop_bit q f) :: 32 word)"
  shows "unat I = N \<and> (\<exists>k. BiggestPowerTen I (int (64 - q)) = Some (of_nat (10 ^ k), int (Suc k)) \<and> 10 ^ k \<le> N \<and> N < 10 ^ Suc k
    \<and> k \<le> 9 \<and> unat (of_nat (10 ^ k) :: 32 word) = 10 ^ k)"
proof -
  have nb: "4 \<le> 64 - q" "64 - q \<le> 32" using q by simp_all
  have "unat f < 2 ^ (64 - q) * 2 ^ q" using unat64_less [of f] q by (simp flip: power_add)
  then have N1: "N < 2 ^ (64 - q)" unfolding N by (rule less_mult_imp_div_less)
  have "2 ^ (64 - q - 2) * 2 ^ q \<le> unat f" using f q by (simp flip: power_add)
  then have N2: "2 ^ (64 - q - 2) \<le> N" unfolding N by (subst less_eq_div_iff_mult_less_eq) simp_all
  have "(2 :: nat) ^ (64 - q) \<le> 2 ^ 32" using nb by (intro power_increasing) simp_all
  then have "N < 2 ^ 32" using N1 by linarith
  then have I: "unat I = N" unfolding I N using unat_drop [of q f] by (simp add: unsigned_ucast_eq take_bit_nat_eq_self)
  obtain k where k: "BiggestPowerTen I (int (64 - q)) = Some (of_nat (10 ^ k), int (Suc k))" "10 ^ k \<le> N" "N < 10 ^ Suc k" "k \<le> 9"
    using BiggestPowerTen_correct [OF nb, of I] N1 N2 unfolding I by blast
  then show ?thesis using I small_power [OF k(4)] by blast
qed

end
