(* ===== verification/GrisuCounted.thy ===== *)
theory GrisuCounted
  imports GrisuScale
begin

text \<open>
  The fast conversion with a given number of digits (\<open>DigitGenCounted\<close>, \<open>Grisu3Counted\<close>): whenever it
  claims success, the digits are the closest ones to the double.
\<close>

section \<open>Rounding with an error\<close>

lemma increment_carry:
  fixes kappa :: int
  assumes ds: "all_decimal ds" "ds \<noteq> []"
  shows "\<exists>ds' carry. do { b1 \<leftarrow> increment_at (ds @ tail) (length ds - 1); b2 \<leftarrow> carry_digits b1 (length ds - 1); first \<leftarrow> bget b2 0;
        if first = CHR '':'' then do { b3 \<leftarrow> bput b2 0 (CHR ''1''); Some (True, b3, kappa + 1) } else Some (True, b2, kappa) }
      = Some (True, ds' @ tail, kappa + of_bool carry) \<and> length ds' = length ds \<and> all_decimal ds'
    \<and> decimal_value ds' * (if carry then 10 else 1) = decimal_value ds + 1 \<and> (carry \<longrightarrow> decimal_value ds' = 10 ^ (length ds - 1))"
proof -
  obtain as a where asa: "ds = as @ [a]" using ds(2) by (cases ds rule: rev_cases) auto
  have a: "dec_digit a \<le> 9" "a = digit_char (of_nat (dec_digit a))" "all_decimal as" using decimal_char [of a] ds asa by auto
  let ?q = "dec_digit a + 1"
  have inc: "increment_at (ds @ tail) (length as) = Some (as @ digit_char (of_nat ?q) # tail)"
    using succ_digit_char [OF a(1)] a(2) asa by (simp add: increment_at_def bget_def bput_def nth_append list_update_append)
  obtain b t where bt: "carry_digits (as @ digit_char (of_nat ?q) # tail) (length as) = Some (b # t @ tail)" "length t = length as"
      "\<forall>c\<in>set t. is_decimal c" "decimal_value (b # t) = decimal_value (as @ [digit_char (of_nat ?q)])"
      "is_decimal b \<or> b = CHR '':'' \<and> t = replicate (length as) (CHR ''0'')"
    using carry_digits_correct [of as ?q tail] a by (auto simp: all_decimal_def)
  have val: "decimal_value (b # t) = decimal_value ds + 1"
    using bt(4) digit_char_value(1) [of ?q] a(1) asa by (simp add: decimal_value_snoc)
  show ?thesis
  proof (cases "b = CHR '':''")
    case True
    then have t: "t = replicate (length as) (CHR ''0'')" using bt(5) by (auto simp: is_decimal_def)
    have "decimal_value (CHR ''1'' # t) = 10 ^ length as" "decimal_value ds + 1 = 10 * 10 ^ length as"
      using val unfolding t True by (simp_all add: decimal_value_Cons decimal_value_zeros dec_digit_def)
    then show ?thesis using inc bt(1-3) asa True
      by (intro exI [of _ "CHR ''1'' # t"] exI [of _ True]) (simp add: bget_def bput_def all_decimal_def is_decimal_def)
  next
    case False
    then show ?thesis using inc bt(1-3,5) asa val
      by (intro exI [of _ "b # t"] exI [of _ False]) (auto simp: bget_def all_decimal_def)
  qed
qed

text \<open>\<open>D\<close> is \<open>y\<close> rounded to an integer of \<open>r\<close> digits, possibly with a carry; \<open>y\<close> itself may be a little
  below the least number of \<open>r\<close> digits.\<close>

definition counted_ok :: "real \<Rightarrow> nat \<Rightarrow> nat \<Rightarrow> bool" where
  "counted_ok y r D \<longleftrightarrow> \<bar>y - real D\<bar> < 1 / 2 \<and> 10 ^ (r - 1) \<le> D \<and> D \<le> 10 ^ r \<and> 10 ^ (r - 1) - 1 / 20 < y"

lemma counted_okI:
  assumes T: "0 < T" "2 * u < T" "(20 * u \<le> T \<or> u \<le> rest) \<or> 10 ^ (r - 1) < D"
    and x: "\<bar>x - real (D * T + rest)\<bar> < real u" and D: "10 ^ (r - 1) \<le> D" "D < 10 ^ r"
    and D': "D' = D \<and> 2 * rest + 2 * u \<le> T \<or> D' = D + 1 \<and> T + 2 * u \<le> 2 * rest \<and> rest < T"
  shows "counted_ok (x / real T) r D'"
proof -
  have t: "real (2 * u) < real T" using T(2) by (simp only: of_nat_less_iff)
  have DT: "real (D * T + rest) = real D * real T + real rest" by simp
  have near: "\<bar>x - real D' * real T\<bar> < real T / 2" using D'
  proof
    assume "D' = D \<and> 2 * rest + 2 * u \<le> T"
    then have "D' = D" "real (2 * rest + 2 * u) \<le> real T" by (simp_all only: of_nat_le_iff)
    then show ?thesis using x unfolding DT of_nat_add of_nat_mult of_nat_numeral by (simp only:)
  next
    assume "D' = D + 1 \<and> T + 2 * u \<le> 2 * rest \<and> rest < T"
    then have "real (T + 2 * u) \<le> real (2 * rest)" "real rest < real T" and D': "D' = D + 1" by (simp_all only: of_nat_le_iff of_nat_less_iff)
    moreover have "real (D + 1) * real T = real D * real T + real T" by (simp add: distrib_right)
    ultimately show ?thesis using x t unfolding DT D' of_nat_add of_nat_mult of_nat_numeral by linarith
  qed
  moreover have "x / real T - real D' = (x - real D' * real T) / real T" using T(1) by (simp add: field_simps)
  ultimately have "\<bar>x / real T - real D'\<bar> < 1 / 2" using T(1) by (simp add: field_simps)
  moreover have "10 ^ (r - 1) - 1 / 20 < x / real T"
  proof -
    have p: "(10 :: real) ^ (r - 1) * real T \<le> real D * real T" using D(1) by (intro mult_right_mono) (simp_all flip: of_nat_le_iff)
    consider "20 * u \<le> T" | "u \<le> rest" | "10 ^ (r - 1) + 1 \<le> D" using T(3) by linarith
    then have "(10 ^ (r - 1) - 1 / 20) * real T < x"
    proof cases
      case 1
      then have "real (20 * u) \<le> real T" by (simp only: of_nat_le_iff)
      then show ?thesis using x p unfolding DT by (simp add: left_diff_distrib)
    next
      case 2
      then have "real u \<le> real rest" "0 < real T" using T(1) by simp_all
      moreover have "(10 ^ (r - 1) - 1 / 20) * real T = 10 ^ (r - 1) * real T - real T / 20" by (simp add: left_diff_distrib)
      ultimately show ?thesis using x p unfolding DT by linarith
    next
      case 3
      then have "real (10 ^ (r - 1) + 1) \<le> real D" by (simp only: of_nat_le_iff)
      then have "(10 ^ (r - 1) + 1) * real T \<le> real D * real T" by (intro mult_right_mono) simp_all
      then show ?thesis using x t T(1) unfolding DT by (simp add: distrib_right left_diff_distrib)
    qed
    then show ?thesis using T(1) by (simp add: field_simps)
  qed
  ultimately show ?thesis using D D' unfolding counted_ok_def by auto
qed

lemma RoundWeedCounted_correct:
  assumes ds: "all_decimal ds" "ds \<noteq> []" "10 ^ (length ds - 1) \<le> decimal_value ds" and r: "unat rest < unat T"
    and x: "\<bar>x - real (decimal_value ds * unat T + unat rest)\<bar> < real (unat unit)"
    and low: "(20 * unat unit \<le> unat T \<or> unat unit \<le> unat rest) \<or> 10 ^ (length ds - 1) < decimal_value ds"
  shows "\<exists>ok ds' kappa'. RoundWeedCounted (ds @ tail) (length ds) rest T unit kappa = Some (ok, ds' @ tail, kappa') \<and> length ds' = length ds
    \<and> all_decimal ds' \<and> (ok \<longrightarrow> 10 ^ (length ds - 1) \<le> decimal_value ds'
      \<and> (\<exists>D. counted_ok (x / real (unat T)) (length ds) D \<and> real D * 10 powi kappa = real (decimal_value ds') * 10 powi kappa'))"
    (is "\<exists>ok ds' kappa'. ?run ok ds' kappa' \<and> _ ds' \<and> _ ds' \<and> (ok \<longrightarrow> ?good ds' kappa')")
proof -
  let ?D = "decimal_value ds" and ?T = "unat T" and ?r = "unat rest" and ?u = "unat unit"
  have D: "?D < 10 ^ length ds" using decimal_less [of ds] ds(1) by (simp add: all_decimal_def)
  have le: "rest \<le> T" "0 < ?T" using r by (simp_all add: word_le_nat_alt)
  note okI = counted_okI [OF le(2) _ low x ds(3) D]
  consider "unit \<ge> T \<or> T - unit \<le> unit" | (down) "\<not> unit \<ge> T" "\<not> T - unit \<le> unit" "T - rest > rest \<and> T - 2 * rest \<ge> 2 * unit"
    | (up) "\<not> unit \<ge> T" "\<not> T - unit \<le> unit" "\<not> (T - rest > rest \<and> T - 2 * rest \<ge> 2 * unit)" "rest > unit \<and> T - (rest - unit) \<le> rest - unit"
    | (none) "\<not> unit \<ge> T" "\<not> T - unit \<le> unit" "\<not> (T - rest > rest \<and> T - 2 * rest \<ge> 2 * unit)" "\<not> (rest > unit \<and> T - (rest - unit) \<le> rest - unit)"
    by blast
  then show ?thesis
  proof cases
    case 1
    then have "?run False ds kappa" by (auto simp: RoundWeedCounted_def)
    then show ?thesis using ds(1) by blast
  next
    case none
    then have "?run False ds kappa" by (simp only: RoundWeedCounted_def if_False simp_thms)
    then show ?thesis using ds(1) by blast
  next
    case down
    have u: "?u < ?T" using down(1) by (simp add: word_le_nat_alt)
    then have u2: "2 * ?u < ?T" using down(2) by (simp add: word_le_nat_alt unat_sub)
    have r2: "2 * ?r < ?T" using down(3) le by (simp add: word_less_nat_alt unat_sub) linarith
    have "?T < 2 ^ 64" by (rule unat64_less)
    then have "unat (2 * rest) = 2 * ?r" "unat (2 * unit) = 2 * ?u" using r2 u2 by (simp_all add: unat_word_ariths)
    then have "2 * ?r + 2 * ?u \<le> ?T" using down(3) r2 by (simp add: word_le_nat_alt unat_sub) linarith
    then have "counted_ok (x / real ?T) (length ds) ?D" by (intro okI u2) simp
    moreover have "?run True ds kappa" using down by (simp only: RoundWeedCounted_def if_False if_True simp_thms)
    ultimately show ?thesis using ds by blast
  next
    case up
    have u: "?u < ?T" "unit \<le> rest" "?u < ?r" using up(1,4) by (simp_all add: word_le_nat_alt word_less_nat_alt)
    then have u2: "2 * ?u < ?T" using up(2) by (simp add: word_le_nat_alt unat_sub)
    have m: "unat (rest - unit) = ?r - ?u" using u(2) by (simp add: unat_sub)
    then have "rest - unit \<le> T" using r by (simp add: word_le_nat_alt)
    then have "?T - (?r - ?u) \<le> ?r - ?u" using up(4) m by (simp add: word_le_nat_alt unat_sub)
    then have "?T + 2 * ?u \<le> 2 * ?r" using u(3) by linarith
    then have near: "counted_ok (x / real ?T) (length ds) (?D + 1)" using r by (intro okI u2) simp
    obtain ds' carry where c: "?run True ds' (kappa + of_bool carry)"
        "length ds' = length ds" "all_decimal ds'" "decimal_value ds' * (if carry then 10 else 1) = ?D + 1" "carry \<longrightarrow> decimal_value ds' = 10 ^ (length ds - 1)"
      using increment_carry [OF ds(1,2), of tail kappa] up unfolding RoundWeedCounted_def by (simp only: if_False if_True simp_thms) blast
    have "real (decimal_value ds') * 10 powi (kappa + of_bool carry) = real (?D + 1) * 10 powi kappa"
      unfolding c(4) [symmetric] of_nat_mult by (cases carry) (simp_all add: power_int_add)
    moreover have "10 ^ (length ds - 1) \<le> decimal_value ds'" using c(4,5) ds(3) by (cases carry) simp_all
    ultimately have "?good ds' (kappa + of_bool carry)" using near by metis
    then show ?thesis using c(1-3) by blast
  qed
qed

section \<open>The loops\<close>

lemma exI3: "P a b c \<Longrightarrow> \<exists>x y z. P x y z"
  by blast

lemma digit32_of_unat: "unat w = q \<Longrightarrow> q \<le> 10 \<Longrightarrow> digit32_char w = digit_char (of_nat q)"
  using digit32_char_of_nat [of q] by (metis of_nat_unat ucast_id)

lemma div_split:
  fixes N q :: nat
  assumes "l \<le> n"
  shows "N div 10 ^ n * 10 ^ l + N mod 10 ^ n div 10 ^ (n - l) = N div 10 ^ (n - l)" "N mod 10 ^ n mod 10 ^ (n - l) = N mod 10 ^ (n - l)"
proof -
  have p: "(10 :: nat) ^ n = 10 ^ l * 10 ^ (n - l)" using assms by (simp flip: power_add)
  have "N = N div 10 ^ n * 10 ^ n + N mod 10 ^ n" by (rule div_mult_mod_eq [symmetric])
  also have "N div 10 ^ n * 10 ^ n = N div 10 ^ n * 10 ^ l * 10 ^ (n - l)" unfolding p by (simp only: mult.assoc)
  finally have "N div 10 ^ (n - l) = (N div 10 ^ n * 10 ^ l * 10 ^ (n - l) + N mod 10 ^ n) div 10 ^ (n - l)" by simp
  also have "\<dots> = N div 10 ^ n * 10 ^ l + N mod 10 ^ n div 10 ^ (n - l)" by simp
  finally show "N div 10 ^ n * 10 ^ l + N mod 10 ^ n div 10 ^ (n - l) = N div 10 ^ (n - l)" by simp
  show "N mod 10 ^ n mod 10 ^ (n - l) = N mod 10 ^ (n - l)" unfolding p by (simp add: mod_mod_cancel)
qed

lemma counted_integrals_loop_correct:
  "unat I < 10 ^ n \<Longrightarrow> (0 < n \<Longrightarrow> unat dv = 10 ^ (n - 1)) \<Longrightarrow> 1 \<le> r \<Longrightarrow> min r n \<le> length rest \<Longrightarrow>
   \<exists>xs I' dv'. counted_integrals_loop (int r) I dv (ds @ rest) (length ds) n
       = Some (int (r - length xs), I', dv', (ds @ xs) @ drop (length xs) rest, length (ds @ xs), int (n - length xs))
     \<and> length xs = min r n \<and> all_decimal xs \<and> decimal_value xs = unat I div 10 ^ (n - length xs)
     \<and> unat I' = unat I mod 10 ^ (n - length xs) \<and> (r \<le> n \<longrightarrow> unat dv' = 10 ^ (n - r))"
proof (induction n arbitrary: r I dv ds rest)
  case 0
  then show ?case by (intro exI3 [of _ "[]" I dv]) simp
next
  case (Suc n)
  let ?q = "unat I div 10 ^ n"
  let ?c = "digit_char (of_nat ?q)"
  have dv: "unat dv = 10 ^ n" using Suc.prems(2) by simp
  have "dv \<noteq> 0" using dv by auto
  have q: "?q \<le> 9" using less_mult_imp_div_less [of "unat I" 10 "10 ^ n"] Suc.prems(1) by simp
  have chr: "digit32_char (I div dv) = ?c" using q by (intro digit32_of_unat) (simp_all add: unat_div dv)
  obtain z rest' where rest: "rest = z # rest'" using Suc.prems(3,4) by (cases rest) auto
  have put: "bput (ds @ rest) (length ds) ?c = Some ((ds @ [?c]) @ rest')" by (simp add: bput_def rest list_update_append)
  have cd: "is_decimal ?c" "dec_digit ?c = ?q" using digit_char_value [of ?q] q by simp_all
  have Im: "unat (I mod dv) = unat I mod 10 ^ n" by (simp add: unat_mod dv)
  show ?case
  proof (cases "r = 1")
    case True
    then have "counted_integrals_loop (int r) I dv (ds @ rest) (length ds) (Suc n) = Some (0, I mod dv, dv, (ds @ [?c]) @ rest', length ds + 1, int n)"
      using put chr \<open>dv \<noteq> 0\<close> by (simp add: div32_def)
    then show ?thesis using True cd Im dv rest
      by (intro exI3 [of _ "[?c]" "I mod dv" dv]) (simp add: decimal_value_Cons)
  next
    case False
    then have r: "1 \<le> r - 1" "int r - 1 = int (r - 1)" "int r - 1 \<noteq> 0" using Suc.prems(3) by auto
    have I: "unat (I mod dv) < 10 ^ n" unfolding Im by simp
    have d: "unat (dv div 10) = 10 ^ (n - 1)" if "0 < n" using that dv by (cases n) (simp_all add: unat_div)
    have "min (r - 1) n \<le> length rest'" using Suc.prems(4) rest by simp
    from Suc.IH [OF I d r(1) this, of "ds @ [?c]"] have "\<exists>xs I' dv'. counted_integrals_loop (int (r - 1)) (I mod dv) (dv div 10) ((ds @ [?c]) @ rest') (length (ds @ [?c])) n
       = Some (int (r - 1 - length xs), I', dv', ((ds @ [?c]) @ xs) @ drop (length xs) rest', length ((ds @ [?c]) @ xs), int (n - length xs))
       \<and> length xs = min (r - 1) n \<and> all_decimal xs \<and> decimal_value xs = unat (I mod dv) div 10 ^ (n - length xs)
       \<and> unat I' = unat (I mod dv) mod 10 ^ (n - length xs) \<and> (r - 1 \<le> n \<longrightarrow> unat dv' = 10 ^ (n - (r - 1)))"
      by assumption
    then obtain xs I' dv' where xs: "counted_integrals_loop (int (r - 1)) (I mod dv) (dv div 10) ((ds @ [?c]) @ rest') (length (ds @ [?c])) n
       = Some (int (r - 1 - length xs), I', dv', ((ds @ [?c]) @ xs) @ drop (length xs) rest', length ((ds @ [?c]) @ xs), int (n - length xs))"
       "length xs = min (r - 1) n" "all_decimal xs" "decimal_value xs = unat (I mod dv) div 10 ^ (n - length xs)"
       "unat I' = unat (I mod dv) mod 10 ^ (n - length xs)" "r - 1 \<le> n \<longrightarrow> unat dv' = 10 ^ (n - (r - 1))" by (elim exE conjE) (rule that)
    have "counted_integrals_loop R I dv (ds @ rest) (length ds) (Suc n)
        = counted_integrals_loop (R - 1) (I mod dv) (dv div 10) ((ds @ [?c]) @ rest') (length (ds @ [?c])) n" if "R - 1 \<noteq> 0" for R
      using put chr \<open>dv \<noteq> 0\<close> that by (simp add: div32_def)
    from this [OF r(3)] have run: "counted_integrals_loop (int r) I dv (ds @ rest) (length ds) (Suc n) =
        Some (int (r - length (?c # xs)), I', dv', (ds @ ?c # xs) @ drop (length (?c # xs)) rest, length (ds @ ?c # xs), int (Suc n - length (?c # xs)))"
      unfolding r(2) xs(1) rest by simp
    have l: "length xs \<le> n" using xs(2) by simp
    have v: "decimal_value (?c # xs) = unat I div 10 ^ (Suc n - length (?c # xs))"
      unfolding decimal_value_Cons xs(4) cd(2) Im using div_split(1) [OF l, of "unat I"] by simp
    have "unat I' = unat I mod 10 ^ (Suc n - length (?c # xs))" using div_split(2) [OF l, of "unat I"] xs(5) Im by simp
    moreover have "length (?c # xs) = min r (Suc n)" using r(1) unfolding length_Cons xs(2) by (cases r) simp_all
    moreover have "unat dv' = 10 ^ (Suc n - r)" if "r \<le> Suc n"
    proof -
      have "r - 1 \<le> n" "n - (r - 1) = Suc n - r" using that r(1) by linarith+
      then show ?thesis using xs(6) by metis
    qed
    moreover have "all_decimal (?c # xs)" using xs(3) cd(1) by simp
    ultimately show ?thesis using run v by blast
  qed
qed

lemma and_one_minus: "unat (w AND (push_bit k 1 - 1)) = unat w mod 2 ^ k" for w :: "64 word"
proof -
  have "push_bit k 1 - 1 = (mask k :: 64 word)" by (simp add: mask_eq_exp_minus_1 push_bit_eq_mult)
  then have "w AND (push_bit k 1 - 1) = take_bit k w" by (simp only: take_bit_eq_mask)
  then show ?thesis by (simp only: unsigned_take_bit_eq) (simp only: take_bit_eq_mod)
qed

lemma times_10: "unat w < 2 ^ 60 \<Longrightarrow> unat (w * 10) = 10 * unat w" for w :: "64 word"
  by (simp add: unat_word_ariths mult.commute)

lemma fraction_digit:
  fixes F :: "64 word"
  assumes "unat F < 2 ^ k" "k \<le> 60"
  shows "shr64 (F * 10) (int k) = Some (drop_bit k (F * 10))" "digit32_char (ucast (drop_bit k (F * 10))) = digit_char (of_nat (10 * unat F div 2 ^ k))"
    "10 * unat F div 2 ^ k \<le> 9" "unat (F * 10 AND (push_bit k 1 - 1)) = 10 * unat F mod 2 ^ k"
proof -
  have "(2 :: nat) ^ k \<le> 2 ^ 60" using assms(2) by (intro power_increasing) simp_all
  then have "unat F < 2 ^ 60" using assms(1) by linarith
  then have u: "unat (F * 10) = 10 * unat F" by (rule times_10)
  show q: "10 * unat F div 2 ^ k \<le> 9" using less_mult_imp_div_less [of "10 * unat F" 10 "2 ^ k"] assms(1) by simp
  show "shr64 (F * 10) (int k) = Some (drop_bit k (F * 10))" using assms(2) by (simp add: shr64_def)
  have "unat (drop_bit k (F * 10)) = 10 * unat F div 2 ^ k" unfolding unat_drop u ..
  from ucast_digit [OF this q] show "digit32_char (ucast (drop_bit k (F * 10))) = digit_char (of_nat (10 * unat F div 2 ^ k))"
    using digit32_char_of_nat [of "10 * unat F div 2 ^ k"] q by simp
  show "unat (F * 10 AND (push_bit k 1 - 1)) = 10 * unat F mod 2 ^ k" unfolding and_one_minus u ..
qed

lemma counted_fractionals_loop_correct:
  "unat F < 2 ^ k \<Longrightarrow> k \<le> 60 \<Longrightarrow> n \<le> length rest \<Longrightarrow>
   \<exists>xs F' E'. counted_fractionals_loop (push_bit k 1) (int k) F E (ds @ rest) (length ds) kappa n
       = Some (F', E', (ds @ xs) @ drop (length xs) rest, length (ds @ xs), kappa - int (length xs), n - length xs)
     \<and> length xs \<le> n \<and> all_decimal xs \<and> unat F' < 2 ^ k \<and> unat F * 10 ^ length xs = decimal_value xs * 2 ^ k + unat F'
     \<and> unat E' = unat E * 10 ^ length xs \<and> (xs \<noteq> [] \<longrightarrow> last xs = CHR ''0'' \<longrightarrow> unat E' < unat F')"
proof (induction n arbitrary: F E ds rest kappa)
  case 0
  then show ?case by (intro exI3 [of _ "[]" F E]) simp
next
  case (Suc n)
  show ?case
  proof (cases "F > E")
    case False
    then show ?thesis using Suc.prems(1) by (intro exI3 [of _ "[]" F E]) simp
  next
    case True
    note fd = fraction_digit [OF Suc.prems(1,2)]
    let ?q = "10 * unat F div 2 ^ k" and ?F = "F * 10 AND (push_bit k 1 - 1)"
    let ?c = "digit_char (of_nat ?q)"
    have "(2 :: nat) ^ k \<le> 2 ^ 60" using Suc.prems(2) by (intro power_increasing) simp_all
    then have "unat E < 2 ^ 60" using True Suc.prems(1) by (simp add: word_less_nat_alt)
    then have E: "unat (E * 10) = 10 * unat E" by (rule times_10)
    obtain z rest' where rest: "rest = z # rest'" using Suc.prems(3) by (cases rest) auto
    have put: "bput (ds @ rest) (length ds) ?c = Some ((ds @ [?c]) @ rest')" by (simp add: bput_def rest list_update_append)
    have "unat ?F < 2 ^ k" unfolding fd(4) by simp
    from Suc.IH [OF this Suc.prems(2), of rest' "E * 10" "ds @ [?c]" "kappa - 1"] Suc.prems(3) rest obtain xs F' E' where
      xs: "counted_fractionals_loop (push_bit k 1) (int k) ?F (E * 10) ((ds @ [?c]) @ rest') (length (ds @ [?c])) (kappa - 1) n
         = Some (F', E', ((ds @ [?c]) @ xs) @ drop (length xs) rest', length ((ds @ [?c]) @ xs), kappa - 1 - int (length xs), n - length xs)"
        "length xs \<le> n" "all_decimal xs" "unat F' < 2 ^ k" "unat ?F * 10 ^ length xs = decimal_value xs * 2 ^ k + unat F'"
        "unat E' = unat (E * 10) * 10 ^ length xs" "xs \<noteq> [] \<longrightarrow> last xs = CHR ''0'' \<longrightarrow> unat E' < unat F'" by auto
    have run: "counted_fractionals_loop (push_bit k 1) (int k) F E (ds @ rest) (length ds) kappa (Suc n)
         = Some (F', E', (ds @ ?c # xs) @ drop (length (?c # xs)) rest, length (ds @ ?c # xs), kappa - int (length (?c # xs)), Suc n - length (?c # xs))"
      using True put fd(1,2) xs(1) rest by (simp add: algebra_simps)
    have c: "is_decimal ?c" "dec_digit ?c = ?q" using digit_char_value [of ?q] fd(3) by simp_all
    have split: "10 * unat F = ?q * 2 ^ k + unat ?F" unfolding fd(4) by (rule div_mult_mod_eq [symmetric])
    then have "10 * unat F * 10 ^ length xs = (?q * 2 ^ k + unat ?F) * 10 ^ length xs" by (rule arg_cong)
    then have "unat F * 10 ^ length (?c # xs) = ?q * 10 ^ length xs * 2 ^ k + unat ?F * 10 ^ length xs"
      unfolding distrib_right length_Cons power_Suc by (simp only: ac_simps)
    then have "unat F * 10 ^ length (?c # xs) = decimal_value (?c # xs) * 2 ^ k + unat F'"
      unfolding decimal_value_Cons xs(5) c(2) distrib_right by (simp only: add.assoc)
    moreover have "unat E' < unat F'" if "last (?c # xs) = CHR ''0''"
    proof (cases "xs = []")
      case xn: True
      then have "?q = 0" using that c(2) by (simp add: dec_digit_def)
      then have "unat ?F = 10 * unat F" using split by simp
      then show ?thesis using xs(5,6) xn E True by (simp add: word_less_nat_alt)
    qed (use that xs(7) in simp)
    moreover have "unat E' = unat E * 10 ^ length (?c # xs)" using xs(6) E by simp
    moreover have "length (?c # xs) \<le> Suc n" "all_decimal (?c # xs)" using xs(2,3) c(1) by simp_all
    ultimately show ?thesis using run xs(4) by blast
  qed
qed

end
