(* ===== verification/GrisuPrecision.thy ===== *)
theory GrisuPrecision
  imports GrisuCounted
begin

text \<open>
  \<open>DigitGenCounted\<close>, \<open>Grisu3Counted\<close> and \<open>FastDtoa\<close> with a given number of digits: they always return,
  and a success gives the digits of the exact conversion.
\<close>

section \<open>Digit generation\<close>

definition counted_digits_ok :: "real \<Rightarrow> nat \<Rightarrow> string \<Rightarrow> int \<Rightarrow> bool" where
  "counted_digits_ok y r ds kappa \<longleftrightarrow> length ds = r \<and> all_decimal ds \<and> 10 ^ (r - 1) \<le> decimal_value ds
     \<and> (\<exists>D E. counted_ok (y / 10 powi E) r D \<and> real D * 10 powi E = real (decimal_value ds) * 10 powi kappa)"

lemma counted_digits_okI:
  "length ds = r \<Longrightarrow> all_decimal ds \<Longrightarrow> 10 ^ (r - 1) \<le> decimal_value ds \<Longrightarrow> counted_ok z r D \<Longrightarrow> z = y / 10 powi E \<Longrightarrow>
    real D * 10 powi E = real (decimal_value ds) * 10 powi kappa \<Longrightarrow> counted_digits_ok y r ds kappa"
  unfolding counted_digits_ok_def by blast

text \<open>The last digit is already before the point.\<close>

lemma counted_in_integrals:
  assumes f: "unat f < 2 ^ 64" and q: "32 \<le> q" "q \<le> 60" and N: "N = unat f div 2 ^ q" "10 ^ k \<le> N" "N < 10 ^ Suc k" and r: "1 \<le> r" "r \<le> Suc k"
    and I: "unat I = N mod 10 ^ (Suc k - r)" and dv: "unat dv = 10 ^ (Suc k - r)"
    and xs: "length xs = r" "all_decimal xs" "decimal_value xs = N div 10 ^ (Suc k - r)"
    and F: "unat F = unat f mod 2 ^ q" and X: "\<bar>X - real (unat f)\<bar> < 1"
  shows "\<exists>s ten_kappa. shl64 (ucast (I :: 32 word)) (int q) = Some s \<and> shl64 (ucast (dv :: 32 word)) (int q) = Some ten_kappa \<and>
    (\<exists>ok ds kappa. RoundWeedCounted (xs @ tail) r (s + F) ten_kappa 1 (int (Suc k - r)) = Some (ok, ds @ tail, kappa) \<and> length ds = r
      \<and> (ok \<longrightarrow> counted_digits_ok (X / 2 ^ q) r ds kappa))"
proof -
  let ?m = "Suc k - r"
  define s T where "s = push_bit q (ucast I :: 64 word)" and "T = push_bit q (ucast dv :: 64 word)"
  have Nq: "N * 2 ^ q \<le> unat f" unfolding N(1) by simp
  have m: "(10 :: nat) ^ ?m \<le> 10 ^ k" using r(1) by (intro power_increasing) simp_all
  then have mN: "10 ^ ?m \<le> N" using N(2) by (rule order_trans)
  have "10 ^ ?m * 2 ^ q \<le> N * 2 ^ q" using mN by (rule mult_le_mono1)
  then have lim: "10 ^ ?m * 2 ^ q < (2 :: nat) ^ 64" using Nq f by linarith
  then have T: "unat T = 10 ^ ?m * 2 ^ q" unfolding T_def using lim unat_push [of "ucast dv" q] dv by (simp add: unat_ucast_32_64)
  have Im: "unat I + 1 \<le> 10 ^ ?m" unfolding I by (simp add: Suc_leI)
  then have IT: "(unat I + 1) * 2 ^ q \<le> 10 ^ ?m * 2 ^ q" by (rule mult_le_mono1)
  then have "unat I * 2 ^ q < 2 ^ 64" using lim by (simp add: distrib_right)
  then have su: "unat s = unat I * 2 ^ q" unfolding s_def using unat_push [of "ucast I" q] by (simp add: unat_ucast_32_64)
  have Fq: "unat F < 2 ^ q" unfolding F by simp
  then have rest: "unat s + unat F < unat T" using IT unfolding su T distrib_right by simp
  then have sF: "unat (s + F) = unat s + unat F" using unat64_less [of T] by (intro unat_add_exact) linarith
  have "decimal_value xs * unat T + unat (s + F) = (N div 10 ^ ?m * 10 ^ ?m + N mod 10 ^ ?m) * 2 ^ q + unat f mod 2 ^ q"
    unfolding xs(3) T sF su I F distrib_right by (simp only: mult.assoc add.assoc)
  then have val: "decimal_value xs * unat T + unat (s + F) = unat f" unfolding div_mult_mod_eq N(1) .
  have D: "10 ^ (r - 1) \<le> decimal_value xs"
  proof -
    have "10 ^ k = 10 ^ (r - 1) * (10 :: nat) ^ ?m" using r by (simp flip: power_add)
    then have "10 ^ (r - 1) * 10 ^ ?m \<le> N" using N(2) by simp
    then show ?thesis unfolding xs(3) by (subst less_eq_div_iff_mult_less_eq) simp_all
  qed
  have "(2 :: nat) ^ 32 * 1 \<le> 2 ^ q * 10 ^ ?m" using q(1) by (intro mult_le_mono power_increasing) simp_all
  then have "20 * unat (1 :: 64 word) \<le> unat T" unfolding T by (simp add: mult.commute)
  then have low: "(20 * unat (1 :: 64 word) \<le> unat T \<or> unat (1 :: 64 word) \<le> unat (s + F)) \<or> 10 ^ (length xs - 1) < decimal_value xs" by blast
  have ne: "xs \<noteq> []" using xs(1) r(1) by auto
  have x: "\<bar>X - real (decimal_value xs * unat T + unat (s + F))\<bar> < real (unat (1 :: 64 word))" unfolding val using X by simp
  obtain ok ds kappa where w: "RoundWeedCounted (xs @ tail) r (s + F) T 1 (int ?m) = Some (ok, ds @ tail, kappa)" "length ds = r" "all_decimal ds"
      "ok \<longrightarrow> 10 ^ (r - 1) \<le> decimal_value ds \<and> (\<exists>D. counted_ok (X / real (unat T)) r D \<and> real D * 10 powi int ?m = real (decimal_value ds) * 10 powi kappa)"
    using RoundWeedCounted_correct [OF xs(2) ne D [folded xs(1)] rest [folded sF] x low, of tail "int ?m"] unfolding xs(1) by blast
  have "X / real (unat T) = X / 2 ^ q / 10 powi int ?m" unfolding T by (simp add: mult.commute)
  then have "counted_digits_ok (X / 2 ^ q) r ds kappa" if ok using w(2-4) that counted_digits_okI by metis
  moreover have "shl64 (ucast I) (int q) = Some s" "shl64 (ucast dv) (int q) = Some T" using q(2) by (simp_all add: shl64_def s_def T_def)
  ultimately show ?thesis using w(1,2) by blast
qed

text \<open>Digits after the point are needed.\<close>

lemma counted_in_fractionals:
  assumes q: "32 \<le> q" "q \<le> 60" and N: "N = unat f div 2 ^ q" "10 ^ k \<le> N" and r: "r = Suc k + n" "1 \<le> n"
    and xs: "length xs = Suc k" "all_decimal xs" "decimal_value xs = N"
    and ys: "length ys = n" "all_decimal ys" "unat f mod 2 ^ q * 10 ^ n = decimal_value ys * 2 ^ q + unat F" "unat F < 2 ^ q"
      "last ys = CHR ''0'' \<Longrightarrow> unat u < unat F" and u: "unat u = 10 ^ n" and X: "\<bar>X - real (unat f)\<bar> < 1"
  shows "\<exists>ok ds kappa. RoundWeedCounted ((xs @ ys) @ tail) r F (push_bit q 1) u (- int n) = Some (ok, ds @ tail, kappa) \<and> length ds = r
      \<and> (ok \<longrightarrow> counted_digits_ok (X / 2 ^ q) r ds kappa)"
proof -
  let ?D = "decimal_value (xs @ ys)"
  have D: "?D = N * 10 ^ n + decimal_value ys" using ys(1,2) xs(3) by (simp add: decimal_value_append)
  have "(2 :: nat) ^ q \<le> 2 ^ 60" using q(2) by (intro power_increasing) simp_all
  then have T: "unat (push_bit q 1 :: 64 word) = 2 ^ q" using unat_push [of 1 q] by simp
  have "?D * 2 ^ q + unat F = (N * 2 ^ q + unat f mod 2 ^ q) * 10 ^ n" unfolding D distrib_right ys(3) by (simp only: ac_simps)
  then have val: "?D * 2 ^ q + unat F = unat f * 10 ^ n" unfolding N(1) div_mult_mod_eq .
  have "\<bar>X * 10 ^ n - real (unat f * 10 ^ n)\<bar> = \<bar>X - real (unat f)\<bar> * 10 ^ n"
    by (simp add: abs_mult flip: left_diff_distrib)
  also have "\<dots> < 1 * 10 ^ n" using X by (intro mult_strict_right_mono) simp_all
  finally have x: "\<bar>X * 10 ^ n - real (?D * unat (push_bit q 1 :: 64 word) + unat F)\<bar> < real (unat u)" unfolding T val u by simp
  have p: "10 ^ (r - 1) = 10 ^ k * (10 :: nat) ^ n" using r by (simp flip: power_add)
  have "10 ^ k * 10 ^ n \<le> N * 10 ^ n" using N(2) by (rule mult_le_mono1)
  then have Dr: "10 ^ (r - 1) \<le> ?D" unfolding p D by linarith
  have low: "unat u \<le> unat F \<or> 10 ^ (r - 1) < ?D"
  proof (cases "?D = 10 ^ (r - 1)")
    case True
    obtain zs z where z: "ys = zs @ [z]" using ys(1) r(2) by (cases ys rule: rev_cases) auto
    have "?D = decimal_value (xs @ zs) * 10 + dec_digit z" unfolding z append_assoc [symmetric] by (rule decimal_value_snoc)
    moreover have "dec_digit z \<le> 9" "z = digit_char (of_nat (dec_digit z))" using decimal_char [of z] ys(2) z by auto
    moreover obtain j where "r - 1 = Suc j" using r by (cases "r - 1") auto
    ultimately have "dec_digit z = 0" using True by simp presburger
    then have "last ys = CHR ''0''" using \<open>z = digit_char (of_nat (dec_digit z))\<close> z digit_char_cases [of 0] by simp
    then show ?thesis using ys(5) by simp
  qed (use Dr in simp)
  have ne: "xs @ ys \<noteq> []" and len: "length (xs @ ys) = r" using xs(1) ys(1) r by auto
  have F: "unat F < unat (push_bit q 1 :: 64 word)" unfolding T by (rule ys(4))
  have all: "all_decimal (xs @ ys)" using xs(2) ys(2) by simp
  have "(20 * unat u \<le> unat (push_bit q 1 :: 64 word) \<or> unat u \<le> unat F) \<or> 10 ^ (length (xs @ ys) - 1) < ?D" using low unfolding len by blast
  from RoundWeedCounted_correct [OF all ne Dr [folded len] F x this, of tail "- int n"]
  obtain ok ds kappa where w: "RoundWeedCounted ((xs @ ys) @ tail) r F (push_bit q 1) u (- int n) = Some (ok, ds @ tail, kappa)" "length ds = r" "all_decimal ds"
      "ok \<longrightarrow> 10 ^ (r - 1) \<le> decimal_value ds
        \<and> (\<exists>D. counted_ok (X * 10 ^ n / real (unat (push_bit q 1 :: 64 word))) r D \<and> real D * 10 powi (- int n) = real (decimal_value ds) * 10 powi kappa)"
    unfolding len by blast
  have "X * 10 ^ n / real (unat (push_bit q 1 :: 64 word)) = X / 2 ^ q / 10 powi (- int n)" unfolding T by (simp add: power_int_minus field_simps)
  then have "counted_digits_ok (X / 2 ^ q) r ds kappa" if ok using w(2-4) that counted_digits_okI by metis
  then show ?thesis using w(1,2) by blast
qed

lemma counted_integrals:
  assumes w: "diy_f w = f" "diy_e w = - int q" "2 ^ 62 \<le> unat f" and q: "32 \<le> q" "q \<le> 60" and r: "1 \<le> r" "r \<le> length buf"
    and N: "N = unat f div 2 ^ q"
  obtains k xs I dv where "10 ^ k \<le> N" "N < 10 ^ Suc k" "length xs = min r (Suc k)" "all_decimal xs" "decimal_value xs = N div 10 ^ (Suc k - length xs)"
    "unat I = N mod 10 ^ (Suc k - length xs)" "r \<le> Suc k \<longrightarrow> unat dv = 10 ^ (Suc k - r)"
    "BiggestPowerTen (ucast (drop_bit q f)) (int (64 - q)) = Some (of_nat (10 ^ k), int (Suc k))"
    "counted_integrals_loop (int r) (ucast (drop_bit q f)) (of_nat (10 ^ k)) buf 0 (Suc k)
       = Some (int (r - length xs), I, dv, xs @ drop (length xs) buf, length xs, int (Suc k - length xs))"
proof -
  define I where "I = (ucast (drop_bit q f) :: 32 word)"
  obtain k where I: "unat I = N" and k: "BiggestPowerTen I (int (64 - q)) = Some (of_nat (10 ^ k), int (Suc k))" "10 ^ k \<le> N" "N < 10 ^ Suc k"
      "unat (of_nat (10 ^ k) :: 32 word) = 10 ^ k"
    using leading_power [OF w(3) q N I_def] by blast
  have dv: "unat (of_nat (10 ^ k) :: 32 word) = 10 ^ (Suc k - 1)" using k(4) by (simp only: diff_Suc_1)
  have rl: "min r (Suc k) \<le> length buf" using r(2) by simp
  from counted_integrals_loop_correct [OF k(3) [folded I] dv r(1) rl, of "[]"] show thesis
    unfolding append_Nil list.size(3) I using k that unfolding I_def by (elim exE conjE) (rule that)
qed


lemma counted_run:
  assumes w: "diy_f w = f" "diy_e w = - int q" and q: "32 \<le> q" "q \<le> 60"
    and B: "BiggestPowerTen (ucast (drop_bit q f)) (int (64 - q)) = Some (dv, int n)"
    and L: "counted_integrals_loop r (ucast (drop_bit q f)) dv buf 0 n = Some (r', I', dv', buf', len, kappa)"
  shows "DigitGenCounted w r buf = (if r' = 0 then
      do { s \<leftarrow> shl64 (ucast I') (int q); ten_kappa \<leftarrow> shl64 (ucast dv') (int q);
           (result, buffer2, kappa2) \<leftarrow> RoundWeedCounted buf' len (s + (f AND (push_bit q 1 - 1))) ten_kappa 1 kappa;
           Some (result, buffer2, len, kappa2) }
    else do { (F', u', buffer2, len2, kappa2, left) \<leftarrow>
            counted_fractionals_loop (push_bit q 1) (int q) (f AND (push_bit q 1 - 1)) 1 buf' len kappa (nat r');
          if r' < 0 \<or> left \<noteq> 0 then Some (False, buffer2, len2, kappa2)
          else do { (result, buffer3, kappa3) \<leftarrow> RoundWeedCounted buffer2 len2 F' (push_bit q 1) u' kappa2; Some (result, buffer3, len2, kappa3) } })"
proof -
  have "kSignificandSize - int q = int (64 - q)" "shl64 1 (int q) = Some (push_bit q 1)" "shr64 f (int q) = Some (drop_bit q f)" "- (- int q) = int q"
    using q by (simp_all add: shl64_def shr64_def)
  then show ?thesis unfolding DigitGenCounted_def Let_def w by (simp only: Option.bind.bind_lunit bind.simps B L prod.case nat_int)
qed

lemma DigitGenCounted_correct:
  assumes w: "diy_f w = f" "diy_e w = - int q" "2 ^ 62 \<le> unat f" and q: "32 \<le> q" "q \<le> 60" and r: "1 \<le> r" "r \<le> length buf"
    and X: "\<bar>X - real (unat f)\<bar> < 1"
  shows "\<exists>ok ds kappa. DigitGenCounted w (int r) buf = Some (ok, ds @ drop (length ds) buf, length ds, kappa) \<and> length ds \<le> r
    \<and> (ok \<longrightarrow> counted_digits_ok (X / 2 ^ q) r ds kappa)"
proof -
  define N where "N = unat f div 2 ^ q"
  define F where "F = f AND (push_bit q 1 - 1)"
  have F: "unat F = unat f mod 2 ^ q" unfolding F_def by (rule and_one_minus)
  obtain k xs I' dv' where k: "10 ^ k \<le> N" "N < 10 ^ Suc k" and xs: "length xs = min r (Suc k)" "all_decimal xs" "decimal_value xs = N div 10 ^ (Suc k - length xs)"
    "unat I' = N mod 10 ^ (Suc k - length xs)" "r \<le> Suc k \<longrightarrow> unat dv' = 10 ^ (Suc k - r)"
    and B: "BiggestPowerTen (ucast (drop_bit q f)) (int (64 - q)) = Some (of_nat (10 ^ k), int (Suc k))"
    and L: "counted_integrals_loop (int r) (ucast (drop_bit q f)) (of_nat (10 ^ k)) buf 0 (Suc k)
       = Some (int (r - length xs), I', dv', xs @ drop (length xs) buf, length xs, int (Suc k - length xs))"
    by (rule counted_integrals [OF w q r N_def])
  note run = counted_run [OF w(1,2) q B L, folded F_def]
  show ?thesis
  proof (cases "r \<le> Suc k")
    case True
    then have l: "length xs = r" using xs(1) by simp
    have Im: "unat I' = N mod 10 ^ (Suc k - r)" "decimal_value xs = N div 10 ^ (Suc k - r)" "unat dv' = 10 ^ (Suc k - r)"
      using xs(3-5) True unfolding l by simp_all
    obtain s T ok ds kappa where g: "shl64 (ucast I') (int q) = Some s" "shl64 (ucast dv') (int q) = Some T"
      "RoundWeedCounted (xs @ drop r buf) r (s + F) T 1 (int (Suc k - r)) = Some (ok, ds @ drop r buf, kappa)" "length ds = r"
      "ok \<longrightarrow> counted_digits_ok (X / 2 ^ q) r ds kappa"
      using counted_in_integrals [OF unat64_less q N_def k r(1) True Im(1,3) l xs(2) Im(2) F X, of "drop r buf"] by blast
    have "DigitGenCounted w (int r) buf = Some (ok, ds @ drop (length ds) buf, length ds, kappa)" unfolding run l g(4) by (simp add: g(1-3))
    then show ?thesis using g(4,5) by blast
  next
    case False
    then have l: "length xs = Suc k" "1 \<le> r - Suc k" "r = Suc k + (r - Suc k)" using xs(1) by auto
    have v: "decimal_value xs = N" using xs(3) unfolding l by simp
    have Fq: "unat F < 2 ^ q" unfolding F by simp
    have "r - Suc k \<le> length (drop (Suc k) buf)" using r(2) by simp
    from counted_fractionals_loop_correct [OF Fq q(2) this, of 1 xs 0]
    obtain ys F' E' where ys: "counted_fractionals_loop (push_bit q 1) (int q) F 1 (xs @ drop (Suc k) buf) (length xs) 0 (r - Suc k)
       = Some (F', E', (xs @ ys) @ drop (length ys) (drop (Suc k) buf), length (xs @ ys), 0 - int (length ys), r - Suc k - length ys)"
       "length ys \<le> r - Suc k" "all_decimal ys" "unat F' < 2 ^ q" "unat F * 10 ^ length ys = decimal_value ys * 2 ^ q + unat F'"
       "unat E' = unat (1 :: 64 word) * 10 ^ length ys" "ys \<noteq> [] \<longrightarrow> last ys = CHR ''0'' \<longrightarrow> unat E' < unat F'"
      by (elim exE conjE) (rule that)
    have nz: "int (r - length xs) \<noteq> 0" "\<not> int (r - length xs) < 0" "nat (int (r - length xs)) = r - Suc k" "int (Suc k - length xs) = 0" using l by simp_all
    have dr: "drop (length ys) (drop (Suc k) buf) = drop (length (xs @ ys)) buf" using l by (simp add: add.commute)
    show ?thesis
    proof (cases "length ys = r - Suc k")
      case False
      then have "r - Suc k - length ys \<noteq> 0" using ys(2) by simp
      then have "DigitGenCounted w (int r) buf = Some (False, (xs @ ys) @ drop (length (xs @ ys)) buf, length (xs @ ys), 0 - int (length ys))"
        unfolding run using nz ys(1) [folded l(1)] dr [folded l(1)] by (simp only: l(1) [symmetric] if_False bind.simps prod.case) simp
      moreover have "length (xs @ ys) \<le> r" using ys(2) l by simp
      ultimately show ?thesis by blast
    next
      case len: True
      have z: "last ys = CHR ''0'' \<Longrightarrow> unat E' < unat F'" using ys(7) len l(2) by auto
      have u: "unat E' = 10 ^ (r - Suc k)" using ys(6) len by simp
      obtain ok ds kappa where g: "RoundWeedCounted ((xs @ ys) @ drop r buf) r F' (push_bit q 1) E' (- int (r - Suc k)) = Some (ok, ds @ drop r buf, kappa)"
         "length ds = r" "ok \<longrightarrow> counted_digits_ok (X / 2 ^ q) r ds kappa"
        using counted_in_fractionals [OF q N_def k(1) l(3,2,1) xs(2) v len ys(3) ys(5) [unfolded len F] ys(4) z u X, of "drop r buf"] by blast
      have "DigitGenCounted w (int r) buf = Some (ok, ds @ drop (length ds) buf, length ds, kappa)"
      proof -
        have n: "length (xs @ ys) = r" "0 - int (length ys) = - int (r - Suc k)" "r - Suc k - length ys = 0" using l len by simp_all
        then have "counted_fractionals_loop (push_bit q 1) (int q) F 1 (xs @ drop (length xs) buf) (length xs) (int (Suc k - length xs)) (nat (int (r - length xs)))
            = Some (F', E', (xs @ ys) @ drop r buf, r, - int (r - Suc k), 0)"
          using ys(1) unfolding nz dr n l(1) by simp
        then show ?thesis unfolding run g(2) using nz(1,2) by (simp only: if_False bind.simps prod.case g(1)) simp
      qed
      then show ?thesis using g(2,3) by blast
    qed
  qed
qed


section \<open>The conversion\<close>

lemma counted_digits_scale:
  assumes "counted_digits_ok (x * 10 powi d) r ds kappa"
  shows "counted_digits_ok x r ds (- d + kappa)"
proof -
  obtain D E where D: "length ds = r" "all_decimal ds" "10 ^ (r - 1) \<le> decimal_value ds" "counted_ok (x * 10 powi d / 10 powi E) r D"
      "real D * 10 powi E = real (decimal_value ds) * 10 powi kappa"
    using assms unfolding counted_digits_ok_def by blast
  have "x * 10 powi d / 10 powi E = x / 10 powi (E - d)" by (simp add: power_int_diff)
  moreover have "real D * 10 powi (E - d) = real (decimal_value ds) * 10 powi (- d + kappa)"
    using D(5) by (simp add: power_int_diff power_int_add power_int_minus divide_inverse)
  ultimately show ?thesis using D(1-4) counted_digits_okI by metis
qed

lemma Grisu3Counted_correct:
  assumes v: "finite_positive v" and r: "1 \<le> r" "r \<le> length buf"
  shows "\<exists>ok ds e. Grisu3Counted v (int r) buf = Some (ok, ds @ drop (length ds) buf, length ds, e) \<and> length ds \<le> r
    \<and> (ok \<longrightarrow> counted_digits_ok (dval v) r ds e)"
proof -
  obtain w where w: "Double_AsNormalizedDiyFp v = Some w" "2 ^ 63 \<le> unat (diy_f w)" "diy_val w = dval v" "- 1137 \<le> diy_e w" "diy_e w \<le> 960"
    using normalized_double [OF v] by blast
  obtain c d where c: "GetCachedPowerForBinaryExponentRange (- 60 - (diy_e w + 64)) (- 32 - (diy_e w + 64)) = Some (c, d)" "approximates c d"
      "- 60 \<le> diy_e w + diy_e c + 64" "diy_e w + diy_e c + 64 \<le> - 32"
    using lookup_binary [OF w(4,5)] by blast
  define q where "q = nat (- (diy_e w + diy_e c + 64))"
  have q: "diy_e (DiyFp_Times w c) = - int q" "32 \<le> q" "q \<le> 60" using c(3,4) unfolding Times_fields q_def by simp_all
  have "2 ^ 63 \<le> unat (diy_f c)" using c(2) by (simp only: approximates_def)
  then have f: "2 ^ 62 \<le> unat (diy_f (DiyFp_Times w c))" using w(2) scaled_large by blast
  have "\<bar>real (unat (diy_f (DiyFp_Times w c))) - diy_val w * 10 powi d / 2 powi (- int q)\<bar> < 1"
    using scaled_error [OF c(2), of w] unfolding q(1) .
  then have X: "\<bar>dval v * 10 powi d * 2 ^ q - real (unat (diy_f (DiyFp_Times w c)))\<bar> < 1"
    unfolding w(3) by (simp add: power_int_minus divide_inverse abs_minus_commute)
  have unscale: "dval v * 10 powi d * 2 ^ q / 2 ^ q = dval v * 10 powi d" by simp
  obtain ok ds kappa where g: "DigitGenCounted (DiyFp_Times w c) (int r) buf = Some (ok, ds @ drop (length ds) buf, length ds, kappa)" "length ds \<le> r"
      "ok \<longrightarrow> counted_digits_ok (dval v * 10 powi d) r ds kappa"
    using DigitGenCounted_correct [OF refl q(1) f q(2,3) r X] unfolding unscale by blast
  have "Grisu3Counted v (int r) buf = Some (ok, ds @ drop (length ds) buf, length ds, - d + kappa)"
    unfolding Grisu3Counted_def w(1) Let_def by (simp only: bind.simps c(1) g(1) prod.case)
  then show ?thesis using g(2,3) counted_digits_scale by blast
qed

lemma floor_near: "\<bar>y - real D\<bar> < 1 / 2 \<Longrightarrow> \<lfloor>y + 1 / 2\<rfloor> = int D"
  unfolding floor_eq_iff of_int_of_nat_eq by linarith

text \<open>Rounding with an error gives what exact rounding gives.\<close>

lemma counted_exact:
  assumes c: "counted_ok (x / 10 powi E) r D" and r: "1 \<le> r" and p: "10 powi (p - 1) \<le> x" "x < 10 powi p"
  shows "of_int \<lfloor>x * 10 powi (int r - p) + 1 / 2\<rfloor> * 10 powi (p - int r) = real D * 10 powi E"
proof -
  define y j where "y = x / 10 powi E" and "j = E + int r - p"
  have y: "\<bar>y - real D\<bar> < 1 / 2" "10 ^ (r - 1) \<le> D" "D \<le> 10 ^ r" "10 ^ (r - 1) - 1 / 20 < y" using c unfolding counted_ok_def y_def by simp_all
  obtain k where k: "r = Suc k" using r by (cases r) auto
  define A where "A = (10 :: real) ^ k"
  have A: "1 \<le> A" "(10 :: real) ^ r = 10 * A" "(10 :: real) ^ (r - 1) = A" unfolding A_def k by simp_all
  have rD: "A \<le> real D" "real D \<le> 10 * A" using y(2,3) A(2,3) by (metis of_nat_le_iff of_nat_numeral of_nat_power)+
  have z: "x * 10 powi (int r - p) = y * 10 powi j" unfolding y_def j_def by (simp add: power_int_add power_int_diff)
  have zb: "A \<le> y * 10 powi j" "y * 10 powi j < 10 * A"
  proof -
    have "10 powi (p - 1) * 10 powi (int r - p) \<le> x * 10 powi (int r - p)" "x * 10 powi (int r - p) < 10 powi p * 10 powi (int r - p)"
      using p by simp_all
    moreover have "p - 1 + (int r - p) = int k" "p + (int r - p) = int (Suc k)" unfolding k by simp_all
    then have "10 powi (p - 1) * 10 powi (int r - p) = A" "10 powi p * 10 powi (int r - p) = 10 * A"
      unfolding A_def by (metis power_int_add power_int_of_nat power_Suc zero_neq_numeral)+
    ultimately show "A \<le> y * 10 powi j" "y * 10 powi j < 10 * A" unfolding z by simp_all
  qed
  have y0: "0 < y" using y(4) A(1,3) by simp
  have "j \<le> 1"
  proof (rule ccontr)
    assume "\<not> j \<le> 1"
    then have "(10 :: real) powi 2 \<le> 10 powi j" by (intro power_int_increasing) simp_all
    then have "y * 100 \<le> y * 10 powi j" using y0 by simp
    then show False using zb(2) y(4) A(1) unfolding A(3) by linarith
  qed
  moreover have "- 1 \<le> j"
  proof (rule ccontr)
    assume "\<not> - 1 \<le> j"
    then have "(10 :: real) powi j \<le> 10 powi (- 2)" by (intro power_int_increasing) simp_all
    then have "y * 10 powi j \<le> y * (1 / 100)" using y0 by (intro mult_left_mono) simp_all
    then show False using zb(1) y(1) rD(2) A(1) by linarith
  qed
  ultimately consider "j = 0" | "j = 1" | "j = - 1" by linarith
  then show ?thesis
  proof cases
    case 1
    then have "\<lfloor>y * 10 powi j + 1 / 2\<rfloor> = int D" using floor_near [OF y(1)] by simp
    moreover have "p - int r = E" using 1 j_def by simp
    ultimately show ?thesis unfolding z by simp
  next
    case 2
    then have "y < A" using zb(2) by simp
    then have "real D < A + 1" using y(1) by linarith
    then have "real D < real (10 ^ k + 1)" unfolding A_def by simp
    then have "D = 10 ^ k" using y(2) unfolding k of_nat_less_iff by simp
    have "real (10 * 10 ^ k) = 10 * A" "y * 10 powi j = y * 10" unfolding A_def 2 by simp_all
    then have "\<bar>y * 10 powi j - real (10 * 10 ^ k)\<bar> < 1 / 2" using zb(2) y(4) unfolding A(3) by linarith
    note near = floor_near [OF this]
    have "p - int r = E - 1" using 2 j_def by simp
    then show ?thesis unfolding z near \<open>D = 10 ^ k\<close> by (simp add: power_int_diff)
  next
    case 3
    then have "10 * A \<le> y" using zb(1) by simp
    then have "10 * A < real D + 1" using y(1) by linarith
    then have "real (10 * 10 ^ k) < real (D + 1)" unfolding A_def by simp
    then have "D = 10 * 10 ^ k" using y(3) unfolding k of_nat_less_iff by simp
    have "real (10 ^ k) = A" "y * 10 powi j = y / 10" unfolding A_def 3 by simp_all
    then have "\<bar>y * 10 powi j - real (10 ^ k)\<bar> < 1 / 2" using zb(1) y(1) rD(2) by linarith
    note near = floor_near [OF this]
    have "p - int r = E + 1" using 3 j_def by simp
    then show ?thesis unfolding z near \<open>D = 10 * 10 ^ k\<close> by (simp add: power_int_add)
  qed
qed


section \<open>The fast conversion is the exact one\<close>

lemma decimal_value_inj:
  "length xs = length ys \<Longrightarrow> all_decimal xs \<Longrightarrow> all_decimal ys \<Longrightarrow> decimal_value xs = decimal_value ys \<Longrightarrow> xs = ys"
proof (induction xs ys rule: list_induct2)
  case (Cons x xs y ys)
  have d: "decimal_value xs < 10 ^ length ys" "decimal_value ys < 10 ^ length ys"
    using decimal_less [of xs] decimal_less [of ys] Cons.prems Cons.hyps by (simp_all add: all_decimal_def)
  have e: "dec_digit x * 10 ^ length ys + decimal_value xs = dec_digit y * 10 ^ length ys + decimal_value ys"
    using Cons.prems(3) Cons.hyps by (simp add: decimal_value_Cons)
  have "dec_digit x = (dec_digit x * 10 ^ length ys + decimal_value xs) div 10 ^ length ys" using d by simp
  also have "\<dots> = dec_digit y" unfolding e using d by simp
  finally have "dec_digit x = dec_digit y" .
  moreover from this have "decimal_value xs = decimal_value ys" using e by simp
  ultimately show ?case using Cons.IH Cons.prems(1,2) decimal_char [of x] decimal_char [of y] by (metis all_decimal_simps(2))
qed simp

lemma decimal_number_inj:
  assumes "length xs = length ys" "all_decimal xs" "all_decimal ys" "10 ^ (length ys - 1) \<le> decimal_value xs" "10 ^ (length ys - 1) \<le> decimal_value ys" "ys \<noteq> []"
    and eq: "real (decimal_value xs) * 10 powi a = real (decimal_value ys) * 10 powi b"
  shows "xs = ys \<and> a = b"
proof -
  obtain k where k: "length ys = Suc k" using assms(6) by (cases ys) auto
  have d: "real (decimal_value zs) < 10 powi (1 + int k)" "10 powi int k \<le> real (decimal_value zs)"
    if "all_decimal zs" "length zs = length ys" "10 ^ (length ys - 1) \<le> decimal_value zs" for zs
  proof -
    have "decimal_value zs < 10 ^ Suc k" "10 ^ k \<le> decimal_value zs" using decimal_less [of zs] that k by (simp_all add: all_decimal_def)
    then have "real (decimal_value zs) < real (10 ^ Suc k)" "real (10 ^ k) \<le> real (decimal_value zs)" by (simp_all only: of_nat_less_iff of_nat_le_iff)
    then show "real (decimal_value zs) < 10 powi (1 + int k)" "10 powi int k \<le> real (decimal_value zs)" by (simp_all add: power_int_add)
  qed
  note x = d [OF assms(2,1,4)] and y = d [OF assms(3) refl assms(5)]
  have lt: "i \<le> j" if "10 powi int k * 10 powi i \<le> m * 10 powi i" "m * 10 powi i = n * 10 powi j" "n * 10 powi j < (10 :: real) powi (1 + int k) * 10 powi j" for i j m n
  proof -
    have "10 powi int k * 10 powi i < (10 :: real) powi (1 + int k) * 10 powi j" using that by linarith
    then have "(10 :: real) powi (int k + i) < 10 powi (1 + int k + j)" by (simp only: power_int_add zero_neq_numeral [symmetric] simp_thms)
    then show ?thesis using power_int_less_cancel [of "10 :: real" "int k + i" "1 + int k + j"] by simp
  qed
  have "a \<le> b" by (rule lt [OF _ eq]) (use x y in simp_all)
  moreover have "b \<le> a" by (rule lt [OF _ eq [symmetric]]) (use x y in simp_all)
  ultimately have "a = b" by simp
  then have "decimal_value xs = decimal_value ys" using eq by simp
  then show ?thesis using decimal_value_inj assms(1-3) \<open>a = b\<close> by blast
qed

end
