(* ===== verification/GrisuWeed.thy ===== *)
theory GrisuWeed
  imports GrisuCounted
begin

text \<open>
  \<open>RoundWeed\<close> of \<open>fast-dtoa.cc\<close>: the digits of the upper end of the interval are moved towards the double,
  and the result is accepted only where the errors cannot matter. All quantities are multiples of the last
  unit: the upper end is \<open>H\<close>, the interval has length \<open>U\<close>, and the digits stand for multiples of \<open>T\<close>.
\<close>

section \<open>Closeness\<close>

lemma closer_down:
  fixes a b T W h :: real
  assumes "0 < T" "W \<le> h" "h < a + T" "h < a \<or> h - a \<le> a + T - h" "a + T \<le> b"
  shows "\<bar>a - W\<bar> \<le> \<bar>b - W\<bar>"
  using assms by linarith

lemma closer_up:
  fixes a b T W l :: real
  assumes "l \<le> W" "a \<le> l \<or> a - T \<le> l \<and> a - l \<le> l - (a - T)" "b \<le> a - T" "0 < T"
  shows "\<bar>a - W\<bar> \<le> \<bar>b - W\<bar>"
  using assms by linarith

lemma real_step: "y \<le> z \<Longrightarrow> real y * real T + real T \<le> real (Suc z) * real T" for T :: nat
  by (simp add: distrib_right flip: of_nat_mult)

section \<open>Moving the last digit down\<close>

lemma decrement_last:
  assumes "is_decimal c" "0 < dec_digit c" "length as = n"
  shows "\<exists>c'. decrement_at (as @ c # tail) n = Some (as @ c' # tail) \<and> is_decimal c' \<and> dec_digit c = Suc (dec_digit c')"
proof -
  have c: "dec_digit c \<le> 9" "c = digit_char (of_nat (dec_digit c))" using decimal_char [OF assms(1)] by simp_all
  obtain d where d: "dec_digit c = Suc d" using assms(2) by (cases "dec_digit c") auto
  then have c2: "c = char_of (Suc d + 48)" "d \<le> 8" using c digit_char_of_nat [of "dec_digit c"] by simp_all
  have "(of_char c :: nat) = Suc d + 48" unfolding c2(1) using c2(2) by (simp add: of_char_of)
  then have "(of_char c :: int) = int (Suc d + 48)" by (metis of_nat_of_char)
  then have "char_of ((of_char c :: int) - 1) = char_of (int (d + 48))" by (simp add: add.commute)
  also have "\<dots> = (char_of (d + 48) :: char)" by (rule char_of_nat)
  also have "\<dots> = digit_char (of_nat d)" using digit_char_of_nat [of d] c2(2) by simp
  finally have "decrement_at (as @ c # tail) n = Some (as @ digit_char (of_nat d) # tail)"
    using assms(3) by (simp add: decrement_at_def bget_def bput_def nth_append list_update_append)
  then show ?thesis using digit_char_value [of d] c2(2) d by (intro exI [of _ "digit_char (of_nat d)"]) simp
qed

lemma weed_loop_correct:
  fixes small U T :: "64 word"
  assumes len: "length as = n" and T: "0 < unat T" and as: "decimal_value as * 10 * unat T + unat U \<le> H" and s: "unat small \<le> unat U"
  shows "is_decimal c \<Longrightarrow> decimal_value (as @ [c]) * unat T + unat rest = H \<Longrightarrow> unat rest \<le> unat U \<Longrightarrow>
    \<exists>c' rest'. weed_loop (as @ c # tail) (Suc n) small U T rest = Some (as @ c' # tail, rest') \<and> is_decimal c'
      \<and> decimal_value (as @ [c']) * unat T + unat rest' = H \<and> unat rest' \<le> unat U \<and> decimal_value (as @ [c']) \<le> decimal_value (as @ [c])
      \<and> (\<forall>y W. decimal_value (as @ [c']) < y \<longrightarrow> y \<le> decimal_value (as @ [c]) \<longrightarrow> W \<le> real H - real (unat small)
           \<longrightarrow> \<bar>real (decimal_value (as @ [c'])) * real (unat T) - W\<bar> \<le> \<bar>real y * real (unat T) - W\<bar>)"
proof (induction "dec_digit c" arbitrary: c rest)
  case (0 c)
  have v: "decimal_value (as @ [c]) = decimal_value as * 10" using 0 by (simp add: decimal_value_snoc)
  have "unat U \<le> unat rest" using as 0 unfolding v by simp
  then have "unat (U - rest) < unat T" using 0 T by (simp add: unat_sub word_le_nat_alt)
  then have "\<not> U - rest \<ge> T" by (simp add: word_le_nat_alt)
  then have "weed_loop (as @ c # tail) (Suc n) small U T rest = Some (as @ c # tail, rest)" by (subst weed_loop.simps) (simp only: simp_thms if_False)
  then show ?case using 0 by (intro exI [of _ c] exI [of _ rest]) simp
next
  case (Suc d c)
  show ?case
  proof (cases "rest < small \<and> U - rest \<ge> T \<and> (rest + T < small \<or> small - rest \<ge> rest + T - small)")
    case False
    then have "weed_loop (as @ c # tail) (Suc n) small U T rest = Some (as @ c # tail, rest)" by (subst weed_loop.simps) (simp only: if_False)
    then show ?thesis using Suc.prems by (intro exI [of _ c] exI [of _ rest]) simp
  next
    case True
    have rU: "rest \<le> U" using Suc.prems(3) by (simp add: word_le_nat_alt)
    then have tU: "unat rest + unat T \<le> unat U" using True Suc.prems(3) by (simp add: word_le_nat_alt unat_sub) linarith
    then have rt: "unat (rest + T) = unat rest + unat T" using unat64_less [of U] by (intro unat_add_exact) linarith
    obtain c' where c': "decrement_at (as @ c # tail) n = Some (as @ c' # tail)" "is_decimal c'" "dec_digit c = Suc (dec_digit c')"
      using decrement_last [OF Suc.prems(1) _ len, of tail] Suc.hyps(2) by auto
    have v: "decimal_value (as @ [c]) = Suc (decimal_value (as @ [c']))" using c'(3) by (simp add: decimal_value_snoc)
    have eq: "decimal_value (as @ [c']) * unat T + unat (rest + T) = H" using Suc.prems(2) unfolding v rt by simp
    have "d = dec_digit c'" using Suc.hyps(2) c'(3) by simp
    from Suc.hyps(1) [OF this c'(2) eq] tU rt obtain c2 rest2 where
      l: "weed_loop (as @ c' # tail) (Suc n) small U T (rest + T) = Some (as @ c2 # tail, rest2)" "is_decimal c2"
        "decimal_value (as @ [c2]) * unat T + unat rest2 = H" "unat rest2 \<le> unat U" "decimal_value (as @ [c2]) \<le> decimal_value (as @ [c'])"
        "\<And>y W. decimal_value (as @ [c2]) < y \<Longrightarrow> y \<le> decimal_value (as @ [c']) \<Longrightarrow> W \<le> real H - real (unat small)
           \<Longrightarrow> \<bar>real (decimal_value (as @ [c2])) * real (unat T) - W\<bar> \<le> \<bar>real y * real (unat T) - W\<bar>" by auto
    have run: "weed_loop (as @ c # tail) (Suc n) small U T rest = Some (as @ c2 # tail, rest2)"
      using True c'(1) l(1) by (subst weed_loop.simps) simp
    have step: "\<bar>real (decimal_value (as @ [c'])) * real (unat T) - W\<bar> \<le> \<bar>real (decimal_value (as @ [c])) * real (unat T) - W\<bar>"
      if W: "W \<le> real H - real (unat small)" for W
    proof (rule closer_down [OF _ W])
      let ?a = "real (decimal_value (as @ [c'])) * real (unat T)"
      have H: "real H = ?a + real (unat rest) + real (unat T)" using arg_cong [OF eq, of real] unfolding rt by simp
      have r: "unat rest < unat small" "unat rest + unat T < unat small \<or> unat rest + unat T - unat small \<le> unat small - unat rest \<and> unat small \<le> unat rest + unat T"
        using True rt by (auto simp: word_less_nat_alt word_le_nat_alt unat_sub not_less)
      show "0 < real (unat T)" using T by (simp only: of_nat_0_less_iff)
      show "real H - real (unat small) < ?a + real (unat T)" using r(1) unfolding H of_nat_less_iff [symmetric, where 'a = real] by linarith
      show "real H - real (unat small) < ?a \<or> real H - real (unat small) - ?a \<le> ?a + real (unat T) - (real H - real (unat small))"
        using r(2) unfolding H by linarith
      show "?a + real (unat T) \<le> real (decimal_value (as @ [c])) * real (unat T)" unfolding v by (simp add: distrib_right)
    qed
    have "\<bar>real (decimal_value (as @ [c2])) * real (unat T) - W\<bar> \<le> \<bar>real y * real (unat T) - W\<bar>"
      if "decimal_value (as @ [c2]) < y" "y \<le> decimal_value (as @ [c])" "W \<le> real H - real (unat small)" for y W
    proof (cases "y \<le> decimal_value (as @ [c'])")
      case True
      then show ?thesis using l(6) that by blast
    next
      case False
      then have "y = decimal_value (as @ [c])" using that(2) v by simp
      moreover have "\<bar>real (decimal_value (as @ [c2])) * real (unat T) - W\<bar> \<le> \<bar>real (decimal_value (as @ [c'])) * real (unat T) - W\<bar>"
        using l(5,6) that(3) by (cases "decimal_value (as @ [c2]) = decimal_value (as @ [c'])") auto
      ultimately show ?thesis using step [OF that(3)] by simp
    qed
    then show ?thesis using run l(2-5) v by (metis le_SucI)
  qed
qed


section \<open>The rounding step\<close>

text \<open>What an accepted result satisfies: it keeps its distance from both ends of the interval, and no other
  multiple of \<open>T\<close> inside the interval is closer to a number that differs from the scaled double by less than
  the unit.\<close>

definition weeded :: "nat \<Rightarrow> nat \<Rightarrow> nat \<Rightarrow> nat \<Rightarrow> nat \<Rightarrow> nat \<Rightarrow> bool" where
  "weeded H U T u gap D \<longleftrightarrow> D * T + 2 * u \<le> H \<and> H + 4 * u \<le> D * T + U
     \<and> (\<forall>y W. H < y * T + U \<longrightarrow> y * T \<le> H \<longrightarrow> \<bar>W - (real H - real gap)\<bar> < real u
          \<longrightarrow> \<bar>real D * real T - W\<bar> \<le> \<bar>real y * real T - W\<bar>)"

lemma RoundWeed_correct:
  fixes gap U T u rest :: "64 word"
  assumes ds: "all_decimal (as @ [c])" and len: "n = Suc (length as)" and T: "unat rest < unat T"
    and H: "decimal_value (as @ [c]) * unat T + unat rest = H" and as: "decimal_value as * 10 * unat T + unat U \<le> H"
    and r: "unat rest < unat U" and d: "unat u \<le> unat gap" "unat gap + unat u \<le> unat U" "4 * unat u \<le> unat U"
  shows "\<exists>ok c'. RoundWeed (as @ c # tail) n gap U rest T u = Some (ok, as @ c' # tail) \<and> is_decimal c'
      \<and> (ok \<longrightarrow> weeded H (unat U) (unat T) (unat u) (unat gap) (decimal_value (as @ [c'])))"
proof -
  let ?s = "gap - u" and ?b = "gap + u"
  have s: "unat ?s = unat gap - unat u" using d(1) by (simp add: unat_sub word_le_nat_alt)
  have b: "unat ?b = unat gap + unat u" using d(2) unat64_less [of U] by (intro unat_add_exact) linarith
  have T0: "0 < unat T" using T by simp
  have sU: "unat ?s \<le> unat U" using s d(2) by simp
  have dec: "is_decimal c" using ds by simp
  obtain c' rest' where w: "weed_loop (as @ c # tail) n ?s U T rest = Some (as @ c' # tail, rest')" "is_decimal c'"
      "decimal_value (as @ [c']) * unat T + unat rest' = H" "unat rest' \<le> unat U" "decimal_value (as @ [c']) \<le> decimal_value (as @ [c])"
      "\<forall>y W. decimal_value (as @ [c']) < y \<longrightarrow> y \<le> decimal_value (as @ [c]) \<longrightarrow> W \<le> real H - real (unat ?s)
           \<longrightarrow> \<bar>real (decimal_value (as @ [c'])) * real (unat T) - W\<bar> \<le> \<bar>real y * real (unat T) - W\<bar>"
    using weed_loop_correct [OF refl T0 as sU dec H less_imp_le [OF r], of tail] unfolding len by blast
  let ?D = "decimal_value (as @ [c'])"
  define more where "more \<longleftrightarrow> rest' < ?b \<and> U - rest' \<ge> T \<and> (rest' + T < ?b \<or> ?b - rest' > rest' + T - ?b)"
  define ok where "ok \<longleftrightarrow> \<not> more \<and> 2 * u \<le> rest' \<and> rest' \<le> U - 4 * u"
  have run: "RoundWeed (as @ c # tail) n gap U rest T u = Some (ok, as @ c' # tail)"
    using w(1) unfolding RoundWeed_def Let_def ok_def more_def by (simp only: bind.simps prod.case) auto
  have "weeded H (unat U) (unat T) (unat u) (unat gap) ?D" if ok
  proof -
    have nm: "\<not> more" and rr: "2 * u \<le> rest'" "rest' \<le> U - 4 * u" using that by (simp_all add: ok_def)
    have "unat (2 * u) = 2 * unat u" "unat (4 * u) = 4 * unat u" using d(3) unat64_less [of U] by (simp_all add: unat_word_ariths)
    moreover from this have "4 * u \<le> U" using d(3) by (simp add: word_le_nat_alt)
    ultimately have rest': "2 * unat u \<le> unat rest'" "unat rest' + 4 * unat u \<le> unat U" using rr d(3) by (simp_all add: word_le_nat_alt unat_sub)
    have "\<bar>real ?D * real (unat T) - W\<bar> \<le> \<bar>real y * real (unat T) - W\<bar>"
      if y: "H < y * unat T + unat U" "y * unat T \<le> H" and W: "\<bar>W - (real H - real (unat gap))\<bar> < real (unat u)" for y W
    proof -
      let ?T = "unat T"
      have rH: "real H = real ?D * real ?T + real (unat rest')" using arg_cong [OF w(3), of real] by simp
      have bs: "real (unat ?b) = real (unat gap) + real (unat u)" "real (unat ?s) = real (unat gap) - real (unat u)"
        unfolding b s using d(1) by (simp_all only: of_nat_add of_nat_diff)
      have T': "0 < real ?T" using T0 by (simp only: of_nat_0_less_iff)
      consider "?D < y" | "y = ?D" | "y < ?D" by linarith
      then show ?thesis
      proof cases
        case 1
        have "y * ?T < (decimal_value (as @ [c]) + 1) * ?T" using y(2) H T unfolding distrib_right by linarith
        then have "y \<le> decimal_value (as @ [c])" unfolding mult_less_cancel2 by simp
        moreover have "W \<le> real H - real (unat ?s)" using W unfolding bs by linarith
        ultimately show ?thesis using w(6) 1 by blast
      next
        case 3
        then have "Suc y * ?T \<le> ?D * ?T" by (intro mult_le_mono1) simp
        then have yT: "y * ?T + ?T \<le> ?D * ?T" by simp
        then have tU: "unat rest' + ?T \<le> unat U" using y(1) w(3) by linarith
        then have rt: "unat (rest' + T) = unat rest' + ?T" using unat64_less [of U] by (intro unat_add_exact) linarith
        have "T \<le> U - rest'" using tU w(4) by (simp add: word_le_nat_alt unat_sub)
        then have "unat ?b \<le> unat rest' \<or> unat ?b \<le> unat rest' + ?T \<and> unat ?b \<le> unat rest' + (unat rest' + ?T - unat ?b)"
          using nm rt unfolding more_def by (auto simp: word_less_nat_alt word_le_nat_alt unat_sub not_less not_le)
        then have "real ?D * real ?T \<le> real H - real (unat ?b)
            \<or> real ?D * real ?T - real ?T \<le> real H - real (unat ?b)
              \<and> real ?D * real ?T - (real H - real (unat ?b)) \<le> real H - real (unat ?b) - (real ?D * real ?T - real ?T)"
          unfolding rH by linarith
        moreover have "real y * real ?T \<le> real ?D * real ?T - real ?T"
          using yT unfolding of_nat_le_iff [symmetric, where 'a = real] of_nat_add of_nat_mult by linarith
        moreover have "real H - real (unat ?b) \<le> W" using W unfolding bs by linarith
        ultimately show ?thesis using closer_up T' by blast
      qed simp
    qed
    then show ?thesis using rest' w(3) unfolding weeded_def by auto
  qed
  then show ?thesis using run w(2) by blast
qed

end
