(* ===== verification/GrisuLoops.thy ===== *)
theory GrisuLoops
  imports GrisuWeed
begin

text \<open>
  The loops of \<open>DigitGen\<close>: they produce the digits of the upper end of the interval until the rest is shorter
  than the interval, at most seventeen.
\<close>

section \<open>The state of the digits\<close>

text \<open>The digits \<open>ds\<close> count multiples of \<open>10 ^ m * 2 ^ q\<close> in a number scaled by \<open>10 ^ n\<close>; \<open>P\<close> are the digits
  before the last one, for which the rest was still too long.\<close>

definition shortest_ok :: "nat \<Rightarrow> nat \<Rightarrow> nat \<Rightarrow> nat \<Rightarrow> string \<Rightarrow> int \<Rightarrow> bool" where
  "shortest_ok H U gap q ds kappa \<longleftrightarrow> all_decimal ds \<and> 1 \<le> length ds \<and> length ds \<le> 17 \<and> 10 ^ (length ds - 1) \<le> decimal_value ds
     \<and> (\<exists>n m P. kappa = int m - int n \<and> weeded (H * 10 ^ n) (U * 10 ^ n) (10 ^ m * 2 ^ q) (10 ^ n) (gap * 10 ^ n) (decimal_value ds)
          \<and> P * 10 * (10 ^ m * 2 ^ q) + U * 10 ^ n \<le> H * 10 ^ n \<and> H * 10 ^ n < (P + 1) * 10 * (10 ^ m * 2 ^ q)
          \<and> (2 \<le> length ds \<longrightarrow> 10 ^ (length ds - 2) \<le> P))"

lemma shortest_okI:
  "all_decimal ds \<Longrightarrow> 1 \<le> length ds \<Longrightarrow> length ds \<le> 17 \<Longrightarrow> 10 ^ (length ds - 1) \<le> decimal_value ds \<Longrightarrow> kappa = int m - int n \<Longrightarrow>
    weeded (H * 10 ^ n) (U * 10 ^ n) (10 ^ m * 2 ^ q) (10 ^ n) (gap * 10 ^ n) (decimal_value ds) \<Longrightarrow>
    P * 10 * (10 ^ m * 2 ^ q) + U * 10 ^ n \<le> H * 10 ^ n \<Longrightarrow> H * 10 ^ n < (P + 1) * 10 * (10 ^ m * 2 ^ q) \<Longrightarrow>
    (2 \<le> length ds \<Longrightarrow> 10 ^ (length ds - 2) \<le> P) \<Longrightarrow> shortest_ok H U gap q ds kappa"
  unfolding shortest_ok_def by blast

lemma finish_weed:
  fixes ten u rest :: "64 word"
  assumes ds: "all_decimal ds" "is_decimal c" "length ds \<le> 16" and first: "ds \<noteq> [] \<Longrightarrow> 10 ^ (length ds - 1) \<le> decimal_value ds"
    and w: "unat ten = 10 ^ m * 2 ^ q" "unat u = 10 ^ n" "unat Uw = U * 10 ^ n" "unat gw = gap * 10 ^ n"
    and eq: "decimal_value (ds @ [c]) * unat ten + unat rest = H * 10 ^ n" and rest: "unat rest < unat ten" "unat rest < unat Uw"
    and prev: "decimal_value ds * 10 * unat ten + unat Uw \<le> H * 10 ^ n" "H * 10 ^ n < (decimal_value ds + 1) * 10 * unat ten"
    and gap: "1 \<le> gap" "gap + 1 \<le> U" "4 \<le> U"
  shows "\<exists>ok ds'. RoundWeed (ds @ c # tail) (length ds + 1) gw Uw rest ten u = Some (ok, ds' @ tail) \<and> length ds' = length ds + 1
    \<and> (ok \<longrightarrow> shortest_ok H U gap q ds' (int m - int n))"
proof -
  have g: "unat u \<le> unat gw" "unat gw + unat u \<le> unat Uw" "4 * unat u \<le> unat Uw"
    using mult_le_mono1 [OF gap(1), of "10 ^ n"] mult_le_mono1 [OF gap(2), of "10 ^ n"] mult_le_mono1 [OF gap(3), of "10 ^ n"]
    unfolding w by (simp_all add: distrib_right)
  have all: "all_decimal (ds @ [c])" using ds by simp
  obtain ok c' where r: "RoundWeed (ds @ c # tail) (length ds + 1) gw Uw rest ten u = Some (ok, ds @ c' # tail)" "is_decimal c'"
      "ok \<longrightarrow> weeded (H * 10 ^ n) (unat Uw) (unat ten) (unat u) (unat gw) (decimal_value (ds @ [c']))"
    using RoundWeed_correct [OF all _ rest(1) eq prev(1) rest(2) g, of "length ds + 1" tail] by auto
  have "shortest_ok H U gap q (ds @ [c']) (int m - int n)" if ok
  proof -
    have wd: "weeded (H * 10 ^ n) (unat Uw) (unat ten) (unat u) (unat gw) (decimal_value (ds @ [c']))" using r(3) that by blast
    have "10 ^ length ds \<le> decimal_value (ds @ [c'])"
    proof (cases "ds = []")
      case True
      have "decimal_value (ds @ [c']) \<noteq> 0"
      proof
        assume "decimal_value (ds @ [c']) = 0"
        then have "H * 10 ^ n + 4 * unat u \<le> unat Uw" using wd unfolding weeded_def by simp
        moreover have "0 < unat u" unfolding w by simp
        ultimately show False using prev(1) by linarith
      qed
      then show ?thesis using True by simp
    next
      case False
      then have "10 ^ length ds = 10 ^ (length ds - 1) * (10 :: nat)" by (cases ds) simp_all
      also have "\<dots> \<le> decimal_value ds * 10" using first [OF False] by simp
      also have "\<dots> \<le> decimal_value (ds @ [c'])" by (simp add: decimal_value_snoc)
      finally show ?thesis .
    qed
    then have D: "10 ^ (length (ds @ [c']) - 1) \<le> decimal_value (ds @ [c'])" by simp
    have P: "10 ^ (length (ds @ [c']) - 2) \<le> decimal_value ds" if "2 \<le> length (ds @ [c'])"
      using first that by (cases ds) simp_all
    have "all_decimal (ds @ [c'])" "1 \<le> length (ds @ [c'])" "length (ds @ [c']) \<le> 17" using ds(1,3) r(2) by simp_all
    from shortest_okI [OF this D refl wd [unfolded w] prev [unfolded w] P] show ?thesis .
  qed
  then show ?thesis using r(1) by (intro exI [of _ ok] exI [of _ "ds @ [c']"]) simp
qed

section \<open>Digits before the point\<close>

lemma first_digits:
  fixes N K kappa :: nat
  assumes "10 ^ (K - 1) \<le> N" "kappa < K"
  shows "10 ^ (K - kappa - 1) \<le> N div 10 ^ kappa"
proof -
  have "10 ^ (K - kappa - 1) * 10 ^ kappa \<le> N" using assms by (simp flip: power_add)
  then show ?thesis by (subst less_eq_div_iff_mult_less_eq) simp_all
qed

definition digits_state :: "nat \<Rightarrow> nat \<Rightarrow> nat \<Rightarrow> nat \<Rightarrow> string \<Rightarrow> nat \<Rightarrow> bool" where
  "digits_state H U q K ds kappa \<longleftrightarrow> all_decimal ds \<and> length ds = K - kappa \<and> kappa \<le> K
     \<and> decimal_value ds = H div 2 ^ q div 10 ^ kappa \<and> decimal_value ds * 10 ^ kappa * 2 ^ q + U \<le> H"

lemma integrals_loop_correct:
  assumes H: "H < 2 ^ 64" "10 ^ (K - 1) \<le> H div 2 ^ q" "K \<le> 10" and q: "q \<le> 60" and w: "unat F = H mod 2 ^ q" "unat Uw = U" "unat gw = gap"
    and gap: "1 \<le> gap" "gap + 1 \<le> U" "4 \<le> U"
  shows "digits_state H U q K ds kappa \<Longrightarrow> unat I = H div 2 ^ q mod 10 ^ kappa \<Longrightarrow> (0 < kappa \<longrightarrow> unat dv = 10 ^ (kappa - 1)) \<Longrightarrow> kappa \<le> length rest \<Longrightarrow>
    (\<exists>ok ds' kappa'. integrals_loop gw Uw (int q) F I dv (ds @ rest) (length ds) kappa
        = Some (Inl (ok, ds' @ drop (length ds' - length ds) rest, length ds', kappa')) \<and> length ds \<le> length ds' \<and> length ds' \<le> K
        \<and> (ok \<longrightarrow> shortest_ok H U gap q ds' kappa')) \<or>
    (\<exists>ds'. integrals_loop gw Uw (int q) F I dv (ds @ rest) (length ds) kappa = Some (Inr (ds' @ drop (length ds' - length ds) rest, length ds'))
        \<and> length ds \<le> length ds' \<and> digits_state H U q K ds' 0)"
proof (induction kappa arbitrary: ds rest I dv)
  case 0
  then show ?case by (intro disjI2 exI [of _ ds]) simp
next
  case (Suc k)
  let ?N = "H div 2 ^ q"
  let ?d = "?N mod 10 ^ Suc k div 10 ^ k"
  let ?c = "digit_char (of_nat ?d)"
  let ?I = "I mod dv"
  have st: "all_decimal ds" "length ds = K - Suc k" "Suc k \<le> K" "decimal_value ds = ?N div 10 ^ Suc k" "decimal_value ds * 10 ^ Suc k * 2 ^ q + U \<le> H"
    using Suc.prems(1) unfolding digits_state_def by blast+
  have dv: "unat dv = 10 ^ k" "dv \<noteq> 0" using Suc.prems(3) by (simp, metis diff_Suc_1 power_not_zero unat_0 zero_less_Suc zero_neq_numeral)
  have d: "?d \<le> 9" using less_mult_imp_div_less [of "?N mod 10 ^ Suc k" 10 "10 ^ k"] by simp
  have chr: "digit32_char (I div dv) = ?c" using d by (intro digit32_of_unat) (simp_all add: unat_div dv Suc.prems(2))
  have I: "unat ?I = ?N mod 10 ^ k" using Suc.prems(2) dv(1) by (simp add: unat_mod mod_mod_cancel)
  obtain z rest' where rest: "rest = z # rest'" using Suc.prems(4) by (cases rest) auto
  have put: "bput (ds @ rest) (length ds) ?c = Some (ds @ ?c # rest')" by (simp add: bput_def rest list_update_append)
  have c: "is_decimal ?c" "dec_digit ?c = ?d" using digit_char_value [of ?d] d by simp_all
  have val: "decimal_value (ds @ [?c]) = ?N div 10 ^ k"
    using div_split(1) [of 1 "Suc k" ?N] c(2) st(4) by (simp add: decimal_value_snoc)
  have Hs: "H = ?N * 2 ^ q + unat F" unfolding w(1) by (rule div_mult_mod_eq [symmetric])
  have Ns: "?N = ?N div 10 ^ k * 10 ^ k + unat ?I" unfolding I by (rule div_mult_mod_eq [symmetric])
  have eq: "decimal_value (ds @ [?c]) * (10 ^ k * 2 ^ q) + (unat ?I * 2 ^ q + unat F) = H"
  proof -
    have "?N * 2 ^ q = (?N div 10 ^ k * 10 ^ k + unat ?I) * 2 ^ q" using Ns by (rule arg_cong)
    then show ?thesis using Hs unfolding val distrib_right by (simp only: mult.assoc add.assoc)
  qed
  have "(unat ?I + 1) * 2 ^ q \<le> 10 ^ k * 2 ^ q" unfolding I by (intro mult_le_mono1) (simp add: Suc_leI)
  moreover have Fq: "unat F < 2 ^ q" unfolding w(1) by simp
  ultimately have restT: "unat ?I * 2 ^ q + unat F < 10 ^ k * 2 ^ q" by simp
  have "(10 :: nat) ^ k \<le> 10 ^ (K - 1)" using st(3) by (intro power_increasing) simp_all
  then have "10 ^ k \<le> ?N" using H(2) by (rule order_trans)
  then have "10 ^ k * 2 ^ q \<le> ?N * 2 ^ q" by (rule mult_le_mono1)
  then have lim: "10 ^ k * 2 ^ q < (2 :: nat) ^ 64" using Hs H(1) by linarith
  define s ten where "s = push_bit q (ucast ?I :: 64 word)" and "ten = push_bit q (ucast dv :: 64 word)"
  have ten: "unat ten = 10 ^ k * 2 ^ q" unfolding ten_def using lim unat_push [of "ucast dv" q] dv(1) by (simp add: unat_ucast_32_64)
  have su: "unat s = unat ?I * 2 ^ q" unfolding s_def using lim restT unat_push [of "ucast ?I" q] by (simp add: unat_ucast_32_64)
  have sF: "unat (s + F) = unat ?I * 2 ^ q + unat F" using lim restT unfolding su [symmetric] by (intro unat_add_exact) linarith
  have sh: "shl64 (ucast ?I) (int q) = Some s" "shl64 (ucast dv) (int q) = Some ten" using q by (simp_all add: shl64_def s_def ten_def)
  have len: "length ds \<le> 16" using st(2) H(3) by simp
  have first: "10 ^ (length ds - 1) \<le> decimal_value ds" if "ds \<noteq> []"
    using first_digits [OF H(2), of "Suc k"] st(2,4) that by (cases ds) simp_all
  show ?case
  proof (cases "s + F < Uw")
    case True
    have "H < (decimal_value ds + 1) * 10 * unat ten"
    proof -
      have "?N < (decimal_value ds + 1) * 10 ^ Suc k" unfolding st(4) using dividend_less_div_times [of "10 ^ Suc k" ?N] by simp
      then have "(?N + 1) * 2 ^ q \<le> (decimal_value ds + 1) * 10 ^ Suc k * 2 ^ q" by (intro mult_le_mono1) simp
      moreover have "(?N + 1) * 2 ^ q = ?N * 2 ^ q + 2 ^ q" by simp
      moreover have "(decimal_value ds + 1) * 10 * (10 ^ k * 2 ^ q) = (decimal_value ds + 1) * 10 ^ Suc k * 2 ^ q" by (simp only: power_Suc mult.assoc)
      ultimately show ?thesis using Hs Fq unfolding ten by linarith
    qed
    moreover have "decimal_value ds * 10 * unat ten + unat Uw \<le> H" using st(5) unfolding ten w(2) by (simp add: mult.assoc)
    moreover have "unat (s + F) < unat Uw" using True by (simp add: word_less_nat_alt)
    moreover have "unat (s + F) < unat ten" unfolding sF ten by (rule restT)
    moreover have "decimal_value (ds @ [?c]) * unat ten + unat (s + F) = H" unfolding sF ten by (rule eq)
    ultimately obtain ok ds' where r: "RoundWeed (ds @ ?c # rest') (length ds + 1) gw Uw (s + F) ten 1 = Some (ok, ds' @ rest')" "length ds' = length ds + 1"
        "ok \<longrightarrow> shortest_ok H U gap q ds' (int k)"
      using finish_weed [OF st(1) c(1) len first ten, of 1 0 Uw U gw gap "s + F" H rest'] w(2,3) gap by auto
    have "integrals_loop gw Uw (int q) F I dv (ds @ rest) (length ds) (Suc k) = Some (Inl (ok, ds' @ rest', length ds', int k))"
      using put chr dv(2) sh True r(1,2) by (simp add: div32_def)
    then show ?thesis using r(2,3) rest st(2,3) by (intro disjI1 exI [of _ ok] exI [of _ ds'] exI [of _ "int k"]) auto
  next
    case False
    have run: "integrals_loop gw Uw (int q) F I dv (ds @ rest) (length ds) (Suc k)
        = integrals_loop gw Uw (int q) F ?I (dv div 10) ((ds @ [?c]) @ rest') (length (ds @ [?c])) k"
      using put chr dv(2) sh False by (simp add: div32_def)
    have ds2: "digits_state H U q K (ds @ [?c]) k"
    proof -
      have "U \<le> unat ?I * 2 ^ q + unat F" using False unfolding w(2) [symmetric] sF [symmetric] by (simp add: word_less_nat_alt)
      then have "decimal_value (ds @ [?c]) * 10 ^ k * 2 ^ q + U \<le> H" using eq unfolding mult.assoc by linarith
      then show ?thesis using st(1-3) c(1) val by (simp add: digits_state_def)
    qed
    have dv2: "0 < k \<longrightarrow> unat (dv div 10) = 10 ^ (k - 1)" using dv(1) by (cases k) (simp_all add: unat_div)
    have "k \<le> length rest'" using Suc.prems(4) rest by simp
    note IH = Suc.IH [OF ds2 I dv2 this]
    have dr: "drop (length xs - length (ds @ [?c])) rest' = drop (length xs - length ds) rest" "length ds \<le> length xs"
      if "length (ds @ [?c]) \<le> length xs" for xs :: string
    proof -
      have "length xs - length ds = Suc (length xs - length (ds @ [?c]))" using that by simp
      then show "drop (length xs - length (ds @ [?c])) rest' = drop (length xs - length ds) rest" unfolding rest by (simp only: drop_Suc_Cons)
    qed (use that in simp)
    show ?thesis
    proof (rule disjE [OF IH])
      assume "\<exists>ok ds' kappa'. integrals_loop gw Uw (int q) F ?I (dv div 10) ((ds @ [?c]) @ rest') (length (ds @ [?c])) k
          = Some (Inl (ok, ds' @ drop (length ds' - length (ds @ [?c])) rest', length ds', kappa'))
        \<and> length (ds @ [?c]) \<le> length ds' \<and> length ds' \<le> K \<and> (ok \<longrightarrow> shortest_ok H U gap q ds' kappa')"
      then obtain ok ds' kappa' where r: "integrals_loop gw Uw (int q) F ?I (dv div 10) ((ds @ [?c]) @ rest') (length (ds @ [?c])) k
          = Some (Inl (ok, ds' @ drop (length ds' - length (ds @ [?c])) rest', length ds', kappa'))"
        "length (ds @ [?c]) \<le> length ds'" "length ds' \<le> K" "ok \<longrightarrow> shortest_ok H U gap q ds' kappa'" by (elim exE conjE) (rule that)
      show ?thesis unfolding run r(1) dr(1) [OF r(2)] using dr(2) [OF r(2)] r(3,4) by blast
    next
      assume "\<exists>ds'. integrals_loop gw Uw (int q) F ?I (dv div 10) ((ds @ [?c]) @ rest') (length (ds @ [?c])) k
          = Some (Inr (ds' @ drop (length ds' - length (ds @ [?c])) rest', length ds')) \<and> length (ds @ [?c]) \<le> length ds' \<and> digits_state H U q K ds' 0"
      then obtain ds' where r: "integrals_loop gw Uw (int q) F ?I (dv div 10) ((ds @ [?c]) @ rest') (length (ds @ [?c])) k
          = Some (Inr (ds' @ drop (length ds' - length (ds @ [?c])) rest', length ds'))" "length (ds @ [?c]) \<le> length ds'" "digits_state H U q K ds' 0"
        by (elim exE conjE) (rule that)
      show ?thesis unfolding run r(1) dr(1) [OF r(2)] using dr(2) [OF r(2)] r(3) by blast
    qed
  qed
qed


section \<open>Digits after the point\<close>

definition fraction_state :: "nat \<Rightarrow> nat \<Rightarrow> nat \<Rightarrow> string \<Rightarrow> nat \<Rightarrow> nat \<Rightarrow> bool" where
  "fraction_state H U q ds n F \<longleftrightarrow> all_decimal ds \<and> ds \<noteq> [] \<and> 10 ^ (length ds - 1) \<le> decimal_value ds
     \<and> H * 10 ^ n = decimal_value ds * 2 ^ q + F \<and> F < 2 ^ q \<and> U * 10 ^ n \<le> F"

lemma fraction_short:
  assumes "fraction_state H U q ds n F" "H < 10 ^ 16 * U"
  shows "length ds \<le> 16"
proof -
  have st: "10 ^ (length ds - 1) \<le> decimal_value ds" "H * 10 ^ n = decimal_value ds * 2 ^ q + F" "F < 2 ^ q" "U * 10 ^ n \<le> F" "ds \<noteq> []"
    using assms(1) unfolding fraction_state_def by blast+
  have "10 ^ (length ds - 1) * 2 ^ q \<le> decimal_value ds * 2 ^ q" using st(1) by (rule mult_le_mono1)
  also have "\<dots> \<le> H * 10 ^ n" using st(2) by simp
  also have "\<dots> < 10 ^ 16 * U * 10 ^ n" using assms(2) by (rule mult_strict_right_mono) simp
  also have "\<dots> = 10 ^ 16 * (U * 10 ^ n)" by (rule mult.assoc)
  also have "\<dots> \<le> 10 ^ 16 * 2 ^ q" using st(3,4) by (intro mult_le_mono2) linarith
  finally have "(10 :: nat) ^ (length ds - 1) < 10 ^ 16" unfolding mult_less_cancel2 by (rule conjunct2)
  then have "length ds - 1 < 16" by (rule power_less_imp_less_exp [rotated]) simp
  then show ?thesis by simp
qed

lemma fraction_next:
  assumes "fraction_state H U q ds n F" and c: "is_decimal c" "dec_digit c = 10 * F div 2 ^ q"
  shows "decimal_value (ds @ [c]) * 2 ^ q + 10 * F mod 2 ^ q = H * 10 ^ Suc n" "decimal_value ds * 10 * 2 ^ q + U * 10 ^ Suc n \<le> H * 10 ^ Suc n"
    "H * 10 ^ Suc n < (decimal_value ds + 1) * 10 * 2 ^ q"
    "U * 10 ^ Suc n \<le> 10 * F mod 2 ^ q \<Longrightarrow> fraction_state H U q (ds @ [c]) (Suc n) (10 * F mod 2 ^ q)"
proof -
  have st: "all_decimal ds" "10 ^ (length ds - 1) \<le> decimal_value ds" "H * 10 ^ n = decimal_value ds * 2 ^ q + F" "F < 2 ^ q" "U * 10 ^ n \<le> F" "ds \<noteq> []"
    using assms(1) unfolding fraction_state_def by blast+
  have H: "H * 10 ^ Suc n = decimal_value ds * 10 * 2 ^ q + 10 * F" using arg_cong [OF st(3), of "\<lambda>x. 10 * x"] by (simp add: distrib_left)
  have F: "10 * F div 2 ^ q * 2 ^ q + 10 * F mod 2 ^ q = 10 * F" by (rule div_mult_mod_eq)
  show eq: "decimal_value (ds @ [c]) * 2 ^ q + 10 * F mod 2 ^ q = H * 10 ^ Suc n"
    unfolding H decimal_value_snoc c(2) distrib_right using F by linarith
  show "decimal_value ds * 10 * 2 ^ q + U * 10 ^ Suc n \<le> H * 10 ^ Suc n" unfolding H using st(5) by simp
  show "H * 10 ^ Suc n < (decimal_value ds + 1) * 10 * 2 ^ q" unfolding H distrib_right using st(4) by simp
  have "10 ^ (length (ds @ [c]) - 1) \<le> decimal_value (ds @ [c])"
  proof -
    have "10 ^ (length (ds @ [c]) - 1) = 10 ^ (length ds - 1) * (10 :: nat)" using st(6) by (cases ds) simp_all
    also have "\<dots> \<le> decimal_value ds * 10" using st(2) by simp
    finally show ?thesis by (simp add: decimal_value_snoc)
  qed
  then show "fraction_state H U q (ds @ [c]) (Suc n) (10 * F mod 2 ^ q)" if "U * 10 ^ Suc n \<le> 10 * F mod 2 ^ q"
    unfolding fraction_state_def using that st(1) c(1) eq by simp
qed

lemma times_10_bounded: "unat w = a \<Longrightarrow> a < 2 ^ 60 \<Longrightarrow> unat (w * 10) = a * 10" for w :: "64 word"
  using times_10 [of w] by simp

lemma fractionals_loop_correct:
  assumes H: "H < 10 ^ 16 * U" and q: "q \<le> 60" and gap: "1 \<le> gap" "gap + 1 \<le> U" "4 \<le> U" and gw: "unat gw = gap"
  shows "fraction_state H U q ds n (unat F) \<Longrightarrow> unat u = 10 ^ n \<Longrightarrow> unat Uw = U * 10 ^ n \<Longrightarrow> 17 \<le> length (ds @ rest) \<Longrightarrow>
    \<exists>ok ds' kappa'. fractionals_loop gw (push_bit q 1) (int q) F u Uw (ds @ rest) (length ds) (- int n)
        = Some (ok, ds' @ drop (length ds' - length ds) rest, length ds', kappa') \<and> length ds \<le> length ds' \<and> length ds' \<le> 17
        \<and> (ok \<longrightarrow> shortest_ok H U gap q ds' kappa')"
proof (induction "17 - length ds" arbitrary: ds n F u Uw rest rule: less_induct)
  case less
  note short = fraction_short [OF less.prems(1) H]
  have st: "all_decimal ds" "10 ^ (length ds - 1) \<le> decimal_value ds" "unat F < 2 ^ q" "U * 10 ^ n \<le> unat F"
    using less.prems(1) unfolding fraction_state_def by blast+
  let ?d = "10 * unat F div 2 ^ q" and ?F = "F * 10 AND (push_bit q 1 - 1)"
  let ?c = "digit_char (of_nat ?d)"
  note fd = fraction_digit [OF st(3) q]
  have c: "is_decimal ?c" "dec_digit ?c = ?d" using digit_char_value [of ?d] fd(3) by simp_all
  note nx = fraction_next [OF less.prems(1) c]
  have q60: "(2 :: nat) ^ q \<le> 2 ^ 60" using q by (intro power_increasing) simp_all
  have U60: "U * 10 ^ n < 2 ^ 60" using st(3,4) q60 by linarith
  have "1 * 10 ^ n \<le> U * 10 ^ n" "gap * 10 ^ n \<le> U * 10 ^ n" using gap by (intro mult_le_mono1; simp)+
  then have u60: "10 ^ n < (2 :: nat) ^ 60" "gap * 10 ^ n < 2 ^ 60" using U60 by linarith+
  have w: "unat (u * 10) = 10 ^ Suc n" "unat (Uw * 10) = U * 10 ^ Suc n" 
    using times_10_bounded [OF less.prems(2) u60(1)] times_10_bounded [OF less.prems(3) U60] by simp_all
  have gx: "unat (gw * (u * 10)) = gap * 10 ^ Suc n" 
  proof -
    have "gap * 10 ^ Suc n < 2 ^ 64" using u60(2) by simp
    moreover have "unat (gw * (u * 10)) = gap * 10 ^ Suc n mod 2 ^ 64" using unat_word_ariths(2) [of gw "u * 10"] unfolding gw w(1) by simp
    ultimately show ?thesis by (simp only: mod_less)
  qed
  obtain z rest' where rest: "rest = z # rest'" using short less.prems(4) by (cases rest) auto
  have put: "bput (ds @ rest) (length ds) ?c = Some (ds @ ?c # rest')" by (simp add: bput_def rest list_update_append)
  have T: "unat (push_bit q 1 :: 64 word) = 10 ^ 0 * 2 ^ q" using unat_push [of 1 q] q60 by simp
  have kap: "- int n - 1 = - int (Suc n)" by simp
  show ?case
  proof (cases "?F < Uw * 10")
    case True
    then have lt: "unat ?F < unat (Uw * 10)" by (simp add: word_less_nat_alt)
    have ltT: "unat ?F < unat (push_bit q 1 :: 64 word)" unfolding fd(4) T by simp
    obtain ok ds' where r: "RoundWeed (ds @ ?c # rest') (length ds + 1) (gw * (u * 10)) (Uw * 10) ?F (push_bit q 1) (u * 10) = Some (ok, ds' @ rest')"
        "length ds' = length ds + 1" "ok \<longrightarrow> shortest_ok H U gap q ds' (int 0 - int (Suc n))"
      using finish_weed [OF st(1) c(1) short st(2) T w gx _ ltT lt _ _ gap, of H rest'] nx(1-3) unfolding T fd(4) w by auto
    have "fractionals_loop gw (push_bit q 1) (int q) F u Uw (ds @ rest) (length ds) (- int n) = Some (ok, ds' @ rest', length ds', - int (Suc n))"
      using put fd(1,2) True r(1,2) kap by (subst fractionals_loop.simps) simp
    then show ?thesis using r(2,3) rest short by (intro exI [of _ ok] exI [of _ ds'] exI [of _ "- int (Suc n)"]) simp
  next
    case False
    then have ge: "U * 10 ^ Suc n \<le> 10 * unat F mod 2 ^ q" unfolding w(2) [symmetric] fd(4) [symmetric] by (simp add: word_less_nat_alt)
    have run: "fractionals_loop gw (push_bit q 1) (int q) F u Uw (ds @ rest) (length ds) (- int n)
       = fractionals_loop gw (push_bit q 1) (int q) ?F (u * 10) (Uw * 10) ((ds @ [?c]) @ rest') (length (ds @ [?c])) (- int n - 1)"
      using put fd(1,2) False by (subst fractionals_loop.simps) simp
    have m: "17 - length (ds @ [?c]) < 17 - length ds" "17 \<le> length ((ds @ [?c]) @ rest')" using short less.prems(4) rest by simp_all
    have fs: "fraction_state H U q (ds @ [?c]) (Suc n) (unat ?F)" unfolding fd(4) by (rule nx(4) [OF ge])
    obtain ok ds' kappa' where r: "fractionals_loop gw (push_bit q 1) (int q) ?F (u * 10) (Uw * 10) ((ds @ [?c]) @ rest') (length (ds @ [?c])) (- int (Suc n))
        = Some (ok, ds' @ drop (length ds' - length (ds @ [?c])) rest', length ds', kappa')" "length (ds @ [?c]) \<le> length ds'" "length ds' \<le> 17"
        "ok \<longrightarrow> shortest_ok H U gap q ds' kappa'"
      using less.hyps [OF m(1) fs w m(2)] by blast
    have "length ds' - length ds = Suc (length ds' - length (ds @ [?c]))" using r(2) by simp
    then have "drop (length ds' - length (ds @ [?c])) rest' = drop (length ds' - length ds) rest" unfolding rest by (simp only: drop_Suc_Cons)
    then show ?thesis unfolding run kap r(1) using r(2-4) by auto
  qed
qed

end
