(* ===== verification/DtoaShortest.thy ===== *)
theory DtoaShortest
  imports DtoaRound
begin

text \<open>
  The shortest mode of \<open>bignum-dtoa.cc\<close>: the generated digits lie between the boundaries of the double,
  no shorter digit string does, and none of the same length is closer; at most 17 digits are generated.
\<close>

section \<open>Candidates inside the boundaries\<close>

text \<open>
  With \<open>t = 10^(j-1)\<close>, an integer \<open>y\<close> stands for the decimal \<open>y / t\<close> of \<open>j\<close> digits, to be compared with
  \<open>n / d\<close>; the boundaries are \<open>(n - m) / d\<close> and \<open>(n + p) / d\<close>, and belong to the interval for an even
  significand.
\<close>

definition inside :: "bool \<Rightarrow> nat \<Rightarrow> nat \<Rightarrow> nat \<Rightarrow> nat \<Rightarrow> nat \<Rightarrow> nat \<Rightarrow> bool" where
  "inside ev n d m p t y \<longleftrightarrow>
     (if ev then n * t \<le> y * d + m * t \<and> y * d \<le> (n + p) * t
      else n * t < y * d + m * t \<and> y * d < (n + p) * t)"

definition distance :: "nat \<Rightarrow> nat \<Rightarrow> nat \<Rightarrow> nat \<Rightarrow> nat" where
  "distance n d t y = nat \<bar>int (y * d) - int (n * t)\<bar>"

definition below_room :: "bool \<Rightarrow> nat \<Rightarrow> nat \<Rightarrow> bool" where
  "below_room ev x y \<longleftrightarrow> (if ev then x \<le> y else x < y)"

lemma inside_rooms:
  assumes "n * t = x * d + r" "r < d" "0 < p * t"
  shows "inside ev n d m p t x \<longleftrightarrow> below_room ev r (m * t)"
    "inside ev n d m p t (x + 1) \<longleftrightarrow> below_room ev d (r + p * t)"
  using assms by (auto simp: inside_def below_room_def algebra_simps)

lemma inside_mono:
  assumes eq: "n * t = x * d + r" "r < d" "0 < p * t" and y: "inside ev n d m p t y"
  shows "y \<le> x \<Longrightarrow> inside ev n d m p t x" "x < y \<Longrightarrow> inside ev n d m p t (x + 1)"
proof -
  have b: "n * t \<le> y * d + m * t" "y * d \<le> n * t + p * t" "\<not> ev \<Longrightarrow> n * t < y * d + m * t" "\<not> ev \<Longrightarrow> y * d < n * t + p * t"
    using y by (auto simp: inside_def add_mult_distrib split: if_splits)
  {
    assume "y \<le> x"
    then have "y * d \<le> x * d" by (rule mult_le_mono1)
    then have "r \<le> m * t" "n * t < y * d + m * t \<Longrightarrow> r < m * t" using eq(1) b(1) by linarith+
    then have "below_room ev r (m * t)" using b(3) by (cases ev) (simp_all add: below_room_def)
    then show "inside ev n d m p t x" using inside_rooms(1) [OF eq] by blast
  next
    assume "x < y"
    then have "(x + 1) * d \<le> y * d" by (intro mult_le_mono1) simp
    then have "x * d + d \<le> y * d" by (simp only: add_mult_distrib mult_1)
    then have "d \<le> r + p * t" "y * d < n * t + p * t \<Longrightarrow> d < r + p * t" using eq(1) b(2) by linarith+
    then have "below_room ev d (r + p * t)" using b(4) by (cases ev) (simp_all add: below_room_def)
    then show "inside ev n d m p t (x + 1)" using inside_rooms(2) [OF eq] by blast
  }
qed

lemma distances:
  assumes "n * t = x * d + r" "r < d"
  shows "distance n d t x = r" "distance n d t (x + 1) = d - r" "y \<le> x \<Longrightarrow> r \<le> distance n d t y" "x < y \<Longrightarrow> d - r \<le> distance n d t y"
proof -
  show "distance n d t x = r" "distance n d t (x + 1) = d - r" using assms by (auto simp: distance_def algebra_simps)
  assume "y \<le> x"
  then have "y * d \<le> x * d" by simp
  then show "r \<le> distance n d t y" unfolding distance_def assms(1) by linarith
next
  assume "x < y"
  then have "(x + 1) * d \<le> y * d" by (intro mult_le_mono1) simp
  then have "x * d + d \<le> y * d" by simp
  then show "d - r \<le> distance n d t y" unfolding distance_def assms(1) by linarith
qed

definition shortest_digits :: "bool \<Rightarrow> nat \<Rightarrow> nat \<Rightarrow> nat \<Rightarrow> nat \<Rightarrow> string \<Rightarrow> bool" where
  "shortest_digits ev n d m p ds \<longleftrightarrow>
     (let j = length ds; x = decimal_value ds; t = 10 ^ (j - 1)
      in 1 \<le> j \<and> (\<forall>c\<in>set ds. is_decimal c) \<and> 10 ^ (j - 1) \<le> x \<and> inside ev n d m p t x
         \<and> (\<forall>y. inside ev n d m p t y \<longrightarrow> distance n d t x \<le> distance n d t y)
         \<and> (\<forall>i\<ge>1. i < j \<longrightarrow> (\<forall>y. \<not> inside ev n d m p (10 ^ (i - 1)) y)))"

text \<open>The choice at the last digit: down, up, or by the half.\<close>

lemma choice_closest:
  assumes eq: "n * t = x * d + r" "r < d" "0 < p * t" and y: "inside ev n d m p t y"
  shows "\<not> inside ev n d m p t (x + 1) \<or> inside ev n d m p t x \<and> 2 * r \<le> d \<Longrightarrow> distance n d t x \<le> distance n d t y"
    "\<not> inside ev n d m p t x \<or> inside ev n d m p t (x + 1) \<and> d \<le> 2 * r \<Longrightarrow> distance n d t (x + 1) \<le> distance n d t y"
proof -
  note im = inside_mono [OF eq y] and di = distances(1,2) [OF eq(1,2)] and dy = distances(3,4) [OF eq(1,2), of y]
  show "distance n d t x \<le> distance n d t y" if "\<not> inside ev n d m p t (x + 1) \<or> inside ev n d m p t x \<and> 2 * r \<le> d"
    unfolding di using that im dy by (cases "y \<le> x") auto
  show "distance n d t (x + 1) \<le> distance n d t y" if "\<not> inside ev n d m p t x \<or> inside ev n d m p t (x + 1) \<and> d \<le> 2 * r"
    unfolding di using that im dy by (cases "y \<le> x") auto
qed

lemma inside_scale: "inside ev n d m p (10 * t) (10 * y) \<longleftrightarrow> inside ev n d m p t y"
proof -
  have s: "n * (10 * t) = 10 * (n * t)" "m * (10 * t) = 10 * (m * t)" "10 * y * d = 10 * (y * d)" "(n + p) * (10 * t) = 10 * ((n + p) * t)"
    by (simp_all add: algebra_simps)
  show ?thesis unfolding inside_def s distrib_left [symmetric] by (simp only: mult_le_cancel1 mult_less_cancel1) simp
qed

section \<open>The state of the loop\<close>

text \<open>What the start values satisfy: the upper boundary lies below ten, the number or its upper boundary
  reaches one, and the number is at least twice the distance to its upper boundary.\<close>

definition start_inv :: "bool \<Rightarrow> nat \<Rightarrow> nat \<Rightarrow> nat \<Rightarrow> nat \<Rightarrow> bool" where
  "start_inv ev n d m p \<longleftrightarrow> 0 < m \<and> m \<le> p \<and> 2 * p \<le> n \<and> below_room ev d (n + p) \<and> \<not> below_room ev (10 * d) (n + p)"

text \<open>After the digits \<open>ds\<close>: the remaining numerator is \<open>x\<close>, and no shorter string lies inside.\<close>

definition loop_inv :: "bool \<Rightarrow> nat \<Rightarrow> nat \<Rightarrow> nat \<Rightarrow> nat \<Rightarrow> string \<Rightarrow> nat \<Rightarrow> bool" where
  "loop_inv ev n d m p ds x \<longleftrightarrow>
     (\<forall>c\<in>set ds. is_decimal c) \<and> x < 10 * d \<and> n * 10 ^ length ds = decimal_value ds * 10 * d + x
     \<and> (ds \<noteq> [] \<longrightarrow> 10 ^ (length ds - 1) \<le> decimal_value ds)
     \<and> (\<forall>i\<ge>1. i \<le> length ds \<longrightarrow> (\<forall>y. \<not> inside ev n d m p (10 ^ (i - 1)) y))"

lemma loop_step:
  assumes inv: "loop_inv ev n d m p ds x" and x: "x = q * d + r" "r < d"
  shows "n * 10 ^ length ds = (decimal_value ds * 10 + q) * d + r"
  using inv x(1) by (simp add: loop_inv_def algebra_simps)

lemma first_nonzero:
  assumes st: "start_inv ev n d m p" and inv: "loop_inv ev n d m p ds x" and x: "x = q * d + r" "r < d"
    and c: "below_room ev r (m * 10 ^ length ds) \<or> \<not> below_room ev d (r + p * 10 ^ length ds)"
  shows "10 ^ length ds \<le> decimal_value ds * 10 + q"
proof (cases "ds = []")
  case True
  then have "n = q * d + r" using loop_step [OF inv x] by (simp add: decimal_value_def)
  moreover have "r \<noteq> n" using c st True by (auto simp: start_inv_def below_room_def split: if_splits)
  ultimately show ?thesis using True by (cases "q = 0") auto
next
  case False
  then have "10 ^ (length ds - 1) * 10 \<le> decimal_value ds * 10" using inv by (simp add: loop_inv_def)
  moreover have "(10 :: nat) ^ length ds = 10 ^ (length ds - 1) * 10" using False by (cases ds) simp_all
  ultimately show ?thesis by simp
qed

lemma not_nine:
  assumes st: "start_inv ev n d m p" and inv: "loop_inv ev n d m p ds x" and x: "x = q * d + r" "r < d" "q \<le> 9"
    and up: "inside ev n d m p (10 ^ length ds) (decimal_value ds * 10 + q + 1)"
  shows "q \<le> 8"
proof (rule ccontr)
  assume "\<not> q \<le> 8"
  then have q: "q = 9" using x(3) by simp
  have y: "decimal_value ds * 10 + q + 1 = 10 * (decimal_value ds + 1)" using q by simp
  show False
  proof (cases "ds = []")
    case True
    then have n: "n * 1 = 9 * d + r" using loop_step [OF inv x(1,2)] q by (simp add: decimal_value_def)
    have "below_room ev d (r + p * 1)" using up inside_rooms(2) [OF n x(2), of p ev m] st True q
      by (simp add: start_inv_def decimal_value_def)
    then have "below_room ev (10 * d) (n + p)" using n by (auto simp: below_room_def split: if_splits)
    then show False using st by (simp add: start_inv_def)
  next
    case False
    then have "(10 :: nat) ^ length ds = 10 * 10 ^ (length ds - 1)" by (cases ds) simp_all
    with up have "inside ev n d m p (10 ^ (length ds - 1)) (decimal_value ds + 1)" unfolding y by (simp only: inside_scale)
    moreover have "1 \<le> length ds" using False by (cases ds) simp_all
    ultimately show False using inv by (auto simp: loop_inv_def)
  qed
qed

lemma stop_down:
  assumes st: "start_inv ev n d m p" and inv: "loop_inv ev n d m p ds x" and x: "x = q * d + r" "r < d" "q \<le> 9"
    and minus: "below_room ev r (m * 10 ^ length ds)" and half: "\<not> below_room ev d (r + p * 10 ^ length ds) \<or> 2 * r \<le> d"
  shows "shortest_digits ev n d m p (ds @ [digit_char (of_nat q)])"
proof -
  let ?t = "10 ^ length ds" and ?x = "decimal_value ds * 10 + q"
  note eq = loop_step [OF inv x(1,2)]
  have p: "0 < p * ?t" using st by (simp add: start_inv_def)
  note rooms = inside_rooms [OF eq x(2) p, of ev m]
  have i: "inside ev n d m p ?t ?x" using minus rooms(1) by blast
  have "\<not> inside ev n d m p ?t (?x + 1) \<or> inside ev n d m p ?t ?x \<and> 2 * r \<le> d" using half i rooms(2) by blast
  then have "distance n d ?t ?x \<le> distance n d ?t y" if "inside ev n d m p ?t y" for y
    using choice_closest(1) [OF eq x(2) p that] by blast
  moreover have "decimal_value (ds @ [digit_char (of_nat q)]) = ?x" "is_decimal (digit_char (of_nat q))"
    using digit_char_value [of q] x(3) by (simp_all add: decimal_value_snoc)
  moreover have "10 ^ length ds \<le> ?x" using minus by (intro first_nonzero [OF st inv x(1,2)]) simp
  ultimately show ?thesis using inv i unfolding shortest_digits_def loop_inv_def Let_def by (auto simp: less_Suc_eq_le)
qed

lemma stop_up:
  assumes st: "start_inv ev n d m p" and inv: "loop_inv ev n d m p ds x" and x: "x = q * d + r" "r < d" "q \<le> 9"
    and plus: "below_room ev d (r + p * 10 ^ length ds)" and half: "\<not> below_room ev r (m * 10 ^ length ds) \<or> d \<le> 2 * r"
  shows "shortest_digits ev n d m p (ds @ [digit_char (of_nat (q + 1))]) \<and> q \<le> 8"
proof -
  let ?t = "10 ^ length ds" and ?x = "decimal_value ds * 10 + q"
  note eq = loop_step [OF inv x(1,2)]
  have p: "0 < p * ?t" using st by (simp add: start_inv_def)
  note rooms = inside_rooms [OF eq x(2) p, of ev m]
  have i: "inside ev n d m p ?t (?x + 1)" using plus rooms(2) by blast
  have q: "q \<le> 8" using not_nine [OF st inv x] i by simp
  have "\<not> inside ev n d m p ?t ?x \<or> inside ev n d m p ?t (?x + 1) \<and> d \<le> 2 * r" using half i rooms(1) by blast
  then have "distance n d ?t (?x + 1) \<le> distance n d ?t y" if "inside ev n d m p ?t y" for y
    using choice_closest(2) [OF eq x(2) p that] by blast
  moreover have "decimal_value (ds @ [digit_char (of_nat (q + 1))]) = ?x + 1" "is_decimal (digit_char (of_nat (q + 1)))"
    using digit_char_value [of "q + 1"] q by (simp_all add: decimal_value_snoc)
  moreover have "10 ^ length ds \<le> ?x + 1"
  proof (cases "below_room ev r (m * ?t)")
    case True
    then have "10 ^ length ds \<le> ?x" by (intro first_nonzero [OF st inv x(1,2)]) simp
    then show ?thesis by simp
  next
    case False
    show ?thesis
    proof (cases "ds = []")
      case False
      then have "10 ^ (length ds - 1) * 10 \<le> decimal_value ds * 10" using inv by (simp add: loop_inv_def)
      moreover have "(10 :: nat) ^ length ds = 10 ^ (length ds - 1) * 10" using False by (cases ds) simp_all
      ultimately show ?thesis by simp
    qed simp
  qed
  ultimately show ?thesis using inv i q unfolding shortest_digits_def loop_inv_def Let_def by (auto simp: less_Suc_eq_le)
qed

lemma go_on:
  assumes st: "start_inv ev n d m p" and inv: "loop_inv ev n d m p ds x" and x: "x = q * d + r" "r < d" "q \<le> 9"
    and no: "\<not> below_room ev r (m * 10 ^ length ds)" "\<not> below_room ev d (r + p * 10 ^ length ds)"
  shows "loop_inv ev n d m p (ds @ [digit_char (of_nat q)]) (10 * r)" "m * 10 ^ length ds + p * 10 ^ length ds \<le> d"
proof -
  let ?t = "10 ^ length ds" and ?x = "decimal_value ds * 10 + q"
  note eq = loop_step [OF inv x(1,2)]
  have p: "0 < p * ?t" using st by (simp add: start_inv_def)
  have none: "\<not> inside ev n d m p ?t y" for y
    using inside_mono [OF eq x(2) p, of ev m y] inside_rooms [OF eq x(2) p, of ev m] no by (cases "y \<le> ?x") auto
  have dv: "decimal_value (ds @ [digit_char (of_nat q)]) = ?x" "is_decimal (digit_char (of_nat q))"
    using digit_char_value [of q] x(3) by (simp_all add: decimal_value_snoc)
  have ge: "10 ^ length ds \<le> ?x" by (rule first_nonzero [OF st inv x(1,2)]) (use no in simp)
  have "n * 10 ^ Suc (length ds) = ?x * 10 * d + 10 * r" using eq by (simp add: algebra_simps)
  then show "loop_inv ev n d m p (ds @ [digit_char (of_nat q)]) (10 * r)"
    using inv none dv ge x(2) unfolding loop_inv_def by (auto simp: le_Suc_eq)
  show "m * ?t + p * ?t \<le> d" using no by (auto simp: below_room_def split: if_splits)
qed

section \<open>The loop\<close>

lemma rooms_test:
  assumes "bn_good r" "bn_good dm" "bn_good dp" "bn_good d"
  shows "(if ev then LessEqual r dm else Less r dm) = Some (below_room ev (bnval r) (bnval dm))"
    "PlusCompare r dp d = Some (three_way (bnval r + bnval dp) (bnval d))"
    "(if ev then three_way (bnval r + bnval dp) (bnval d) \<ge> 0 else three_way (bnval r + bnval dp) (bnval d) > 0)
       \<longleftrightarrow> below_room ev (bnval d) (bnval r + bnval dp)"
  using assms compare_values [of r dm] bn.plus_compare_law [OF assms(1,3,4)]
  by (auto simp: bn_good_def below_room_def three_way_def)

lemma increment_last:
  "q \<le> 8 \<Longrightarrow> increment_at (ds @ digit_char (of_nat q) # rest) (length ds) = Some (ds @ digit_char (of_nat (q + 1)) # rest)"
  using succ_digit_char [of q] by (simp add: increment_at_def arr_simps nth_append)

definition deltas_ok :: "bool \<Rightarrow> nat \<Rightarrow> nat \<Rightarrow> nat \<Rightarrow> Bignum \<Rightarrow> Bignum \<Rightarrow> bool" where
  "deltas_ok same m p t dm dp \<longleftrightarrow> bn_good dm \<and> bnval dm = m * t \<and> (if same then m = p else bn_good dp \<and> bnval dp = p * t)"

lemma deltas_plus:
  assumes "deltas_ok same m p t dm dp"
  shows "bn_good (if same then dm else dp)" "bnval (if same then dm else dp) = p * t"
  using assms by (auto simp: deltas_ok_def split: if_splits)

lemma deltas_times10:
  assumes "deltas_ok same m p t dm dp" "10 * (m * t) < bn_limit" "10 * (p * t) < bn_limit"
  shows "\<exists>dm' dp'. Times10 dm = Some dm' \<and> (if same then Some dp else Times10 dp) = Some dp' \<and> deltas_ok same m p (10 * t) dm' dp'"
  using assms bn.times10_law [of dm] bn.times10_law [of dp] by (cases same) (auto simp: deltas_ok_def mult_ac)

lemma shortest_loop_correct:
  assumes st: "start_inv ev n (bnval d) m p" and d: "bn_good d" "10 * bnval d < bn_limit" and K: "bnval d < (m + p) * 10 ^ K"
  shows "loop_inv ev n (bnval d) m p ds (bnval x) \<Longrightarrow> bn_good x \<Longrightarrow> deltas_ok same m p (10 ^ length ds) dm dp \<Longrightarrow>
    length ds \<le> K \<Longrightarrow> K < length ds + length rest \<Longrightarrow>
    \<exists>ds'. shortest_loop ev same d x dm dp (ds @ rest) (length ds) = Some (ds' @ drop (length ds') (ds @ rest), length ds')
      \<and> shortest_digits ev n (bnval d) m p ds' \<and> length ds' \<le> K + 1"
proof (induction "K - length ds" arbitrary: ds x dm dp rest rule: less_induct)
  case less
  let ?D = "bnval d" and ?t = "10 ^ length ds" and ?dp = "if same then dm else dp"
  note inv = less.prems(1)
  have xlt: "bnval x < 10 * ?D" using inv by (simp add: loop_inv_def)
  obtain r q where r: "DivideModuloIntBignum x d = Some (r, of_nat q)" "bn_good r" "q \<le> 9" "bnval x = q * ?D + bnval r" "bnval r < ?D"
      "q = bnval x div ?D" by (rule bn.first_digit [OF less.prems(2) d(1) xlt])
  have dm: "bn_good dm" "bnval dm = m * ?t" using less.prems(3) by (simp_all add: deltas_ok_def)
  note dp = deltas_plus [OF less.prems(3)]
  note tests = rooms_test(1,3) [where ev = ev, OF r(2) dm(1) dp(1) d(1), unfolded dm(2) dp(2)]
    rooms_test(2) [OF r(2) dm(1) dp(1) d(1), unfolded dp(2)]
  obtain c where c: "PlusCompare r r d = Some c" "c < 0 \<longleftrightarrow> 2 * bnval r < ?D" "0 < c \<longleftrightarrow> ?D < 2 * bnval r"
    using bn.half_test [OF r(2) d(1)] by metis
  obtain z rest' where rest: "rest = z # rest'" using less.prems(4,5) by (cases rest) auto
  let ?c = "digit_char (of_nat q)" and ?down = "below_room ev (bnval r) (m * ?t)" and ?up = "below_room ev ?D (bnval r + p * ?t)"
  have put: "bput (ds @ rest) (length ds) y = Some (ds @ y # rest')" for y by (simp add: bput_def rest list_update_append)
  have last: "bget (ds @ ?c # rest') (length ds) = Some ?c" by (simp add: bget_def nth_append)
  note stop = stop_down [OF st inv r(4,5,3)] stop_up [OF st inv r(4,5,3)]
  have run: "shortest_loop ev same d x dm dp (ds @ rest) (length ds) =
      (if \<not> ?down \<and> \<not> ?up then
         do { n' \<leftarrow> Times10 r; dm' \<leftarrow> Times10 dm; dp' \<leftarrow> (if same then Some dp else Times10 dp);
              shortest_loop ev same d n' dm' dp' (ds @ ?c # rest') (length ds + 1) }
       else if ?down \<and> ?up \<and> (c < 0 \<or> c = 0 \<and> even ((of_char ?c :: int) - 48)) \<or> ?down \<and> \<not> ?up
       then Some (ds @ ?c # rest', length ds + 1)
       else do { b \<leftarrow> increment_at (ds @ ?c # rest') (length ds); Some (b, length ds + 1) })"
    unfolding shortest_loop.simps [of ev same d x dm dp "ds @ rest" "length ds"]
    by (simp only: r(1) put tests c(1) last bind.simps prod.case Let_def add_diff_cancel_right') auto
  consider (go) "\<not> ?down" "\<not> ?up" | (down) "?down" "\<not> ?up \<or> (c < 0 \<or> c = 0 \<and> even ((of_char ?c :: int) - 48))"
    | (up) "?up" "\<not> ?down \<or> \<not> (c < 0 \<or> c = 0 \<and> even ((of_char ?c :: int) - 48))" by blast
  then show ?case
  proof cases
    case go
    note g = go_on [OF st inv r(4,5,3) go]
    have lim: "10 * (m * ?t) < bn_limit" "10 * (p * ?t) < bn_limit" "bnval r * 10 < bn_limit" using g(2) d(2) r(5) by linarith+
    obtain dm' dp' where del: "Times10 dm = Some dm'" "(if same then Some dp else Times10 dp) = Some dp'" "deltas_ok same m p (10 * ?t) dm' dp'"
      using deltas_times10 [OF less.prems(3) lim(1,2)] by blast
    obtain x' where x': "Times10 r = Some x'" "bn_good x'" "bnval x' = 10 * bnval r" using bn.times10_law [OF r(2) lim(3)] by auto
    have "(m + p) * ?t < (m + p) * 10 ^ K" using g(2) K by (simp add: add_mult_distrib)
    then have k: "length ds < K" by simp
    have "\<exists>ds'. shortest_loop ev same d x' dm' dp' ((ds @ [?c]) @ rest') (length (ds @ [?c])) = Some (ds' @ drop (length ds') ((ds @ [?c]) @ rest'), length ds')
        \<and> shortest_digits ev n ?D m p ds' \<and> length ds' \<le> K + 1"
      by (rule less.hyps) (use g(1) x' del(3) k less.prems(5) rest in simp_all)
    then obtain ds' where ds': "shortest_loop ev same d x' dm' dp' (ds @ ?c # rest') (length ds + 1) = Some (ds' @ drop (length ds') (ds @ ?c # rest'), length ds')"
        "shortest_digits ev n ?D m p ds'" "length ds' \<le> K + 1" by auto
    have "length ds < length ds'"
    proof (rule ccontr)
      assume "\<not> length ds < length ds'"
      then have "1 \<le> length ds'" "length ds' \<le> length ds" "inside ev n ?D m p (10 ^ (length ds' - 1)) (decimal_value ds')"
        using ds'(2) by (auto simp: shortest_digits_def Let_def)
      then show False using inv by (auto simp: loop_inv_def)
    qed
    then have "drop (length ds') (ds @ ?c # rest') = drop (length ds') (ds @ rest)" by (simp add: rest drop_Cons split: nat.split)
    then show ?thesis using run go x'(1) del(1,2) ds' by auto
  next
    case down
    then have "\<not> ?up \<or> 2 * bnval r \<le> ?D" using c(2,3) by linarith
    from stop(1) [OF down(1) this] show ?thesis using run down less.prems(4) rest
      by (intro exI [of _ "ds @ [?c]"]) auto
  next
    case up
    then have "\<not> ?down \<or> ?D \<le> 2 * bnval r" using c(2,3) by linarith
    note s = stop(2) [OF up(1) this]
    then have "increment_at (ds @ ?c # rest') (length ds) = Some (ds @ digit_char (of_nat (q + 1)) # rest')" by (intro increment_last) simp
    then show ?thesis using run up s less.prems(4) rest
      by (intro exI [of _ "ds @ [digit_char (of_nat (q + 1))]"]) auto
  qed
qed

section \<open>The start of the loop\<close>

text \<open>Numerator, denominator and boundary distances after the fix-up; \<open>x = s * 2^e\<close>.\<close>

definition scaled_deltas :: "bool \<Rightarrow> bool \<Rightarrow> nat \<Rightarrow> real \<Rightarrow> int \<Rightarrow> Bignum \<Rightarrow> Bignum \<Rightarrow> Bignum \<Rightarrow> Bignum \<Rightarrow> bool" where
  "scaled_deltas ev closer s x point n d dm dp \<longleftrightarrow>
     bn_good n \<and> bn_good d \<and> bn_good dm \<and> bn_good dp \<and> 10 * bnval d < bn_limit
     \<and> start_inv ev (bnval n) (bnval d) (bnval dm) (bnval dp)
     \<and> bnval n = 2 * s * bnval dp \<and> bnval dp = (if closer then 2 else 1) * bnval dm
     \<and> real (bnval n) * 10 powi (point - 1) = x * real (bnval d)"

lemma start_inv_ratio:
  assumes "n = 2 * s * p" "p = (if closer then 2 else 1) * m" "0 < m" "0 < s" "below_room ev d (n + p)" "\<not> below_room ev (10 * d) (n + p)"
  shows "start_inv ev n d m p"
proof -
  have "2 * p * 1 \<le> 2 * p * s" using assms(4) by (intro mult_le_mono2) simp
  then show ?thesis using assms by (auto simp: start_inv_def mult_ac)
qed

lemma below_room_10: "below_room ev (10 * x) (10 * y) \<longleftrightarrow> below_room ev x y"
  by (simp add: below_room_def)

lemma start_order:
  assumes x: "10 powi (ep - 1) \<le> x" "x + u < 10 powi (ep + 1)" and D: "0 < D"
    and N: "real N * 10 powi ep = x * real D" and P: "real P * 10 powi ep = u * real D" "0 < P"
  shows "D < 10 * N + 10 * P" "N + P < 10 * D"
proof -
  have rd: "0 < real D" using D by simp
  have "10 powi (ep - 1) * real D \<le> real N * 10 powi ep" unfolding N using x(1) rd by (intro mult_right_mono) auto
  then have "real D * 10 powi ep \<le> real (10 * N) * 10 powi ep" by (simp add: power_int_diff field_simps)
  then have "real D \<le> real (10 * N)" by (rule mult_right_le_imp_le) simp
  then show "D < 10 * N + 10 * P" using P(2) by linarith
  have "real (N + P) * 10 powi ep = (x + u) * real D" using N P(1) by (simp add: algebra_simps)
  also have "\<dots> < 10 powi (ep + 1) * real D" using x(2) rd by (rule mult_strict_right_mono)
  also have "\<dots> = real (10 * D) * 10 powi ep" by (simp add: power_int_add)
  finally have "real (N + P) < real (10 * D)" by (rule mult_right_less_imp_less) simp
  then show "N + P < 10 * D" by (simp only: of_nat_less_iff)
qed

lemma scale_limit: "(x :: nat) < 2 ^ k \<Longrightarrow> q \<le> 4 \<Longrightarrow> k \<le> 3000 \<Longrightarrow> 10 * (q * x) < bn_limit"
proof (rule bits_limit(1))
  assume x: "x < 2 ^ k" and q: "q \<le> 4" and k: "k \<le> 3000"
  have "q * x \<le> 4 * x" by (rule mult_le_mono1 [OF q])
  also have "\<dots> < 4 * 2 ^ k" using x by simp
  finally show "q * x < 2 ^ (k + 2)" by simp
  show "k + 2 \<le> 3400" using k by simp
qed

lemma FixupMultiply10_deltas:
  assumes v: "start_ok True closer s e ep (n, d, dm, dp)"
    and b: "s < 2 ^ 53" "- 1100 \<le> e" "e \<le> 1000" "- 400 \<le> ep" "ep \<le> 400" and s: "0 < s"
    and x: "10 powi (ep - 1) \<le> real s * 2 powi e" "(real s + 1) * 2 powi e \<le> 10 powi (ep + 1)"
  shows "\<exists>point n' dm' dp'. FixupMultiply10 ep ev (n, d, dm, dp) = Some (point, n', d, dm', dp')
    \<and> scaled_deltas ev closer s (real s * 2 powi e) point n' d dm' dp'"
proof -
  define q :: nat where "q = (if closer then 2 else 1)"
  define N D P M where "N = 2 * q * start_num s e ep" and "D = 2 * q * start_den e ep" and "P = q * start_delta e ep" and "M = start_delta e ep"
  note defs = N_def D_def P_def M_def
  let ?x = "real s * 2 powi e"
  have q: "0 < q" "q \<le> 2" by (simp_all add: q_def)
  have i: "bn_is n N" "bn_is d D" "bn_is dm M" "bn_is dp P" using v unfolding defs by (cases closer; simp add: start_ok_def q_def)+
  note sm = start_small [OF b]
  have lim: "10 * N < bn_limit" "10 * D < bn_limit" "10 * P < bn_limit" "10 * M < bn_limit"
    unfolding defs using scale_limit [OF sm(1), of "2 * q"] scale_limit [OF sm(2), of "2 * q"] scale_limit [OF sm(3), of q] scale_limit [OF sm(3), of 1] q
    by simp_all
  have good: "bn_good n" "bn_good d" "bn_good dm" "bn_good dp" using i lim by (auto simp: bn_good_def bn_is_def)
  have val: "bnval n = N" "bnval d = D" "bnval dm = M" "bnval dp = P" using i by (simp_all add: bn_is_def)
  have rel: "N = 2 * s * P" "P = (if closer then 2 else 1) * M" "0 < M" "0 < P" "0 < D"
    using q by (simp_all add: defs start_num_def start_delta_def start_den_def q_def)
  have ratio: "real N * 10 powi ep = ?x * real D" using start_ratio [of s e ep] by (simp add: defs mult_ac)
  then have "2 * real s * (real P * 10 powi ep) = 2 * real s * (2 powi e / 2 * real D)" unfolding rel(1) by (simp add: mult_ac)
  then have ratioP: "real P * 10 powi ep = 2 powi e / 2 * real D" using s by simp
  have "0 < (2 :: real) powi e" by simp
  then have hi: "?x + 2 powi e / 2 < 10 powi (ep + 1)" using x(2) unfolding distrib_right mult_1 by linarith
  note ord = start_order [OF x(1) hi rel(5) ratio ratioP rel(4)]
  have cmp: "PlusCompare n dp d = Some (three_way (N + P) D)" "Equal dm dp = Some (M = P)"
    using bn.plus_compare_law [OF good(1,4,2)] compare_values(3) [of dm dp] good val by (auto simp: bn_good_def)
  have rng: "(if ev then three_way (N + P) D \<ge> 0 else three_way (N + P) D > 0) \<longleftrightarrow> below_room ev D (N + P)"
    by (auto simp: three_way_def below_room_def)
  show ?thesis
  proof (cases "below_room ev D (N + P)")
    case True
    have "\<not> below_room ev (10 * D) (N + P)" using ord(2) by (simp add: below_room_def)
    then have "scaled_deltas ev closer s ?x (ep + 1) n d dm dp"
      using good lim ratio rel start_inv_ratio [OF rel(1-3) s True] unfolding scaled_deltas_def val by simp
    then show ?thesis using cmp rng True by (auto simp: FixupMultiply10_def)
  next
    case False
    obtain n' where n': "Times10 n = Some n'" "bn_good n'" "bnval n' = 10 * N" using bn.times10_law [OF good(1)] val lim by auto
    obtain dm' where dm': "Times10 dm = Some dm'" "bn_good dm'" "bnval dm' = 10 * M" using bn.times10_law [OF good(3)] val lim by auto
    obtain dp' where dp': "Times10 dp = Some dp'" "bn_good dp'" "bnval dp' = 10 * P" using bn.times10_law [OF good(4)] val lim by auto
    have copy: "AssignBignum dp dm' = Some dm'" using good dm'(2) by (auto simp: bn_good_def intro!: AssignBignum_correct bn_okD)
    define dp'' where "dp'' = (if M = P then dm' else dp')"
    have dp2: "bn_good dp''" "bnval dp'' = 10 * P" using dm' dp' by (auto simp: dp''_def)
    have rel': "10 * N = 2 * s * (10 * P)" "10 * P = (if closer then 2 else 1) * (10 * M)" "0 < 10 * M" using rel by simp_all
    have "below_room ev D (10 * N + 10 * P)" using ord(1) by (simp add: below_room_def)
    moreover have "\<not> below_room ev (10 * D) (10 * N + 10 * P)" using False below_room_10 [of ev D "N + P"] by (simp only: distrib_left not_False_eq_True)
    ultimately have "start_inv ev (10 * N) D (10 * M) (10 * P)" by (rule start_inv_ratio [OF rel' s])
    moreover have "real (10 * N) * 10 powi (ep - 1) = ?x * real D" using ratio by (simp add: power_int_diff)
    ultimately have "scaled_deltas ev closer s ?x ep n' d dm' dp''"
      using good lim n' dm' dp2 rel' val unfolding scaled_deltas_def by simp
    then show ?thesis using cmp rng False n'(1) dm'(1) dp'(1) copy by (auto simp: FixupMultiply10_def dp''_def)
  qed
qed

section \<open>From the loop to the real numbers\<close>

text \<open>The boundaries of a double: the middles between it and its neighbours. A decimal between them is
  read back as the same double; a boundary itself is, when the significand is even.\<close>

definition upper_boundary :: "64 word \<Rightarrow> real" where
  "upper_boundary v = dval v + 2 powi Double_Exponent v / 2"

definition lower_boundary :: "64 word \<Rightarrow> real" where
  "lower_boundary v = dval v - 2 powi Double_Exponent v / (if Double_LowerBoundaryIsCloser v then 4 else 2)"

definition in_boundaries :: "64 word \<Rightarrow> real \<Rightarrow> bool" where
  "in_boundaries v y \<longleftrightarrow>
     (if Double_Significand v AND 1 = 0 then lower_boundary v \<le> y \<and> y \<le> upper_boundary v
      else lower_boundary v < y \<and> y < upper_boundary v)"

lemma scaled_le:
  assumes "0 < c" "real a * c = A * D" "real b * c = B * D" "0 < (D :: real)"
  shows "a \<le> b \<longleftrightarrow> A \<le> B" "a < b \<longleftrightarrow> A < B"
proof -
  have "a \<le> b \<longleftrightarrow> real a * c \<le> real b * c" "a < b \<longleftrightarrow> real a * c < real b * c" using assms(1) by simp_all
  then show "a \<le> b \<longleftrightarrow> A \<le> B" "a < b \<longleftrightarrow> A < B" unfolding assms(2,3) using assms(4) by simp_all
qed

lemma inside_real:
  assumes d: "0 < d" and n: "real n * 10 powi (pt - 1) = x * real d"
    and m: "real m * 10 powi (pt - 1) = l * real d" and p: "real p * 10 powi (pt - 1) = u * real d"
  defines "z y k \<equiv> real y * 10 powi (pt - int (k + 1))"
  shows "inside ev n d m p (10 ^ k) y \<longleftrightarrow> (if ev then x - l \<le> z y k \<and> z y k \<le> x + u else x - l < z y k \<and> z y k < x + u)"
    "real (distance n d (10 ^ k) y) * 10 powi (pt - int (k + 1)) = \<bar>z y k - x\<bar> * real d"
proof -
  let ?c = "10 powi (pt - int (k + 1)) :: real"
  have c: "0 < ?c" "?c * 10 ^ k = 10 powi (pt - 1)"
    using power_int_add [of "10 :: real" "pt - int (k + 1)" "int k"] by simp_all
  have e: "real (n * 10 ^ k) * ?c = x * real d" "real (y * d + m * 10 ^ k) * ?c = (z y k + l) * real d"
    "real (y * d) * ?c = z y k * real d" "real ((n + p) * 10 ^ k) * ?c = (x + u) * real d"
    using n m p unfolding c(2) [symmetric] z_def by (simp_all add: algebra_simps)
  have D: "0 < real d" using d by simp
  show "inside ev n d m p (10 ^ k) y \<longleftrightarrow> (if ev then x - l \<le> z y k \<and> z y k \<le> x + u else x - l < z y k \<and> z y k < x + u)"
    unfolding inside_def scaled_le [OF c(1) e(1,2) D] scaled_le [OF c(1) e(3,4) D] by auto
  have "real (distance n d (10 ^ k) y) * ?c = \<bar>real (y * d) - real (n * 10 ^ k)\<bar> * ?c"
    by (simp only: distance_def of_nat_nat abs_ge_zero of_int_abs of_int_diff of_int_of_nat_eq)
  also have "\<dots> = \<bar>real (y * d) * ?c - real (n * 10 ^ k) * ?c\<bar>"
    using c(1) by (simp only: left_diff_distrib [symmetric] abs_mult abs_of_pos)
  also have "\<dots> = \<bar>z y k - x\<bar> * real d" unfolding e(1,3) left_diff_distrib [symmetric] abs_mult by simp
  finally show "real (distance n d (10 ^ k) y) * ?c = \<bar>z y k - x\<bar> * real d" .
qed

lemma shortest_double:
  assumes v: "finite_positive v"
  obtains ne vals point n d dm dp where
    "NormalizedExponent (Double_Significand v) (Double_Exponent v) = Some ne"
    "InitialScaledStartValues (Double_Significand v) (Double_Exponent v) (Double_LowerBoundaryIsCloser v) (EstimatePower ne) True
       (Bignum_new, Bignum_new, Bignum_new, Bignum_new) = Some vals"
    "FixupMultiply10 (EstimatePower ne) (Double_Significand v AND 1 = 0) vals = Some (point, n, d, dm, dp)"
    "scaled_deltas (Double_Significand v AND 1 = 0) (Double_LowerBoundaryIsCloser v) (unat (Double_Significand v)) (dval v) point n d dm dp"
proof -
  define w s e where "w = Double_Significand v" and "s = unat w" and "e = Double_Exponent v"
  note sb = Significand_bounds [of v, folded w_def e_def s_def]
  have ns: "\<not> Double_IsSpecial v" "0 < s" using v by (auto simp: finite_positive_def s_def w_def unat_gt_0)
  obtain ne ep where ep: "NormalizedExponent w e = Some ne" "ep = EstimatePower ne" "10 powi (ep - 1) \<le> dval v"
      "(real s + 1) * 2 powi e \<le> 10 powi (ep + 1)" "- 400 \<le> ep" "ep \<le> 400" "0 \<le> e \<Longrightarrow> 0 \<le> ep"
    using estimate_double [OF v] unfolding w_def s_def e_def by metis
  have e: "- 1100 \<le> e" "e \<le> 1000" using sb(3) [OF ns(1)] by simp_all
  have x: "dval v = real s * 2 powi e" by (simp add: dval_def s_def w_def e_def)
  obtain n0 d dm0 dp0 where st: "InitialScaledStartValues w e (Double_LowerBoundaryIsCloser v) ep True
       (Bignum_new, Bignum_new, Bignum_new, Bignum_new) = Some (n0, d, dm0, dp0)" "start_ok True (Double_LowerBoundaryIsCloser v) s e ep (n0, d, dm0, dp0)"
    using InitialScaledStartValues_correct [where w = w and s = s and e = e and ep = ep and closer = "Double_LowerBoundaryIsCloser v" and need = True,
        OF s_def [symmetric] sb(1) e ep(5,6,7)] by (metis prod_cases4)
  from FixupMultiply10_deltas [OF st(2) sb(1) e ep(5,6) ns(2) ep(3) [unfolded x] ep(4), of "w AND 1 = 0"] obtain point n dm dp where
    "FixupMultiply10 ep (w AND 1 = 0) (n0, d, dm0, dp0) = Some (point, n, d, dm, dp)"
    "scaled_deltas (w AND 1 = 0) (Double_LowerBoundaryIsCloser v) s (dval v) point n d dm dp" unfolding x by blast
  with that ep(1,2) st(1) show ?thesis unfolding w_def s_def e_def by blast
qed

text \<open>The real form of what the loop delivers.\<close>

lemma delta_values:
  assumes "scaled_deltas ev closer s (real s * 2 powi e) pt n d dm dp" "0 < s"
  shows "real (bnval dp) * 10 powi (pt - 1) = 2 powi e / 2 * real (bnval d)"
    "real (bnval dm) * 10 powi (pt - 1) = 2 powi e / (if closer then 4 else 2) * real (bnval d)" "0 < bnval d"
proof -
  have v: "bnval n = 2 * s * bnval dp" "bnval dp = (if closer then 2 else 1) * bnval dm" "real (bnval n) * 10 powi (pt - 1) = real s * 2 powi e * real (bnval d)"
      "start_inv ev (bnval n) (bnval d) (bnval dm) (bnval dp)"
    using assms(1) by (auto simp: scaled_deltas_def)
  have "2 * real s * (real (bnval dp) * 10 powi (pt - 1)) = 2 * real s * (2 powi e / 2 * real (bnval d))"
    using v(3) unfolding v(1) by (simp add: mult_ac)
  then show p: "real (bnval dp) * 10 powi (pt - 1) = 2 powi e / 2 * real (bnval d)" using assms(2) by simp
  then show "real (bnval dm) * 10 powi (pt - 1) = 2 powi e / (if closer then 4 else 2) * real (bnval d)"
    using v(2) by (cases closer) simp_all
  have "0 < bnval n + bnval dp" using v(4) by (simp add: start_inv_def)
  then show "0 < bnval d" using v(4) by (cases ev) (auto simp: start_inv_def below_room_def intro: gr0I)
qed

lemma seventeen_digits:
  assumes "scaled_deltas ev closer s x pt n d dm dp" "s < 2 ^ 53" "closer \<Longrightarrow> s = 2 ^ 52"
  shows "bnval d < (bnval dm + bnval dp) * 10 ^ 16"
proof -
  have v: "bnval n = 2 * s * bnval dp" "bnval dp = (if closer then 2 else 1) * bnval dm" "bnval d \<le> bnval n + bnval dp" "0 < bnval dm"
    using assms(1) by (auto simp: scaled_deltas_def start_inv_def below_room_def split: if_splits)
  show ?thesis
  proof (cases closer)
    case True
    then have "bnval d \<le> (2 * s + 1) * 2 * bnval dm" using v(1-3) by (simp add: algebra_simps)
    also have "(2 * s + 1) * 2 * bnval dm < 3 * 10 ^ 16 * bnval dm" using v(4) assms(3) True by (intro mult_strict_right_mono) simp_all
    finally show ?thesis using True v(2) by simp
  next
    case False
    then have "bnval d \<le> (2 * s + 1) * bnval dm" using v(1-3) by (simp add: algebra_simps)
    also have "(2 * s + 1) * bnval dm < 2 * 10 ^ 16 * bnval dm" using v(4) assms(2) by (intro mult_strict_right_mono) simp_all
    finally show ?thesis using False v(2) by simp
  qed
qed

lemma shortest_result:
  assumes v: "finite_positive v" and buf: "18 \<le> length buf"
  shows "\<exists>ds pt n d m p. BignumDtoa v BIGNUM_DTOA_SHORTEST rd buf = Some (ds @ CHR 0x00 # drop (length ds + 1) buf, length ds, pt)
    \<and> length ds \<le> 17 \<and> shortest_digits (Double_Significand v AND 1 = 0) n d m p ds \<and> start_inv (Double_Significand v AND 1 = 0) n d m p \<and> 0 < d
    \<and> real n * 10 powi (pt - 1) = dval v * real d \<and> real p * 10 powi (pt - 1) = 2 powi Double_Exponent v / 2 * real d
    \<and> real m * 10 powi (pt - 1) = 2 powi Double_Exponent v / (if Double_LowerBoundaryIsCloser v then 4 else 2) * real d"
proof -
  let ?s = "unat (Double_Significand v)" and ?ev = "Double_Significand v AND 1 = 0" and ?cl = "Double_LowerBoundaryIsCloser v"
  obtain ne vals pt n d dm dp where st:
    "NormalizedExponent (Double_Significand v) (Double_Exponent v) = Some ne"
    "InitialScaledStartValues (Double_Significand v) (Double_Exponent v) ?cl (EstimatePower ne) True
       (Bignum_new, Bignum_new, Bignum_new, Bignum_new) = Some vals"
    "FixupMultiply10 (EstimatePower ne) ?ev vals = Some (pt, n, d, dm, dp)"
    "scaled_deltas ?ev ?cl ?s (dval v) pt n d dm dp"
    by (rule shortest_double [OF v])
  have s0: "0 < ?s" using v by (auto simp: finite_positive_def unat_gt_0)
  have "?cl \<Longrightarrow> ?s = 2 ^ 52" by (simp add: LowerBoundaryIsCloser_iff unat_Significand)
  note K = seventeen_digits [OF st(4) Significand_bounds(1) this]
  note dv = delta_values [OF st(4) [unfolded dval_def] s0]
  have g: "bn_good n" "bn_good d" "bn_good dm" "bn_good dp" "10 * bnval d < bn_limit" "start_inv ?ev (bnval n) (bnval d) (bnval dm) (bnval dp)"
      "real (bnval n) * 10 powi (pt - 1) = dval v * real (bnval d)"
    using st(4) by (auto simp: scaled_deltas_def)
  have "bnval n < 10 * bnval d" using g(6) by (auto simp: start_inv_def below_room_def split: if_splits)
  then have "loop_inv ?ev (bnval n) (bnval d) (bnval dm) (bnval dp) [] (bnval n)" by (simp add: loop_inv_def decimal_value_def)
  moreover have eq: "Equal dm dp = Some (bnval dm = bnval dp)" using compare_values(3) [of dm dp] g by (auto simp: bn_good_def)
  moreover have "deltas_ok (bnval dm = bnval dp) (bnval dm) (bnval dp) (10 ^ length []) dm dp" using g by (auto simp: deltas_ok_def)
  ultimately obtain ds where ds: "shortest_loop ?ev (bnval dm = bnval dp) d n dm dp buf 0 = Some (ds @ drop (length ds) buf, length ds)"
      "shortest_digits ?ev (bnval n) (bnval d) (bnval dm) (bnval dp) ds" "length ds \<le> 17"
    using shortest_loop_correct [OF g(6,2,5) K, of "[]" n "bnval dm = bnval dp" dm dp buf] g(1) buf by auto
  have "BignumDtoa v BIGNUM_DTOA_SHORTEST rd buf = Some (ds @ CHR 0x00 # drop (length ds + 1) buf, length ds, pt)"
    using st(1-3) eq ds(1,3) finish_buffer [of ds buf] buf by (simp add: BignumDtoa_def GenerateShortestDigits_def)
  then show ?thesis using ds(2,3) g(6,7) dv by blast
qed

lemma no_shorter:
  assumes sd: "shortest_digits ev n d m p ds" and st: "start_inv ev n d m p" and d: "0 < d" and n: "real n * 10 powi (pt - 1) = x * real d"
    and m: "real m * 10 powi (pt - 1) = l * real d" and p: "real p * 10 powi (pt - 1) = u * real d"
    and y: "if ev then x - l \<le> real y * 10 powi k \<and> real y * 10 powi k \<le> x + u else x - l < real y * 10 powi k \<and> real y * 10 powi k < x + u"
  shows "10 ^ (length ds - 1) \<le> y"
proof (rule ccontr)
  assume "\<not> 10 ^ (length ds - 1) \<le> y"
  moreover define i where "i = length ds - 1"
  ultimately have yi: "y < 10 ^ i" by simp
  show False
  proof (cases "i = 0")
    case True
    then have "y = 0" using yi by simp
    moreover have "real m * 10 powi (pt - 1) < real n * 10 powi (pt - 1)" using st by (simp add: start_inv_def)
    then have "l * real d < x * real d" unfolding n m .
    then have "l < x" using d by simp
    ultimately show False using y by (auto split: if_splits)
  next
    case False
    have "1 \<le> i" "i < length ds" using False by (simp_all add: i_def)
    then have none: "\<not> inside ev n d m p (10 ^ (i - 1)) z" for z
      using sd unfolding shortest_digits_def Let_def by blast
    have i: "int (i - 1 + 1) = int i" using False by simp
    note ir = inside_real(1) [OF d n m p, of ev "i - 1", unfolded i]
    show False
    proof (cases "pt - int i \<le> k")
      case True
      define z where "z = y * 10 ^ nat (k - (pt - int i))"
      have "real z * 10 powi (pt - int i) = real y * (10 powi (k - (pt - int i)) * 10 powi (pt - int i))"
        using True by (simp add: z_def power_int_def)
      also have "\<dots> = real y * 10 powi k" by (simp flip: power_int_add)
      finally have eq: "real z * 10 powi (pt - int i) = real y * 10 powi k" .
      show False using none [of z] ir [of z] y unfolding eq by blast
    next
      case False
      have "real y * 10 powi k < 10 ^ i * 10 powi k" using yi by (intro mult_strict_right_mono) (simp_all flip: of_nat_power)
      also have "(10 :: real) ^ i * 10 powi k = 10 powi (int i + k)" by (simp add: power_int_add)
      also have "\<dots> \<le> 10 powi (pt - 1)" using False by (intro power_int_increasing) simp_all
      finally have lt: "real y * 10 powi k < 10 powi (pt - 1)" .
      have "real (10 ^ (i - 1)) * 10 powi (pt - int i) = (10 powi (int i - 1) * 10 powi (pt - int i) :: real)"
        using \<open>i \<noteq> 0\<close> by (simp add: power_int_def nat_diff_distrib)
      then have one: "real (10 ^ (i - 1)) * 10 powi (pt - int i) = 10 powi (pt - 1)" by (simp flip: power_int_add)
      have "below_room ev d (n + p)" using st by (simp add: start_inv_def)
      moreover have "real (n + p) * 10 powi (pt - 1) = (x + u) * real d" using n p by (simp add: algebra_simps)
      ultimately have "if ev then 10 powi (pt - 1) \<le> x + u else 10 powi (pt - 1) < x + u"
        using scaled_le [of "10 powi (pt - 1)" d "10 powi (pt - 1)" "real d" "n + p" "x + u"] d by (auto simp: below_room_def split: if_splits)
      then show False using none [of "10 ^ (i - 1)"] ir [of "10 ^ (i - 1)"] y lt unfolding one by (cases ev) auto
    qed
  qed
qed

section \<open>Properties\<close>

text \<open>The digits \<open>ds\<close> with the point at \<open>point\<close> are a shortest decimal number inside the boundaries of the double,
  and the closest to the double among those of the same length.\<close>

definition shortest_repr :: "64 word \<Rightarrow> string \<Rightarrow> int \<Rightarrow> bool" where
  "shortest_repr v ds point \<longleftrightarrow> 1 \<le> length ds \<and> length ds \<le> 17 \<and> (\<forall>c\<in>set ds. is_decimal c) \<and> 10 ^ (length ds - 1) \<le> decimal_value ds
    \<and> in_boundaries v (real (decimal_value ds) * 10 powi (point - int (length ds)))
    \<and> (\<forall>y k. in_boundaries v (real y * 10 powi k) \<longrightarrow> 10 ^ (length ds - 1) \<le> y)
    \<and> (\<forall>y. in_boundaries v (real y * 10 powi (point - int (length ds)))
         \<longrightarrow> \<bar>real (decimal_value ds) * 10 powi (point - int (length ds)) - dval v\<bar> \<le> \<bar>real y * 10 powi (point - int (length ds)) - dval v\<bar>)"

lemma shortest_exact:
  assumes "finite_positive v" "18 \<le> length buf"
  shows "\<exists>ds point. BignumDtoa v BIGNUM_DTOA_SHORTEST rd buf = Some (ds @ CHR 0x00 # drop (length ds + 1) buf, length ds, point) \<and> shortest_repr v ds point"
proof -
  let ?ev = "Double_Significand v AND 1 = 0"
  define l u where "l = 2 powi Double_Exponent v / (if Double_LowerBoundaryIsCloser v then 4 else 2 :: real)" and "u = 2 powi Double_Exponent v / (2 :: real)"
  obtain ds pt n d m p where r: "BignumDtoa v BIGNUM_DTOA_SHORTEST rd buf = Some (ds @ CHR 0x00 # drop (length ds + 1) buf, length ds, pt)"
      "length ds \<le> 17" "shortest_digits ?ev n d m p ds" "start_inv ?ev n d m p" "0 < d" "real n * 10 powi (pt - 1) = dval v * real d"
      "real p * 10 powi (pt - 1) = u * real d" "real m * 10 powi (pt - 1) = l * real d"
    using shortest_result [OF assms] unfolding l_def u_def by metis
  have ib: "in_boundaries v z \<longleftrightarrow> (if ?ev then dval v - l \<le> z \<and> z \<le> dval v + u else dval v - l < z \<and> z < dval v + u)" for z
    by (simp only: in_boundaries_def lower_boundary_def upper_boundary_def l_def u_def)
  have ds: "1 \<le> length ds" "\<forall>c\<in>set ds. is_decimal c" "10 ^ (length ds - 1) \<le> decimal_value ds"
      "inside ?ev n d m p (10 ^ (length ds - 1)) (decimal_value ds)"
      "\<And>y. inside ?ev n d m p (10 ^ (length ds - 1)) y \<Longrightarrow> distance n d (10 ^ (length ds - 1)) (decimal_value ds) \<le> distance n d (10 ^ (length ds - 1)) y"
    using r(3) by (auto simp: shortest_digits_def Let_def)
  have j: "int (length ds - 1 + 1) = int (length ds)" using ds(1) by simp
  note re = inside_real [OF r(5,6,8,7), where k = "length ds - 1", unfolded j]
  have ins: "inside ?ev n d m p (10 ^ (length ds - 1)) y \<longleftrightarrow> in_boundaries v (real y * 10 powi (pt - int (length ds)))" for y
    unfolding ib by (rule re(1))
  have "\<bar>real (decimal_value ds) * 10 powi (pt - int (length ds)) - dval v\<bar> \<le> \<bar>real y * 10 powi (pt - int (length ds)) - dval v\<bar>"
    if "in_boundaries v (real y * 10 powi (pt - int (length ds)))" for y
  proof -
    have "0 < real d" "0 < (10 :: real) powi (pt - int (length ds))" using r(5) by simp_all
    then show ?thesis using scaled_le(1) [OF _ re(2) [of "decimal_value ds"] re(2) [of y]] ds(5) [of y] that unfolding ins by blast
  qed
  moreover have "10 ^ (length ds - 1) \<le> y" if "in_boundaries v (real y * 10 powi k)" for y k
    using no_shorter [OF r(3-6,8,7), of y k] that unfolding ib by blast
  ultimately show ?thesis using r(1,2) ds(1-4) unfolding ins shortest_repr_def by blast
qed

text \<open>C6: in shortest mode the conversion of a positive finite double returns, followed by NUL, a string of
  at most 17 decimal digits, the first not zero. The decimal number it denotes lies between the boundaries
  of the double; every decimal number between the boundaries has at least as many digits; and among those
  whose last digit stands at the same place none is closer to the double. A buffer of 18 characters is
  enough, no step exceeds the big integers, and the loop ends for every double.\<close>

theorem dtoa_shortest:
  assumes "finite_positive v" "18 \<le> length buf"
  shows "\<exists>ds point. BignumDtoa v BIGNUM_DTOA_SHORTEST rd buf = Some (ds @ CHR 0x00 # drop (length ds + 1) buf, length ds, point)
    \<and> 1 \<le> length ds \<and> length ds \<le> 17 \<and> (\<forall>c\<in>set ds. is_decimal c) \<and> 10 ^ (length ds - 1) \<le> decimal_value ds
    \<and> in_boundaries v (real (decimal_value ds) * 10 powi (point - int (length ds)))
    \<and> (\<forall>y k. in_boundaries v (real y * 10 powi k) \<longrightarrow> 10 ^ (length ds - 1) \<le> y)
    \<and> (\<forall>y. in_boundaries v (real y * 10 powi (point - int (length ds)))
         \<longrightarrow> \<bar>real (decimal_value ds) * 10 powi (point - int (length ds)) - dval v\<bar> \<le> \<bar>real y * 10 powi (point - int (length ds)) - dval v\<bar>)"
  using shortest_exact [OF assms] unfolding shortest_repr_def .

theorem dtoa_shortest_witness:
  "\<exists>ds point. BignumDtoa 0x400921FB54442D18 BIGNUM_DTOA_SHORTEST 0 (replicate 20 (CHR ''x''))
       = Some (ds @ CHR 0x00 # drop (length ds + 1) (replicate 20 (CHR ''x'')), length ds, point)
    \<and> 1 \<le> length ds \<and> length ds \<le> 17 \<and> (\<forall>c\<in>set ds. is_decimal c) \<and> 10 ^ (length ds - 1) \<le> decimal_value ds
    \<and> in_boundaries 0x400921FB54442D18 (real (decimal_value ds) * 10 powi (point - int (length ds)))
    \<and> (\<forall>y k. in_boundaries 0x400921FB54442D18 (real y * 10 powi k) \<longrightarrow> 10 ^ (length ds - 1) \<le> y)
    \<and> (\<forall>y. in_boundaries 0x400921FB54442D18 (real y * 10 powi (point - int (length ds)))
         \<longrightarrow> \<bar>real (decimal_value ds) * 10 powi (point - int (length ds)) - dval 0x400921FB54442D18\<bar>
             \<le> \<bar>real y * 10 powi (point - int (length ds)) - dval 0x400921FB54442D18\<bar>)"
  by (rule dtoa_shortest [OF pi_finite]) simp

text \<open>The neighbours of a positive double.\<close>

lemma dval_fields: "dval v = (let m = unat v mod 2 ^ 52 in if bexp v = 0 then real m * 2 powi - 1074 else (real m + 2 ^ 52) * 2 powi (int (bexp v) - 1075))"
  by (simp add: dval_def Double_Exponent_eq unat_Significand Let_def del: power_numeral)

lemma dval_next:
  assumes "unat v < 2047 * 2 ^ 52"
  shows "dval (v + 1) = dval v + 2 powi Double_Exponent v"
    "Double_Exponent (v + 1) = (if unat (v + 1) mod 2 ^ 52 = 0 \<and> 2 \<le> bexp (v + 1) then Double_Exponent v + 1 else Double_Exponent v)"
proof -
  define m b where "m = unat v mod 2 ^ 52" and "b = unat v div 2 ^ 52"
  have u: "unat (v + 1) = unat v + 1" using assms unat_add_exact [of v 1] by simp
  have b: "bexp v = b" "b < 2047" "m < 2 ^ 52" "unat v = b * 2 ^ 52 + m"
    using assms by (simp_all add: bexp_def b_def m_def less_mult_imp_div_less)
  consider (same) "bexp (v + 1) = b" "unat (v + 1) mod 2 ^ 52 = m + 1" | (carry) "real m + 1 = 2 ^ 52" "bexp (v + 1) = b + 1" "unat (v + 1) mod 2 ^ 52 = 0"
  proof (cases "m + 1 < 2 ^ 52")
    case True
    then have "(unat v + 1) div 2 ^ 52 = b" "(unat v + 1) mod 2 ^ 52 = m + 1" unfolding b(4) by simp_all
    then have "bexp (v + 1) = b" "unat (v + 1) mod 2 ^ 52 = m + 1" using b(2) by (simp_all add: bexp_def u)
    then show ?thesis by (rule same)
  next
    case False
    then have m: "m + 1 = 2 ^ 52" using b(3) by linarith
    then have "unat v + 1 = (b + 1) * 2 ^ 52" unfolding b(4) by simp
    then have "bexp (v + 1) = b + 1" "unat (v + 1) mod 2 ^ 52 = 0" using b(2) unfolding bexp_def u by simp_all
    moreover have "real m + 1 = real (2 ^ 52)" unfolding m [symmetric] by simp
    then have "real m + 1 = 2 ^ 52" unfolding of_nat_power by simp
    ultimately show ?thesis by (intro carry)
  qed
  note step = this
  have p: "(2 :: real) powi (int b - 1074) = 2 * 2 powi (int b - 1075)" using power_int_add_1 [of "2 :: real" "int b - 1075"] by simp
  show "dval (v + 1) = dval v + 2 powi Double_Exponent v"
    using step
  proof cases
    case same
    show ?thesis unfolding dval_fields Double_Exponent_eq b(1) same Let_def m_def [symmetric] by (simp add: distrib_right)
  next
    case carry
    show ?thesis unfolding dval_fields Double_Exponent_eq b(1) carry(2,3) Let_def m_def [symmetric] carry(1) [symmetric]
      by (simp add: p distrib_right)
  qed
  show "Double_Exponent (v + 1) = (if unat (v + 1) mod 2 ^ 52 = 0 \<and> 2 \<le> bexp (v + 1) then Double_Exponent v + 1 else Double_Exponent v)"
    using step by cases (simp_all add: Double_Exponent_eq b(1))
qed

lemma positive_bits:
  assumes "Double_Sign v = 1" "\<not> Double_IsSpecial v"
  shows "unat v < 2047 * 2 ^ 52"
proof -
  have "dSignMask = push_bit 63 1" by (simp add: push_bit_eq_mult)
  then have "v AND dSignMask = 0 \<longleftrightarrow> \<not> bit v 63" by (simp only: and_exp_eq_0_iff_not_bit push_bit_of_1)
  then have "\<not> bit v 63" using assms(1) by (auto simp: Double_Sign_def split: if_splits)
  then have "\<not> bit (unat v) 63" by (simp add: bit_unsigned_iff)
  then have "even (unat v div 2 ^ 63)" by (simp only: bit_iff_odd not_not)
  moreover have "unat v div 2 ^ 63 < 2" using unat64_less [of v] by (intro less_mult_imp_div_less) simp
  ultimately have "unat v div 2 ^ 63 = 0" by (auto simp: less_2_cases_iff)
  then have "unat v < 2 ^ 63" by (simp add: div_eq_0_iff)
  then have "unat v div 2 ^ 52 < 2 ^ 11" by (intro less_mult_imp_div_less) simp
  moreover have "unat v div 2 ^ 52 \<noteq> 2047" using assms(2) by (auto simp: IsSpecial_iff bexp_def)
  ultimately have "unat v div 2 ^ 52 < 2047" by simp
  then show ?thesis by (simp only: div_less_iff_less_mult zero_less_power zero_less_numeral)
qed

text \<open>C31: the boundaries that the shortest mode works with are the middles between the double and the
  doubles before and after it (for the largest finite double, between it and \<open>2^1024\<close>), also where the
  exponent changes and the lower neighbour is closer, and at the denormals.\<close>

theorem boundaries_are_midpoints:
  assumes "finite_positive v" "Double_Sign v = 1"
  shows "upper_boundary v = (dval v + dval (Double_NextDouble v)) / 2 \<and> lower_boundary v = (dval (Double_PreviousDouble v) + dval v) / 2"
proof -
  have ns: "\<not> Double_IsSpecial v" "Double_Significand v \<noteq> 0" using assms(1) by (simp_all add: finite_positive_def)
  note u = positive_bits [OF assms(2) ns(1)]
  have inf: "v \<noteq> dInfinity" "v \<noteq> dInfinity OR dSignMask" using ns(1) by (auto simp: Double_IsSpecial_def)
  have nx: "Double_NextDouble v = v + 1" "Double_PreviousDouble v = v - 1"
    using inf assms(2) ns(2) unfolding Double_NextDouble_def Double_PreviousDouble_def by simp_all
  have "v \<noteq> 0" using ns(2) by (auto simp: Double_Significand_def Double_IsDenormal_def)
  then have "unat (v - 1) = unat v - 1" by (simp add: unat_minus_one)
  then have u': "unat (v - 1) < 2047 * 2 ^ 52" using u by linarith
  have pr: "dval v = dval (v - 1) + 2 powi Double_Exponent (v - 1)"
      "Double_Exponent v = (if Double_LowerBoundaryIsCloser v then Double_Exponent (v - 1) + 1 else Double_Exponent (v - 1))"
    using dval_next [OF u'] by (simp_all add: LowerBoundaryIsCloser_iff)
  have "lower_boundary v = dval v - 2 powi Double_Exponent (v - 1) / 2"
    unfolding lower_boundary_def pr(2) by (simp add: power_int_add)
  then show ?thesis unfolding nx dval_next(1) [OF u] upper_boundary_def using pr(1) by simp
qed

theorem boundaries_are_midpoints_witness:
  "upper_boundary 0x400921FB54442D18 = (dval 0x400921FB54442D18 + dval (Double_NextDouble 0x400921FB54442D18)) / 2
   \<and> lower_boundary 0x400921FB54442D18 = (dval (Double_PreviousDouble 0x400921FB54442D18) + dval 0x400921FB54442D18) / 2"
  by (rule boundaries_are_midpoints [OF pi_finite]) (simp add: Double_Sign_def)

end
