(* ===== verification/GrisuBounds.thy ===== *)
theory GrisuBounds
  imports GrisuScale DtoaShortest
begin

text \<open>
  The boundaries of a double as normalized significands (\<open>diy-fp.h\<close>, \<open>ieee.h\<close>), and their scaled values.
\<close>

section \<open>Normalization\<close>

lemma normalize10_loop_correct:
  "0 < unat f \<Longrightarrow> \<exists>k g. normalize10_loop f e = Some (g, e - int k) \<and> unat g = unat f * 2 ^ k \<and> 2 ^ 54 \<le> unat g"
proof (induction "2 ^ 64 - unat f" arbitrary: f e rule: less_induct)
  case less
  have m: "(0xFFC0000000000000 :: 64 word) = NOT (push_bit 54 1 - 1)" by (simp add: not_eq_complement push_bit_eq_mult)
  have hm: "f AND 0xFFC0000000000000 = 0 \<longleftrightarrow> unat f < 2 ^ 54" unfolding m by (rule high_bits_zero) simp
  show ?case
  proof (cases "unat f < 2 ^ 54")
    case False
    then have "normalize10_loop f e = Some (f, e - int 0)" using hm by (simp add: normalize10_loop.simps)
    then show ?thesis using False by (intro exI [of _ 0] exI [of _ f]) simp
  next
    case True
    have u: "unat (push_bit 10 f) = unat f * 2 ^ 10" using True by (intro unat_push) simp
    have "2 ^ 64 - unat (push_bit 10 f) < 2 ^ 64 - unat f" "0 < unat (push_bit 10 f)" using u True less.prems by simp_all
    from less.hyps [OF this, of "e - 10"] obtain k g where
      k: "normalize10_loop (push_bit 10 f) (e - 10) = Some (g, e - 10 - int k)" "unat g = unat (push_bit 10 f) * 2 ^ k" "2 ^ 54 \<le> unat g" by blast
    have "normalize10_loop f e = Some (g, e - int (k + 10))" using k(1) hm True by (subst normalize10_loop.simps) simp
    moreover have "unat g = unat f * 2 ^ (k + 10)" using k(2) u by (simp add: power_add)
    ultimately show ?thesis using k(3) by blast
  qed
qed

lemma normalize1_loop_correct:
  "0 < unat f \<Longrightarrow> \<exists>k g. normalize1_loop f e = Some (g, e - int k) \<and> unat g = unat f * 2 ^ k \<and> 2 ^ 63 \<le> unat g"
proof (induction "2 ^ 64 - unat f" arbitrary: f e rule: less_induct)
  case less
  have m: "(0x8000000000000000 :: 64 word) = NOT (push_bit 63 1 - 1)" by (simp add: not_eq_complement push_bit_eq_mult)
  have hm: "f AND 0x8000000000000000 = 0 \<longleftrightarrow> unat f < 2 ^ 63" unfolding m by (rule high_bits_zero) simp
  show ?case
  proof (cases "unat f < 2 ^ 63")
    case False
    then have "normalize1_loop f e = Some (f, e - int 0)" using hm by (simp add: normalize1_loop.simps)
    then show ?thesis using False by (intro exI [of _ 0] exI [of _ f]) simp
  next
    case True
    have u: "unat (push_bit 1 f) = unat f * 2 ^ 1" using True by (intro unat_push) simp
    have "2 ^ 64 - unat (push_bit 1 f) < 2 ^ 64 - unat f" "0 < unat (push_bit 1 f)" using u True less.prems by simp_all
    from less.hyps [OF this, of "e - 1"] obtain k g where
      k: "normalize1_loop (push_bit 1 f) (e - 1) = Some (g, e - 1 - int k)" "unat g = unat (push_bit 1 f) * 2 ^ k" "2 ^ 63 \<le> unat g" by blast
    have "normalize1_loop f e = Some (g, e - int (k + 1))" using k(1) hm True by (subst normalize1_loop.simps) simp
    moreover have "unat g = unat f * 2 ^ (k + 1)" using k(2) u by simp
    ultimately show ?thesis using k(3) by blast
  qed
qed

lemma DiyFp_Normalize_correct:
  assumes "0 < unat (diy_f x)"
  shows "\<exists>k y. DiyFp_Normalize x = Some y \<and> diy_e y = diy_e x - int k \<and> unat (diy_f y) = unat (diy_f x) * 2 ^ k \<and> 2 ^ 63 \<le> unat (diy_f y)"
proof -
  obtain k g where k: "normalize10_loop (diy_f x) (diy_e x) = Some (g, diy_e x - int k)" "unat g = unat (diy_f x) * 2 ^ k" "2 ^ 54 \<le> unat g"
    using normalize10_loop_correct [OF assms, of "diy_e x"] by blast
  then have "0 < unat g" using less_le_trans [of 0 "2 ^ 54" "unat g"] by simp
  then obtain j h where j: "normalize1_loop g (diy_e x - int k) = Some (h, diy_e x - int k - int j)" "unat h = unat g * 2 ^ j" "2 ^ 63 \<le> unat h"
    using normalize1_loop_correct [of g "diy_e x - int k"] by blast
  have "DiyFp_Normalize x = Some \<lparr>diy_f = h, diy_e = diy_e x - int (k + j)\<rparr>" using k(1) j(1) by (simp add: DiyFp_Normalize_def)
  moreover have "unat h = unat (diy_f x) * 2 ^ (k + j)" using j(2) k(2) by (simp add: power_add)
  ultimately show ?thesis using j(3) by (intro exI [of _ "k + j"] exI [of _ "\<lparr>diy_f = h, diy_e = diy_e x - int (k + j)\<rparr>"]) simp
qed


section \<open>The boundaries of a double\<close>

lemma same_shift:
  fixes a i j :: nat
  assumes "2 ^ 63 \<le> a * 2 ^ i" "a * 2 ^ i < 2 ^ 64" "2 ^ 63 \<le> a * 2 ^ j" "a * 2 ^ j < 2 ^ 64"
  shows "i = j"
proof -
  have "j \<le> i" if "2 ^ 63 \<le> a * 2 ^ i" "a * 2 ^ j < 2 ^ 64" for i j
  proof (rule ccontr)
    assume "\<not> j \<le> i"
    then have "(2 :: nat) ^ Suc i \<le> 2 ^ j" by (intro power_increasing) simp_all
    then have "a * 2 ^ Suc i \<le> a * 2 ^ j" by (rule mult_le_mono2)
    moreover have "a * 2 ^ Suc i = 2 * (a * 2 ^ i)" "(2 :: nat) ^ 64 = 2 * 2 ^ 63" by simp_all
    ultimately show False using that by linarith
  qed
  then show ?thesis using assms by (meson le_antisym)
qed

lemma diy_val_shift: "unat f = a * 2 ^ j \<Longrightarrow> diy_val \<lparr>diy_f = f, diy_e = e - int j\<rparr> = real a * 2 powi e"
  by (simp add: diy_val_def power_int_diff)

lemma normalized_boundaries:
  assumes v: "finite_positive v" and w: "Double_AsNormalizedDiyFp v = Some w"
  shows "\<exists>m p. Double_NormalizedBoundaries v = Some (m, p) \<and> diy_e m = diy_e w \<and> diy_e p = diy_e w
    \<and> diy_val m = lower_boundary v \<and> diy_val p = upper_boundary v \<and> unat (diy_f m) \<le> unat (diy_f w) \<and> unat (diy_f w) \<le> unat (diy_f p)
    \<and> 2 ^ 63 \<le> unat (diy_f p)"
proof -
  let ?S = "Double_Significand v" and ?e = "Double_Exponent v"
  let ?s = "unat ?S"
  have s: "0 < ?s" "?s < 2 ^ 53" using v Significand_bounds [of v] by (auto simp: finite_positive_def unat_gt_0)
  obtain k where k: "2 ^ 63 \<le> unat (diy_f w)" "diy_e w = ?e - int k - 11" "unat (diy_f w) = ?s * 2 ^ (k + 11)"
    using normalized_double [OF v] w by auto
  have lim: "?s * 2 ^ (k + 11) < 2 ^ 64" using unat64_less [of "diy_f w"] k(3) by simp
  have P: "unat (push_bit 1 ?S + 1) = 2 * ?s + 1" "unat (push_bit 1 ?S - 1) = 2 * ?s - 1" "unat (push_bit 2 ?S - 1) = 4 * ?s - 1"
    using s by (simp_all add: push_bit_eq_mult unat_word_ariths unat_sub word_le_nat_alt)
  obtain j p where p: "DiyFp_Normalize (DiyFp_new (push_bit 1 ?S + 1) (?e - 1)) = Some p" "diy_e p = ?e - 1 - int j"
      "unat (diy_f p) = (2 * ?s + 1) * 2 ^ j" "2 ^ 63 \<le> unat (diy_f p)"
    using DiyFp_Normalize_correct [of "DiyFp_new (push_bit 1 ?S + 1) (?e - 1)"] P(1) by (auto simp: DiyFp_new_def)
  have double: "?s * 2 ^ (k + 11) = 2 * ?s * 2 ^ (k + 10)" by (simp add: power_add)
  have "(2 * ?s + 1) * 2 ^ (k + 10) < 2 ^ 64"
  proof -
    have "1 * 2 ^ (k + 11) \<le> ?s * 2 ^ (k + 11)" using s(1) by (intro mult_le_mono1) simp
    then have "(2 :: nat) ^ (k + 11) < 2 ^ 64" using lim by linarith
    then have "k + 11 < 64" by (rule power_less_imp_less_exp [rotated]) simp
    then have p64: "(2 :: nat) ^ 64 = 2 ^ (53 - k) * 2 ^ (k + 11)" by (simp flip: power_add)
    then have "?s < 2 ^ (53 - k)" using lim by (metis mult_less_cancel2)
    then have "(?s + 1) * 2 ^ (k + 11) \<le> 2 ^ 64" unfolding p64 by (intro mult_le_mono1) simp
    moreover have "(?s + 1) * 2 ^ (k + 11) = (2 * ?s + 1) * 2 ^ (k + 10) + 2 ^ (k + 10)" by (simp add: power_add)
    moreover have "0 < (2 :: nat) ^ (k + 10)" by simp
    ultimately show ?thesis by linarith
  qed
  moreover have le: "2 * ?s * 2 ^ (k + 10) \<le> (2 * ?s + 1) * 2 ^ (k + 10)" by simp
  ultimately have j: "j = k + 10"
    using same_shift [of "2 * ?s + 1" j "k + 10"] p(3,4) k(1,3) double unat64_less [of "diy_f p"] by simp
  define m where "m = (if Double_LowerBoundaryIsCloser v then \<lparr>diy_f = push_bit (k + 9) (push_bit 2 ?S - 1), diy_e = ?e - 2 - int (k + 9)\<rparr>
     else \<lparr>diy_f = push_bit (k + 10) (push_bit 1 ?S - 1), diy_e = ?e - 1 - int (k + 10)\<rparr>)"
  have nt: "nat (9 + int k) = k + 9" "nat (10 + int k) = k + 10" by simp_all
  have run: "Double_NormalizedBoundaries v = Some (m, p)"
    using p(1,2) j nt by (auto simp: Double_NormalizedBoundaries_def Double_AsDiyFp_def DiyFp_new_def Let_def m_def)
  have m1: "(2 * ?s - 1) * 2 ^ (k + 10) \<le> ?s * 2 ^ (k + 11)" "(4 * ?s - 1) * 2 ^ (k + 9) \<le> ?s * 2 ^ (k + 11)"
    by (simp_all add: power_add diff_mult_distrib)
  have u: "unat (push_bit (k + 9) (push_bit 2 ?S - 1)) = (4 * ?s - 1) * 2 ^ (k + 9)" "unat (push_bit (k + 10) (push_bit 1 ?S - 1)) = (2 * ?s - 1) * 2 ^ (k + 10)"
    using m1 lim unat_push [of "push_bit 2 ?S - 1" "k + 9"] unat_push [of "push_bit 1 ?S - 1" "k + 10"] P by simp_all
  have "diy_val m = lower_boundary v"
    using diy_val_shift [OF u(1), of "?e - 2"] diy_val_shift [OF u(2), of "?e - 1"] s(1)
    by (simp add: m_def lower_boundary_def dval_def power_int_diff of_nat_diff field_simps)
  moreover have "diy_val p = diy_val \<lparr>diy_f = diy_f p, diy_e = ?e - 1 - int j\<rparr>" unfolding diy_val_def p(2) by (simp only: DiyFp.select_convs)
  then have "diy_val p = upper_boundary v"
    unfolding diy_val_shift [OF p(3)] by (simp add: upper_boundary_def dval_def power_int_diff field_simps)
  moreover have "unat (diy_f m) \<le> unat (diy_f w)" using u m1 k(3) by (simp add: m_def)
  moreover have "unat (diy_f w) \<le> unat (diy_f p)" unfolding k(3) p(3) double j by (rule le)
  moreover have "diy_e m = diy_e w" "diy_e p = diy_e w" using k(2) p(2) j by (simp_all add: m_def)
  ultimately show ?thesis using run p(4) by blast
qed

end
