(* ===== verification/GrisuShortest.thy ===== *)
theory GrisuShortest
  imports GrisuLoops GrisuBounds
begin

text \<open>
  \<open>DigitGen\<close> and \<open>Grisu3\<close>: the fast shortest conversion always returns, and whenever it claims success its
  digits are a shortest number between the boundaries of the double, and the closest of that length.
\<close>

section \<open>Digit generation\<close>

lemma DigitGen_correct:
  assumes f: "unat (diy_f low) = l" "unat (diy_f w) = x" "unat (diy_f high) = h" and e: "diy_e w = - int q" and q: "32 \<le> q" "q \<le> 60"
    and o: "1 \<le> l" "l + 2 \<le> h" "l \<le> x" "x \<le> h" "h + 1 < 2 ^ 64" "2 ^ 62 \<le> h" and H: "H = h + 1" "U = h + 2 - l" "gap = h + 1 - x"
    and short: "H < 10 ^ 16 * U" and buf: "17 \<le> length buf"
  shows "\<exists>ok ds kappa. DigitGen low w high buf = Some (ok, ds @ drop (length ds) buf, length ds, kappa) \<and> length ds \<le> 17
    \<and> (ok \<longrightarrow> shortest_ok H U gap q ds kappa)"
proof -
  define hi where "hi = diy_f high + 1"
  define F where "F = hi AND (push_bit q 1 - 1)"
  define I where "I = (ucast (drop_bit q hi) :: 32 word)"
  define Uw gw where "Uw = hi - (diy_f low - 1)" and "gw = hi - diy_f w"
  have hi: "unat hi = H" unfolding hi_def H(1) using unat_add_exact [of "diy_f high" 1] f(3) o(5) by simp
  have "unat (diy_f low - 1) = l - 1" using f(1) o(1) by (simp add: unat_sub word_le_nat_alt)
  then have Uw: "unat Uw = U" unfolding Uw_def using hi o H by (simp add: unat_sub word_le_nat_alt)
  have gw: "unat gw = gap" unfolding gw_def using hi f(2) o H by (simp add: unat_sub word_le_nat_alt)
  have gap: "1 \<le> gap" "gap + 1 \<le> U" "4 \<le> U" using o H by simp_all
  have F: "unat F = H mod 2 ^ q" unfolding F_def hi [symmetric] by (rule and_one_minus)
  have hi62: "2 ^ 62 \<le> unat hi" using o(6) hi H(1) by simp
  obtain k where I: "unat I = H div 2 ^ q" and k: "BiggestPowerTen I (int (64 - q)) = Some (of_nat (10 ^ k), int (Suc k))"
      "10 ^ k \<le> H div 2 ^ q" "H div 2 ^ q < 10 ^ Suc k" "k \<le> 9" "unat (of_nat (10 ^ k) :: 32 word) = 10 ^ k"
    using leading_power [OF hi62 q refl I_def] unfolding hi by blast
  have H64: "H < 2 ^ 64" using o(5) H(1) by simp
  have K: "10 ^ (Suc k - 1) \<le> H div 2 ^ q" "Suc k \<le> 10" using k(2,4) by simp_all
  have init: "digits_state H U q (Suc k) [] (Suc k)" unfolding digits_state_def using k(3) o H by simp
  have Im: "unat I = H div 2 ^ q mod 10 ^ Suc k" using I k(3) by simp
  have dv: "0 < Suc k \<longrightarrow> unat (of_nat (10 ^ k) :: 32 word) = 10 ^ (Suc k - 1)" using k(5) by simp
  have room: "Suc k \<le> length buf" using k(4) buf by simp
  have run: "DigitGen low w high buf = do { r \<leftarrow> integrals_loop gw Uw (int q) F I (of_nat (10 ^ k)) buf 0 (Suc k);
      case r of Inl result \<Rightarrow> Some result
      | Inr (buffer1, len1) \<Rightarrow> fractionals_loop gw (push_bit q 1) (int q) F 1 Uw buffer1 len1 0 }"
  proof -
    have "kSignificandSize - int q = int (64 - q)" "shl64 1 (int q) = Some (push_bit q 1)" "shr64 hi (int q) = Some (drop_bit q hi)" "- (- int q) = int q"
      using q by (simp_all add: shl64_def shr64_def)
    then show ?thesis unfolding DigitGen_def Let_def e DiyFp_new_def DiyFp_Minus_def DiyFp_Subtract_def
      by (simp only: DiyFp.select_convs DiyFp.update_convs bind.simps hi_def [symmetric] F_def [symmetric] I_def [symmetric] Uw_def [symmetric] gw_def [symmetric] k(1) prod.case nat_int)
  qed
  from integrals_loop_correct [OF H64 K q(2) F Uw gw gap init Im dv room] show ?thesis
  proof
    assume "\<exists>ok ds' kappa'. integrals_loop gw Uw (int q) F I (of_nat (10 ^ k)) ([] @ buf) (length ([] :: string)) (Suc k)
        = Some (Inl (ok, ds' @ drop (length ds' - length ([] :: string)) buf, length ds', kappa')) \<and> length ([] :: string) \<le> length ds' \<and> length ds' \<le> Suc k
        \<and> (ok \<longrightarrow> shortest_ok H U gap q ds' kappa')"
    then obtain ok ds' kappa' where r: "integrals_loop gw Uw (int q) F I (of_nat (10 ^ k)) buf 0 (Suc k) = Some (Inl (ok, ds' @ drop (length ds') buf, length ds', kappa'))"
      "length ds' \<le> Suc k" "ok \<longrightarrow> shortest_ok H U gap q ds' kappa'" by auto
    then have "length ds' \<le> 17" using k(4) by simp
    then show ?thesis unfolding run r(1) using r(3) by auto
  next
    assume "\<exists>ds'. integrals_loop gw Uw (int q) F I (of_nat (10 ^ k)) ([] @ buf) (length ([] :: string)) (Suc k)
        = Some (Inr (ds' @ drop (length ds' - length ([] :: string)) buf, length ds')) \<and> length ([] :: string) \<le> length ds' \<and> digits_state H U q (Suc k) ds' 0"
    then obtain ds' where r: "integrals_loop gw Uw (int q) F I (of_nat (10 ^ k)) buf 0 (Suc k) = Some (Inr (ds' @ drop (length ds') buf, length ds'))"
      "digits_state H U q (Suc k) ds' 0" by auto
    have st: "all_decimal ds'" "length ds' = Suc k" "decimal_value ds' = H div 2 ^ q" "decimal_value ds' * 2 ^ q + U \<le> H"
    proof -
      have "all_decimal ds' \<and> length ds' = Suc k \<and> decimal_value ds' = H div 2 ^ q \<and> decimal_value ds' * 2 ^ q + U \<le> H" using r(2) unfolding digits_state_def power_0 div_by_1 mult_1_right diff_zero by blast
      then show "all_decimal ds'" "length ds' = Suc k" "decimal_value ds' = H div 2 ^ q" "decimal_value ds' * 2 ^ q + U \<le> H" by blast+
    qed
    have "H = decimal_value ds' * 2 ^ q + H mod 2 ^ q" unfolding st(3) by (rule div_mult_mod_eq [symmetric])
    then have fs: "fraction_state H U q ds' 0 (unat F)" unfolding fraction_state_def F using st k(2) by auto
    have "17 \<le> length (ds' @ drop (length ds') buf)" using st(2) k(4) buf by simp
    from fractionals_loop_correct [OF short q(2) gap gw fs _ _ this, of 1 Uw] Uw obtain ok ds2 kappa' where
      g: "fractionals_loop gw (push_bit q 1) (int q) F 1 Uw (ds' @ drop (length ds') buf) (length ds') (- int 0)
        = Some (ok, ds2 @ drop (length ds2 - length ds') (drop (length ds') buf), length ds2, kappa')" "length ds' \<le> length ds2" "length ds2 \<le> 17"
        "ok \<longrightarrow> shortest_ok H U gap q ds2 kappa'" by auto
    have "drop (length ds2 - length ds') (drop (length ds') buf) = drop (length ds2) buf" using g(2) by simp
    then show ?thesis unfolding run r(1) using g by auto
  qed
qed

section \<open>The result as a real number\<close>

lemma scaled_real:
  fixes a b :: nat
  assumes "kappa = int m - int n"
  shows "real (a * (10 ^ m * 2 ^ q)) = real a * (10 powi kappa * 2 ^ q) * 10 ^ n"
  unfolding assms by (simp add: power_int_diff)

lemma weededD:
  assumes "weeded H U T u gap D"
  shows "D * T + 2 * u \<le> H" "H + 4 * u \<le> D * T + U"
    "H < y * T + U \<Longrightarrow> y * T \<le> H \<Longrightarrow> \<bar>W - (real H - real gap)\<bar> < real u \<Longrightarrow> \<bar>real D * real T - W\<bar> \<le> \<bar>real y * real T - W\<bar>"
  using assms unfolding weeded_def by blast+

lemma shortest_okD:
  assumes "shortest_ok H U gap q ds kappa" and t: "t = 10 powi kappa * 2 ^ q"
  obtains P :: nat where "real (decimal_value ds) * t + 2 \<le> real H" "real H + 4 \<le> real (decimal_value ds) * t + real U"
    "\<forall>(y :: nat) W. real H < real y * t + real U \<longrightarrow> real y * t \<le> real H \<longrightarrow> \<bar>W - (real H - real gap)\<bar> < 1
       \<longrightarrow> \<bar>real (decimal_value ds) * t - W\<bar> \<le> \<bar>real y * t - W\<bar>"
    "real P * 10 * t + real U \<le> real H" "real H < (real P + 1) * 10 * t" "2 \<le> length ds \<longrightarrow> 10 ^ (length ds - 2) \<le> P"
proof -
  obtain n m P where s: "kappa = int m - int n" "weeded (H * 10 ^ n) (U * 10 ^ n) (10 ^ m * 2 ^ q) (10 ^ n) (gap * 10 ^ n) (decimal_value ds)"
      "P * 10 * (10 ^ m * 2 ^ q) + U * 10 ^ n \<le> H * 10 ^ n" "H * 10 ^ n < (P + 1) * 10 * (10 ^ m * 2 ^ q)" "2 \<le> length ds \<longrightarrow> 10 ^ (length ds - 2) \<le> P"
    using assms(1) unfolding shortest_ok_def by blast
  let ?u = "(10 :: real) ^ n" and ?D = "real (decimal_value ds)"
  have T: "real (a * (10 ^ m * 2 ^ q)) = real a * t * ?u" for a unfolding t by (rule scaled_real [OF s(1)])
  have T10: "real (a * 10 * (10 ^ m * 2 ^ q)) = real a * 10 * t * ?u" for a using T [of "a * 10"] by simp
  have n: "real (a * 10 ^ n) = real a * ?u" for a by simp
  have u: "0 < ?u" by simp
  note w = weededD [OF s(2)]
  have "real (decimal_value ds * (10 ^ m * 2 ^ q) + 2 * 10 ^ n) \<le> real (H * 10 ^ n)" using w(1) by (simp only: of_nat_le_iff)
  then have "(?D * t + 2) * ?u \<le> real H * ?u" unfolding of_nat_add T n distrib_right by simp
  then have 1: "?D * t + 2 \<le> real H" using u by (simp only: mult_le_cancel_right_pos)
  have "real (H * 10 ^ n + 4 * 10 ^ n) \<le> real (decimal_value ds * (10 ^ m * 2 ^ q) + U * 10 ^ n)" using w(2) by (simp only: of_nat_le_iff)
  then have "(real H + 4) * ?u \<le> (?D * t + real U) * ?u" unfolding of_nat_add T n distrib_right by simp
  then have 2: "real H + 4 \<le> ?D * t + real U" using u by (simp only: mult_le_cancel_right_pos)
  have "real (P * 10 * (10 ^ m * 2 ^ q) + U * 10 ^ n) \<le> real (H * 10 ^ n)" using s(3) by (simp only: of_nat_le_iff)
  then have "(real P * 10 * t + real U) * ?u \<le> real H * ?u" unfolding of_nat_add T10 n distrib_right .
  then have 3: "real P * 10 * t + real U \<le> real H" using u by (simp only: mult_le_cancel_right_pos)
  have "real (H * 10 ^ n) < real ((P + 1) * 10 * (10 ^ m * 2 ^ q))" using s(4) by (simp only: of_nat_less_iff)
  then have "real H * ?u < real (P + 1) * 10 * t * ?u" unfolding T10 n .
  then have 4: "real H < (real P + 1) * 10 * t" using u by (simp only: mult_less_cancel_right_pos of_nat_add of_nat_1)
  show thesis
  proof (rule that [OF 1 2 _ 3 4 s(5)], intro allI impI)
    fix y :: nat and W :: real
    assume y: "real H < real y * t + real U" "real y * t \<le> real H" and W: "\<bar>W - (real H - real gap)\<bar> < 1"
    have "real (H * 10 ^ n) < real (y * (10 ^ m * 2 ^ q) + U * 10 ^ n)" unfolding of_nat_add T n distrib_right [symmetric] using y(1) u by (rule mult_strict_right_mono)
    then have A: "H * 10 ^ n < y * (10 ^ m * 2 ^ q) + U * 10 ^ n" by (simp only: of_nat_less_iff)
    have "real (y * (10 ^ m * 2 ^ q)) \<le> real (H * 10 ^ n)" unfolding T n using y(2) less_imp_le [OF u] by (rule mult_right_mono)
    then have B: "y * (10 ^ m * 2 ^ q) \<le> H * 10 ^ n" by (simp only: of_nat_le_iff)
    have ab: "\<bar>p - r\<bar> * ?u = \<bar>p * ?u - r * ?u\<bar>" for p r :: real using u by (simp only: left_diff_distrib [symmetric] abs_mult abs_of_pos)
    have "\<bar>W - (real H - real gap)\<bar> * ?u < 1 * ?u" using W u by (rule mult_strict_right_mono)
    then have C: "\<bar>W * ?u - (real (H * 10 ^ n) - real (gap * 10 ^ n))\<bar> < real (10 ^ n)" unfolding ab n left_diff_distrib by simp
    have "\<bar>real (decimal_value ds * (10 ^ m * 2 ^ q)) - W * ?u\<bar> \<le> \<bar>real (y * (10 ^ m * 2 ^ q)) - W * ?u\<bar>"
      using w(3) [OF A B C] unfolding of_nat_mult .
    then have "\<bar>?D * t - W\<bar> * ?u \<le> \<bar>real y * t - W\<bar> * ?u" unfolding T ab .
    then show "\<bar>?D * t - W\<bar> \<le> \<bar>real y * t - W\<bar>" using u by (simp only: mult_le_cancel_right_pos)
  qed
qed


section \<open>The shortest representation\<close>

text \<open>The scaled double and its boundaries: the factor \<open>c\<close> is the cached power with the shift.\<close>

lemma no_shorter_number:
  fixes P y :: nat
  assumes z: "real P * 10 * t < z" "z < (real P + 1) * 10 * t" "z = real y * (10 powi j * 2 ^ q)" and t: "t = 10 powi kappa * 2 ^ q" "0 < z"
    and P: "2 \<le> len \<longrightarrow> 10 ^ (len - 2) \<le> P"
  shows "10 ^ (len - 1) \<le> y"
proof (rule ccontr)
  assume y: "\<not> 10 ^ (len - 1) \<le> y"
  have "y \<noteq> 0"
  proof
    assume "y = 0"
    then show False using z(3) t(2) by simp
  qed
  then have len: "2 \<le> len" using y by (cases "len - 1") auto
  then have p: "10 ^ (len - 1) = 10 ^ (len - 2) * (10 :: nat)" by (cases len; cases "len - 1") auto
  then have yP: "y < P * 10" using y P len by (simp add: less_le_trans)
  have t0: "0 < t" unfolding t by simp
  show False
  proof (cases "j \<le> kappa")
    case True
    then have "(10 :: real) powi j \<le> 10 powi kappa" by (intro power_int_increasing) simp_all
    then have "z \<le> real y * t" unfolding z(3) t by (intro mult_left_mono mult_right_mono) simp_all
    also have "\<dots> \<le> real (P * 10) * t" using yP t0 by (intro mult_right_mono) (simp_all only: of_nat_le_iff less_imp_le)
    finally show False using z(1) by simp
  next
    case False
    define i where "i = nat (j - kappa - 1)"
    have "j = int i + 1 + kappa" using False by (simp add: i_def)
    then have "z = real (y * 10 ^ i) * (10 * t)" unfolding z(3) t by (simp add: power_int_add)
    moreover have "(real P + 1) * 10 * t = real (P + 1) * (10 * t)" "real P * 10 * t = real P * (10 * t)" by simp_all
    ultimately have "real P * (10 * t) < real (y * 10 ^ i) * (10 * t)" "real (y * 10 ^ i) * (10 * t) < real (P + 1) * (10 * t)" using z(1,2) by (simp_all only:)
    moreover have "0 < 10 * t" using t0 by simp
    ultimately have "real P < real (y * 10 ^ i)" "real (y * 10 ^ i) < real (P + 1)" by (simp_all only: mult_less_cancel_right_pos)
    then have "P < y * 10 ^ i" "y * 10 ^ i < P + 1" by (simp_all only: of_nat_less_iff)
    then show False by linarith
  qed
qed

lemma shortest_ok_repr:
  assumes ok: "shortest_ok H U gap q ds kappa" and c: "c = 10 powi d * 2 ^ q"
    and H: "H = h + 1" "U = h + 2 - l" "gap = h + 1 - x" and o: "1 \<le> l" "l \<le> x" "x \<le> h"
    and b: "\<bar>real l - lower_boundary v * c\<bar> < 1" "\<bar>real x - dval v * c\<bar> < 1" "\<bar>real h - upper_boundary v * c\<bar> < 1"
  shows "shortest_repr v ds (int (length ds) + (- d + kappa))"
proof -
  define t where "t = 10 powi kappa * (2 :: real) ^ q"
  let ?D = "real (decimal_value ds)" and ?E = "10 powi (- d + kappa) :: real"
  obtain P :: nat where s: "?D * t + 2 \<le> real H" "real H + 4 \<le> ?D * t + real U"
    "\<forall>(y :: nat) W. real H < real y * t + real U \<longrightarrow> real y * t \<le> real H \<longrightarrow> \<bar>W - (real H - real gap)\<bar> < 1 \<longrightarrow> \<bar>?D * t - W\<bar> \<le> \<bar>real y * t - W\<bar>"
    "real P * 10 * t + real U \<le> real H" "real H < (real P + 1) * 10 * t" "2 \<le> length ds \<longrightarrow> 10 ^ (length ds - 2) \<le> P"
    by (rule shortest_okD [OF ok t_def])
  have c0: "0 < c" unfolding c by simp
  have scale: "r * (10 powi k * c) = r * (10 powi (k + d) * 2 ^ q)" "(10 :: real) powi (- d + kappa) * c = t" for r :: real and k
    unfolding c t_def by (simp_all add: power_int_add power_int_diff)
  have re: "real H = real h + 1" "real U = real h + 2 - real l" "real gap = real h + 1 - real x" using H o by (simp_all add: of_nat_diff)
  have inner: "real l - 1 < z * c \<and> z * c < real H" if "in_boundaries v z" for z
  proof -
    have "lower_boundary v \<le> z" "z \<le> upper_boundary v" using that unfolding in_boundaries_def by (auto split: if_splits)
    then have "lower_boundary v * c \<le> z * c" "z * c \<le> upper_boundary v * c" using c0 by simp_all
    then show ?thesis using b re by linarith
  qed
  have Dc: "?D * ?E * c = ?D * t" using scale(2) by (simp add: mult.assoc)
  have "lower_boundary v * c < ?D * ?E * c" "?D * ?E * c < upper_boundary v * c" unfolding Dc using s(1,2) re b by linarith+
  then have "lower_boundary v < ?D * ?E" "?D * ?E < upper_boundary v" using c0 by simp_all
  then have ib: "in_boundaries v (?D * ?E)" unfolding in_boundaries_def by simp
  have short: "10 ^ (length ds - 1) \<le> y" if y: "in_boundaries v (real y * 10 powi k)" for y k
  proof -
    define z where "z = real y * 10 powi k * c"
    have z: "real l - 1 < z" "z < real H" using inner [OF y] unfolding z_def by simp_all
    have "z = real y * (10 powi (k + d) * 2 ^ q)" unfolding z_def using scale(1) [of "real y" k] by (simp add: mult.assoc)
    moreover have "real P * 10 * t < z" "z < (real P + 1) * 10 * t" "0 < z" using z s(4,5) re o(1) by linarith+
    ultimately show ?thesis using no_shorter_number [OF _ _ _ t_def _ s(6)] by blast
  qed
  have close: "\<bar>?D * ?E - dval v\<bar> \<le> \<bar>real y * ?E - dval v\<bar>" if y: "in_boundaries v (real y * ?E)" for y
  proof -
    have yc: "real y * ?E * c = real y * t" using scale(2) by (simp add: mult.assoc)
    have "real H < real y * t + real U" "real y * t \<le> real H" using inner [OF y] unfolding yc re by linarith+
    moreover have "\<bar>dval v * c - (real H - real gap)\<bar> < 1" using b(2) unfolding re by linarith
    ultimately have "\<bar>?D * t - dval v * c\<bar> \<le> \<bar>real y * t - dval v * c\<bar>" using s(3) by blast
    then have "\<bar>?D * ?E - dval v\<bar> * c \<le> \<bar>real y * ?E - dval v\<bar> * c"
      unfolding Dc [symmetric] yc [symmetric] left_diff_distrib [symmetric] abs_mult using c0 by simp
    then show ?thesis using c0 by simp
  qed
  have "int (length ds) + (- d + kappa) - int (length ds) = - d + kappa" by simp
  then show ?thesis using ok ib short close unfolding shortest_repr_def shortest_ok_def all_decimal_def by simp
qed


section \<open>Scaling the boundaries\<close>

lemma closer_significand: "Double_LowerBoundaryIsCloser v \<Longrightarrow> unat (Double_Significand v) = 2 ^ 52"
  by (simp add: LowerBoundaryIsCloser_iff unat_Significand)

lemma boundary_widths:
  assumes "finite_positive v"
  shows "dval v / 2 \<le> lower_boundary v" "dval v \<le> upper_boundary v" "upper_boundary v \<le> 2 ^ 53 * (upper_boundary v - lower_boundary v)" "0 < dval v"
proof -
  define S u where "S = unat (Double_Significand v)" and "u = (2 powi Double_Exponent v :: real)"
  have u: "0 < u" unfolding u_def by simp
  have s: "0 < S" "S < 2 ^ 53" using assms Significand_bounds [of v] by (auto simp: finite_positive_def unat_gt_0 S_def)
  have "1 \<le> real S" "real (S + 1) \<le> real (2 ^ 53)" using s by (simp, simp only: of_nat_le_iff)
  then have "1 * u \<le> real S * u" "(real S + 1) * u \<le> 2 ^ 53 * u" using u by (intro mult_right_mono; simp)+
  then have su: "u \<le> real S * u" "real S * u + u \<le> 2 ^ 53 * u" by (simp_all add: distrib_right)
  have d: "dval v = real S * u" "upper_boundary v = real S * u + u / 2" "lower_boundary v = real S * u - u / (if Double_LowerBoundaryIsCloser v then 4 else 2)"
    by (simp_all only: upper_boundary_def lower_boundary_def dval_def S_def u_def)
  show "dval v / 2 \<le> lower_boundary v" unfolding d using su u by (cases "Double_LowerBoundaryIsCloser v") simp_all
  show "dval v \<le> upper_boundary v" unfolding d using u by simp
  show "0 < dval v" unfolding d using s u by simp
  show "upper_boundary v \<le> 2 ^ 53 * (upper_boundary v - lower_boundary v)"
  proof (cases "Double_LowerBoundaryIsCloser v")
    case True
    then have "real S * u = 2 ^ 52 * u" using closer_significand [OF True] unfolding S_def by simp
    then show ?thesis unfolding d using True u by simp
  next
    case False
    have eq: "real S * u + u / 2 - (real S * u - u / 2) = u" by simp
    show ?thesis unfolding d if_not_P [OF False] eq using su u by linarith
  qed
qed

lemma Times_mono: "unat (diy_f x) \<le> unat (diy_f y) \<Longrightarrow> unat (diy_f (DiyFp_Times x c)) \<le> unat (diy_f (DiyFp_Times y c))"
  unfolding DiyFp_Times_def Multiply_exact by (intro div_le_mono add_right_mono mult_le_mono1)

lemma Times_room: "unat (diy_f (DiyFp_Times x c)) + 1 < 2 ^ 64"
proof -
  have "unat (diy_f x) \<le> 2 ^ 64 - 1" "unat (diy_f c) \<le> 2 ^ 64 - 1" using unat64_less [of "diy_f x"] unat64_less [of "diy_f c"] by simp_all
  then have "unat (diy_f x) * unat (diy_f c) \<le> (2 ^ 64 - 1) * (2 ^ 64 - 1)" by (rule mult_le_mono)
  then have "unat (diy_f x) * unat (diy_f c) + 2 ^ 63 < (2 ^ 64 - 1) * 2 ^ 64" by simp
  then have "(unat (diy_f x) * unat (diy_f c) + 2 ^ 63) div 2 ^ 64 < 2 ^ 64 - 1" by (rule less_mult_imp_div_less)
  then show ?thesis unfolding DiyFp_Times_def Multiply_exact by simp
qed


lemma scaled_interval:
  assumes v: "finite_positive v" and r: "0 < r" and x: "2 ^ 62 \<le> x" and le: "l \<le> h"
    and b: "\<bar>real l - lower_boundary v * r\<bar> < 1" "\<bar>real x - dval v * r\<bar> < 1" "\<bar>real h - upper_boundary v * r\<bar> < 1"
  shows "1 \<le> l" "l + 2 \<le> h" "h + 1 < 10 ^ 16 * (h + 2 - l)"
proof -
  define X L K where "X = dval v * r" and "L = lower_boundary v * r" and "K = upper_boundary v * r"
  note bw = boundary_widths [OF v]
  have "dval v / 2 * r \<le> L" "X \<le> K" "K \<le> 2 ^ 53 * (upper_boundary v - lower_boundary v) * r"
    unfolding X_def L_def K_def using bw r by (intro mult_right_mono; simp)+
  then have a: "X / 2 \<le> L" "X \<le> K" "K \<le> 2 ^ 53 * (K - L)" unfolding X_def L_def K_def by (simp_all add: algebra_simps)
  have "real (2 ^ 62) \<le> real x" using x by (simp only: of_nat_le_iff)
  then have X: "2 ^ 62 - 1 < X" using b(2) unfolding X_def by simp
  have "1 < real l" "real l + 2 < real h" using a X b unfolding L_def [symmetric] K_def [symmetric] by simp_all
  then show l: "1 \<le> l" "l + 2 \<le> h" by linarith+
  have U: "real (h + 2 - l) = real h + 2 - real l" using le by simp
  have "K - L < real h + 2 - real l" "real h + 1 < K + 2" using b unfolding L_def K_def by linarith+
  then have "real h + 1 < 10 ^ 16 * (real h + 2 - real l)" using a(3) X a(2) by simp
  then have "real (h + 1) < real (10 ^ 16 * (h + 2 - l))" unfolding of_nat_mult U by simp
  then show "h + 1 < 10 ^ 16 * (h + 2 - l)" by (simp only: of_nat_less_iff)
qed

lemma Grisu3_correct:
  assumes v: "finite_positive v" and buf: "17 \<le> length buf"
  shows "\<exists>ok ds e. Grisu3 v FAST_DTOA_SHORTEST buf = Some (ok, ds @ drop (length ds) buf, length ds, e) \<and> length ds \<le> 17
    \<and> (ok \<longrightarrow> shortest_repr v ds (int (length ds) + e))"
proof -
  obtain w where w: "Double_AsNormalizedDiyFp v = Some w" "2 ^ 63 \<le> unat (diy_f w)" "diy_val w = dval v" "- 1137 \<le> diy_e w" "diy_e w \<le> 960"
    using normalized_double [OF v] by blast
  obtain m p where mp: "Double_NormalizedBoundaries v = Some (m, p)" "diy_e m = diy_e w" "diy_e p = diy_e w" "diy_val m = lower_boundary v"
      "diy_val p = upper_boundary v" "unat (diy_f m) \<le> unat (diy_f w)" "unat (diy_f w) \<le> unat (diy_f p)" "2 ^ 63 \<le> unat (diy_f p)"
    using normalized_boundaries [OF v w(1)] by blast
  obtain c d where c: "GetCachedPowerForBinaryExponentRange (- 60 - (diy_e w + 64)) (- 32 - (diy_e w + 64)) = Some (c, d)" "approximates c d"
      "- 60 \<le> diy_e w + diy_e c + 64" "diy_e w + diy_e c + 64 \<le> - 32"
    using lookup_binary [OF w(4,5)] by blast
  define q where "q = nat (- (diy_e w + diy_e c + 64))"
  define r where "r = 10 powi d * (2 :: real) ^ q"
  have q: "diy_e (DiyFp_Times w c) = - int q" "diy_e (DiyFp_Times m c) = - int q" "diy_e (DiyFp_Times p c) = - int q" "32 \<le> q" "q \<le> 60"
    using c(3,4) mp(2,3) unfolding Times_fields q_def by simp_all
  define l x h where "l = unat (diy_f (DiyFp_Times m c))" and "x = unat (diy_f (DiyFp_Times w c))" and "h = unat (diy_f (DiyFp_Times p c))"
  have err: "\<bar>real (unat (diy_f (DiyFp_Times y c))) - diy_val y * r\<bar> < 1" if "diy_e (DiyFp_Times y c) = - int q" for y
    using scaled_error [OF c(2), of y] unfolding that r_def by (simp add: power_int_minus divide_inverse mult.assoc)
  have b: "\<bar>real l - lower_boundary v * r\<bar> < 1" "\<bar>real x - dval v * r\<bar> < 1" "\<bar>real h - upper_boundary v * r\<bar> < 1"
    using err [OF q(1)] err [OF q(2)] err [OF q(3)] unfolding l_def x_def h_def w(3) mp(4,5) by simp_all
  have "2 ^ 63 \<le> unat (diy_f c)" using c(2) by (simp only: approximates_def)
  then have big: "2 ^ 62 \<le> x" "2 ^ 62 \<le> h" unfolding x_def h_def using w(2) mp(8) scaled_large by blast+
  have ord: "l \<le> x" "x \<le> h" "h + 1 < 2 ^ 64" unfolding l_def x_def h_def using mp(6,7) Times_mono Times_room by blast+
  have bounds: "1 \<le> l" "l + 2 \<le> h" "h + 1 < 10 ^ 16 * (h + 2 - l)"
    using scaled_interval [OF v _ big(1) _ b] ord(1,2) unfolding r_def by simp_all
  obtain ok ds kappa where g: "DigitGen (DiyFp_Times m c) (DiyFp_Times w c) (DiyFp_Times p c) buf = Some (ok, ds @ drop (length ds) buf, length ds, kappa)"
      "length ds \<le> 17" "ok \<longrightarrow> shortest_ok (h + 1) (h + 2 - l) (h + 1 - x) q ds kappa"
    using DigitGen_correct [OF l_def [symmetric] x_def [symmetric] h_def [symmetric] q(1,4,5) bounds(1,2) ord big(2) refl refl refl bounds(3) buf] by blast
  have "Grisu3 v FAST_DTOA_SHORTEST buf = Some (ok, ds @ drop (length ds) buf, length ds, - d + kappa)"
    unfolding Grisu3_def w(1) Let_def by (simp only: bind.simps if_True simp_thms mp(1) c(1) g(1) prod.case)
  then show ?thesis using g(2,3) shortest_ok_repr [OF _ r_def refl refl refl bounds(1) ord(1,2) b] by blast
qed

end
