(* ===== verification/FastProps.thy ===== *)
theory FastProps
  imports GrisuPrecision GrisuShortest
begin

text \<open>
  The fast conversions against the exact ones: the claims on \<open>cached-powers.cc\<close> and \<open>fast-dtoa.cc\<close>.
\<close>

section \<open>A given number of digits\<close>

lemma FastDtoa_precision:
  assumes v: "finite_positive v" and r: "1 \<le> r" "r < length buf"
  shows "\<exists>ok buf' len point. FastDtoa v FAST_DTOA_PRECISION (int r) buf point0 = Some (ok, buf', len, point) \<and> length buf' = length buf
    \<and> (if ok then BignumDtoa v BIGNUM_DTOA_PRECISION (int r) buf = Some (buf', len, point) else point = point0 \<and> len \<le> r)"
proof -
  obtain ok ds e where g: "Grisu3Counted v (int r) buf = Some (ok, ds @ drop (length ds) buf, length ds, e)" "length ds \<le> r"
      "ok \<longrightarrow> counted_digits_ok (dval v) r ds e"
    using Grisu3Counted_correct [OF v r(1)] r(2) by (meson less_imp_le)
  show ?thesis
  proof (cases ok)
    case False
    then have "FastDtoa v FAST_DTOA_PRECISION (int r) buf point0 = Some (False, ds @ drop (length ds) buf, length ds, point0)"
      using g(1) by (simp add: FastDtoa_def)
    moreover have "length (ds @ drop (length ds) buf) = length buf" using g(2) r(2) by simp
    ultimately show ?thesis using g(2) by (metis (full_types))
  next
    case True
    obtain D E where D: "length ds = r" "all_decimal ds" "10 ^ (r - 1) \<le> decimal_value ds" "counted_ok (dval v / 10 powi E) r D"
        "real D * 10 powi E = real (decimal_value ds) * 10 powi e"
      using g(3) True unfolding counted_digits_ok_def by blast
    obtain p xs point where b: "10 powi (p - 1) \<le> dval v" "dval v < 10 powi p"
        "BignumDtoa v BIGNUM_DTOA_PRECISION (int r) buf = Some (xs @ CHR 0x00 # drop (r + 1) buf, r, point)"
        "length xs = r" "\<forall>c\<in>set xs. is_decimal c" "10 ^ (r - 1) \<le> decimal_value xs"
        "real (decimal_value xs) * 10 powi (point - int r) = of_int \<lfloor>dval v * 10 powi (int r - p) + 1 / 2\<rfloor> * 10 powi (p - int r)"
      using precision_exact [OF v r] by blast
    have "real (decimal_value ds) * 10 powi e = real (decimal_value xs) * 10 powi (point - int r)"
      using counted_exact [OF D(4) r(1) b(1,2)] D(5) b(7) by simp
    moreover have "xs \<noteq> []" "all_decimal xs" using b(4,5) r(1) by (auto simp: all_decimal_def)
    ultimately have eq: "ds = xs" "e = point - int r"
      using decimal_number_inj [of ds xs e "point - int r"] D(1-3) b(4,6) by auto
    have "bput (ds @ drop (length ds) buf) (length ds) (CHR 0x00) = Some (ds @ CHR 0x00 # drop (r + 1) buf)"
      using finish_buffer [of ds buf] D(1) r(2) by simp
    then have "FastDtoa v FAST_DTOA_PRECISION (int r) buf point0 = Some (True, ds @ CHR 0x00 # drop (r + 1) buf, r, point)"
      using g(1) True eq(2) D(1) by (simp add: FastDtoa_def)
    moreover have "length (ds @ CHR 0x00 # drop (r + 1) buf) = length buf" using D(1) r(2) by simp
    ultimately show ?thesis using b(3) eq(1) by (metis (full_types))
  qed
qed

section \<open>Shortest digits\<close>

lemma FastDtoa_shortest:
  assumes v: "finite_positive v" and buf: "18 \<le> length buf"
  shows "\<exists>ok ds tail point. FastDtoa v FAST_DTOA_SHORTEST rd buf point0 = Some (ok, ds @ tail, length ds, point) \<and> length (ds @ tail) = length buf
    \<and> (if ok then tail = CHR 0x00 # drop (length ds + 1) buf \<and> shortest_repr v ds point else point = point0 \<and> length ds \<le> 17)"
proof -
  obtain ok ds e where g: "Grisu3 v FAST_DTOA_SHORTEST buf = Some (ok, ds @ drop (length ds) buf, length ds, e)" "length ds \<le> 17"
      "ok \<longrightarrow> shortest_repr v ds (int (length ds) + e)"
    using Grisu3_correct [OF v, of buf] buf by auto
  have room: "length ds < length buf" using g(2) buf by simp
  show ?thesis
  proof (cases ok)
    case False
    then have "FastDtoa v FAST_DTOA_SHORTEST rd buf point0 = Some (False, ds @ drop (length ds) buf, length ds, point0)"
      using g(1) by (simp add: FastDtoa_def)
    moreover have "length (ds @ drop (length ds) buf) = length buf" using room by simp
    ultimately show ?thesis using g(2) by (metis (full_types))
  next
    case True
    then have "FastDtoa v FAST_DTOA_SHORTEST rd buf point0
        = Some (True, ds @ CHR 0x00 # drop (length ds + 1) buf, length ds, int (length ds) + e)"
      using g(1) finish_buffer [OF room] by (simp add: FastDtoa_def)
    moreover have "length (ds @ CHR 0x00 # drop (length ds + 1) buf) = length buf" using room by simp
    ultimately show ?thesis using g(3) True by (metis (full_types))
  qed
qed

section \<open>Properties\<close>

text \<open>C30: the table of cached powers serves every normalized double: for each binary exponent such a double can
  have, the lookup stays inside the table and finds a power of ten whose normalized 64-bit significand is off
  by at most half a unit, and whose product with the double has an exponent between -60 and -32.\<close>

theorem cached_power_lookup:
  assumes "- 1137 \<le> e" "e \<le> 960"
  shows "\<exists>c d. GetCachedPowerForBinaryExponentRange (- 60 - (e + 64)) (- 32 - (e + 64)) = Some (c, d)
    \<and> 2 ^ 63 \<le> unat (diy_f c) \<and> \<bar>real (unat (diy_f c)) * 2 powi diy_e c - 10 powi d\<bar> \<le> 2 powi diy_e c / 2
    \<and> - 60 \<le> e + diy_e c + 64 \<and> e + diy_e c + 64 \<le> - 32"
  using lookup_binary [OF assms] unfolding approximates_def by blast

theorem cached_power_lookup_witness:
  "\<exists>c d. GetCachedPowerForBinaryExponentRange (- 60 - (- 62 + 64)) (- 32 - (- 62 + 64)) = Some (c, d)
    \<and> 2 ^ 63 \<le> unat (diy_f c) \<and> \<bar>real (unat (diy_f c)) * 2 powi diy_e c - 10 powi d\<bar> \<le> 2 powi diy_e c / 2
    \<and> - 60 \<le> - 62 + diy_e c + 64 \<and> - 62 + diy_e c + 64 \<le> - 32"
  by (rule cached_power_lookup) simp_all

text \<open>C8: the fast conversion with a given number of digits always returns, without writing outside the buffer,
  and whenever it reports success its buffer, length and point are exactly those of the conversion with big
  integers; when it reports failure it leaves the point alone.\<close>

theorem fast_dtoa_precision:
  assumes "finite_positive v" "1 \<le> r" "r < length buf"
  shows "\<exists>ok buf' len point. FastDtoa v FAST_DTOA_PRECISION (int r) buf point0 = Some (ok, buf', len, point) \<and> length buf' = length buf
    \<and> (if ok then BignumDtoa v BIGNUM_DTOA_PRECISION (int r) buf = Some (buf', len, point) else point = point0 \<and> len \<le> r)"
  using assms by (rule FastDtoa_precision)

theorem fast_dtoa_precision_witness:
  "\<exists>ok buf' len point. FastDtoa 0x400921FB54442D18 FAST_DTOA_PRECISION (int 5) (replicate 9 (CHR ''x'')) 0 = Some (ok, buf', len, point)
    \<and> length buf' = length (replicate 9 (CHR ''x''))
    \<and> (if ok then BignumDtoa 0x400921FB54442D18 BIGNUM_DTOA_PRECISION (int 5) (replicate 9 (CHR ''x'')) = Some (buf', len, point)
       else point = 0 \<and> len \<le> 5)"
  by (rule fast_dtoa_precision [OF pi_finite]) simp_all


text \<open>C7: the fast shortest conversion always returns, without writing outside a buffer of 18 characters. When it
  reports success, its digits are at most 17, the first not zero, followed by NUL, and denote a number between the
  boundaries of the double; every decimal number between the boundaries has at least as many digits, and among
  those with the same last place none is closer to the double. When it reports failure it leaves the point alone.\<close>

theorem fast_dtoa_shortest:
  assumes "finite_positive v" "18 \<le> length buf"
  shows "\<exists>ok ds tail point. FastDtoa v FAST_DTOA_SHORTEST rd buf point0 = Some (ok, ds @ tail, length ds, point) \<and> length (ds @ tail) = length buf
    \<and> (if ok then tail = CHR 0x00 # drop (length ds + 1) buf
         \<and> 1 \<le> length ds \<and> length ds \<le> 17 \<and> (\<forall>c\<in>set ds. is_decimal c) \<and> 10 ^ (length ds - 1) \<le> decimal_value ds
         \<and> in_boundaries v (real (decimal_value ds) * 10 powi (point - int (length ds)))
         \<and> (\<forall>y k. in_boundaries v (real y * 10 powi k) \<longrightarrow> 10 ^ (length ds - 1) \<le> y)
         \<and> (\<forall>y. in_boundaries v (real y * 10 powi (point - int (length ds)))
              \<longrightarrow> \<bar>real (decimal_value ds) * 10 powi (point - int (length ds)) - dval v\<bar> \<le> \<bar>real y * 10 powi (point - int (length ds)) - dval v\<bar>)
       else point = point0 \<and> length ds \<le> 17)"
  using FastDtoa_shortest [OF assms] unfolding shortest_repr_def .

theorem fast_dtoa_shortest_witness:
  "\<exists>ok ds tail point. FastDtoa 0x400921FB54442D18 FAST_DTOA_SHORTEST 0 (replicate 20 (CHR ''x'')) 0 = Some (ok, ds @ tail, length ds, point)
    \<and> length (ds @ tail) = 20 \<and> (ok \<longrightarrow> 1 \<le> length ds \<and> (\<forall>c\<in>set ds. is_decimal c)
      \<and> in_boundaries 0x400921FB54442D18 (real (decimal_value ds) * 10 powi (point - int (length ds)))
      \<and> (\<forall>y k. in_boundaries 0x400921FB54442D18 (real y * 10 powi k) \<longrightarrow> 10 ^ (length ds - 1) \<le> y))"
proof -
  have "18 \<le> length (replicate 20 (CHR ''x''))" by simp
  from fast_dtoa_shortest [OF pi_finite this, of 0 0] show ?thesis unfolding length_replicate by (elim exE conjE) (metis (full_types))
qed

end
