(* ===== verification/ConversionProps.thy ===== *)
theory ConversionProps
  imports ConversionText FastProps
begin

text \<open>
  Correctness of the conversions to text (\<open>double-conversion.cc\<close>, \<open>dtoa.cpp\<close>): the dispatch of \<open>DoubleToAscii\<close>
  between the fast and the exact conversions, ECMAScript's number to string conversion and the fixed notation.
\<close>

section \<open>Magnitude\<close>

definition magnitude :: "64 word \<Rightarrow> 64 word" where
  "magnitude v = v AND NOT dSignMask"

lemma sign_bit: "dSignMask = 2 ^ 63"
  by simp

lemma sign_iff: "Double_Sign v < 0 \<longleftrightarrow> bit v 63"
proof -
  have "v AND dSignMask = 0 \<longleftrightarrow> \<not> bit v 63" unfolding sign_bit by (rule and_exp_eq_0_iff_not_bit)
  then show ?thesis by (simp add: Double_Sign_def)
qed

lemma magnitude_negative: "Double_Sign v < 0 \<Longrightarrow> v XOR dSignMask = magnitude v"
  unfolding sign_iff magnitude_def sign_bit by (rule bit_eqI) (simp only: bit_xor_iff bit_and_iff bit_not_iff bit_exp_iff possible_bit_word, auto)

lemma magnitude_positive: "\<not> Double_Sign v < 0 \<Longrightarrow> v = magnitude v"
  unfolding sign_iff magnitude_def sign_bit by (rule bit_eqI) (simp only: bit_and_iff bit_not_iff bit_exp_iff possible_bit_word, auto)

lemma magnitude_eq: "(if Double_Sign v < 0 then v XOR dSignMask else v) = magnitude v"
  using magnitude_negative magnitude_positive by simp

lemma magnitude_sign: "magnitude v AND dSignMask = 0"
  unfolding magnitude_def by (simp add: and.assoc)

lemma magnitude_bits: "magnitude v AND dExponentMask = v AND dExponentMask" "magnitude v AND dSignificandMask = v AND dSignificandMask"
  unfolding magnitude_def by (simp_all add: and.assoc)

lemma magnitude_special: "Double_IsSpecial (magnitude v) = Double_IsSpecial v"
  by (simp add: Double_IsSpecial_def magnitude_bits)

lemma magnitude_key: "double_key (magnitude v) = uint (magnitude v)"
  "double_key v = (if Double_Sign v < 0 then - uint (magnitude v) else uint (magnitude v))"
proof -
  show "double_key (magnitude v) = uint (magnitude v)" by (simp add: double_key_def magnitude_sign)
  show "double_key v = (if Double_Sign v < 0 then - uint (magnitude v) else uint (magnitude v))"
    using magnitude_positive [of v] by (auto simp: double_key_def Double_Sign_def magnitude_def)
qed

lemma magnitude_finite:
  assumes "\<not> Double_IsSpecial v" "magnitude v \<noteq> 0"
  shows "finite_positive (magnitude v)"
proof -
  let ?m = "magnitude v"
  have "Double_Significand ?m \<noteq> 0"
  proof
    assume z: "Double_Significand ?m = 0"
    then have "unat ?m mod 2 ^ 52 + (if bexp ?m = 0 then 0 else 2 ^ 52) = 0" unfolding unat_Significand [symmetric] by simp
    then have "bexp ?m = 0" by (simp split: if_splits)
    then have e: "?m AND dExponentMask = 0" using IsDenormal_iff [of ?m] by (simp add: Double_IsDenormal_def)
    then have "?m AND dSignificandMask = 0" using z by (simp add: Double_Significand_def Double_IsDenormal_def)
    then show False using e sign_split [OF magnitude_sign [of v]] assms(2) by simp
  qed
  then show ?thesis using assms(1) by (simp add: finite_positive_def magnitude_special)
qed

section \<open>Position of the point\<close>

lemma dval_range:
  assumes "finite_positive v"
  shows "2 powi (- 1074) \<le> dval v" "dval v < 2 ^ 1024" "upper_boundary v < 2 ^ 1025"
proof -
  define S u where "S = unat (Double_Significand v)" and "u = (2 powi Double_Exponent v :: real)"
  have e: "- 1074 \<le> Double_Exponent v" "Double_Exponent v \<le> 971" using assms Significand_bounds(3) [of v] by (auto simp: finite_positive_def)
  have u: "2 powi (- 1074) \<le> u" "u \<le> 2 powi 971" unfolding u_def by (rule power_int_increasing; use e in simp)+
  have u0: "0 < u" unfolding u_def by simp
  have S: "1 \<le> S" "S < 2 ^ 53" using assms Significand_bounds(1) [of v] by (auto simp: finite_positive_def unat_gt_0 S_def Suc_le_eq)
  then have Sr: "1 \<le> real S" "real S + 1 \<le> 2 ^ 53" by simp_all
  have d: "dval v = real S * u" unfolding dval_def S_def u_def ..
  have "1 * u \<le> real S * u" "(real S + 1) * u \<le> 2 ^ 53 * u" using Sr u0 by (intro mult_right_mono; simp)+
  then have su: "u \<le> dval v" "dval v + u \<le> 2 ^ 53 * u" unfolding d by (simp_all add: distrib_right)
  have "2 ^ 53 * u \<le> 2 ^ 53 * 2 powi 971" using u(2) by (intro mult_left_mono) simp_all
  also have "\<dots> = 2 ^ 1024" using power_int_add [of "2 :: real" 53 971] by (simp add: power_int_numeral)
  finally have top: "2 ^ 53 * u \<le> 2 ^ 1024" .
  show "2 powi (- 1074) \<le> dval v" using u su by linarith
  show "dval v < 2 ^ 1024" using top su u0 by linarith
  have "(2 :: real) ^ 1024 < 2 ^ 1025" by (rule power_strict_increasing) simp_all
  then show "upper_boundary v < 2 ^ 1025" using top su u0 unfolding upper_boundary_def u_def by linarith
qed

lemma digits_range:
  assumes "1 \<le> length ds" "10 ^ (length ds - 1) \<le> decimal_value ds" "\<forall>c\<in>set ds. is_decimal c"
  shows "10 powi (n - 1) \<le> real (decimal_value ds) * 10 powi (n - int (length ds))" "real (decimal_value ds) * 10 powi (n - int (length ds)) < 10 powi n"
proof -
  let ?k = "length ds" and ?D = "real (decimal_value ds)"
  have "decimal_value ds < 10 ^ ?k" using assms(3) decimal_less [of ds] by blast
  then have "real (10 ^ (?k - 1)) \<le> ?D" "?D < real (10 ^ ?k)" using assms(2) by (simp_all only: of_nat_le_iff of_nat_less_iff)
  then have D: "10 powi (int ?k - 1) \<le> ?D" "?D < 10 powi int ?k"
    using power_int_of_nat [of "10 :: real" "?k - 1"] power_int_of_nat [of "10 :: real" ?k] assms(1) by (simp_all add: of_nat_diff)
  have "10 powi (int ?k - 1) * 10 powi (n - int ?k) \<le> ?D * 10 powi (n - int ?k)" "?D * 10 powi (n - int ?k) < 10 powi int ?k * 10 powi (n - int ?k)"
    using D by (auto intro!: mult_right_mono mult_strict_right_mono)
  moreover have "10 powi (int ?k - 1) * 10 powi (n - int ?k) = (10 powi (n - 1) :: real)" "10 powi int ?k * 10 powi (n - int ?k) = (10 powi n :: real)"
    using power_int_add [of "10 :: real" "int ?k - 1" "n - int ?k"] power_int_add [of "10 :: real" "int ?k" "n - int ?k"] by simp_all
  ultimately show "10 powi (n - 1) \<le> ?D * 10 powi (n - int ?k)" "?D * 10 powi (n - int ?k) < 10 powi n" by linarith+
qed

lemma point_bound:
  assumes v: "finite_positive v" and y: "dval v / 2 \<le> y" "y < 2 ^ 1025" "10 powi (n - 1) \<le> y" "y < 10 powi n"
  shows "\<bar>n - 1\<bar> < 1000"
proof -
  have "10 powi (n - 1) < (2 ^ 1025 :: real)" using y by linarith
  also have "\<dots> \<le> 10 powi 1000"
  proof -
    have "(2 :: real) ^ 1025 \<le> (2 ^ 3) ^ 1000" unfolding power_mult [symmetric] by (rule power_increasing) simp_all
    also have "\<dots> \<le> 10 ^ 1000" by (rule power_mono) simp_all
    finally show ?thesis by (simp only: power_int_numeral)
  qed
  finally have up: "n - 1 < 1000" using power_int_increasing [of 1000 "n - 1" "10 :: real"] by linarith
  have "10 powi (- 998) \<le> (2 powi (- 1075) :: real)"
  proof -
    have "(2 :: real) ^ 1075 \<le> (2 ^ 3) ^ 998" unfolding power_mult [symmetric] by (rule power_increasing) simp_all
    also have "\<dots> \<le> 10 ^ 998" by (rule power_mono) simp_all
    finally have "inverse (10 ^ 998 :: real) \<le> inverse (2 ^ 1075)" by (rule le_imp_inverse_le) simp
    then show ?thesis by (simp only: power_int_minus power_int_numeral)
  qed
  also have "(2 powi (- 1075) :: real) = 2 powi (- 1074) / 2" using power_int_diff [of "2 :: real" "- 1074" 1] by simp
  also have "\<dots> \<le> y" using dval_range(1) [OF v] y(1) by linarith
  finally have "10 powi (- 998) < (10 powi n :: real)" using y(4) by linarith
  then have "- 998 < n" using power_int_increasing [of n "- 998" "10 :: real"] by linarith
  then show ?thesis using up by linarith
qed

lemma shortest_point:
  assumes v: "finite_positive v" and r: "shortest_repr v ds n"
  shows "\<bar>n - 1\<bar> < 1000"
proof -
  define y where "y = real (decimal_value ds) * 10 powi (n - int (length ds))"
  note r' = r [unfolded shortest_repr_def]
  have "lower_boundary v \<le> y" "y \<le> upper_boundary v" using r' unfolding y_def in_boundaries_def by (auto split: if_splits)
  then have y: "dval v / 2 \<le> y" "y < 2 ^ 1025" using boundary_widths(1) [OF v] dval_range(3) [OF v] by linarith+
  have k: "1 \<le> length ds" "10 ^ (length ds - 1) \<le> decimal_value ds" "\<forall>c\<in>set ds. is_decimal c" using r' by blast+
  show ?thesis by (rule point_bound [OF v y]) (use digits_range [OF k, of n] in \<open>simp_all only: y_def\<close>)
qed

section \<open>Digits\<close>

text \<open>The caller's buffer after a conversion: the digits, NUL, and what follows.\<close>

lemma digits_buffer: "length ds < length buf \<Longrightarrow> bput (ds @ CHR 0x00 # tail) (length ds) (CHR 0x00) = Some (ds @ CHR 0x00 # tail)"
  by (simp add: bput_def)

lemma ascii_zero:
  assumes "magnitude v0 = 0" "2 \<le> length buf" "mode \<noteq> PRECISION \<or> rd \<noteq> 0"
  shows "DoubleToAscii v0 mode rd buf len0 point0 = Some (Double_Sign v0 < 0, ''0'' @ CHR 0x00 # drop 2 buf, 1, 1)"
proof -
  obtain a b rest where "buf = a # b # rest" using assms(2) by (cases buf; cases "tl buf") auto
  then show ?thesis using assms(1,3) magnitude_key(1) [of v0] unfolding DoubleToAscii_def Let_def magnitude_eq by (simp add: bput_def)
qed

lemma ascii_shortest:
  assumes v: "\<not> Double_IsSpecial v0" "magnitude v0 \<noteq> 0" and buf: "18 \<le> length buf"
  shows "\<exists>ds tail n. DoubleToAscii v0 SHORTEST rd buf len0 point0 = Some (Double_Sign v0 < 0, ds @ CHR 0x00 # tail, length ds, n)
    \<and> shortest_repr (magnitude v0) ds n"
proof -
  let ?v = "magnitude v0"
  have fp: "finite_positive ?v" using magnitude_finite [OF v] .
  have key: "double_key ?v \<noteq> 0" using v(2) unfolding magnitude_key(1) uint_0_iff .
  obtain ok ds tail point where f: "FastDtoa ?v FAST_DTOA_SHORTEST 0 buf point0 = Some (ok, ds @ tail, length ds, point)" "length (ds @ tail) = length buf"
      "if ok then tail = CHR 0x00 # drop (length ds + 1) buf \<and> shortest_repr ?v ds point else point = point0 \<and> length ds \<le> 17"
    using FastDtoa_shortest [OF fp buf, of 0 point0] by blast
  show ?thesis
  proof (cases ok)
    case True
    then show ?thesis using f key unfolding DoubleToAscii_def Let_def magnitude_eq
      by (intro exI [of _ ds] exI [of _ "drop (length ds + 1) buf"] exI [of _ point]) simp
  next
    case False
    have "18 \<le> length (ds @ tail)" using f(2) buf by simp
    from shortest_exact [OF fp this, of rd] obtain es pt where
      b: "BignumDtoa ?v BIGNUM_DTOA_SHORTEST rd (ds @ tail) = Some (es @ CHR 0x00 # drop (length es + 1) (ds @ tail), length es, pt)" "shortest_repr ?v es pt"
      by blast
    have "length es < length (ds @ tail)" using b(2) f(2) buf unfolding shortest_repr_def by linarith
    from digits_buffer [OF this] show ?thesis using f(1) b False key unfolding DoubleToAscii_def Let_def magnitude_eq
      by (intro exI [of _ es] exI [of _ "drop (length es + 1) (ds @ tail)"] exI [of _ pt]) (simp add: DtoaToBignumDtoaMode_def)
  qed
qed

section \<open>Number to string\<close>

text \<open>ECMAScript's \<open>Number::toString\<close> on digits \<open>ds\<close> and exponent \<open>n\<close> (the \<open>s\<close>, \<open>k\<close> and \<open>n\<close> of its step 5).\<close>

definition ecma_text :: "string \<Rightarrow> int \<Rightarrow> string" where
  "ecma_text ds n =
     (if int (length ds) \<le> n \<and> n \<le> 21 then ds @ zeros (n - int (length ds))
      else if 0 < n \<and> n \<le> 21 then take (nat n) ds @ ''.'' @ drop (nat n) ds
      else if - 6 < n \<and> n \<le> 0 then ''0.'' @ zeros (- n) @ ds
      else hd ds # (if length ds = 1 then [] else ''.'' @ tl ds) @ ''e'' @ (if n - 1 < 0 then ''-'' else ''+'') @ decimal_of (nat \<bar>n - 1\<bar>))"

definition sign_text :: "64 word \<Rightarrow> string" where
  "sign_text d = (if Double_Sign d < 0 then ''-'' else [])"

text \<open>The texts of a double: the digits are a shortest representation of its magnitude.\<close>

definition number_text :: "64 word \<Rightarrow> string \<Rightarrow> bool" where
  "number_text d txt \<longleftrightarrow>
     (if Double_IsNan d then txt = ''NaN''
      else if Double_IsInfinite d then txt = sign_text d @ ''Infinity''
      else if magnitude d = 0 then txt = ''0''
      else \<exists>ds n. shortest_repr (magnitude d) ds n \<and> txt = sign_text d @ ecma_text ds n)"

lemma ecma_flags: "has_flag EcmaScriptConverter EMIT_POSITIVE_EXPONENT_SIGN" "has_flag EcmaScriptConverter UNIQUE_ZERO"
  "\<not> has_flag EcmaScriptConverter EMIT_TRAILING_DECIMAL_POINT" "\<not> has_flag EcmaScriptConverter EMIT_TRAILING_ZERO_AFTER_POINT"
  by (simp_all add: has_flag_def EcmaScriptConverter_def)

lemma sint_of_nat32: "n < 2 ^ 31 \<Longrightarrow> sint (of_nat n :: 32 word) = int n"
  by (simp add: signed_of_nat signed_take_bit_int_eq_self)

lemma builder_ok: "sb_ok (StringBuilder_new buffer)"
  by (simp add: sb_ok_def StringBuilder_new_def)

lemma finish_text:
  "do { b \<leftarrow> add_text (StringBuilder_new buffer) t; b' \<leftarrow> Finalize b; Some (sb_buffer b') }
     = (if length t < length buffer then Some (t @ CHR 0x00 # drop (length t + 1) buffer) else None)"
proof -
  have "drop (length t) buffer = buffer ! length t # drop (length t + 1) buffer" if "length t < length buffer"
    using that by (simp add: Cons_nth_drop_Suc [symmetric])
  then show ?thesis
    by (simp add: add_text_eq [OF builder_ok] Finalize_def bput_def) (simp add: StringBuilder_new_def list_update_append)
qed

lemma special_magnitude: "Double_IsSpecial d \<Longrightarrow> magnitude d \<noteq> 0"
  using magnitude_special [of d] by (auto simp: Double_IsSpecial_def)

lemma key_negative: "magnitude d \<noteq> 0 \<Longrightarrow> double_key d < 0 \<longleftrightarrow> Double_Sign d < 0"
  using uint_ge_0 [of "magnitude d"] uint_0_iff [of "magnitude d"] unfolding magnitude_key(2) [of d] by (auto simp: less_le)

lemma special_text:
  assumes "Double_IsSpecial d" "sb_ok b"
  shows "\<exists>t. number_text d t \<and> length t \<le> 9 \<and> HandleSpecialValues EcmaScriptConverter d b = do { b' \<leftarrow> add_text b t; Some (True, b') }"
proof (cases "Double_IsInfinite d")
  case True
  have "appends (\<lambda>b. (if Double_Sign d < 0 then AddCharacter b (CHR ''-'') else Some b) \<bind> (\<lambda>b1. AddString b1 ''Infinity'')) (sign_text d @ ''Infinity'')"
    unfolding sign_text_def by (rule text_intros)+
  then have "(if Double_Sign d < 0 then AddCharacter b (CHR ''-'') else Some b) \<bind> (\<lambda>b1. AddString b1 ''Infinity'') = add_text b (sign_text d @ ''Infinity'')"
    using assms(2) unfolding appends_def by blast
  then have "HandleSpecialValues EcmaScriptConverter d b = do { b' \<leftarrow> add_text b (sign_text d @ ''Infinity''); Some (True, b') }"
    using True key_negative [OF special_magnitude [OF assms(1)]] by (simp add: HandleSpecialValues_def EcmaScriptConverter_def bind_assoc [symmetric])
  moreover have "\<not> Double_IsNan d" using True by (simp add: Double_IsInfinite_def Double_IsNan_def)
  ultimately show ?thesis using True by (intro exI [of _ "sign_text d @ ''Infinity''"]) (simp add: number_text_def sign_text_def)
next
  case False
  then have "Double_IsNan d" using assms(1) by (simp add: Double_IsSpecial_def Double_IsInfinite_def Double_IsNan_def)
  then show ?thesis using False AddString_text [OF assms(2), of "''NaN''"]
    by (intro exI [of _ "''NaN''"]) (simp add: number_text_def HandleSpecialValues_def EcmaScriptConverter_def)
qed

lemma sign_appends: "appends (add_sign EcmaScriptConverter (Double_Sign d < 0) d) (if magnitude d = 0 then [] else sign_text d)"
proof -
  have "double_key d \<noteq> 0 \<longleftrightarrow> magnitude d \<noteq> 0" using uint_0_iff [of "magnitude d"] by (simp add: magnitude_key(2))
  then show ?thesis using appends_character [of "CHR ''-''"] appends_nothing by (simp add: add_sign_def [abs_def] ecma_flags sign_text_def)
qed

text \<open>The choice between the notations, and their texts, are ECMAScript's.\<close>

lemma shortest_appends:
  assumes "ds \<noteq> []" "\<bar>n - 1\<bar> < 1000"
  shows "appends (\<lambda>b. if decimal_in_shortest_low EcmaScriptConverter \<le> n - 1 \<and> n - 1 < decimal_in_shortest_high EcmaScriptConverter
      then CreateDecimalRepresentation EcmaScriptConverter (ds @ rest) (int (length ds)) n (max 0 (int (length ds) - n)) b
      else CreateExponentialRepresentation EcmaScriptConverter (ds @ rest) (int (length ds)) (n - 1) u b) (ecma_text ds n)"
proof (cases "- 6 \<le> n - 1 \<and> n - 1 < 21")
  case True
  have "\<not> int (length ds) \<le> n" if "n \<le> 0" using that assms(1) by (cases ds) auto
  then have "decimal_notation ds n (max 0 (int (length ds) - n)) = ecma_text ds n" using True by (cases "n \<le> 0") (auto simp: decimal_notation_def ecma_text_def)
  then show ?thesis using True CreateDecimalRepresentation_text [OF ecma_flags(3,4), of ds rest n "max 0 (int (length ds) - n)"]
    by (simp add: EcmaScriptConverter_def)
next
  case False
  have "exponential_notation EcmaScriptConverter ds (n - 1) = ecma_text ds n"
    using False assms(1) by (auto simp: exponential_notation_def ecma_text_def ecma_flags) (simp_all add: EcmaScriptConverter_def)
  then show ?thesis using False CreateExponentialRepresentation_text [OF assms(1), of "n - 1" EcmaScriptConverter rest u] assms(2)
    by (auto simp: EcmaScriptConverter_def)
qed

lemma decimal_of_length: "n < 1000 \<Longrightarrow> length (decimal_of n) \<le> 3"
  by (simp add: decimal_of.simps [of n] decimal_of.simps [of "n div 10"] decimal_of.simps [of "n div 10 div 10"])

lemma ecma_text_length:
  assumes "1 \<le> length ds" "length ds \<le> 17" "\<bar>n - 1\<bar> < 1000"
  shows "length (ecma_text ds n) \<le> 24"
proof -
  have "nat \<bar>n - 1\<bar> < 1000" using assms(3) by simp
  from decimal_of_length [OF this] show ?thesis using assms(1,2) by (auto simp: ecma_text_def nat_le_iff)
qed

lemma shortest_text:
  assumes "sb_ok b"
  shows "\<exists>t. number_text d t \<and> length t \<le> 25 \<and> ToShortest EcmaScriptConverter d u b = do { b' \<leftarrow> add_text b t; Some (True, b') }"
proof (cases "Double_IsSpecial d")
  case True
  from special_text [OF True assms] obtain t where "number_text d t" "length t \<le> 9"
    "HandleSpecialValues EcmaScriptConverter d b = do { b' \<leftarrow> add_text b t; Some (True, b') }" by blast
  then show ?thesis using True by (intro exI [of _ t]) (simp add: ToShortest_def ToShortestIeeeNumber_def)
next
  case False
  let ?rep = "uninit_array u (kBase10MaximalLength + 1)"
  have len: "length ?rep = 18" by (simp add: uninit_array_def)
  obtain ds tail n where a: "DoubleToAscii d SHORTEST 0 ?rep (u_length u) (u_point u) = Some (Double_Sign d < 0, ds @ CHR 0x00 # tail, length ds, n)"
      "1 \<le> length ds" "length ds \<le> 17" "\<bar>n - 1\<bar> < 1000" "if magnitude d = 0 then ds = ''0'' \<and> n = 1 else shortest_repr (magnitude d) ds n"
  proof (cases "magnitude d = 0")
    case True
    then show thesis using that [of "''0''" "drop 2 ?rep" 1] ascii_zero [OF True, of ?rep SHORTEST 0] len by simp
  next
    case mag: False
    from ascii_shortest [OF False mag, of ?rep 0 "u_length u" "u_point u"] len obtain ds tail n where
      "DoubleToAscii d SHORTEST 0 ?rep (u_length u) (u_point u) = Some (Double_Sign d < 0, ds @ CHR 0x00 # tail, length ds, n)"
      "shortest_repr (magnitude d) ds n" by auto
    then show thesis using that [of ds tail n] mag shortest_point [OF magnitude_finite [OF False mag], of ds n] by (simp add: shortest_repr_def)
  qed
  let ?s = "if magnitude d = 0 then [] else sign_text d"
  have ne: "ds \<noteq> []" using a(2) by auto
  define create where "create = (\<lambda>b. if decimal_in_shortest_low EcmaScriptConverter \<le> n - 1 \<and> n - 1 < decimal_in_shortest_high EcmaScriptConverter
      then CreateDecimalRepresentation EcmaScriptConverter (ds @ CHR 0x00 # tail) (int (length ds)) n (max 0 (int (length ds) - n)) b
      else CreateExponentialRepresentation EcmaScriptConverter (ds @ CHR 0x00 # tail) (int (length ds)) (n - 1) u b)"
  have "appends create (ecma_text ds n)" unfolding create_def by (rule shortest_appends [OF ne a(4)])
  from appends_step [OF sign_appends [of d] this]
  have app: "add_sign EcmaScriptConverter (Double_Sign d < 0) d b \<bind> create = add_text b (?s @ ecma_text ds n)" using assms unfolding appends_def by blast
  have "ToShortest EcmaScriptConverter d u b = add_sign EcmaScriptConverter (Double_Sign d < 0) d b \<bind> (\<lambda>b1. create b1 \<bind> (\<lambda>b2. Some (True, b2)))"
    using False unfolding ToShortest_def ToShortestIeeeNumber_def a(1) Let_def create_def by simp
  then have "ToShortest EcmaScriptConverter d u b = do { b' \<leftarrow> add_text b (?s @ ecma_text ds n); Some (True, b') }"
    unfolding app [symmetric] bind_assoc .
  moreover have "length (?s @ ecma_text ds n) \<le> 25" using ecma_text_length [OF a(2-4)] by (simp add: sign_text_def)
  moreover have "number_text d (?s @ ecma_text ds n)"
  proof -
    have "\<not> Double_IsNan d" "\<not> Double_IsInfinite d" using False by (simp_all add: Double_IsSpecial_def Double_IsInfinite_def Double_IsNan_def)
    moreover have "ecma_text ''0'' 1 = ''0''" by (simp add: ecma_text_def)
    ultimately show ?thesis using a(5) by (cases "magnitude d = 0") (simp_all add: number_text_def, blast)
  qed
  ultimately show ?thesis by blast
qed

lemma numberToString_text:
  assumes "26 \<le> length buffer"
  shows "\<exists>txt. number_text d txt \<and> length txt \<le> 25 \<and> numberToString d u buffer = Some (txt @ CHR 0x00 # drop (length txt + 1) buffer)"
proof -
  obtain t where t: "number_text d t" "length t \<le> 25"
    "ToShortest EcmaScriptConverter d u (StringBuilder_new buffer) = do { b' \<leftarrow> add_text (StringBuilder_new buffer) t; Some (True, b') }"
    using shortest_text [OF builder_ok] by blast
  have "numberToString d u buffer = do { b \<leftarrow> add_text (StringBuilder_new buffer) t; b' \<leftarrow> Finalize b; Some (sb_buffer b') }"
    unfolding numberToString_def t(3) by (simp add: bind_assoc)
  then show ?thesis using t(1,2) assms finish_text [of buffer t] by auto
qed

text \<open>C1: \<open>numberToString\<close> is ECMAScript's number to string conversion. For every double and every buffer of at least 26
  characters (a \<open>NumberToStringBuffer\<close> has 96) it returns without leaving the buffer and has written a text of at most 25
  characters and NUL: \<open>NaN\<close>, \<open>Infinity\<close> with its sign, \<open>0\<close> for both zeros, and for another number a minus sign if it is
  negative and ECMAScript's layout of digits and exponent that are a shortest decimal between the boundaries of the double and, of those
  with this exponent, the closest to it. What the uninitialized memory holds does not matter.\<close>

theorem number_to_string:
  assumes "26 \<le> length buffer"
  shows "\<exists>txt. number_text d txt \<and> length txt \<le> 25 \<and> numberToString d u buffer = Some (txt @ CHR 0x00 # drop (length txt + 1) buffer)"
  using assms by (rule numberToString_text)

definition sample_uninit :: Uninit where
  "sample_uninit = \<lparr>u_chars = (\<lambda>_. CHR ''?''), u_length = 0, u_point = 0\<rparr>"

theorem number_to_string_witness:
  "\<exists>txt. number_text 0xC00921FB54442D18 txt \<and> length txt \<le> 25
    \<and> numberToString 0xC00921FB54442D18 sample_uninit (replicate 96 (CHR ''x'')) = Some (txt @ CHR 0x00 # drop (length txt + 1) (replicate 96 (CHR ''x'')))"
  by (rule number_to_string) simp

end
