(* ===== verification/ConversionFixed.thy ===== *)
theory ConversionFixed
  imports ConversionProps
begin

text \<open>
  Fixed notation (\<open>ToFixed\<close> of \<open>double-conversion.cc\<close>, \<open>numberToFixedWidthString\<close> of \<open>dtoa.cpp\<close>): the text denotes the
  value rounded half up to the requested number of decimals.
\<close>

section \<open>Range\<close>

lemma dval_first_non_fixed:
  assumes "uint (magnitude v) < uint kFirstNonFixed"
  shows "dval (magnitude v) < 10 powi 60"
proof -
  define m f e where "m = unat (magnitude v)" and "f = m mod 2 ^ 52" and "e = m div 2 ^ 52"
  have "int m < int 0x4C63E9E4E4C2F344" using assms unfolding m_def uint_nat by simp
  then have m: "m < 0x4C63E9E4E4C2F344" by (simp only: of_nat_less_iff)
  have me: "m = e * 2 ^ 52 + f" "f < 2 ^ 52" unfolding f_def e_def by simp_all
  have e: "e \<le> 1222" using m me(1) by simp
  then have b: "bexp (magnitude v) = e" unfolding bexp_def m_def [symmetric] e_def [symmetric] by simp
  define g where "g = f + (if e = 0 then 0 else 2 ^ 52)"
  have d: "dval (magnitude v) = real g * 2 powi (if e = 0 then - 1074 else int e - 1075)"
    unfolding dval_def unat_Significand Double_Exponent_eq b g_def f_def m_def ..
  show ?thesis
  proof (cases "e = 1222")
    case True
    have "f < 0x3E9E4E4C2F344" using m me(1) True by simp
    then have "g \<le> 0x13E9E4E4C2F343" using True by (simp add: g_def)
    then have "real g \<le> real 0x13E9E4E4C2F343" by (simp only: of_nat_le_iff)
    then have "dval (magnitude v) \<le> real 0x13E9E4E4C2F343 * 2 powi 147" unfolding d using True by (simp add: power_int_numeral)
    also have "\<dots> < 10 powi 60" by (simp add: power_int_numeral)
    finally show ?thesis .
  next
    case False
    have "(if e = 0 then - 1074 else int e - 1075) \<le> 146" using e False by auto
    then have "(2 :: real) powi (if e = 0 then - 1074 else int e - 1075) \<le> 2 powi 146" by (rule power_int_increasing) simp
    moreover have "real g \<le> real (2 ^ 53)" using me(2) unfolding of_nat_le_iff g_def by simp
    ultimately have "dval (magnitude v) \<le> real (2 ^ 53) * 2 powi 146" unfolding d by (intro mult_mono) simp_all
    also have "\<dots> < 10 powi 60" by (simp add: power_int_numeral)
    finally show ?thesis .
  qed
qed

section \<open>Digits\<close>

definition places_rounded :: "real \<Rightarrow> nat \<Rightarrow> string \<Rightarrow> int \<Rightarrow> bool" where
  "places_rounded x n ds point \<longleftrightarrow> all_decimal ds \<and> (ds = [] \<longrightarrow> point = - int n) \<and> - int n \<le> point - int (length ds)
    \<and> (ds \<noteq> [] \<longrightarrow> hd ds \<noteq> CHR ''0'' \<or> ds = ''0'' \<and> point = 1)
    \<and> real (decimal_value ds) * 10 powi (point - int (length ds)) = rounded_at x n"

lemma decimal_nonzero: "is_decimal c \<Longrightarrow> c \<noteq> CHR ''0'' \<Longrightarrow> dec_digit c \<noteq> 0"
proof
  assume "is_decimal c" "c \<noteq> CHR ''0''" "dec_digit c = 0"
  moreover from this have "c = digit_char (of_nat 0)" using decimal_char [of c] by (simp only:)
  moreover have "digit_char (of_nat 0) = CHR ''0''" using digit_char_cases [of 0] by (simp del: of_nat_0)
  ultimately show False by simp
qed

text \<open>Digits that do not end in zero denote a multiple of \<open>10^(-n)\<close> only if they reach no further than \<open>n\<close> places.\<close>

lemma last_place:
  assumes ds: "ds \<noteq> []" "last ds \<noteq> CHR ''0''" "all_decimal ds" and v: "real (decimal_value ds) * 10 powi (point - int (length ds)) = rounded_at x n"
  shows "- int n \<le> point - int (length ds)"
proof (rule ccontr)
  assume "\<not> ?thesis"
  moreover define j where "j = nat (- int n - 1 - (point - int (length ds)))"
  ultimately have j: "point - int (length ds) = - int n - int (Suc j)" by simp
  define R where "R = \<lfloor>x * 10 ^ n + 1 / 2\<rfloor>"
  have eq: "(10 :: real) powi (- int n - int (Suc j)) = 1 / 10 ^ n / 10 ^ Suc j" using power_int_diff [of "10 :: real" "- int n" "int (Suc j)"] by (simp add: power_int_minus divide_inverse del: of_nat_Suc power_Suc)
  have "real (decimal_value ds) * (1 / 10 ^ n / 10 ^ Suc j) = of_int R / 10 ^ n" using v unfolding j eq rounded_at_def R_def .
  then have "real (decimal_value ds) = of_int R * 10 ^ Suc j" by (simp add: field_simps)
  then have "real_of_int (int (decimal_value ds)) = real_of_int (R * 10 ^ Suc j)" by simp
  then have "int (decimal_value ds) = R * 10 ^ Suc j" by (simp only: of_int_eq_iff)
  then have "int (decimal_value ds) mod 10 = 0" by simp
  moreover obtain es c where e: "ds = es @ [c]" using ds(1) by (metis append_butlast_last_id)
  moreover have "is_decimal c" "c \<noteq> CHR ''0''" using ds e by simp_all
  then have "dec_digit c \<le> 9" "dec_digit c \<noteq> 0" using decimal_nonzero [of c] digit_le by blast+
  ultimately show False by (simp add: decimal_value_snoc)
qed

lemma head_digit: "ds \<noteq> [] \<Longrightarrow> all_decimal ds \<Longrightarrow> 10 ^ (length ds - 1) \<le> decimal_value ds \<Longrightarrow> hd ds \<noteq> CHR ''0''"
  using decimal_less [of "tl ds"] by (cases ds) (auto simp: decimal_value_Cons all_decimal_def dec_digit_def)


lemma ascii_dispatch:
  assumes "magnitude v0 \<noteq> 0" "FastFixedDtoa (magnitude v0) rd buf len0 point0 = Some (ok, buf1, len1, point1)"
  shows "ok \<Longrightarrow> DoubleToAscii v0 FIXED rd buf len0 point0 = Some (Double_Sign v0 < 0, buf1, len1, point1)"
    and "\<not> ok \<Longrightarrow> BignumDtoa (magnitude v0) BIGNUM_DTOA_FIXED rd buf1 = Some (es @ CHR 0x00 # tail, length es, pt) \<Longrightarrow>
      DoubleToAscii v0 FIXED rd buf len0 point0 = Some (Double_Sign v0 < 0, es @ CHR 0x00 # tail, length es, pt)"
proof -
  have "double_key (magnitude v0) \<noteq> 0" using assms(1) unfolding magnitude_key(1) uint_0_iff .
  then show "ok \<Longrightarrow> DoubleToAscii v0 FIXED rd buf len0 point0 = Some (Double_Sign v0 < 0, buf1, len1, point1)"
    "\<not> ok \<Longrightarrow> BignumDtoa (magnitude v0) BIGNUM_DTOA_FIXED rd buf1 = Some (es @ CHR 0x00 # tail, length es, pt) \<Longrightarrow>
      DoubleToAscii v0 FIXED rd buf len0 point0 = Some (Double_Sign v0 < 0, es @ CHR 0x00 # tail, length es, pt)"
    using assms(2) unfolding DoubleToAscii_def Let_def magnitude_eq by (simp_all add: DtoaToBignumDtoaMode_def bput_def)
qed

lemma exact_places:
  assumes "finite_positive v" "dval v < 10 powi 60" "int n + 60 < int (length buf)"
  shows "\<exists>ds point. BignumDtoa v BIGNUM_DTOA_FIXED (int n) buf = Some (ds @ CHR 0x00 # drop (length ds + 1) buf, length ds, point) \<and> places_rounded (dval v) n ds point"
proof -
  have "60 + int n < int (length buf)" "1 < length buf" using assms(3) by simp_all
  from fixed_exact [OF assms(1,2) this] obtain es pt where
    b: "BignumDtoa v BIGNUM_DTOA_FIXED (int n) buf = Some (es @ CHR 0x00 # drop (length es + 1) buf, length es, pt)"
      "\<forall>c\<in>set es. is_decimal c" "es \<noteq> [] \<longrightarrow> 10 ^ (length es - 1) \<le> decimal_value es" "es = [] \<longrightarrow> pt = - int n" "- int n \<le> pt - int (length es)"
      "real (decimal_value es) * 10 powi (pt - int (length es)) = of_int \<lfloor>dval v * 10 powi int n + 1 / 2\<rfloor> * 10 powi (- int n)"
    by (elim exE conjE) (rule that)
  have "of_int \<lfloor>dval v * 10 powi int n + 1 / 2\<rfloor> * 10 powi (- int n) = rounded_at (dval v) n"
    unfolding rounded_at_def power_int_minus divide_inverse power_int_of_nat ..
  with b(6) have "real (decimal_value es) * 10 powi (pt - int (length es)) = rounded_at (dval v) n" by (rule trans)
  moreover have "all_decimal es" using b(2) unfolding all_decimal_def .
  moreover from this have "es \<noteq> [] \<longrightarrow> hd es \<noteq> CHR ''0'' \<or> es = ''0'' \<and> pt = 1" using b(3) head_digit [of es] by blast
  ultimately have "places_rounded (dval v) n es pt" using b(4,5) unfolding places_rounded_def by (intro conjI)
  then show ?thesis using b(1) by blast
qed

lemma ascii_fixed:
  assumes v: "\<not> Double_IsSpecial v0" "uint (magnitude v0) < uint kFirstNonFixed" and buf: "length buf = 121" and n: "n \<le> 60"
  shows "\<exists>ds tail point. DoubleToAscii v0 FIXED (int n) buf len0 point0 = Some (Double_Sign v0 < 0, ds @ CHR 0x00 # tail, length ds, point)
    \<and> places_rounded (dval (magnitude v0)) n ds point"
proof (cases "magnitude v0 = 0")
  case True
  have "dval (magnitude v0) = 0" unfolding True by (simp add: dval_def Double_Significand_def Double_IsDenormal_def)
  then have "places_rounded (dval (magnitude v0)) n ''0'' 1"
    by (simp add: places_rounded_def rounded_at_def is_decimal_def decimal_value_Cons dec_digit_def)
  moreover have "2 \<le> length buf" using buf by simp
  ultimately show ?thesis using ascii_zero [OF True, of buf FIXED "int n" len0 point0] by (intro exI [of _ "''0''"] exI [of _ "drop 2 buf"] exI [of _ 1]) simp
next
  case False
  let ?v = "magnitude v0"
  have room: "23 + n \<le> length buf" "int n + 60 < int (length buf)" using buf n by simp_all
  note fast = fixed_result [OF room(1), of ?v len0 point0]
  show ?thesis
  proof (cases "Double_Exponent ?v > 20 \<or> n > 20")
    case True
    obtain es pt where "BignumDtoa ?v BIGNUM_DTOA_FIXED (int n) buf = Some (es @ CHR 0x00 # drop (length es + 1) buf, length es, pt)" "places_rounded (dval ?v) n es pt"
      using exact_places [OF magnitude_finite [OF v(1) False] dval_first_non_fixed [OF v(2)] room(2)] by (elim exE conjE) (rule that)
    then show ?thesis using ascii_dispatch(2) [OF False fast [unfolded if_P [OF True]]] by blast
  next
    case other: False
    from fast [unfolded if_not_P [OF other]] obtain ds point tail where f: "FastFixedDtoa ?v (int n) buf len0 point0 = Some (True, ds @ CHR 0x00 # tail, length ds, point)"
      "length (ds @ CHR 0x00 # tail) = length buf" "all_decimal ds" "ds \<noteq> [] \<longrightarrow> hd ds \<noteq> CHR ''0'' \<and> last ds \<noteq> CHR ''0''" "ds = [] \<longrightarrow> point = - int n"
      "real (decimal_value ds) * 10 powi (point - int (length ds)) = rounded_at (dval ?v) n" by (elim exE conjE) (rule that)
    have "- int n \<le> point - int (length ds)" using f(4,5) last_place [OF _ _ f(3,6)] by (cases "ds = []") simp_all
    moreover have "ds \<noteq> [] \<longrightarrow> hd ds \<noteq> CHR ''0'' \<or> ds = ''0'' \<and> point = 1" using f(4) by blast
    ultimately have "places_rounded (dval ?v) n ds point" using f(3,5,6) unfolding places_rounded_def by (intro conjI)
    then show ?thesis using ascii_dispatch(1) [OF False f(1)] by blast
  qed
qed

section \<open>Notation\<close>

definition fixed_text :: "real \<Rightarrow> nat \<Rightarrow> string \<Rightarrow> bool" where
  "fixed_text x n t \<longleftrightarrow> (\<exists>ip fp. t = ip @ (if n = 0 then [] else CHR ''.'' # fp) \<and> length fp = n \<and> (\<forall>c\<in>set (ip @ fp). is_decimal c)
    \<and> ip \<noteq> [] \<and> (hd ip = CHR ''0'' \<longrightarrow> ip = ''0'') \<and> int (decimal_value (ip @ fp)) = \<lfloor>x * 10 ^ n + 1 / 2\<rfloor>)"

lemma zeros_decimal: "all_decimal (zeros k)"
  by (simp add: all_decimal_def is_decimal_def)

lemma rounded_value:
  assumes "places_rounded x n ds point"
  shows "int (decimal_value (zeros i @ ds @ zeros (int n + point - int (length ds)))) = \<lfloor>x * 10 ^ n + 1 / 2\<rfloor>"
proof -
  define j R where "j = nat (int n + point - int (length ds))" and "R = \<lfloor>x * 10 ^ n + 1 / 2\<rfloor>"
  have j: "point - int (length ds) = int j - int n" using assms by (auto simp: j_def places_rounded_def)
  have eq: "(10 :: real) powi (int j - int n) = 10 ^ j / 10 ^ n" using power_int_diff [of "10 :: real" "int j" "int n"] by simp
  have "real (decimal_value ds) * (10 ^ j / 10 ^ n) = of_int R / 10 ^ n"
    using assms unfolding places_rounded_def j eq rounded_at_def R_def by blast
  then have "real (decimal_value ds) * 10 ^ j = of_int R" by (simp add: field_simps)
  then have "real_of_int (int (decimal_value ds * 10 ^ j)) = of_int R" by simp
  then have "int (decimal_value ds * 10 ^ j) = R" by (simp only: of_int_eq_iff)
  then show ?thesis by (simp add: decimal_value_append decimal_value_zeros j_def R_def)
qed

lemma zeros_add: "0 \<le> i \<Longrightarrow> 0 \<le> j \<Longrightarrow> zeros i @ zeros j = zeros (i + j)"
  by (simp add: replicate_add nat_add_distrib)

lemma fixed_textI:
  assumes r: "places_rounded x n ds point" and t: "t = ip @ (if n = 0 then [] else CHR ''.'' # fp)" "length fp = n" "ip \<noteq> []" "hd ip = CHR ''0'' \<longrightarrow> ip = ''0''"
    and eq: "ip @ fp = zeros i @ ds @ zeros (int n + point - int (length ds))"
  shows "fixed_text x n t"
proof -
  have "all_decimal (ip @ fp)" using r unfolding eq places_rounded_def by (simp add: zeros_decimal)
  then show ?thesis unfolding fixed_text_def using t rounded_value [OF r, of i] unfolding eq [symmetric] all_decimal_def by blast
qed

lemma fixed_notation:
  assumes r: "places_rounded x n ds point"
  shows "fixed_text x n (decimal_notation ds point (int n))"
proof -
  note r' = r [unfolded places_rounded_def]
  have place: "0 \<le> int n + point - int (length ds)" and empty: "ds = [] \<longrightarrow> point = - int n"
    and first: "ds \<noteq> [] \<longrightarrow> hd ds \<noteq> CHR ''0'' \<or> ds = ''0'' \<and> point = 1" using r' by auto
  consider "point \<le> 0" "n = 0" | "point \<le> 0" "0 < n" | "0 < point" "int (length ds) \<le> point" | "0 < point" "point < int (length ds)" by linarith
  then show ?thesis
  proof cases
    case 1
    then have "int (length ds) \<le> 0" using place by linarith
    then have "ds = []" by simp
    then have "ds = []" "point = 0" using 1(2) empty by simp_all
    then show ?thesis using 1 by (intro fixed_textI [OF r, of _ "''0''" "[]" 1]) (simp_all add: decimal_notation_def)
  next
    case 2
    let ?fp = "zeros (- point) @ ds @ zeros (int n + point - int (length ds))"
    have "''0'' @ ?fp = zeros (1 - point) @ ds @ zeros (int n + point - int (length ds))" using 2(1) zeros_add [of 1 "- point"] by simp
    moreover have "length ?fp = n" using 2 place by simp
    ultimately show ?thesis using 2 by (intro fixed_textI [OF r, of _ "''0''" ?fp "1 - point"]) (simp_all add: decimal_notation_def)
  next
    case 3
    then have ne: "ds \<noteq> []" using empty by auto
    let ?ip = "ds @ zeros (point - int (length ds))"
    have "?ip @ zeros (int n) = zeros 0 @ ds @ zeros (int n + point - int (length ds))"
      using 3 zeros_add [of "point - int (length ds)" "int n"] by (simp add: add.commute add_diff_eq)
    moreover have "hd ?ip = CHR ''0'' \<longrightarrow> ?ip = ''0''" using first ne by auto
    ultimately show ?thesis using 3 ne by (intro fixed_textI [OF r, of _ ?ip "zeros (int n)" 0]) (simp_all add: decimal_notation_def)
  next
    case 4
    let ?fp = "drop (nat point) ds @ zeros (int n - (int (length ds) - point))"
    have ne: "take (nat point) ds \<noteq> []" "hd (take (nat point) ds) = hd ds" "ds \<noteq> ''0''" using 4 by auto
    have n: "length ?fp = n" "n \<noteq> 0" using 4 place by (simp_all add: nat_diff_distrib) 
    have "take (nat point) ds @ ?fp = zeros 0 @ ds @ zeros (int n + point - int (length ds))" by (simp add: diff_diff_eq2 add.commute)
    then show ?thesis using 4 n ne first by (intro fixed_textI [OF r, of _ "take (nat point) ds" ?fp 0]) (auto simp: decimal_notation_def)
  qed
qed

section \<open>Fixed width\<close>

definition fixed_width_text :: "64 word \<Rightarrow> nat \<Rightarrow> string \<Rightarrow> bool" where
  "fixed_width_text d n txt \<longleftrightarrow>
     (if Double_IsSpecial d then number_text d txt
      else if 60 < n \<or> uint kFirstNonFixed \<le> uint (magnitude d) then txt = []
      else \<exists>t. fixed_text (dval (magnitude d)) n t \<and> txt = (if magnitude d = 0 then [] else sign_text d) @ t)"

lemma key_range: "(double_key d \<ge> double_key kFirstNonFixed \<or> double_key d \<le> - double_key kFirstNonFixed) \<longleftrightarrow> uint kFirstNonFixed \<le> uint (magnitude d)"
proof -
  have "double_key kFirstNonFixed = uint kFirstNonFixed" by (simp add: double_key_def)
  moreover have "0 < uint kFirstNonFixed" by simp
  moreover have "0 \<le> uint (magnitude d)" by simp
  ultimately show ?thesis unfolding magnitude_key(2) [of d] by (cases "Double_Sign d < 0") (simp_all only: if_True if_False, linarith+)
qed

lemma ToFixed_text:
  assumes b: "sb_ok b" and n: "n < 2 ^ 31"
  shows "\<exists>ok txt. fixed_width_text d n txt \<and> ToFixed EcmaScriptConverter d (int n) u b = do { b' \<leftarrow> add_text b txt; Some (ok, b') }"
proof -
  consider "Double_IsSpecial d" | "\<not> Double_IsSpecial d" "60 < n \<or> uint kFirstNonFixed \<le> uint (magnitude d)"
    | "\<not> Double_IsSpecial d" "n \<le> 60" "uint (magnitude d) < uint kFirstNonFixed" by linarith
  then show ?thesis
  proof cases
    case 1
    from special_text [OF 1 b] obtain t where "number_text d t"
      "HandleSpecialValues EcmaScriptConverter d b = do { b' \<leftarrow> add_text b t; Some (True, b') }" by blast
    then show ?thesis using 1 by (intro exI [of _ True] exI [of _ t]) (simp add: ToFixed_def fixed_width_text_def)
  next
    case 2
    then have "ToFixed EcmaScriptConverter d (int n) u b = Some (False, b)" unfolding ToFixed_def key_range by auto
    then show ?thesis using 2 by (intro exI [of _ False] exI [of _ "[]"]) (simp add: fixed_width_text_def)
  next
    case 3
    let ?rep = "uninit_array u (kMaxFixedDigitsBeforePoint + kMaxFixedDigitsAfterPoint + 1)" and ?s = "if magnitude d = 0 then [] else sign_text d"
    have len: "length ?rep = 121" by (simp add: uninit_array_def)
    obtain ds tail point where a: "DoubleToAscii d FIXED (int n) ?rep (u_length u) (u_point u) = Some (Double_Sign d < 0, ds @ CHR 0x00 # tail, length ds, point)"
        "places_rounded (dval (magnitude d)) n ds point"
      using ascii_fixed [OF 3(1,3) len 3(2), of "u_length u" "u_point u"] by (elim exE conjE) (rule that)
    let ?t = "decimal_notation ds point (int n)"
    have "appends (\<lambda>b. add_sign EcmaScriptConverter (Double_Sign d < 0) d b \<bind>
        CreateDecimalRepresentation EcmaScriptConverter (ds @ CHR 0x00 # tail) (int (length ds)) point (int n)) (?s @ ?t)"
      by (rule appends_step [OF sign_appends CreateDecimalRepresentation_text [OF ecma_flags(3,4)]])
    then have app: "add_sign EcmaScriptConverter (Double_Sign d < 0) d b \<bind>
        CreateDecimalRepresentation EcmaScriptConverter (ds @ CHR 0x00 # tail) (int (length ds)) point (int n) = add_text b (?s @ ?t)"
      using b unfolding appends_def by blast
    have "\<not> int n > 60" "\<not> uint kFirstNonFixed \<le> uint (magnitude d)" using 3 by simp_all
    then have "ToFixed EcmaScriptConverter d (int n) u b = do { b' \<leftarrow> add_text b (?s @ ?t); Some (True, b') }"
      unfolding ToFixed_def key_range a(1) app [symmetric] bind_assoc using 3(1) by simp
    moreover have "fixed_width_text d n (?s @ ?t)" using 3 fixed_notation [OF a(2)] unfolding fixed_width_text_def by auto
    ultimately show ?thesis by blast
  qed
qed

lemma fixed_width_result:
  assumes n: "n < 2 ^ 31"
  shows "\<exists>txt. fixed_width_text d n txt \<and> numberToFixedWidthString d (of_nat n) u buffer
      = (if length txt < length buffer then Some (txt @ CHR 0x00 # drop (length txt + 1) buffer) else None)"
proof -
  obtain ok t where t: "fixed_width_text d n t"
    "ToFixed EcmaScriptConverter d (int n) u (StringBuilder_new buffer) = do { b' \<leftarrow> add_text (StringBuilder_new buffer) t; Some (ok, b') }"
    using ToFixed_text [OF builder_ok n] by blast
  have "numberToFixedWidthString d (of_nat n) u buffer = do { b \<leftarrow> add_text (StringBuilder_new buffer) t; b' \<leftarrow> Finalize b; Some (sb_buffer b') }"
    unfolding numberToFixedWidthString_def sint_of_nat32 [OF n] t(2) by (simp add: bind_assoc)
  then show ?thesis using t(1) finish_text [of buffer t] by auto
qed

section \<open>Room\<close>

lemma fixed_text_length:
  assumes t: "fixed_text x n t" and x: "0 \<le> x"
  shows "x < 10 ^ p \<Longrightarrow> length t \<le> p + n + 2" and "10 ^ k \<le> x \<Longrightarrow> k + n + 1 + min n 1 \<le> length t"
proof -
  obtain ip fp where f: "t = ip @ (if n = 0 then [] else CHR ''.'' # fp)" "length fp = n" "\<forall>c\<in>set (ip @ fp). is_decimal c" "ip \<noteq> []"
      "hd ip = CHR ''0'' \<longrightarrow> ip = ''0''" "int (decimal_value (ip @ fp)) = \<lfloor>x * 10 ^ n + 1 / 2\<rfloor>"
    using t unfolding fixed_text_def by (elim exE conjE) (rule that)
  have len: "length t = length ip + n + min n 1" using f(1,2) by simp
  show "length t \<le> p + n + 2" if "x < 10 ^ p"
  proof (cases "ip = ''0''")
    case False
    then obtain c cs where c: "ip = c # cs" "is_decimal c" "c \<noteq> CHR ''0''" using f(3-5) by (cases ip) auto
    then have "1 * 10 ^ (length cs + n) \<le> dec_digit c * 10 ^ (length cs + n)" using decimal_nonzero [of c] by (intro mult_right_mono) simp_all
    moreover have "decimal_value (ip @ fp) = dec_digit c * 10 ^ (length cs + n) + decimal_value (cs @ fp)" using c(1) f(2) by (simp add: decimal_value_Cons)
    ultimately have "10 ^ (length cs + n) \<le> decimal_value (ip @ fp)" by linarith
    then have "int (10 ^ (length cs + n)) \<le> \<lfloor>x * 10 ^ n + 1 / 2\<rfloor>" unfolding f(6) [symmetric] by (simp only: of_nat_le_iff)
    moreover have "x * 10 ^ n \<le> 10 ^ p * 10 ^ n" using that by (intro mult_right_mono) simp_all
    then have "\<lfloor>x * 10 ^ n + 1 / 2\<rfloor> \<le> \<lfloor>real_of_int (10 ^ (p + n)) + 1 / 2\<rfloor>" by (intro floor_mono) (simp add: power_add)
    moreover have "\<lfloor>real_of_int (10 ^ (p + n)) + 1 / 2\<rfloor> = 10 ^ (p + n)" by (simp only: floor_eq_iff) simp
    moreover have "int (10 ^ (length cs + n)) = 10 ^ (length cs + n)" by simp
    ultimately have "(10 :: int) ^ (length cs + n) \<le> 10 ^ (p + n)" by linarith
    then have "length cs \<le> p" by simp
    then show ?thesis using len c(1) by simp
  qed (use len in simp)
  show "k + n + 1 + min n 1 \<le> length t" if "10 ^ k \<le> x"
  proof -
    have "10 ^ k * 10 ^ n \<le> x * 10 ^ n" using that by (intro mult_right_mono) simp_all
    moreover have "real_of_int (10 ^ (k + n)) = 10 ^ k * 10 ^ n" by (simp add: power_add)
    ultimately have "(10 :: int) ^ (k + n) \<le> \<lfloor>x * 10 ^ n + 1 / 2\<rfloor>" unfolding le_floor_iff by linarith
    also have "\<dots> < 10 ^ (length ip + n)" using decimal_less [of "ip @ fp"] f(2,3) unfolding f(6) [symmetric] by simp
    finally have "k < length ip" by simp
    then show ?thesis using len by simp
  qed
qed

lemma dval_ge_0: "0 \<le> dval v"
  unfolding dval_def by (intro mult_nonneg_nonneg of_nat_0_le_iff zero_le_power_int) simp

lemma fixed_width_fits:
  assumes "fixed_width_text d n txt" "dval (magnitude d) < 10 ^ p" "p + n \<le> 92"
  shows "length txt < 96"
proof (cases "Double_IsSpecial d")
  case True
  then have "number_text d txt" "Double_IsNan d \<or> Double_IsInfinite d" using assms(1)
    by (auto simp: fixed_width_text_def Double_IsSpecial_def Double_IsNan_def Double_IsInfinite_def)
  then show ?thesis by (cases "Double_IsNan d") (auto simp: number_text_def sign_text_def)
next
  case False
  then show ?thesis using assms fixed_text_length(1) [OF _ dval_ge_0 assms(2), of n]
    by (fastforce simp: fixed_width_text_def sign_text_def split: if_splits)
qed


lemma fixed_width_overflows:
  assumes "fixed_width_text d n txt" "\<not> Double_IsSpecial d" "0 < n" "n \<le> 60" "uint (magnitude d) < uint kFirstNonFixed"
    "10 ^ k \<le> dval (magnitude d)" "94 \<le> k + n"
  shows "\<not> length txt < 96"
proof -
  have "\<not> (60 < n \<or> uint kFirstNonFixed \<le> uint (magnitude d))" using assms(4,5) by linarith
  then obtain t where "fixed_text (dval (magnitude d)) n t" "txt = (if magnitude d = 0 then [] else sign_text d) @ t"
    using assms(1,2) unfolding fixed_width_text_def by metis
  then show ?thesis using fixed_text_length(2) [OF _ dval_ge_0 assms(6), of n t] assms(3,7) by simp
qed

text \<open>C2: \<open>numberToFixedWidthString\<close> returns, for \<open>decimalPlaces\<close> below \<open>2^31\<close> (the unsigned argument is passed on as
  an \<open>int\<close>, and larger values become negative there). For a finite number of magnitude below the double \<open>1e60\<close>, which is
  slightly less than \<open>10^60\<close>, and up to 60 decimals the text is
  a minus sign for a negative number, an integer part without superfluous zeros and, after a point, exactly the requested
  decimals, and its digits denote the exact value of the double times \<open>10^n\<close> rounded half up to an integer. Other finite numbers
  and more decimals give the empty text, NaN and the infinities their names. The text and NUL are written when they fit into
  the caller's buffer, and only then does the call stay inside the buffer.\<close>

theorem number_to_fixed:
  assumes "n < 2 ^ 31"
  shows "\<exists>txt. fixed_width_text d n txt \<and> numberToFixedWidthString d (of_nat n) u buffer
      = (if length txt < length buffer then Some (txt @ CHR 0x00 # drop (length txt + 1) buffer) else None)"
  using assms by (rule fixed_width_result)

theorem number_to_fixed_witness:
  "\<exists>txt. fixed_width_text 0xC00921FB54442D18 2 txt \<and> numberToFixedWidthString 0xC00921FB54442D18 (of_nat 2) sample_uninit (replicate 96 (CHR ''x''))
      = (if length txt < length (replicate 96 (CHR ''x'')) then Some (txt @ CHR 0x00 # drop (length txt + 1) (replicate 96 (CHR ''x''))) else None)"
  by (rule number_to_fixed) simp

text \<open>C18: the 96 characters of a \<open>NumberToStringBuffer\<close> are enough for the fixed notation with \<open>n\<close> decimals of numbers
  below \<open>10^p\<close> whenever \<open>p + n\<close> is at most 92; JavaScript's \<open>toFixed\<close> asks for at most 20 decimals of numbers below
  \<open>10^21\<close>.\<close>

theorem number_to_fixed_fits:
  assumes "dval (magnitude d) < 10 ^ p" "p + n \<le> 92" "length buffer = 96"
  shows "\<exists>txt. fixed_width_text d n txt \<and> numberToFixedWidthString d (of_nat n) u buffer = Some (txt @ CHR 0x00 # drop (length txt + 1) buffer)"
proof -
  have "n < 2 ^ 31" using assms(2) by simp
  from fixed_width_result [OF this, of d u buffer] show ?thesis using fixed_width_fits [OF _ assms(1,2)] assms(3) by auto
qed

lemma pi_negative: "magnitude 0xC00921FB54442D18 = 0x400921FB54442D18"
  by (simp add: magnitude_def)

theorem number_to_fixed_fits_witness:
  "\<exists>txt. fixed_width_text 0xC00921FB54442D18 20 txt \<and> numberToFixedWidthString 0xC00921FB54442D18 (of_nat 20) sample_uninit (replicate 96 (CHR ''x''))
      = Some (txt @ CHR 0x00 # drop (length txt + 1) (replicate 96 (CHR ''x'')))"
proof (rule number_to_fixed_fits)
  show "dval (magnitude 0xC00921FB54442D18) < 10 ^ 1" using pi_less unfolding pi_negative by simp
qed simp_all

text \<open>C19: the buffer is too small for what the function accepts: a finite number of magnitude from \<open>10^k\<close> on, still below
  the double \<open>1e60\<close>, with \<open>n\<close> decimals, \<open>1 \<le> n \<le> 60\<close>, and \<open>k + n\<close> at least 94 is written past the end of a \<open>NumberToStringBuffer\<close>.\<close>

theorem number_to_fixed_overflow:
  assumes "\<not> Double_IsSpecial d" "0 < n" "n \<le> 60" "uint (magnitude d) < uint kFirstNonFixed" "10 ^ k \<le> dval (magnitude d)" "94 \<le> k + n" "length buffer = 96"
  shows "numberToFixedWidthString d (of_nat n) u buffer = None"
proof -
  have "n < 2 ^ 31" using assms(3) by simp
  from fixed_width_result [OF this, of d u buffer] show ?thesis using fixed_width_overflows [OF _ assms(1-6)] assms(7) by auto
qed

theorem number_to_fixed_overflow_witness:
  "numberToFixedWidthString 0x4770000000000000 (of_nat 60) sample_uninit (replicate 96 (CHR ''x'')) = None"
proof (rule number_to_fixed_overflow)
  show "(10 :: real) ^ 36 \<le> dval (magnitude 0x4770000000000000)"
    by (simp add: magnitude_def dval_def Double_Significand_def Double_IsDenormal_def Double_Exponent_def)
qed (simp_all add: Double_IsSpecial_def magnitude_def)

end
