(* ===== verification/ConversionPrecision.thy ===== *)
theory ConversionPrecision
  imports ConversionProps
begin

text \<open>
  Notation with a given number of significant digits (\<open>ToPrecision\<close> and \<open>ToExponential\<close> of \<open>double-conversion.cc\<close>,
  \<open>numberToFixedPrecisionString\<close> and \<open>truncateTrailingZeros\<close> of \<open>dtoa.cpp\<close>).
\<close>

section \<open>Digits\<close>

definition digits_rounded :: "real \<Rightarrow> nat \<Rightarrow> string \<Rightarrow> int \<Rightarrow> bool" where
  "digits_rounded x r ds point \<longleftrightarrow> length ds = r \<and> (\<forall>c\<in>set ds. is_decimal c) \<and> 10 ^ (r - 1) \<le> decimal_value ds
    \<and> (\<exists>p. 10 powi (p - 1) \<le> x \<and> x < 10 powi p
         \<and> real (decimal_value ds) * 10 powi (point - int r) = of_int \<lfloor>x * 10 powi (int r - p) + 1 / 2\<rfloor> * 10 powi (p - int r))"

lemma rounded_point:
  assumes v: "finite_positive v" and d: "digits_rounded (dval v) r ds n" and r: "1 \<le> r"
  shows "\<bar>n - 1\<bar> < 1000"
proof -
  define y where "y = real (decimal_value ds) * 10 powi (n - int (length ds))"
  obtain p where p: "10 powi (p - 1) \<le> dval v" "y = of_int \<lfloor>dval v * 10 powi (int r - p) + 1 / 2\<rfloor> * 10 powi (p - int r)"
    and k: "1 \<le> length ds" "10 ^ (length ds - 1) \<le> decimal_value ds" "\<forall>c\<in>set ds. is_decimal c"
    using d r unfolding digits_rounded_def y_def by blast
  let ?q = "10 powi (p - int r) :: real"
  have q: "0 < ?q" "?q \<le> 10 powi (p - 1)" using r by (simp, intro power_int_increasing) simp_all
  have inv: "10 powi (int r - p) * ?q = (1 :: real)" using power_int_add [of "10 :: real" "int r - p" "p - int r"] by simp
  define f where "f = (of_int \<lfloor>dval v * 10 powi (int r - p) + 1 / 2\<rfloor> :: real)"
  have "dval v * 10 powi (int r - p) - 1 / 2 \<le> f" "f \<le> dval v * 10 powi (int r - p) + 1 / 2" unfolding f_def by linarith+
  then have "(dval v * 10 powi (int r - p) - 1 / 2) * ?q \<le> f * ?q" "f * ?q \<le> (dval v * 10 powi (int r - p) + 1 / 2) * ?q"
    using q(1) by (auto intro!: mult_right_mono)
  moreover have "(dval v * 10 powi (int r - p) - 1 / 2) * ?q = dval v - ?q / 2" "(dval v * 10 powi (int r - p) + 1 / 2) * ?q = dval v + ?q / 2"
    using inv by (simp_all add: left_diff_distrib distrib_right mult.assoc)
  ultimately have fy: "dval v - ?q / 2 \<le> y" "y \<le> dval v + ?q / 2" unfolding p(2) f_def by linarith+
  have "(2 :: real) ^ 1025 = 2 * 2 ^ 1024" by (simp only: power_Suc [symmetric]) simp
  then have y: "dval v / 2 \<le> y" "y < 2 ^ 1025" using fy q p(1) dval_range(2) [OF v] by linarith+
  show ?thesis by (rule point_bound [OF v y]) (use digits_range [OF k, of n] in \<open>simp_all only: y_def\<close>)
qed

lemma ascii_precision:
  assumes v: "\<not> Double_IsSpecial v0" "magnitude v0 \<noteq> 0" and r: "1 \<le> r" "r < length buf"
  shows "\<exists>ds tail n. DoubleToAscii v0 PRECISION (int r) buf len0 point0 = Some (Double_Sign v0 < 0, ds @ CHR 0x00 # tail, r, n)
    \<and> digits_rounded (dval (magnitude v0)) r ds n \<and> length (ds @ CHR 0x00 # tail) = length buf"
proof -
  let ?v = "magnitude v0"
  have fp: "finite_positive ?v" using magnitude_finite [OF v] .
  have key: "double_key ?v \<noteq> 0" using v(2) unfolding magnitude_key(1) uint_0_iff .
  have exact: "\<exists>ds n. BignumDtoa ?v BIGNUM_DTOA_PRECISION (int r) b = Some (ds @ CHR 0x00 # drop (r + 1) b, r, n) \<and> digits_rounded (dval ?v) r ds n
      \<and> length (ds @ CHR 0x00 # drop (r + 1) b) = length b" if "r < length b" for b
    using precision_exact [OF fp r(1) that] that unfolding digits_rounded_def by fastforce
  obtain ok buf' len point where f: "FastDtoa ?v FAST_DTOA_PRECISION (int r) buf point0 = Some (ok, buf', len, point)" "length buf' = length buf"
      "if ok then BignumDtoa ?v BIGNUM_DTOA_PRECISION (int r) buf = Some (buf', len, point) else point = point0 \<and> len \<le> r"
    using FastDtoa_precision [OF fp r, of point0] by blast
  show ?thesis
  proof (cases ok)
    case True
    from exact [OF r(2)] True f(3) obtain ds where "buf' = ds @ CHR 0x00 # drop (r + 1) buf" "len = r" "digits_rounded (dval ?v) r ds point" by auto
    then show ?thesis using f(1,2) True key r(1) unfolding DoubleToAscii_def Let_def magnitude_eq
      by (intro exI [of _ ds] exI [of _ "drop (r + 1) buf"] exI [of _ point]) simp
  next
    case False
    have "r < length buf'" using f(2) r by simp
    from exact [OF this] obtain ds n where b: "BignumDtoa ?v BIGNUM_DTOA_PRECISION (int r) buf' = Some (ds @ CHR 0x00 # drop (r + 1) buf', r, n)"
      "digits_rounded (dval ?v) r ds n" "length (ds @ CHR 0x00 # drop (r + 1) buf') = length buf'" by (elim exE conjE) (rule that)
    have "length ds = r" using b(2) by (simp add: digits_rounded_def)
    then have "bput (ds @ CHR 0x00 # drop (r + 1) buf') r (CHR 0x00) = Some (ds @ CHR 0x00 # drop (r + 1) buf')" by (auto simp: bput_def)
    then show ?thesis using f(1,2) b False key r(1) unfolding DoubleToAscii_def Let_def magnitude_eq
      by (intro exI [of _ ds] exI [of _ "drop (r + 1) buf'"] exI [of _ n]) (simp add: DtoaToBignumDtoaMode_def)
  qed
qed

section \<open>Notation\<close>

definition precision_text :: "string \<Rightarrow> int \<Rightarrow> string" where
  "precision_text ds n =
     (if n - 1 < - 6 \<or> int (length ds) \<le> n - 1 then exponential_notation EcmaScriptConverter ds (n - 1)
      else decimal_notation ds n (max 0 (int (length ds) - n)))"

definition precision_width_text :: "64 word \<Rightarrow> nat \<Rightarrow> string \<Rightarrow> bool" where
  "precision_width_text d r txt \<longleftrightarrow>
     (if Double_IsSpecial d then number_text d txt
      else if r < 1 \<or> 120 < r then txt = []
      else if magnitude d = 0 then txt = ''0'' @ (if r = 1 then [] else ''.'' @ zeros (int r - 1))
      else \<exists>ds n. digits_rounded (dval (magnitude d)) r ds n \<and> txt = sign_text d @ precision_text ds n)"

text \<open>The last step of \<open>ToPrecision\<close>: the choice of the notation for \<open>l\<close> digits.\<close>

definition precision_create :: "nat \<Rightarrow> Uninit \<Rightarrow> string \<Rightarrow> nat \<Rightarrow> int \<Rightarrow> StringBuilder \<Rightarrow> StringBuilder option" where
  "precision_create r u rep l n b =
     (if - n + 1 > max_leading_padding_zeroes_in_precision_mode EcmaScriptConverter
        \<or> n - int r + 0 > max_trailing_padding_zeroes_in_precision_mode EcmaScriptConverter
      then do { rep' \<leftarrow> fill_zeros rep l (nat (int r) - l); CreateExponentialRepresentation EcmaScriptConverter rep' (int r) (n - 1) u b }
      else CreateDecimalRepresentation EcmaScriptConverter rep (int l) n (max 0 (int r - n)) b)"

lemma precision_appends:
  assumes "length ds = r" "1 \<le> r" "\<bar>n - 1\<bar> < 1000"
  shows "appends (precision_create r u (ds @ rest) r n) (precision_text ds n)"
proof -
  have ne: "ds \<noteq> []" using assms(1,2) by auto
  have "max_leading_padding_zeroes_in_precision_mode EcmaScriptConverter = 6" "max_trailing_padding_zeroes_in_precision_mode EcmaScriptConverter = 0"
    by (simp_all add: EcmaScriptConverter_def)
  moreover have "fill_zeros (ds @ rest) r (nat (int r) - r) = Some (ds @ rest)" by simp
  moreover have "- n + 1 > 6 \<or> n - int r + 0 > 0 \<longleftrightarrow> n - 1 < - 6 \<or> int (length ds) \<le> n - 1" using assms(1) by auto
  moreover have "appends (CreateExponentialRepresentation EcmaScriptConverter (ds @ rest) (int r) (n - 1) u) (exponential_notation EcmaScriptConverter ds (n - 1))"
    using CreateExponentialRepresentation_text [OF ne, of "n - 1" EcmaScriptConverter rest u] assms(1,3) by simp
  moreover have "appends (CreateDecimalRepresentation EcmaScriptConverter (ds @ rest) (int r) n (max 0 (int r - n))) (decimal_notation ds n (max 0 (int (length ds) - n)))"
    using CreateDecimalRepresentation_text [OF ecma_flags(3,4), of ds rest n "max 0 (int r - n)"] assms(1) by simp
  ultimately show ?thesis unfolding precision_create_def [abs_def] precision_text_def by (cases "n - 1 < - 6 \<or> int (length ds) \<le> n - 1") simp_all
qed

lemma precision_text_length:
  assumes "length ds = r" "1 \<le> r" "\<bar>n - 1\<bar> < 1000"
  shows "length (precision_text ds n) \<le> r + 7"
proof -
  have "nat \<bar>n - 1\<bar> < 1000" using assms(3) by simp
  from decimal_of_length [OF this] show ?thesis using assms(1,2) by (auto simp: precision_text_def exponential_notation_def decimal_notation_def nat_le_iff)
qed

lemma precision_digits:
  assumes d: "\<not> Double_IsSpecial d" "1 \<le> r" "r \<le> 120" and len: "length buf = 121"
  shows "\<exists>rep l n t. DoubleToAscii d PRECISION (int r) buf len0 point0 = Some (Double_Sign d < 0, rep, l, n) \<and> appends (precision_create r u rep l n) t
    \<and> length t \<le> r + 7 \<and> precision_width_text d r ((if magnitude d = 0 then [] else sign_text d) @ t)"
proof (cases "magnitude d = 0")
  case True
  let ?t = "decimal_notation ''0'' 1 (max 0 (int r - 1))" and ?rep = "''0'' @ CHR 0x00 # drop 2 buf"
  have t: "?t = ''0'' @ (if r = 1 then [] else ''.'' @ zeros (int r - 1))" using d by (simp add: decimal_notation_def)
  have "appends (precision_create r u ?rep 1 1) ?t"
    using CreateDecimalRepresentation_text [OF ecma_flags(3,4), of "''0''" "CHR 0x00 # drop 2 buf" 1 "max 0 (int r - 1)"] d
    by (simp add: precision_create_def [abs_def] EcmaScriptConverter_def)
  moreover have "length ?t \<le> r + 7" unfolding t by auto
  moreover have "precision_width_text d r ?t" using True d t by (auto simp: precision_width_text_def)
  ultimately show ?thesis using ascii_zero [OF True, of buf PRECISION "int r" len0 point0] len d True
    by (intro exI [of _ ?rep] exI [of _ 1] exI [of _ "1 :: int"] exI [of _ ?t]) simp
next
  case False
  obtain ds tail n where f: "DoubleToAscii d PRECISION (int r) buf len0 point0 = Some (Double_Sign d < 0, ds @ CHR 0x00 # tail, r, n)"
    "digits_rounded (dval (magnitude d)) r ds n" using ascii_precision [OF d(1) False d(2), of buf len0 point0] len d(3) by auto
  have n: "\<bar>n - 1\<bar> < 1000" "length ds = r" using rounded_point [OF magnitude_finite [OF d(1) False] f(2) d(2)] f(2) by (simp_all add: digits_rounded_def)
  have "precision_width_text d r (sign_text d @ precision_text ds n)" using False d f(2) by (auto simp: precision_width_text_def)
  then show ?thesis using f(1) precision_appends [OF n(2) d(2) n(1)] precision_text_length [OF n(2) d(2) n(1)] False
    by (intro exI [of _ "ds @ CHR 0x00 # tail"] exI [of _ r] exI [of _ n] exI [of _ "precision_text ds n"]) simp
qed

lemma ToPrecision_text:
  assumes b: "sb_ok b" and r: "r < 2 ^ 31"
  shows "\<exists>ok txt. precision_width_text d r txt \<and> length txt \<le> r + 9 \<and> ToPrecision EcmaScriptConverter d (int r) u b = do { b' \<leftarrow> add_text b txt; Some (ok, b') }"
proof -
  consider "Double_IsSpecial d" | "\<not> Double_IsSpecial d" "r < 1 \<or> 120 < r" | "\<not> Double_IsSpecial d" "1 \<le> r" "r \<le> 120" by linarith
  then show ?thesis
  proof cases
    case 1
    from special_text [OF 1 b] obtain t where "number_text d t" "length t \<le> 9"
      "HandleSpecialValues EcmaScriptConverter d b = do { b' \<leftarrow> add_text b t; Some (True, b') }" by blast
    then show ?thesis using 1 by (intro exI [of _ True] exI [of _ t]) (simp add: ToPrecision_def precision_width_text_def)
  next
    case 2
    then have "ToPrecision EcmaScriptConverter d (int r) u b = Some (False, b)" unfolding ToPrecision_def by auto
    then show ?thesis using 2 by (intro exI [of _ False] exI [of _ "[]"]) (simp add: precision_width_text_def)
  next
    case 3
    let ?rep = "uninit_array u (kMaxPrecisionDigits + 1)" and ?s = "if magnitude d = 0 then [] else sign_text d"
    have len: "length ?rep = 121" by (simp add: uninit_array_def)
    have flag: "(if has_flag EcmaScriptConverter EMIT_TRAILING_ZERO_AFTER_POINT then 1 else 0) = (0 :: int)" by (simp add: ecma_flags)
    obtain rep l n t where a: "DoubleToAscii d PRECISION (int r) ?rep (u_length u) (u_point u) = Some (Double_Sign d < 0, rep, l, n)"
        "appends (precision_create r u rep l n) t" "length t \<le> r + 7" "precision_width_text d r (?s @ t)"
      using precision_digits [OF 3 len, of "u_length u" "u_point u" u] by (elim exE conjE) (rule that)
    have app: "add_sign EcmaScriptConverter (Double_Sign d < 0) d b \<bind> precision_create r u rep l n = add_text b (?s @ t)"
      using appends_step [OF sign_appends [of d] a(2)] b unfolding appends_def by blast
    have "\<not> (int r < 1 \<or> int r > 120)" using 3 by simp
    then have "ToPrecision EcmaScriptConverter d (int r) u b = do { b' \<leftarrow> add_text b (?s @ t); Some (True, b') }"
      unfolding ToPrecision_def a(1) app [symmetric] bind_assoc Let_def flag precision_create_def using 3(1) by simp
    moreover have "length (?s @ t) \<le> r + 9" using a(3) by (simp add: sign_text_def)
    ultimately show ?thesis using a(4) by blast
  qed
qed

section \<open>Trailing zeros\<close>

text \<open>Reference definition: the zeros at the end of the decimals, before an exponent, are dropped, and the point with them when no decimal is left.\<close>

definition without_zeros :: "string \<Rightarrow> string" where
  "without_zeros m = rev (dropWhile (\<lambda>c. c = CHR ''0'') (rev m))"

definition truncate_zeros :: "string \<Rightarrow> string" where
  "truncate_zeros t =
     (let ip = takeWhile (\<lambda>c. c \<noteq> CHR ''.'') t; rest = dropWhile (\<lambda>c. c \<noteq> CHR ''.'') t in
      if rest = [] then t
      else let m = takeWhile (\<lambda>c. c \<noteq> CHR ''e'') (tl rest); x = dropWhile (\<lambda>c. c \<noteq> CHR ''e'') (tl rest)
           in ip @ (if without_zeros m = [] \<and> m \<noteq> [] then [] else CHR ''.'' # without_zeros m) @ x)"

lemma without_zeros_snoc: "without_zeros (m @ [c]) = (if c = CHR ''0'' then without_zeros m else m @ [c])"
  by (simp add: without_zeros_def)

lemma without_zeros_append: "\<exists>k. m = without_zeros m @ replicate k (CHR ''0'')"
proof (induction m rule: rev_induct)
  case Nil
  then show ?case by (simp add: without_zeros_def)
next
  case (snoc c m)
  then obtain k where k: "m = without_zeros m @ replicate k (CHR ''0'')" ..
  show ?case
  proof (cases "c = CHR ''0''")
    case True
    have "m @ [c] = without_zeros m @ replicate (Suc k) (CHR ''0'')" using k True by (metis append.assoc replicate_append_same replicate_Suc)
    then show ?thesis using True unfolding without_zeros_snoc by (intro exI [of _ "Suc k"]) simp
  next
    case False
    then show ?thesis unfolding without_zeros_snoc by (intro exI [of _ 0]) simp
  qed
qed

lemma strip_loop_zeros_correct: "strip_loop_zeros (p @ m @ s) (length p) (length p + length m) = length p + length (without_zeros m)"
proof (induction m arbitrary: s rule: rev_induct)
  case Nil
  have "strip_loop_zeros buffer k k = k" for buffer k by (cases k) simp_all
  then show ?case by (simp add: without_zeros_def)
next
  case (snoc c m)
  have "(p @ (m @ [c]) @ s) ! (length p + length m) = c" by (metis append.assoc append_Cons length_append nth_append_length)
  then show ?case using snoc [of "c # s"] by (auto simp: without_zeros_snoc)
qed

lemma split_at:
  "takeWhile (\<lambda>x. x \<noteq> c) t @ dropWhile (\<lambda>x. x \<noteq> c) t = t" "c \<notin> set (takeWhile (\<lambda>x. x \<noteq> c) t)"
  "dropWhile (\<lambda>x. x \<noteq> c) t = [] \<or> hd (dropWhile (\<lambda>x. x \<noteq> c) t) = c"
  using hd_dropWhile [of "\<lambda>x. x \<noteq> c" t] by (auto dest: set_takeWhileD simp del: dropWhile_eq_Nil_conv)

lemma find_char_correct:
  assumes "c \<notin> set m" "x = [] \<or> hd x = c"
  shows "find_char c (p @ m @ x @ s) (length p) (length p + length m + length x) = length p + length m"
proof -
  have "takeWhile (\<lambda>y. y \<noteq> c) (m @ x) = m @ takeWhile (\<lambda>y. y \<noteq> c) x" using assms(1) by (intro takeWhile_append2) auto
  moreover have "takeWhile (\<lambda>y. y \<noteq> c) x = []" using assms(2) by (cases x) auto
  ultimately have "takeWhile (\<lambda>y. y \<noteq> c) (m @ x) = m" by simp
  then show ?thesis by (simp add: find_char_def)
qed

lemma RemoveCharacters_moved:
  assumes "length t = e + length x" "drop e t = x" "start \<le> e"
  shows "RemoveCharacters \<lparr>sb_buffer = t @ rest, sb_position = int (length t)\<rparr> start e
    = Some \<lparr>sb_buffer = take start t @ x @ drop (start + length x) (t @ rest), sb_position = int (start + length x)\<rparr>"
proof -
  have "take start (t @ rest) = take start t" "take (length x) (drop e (t @ rest)) = x" using assms by simp_all
  moreover have "nat (int (length t)) - e = length x" "\<not> (int (length t) < int e)" "int (length t) - int (e - start) = int (start + length x)" using assms by simp_all
  ultimately show ?thesis using assms(3) by (simp add: RemoveCharacters_def)
qed

lemma truncate_builder:
  "\<exists>rest'. truncateTrailingZeros \<lparr>sb_buffer = t @ rest, sb_position = int (length t)\<rparr>
      = Some \<lparr>sb_buffer = truncate_zeros t @ rest', sb_position = int (length (truncate_zeros t))\<rparr> \<and> length (truncate_zeros t @ rest') = length (t @ rest)"
proof -
  define ip r where "ip = takeWhile (\<lambda>c. c \<noteq> CHR ''.'') t" and "r = dropWhile (\<lambda>c. c \<noteq> CHR ''.'') t"
  have t: "t = ip @ r" "CHR ''.'' \<notin> set ip" "r = [] \<or> hd r = CHR ''.''" unfolding ip_def r_def using split_at [of "CHR ''.''" t] by simp_all
  have dot: "find_char (CHR ''.'') (t @ rest) 0 (length t) = length ip" using find_char_correct [OF t(2,3), of "[]" rest] t(1) by simp
  show ?thesis
  proof (cases "r = []")
    case True
    then have "truncate_zeros t = t" unfolding truncate_zeros_def Let_def r_def by simp
    then show ?thesis using dot t(1) True by (intro exI [of _ rest]) (simp add: truncateTrailingZeros_def)
  next
    case False
    define m x where "m = takeWhile (\<lambda>c. c \<noteq> CHR ''e'') (tl r)" and "x = dropWhile (\<lambda>c. c \<noteq> CHR ''e'') (tl r)"
    have m: "tl r = m @ x" "CHR ''e'' \<notin> set m" "x = [] \<or> hd x = CHR ''e''" unfolding m_def x_def using split_at [of "CHR ''e''" "tl r"] by simp_all
    have tt: "t = (ip @ ''.'') @ m @ x" using t(1,3) m(1) False by (cases r) auto
    let ?d = "length ip" and ?w = "without_zeros m"
    have past: "find_char (CHR ''e'') (t @ rest) (?d + 1) (length t) = ?d + 1 + length m"
      using find_char_correct [OF m(2,3), of "ip @ ''.''" rest] tt by (simp add: add.assoc)
    have loop: "strip_loop_zeros (t @ rest) (?d + 1) (?d + 1 + length m) = ?d + 1 + length ?w"
      using strip_loop_zeros_correct [of "ip @ ''.''" m "x @ rest"] tt by simp
    obtain k where k: "m = ?w @ replicate k (CHR ''0'')" using without_zeros_append by blast
    have spec: "truncate_zeros t = ip @ (if ?w = [] \<and> m \<noteq> [] then [] else CHR ''.'' # ?w) @ x"
      using False unfolding truncate_zeros_def Let_def ip_def [symmetric] r_def [symmetric] m_def [symmetric] x_def [symmetric] by simp
    define start where "start = (if ?w = [] then ?d else ?d + 1 + length ?w)"
    have code: "truncateTrailingZeros \<lparr>sb_buffer = t @ rest, sb_position = int (length t)\<rparr> = (if k = 0 then Some \<lparr>sb_buffer = t @ rest, sb_position = int (length t)\<rparr>
        else RemoveCharacters \<lparr>sb_buffer = t @ rest, sb_position = int (length t)\<rparr> start (?d + 1 + length m))"
    proof -
      have "length ip \<noteq> length t" "(?d + 1 + length ?w = ?d + 1 + length m) = (k = 0)" "(?d + 1 + length ?w = ?d + 1) = (?w = [])"
        using tt arg_cong [OF k, of length] by simp_all
      then show ?thesis unfolding truncateTrailingZeros_def Let_def StringBuilder.simps nat_int dot past loop start_def by (simp only: if_False)
    qed
    show ?thesis
    proof (cases "k = 0")
      case True
      then have "truncate_zeros t = t" using k spec tt by auto
      then show ?thesis using code True by (intro exI [of _ rest]) simp
    next
      case False
      moreover have "take (length ?w) m = ?w" "length ?w \<le> length m" using arg_cong [OF k, of "take (length ?w)"] arg_cong [OF k, of length] by simp_all
      moreover have "m \<noteq> []" using False k by (metis append_is_Nil_conv replicate_empty)
      ultimately have "truncate_zeros t = take start t @ x" "start \<le> ?d + 1 + length m" using spec tt unfolding start_def by auto
      moreover have "RemoveCharacters \<lparr>sb_buffer = t @ rest, sb_position = int (length t)\<rparr> start (?d + 1 + length m)
          = Some \<lparr>sb_buffer = take start t @ x @ drop (start + length x) (t @ rest), sb_position = int (start + length x)\<rparr>"
        by (rule RemoveCharacters_moved) (use calculation(2) tt in simp_all)
      moreover have "length t = ?d + 1 + length m + length x" using tt by simp
      ultimately show ?thesis using code False by (intro exI [of _ "drop (start + length x) (t @ rest)"]) (simp del: drop_append)
    qed
  qed
qed

lemma truncate_zeros_length: "length (truncate_zeros t) \<le> length t"
  using truncate_builder [of t "[]"] by auto

lemma finalize_text:
  assumes "length s < length (s @ rest)"
  shows "\<exists>tail. Finalize \<lparr>sb_buffer = s @ rest, sb_position = int (length s)\<rparr> = Some \<lparr>sb_buffer = s @ CHR 0x00 # tail, sb_position = - 1\<rparr>
    \<and> length (s @ CHR 0x00 # tail) = length (s @ rest)"
  using assms by (cases rest) (simp_all add: Finalize_def bput_def)

lemma precision_result:
  assumes r: "r < 2 ^ 31" and buf: "r + 10 \<le> length buffer"
  shows "\<exists>txt tail. precision_width_text d r txt \<and> length txt \<le> r + 9
    \<and> numberToFixedPrecisionString d (of_nat r) u buffer trunc = Some ((if trunc then truncate_zeros txt else txt) @ CHR 0x00 # tail)
    \<and> length ((if trunc then truncate_zeros txt else txt) @ CHR 0x00 # tail) = length buffer"
proof -
  obtain ok t where t: "precision_width_text d r t" "length t \<le> r + 9"
    "ToPrecision EcmaScriptConverter d (int r) u (StringBuilder_new buffer) = do { b' \<leftarrow> add_text (StringBuilder_new buffer) t; Some (ok, b') }"
    using ToPrecision_text [OF builder_ok r] by blast
  let ?s = "if trunc then truncate_zeros t else t"
  have add: "add_text (StringBuilder_new buffer) t = Some \<lparr>sb_buffer = t @ drop (length t) buffer, sb_position = int (length t)\<rparr>"
    using t(2) buf unfolding add_text_eq [OF builder_ok] by (simp add: StringBuilder_new_def)
  obtain rest where rest: "(if trunc then truncateTrailingZeros \<lparr>sb_buffer = t @ drop (length t) buffer, sb_position = int (length t)\<rparr>
        else Some \<lparr>sb_buffer = t @ drop (length t) buffer, sb_position = int (length t)\<rparr>)
      = Some \<lparr>sb_buffer = ?s @ rest, sb_position = int (length ?s)\<rparr>" "length (?s @ rest) = length buffer"
    using truncate_builder [of t "drop (length t) buffer"] t(2) buf by (cases trunc) auto
  have "length ?s < length (?s @ rest)" using rest(2) truncate_zeros_length [of t] t(2) buf by auto
  from finalize_text [OF this] obtain tail where
    "Finalize \<lparr>sb_buffer = ?s @ rest, sb_position = int (length ?s)\<rparr> = Some \<lparr>sb_buffer = ?s @ CHR 0x00 # tail, sb_position = - 1\<rparr>"
    "length (?s @ CHR 0x00 # tail) = length (?s @ rest)" by (elim exE conjE) (rule that)
  then show ?thesis using t(1,2) rest add unfolding numberToFixedPrecisionString_def sint_of_nat32 [OF r] t(3) by (intro exI [of _ t] exI [of _ tail]) simp
qed

text \<open>C5: \<open>numberToFixedPrecisionString\<close> with \<open>r\<close> significant digits returns without leaving a buffer of \<open>r + 10\<close> characters. For a finite
  number other than zero and up to 120 digits the text shows, with its sign and in the notation that ECMAScript's \<open>toPrecision\<close>
  chooses, exactly \<open>r\<close> digits, the first not zero, that are the exact value rounded half up at the last of them; on request without the
  zeros at the end of the decimals. Other precisions give the empty text.\<close>

theorem number_to_precision:
  assumes "r < 2 ^ 31" "r + 10 \<le> length buffer"
  shows "\<exists>txt tail. precision_width_text d r txt \<and> length txt \<le> r + 9
    \<and> numberToFixedPrecisionString d (of_nat r) u buffer trunc = Some ((if trunc then truncate_zeros txt else txt) @ CHR 0x00 # tail)
    \<and> length ((if trunc then truncate_zeros txt else txt) @ CHR 0x00 # tail) = length buffer"
  using assms by (rule precision_result)

theorem number_to_precision_witness:
  "\<exists>txt tail. precision_width_text 0xC00921FB54442D18 6 txt \<and> length txt \<le> 6 + 9
    \<and> numberToFixedPrecisionString 0xC00921FB54442D18 (of_nat 6) sample_uninit (replicate 96 (CHR ''x'')) True = Some (truncate_zeros txt @ CHR 0x00 # tail)
    \<and> length (truncate_zeros txt @ CHR 0x00 # tail) = 96"
  using number_to_precision [of 6 "replicate 96 (CHR ''x'')" "0xC00921FB54442D18" sample_uninit True] unfolding if_True length_replicate by simp

section \<open>The longest text\<close>

lemma powi_between: "10 powi (p - 1) \<le> x \<Longrightarrow> x < 10 powi p \<Longrightarrow> 10 powi (q - 1) \<le> x \<Longrightarrow> x < 10 powi q \<Longrightarrow> p = (q :: int)" for x :: real
  using power_int_increasing [of p "q - 1" "10 :: real"] power_int_increasing [of q "p - 1" "10 :: real"] by linarith

lemma small_sample:
  "\<not> Double_IsSpecial 0xBEC0000000000000" "magnitude 0xBEC0000000000000 \<noteq> 0" "dval (magnitude 0xBEC0000000000000) = 1 / 2 ^ 19" "Double_Sign 0xBEC0000000000000 < 0"
  by (simp_all add: Double_IsSpecial_def magnitude_def dval_def Double_Significand_def Double_Exponent_def Double_IsDenormal_def Double_Sign_def power_int_def power_one_over)

lemma small_sample_point:
  assumes "digits_rounded (1 / 2 ^ 19) 120 ds n"
  shows "n = - 5"
proof -
  note a = assms [unfolded digits_rounded_def]
  have ds: "1 \<le> length ds" "10 ^ (length ds - 1) \<le> decimal_value ds" "\<forall>c\<in>set ds. is_decimal c" "length ds = 120"
    using a [THEN conjunct1] a [THEN conjunct2, THEN conjunct2, THEN conjunct1] a [THEN conjunct2, THEN conjunct1] by simp_all
  obtain p where p: "10 powi (p - 1) \<le> (1 / 2 ^ 19 :: real)" "1 / 2 ^ 19 < (10 powi p :: real)"
      "real (decimal_value ds) * 10 powi (n - int 120) = of_int \<lfloor>(1 / 2 ^ 19 :: real) * 10 powi (int 120 - p) + 1 / 2\<rfloor> * 10 powi (p - int 120)"
    using a by blast
  have b: "10 powi ((- 5) - 1) \<le> (1 / 2 ^ 19 :: real)" "1 / 2 ^ 19 < (10 powi (- 5) :: real)" by (simp_all add: power_int_def power_one_over)
  from powi_between [OF p(1,2) b] have "p = - 5" .
  moreover have "of_int \<lfloor>(1 / 2 ^ 19 :: real) * 10 powi (int 120 - (- 5)) + 1 / 2\<rfloor> * 10 powi ((- 5) - int 120) = (1 / 2 ^ 19 :: real)"
    by (simp add: power_int_def power_one_over)
  ultimately have v: "real (decimal_value ds) * 10 powi (n - int (length ds)) = 1 / 2 ^ 19" using p(3) ds(4) by simp
  from powi_between [OF digits_range [OF ds(1-3), of n, unfolded v] b] show ?thesis .
qed

text \<open>The text of \<open>ToPrecision\<close> may have 8 characters more than the requested digits: \<open>-2^(-19)\<close> is shown with six zeros before its 120 digits.\<close>

lemma precision_longest:
  assumes "precision_width_text 0xBEC0000000000000 120 txt"
  shows "length txt = 128"
proof -
  obtain ds n where t: "digits_rounded (1 / 2 ^ 19) 120 ds n" "txt = sign_text 0xBEC0000000000000 @ precision_text ds n"
    using assms small_sample unfolding precision_width_text_def by auto
  have "n = - 5" "length ds = 120" using small_sample_point [OF t(1)] t(1) by (simp_all add: digits_rounded_def)
  then show ?thesis using t(2) small_sample(4) by (simp add: precision_text_def decimal_notation_def sign_text_def)
qed

section \<open>Exponential notation\<close>

text \<open>The request \<open>-1\<close> asks for as many digits as the number needs.\<close>

definition exponential_width_text :: "64 word \<Rightarrow> int \<Rightarrow> string \<Rightarrow> bool" where
  "exponential_width_text d f txt \<longleftrightarrow>
     (if Double_IsSpecial d then number_text d txt
      else if f < - 1 \<or> 120 < f then txt = []
      else if magnitude d = 0 then txt = exponential_notation EcmaScriptConverter (zeros (max 1 (f + 1))) 0
      else \<exists>ds n. txt = sign_text d @ exponential_notation EcmaScriptConverter ds (n - 1)
        \<and> (if f = - 1 then shortest_repr (magnitude d) ds n else digits_rounded (dval (magnitude d)) (nat (f + 1)) ds n))"

lemma fill_zeros_eq: "i + k \<le> length buf \<Longrightarrow> fill_zeros buf i k = Some (take i buf @ replicate k (CHR ''0'') @ drop (i + k) buf)"
proof (induction k arbitrary: buf i)
  case (Suc k)
  have "take (i + 1) (buf[i := CHR ''0'']) = take i buf @ [CHR ''0'']" using Suc.prems by (simp add: take_Suc_conv_app_nth)
  then show ?case using Suc.IH [of "i + 1" "buf[i := CHR ''0'']"] Suc.prems by (simp add: bput_def)
qed simp

text \<open>The digits of \<open>ToExponential\<close>, filled up with zeros.\<close>

lemma exponential_digits:
  assumes d: "\<not> Double_IsSpecial d" and f: "- 1 \<le> f" "f \<le> 120" and len: "length rep = 122"
  shows "\<exists>ds rest n. (if f = - 1 then do { (sign, rep1, len1, point1) \<leftarrow> DoubleToAscii d SHORTEST 0 rep len0 point0; Some (sign, rep1, int len1, point1) }
        else do { (sign, rep1, len1, point1) \<leftarrow> DoubleToAscii d PRECISION (f + 1) rep len0 point0;
                  rep2 \<leftarrow> fill_zeros rep1 len1 (nat (f + 1) - len1); Some (sign, rep2, f + 1, point1) })
      = Some (Double_Sign d < 0, ds @ rest, int (length ds), n) \<and> ds \<noteq> [] \<and> \<bar>n - 1\<bar> < 1000
    \<and> (if magnitude d = 0 then ds = zeros (max 1 (f + 1)) \<and> n = 1
       else if f = - 1 then shortest_repr (magnitude d) ds n else digits_rounded (dval (magnitude d)) (nat (f + 1)) ds n)"
proof (cases "magnitude d = 0")
  case True
  have z: "DoubleToAscii d mode rd rep len0 point0 = Some (Double_Sign d < 0, ''0'' @ CHR 0x00 # drop 2 rep, 1, 1)" if "mode \<noteq> PRECISION \<or> rd \<noteq> 0" for mode rd
    using ascii_zero [OF True _ that] len by simp
  show ?thesis
  proof (cases "f = - 1")
    case False
    define k where "k = nat f"
    then have k: "f = int k" "k \<le> 120" using False f by simp_all
    let ?b = "''0'' @ CHR 0x00 # drop 2 rep"
    have "1 + k \<le> length ?b" using len k(2) by simp
    from fill_zeros_eq [OF this] have "fill_zeros ?b 1 k = Some (zeros (int k + 1) @ drop (1 + k) ?b)" by (simp add: nat_add_distrib)
    then show ?thesis using True False k z [of PRECISION "f + 1"]
      by (intro exI [of _ "zeros (int k + 1)"] exI [of _ "drop (1 + k) ?b"] exI [of _ "1 :: int"]) (simp add: nat_add_distrib)
  qed (use True z [of SHORTEST 0] in \<open>intro exI [of _ "''0''"] exI [of _ "CHR 0x00 # drop 2 rep"] exI [of _ "1 :: int"], simp\<close>)
next
  case False
  note fp = magnitude_finite [OF d False]
  show ?thesis
  proof (cases "f = - 1")
    case True
    obtain ds tail n where a: "DoubleToAscii d SHORTEST 0 rep len0 point0 = Some (Double_Sign d < 0, ds @ CHR 0x00 # tail, length ds, n)" "shortest_repr (magnitude d) ds n"
      using ascii_shortest [OF d False, of rep 0 len0 point0] len by auto
    moreover have "ds \<noteq> []" using a(2) by (auto simp: shortest_repr_def)
    ultimately show ?thesis using True False shortest_point [OF fp a(2)]
      by (intro exI [of _ ds] exI [of _ "CHR 0x00 # tail"] exI [of _ n]) simp
  next
    case other: False
    define r where "r = nat (f + 1)"
    have r: "f + 1 = int r" "1 \<le> r" "r < length rep" using other f len by (auto simp: r_def)
    obtain ds tail n where a: "DoubleToAscii d PRECISION (int r) rep len0 point0 = Some (Double_Sign d < 0, ds @ CHR 0x00 # tail, r, n)"
      "digits_rounded (dval (magnitude d)) r ds n" using ascii_precision [OF d False r(2,3), of len0 point0] by blast
    have "length ds = r" using a(2) by (simp add: digits_rounded_def)
    then show ?thesis using other False a r rounded_point [OF fp a(2) r(2)]
      by (intro exI [of _ ds] exI [of _ "CHR 0x00 # tail"] exI [of _ n]) auto
  qed
qed

lemma ToExponential_text:
  assumes b: "sb_ok b"
  shows "\<exists>ok txt. exponential_width_text d f txt \<and> ToExponential EcmaScriptConverter d f u b = do { b' \<leftarrow> add_text b txt; Some (ok, b') }"
proof -
  consider "Double_IsSpecial d" | "\<not> Double_IsSpecial d" "f < - 1 \<or> 120 < f" | "\<not> Double_IsSpecial d" "- 1 \<le> f" "f \<le> 120" by linarith
  then show ?thesis
  proof cases
    case 1
    from special_text [OF 1 b] obtain t where "number_text d t"
      "HandleSpecialValues EcmaScriptConverter d b = do { b' \<leftarrow> add_text b t; Some (True, b') }" by blast
    then show ?thesis using 1 by (intro exI [of _ True] exI [of _ t]) (simp add: ToExponential_def exponential_width_text_def)
  next
    case 2
    then have "ToExponential EcmaScriptConverter d f u b = Some (False, b)" unfolding ToExponential_def by auto
    then show ?thesis using 2 by (intro exI [of _ False] exI [of _ "[]"]) (simp add: exponential_width_text_def)
  next
    case 3
    let ?rep = "uninit_array u (kMaxExponentialDigits + 2)" and ?s = "if magnitude d = 0 then [] else sign_text d"
    have len: "length ?rep = 122" by (simp add: uninit_array_def)
    from exponential_digits [OF 3 len, of "u_length u" "u_point u"] obtain ds rest n where
      a: "(if f = - 1 then do { (sign, rep1, len1, point1) \<leftarrow> DoubleToAscii d SHORTEST 0 ?rep (u_length u) (u_point u); Some (sign, rep1, int len1, point1) }
        else do { (sign, rep1, len1, point1) \<leftarrow> DoubleToAscii d PRECISION (f + 1) ?rep (u_length u) (u_point u);
                  rep2 \<leftarrow> fill_zeros rep1 len1 (nat (f + 1) - len1); Some (sign, rep2, f + 1, point1) })
        = Some (Double_Sign d < 0, ds @ rest, int (length ds), n)" "ds \<noteq> []" "\<bar>n - 1\<bar> < 1000"
      "if magnitude d = 0 then ds = zeros (max 1 (f + 1)) \<and> n = 1
       else if f = - 1 then shortest_repr (magnitude d) ds n else digits_rounded (dval (magnitude d)) (nat (f + 1)) ds n" by (elim exE conjE) (rule that)
    let ?t = "exponential_notation EcmaScriptConverter ds (n - 1)"
    have n: "\<bar>n - 1\<bar> < 10 ^ 5" using a(3) by simp
    have app: "add_sign EcmaScriptConverter (Double_Sign d < 0) d b \<bind> CreateExponentialRepresentation EcmaScriptConverter (ds @ rest) (int (length ds)) (n - 1) u
        = add_text b (?s @ ?t)"
      using appends_step [OF sign_appends [of d] CreateExponentialRepresentation_text [OF a(2) n]] b unfolding appends_def by blast
    have "\<not> f < - 1" "\<not> f > 120" using 3 by simp_all
    then have "ToExponential EcmaScriptConverter d f u b = do { b' \<leftarrow> add_text b (?s @ ?t); Some (True, b') }"
      unfolding ToExponential_def Let_def a(1) app [symmetric] bind_assoc using 3(1) by simp
    moreover have "exponential_width_text d f (?s @ ?t)"
      using 3 a(4) unfolding exponential_width_text_def by (cases "magnitude d = 0") (simp_all split: if_splits, blast+)
    ultimately show ?thesis by blast
  qed
qed

text \<open>C20: \<open>ToExponential\<close> on a new builder for a buffer writes at its start, when it fits, the exponential notation of the number: its sign, and either
  as many digits as the shortest representation needs or the requested digits after the point, rounded half up at the last of them, zero
  shown as zeros. Without room for the text the call leaves the buffer.\<close>

theorem number_to_exponential:
  "\<exists>ok txt. exponential_width_text d f txt \<and> ToExponential EcmaScriptConverter d f u (StringBuilder_new buffer)
      = (if length txt \<le> length buffer then Some (ok, \<lparr>sb_buffer = txt @ drop (length txt) buffer, sb_position = int (length txt)\<rparr>) else None)"
proof -
  obtain ok t where "exponential_width_text d f t"
    "ToExponential EcmaScriptConverter d f u (StringBuilder_new buffer) = do { b' \<leftarrow> add_text (StringBuilder_new buffer) t; Some (ok, b') }"
    using ToExponential_text [OF builder_ok] by blast
  then show ?thesis unfolding add_text_eq [OF builder_ok] by (intro exI [of _ ok] exI [of _ t]) (simp add: StringBuilder_new_def)
qed

end
