(* ===== verification/Spec2Isabelle.thy ===== *)
theory Spec2Isabelle
  imports ArraySort TimeScale UHashStrings Utf8 PropsCompact ConversionFixed ConversionPrecision
begin

text \<open>
  A verification library for the self-contained cores of JSC.js, a build of the JavaScriptCore engine
  for the browser: the C routines of its copy of ICU (\<open>Source/icu\<close>) and the conversion of numbers
  to text in WTF (\<open>Source/WTF/wtf/dtoa\<close>).

  \<^bold>\<open>The program.\<close> The engine (\<open>Source/JavaScriptCore\<close>) rests on WTF (\<open>Source/WTF\<close>), which
  rests on ICU. Every \<open>Number.prototype.toString\<close>, \<open>toFixed\<close> and \<open>toPrecision\<close> ends in the dtoa
  directory, whose exact path computes with the big integers of \<open>bignum.cc\<close>; ICU's services share the
  hash table of \<open>uhash.c\<close>, the array sort of \<open>uarrsort.c\<close>, the string helpers of \<open>cstring.c\<close>, the
  UTF-8 accessors of \<open>utf_impl.c\<close> and the properties vectors of \<open>propsvec.c\<close>. The hash table calls
  the string hashes and comparators through function pointers; the digit generators call the big
  integers.

  \<^bold>\<open>Theories and sources.\<close>
  \<^item> \<open>Prelude\<close>: error codes, fixed-width integers, \<open>memmove\<close>, permutations inside a segment, bit
    lengths, and the locale \<open>comparator\<close> (the contract of a three-way comparison).
  \<^item> \<open>ArraySort\<close> (\<open>icu/uarrsort.c\<close>): binary search, insertion sort, quick sort and \<open>uprv_sortArray\<close>;
    locale \<open>sort_client\<close>, interpreted on the comparators of the file.
  \<^item> \<open>TimeScale\<close> (\<open>icu/utmscale.c\<close>): the table of time scales and the two conversions, with their
    64-bit arithmetic.
  \<^item> \<open>TablePrimes\<close>, \<open>UHash\<close>, \<open>UHashCorrect\<close>, \<open>UHashProps\<close>, \<open>UHashStrings\<close> (\<open>icu/uhash.c\<close>,
    \<open>uhash.h\<close>): primality of the table sizes, the operations, the invariant and the map they implement,
    the ledger of released keys and values, and the string keys; locale \<open>hash_keys\<close> is the contract of
    a hash function with its comparator, interpreted on the functions of the sources.
  \<^item> \<open>CString\<close> (\<open>icu/cstring.c\<close>): integers to text and case-insensitive comparison.
  \<^item> \<open>Utf8\<close> (\<open>icu/utf_impl.c\<close>, \<open>utf8.h\<close>): reading, writing and stepping back in UTF-8.
  \<^item> \<open>PropsVec\<close> (\<open>icu/propsvec.c\<close>): the row search, setting and reading; \<open>PropsCompact\<close> the compaction of the rows
    to their distinct vectors.
  \<^item> \<open>Bignum\<close>, \<open>BignumArith\<close>, \<open>BignumMul\<close>, \<open>BignumCmp\<close>, \<open>BignumPower\<close>, \<open>BignumText\<close>,
    \<open>BignumHex\<close>, \<open>BignumProps\<close> (\<open>dtoa/bignum.cc\<close>, \<open>bignum.h\<close>): the record of 128 chunks of 28 bits,
    every operation, and locale \<open>digit_numbers\<close>, the contract the digit generators use, interpreted on
    the model.
  \<^item> \<open>Ieee\<close> (\<open>dtoa/ieee.h\<close>, \<open>diy-fp.h\<close>, \<open>diy-fp.cc\<close>): doubles and floats as bit patterns.
  \<^item> \<open>BignumDtoa\<close> (\<open>dtoa/bignum-dtoa.cc\<close>): the exact conversion of a double to decimal digits;
    \<open>DtoaEstimate\<close> verifies the estimate of the decimal exponent, \<open>DtoaStart\<close> the start values,
    \<open>DtoaDigits\<close> and \<open>DtoaRound\<close> the modes fixed and precision, \<open>DtoaShortest\<close> the shortest mode.
  \<^item> \<open>FixedDtoa\<close> (\<open>dtoa/fixed-dtoa.cc\<close>): the fast conversion to a fixed number of digits; \<open>FixedDigits\<close>,
    \<open>FixedFraction\<close> and \<open>FixedProps\<close> verify it, with the locale \<open>fraction_loop\<close> for its 64-bit and
    128-bit digit loops.
  \<^item> \<open>CachedPowers\<close> (\<open>dtoa/cached-powers.cc\<close>): the table of powers of ten and its lookups; \<open>CachedTable\<close>
    evaluates the accuracy of all its rows, \<open>CachedProps\<close> the range the lookup covers.
  \<^item> \<open>FastDtoa\<close> (\<open>dtoa/fast-dtoa.cc\<close>): the Grisu3 conversions, shortest and with a given number of digits;
    \<open>GrisuScale\<close> and \<open>GrisuBounds\<close> verify the scaling of a double and of its boundaries, \<open>GrisuCounted\<close> and
    \<open>GrisuPrecision\<close> the counted digits, \<open>GrisuWeed\<close>, \<open>GrisuLoops\<close> and \<open>GrisuShortest\<close> the shortest ones, and
    \<open>FastProps\<close> states the results against the exact conversion.
  \<^item> \<open>DoubleConversion\<close> (\<open>dtoa/double-conversion.cc\<close>, the string builder of \<open>dtoa/utils.h\<close>, \<open>wtf/dtoa.cpp\<close>): the
    choice between the fast and the exact conversions and the notations; \<open>ConversionText\<close> shows that every step appends
    a text to the builder, \<open>ConversionProps\<close> verifies the dispatch and ECMAScript's number to string conversion,
    \<open>ConversionFixed\<close> the fixed notation, \<open>ConversionPrecision\<close> the notations with a given number of digits and
    the removal of zeros.

  \<^bold>\<open>Correspondence.\<close> A struct or class is a record with the fields of the source; a handler that
  changes state returns the new state; a routine that can abort, read outside an array or run for ever
  returns an option that is \<open>None\<close> then; ICU's error codes are integers that are passed through.
  Words are kept at their width where the code relies on it (chunks, double chunks, hash codes,
  code units), and C ints that stay far from their bounds are integers or natural numbers; where an
  index sum or a byte count can overflow, the overflow is \<open>None\<close> and the properties state the range
  without it (\<open>middle\<close> in the sort, \<open>row_bytes\<close> in the properties vectors). Loops are recursive functions
  named after the routine. Memory allocation is a predicate on the requested size, and the properties
  say what they assume of it. User callbacks are arguments, with their contract as a locale; a pointer
  that the code compares is an address with the object at it.

  \<^bold>\<open>What the lemmas show.\<close> Each component has an invariant that all its operations keep (sorted
  segments, probe paths without gaps, rows that partition the code points, clamped digits with zero
  chunks above) and the functional behaviour of each operation on all branches: the sort orders and
  permutes, the table implements a finite map and releases each object once, the properties vectors
  refine a function on code points, the big integers compute exactly or stop at their capacity, the
  UTF-8 readers accept exactly the well-formed sequences in the mode of \<open>U8_NEXT\<close>. The conversion of a double to digits, which composes the
  views of doubles, the estimate and the big integers, is correct for every positive finite double: the
  digits are the exact value rounded half up, or the shortest that lie between the boundaries; the fast conversions, when
  they report success, give such digits too, and the composition of all of them in \<open>numberToString\<close> is ECMAScript's
  conversion for every double. Errors of the sources that the model exposes are proved as such: the integer comparator
  overflows, \<open>uhash_iputi\<close> stores zeros, a failed rehash leaves the prime index of another length, the buffer for numbers is
  too small for the widest fixed notation.

  \<^bold>\<open>Bounds and fuel.\<close> The probe loop of the hash table has the table length as fuel; the primality
  of the length shows that every slot is visited within it. Loops whose end depends on values
  (\<open>reduce_loop\<close>, \<open>subtract_loop\<close>, \<open>shortest_loop\<close>, quick sort) are partial functions, and that
  they return is part of the properties. The capacity of 128 digits bounds the big integers; the powers
  and the decimal reader are shown to stay inside for all arguments below the stated limits.

  \<^bold>\<open>Not modelled.\<close> The engine itself (parser, bytecode, interpreter, compilers, runtime, collector,
  regular expressions, WebAssembly), the other services of ICU, and the reader of decimal text (\<open>strtod.cc\<close> and
  \<open>StringToIeee\<close> of \<open>double-conversion.cc\<close>, which compute in rounded double arithmetic); the manifest lists them
  with the reasons. The single-precision modes of the conversions are modelled without properties. The
  UTrie2 handler of the properties vectors is left out: it calls a builder for tries that is a service of its own.
\<close>

end
